(* ===== verification/Prelude.thy ===== *)
theory Prelude
  imports Main "HOL-Library.Word" "HOL-Library.Sublist" "HOL-Library.AList"
    "HOL-Library.Code_Target_Nat" "HOL-Library.Code_Target_Int"
begin

text \<open>
  Shared vocabulary of the development: bytes and machine integers, the result type of
  fallible code, association lists standing for the code's hash maps, and the generic
  list lemmas the components use.

  A hash map of the source is an association list with distinct keys
  (\<open>distinct (map fst m)\<close>); reads are \<^const>\<open>map_of\<close>, writes \<^const>\<open>AList.update\<close>,
  removals \<^const>\<open>AList.delete\<close>. Its iteration order is unspecified in the source, so
  nothing proved here depends on the order of the list unless the statement says so.
\<close>

named_theorems result_simps "rewrite rules for the result type"
named_theorems map_simps "rewrite rules for association lists read as hash maps"

subsection \<open>Machine integers\<close>

type_synonym byte = "8 word"
type_synonym u16 = "16 word"
type_synonym u32 = "32 word"
type_synonym u64 = "64 word"
type_synonym u128 = "128 word"

subsection \<open>Results\<close>

text \<open>
  \<open>Result<T>\<close> of the source is a sum with the error on the left. \<open>rbind\<close> is the
  \<open>?\<close> operator: it stops at the first error.
\<close>

definition rbind :: "'e + 'a \<Rightarrow> ('a \<Rightarrow> 'e + 'b) \<Rightarrow> 'e + 'b" where
  "rbind r f = (case r of Inl e \<Rightarrow> Inl e | Inr x \<Rightarrow> f x)"

lemma rbind_Inl [simp, result_simps]: "rbind (Inl e) f = Inl e"
  by (simp add: rbind_def)

lemma rbind_Inr [simp, result_simps]: "rbind (Inr x) f = f x"
  by (simp add: rbind_def)

lemma rbind_eq_Inr_iff [result_simps]:
  "rbind r f = Inr y \<longleftrightarrow> (\<exists>x. r = Inr x \<and> f x = Inr y)"
  by (cases r) auto

lemma rbind_cong [fundef_cong]:
  "r = r' \<Longrightarrow> (\<And>x. r' = Inr x \<Longrightarrow> f x = g x) \<Longrightarrow> rbind r f = rbind r' g"
  by (cases r') auto

definition is_ok :: "'e + 'a \<Rightarrow> bool" where
  "is_ok r = (case r of Inl _ \<Rightarrow> False | Inr _ \<Rightarrow> True)"

lemma is_ok_simps [simp, result_simps]:
  "is_ok (Inl e) = False" "is_ok (Inr x) = True"
  by (simp_all add: is_ok_def)

text \<open>\<open>Option::or\<close> / \<open>Option::or_else\<close>: the first value present.\<close>

definition or_else :: "'a option \<Rightarrow> 'a option \<Rightarrow> 'a option" where
  "or_else a b = (case a of None \<Rightarrow> b | Some x \<Rightarrow> Some x)"

lemma or_else_simps [simp]:
  "or_else None b = b" "or_else (Some x) b = Some x" "or_else a None = a"
  by (simp_all add: or_else_def split: option.splits)

lemma or_else_eq_None_iff [simp]: "or_else a b = None \<longleftrightarrow> a = None \<and> b = None"
  by (cases a) auto

subsection \<open>Association lists as hash maps\<close>

lemma map_of_update [simp, map_simps]: "map_of (AList.update k v m) = (map_of m)(k \<mapsto> v)"
  by (rule update_conv')

lemma length_delete_less: "(k, v) \<in> set m \<Longrightarrow> length (AList.delete k m) < length m"
  unfolding AList.delete_eq by (rule length_filter_less [of "(k, v)"]) simp_all

lemma map_of_alist_delete [simp, map_simps]: "map_of (AList.delete k m) = (map_of m)(k := None)"
  by (rule delete_conv')

lemma distinct_alist_delete [intro]:
  "distinct (map fst m) \<Longrightarrow> distinct (map fst (AList.delete k m))"
  by (rule distinct_delete)

lemma set_delete_subset: "set (AList.delete k m) \<subseteq> set m"
  by (auto simp: AList.delete_eq)

lemma delete_update_same: "AList.delete k (AList.update k v m) = AList.delete k m"
  by (induction m) auto

lemma alist_set_update: "set (AList.update k v m) \<subseteq> insert (k, v) (set m)"
  by (induction m) auto

lemma length_update_new:
  "k \<notin> fst ` set m \<Longrightarrow> length (AList.update k v m) = Suc (length m)"
  by (induction m) auto

lemma length_update_old:
  "k \<in> fst ` set m \<Longrightarrow> length (AList.update k v m) = length m"
  by (induction m) auto

lemma length_update:
  "length (AList.update k v m) = (if k \<in> fst ` set m then length m else Suc (length m))"
  by (simp add: length_update_new length_update_old)

lemma map_of_eq_None_keys: "map_of m k = None \<longleftrightarrow> k \<notin> fst ` set m"
  by (rule map_of_eq_None_iff)

lemma map_of_Some_key: "map_of m k = Some v \<Longrightarrow> k \<in> fst ` set m"
  by (metis map_of_eq_None_iff option.distinct(1))

text \<open>Sums over the values of a hash map.\<close>

definition alist_sum :: "('v \<Rightarrow> int) \<Rightarrow> ('k \<times> 'v) list \<Rightarrow> int" where
  "alist_sum f m = (\<Sum>kv\<leftarrow>m. f (snd kv))"

lemma alist_sum_simps [simp]:
  "alist_sum f [] = 0" "alist_sum f (kv # m) = f (snd kv) + alist_sum f m"
  by (simp_all add: alist_sum_def)

lemma alist_sum_update:
  "distinct (map fst m) \<Longrightarrow>
   alist_sum f (AList.update k v m) =
     alist_sum f m + f v - (case map_of m k of None \<Rightarrow> 0 | Some w \<Rightarrow> f w)"
  by (induction m) (auto simp: map_of_eq_None_keys split: option.splits)

lemma alist_delete_notin: "k \<notin> fst ` set m \<Longrightarrow> AList.delete k m = m"
  by (induction m) auto

lemma alist_sum_delete:
  "distinct (map fst m) \<Longrightarrow>
   alist_sum f (AList.delete k m) = alist_sum f m - (case map_of m k of None \<Rightarrow> 0 | Some w \<Rightarrow> f w)"
proof (induction m)
  case (Cons kv m)
  then show ?case
    by (cases "fst kv = k") (auto simp: alist_delete_notin)
qed simp

lemma alist_sum_nonneg: "(\<And>v. 0 \<le> f v) \<Longrightarrow> 0 \<le> alist_sum f m"
  by (induction m) (auto intro: add_nonneg_nonneg)

subsection \<open>Lists\<close>

text \<open>A read that reports an index out of range, where the code would panic.\<close>

definition nth_opt :: "'a list \<Rightarrow> nat \<Rightarrow> 'a option" where
  "nth_opt xs i = (if i < length xs then Some (xs ! i) else None)"

lemma nth_opt_Some [simp]: "i < length xs \<Longrightarrow> nth_opt xs i = Some (xs ! i)"
  by (simp add: nth_opt_def)

lemma nth_opt_None [simp]: "length xs \<le> i \<Longrightarrow> nth_opt xs i = None"
  by (simp add: nth_opt_def)

lemma nth_opt_eq_Some_iff: "nth_opt xs i = Some x \<longleftrightarrow> i < length xs \<and> xs ! i = x"
  by (auto simp: nth_opt_def)

lemma nth_list_update_full:
  "xs[i := x] ! j = (if i = j \<and> j < length xs then x else xs ! j)"
  by (cases "i < length xs") (auto simp: nth_list_update list_update_beyond)

text \<open>\<open>bslice xs a b\<close> is \<open>xs[a..b]\<close> for \<open>a \<le> b \<le> length xs\<close>.\<close>

definition bslice :: "'a list \<Rightarrow> nat \<Rightarrow> nat \<Rightarrow> 'a list" where
  "bslice xs a b = take (b - a) (drop a xs)"

lemma length_bslice [simp]: "b \<le> length xs \<Longrightarrow> length (bslice xs a b) = b - a"
  by (simp add: bslice_def)

lemma bslice_append1 [simp]: "b \<le> length xs \<Longrightarrow> bslice (xs @ ys) a b = bslice xs a b"
  by (auto simp: bslice_def)

lemma bslice_append2:
  "length xs \<le> a \<Longrightarrow> bslice (xs @ ys) a b = bslice ys (a - length xs) (b - length xs)"
  by (simp add: bslice_def)

lemma bslice_self [simp]: "bslice xs 0 (length xs) = xs"
  by (simp add: bslice_def)

lemma bslice_empty [simp]: "bslice xs a a = []"
  by (simp add: bslice_def)

lemma bslice_append:
  "a \<le> b \<Longrightarrow> b \<le> c \<Longrightarrow> bslice xs a b @ bslice xs b c = bslice xs a c"
proof -
  assume ab: "a \<le> b" and bc: "b \<le> c"
  have "take (c - a) (drop a xs) = take (b - a + (c - b)) (drop a xs)"
    using ab bc by simp
  also have "\<dots> = take (b - a) (drop a xs) @ take (c - b) (drop (b - a) (drop a xs))"
    by (rule take_add)
  also have "drop (b - a) (drop a xs) = drop b xs"
    using ab by simp
  finally show ?thesis by (simp add: bslice_def)
qed

end
