(* ===== verification/Rust_Std.thy ===== *)
theory Rust_Std
  imports Prelude
begin

text \<open>
  The parts of Rust's standard library the modelled code calls: UTF-8 strings (a \<open>&str\<close>
  is the list of its bytes, as HOL's \<^typ>\<open>string\<close>), trimming, splitting and case mapping,
  decimal parsing of unsigned integers, textual IP addresses, and big/little-endian byte
  conversions. Nothing here is a definition of the repository; the definitions follow the
  documented behaviour of \<open>core::str\<close>, \<open>core::num\<close> and \<open>core::net\<close>.
\<close>

subsection \<open>Characters\<close>

abbreviation code :: "char \<Rightarrow> nat" where
  "code c \<equiv> of_char c"

definition is_ascii_digit :: "char \<Rightarrow> bool" where
  "is_ascii_digit c = (48 \<le> code c \<and> code c \<le> 57)"

definition is_ascii_upper :: "char \<Rightarrow> bool" where
  "is_ascii_upper c = (65 \<le> code c \<and> code c \<le> 90)"

definition is_ascii_lower :: "char \<Rightarrow> bool" where
  "is_ascii_lower c = (97 \<le> code c \<and> code c \<le> 122)"

definition is_ascii_alphanumeric :: "char \<Rightarrow> bool" where
  "is_ascii_alphanumeric c = (is_ascii_digit c \<or> is_ascii_upper c \<or> is_ascii_lower c)"

definition ascii_lower :: "char \<Rightarrow> char" where
  "ascii_lower c = (if is_ascii_upper c then char_of (code c + 32) else c)"

abbreviation to_ascii_lowercase :: "string \<Rightarrow> string" where
  "to_ascii_lowercase s \<equiv> map ascii_lower s"

definition eq_ignore_ascii_case :: "string \<Rightarrow> string \<Rightarrow> bool" where
  "eq_ignore_ascii_case s t = (to_ascii_lowercase s = to_ascii_lowercase t)"

lemma code_less [simp]: "code c < 256"
  using of_char_mod_256 [of c] by (metis mod_less_divisor zero_less_numeral)

lemma ascii_lower_idem [simp]: "ascii_lower (ascii_lower c) = ascii_lower c"
  by (simp add: ascii_lower_def is_ascii_upper_def of_char_of)

lemma ascii_lower_not_upper [simp]: "\<not> is_ascii_upper (ascii_lower c)"
  by (simp add: ascii_lower_def is_ascii_upper_def of_char_of)

lemma ascii_lower_eq_self: "\<not> is_ascii_upper c \<Longrightarrow> ascii_lower c = c"
  by (simp add: ascii_lower_def)

lemma ascii_lower_eq_char:
  assumes "\<not> is_ascii_lower c" and "\<not> is_ascii_upper c"
  shows "ascii_lower d = c \<longleftrightarrow> d = c"
  using assms by (auto simp: ascii_lower_def is_ascii_upper_def is_ascii_lower_def of_char_of)

subsection \<open>Bytes of strings and integers\<close>

definition as_bytes :: "string \<Rightarrow> byte list" where
  "as_bytes s = map (\<lambda>c. of_nat (code c)) s"

definition from_bytes :: "byte list \<Rightarrow> string" where
  "from_bytes bs = map (\<lambda>b. char_of (unat b)) bs"

lemma unat_byte_less [simp]: "unat (b :: byte) < 256"
  using unsigned_less [of b, where ?'a = nat] by simp

lemma from_as_bytes [simp]: "from_bytes (as_bytes s) = s"
  by (induction s) (simp_all add: from_bytes_def as_bytes_def unat_of_nat)

lemma as_from_bytes [simp]: "as_bytes (from_bytes bs) = bs"
  by (induction bs) (simp_all add: from_bytes_def as_bytes_def of_char_of)

lemma as_bytes_inj [simp]: "as_bytes s = as_bytes t \<longleftrightarrow> s = t"
  by (metis from_as_bytes)

lemma length_as_bytes [simp]: "length (as_bytes s) = length s"
  by (simp add: as_bytes_def)

lemma as_bytes_append [simp]: "as_bytes (s @ t) = as_bytes s @ as_bytes t"
  by (simp add: as_bytes_def)

lemma as_bytes_Nil [simp]: "as_bytes [] = []"
  by (simp add: as_bytes_def)

fun nat_be :: "nat \<Rightarrow> nat \<Rightarrow> byte list" where
  "nat_be 0 v = []"
| "nat_be (Suc n) v = nat_be n (v div 256) @ [of_nat v]"

definition be_nat :: "byte list \<Rightarrow> nat" where
  "be_nat bs = foldl (\<lambda>a b. a * 256 + unat b) 0 bs"

fun nat_le :: "nat \<Rightarrow> nat \<Rightarrow> byte list" where
  "nat_le 0 v = []"
| "nat_le (Suc n) v = of_nat v # nat_le n (v div 256)"

fun le_nat :: "byte list \<Rightarrow> nat" where
  "le_nat [] = 0"
| "le_nat (b # bs) = unat b + 256 * le_nat bs"

lemma length_nat_be [simp]: "length (nat_be n v) = n"
  by (induction n v rule: nat_be.induct) auto

lemma length_nat_le [simp]: "length (nat_le n v) = n"
  by (induction n v rule: nat_le.induct) auto

lemma be_nat_Nil [simp]: "be_nat [] = 0"
  by (simp add: be_nat_def)

lemma be_nat_snoc [simp]: "be_nat (bs @ [b]) = be_nat bs * 256 + unat b"
  by (simp add: be_nat_def)

lemma unat_byte_of_nat: "unat (of_nat v :: byte) = v mod 256"
  by (simp add: unat_of_nat)

lemma be_nat_nat_be: "be_nat (nat_be n v) = v mod 256 ^ n"
proof (induction n arbitrary: v)
  case (Suc n)
  then show ?case
    by (simp add: unat_byte_of_nat mod_mult2_eq mult.commute)
qed simp

lemma nat_be_be_nat: "nat_be (length bs) (be_nat bs) = bs"
proof (induction bs rule: rev_induct)
  case (snoc b bs)
  have zero: "(256 :: byte) = 0"
    by simp
  have "of_nat (be_nat bs * 256 + unat b) = (of_nat (be_nat bs) * 256 + b :: byte)"
    by simp
  also have "\<dots> = b"
    by (simp only: zero) simp
  finally show ?case
    using snoc by simp
qed simp

lemma be_nat_less: "be_nat bs < 256 ^ length bs"
proof (induction bs rule: rev_induct)
  case (snoc b bs)
  have "be_nat bs + 1 \<le> 256 ^ length bs"
    using snoc by simp
  then have le: "(be_nat bs + 1) * 256 \<le> 256 ^ length bs * 256"
    by (rule mult_le_mono1)
  have "be_nat bs * 256 + unat b < (be_nat bs + 1) * 256"
    using unat_byte_less [of b] by simp
  then have "be_nat bs * 256 + unat b < 256 ^ length bs * 256"
    using le by (rule less_le_trans)
  then show ?case by (simp add: mult.commute)
qed simp

lemma le_nat_nat_le: "le_nat (nat_le n v) = v mod 256 ^ n"
  by (induction n arbitrary: v) (simp_all add: unat_byte_of_nat mod_mult2_eq)

definition to_be16 :: "u16 \<Rightarrow> byte list" where
  "to_be16 w = nat_be 2 (unat w)"

definition from_be16 :: "byte list \<Rightarrow> u16" where
  "from_be16 bs = of_nat (be_nat bs)"

definition to_be32 :: "u32 \<Rightarrow> byte list" where
  "to_be32 w = nat_be 4 (unat w)"

definition from_be32 :: "byte list \<Rightarrow> u32" where
  "from_be32 bs = of_nat (be_nat bs)"

definition to_be64 :: "u64 \<Rightarrow> byte list" where
  "to_be64 w = nat_be 8 (unat w)"

definition from_be64 :: "byte list \<Rightarrow> u64" where
  "from_be64 bs = of_nat (be_nat bs)"

definition to_be128 :: "u128 \<Rightarrow> byte list" where
  "to_be128 w = nat_be 16 (unat w)"

definition from_be128 :: "byte list \<Rightarrow> u128" where
  "from_be128 bs = of_nat (be_nat bs)"

lemmas be_defs =
  to_be16_def from_be16_def to_be32_def from_be32_def
  to_be64_def from_be64_def to_be128_def from_be128_def

lemma length_to_be [simp]:
  "length (to_be16 a) = 2" "length (to_be32 b) = 4"
  "length (to_be64 c) = 8" "length (to_be128 d) = 16"
  by (simp_all add: be_defs)

lemma from_to_be16 [simp]: "from_be16 (to_be16 w) = w"
  using unsigned_less [of w, where ?'a = nat] by (simp add: be_defs be_nat_nat_be)

lemma from_to_be32 [simp]: "from_be32 (to_be32 w) = w"
  using unsigned_less [of w, where ?'a = nat] by (simp add: be_defs be_nat_nat_be)

lemma from_to_be64 [simp]: "from_be64 (to_be64 w) = w"
  using unsigned_less [of w, where ?'a = nat] by (simp add: be_defs be_nat_nat_be)

lemma from_to_be128 [simp]: "from_be128 (to_be128 w) = w"
  using unsigned_less [of w, where ?'a = nat] by (simp add: be_defs be_nat_nat_be)

lemma to_from_be16: "length bs = 2 \<Longrightarrow> to_be16 (from_be16 bs) = bs"
  using be_nat_less [of bs] nat_be_be_nat [of bs] by (simp add: be_defs unat_of_nat)

lemma to_from_be32: "length bs = 4 \<Longrightarrow> to_be32 (from_be32 bs) = bs"
  using be_nat_less [of bs] nat_be_be_nat [of bs] by (simp add: be_defs unat_of_nat)

lemma to_from_be128: "length bs = 16 \<Longrightarrow> to_be128 (from_be128 bs) = bs"
  using be_nat_less [of bs] nat_be_be_nat [of bs] by (simp add: be_defs unat_of_nat)

subsection \<open>Strings\<close>

text \<open>\<open>str::split(c)\<close>: always at least one piece, the empty string included.\<close>

fun split_on :: "char \<Rightarrow> string \<Rightarrow> string list" where
  "split_on c [] = [[]]"
| "split_on c (x # xs) =
     (if x = c then [] # split_on c xs
      else (case split_on c xs of [] \<Rightarrow> [[x]] | y # ys \<Rightarrow> (x # y) # ys))"

text \<open>\<open>[&str]::join\<close> with a one-character separator.\<close>

fun join_with :: "char \<Rightarrow> string list \<Rightarrow> string" where
  "join_with c [] = []"
| "join_with c [s] = s"
| "join_with c (s # t # ts) = s @ c # join_with c (t # ts)"

definition split_once :: "char \<Rightarrow> string \<Rightarrow> (string \<times> string) option" where
  "split_once c s =
     (if c \<in> set s then Some (takeWhile (\<lambda>x. x \<noteq> c) s, tl (dropWhile (\<lambda>x. x \<noteq> c) s))
      else None)"

text \<open>\<open>rsplit_once\<close> at the last occurrence of a character.\<close>

definition rsplit_once :: "char \<Rightarrow> string \<Rightarrow> (string \<times> string) option" where
  "rsplit_once c s = map_option (\<lambda>(b, a). (rev a, rev b)) (split_once c (rev s))"

definition strip_prefix :: "string \<Rightarrow> string \<Rightarrow> string option" where
  "strip_prefix p s = (if prefix p s then Some (drop (length p) s) else None)"

definition strip_suffix :: "string \<Rightarrow> string \<Rightarrow> string option" where
  "strip_suffix p s = (if suffix p s then Some (take (length s - length p) s) else None)"

definition trim_end_char :: "char \<Rightarrow> string \<Rightarrow> string" where
  "trim_end_char c s = rev (dropWhile (\<lambda>x. x = c) (rev s))"

text \<open>
  \<open>str::trim\<close> removes the Unicode \<open>White_Space\<close> characters at both ends. These are
  their UTF-8 encodings.
\<close>

definition white_space :: "string list" where
  "white_space =
     [[CHR 0x09], [CHR 0x0A], [CHR 0x0B], [CHR 0x0C], [CHR 0x0D], [CHR 0x20],
      [CHR 0xC2, CHR 0x85], [CHR 0xC2, CHR 0xA0], [CHR 0xE1, CHR 0x9A, CHR 0x80],
      [CHR 0xE2, CHR 0x80, CHR 0x80], [CHR 0xE2, CHR 0x80, CHR 0x81],
      [CHR 0xE2, CHR 0x80, CHR 0x82], [CHR 0xE2, CHR 0x80, CHR 0x83],
      [CHR 0xE2, CHR 0x80, CHR 0x84], [CHR 0xE2, CHR 0x80, CHR 0x85],
      [CHR 0xE2, CHR 0x80, CHR 0x86], [CHR 0xE2, CHR 0x80, CHR 0x87],
      [CHR 0xE2, CHR 0x80, CHR 0x88], [CHR 0xE2, CHR 0x80, CHR 0x89],
      [CHR 0xE2, CHR 0x80, CHR 0x8A], [CHR 0xE2, CHR 0x80, CHR 0xA8],
      [CHR 0xE2, CHR 0x80, CHR 0xA9], [CHR 0xE2, CHR 0x80, CHR 0xAF],
      [CHR 0xE2, CHR 0x81, CHR 0x9F], [CHR 0xE3, CHR 0x80, CHR 0x80]]"

function strip_front :: "string list \<Rightarrow> string \<Rightarrow> string" where
  "strip_front ws s =
     (case find (\<lambda>w. w \<noteq> [] \<and> prefix w s) ws of
        None \<Rightarrow> s
      | Some w \<Rightarrow> strip_front ws (drop (length w) s))"
  by pat_completeness auto
termination
proof (relation "measure (\<lambda>(ws, s). length s)", simp)
  fix ws s w
  assume "find (\<lambda>w. w \<noteq> [] \<and> prefix w s) ws = Some w"
  then have "w \<noteq> []" and "prefix w s"
    by (auto simp: find_Some_iff)
  then show "((ws, drop (length w) s), ws, s) \<in> measure (\<lambda>(ws, s). length s)"
    by (cases w) (auto simp: prefix_def)
qed

declare strip_front.simps [simp del]

definition trim_start :: "string \<Rightarrow> string" where
  "trim_start s = strip_front white_space s"

definition trim_end :: "string \<Rightarrow> string" where
  "trim_end s = rev (strip_front (map rev white_space) (rev s))"

definition trim :: "string \<Rightarrow> string" where
  "trim s = trim_end (trim_start s)"

lemma split_on_not_Nil [simp]: "split_on c s \<noteq> []"
  by (cases s) (auto split: list.splits)

lemma split_on_pieces: "p \<in> set (split_on c s) \<Longrightarrow> c \<notin> set p"
proof (induction s arbitrary: p)
  case (Cons x s)
  then show ?case
    by (cases "split_on c s") (auto split: if_splits)
qed simp

lemma split_on_no_sep: "c \<notin> set s \<Longrightarrow> split_on c s = [s]"
  by (induction s) auto

lemma split_on_append_sep:
  "c \<notin> set s \<Longrightarrow> split_on c (s @ c # t) = s # split_on c t"
  by (induction s) auto

lemma join_split [simp]: "join_with c (split_on c s) = s"
proof (induction s)
  case (Cons x s)
  then show ?case
    by (cases "split_on c s" rule: remdups_adj.cases) auto
qed simp

lemma split_join:
  "ls \<noteq> [] \<Longrightarrow> (\<And>l. l \<in> set ls \<Longrightarrow> c \<notin> set l) \<Longrightarrow> split_on c (join_with c ls) = ls"
proof (induction ls rule: join_with.induct)
  case (3 c s t ts)
  then show ?case by (simp add: split_on_append_sep)
qed (auto simp: split_on_no_sep)

lemma join_with_inj:
  assumes "ls \<noteq> []" "ms \<noteq> []"
    and "\<And>l. l \<in> set ls \<Longrightarrow> c \<notin> set l" "\<And>l. l \<in> set ms \<Longrightarrow> c \<notin> set l"
  shows "join_with c ls = join_with c ms \<longleftrightarrow> ls = ms"
  using assms split_join by metis

lemma set_split_on: "p \<in> set (split_on c s) \<Longrightarrow> set p \<subseteq> set s"
proof (induction s arbitrary: p)
  case (Cons x s)
  then show ?case
    by (cases "split_on c s") (fastforce split: if_splits)+
qed simp

lemma length_join_with:
  "length (join_with c ls) = sum_list (map length ls) + (length ls - 1)"
  by (induction c ls rule: join_with.induct) auto

lemma join_with_Cons: "ls \<noteq> [] \<Longrightarrow> join_with c (l # ls) = l @ c # join_with c ls"
  by (cases ls) auto

lemma join_with_snoc: "ls \<noteq> [] \<Longrightarrow> join_with c (ls @ [l]) = join_with c ls @ c # l"
  by (induction c ls rule: join_with.induct) auto

text \<open>Trimming does nothing to a string whose ends are not white space.\<close>

lemma strip_front_id: "find (\<lambda>w. w \<noteq> [] \<and> prefix w s) ws = None \<Longrightarrow> strip_front ws s = s"
  by (simp add: strip_front.simps)

definition plain_char :: "char \<Rightarrow> bool" where
  "plain_char c = (32 < code c \<and> code c < 128)"

lemma white_space_not_plain:
  "list_all (\<lambda>w. w \<noteq> [] \<and> \<not> plain_char (hd w) \<and> \<not> plain_char (last w)) white_space"
  by (simp add: white_space_def plain_char_def)

lemma strip_front_white_plain:
  assumes "s = [] \<or> plain_char (hd s)"
  shows "strip_front white_space s = s"
proof (rule strip_front_id, unfold find_None_iff, rule notI)
  assume "\<exists>w. w \<in> set white_space \<and> w \<noteq> [] \<and> prefix w s"
  then obtain w where "w \<in> set white_space" "w \<noteq> []" "prefix w s"
    by blast
  with assms white_space_not_plain show False
    by (cases w) (auto simp: list_all_iff prefix_def)
qed

lemma strip_front_white_rev_plain:
  assumes "s = [] \<or> plain_char (hd s)"
  shows "strip_front (map rev white_space) s = s"
proof (rule strip_front_id, unfold find_None_iff, rule notI)
  assume "\<exists>w. w \<in> set (map rev white_space) \<and> w \<noteq> [] \<and> prefix w s"
  then obtain w where "w \<in> set white_space" "w \<noteq> []" "prefix (rev w) s"
    by auto
  with assms white_space_not_plain show False
    by (cases w rule: rev_cases) (auto simp: list_all_iff prefix_def)
qed

lemma trim_plain:
  assumes "\<And>c. c \<in> set s \<Longrightarrow> plain_char c"
  shows "trim s = s"
proof -
  have "s = [] \<or> plain_char (hd s)"
    using assms hd_in_set by blast
  moreover have "rev s = [] \<or> plain_char (hd (rev s))"
    using assms hd_in_set [of "rev s"] by (metis set_rev)
  ultimately show ?thesis
    by (simp add: trim_def trim_start_def trim_end_def strip_front_white_plain
        strip_front_white_rev_plain)
qed

lemma trim_end_char_id: "s = [] \<or> last s \<noteq> c \<Longrightarrow> trim_end_char c s = s"
  by (cases s rule: rev_cases) (auto simp: trim_end_char_def)

lemma last_trim_end_char: "trim_end_char c s \<noteq> [] \<Longrightarrow> last (trim_end_char c s) \<noteq> c"
  using hd_dropWhile [of "\<lambda>x. x = c" "rev s"] by (auto simp: trim_end_char_def last_rev)

subsection \<open>Decimal and hexadecimal numbers\<close>

definition to_digit :: "nat \<Rightarrow> char \<Rightarrow> nat option" where
  "to_digit radix c =
     (let d = (if is_ascii_digit c then code c - 48
               else if is_ascii_lower c then code c - 87
               else if is_ascii_upper c then code c - 55
               else 99)
      in if d < radix then Some d else None)"

fun digits_value :: "nat \<Rightarrow> nat \<Rightarrow> string \<Rightarrow> nat option" where
  "digits_value radix acc [] = Some acc"
| "digits_value radix acc (c # cs) =
     (case to_digit radix c of
        None \<Rightarrow> None
      | Some d \<Rightarrow> digits_value radix (acc * radix + d) cs)"

text \<open>
  \<open>uN::from_str_radix\<close>: an optional leading \<open>+\<close>, at least one digit, and a value below
  \<open>2 ^ N\<close>.
\<close>

definition parse_uint :: "nat \<Rightarrow> nat \<Rightarrow> string \<Rightarrow> nat option" where
  "parse_uint bits radix s =
     (let ds = (case s of [] \<Rightarrow> [] | c # cs \<Rightarrow> if c = CHR ''+'' then cs else s)
      in if ds = [] then None
         else case digits_value radix 0 ds of
                None \<Rightarrow> None
              | Some v \<Rightarrow> if v < 2 ^ bits then Some v else None)"

definition parse_u16 :: "string \<Rightarrow> u16 option" where
  "parse_u16 s = map_option of_nat (parse_uint 16 10 s)"

fun show_nat :: "nat \<Rightarrow> string" where
  "show_nat n = (if n < 10 then [char_of (48 + n)] else show_nat (n div 10) @ [char_of (48 + n mod 10)])"

declare show_nat.simps [simp del]

subsection \<open>Textual IP addresses\<close>

text \<open>
  The recursive-descent parser of \<open>core::net\<close>: each reader takes the remaining input and
  returns the value and the rest, or \<open>None\<close> with nothing consumed.
\<close>

definition read_number :: "nat \<Rightarrow> nat \<Rightarrow> bool \<Rightarrow> nat \<Rightarrow> string \<Rightarrow> (nat \<times> string) option" where
  "read_number radix max_digits allow_zero_prefix bits s =
     (let ds = takeWhile (\<lambda>c. to_digit radix c \<noteq> None) s in
      if length ds > max_digits \<or> ds = []
         \<or> (\<not> allow_zero_prefix \<and> hd ds = CHR ''0'' \<and> length ds > 1) then None
      else case digits_value radix 0 ds of
             None \<Rightarrow> None
           | Some v \<Rightarrow> if v < 2 ^ bits then Some (v, drop (length ds) s) else None)"

definition read_given_char :: "char \<Rightarrow> string \<Rightarrow> string option" where
  "read_given_char c s = (case s of [] \<Rightarrow> None | x # xs \<Rightarrow> if x = c then Some xs else None)"

definition read_separator ::
  "char \<Rightarrow> nat \<Rightarrow> (string \<Rightarrow> ('a \<times> string) option) \<Rightarrow> string \<Rightarrow> ('a \<times> string) option" where
  "read_separator sep index f s =
     (if index > 0 then Option.bind (read_given_char sep s) f else f s)"

definition read_ipv4_addr :: "string \<Rightarrow> (byte list \<times> string) option" where
  "read_ipv4_addr s0 =
     (let num = read_number 10 3 False 8 in
      Option.bind (read_separator CHR ''.'' 0 num s0) (\<lambda>(a, s1).
      Option.bind (read_separator CHR ''.'' 1 num s1) (\<lambda>(b, s2).
      Option.bind (read_separator CHR ''.'' 2 num s2) (\<lambda>(c, s3).
      Option.bind (read_separator CHR ''.'' 3 num s3) (\<lambda>(d, s4).
        Some ([of_nat a, of_nat b, of_nat c, of_nat d], s4))))))"

text \<open>
  \<open>read_groups\<close> fills at most \<open>limit\<close> groups; it returns the groups read, whether an
  embedded IPv4 address ended them, and the rest of the input. The recursion counts the
  slots left.
\<close>

fun read_groups :: "nat \<Rightarrow> nat \<Rightarrow> string \<Rightarrow> nat list \<times> bool \<times> string" where
  "read_groups limit 0 s = ([], False, s)"
| "read_groups limit (Suc left) s =
     (let i = limit - Suc left;
          v4 = (if i < limit - 1 then read_separator CHR '':'' i read_ipv4_addr s else None)
      in case v4 of
           Some (os, s') \<Rightarrow> ([be_nat (take 2 os), be_nat (drop 2 os)], True, s')
         | None \<Rightarrow>
             (case read_separator CHR '':'' i (read_number 16 4 True 16) s of
                None \<Rightarrow> ([], False, s)
              | Some (g, s') \<Rightarrow>
                  (let (gs, v4', s'') = read_groups limit left s' in (g # gs, v4', s''))))"

definition groups_value :: "nat list \<Rightarrow> nat" where
  "groups_value gs = foldl (\<lambda>a g. a * 65536 + g) 0 gs"

definition read_ipv6_addr :: "string \<Rightarrow> (u128 \<times> string) option" where
  "read_ipv6_addr s =
     (let (head, head_ipv4, s1) = read_groups 8 8 s in
      if length head = 8 then Some (of_nat (groups_value head), s1)
      else if head_ipv4 then None
      else Option.bind (read_given_char CHR '':'' s1) (\<lambda>s2.
           Option.bind (read_given_char CHR '':'' s2) (\<lambda>s3.
             let limit = 8 - (length head + 1);
                 (tail, _, s4) = read_groups limit limit s3;
                 zeros = replicate (8 - length head - length tail) 0
             in Some (of_nat (groups_value (head @ zeros @ tail)), s4))))"

subsection \<open>Display of IP addresses\<close>

fun show_hex :: "nat \<Rightarrow> string" where
  "show_hex n =
     (if n < 16 then [char_of (if n < 10 then 48 + n else 87 + n)]
      else show_hex (n div 16) @ show_hex (n mod 16))"

declare show_hex.simps [simp del]

definition show_ipv4 :: "u32 \<Rightarrow> string" where
  "show_ipv4 w = join_with CHR ''.'' (map (\<lambda>b. show_nat (unat b)) (to_be32 w))"

definition segments :: "u128 \<Rightarrow> nat list" where
  "segments w = map (\<lambda>i. be_nat (bslice (to_be128 w) (2 * i) (2 * i + 2))) [0..<8]"

text \<open>
  The longest run of zero segments, the first of equal length: \<open>(start, len)\<close>. The arguments
  are the index, the current run and the longest run so far.
\<close>

fun longest_zeros :: "nat \<Rightarrow> nat \<times> nat \<Rightarrow> nat \<times> nat \<Rightarrow> nat list \<Rightarrow> nat \<times> nat" where
  "longest_zeros i current longest [] = longest"
| "longest_zeros i current longest (s # ss) =
     (if s = 0 then
        (let c = (if snd current = 0 then i else fst current, snd current + 1)
         in longest_zeros (Suc i) c (if snd c > snd longest then c else longest) ss)
      else longest_zeros (Suc i) (0, 0) longest ss)"

definition show_segments :: "nat list \<Rightarrow> string" where
  "show_segments ss = join_with CHR '':'' (map show_hex ss)"

definition show_ipv6 :: "u128 \<Rightarrow> string" where
  "show_ipv6 w =
     (let ss = segments w in
      if take 6 ss = [0, 0, 0, 0, 0, 0xffff]
      then ''::ffff:'' @ show_ipv4 (from_be32 (drop 12 (to_be128 w)))
      else
        (let (start, len) = longest_zeros 0 (0, 0) (0, 0) ss in
         if len > 1 then show_segments (take start ss) @ ''::'' @ show_segments (drop (start + len) ss)
         else show_segments ss))"

lemma to_digit_char_of: "d < 10 \<Longrightarrow> to_digit 10 (char_of (48 + d)) = Some d"
  by (simp add: to_digit_def is_ascii_digit_def of_char_of)

lemma digits_value_append:
  "digits_value r acc (s @ t) = (case digits_value r acc s of None \<Rightarrow> None | Some a \<Rightarrow> digits_value r a t)"
  by (induction s arbitrary: acc) (auto split: option.splits)

lemma digits_value_show_nat: "digits_value 10 0 (show_nat n) = Some n"
proof (induction n rule: show_nat.induct)
  case (1 n)
  show ?case
  proof (cases "n < 10")
    case True
    then show ?thesis
      by (simp add: show_nat.simps [of n] to_digit_char_of)
  next
    case False
    then show ?thesis
      using 1 by (simp add: show_nat.simps [of n] digits_value_append to_digit_char_of)
  qed
qed

lemma show_nat_digits: "c \<in> set (show_nat n) \<Longrightarrow> to_digit 10 c \<noteq> None"
proof (induction n arbitrary: c rule: show_nat.induct)
  case (1 n)
  show ?case
  proof (cases "n < 10")
    case True
    with 1(2) show ?thesis
      by (simp add: show_nat.simps [of n] to_digit_char_of)
  next
    case False
    then have "c \<in> set (show_nat (n div 10)) \<or> c = char_of (48 + n mod 10)"
      using 1(2) by (auto simp: show_nat.simps [of n])
    then show ?thesis
      using 1(1) [OF False] to_digit_char_of [of "n mod 10"] by auto
  qed
qed

lemma show_nat_not_Nil [simp]: "show_nat n \<noteq> []"
  by (simp add: show_nat.simps [of n])

lemma hd_show_nat: "hd (show_nat n) = CHR ''+'' \<longleftrightarrow> False"
proof -
  have "hd (show_nat n) \<in> set (show_nat n)"
    by simp
  then have "to_digit 10 (hd (show_nat n)) \<noteq> None"
    by (rule show_nat_digits)
  then show ?thesis
    by (auto simp: to_digit_def is_ascii_digit_def is_ascii_lower_def is_ascii_upper_def)
qed

lemma parse_uint_show_nat: "n < 2 ^ bits \<Longrightarrow> parse_uint bits 10 (show_nat n) = Some n"
proof -
  assume n: "n < 2 ^ bits"
  obtain c cs where cs: "show_nat n = c # cs"
    using show_nat_not_Nil [of n] by (cases "show_nat n") auto
  then have "c \<noteq> CHR ''+''"
    using hd_show_nat [of n] by simp
  then show ?thesis
    using n digits_value_show_nat [of n] cs by (simp add: parse_uint_def)
qed

lemma char_of_digit_zero:
  assumes "d < 10"
  shows "char_of (48 + d :: nat) = CHR ''0'' \<longleftrightarrow> d = 0"
proof -
  have zero: "CHR ''0'' = char_of (48 :: nat)"
    by code_simp
  have "char_of (48 + d) = char_of (48 :: nat) \<Longrightarrow> code (char_of (48 + d)) = code (char_of (48 :: nat))"
    by simp
  with assms show ?thesis
    unfolding zero by (auto simp: of_char_of)
qed

lemma show_nat_byte:
  assumes "n < 256"
  shows "length (show_nat n) \<le> 3 \<and> (hd (show_nat n) = CHR ''0'' \<longrightarrow> length (show_nat n) = 1)"
proof -
  have one: "show_nat d = [char_of (48 + d)]" if "d < 10" for d
    using that by (simp add: show_nat.simps [of d])
  have two: "show_nat d = [char_of (48 + d div 10), char_of (48 + d mod 10)]" if "10 \<le> d" "d < 100" for d
    using that one [of "d div 10"] by (simp add: show_nat.simps [of d])
  have three: "show_nat n = show_nat (n div 10) @ [char_of (48 + n mod 10)]" if "100 \<le> n"
    using that by (simp add: show_nat.simps [of n])
  have ten: "10 \<le> n div 10" "n div 10 < 100" if "100 \<le> n"
    using that assms by auto
  consider "n < 10" | "10 \<le> n" "n < 100" | "100 \<le> n"
    by linarith
  then show ?thesis
  proof cases
    case 1
    then show ?thesis by (simp add: one)
  next
    case 2
    then show ?thesis
      using char_of_digit_zero [of "n div 10"] by (simp add: two)
  next
    case 3
    have "n div 10 div 10 < 10" "n div 10 div 10 \<noteq> 0"
      using 3 assms by auto
    then show ?thesis
      using 3 ten char_of_digit_zero [of "n div 10 div 10"] by (simp add: three two)
  qed
qed

lemma read_number_show_nat:
  assumes "n < 256" "rest = [] \<or> to_digit 10 (hd rest) = None"
  shows "read_number 10 3 False 8 (show_nat n @ rest) = Some (n, rest)"
proof -
  have "takeWhile (\<lambda>c. to_digit 10 c \<noteq> None) (show_nat n @ rest) = show_nat n"
    using assms(2) show_nat_digits [of _ n]
    by (cases rest) (auto simp: takeWhile_append2 takeWhile_tail)
  with assms show_nat_byte [OF assms(1)] digits_value_show_nat [of n] show ?thesis
    by (auto simp: read_number_def Let_def)
qed

lemma dot_not_digit: "to_digit 10 CHR ''.'' = None"
  by (simp add: to_digit_def is_ascii_digit_def is_ascii_lower_def is_ascii_upper_def)

lemma nat_be_4: "nat_be 4 v = [of_nat (v div 256 div 256 div 256), of_nat (v div 256 div 256), of_nat (v div 256), of_nat v]"
proof -
  have "nat_be (Suc (Suc (Suc (Suc 0)))) v = [of_nat (v div 256 div 256 div 256), of_nat (v div 256 div 256), of_nat (v div 256), of_nat v]"
    by (simp only: nat_be.simps append.simps)
  then show ?thesis
    by (simp only: numeral_nat One_nat_def)
qed

lemma read_show_dotted:
  "read_ipv4_addr (join_with CHR ''.'' (map (\<lambda>b. show_nat (unat b)) [a, b, c, d :: byte])) = Some ([a, b, c, d], [])"
proof -
  have last: "read_number 10 3 False 8 (show_nat (unat x)) = Some (unat x, [])" for x :: byte
    using read_number_show_nat [of "unat x" "[]"] by simp
  have mid: "read_number 10 3 False 8 (show_nat (unat x) @ CHR ''.'' # r) = Some (unat x, CHR ''.'' # r)" for x :: byte and r
    using read_number_show_nat [of "unat x" "CHR ''.'' # r"] dot_not_digit by simp
  show ?thesis
    by (simp add: read_ipv4_addr_def read_separator_def Let_def read_given_char_def mid last)
qed

lemma read_show_ipv4: "read_ipv4_addr (show_ipv4 w) = Some (to_be32 w, [])"
  unfolding show_ipv4_def to_be32_def nat_be_4 by (rule read_show_dotted)

subsection \<open>Iterators\<close>

text \<open>\<open>Iterator::min_by_key\<close>: of several least elements the first.\<close>

fun min_by_key :: "('a \<Rightarrow> 'k :: linorder) \<Rightarrow> 'a list \<Rightarrow> 'a option" where
  "min_by_key f [] = None"
| "min_by_key f (x # xs) =
     (case min_by_key f xs of
        None \<Rightarrow> Some x
      | Some y \<Rightarrow> if f y < f x then Some y else Some x)"

lemma min_by_key_insort:
  "min_by_key f xs = (case sort_key f xs of [] \<Rightarrow> None | y # _ \<Rightarrow> Some y)"
proof (induction xs)
  case (Cons x xs)
  then show ?case
    by (cases "sort_key f xs") auto
qed simp

lemma min_by_key_find:
  "min_by_key f (filter P xs) = find P (sort_key f xs)"
proof -
  have "find P ys = (case filter P ys of [] \<Rightarrow> None | y # _ \<Rightarrow> Some y)" for ys :: "'a list"
    by (induction ys) auto
  then show ?thesis
    by (simp add: min_by_key_insort filter_sort)
qed

lemma min_by_key_in: "min_by_key f xs = Some x \<Longrightarrow> x \<in> set xs"
  by (induction xs arbitrary: x) (auto split: option.splits if_splits)

subsection \<open>Sizes\<close>

text \<open>A \<open>usize\<close> of 64 bits as a natural number.\<close>

definition checked_add :: "nat \<Rightarrow> nat \<Rightarrow> nat option" where
  "checked_add a b = (if a + b < 2 ^ 64 then Some (a + b) else None)"

definition checked_sub :: "nat \<Rightarrow> nat \<Rightarrow> nat option" where
  "checked_sub a b = (if b \<le> a then Some (a - b) else None)"

definition saturating_add :: "nat \<Rightarrow> nat \<Rightarrow> nat" where
  "saturating_add a b = min (a + b) (2 ^ 64 - 1)"

definition saturating_mul :: "nat \<Rightarrow> nat \<Rightarrow> nat" where
  "saturating_mul a b = min (a * b) (2 ^ 64 - 1)"

subsection \<open>Chunks\<close>

text \<open>\<open>slice::chunks\<close>.\<close>

function chunks :: "nat \<Rightarrow> 'a list \<Rightarrow> 'a list list" where
  "chunks n xs = (if xs = [] \<or> n = 0 then [] else take n xs # chunks n (drop n xs))"
  by pat_completeness auto
termination
  by (relation "measure (\<lambda>(n, xs). length xs)") auto

declare chunks.simps [simp del]

lemma chunks_concat: "n \<noteq> 0 \<Longrightarrow> concat (chunks n xs) = xs"
  by (induction n xs rule: chunks.induct) (subst chunks.simps, auto)

lemma length_chunks: "0 < n \<Longrightarrow> length (chunks n xs) = (length xs + n - 1) div n"
proof (induction n xs rule: chunks.induct)
  case (1 n xs)
  show ?case
  proof (cases "xs = []")
    case False
    then have "length (chunks n xs) = Suc ((length xs - n + n - 1) div n)"
      using 1 by (subst chunks.simps) simp
    also have "\<dots> = (length xs + n - 1) div n"
    proof (cases "n \<le> length xs")
      case True
      then have "Suc ((length xs - n + n - 1) div n) = (n + (length xs - 1)) div n"
        using \<open>0 < n\<close> by (subst div_add_self1) simp_all
      also have "n + (length xs - 1) = length xs + n - 1"
        using True \<open>0 < n\<close> by simp
      finally show ?thesis .
    next
      case False
      have "0 < length xs"
        using \<open>xs \<noteq> []\<close> by simp
      then have "n * 1 \<le> length xs + n - 1" "length xs + n - 1 < n * Suc 1"
        using False by (simp_all, linarith+)
      then have "(length xs + n - 1) div n = 1"
        by (intro div_nat_eqI) simp_all
      then show ?thesis
        using False \<open>0 < n\<close> by simp
    qed
    finally show ?thesis .
  qed (use 1 in \<open>simp add: chunks.simps\<close>)
qed

lemma chunks_piece: "0 < n \<Longrightarrow> c \<in> set (chunks n xs) \<Longrightarrow> c \<noteq> [] \<and> length c \<le> n"
proof (induction n xs rule: chunks.induct)
  case (1 n xs)
  then show ?case
    by (cases "xs = []") (auto simp: chunks.simps [of n xs] chunks.simps [of n "[]"])
qed

end
