(* ===== verification/Types.thy ===== *)
theory Types
  imports Rust_Std
begin

text \<open>
  \<open>doradus-types\<close>: the error type, canonical domain names, socket addresses, endpoints
  and the flow context every other component exchanges (\<open>types/src/lib.rs\<close>,
  \<open>types/src/net.rs\<close>).
\<close>

subsection \<open>Errors\<close>

datatype error_kind =
  InvalidInput | NotFound | Conflict | Unsupported | Io | Protocol | Storage | Timeout | Closed

record error =
  err_kind :: error_kind
  err_message :: string

type_synonym 'a result = "error + 'a"

definition error_new :: "error_kind \<Rightarrow> string \<Rightarrow> error" where
  "error_new k m = \<lparr>err_kind = k, err_message = m\<rparr>"

definition error_invalid :: "string \<Rightarrow> error" where
  "error_invalid m = error_new InvalidInput m"

subsection \<open>Domain names\<close>

type_synonym domain_name = string

definition label_char :: "char \<Rightarrow> bool" where
  "label_char c = (is_ascii_alphanumeric c \<or> c = CHR ''-'' \<or> c = CHR ''_'')"

text \<open>The checks of one label, in the order of the loop body of \<open>DomainName::new\<close>.\<close>

definition check_label :: "string \<Rightarrow> unit result" where
  "check_label l =
     (if l = [] \<or> length l > 63 then Inl (error_invalid ''domain label must contain 1..=63 bytes'')
      else if hd l = CHR ''-'' \<or> last l = CHR ''-''
        then Inl (error_invalid (''domain label cannot start or end with '-'' @ [CHR 0x27]))
      else if \<not> list_all label_char l
        then Inl (error_invalid ''domain contains an unsupported character'')
      else Inr ())"

fun check_labels :: "string list \<Rightarrow> unit result" where
  "check_labels [] = Inr ()"
| "check_labels (l # ls) = rbind (check_label l) (\<lambda>_. check_labels ls)"

definition canonical_text :: "string \<Rightarrow> string" where
  "canonical_text value = to_ascii_lowercase (trim_end_char CHR ''.'' (trim value))"

definition domain_name_new :: "string \<Rightarrow> domain_name result" where
  "domain_name_new value =
     (let value = canonical_text value in
      if value = [] \<or> length value > 253
        then Inl (error_invalid ''domain must contain 1..=253 bytes'')
      else rbind (check_labels (split_on CHR ''.'' value)) (\<lambda>_. Inr value))"

definition domain_labels :: "domain_name \<Rightarrow> string list" where
  "domain_labels d = split_on CHR ''.'' d"

text \<open>What a canonical name looks like, stated without the parser.\<close>

definition valid_label :: "string \<Rightarrow> bool" where
  "valid_label l =
     (l \<noteq> [] \<and> length l \<le> 63 \<and> hd l \<noteq> CHR ''-'' \<and> last l \<noteq> CHR ''-''
      \<and> (\<forall>c \<in> set l. label_char c \<and> \<not> is_ascii_upper c))"

definition valid_domain :: "domain_name \<Rightarrow> bool" where
  "valid_domain d =
     (d \<noteq> [] \<and> length d \<le> 253 \<and> (\<forall>l \<in> set (domain_labels d). valid_label l))"

lemma check_label_ok_iff:
  "check_label l = Inr u \<longleftrightarrow>
     l \<noteq> [] \<and> length l \<le> 63 \<and> hd l \<noteq> CHR ''-'' \<and> last l \<noteq> CHR ''-'' \<and> list_all label_char l"
  by (auto simp: check_label_def)

lemma check_labels_ok_iff:
  "check_labels ls = Inr u \<longleftrightarrow> (\<forall>l \<in> set ls. check_label l = Inr ())"
  by (induction ls) (auto simp: result_simps)

lemma label_char_not_dot: "label_char c \<Longrightarrow> c \<noteq> CHR ''.''"
  by (auto simp: label_char_def is_ascii_alphanumeric_def is_ascii_digit_def
      is_ascii_lower_def is_ascii_upper_def)

lemma label_char_plain: "label_char c \<Longrightarrow> plain_char c"
  by (auto simp: label_char_def is_ascii_alphanumeric_def is_ascii_digit_def
      is_ascii_lower_def is_ascii_upper_def plain_char_def)

lemma canonical_text_lower: "c \<in> set (canonical_text s) \<Longrightarrow> \<not> is_ascii_upper c"
  by (auto simp: canonical_text_def)

lemma valid_label_iff:
  "valid_label l \<longleftrightarrow> check_label l = Inr () \<and> (\<forall>c \<in> set l. \<not> is_ascii_upper c)"
  by (auto simp: valid_label_def check_label_ok_iff list_all_iff)

lemma domain_name_new_valid:
  assumes "domain_name_new s = Inr d"
  shows "d = canonical_text s \<and> valid_domain d"
proof -
  let ?v = "canonical_text s"
  from assms have d: "d = ?v" and ne: "?v \<noteq> []" and len: "length ?v \<le> 253"
    and chk: "check_labels (split_on CHR ''.'' ?v) = Inr ()"
    by (auto simp: domain_name_new_def Let_def result_simps split: if_splits)
  have "valid_label l" if "l \<in> set (split_on CHR ''.'' ?v)" for l
    using chk that set_split_on [OF that] canonical_text_lower [of _ s]
    by (auto simp: check_labels_ok_iff valid_label_iff)
  with d ne len show ?thesis
    by (simp add: valid_domain_def domain_labels_def)
qed

lemma valid_domain_chars:
  assumes "valid_domain d" and "c \<in> set d"
  shows "c = CHR ''.'' \<or> label_char c \<and> \<not> is_ascii_upper c"
proof -
  have "set (join_with x ls) \<subseteq> insert x (\<Union>(set ` set ls))" for x ls
    by (induction x ls rule: join_with.induct) auto
  from this [of "CHR ''.''" "domain_labels d"] assms show ?thesis
    by (auto simp: domain_labels_def valid_domain_def valid_label_def)
qed

lemma join_with_not_Nil: "ls \<noteq> [] \<Longrightarrow> last ls \<noteq> [] \<Longrightarrow> join_with c ls \<noteq> []"
  by (induction c ls rule: join_with.induct) auto

lemma last_join_with:
  "ls \<noteq> [] \<Longrightarrow> last ls \<noteq> [] \<Longrightarrow> last (join_with c ls) = last (last ls)"
proof (induction c ls rule: join_with.induct)
  case (3 c s t ts)
  then show ?case
    using join_with_not_Nil [of "t # ts" c] by auto
qed auto

lemma valid_domain_last: "valid_domain d \<Longrightarrow> last d \<noteq> CHR ''.''"
proof -
  assume v: "valid_domain d"
  let ?ls = "domain_labels d"
  have "?ls \<noteq> []" and j: "join_with CHR ''.'' ?ls = d"
    by (simp_all add: domain_labels_def)
  moreover from this v have l: "valid_label (last ?ls)"
    by (simp add: valid_domain_def)
  ultimately have "last d = last (last ?ls)"
    using last_join_with [of ?ls "CHR ''.''"] by (auto simp: valid_label_def)
  moreover have "last (last ?ls) \<in> set (last ?ls)"
    using l by (simp add: valid_label_def)
  ultimately show ?thesis
    using l label_char_not_dot by (auto simp: valid_label_def)
qed

lemma canonical_text_valid:
  assumes "valid_domain d"
  shows "canonical_text d = d"
proof -
  have chars: "plain_char c \<and> \<not> is_ascii_upper c" if "c \<in> set d" for c
    using valid_domain_chars [OF assms that] label_char_plain
    by (auto simp: plain_char_def is_ascii_upper_def)
  then have "trim d = d"
    by (simp add: trim_plain)
  moreover have "trim_end_char CHR ''.'' d = d"
    using valid_domain_last [OF assms] by (simp add: trim_end_char_id)
  moreover have "to_ascii_lowercase d = d"
    using chars by (intro map_idI) (simp add: ascii_lower_eq_self)
  ultimately show ?thesis
    by (simp add: canonical_text_def)
qed

lemma domain_name_new_of_valid:
  assumes "valid_domain d"
  shows "domain_name_new d = Inr d"
proof -
  have "check_labels (split_on CHR ''.'' d) = Inr ()"
    using assms by (auto simp: check_labels_ok_iff valid_domain_def domain_labels_def valid_label_iff)
  with assms canonical_text_valid [OF assms] show ?thesis
    by (simp add: domain_name_new_def valid_domain_def)
qed

lemma valid_domain_label_no_dot: "l \<in> set (domain_labels d) \<Longrightarrow> CHR ''.'' \<notin> set l"
  by (auto simp: domain_labels_def dest: split_on_pieces)

lemma domain_labels_not_Nil [simp]: "domain_labels d \<noteq> []"
  by (simp add: domain_labels_def)

lemma valid_label_not_star: "valid_label l \<Longrightarrow> l \<noteq> ''*''"
  by (auto simp: valid_label_def label_char_def is_ascii_alphanumeric_def is_ascii_digit_def
      is_ascii_lower_def is_ascii_upper_def)

subsection \<open>Addresses and endpoints\<close>

datatype network = Tcp | Udp | Icmp | Any

datatype ip_addr = V4 u32 | V6 u128

datatype socket_addr =
  SockV4 u32 u16
| SockV6 u128 u16 u32 u32 \<comment> \<open>address, port, flow information, scope id\<close>

definition socket_addr_new :: "ip_addr \<Rightarrow> u16 \<Rightarrow> socket_addr" where
  "socket_addr_new ip port = (case ip of V4 a \<Rightarrow> SockV4 a port | V6 a \<Rightarrow> SockV6 a port 0 0)"

fun sock_ip :: "socket_addr \<Rightarrow> ip_addr" where
  "sock_ip (SockV4 a _) = V4 a"
| "sock_ip (SockV6 a _ _ _) = V6 a"

fun sock_port :: "socket_addr \<Rightarrow> u16" where
  "sock_port (SockV4 _ p) = p"
| "sock_port (SockV6 _ p _ _) = p"

fun is_ipv4 :: "ip_addr \<Rightarrow> bool" where
  "is_ipv4 (V4 _) = True"
| "is_ipv4 (V6 _) = False"

fun octets :: "ip_addr \<Rightarrow> byte list" where
  "octets (V4 a) = to_be32 a"
| "octets (V6 a) = to_be128 a"

definition parse_ip_addr :: "string \<Rightarrow> ip_addr option" where
  "parse_ip_addr s =
     (case read_ipv4_addr s of
        Some (os, rest) \<Rightarrow> if rest = [] then Some (V4 (from_be32 os)) else None
      | None \<Rightarrow>
          (case read_ipv6_addr s of
             Some (a, rest) \<Rightarrow> if rest = [] then Some (V6 a) else None
           | None \<Rightarrow> None))"

datatype endpoint =
  EIp network socket_addr
| EDomain network domain_name u16

fun endpoint_network :: "endpoint \<Rightarrow> network" where
  "endpoint_network (EIp n _) = n"
| "endpoint_network (EDomain n _ _) = n"

fun endpoint_port :: "endpoint \<Rightarrow> u16 option" where
  "endpoint_port (EIp _ a) = Some (sock_port a)"
| "endpoint_port (EDomain _ _ p) = Some p"

fun endpoint_host :: "endpoint \<Rightarrow> domain_name option" where
  "endpoint_host (EDomain _ h _) = Some h"
| "endpoint_host (EIp _ _) = None"

fun endpoint_addr :: "endpoint \<Rightarrow> socket_addr option" where
  "endpoint_addr (EIp _ a) = Some a"
| "endpoint_addr (EDomain _ _ _) = None"

subsection \<open>Flow context\<close>

datatype resolve_strategy = DefaultStrategy | OnlyIpv4 | PreferIpv4 | OnlyIpv6 | PreferIpv6

datatype route_mode = Bypass | Proxy | Direct | Block

record resolver_policy =
  rp_strategy :: resolve_strategy
  rp_use_fake_ip :: bool
  rp_fake_ip_skip_check_upstream :: bool
  rp_udp_skip_resolve_target :: bool

definition resolver_policy_default :: resolver_policy where
  "resolver_policy_default =
     \<lparr>rp_strategy = DefaultStrategy, rp_use_fake_ip = False,
      rp_fake_ip_skip_check_upstream = False, rp_udp_skip_resolve_target = False\<rparr>"

record match_result =
  mr_list_name :: string
  mr_matched :: bool

record match_history_entry =
  mh_rule_name :: string
  mh_history :: "match_result list"

record flow_context =
  fc_source :: "endpoint option"
  fc_local_addr :: "endpoint option"
  fc_destination :: endpoint
  fc_resolved_destination :: "socket_addr list option"
  fc_skip_resolve :: bool
  fc_network :: network
  fc_route_mode :: route_mode
  fc_resolver_policy :: resolver_policy
  fc_original_domain :: "domain_name option"
  fc_tag :: "string option"
  fc_match_history :: "match_history_entry list"
  fc_lists :: "string list"
  fc_resolver :: "string option"
  fc_geo :: "string option"
  fc_hosts :: "string option"
  fc_fake_ip :: "string option"
  fc_local_bind_addresses :: "ip_addr list"
  fc_bind_interface :: "string option"
  fc_component :: "string option"
  fc_inbound_id :: "string option"
  fc_inbound :: "string option"
  fc_inbound_name :: "string option"
  fc_outbound :: "string option"
  fc_outbound_name :: "string option"
  fc_protocol :: "string option"
  fc_tls_server_name :: "string option"
  fc_http_host :: "string option"
  fc_interface :: "string option"
  fc_outbound_geo :: "string option"
  fc_outbound_addr :: "endpoint option"
  fc_outbound_local_addr :: "endpoint option"
  fc_process :: "string option"
  fc_process_id :: "u32 option"
  fc_user_id :: "u32 option"
  fc_skip_route :: bool
  fc_udp_migrate_id :: u64

definition flow_context_new :: "endpoint \<Rightarrow> flow_context" where
  "flow_context_new destination =
     \<lparr>fc_source = None, fc_local_addr = None, fc_destination = destination,
      fc_resolved_destination = None, fc_skip_resolve = False,
      fc_network = endpoint_network destination, fc_route_mode = Proxy,
      fc_resolver_policy = resolver_policy_default, fc_original_domain = None, fc_tag = None,
      fc_match_history = [], fc_lists = [], fc_resolver = None, fc_geo = None,
      fc_hosts = None, fc_fake_ip = None, fc_local_bind_addresses = [],
      fc_bind_interface = None, fc_component = None, fc_inbound_id = None,
      fc_inbound = None, fc_inbound_name = None, fc_outbound = None,
      fc_outbound_name = None, fc_protocol = None, fc_tls_server_name = None,
      fc_http_host = None, fc_interface = None, fc_outbound_geo = None,
      fc_outbound_addr = None, fc_outbound_local_addr = None, fc_process = None,
      fc_process_id = None, fc_user_id = None, fc_skip_route = False,
      fc_udp_migrate_id = 0\<rparr>"

definition effective_destination :: "flow_context \<Rightarrow> endpoint" where
  "effective_destination ctx =
     (case fc_original_domain ctx of
        None \<Rightarrow> fc_destination ctx
      | Some domain \<Rightarrow>
          (case endpoint_port (fc_destination ctx) of
             None \<Rightarrow> fc_destination ctx
           | Some port \<Rightarrow> EDomain (fc_network ctx) domain port))"

definition proxy_destination :: "flow_context \<Rightarrow> endpoint" where
  "proxy_destination ctx =
     (case fc_resolved_destination ctx of
        Some (a # _) \<Rightarrow> EIp (fc_network ctx) a
      | _ \<Rightarrow> effective_destination ctx)"

definition proxy_destinations :: "flow_context \<Rightarrow> socket_addr list option" where
  "proxy_destinations ctx =
     (case fc_resolved_destination ctx of
        Some as \<Rightarrow> Some as
      | None \<Rightarrow>
          (case effective_destination ctx of
             EIp _ a \<Rightarrow> Some [a]
           | EDomain _ _ _ \<Rightarrow> None))"

definition local_bind_for :: "flow_context \<Rightarrow> socket_addr \<Rightarrow> socket_addr option" where
  "local_bind_for ctx remote =
     map_option (\<lambda>a. socket_addr_new a 0)
       (find (\<lambda>a. is_ipv4 a = is_ipv4 (sock_ip remote)) (fc_local_bind_addresses ctx))"

lemma sock_ip_new [simp]: "sock_ip (socket_addr_new ip port) = ip"
  by (cases ip) (simp_all add: socket_addr_new_def)

lemma sock_port_new [simp]: "sock_port (socket_addr_new ip port) = port"
  by (cases ip) (simp_all add: socket_addr_new_def)

lemma local_bind_for_family:
  "local_bind_for ctx remote = Some a \<Longrightarrow>
     is_ipv4 (sock_ip a) = is_ipv4 (sock_ip remote) \<and> sock_port a = 0
     \<and> sock_ip a \<in> set (fc_local_bind_addresses ctx)"
  by (auto simp: local_bind_for_def find_Some_iff)

end
