(* ===== verification/Index_Spec.thy ===== *)
theory Index_Spec
  imports Types
begin

text \<open>
  The contract of an index keyed by patterns: what the domain trie, the CIDR trie and the
  combined trie promise to the code that fills them. An index has an abstract map from
  parsed patterns to values; inserting updates it at one key and returns the value replaced,
  and a pattern that does not parse is reported without touching the index.

  \<open>insert_all\<close> is the loop \<open>for (pattern, value) in rules { index.insert(pattern, value)?; }\<close>
  of the clients; its behaviour follows from the contract alone.
\<close>

text \<open>The outer option is a panic (\<open>None\<close>), the sum the \<open>Result\<close> of the code.\<close>

type_synonym ('t, 'a) outcome = "('t \<times> 'a result) option"

fun insert_all ::
  "('t \<Rightarrow> 'p \<Rightarrow> 'v \<Rightarrow> ('t, 'v option) outcome) \<Rightarrow> 't \<Rightarrow> ('p \<times> 'v) list \<Rightarrow> ('t, unit) outcome" where
  "insert_all ins t [] = Some (t, Inr ())"
| "insert_all ins t ((p, v) # pvs) =
     (case ins t p v of
        None \<Rightarrow> None
      | Some (t1, Inl e) \<Rightarrow> Some (t1, Inl e)
      | Some (t1, Inr _) \<Rightarrow> insert_all ins t1 pvs)"

lemma insert_all_append:
  "insert_all ins t (xs @ ys) =
     (case insert_all ins t xs of
        None \<Rightarrow> None
      | Some (t1, Inl e) \<Rightarrow> Some (t1, Inl e)
      | Some (t1, Inr _) \<Rightarrow> insert_all ins t1 ys)"
  by (induction ins t xs rule: insert_all.induct) (auto split: option.splits sum.splits prod.splits)

text \<open>The map a list of parsed insertions leaves behind: the last insertion at a key wins.\<close>

definition last_wins :: "('k \<times> 'v) list \<Rightarrow> 'k \<Rightarrow> 'v option" where
  "last_wins kvs = map_of (rev kvs)"

lemma last_wins_Nil [simp]: "last_wins [] = Map.empty"
  by (simp add: last_wins_def)

lemma last_wins_Cons: "last_wins ((k, v) # kvs) = [k \<mapsto> v] ++ last_wins kvs"
  by (simp add: last_wins_def)

lemma last_wins_SomeD: "last_wins kvs k = Some v \<Longrightarrow> (k, v) \<in> set kvs"
  by (auto simp: last_wins_def dest: map_of_SomeD)

lemma last_wins_None_iff: "last_wins kvs k = None \<longleftrightarrow> k \<notin> fst ` set kvs"
  by (simp add: last_wins_def map_of_eq_None_iff)

lemma last_wins_distinct:
  "distinct (map fst kvs) \<Longrightarrow> last_wins kvs k = Some v \<longleftrightarrow> (k, v) \<in> set kvs"
  by (simp add: last_wins_def rev_map [symmetric])

locale pattern_index =
  fixes key :: "'p \<Rightarrow> 'k result"
    and ins :: "'t \<Rightarrow> 'p \<Rightarrow> 'v \<Rightarrow> ('t, 'v option) outcome"
    and abs :: "'t \<Rightarrow> 'k \<Rightarrow> 'v option"
    and inv :: "'t \<Rightarrow> bool"
    and used :: "'t \<Rightarrow> nat"
    and weight :: "'k \<Rightarrow> nat"
    and cap :: nat
  assumes ins_ok: "inv t \<Longrightarrow> key p = Inr k \<Longrightarrow> used t + weight k \<le> cap \<Longrightarrow>
      \<exists>t1. ins t p v = Some (t1, Inr (abs t k)) \<and> inv t1 \<and> abs t1 = (abs t)(k \<mapsto> v)
        \<and> used t1 \<le> used t + weight k"
    and ins_err: "key p = Inl e \<Longrightarrow> ins t p v = Some (t, Inl e)"
begin

lemma insert_all_ok:
  assumes "inv t" "list_all2 (\<lambda>(p, v) (k, w). key p = Inr k \<and> v = w) pvs kvs"
    and "used t + (\<Sum>kv\<leftarrow>kvs. weight (fst kv)) \<le> cap"
  shows "\<exists>t1. insert_all ins t pvs = Some (t1, Inr ()) \<and> inv t1
     \<and> abs t1 = abs t ++ last_wins kvs \<and> used t1 \<le> used t + (\<Sum>kv\<leftarrow>kvs. weight (fst kv))"
  using assms
proof (induction pvs arbitrary: t kvs)
  case (Cons pv pvs)
  obtain p v where pv: "pv = (p, v)"
    by (cases pv)
  with Cons.prems(2) obtain k kvs' where kvs: "kvs = (k, v) # kvs'" and key: "key p = Inr k"
    and rest: "list_all2 (\<lambda>(p, v) (k, w). key p = Inr k \<and> v = w) pvs kvs'"
    by (auto simp: list_all2_Cons1)
  have "used t + weight k \<le> cap"
    using Cons.prems(3) kvs by simp
  from ins_ok [OF Cons.prems(1) key this, of v] obtain t1 where
    t1: "ins t p v = Some (t1, Inr (abs t k))" "inv t1" "abs t1 = (abs t)(k \<mapsto> v)"
    "used t1 \<le> used t + weight k"
    by blast
  have "used t1 + (\<Sum>kv\<leftarrow>kvs'. weight (fst kv)) \<le> cap"
    using t1(4) Cons.prems(3) kvs by simp
  from Cons.IH [OF t1(2) rest this] obtain t2 where
    t2: "insert_all ins t1 pvs = Some (t2, Inr ())" "inv t2" "abs t2 = abs t1 ++ last_wins kvs'"
    "used t2 \<le> used t1 + (\<Sum>kv\<leftarrow>kvs'. weight (fst kv))"
    by blast
  have "abs t2 = abs t ++ last_wins kvs"
    by (simp add: t2(3) t1(3) kvs last_wins_Cons)
  with t1 t2 pv kvs show ?case
    by auto
qed simp

lemma insert_all_err:
  assumes "inv t" "list_all2 (\<lambda>(p, v) (k, w). key p = Inr k \<and> v = w) pvs kvs"
    and "used t + (\<Sum>kv\<leftarrow>kvs. weight (fst kv)) \<le> cap" "key p = Inl e"
  shows "\<exists>t1. insert_all ins t (pvs @ (p, v) # rest) = Some (t1, Inl e) \<and> inv t1
     \<and> abs t1 = abs t ++ last_wins kvs"
  using insert_all_ok [OF assms(1-3)] ins_err [OF assms(4)] by (auto simp: insert_all_append)

end

text \<open>An index from which a pattern can be removed again.\<close>

locale removable_index = pattern_index key ins abs inv used weight cap
  for key :: "'p \<Rightarrow> 'k result" and ins :: "'t \<Rightarrow> 'p \<Rightarrow> 'v \<Rightarrow> ('t, 'v option) outcome"
    and abs inv used weight cap +
  fixes del :: "'t \<Rightarrow> 'p \<Rightarrow> ('t, 'v option) outcome"
  assumes del_ok: "inv t \<Longrightarrow> key p = Inr k \<Longrightarrow>
      \<exists>t1. del t p = Some (t1, Inr (abs t k)) \<and> inv t1 \<and> abs t1 = (abs t)(k := None)"
    and del_err: "key p = Inl e \<Longrightarrow> del t p = Some (t, Inl e)"
begin

text \<open>Removing what was just inserted returns it and leaves every other pattern alone.\<close>

lemma ins_del:
  assumes "inv t" "key p = Inr k" "used t + weight k \<le> cap"
  shows "\<exists>t1 t2. ins t p v = Some (t1, Inr (abs t k)) \<and> del t1 p = Some (t2, Inr (Some v))
     \<and> inv t2 \<and> abs t2 = (abs t)(k := None)"
proof -
  obtain t1 where t1: "ins t p v = Some (t1, Inr (abs t k))" "inv t1" "abs t1 = (abs t)(k \<mapsto> v)"
    using ins_ok [OF assms] by blast
  with del_ok [OF t1(2) assms(2)] show ?thesis
    by auto
qed

end

end
