(* ===== verification/Domain_Trie.thy ===== *)
theory Domain_Trie
  imports Index_Spec
begin

text \<open>
  The reversed-label domain trie of \<open>trie/src/lib.rs\<close>: nodes in a vector addressed by
  32-bit indices, labels interned to 32-bit numbers. A vector read out of range is a panic
  in the code; an operation that can panic returns an \<open>option\<close> here, \<open>None\<close> for the
  panic.

  The lemmas show that under the invariant \<open>dt_wf\<close> no operation panics, and that the
  vector of nodes implements a map from reversed label lists to values (\<open>dt_abs\<close>):
  \<open>insert\<close> and \<open>remove\<close> update that map at one key, and \<open>search\<close> computes the
  wildcard lookup \<open>pattern_lookup\<close> in it.
\<close>

subsection \<open>The model\<close>

record 'a domain_node =
  dn_value :: "'a option"
  dn_children :: "(nat \<times> nat) list"

record 'a domain_trie =
  dt_nodes :: "'a domain_node list"
  dt_labels :: "(string \<times> nat) list"

definition domain_node_default :: "'a domain_node" where
  "domain_node_default = \<lparr>dn_value = None, dn_children = []\<rparr>"

definition domain_trie_new :: "'a domain_trie" where
  "domain_trie_new = \<lparr>dt_nodes = [domain_node_default], dt_labels = []\<rparr>"

fun pattern_labels_loop :: "string list \<Rightarrow> string list result" where
  "pattern_labels_loop [] = Inr []"
| "pattern_labels_loop (l # ls) =
     (if l = ''*'' then rbind (pattern_labels_loop ls) (\<lambda>r. Inr (l # r))
      else rbind (domain_name_new l) (\<lambda>_. rbind (pattern_labels_loop ls) (\<lambda>r. Inr (l # r))))"

definition pattern_labels :: "string \<Rightarrow> string list result" where
  "pattern_labels pattern =
     (let pattern = canonical_text pattern in
      if pattern = [] then Inl (error_invalid ''domain must contain at least one label'')
      else rbind (pattern_labels_loop (split_on CHR ''.'' pattern)) (\<lambda>labels.
        if length pattern > 253
        then Inl (error_invalid ''domain must contain at most 253 bytes'')
        else Inr labels))"

definition intern_label :: "'a domain_trie \<Rightarrow> string \<Rightarrow> 'a domain_trie \<times> nat result" where
  "intern_label t label =
     (case map_of (dt_labels t) label of
        Some label_id \<Rightarrow> (t, Inr label_id)
      | None \<Rightarrow>
          (let label_id = length (dt_labels t) in
           if label_id < 2 ^ 32
           then (t\<lparr>dt_labels := AList.update label label_id (dt_labels t)\<rparr>, Inr label_id)
           else (t, Inl (error_invalid ''domain trie contains too many labels''))))"

definition add_child :: "'a domain_trie \<Rightarrow> nat \<Rightarrow> nat \<Rightarrow> nat \<Rightarrow> 'a domain_trie" where
  "add_child t node_id label_id next_id =
     (let nodes = dt_nodes t @ [domain_node_default];
          node = nodes ! node_id
      in t\<lparr>dt_nodes :=
             nodes[node_id := node\<lparr>dn_children := AList.update label_id next_id (dn_children node)\<rparr>]\<rparr>)"

text \<open>The loop of \<open>DomainTrie::insert\<close>: the labels still to walk, root label first.\<close>

fun insert_path :: "'a domain_trie \<Rightarrow> nat \<Rightarrow> string list \<Rightarrow> ('a domain_trie \<times> nat result) option" where
  "insert_path t node_id [] = Some (t, Inr node_id)"
| "insert_path t node_id (label # labels) =
     (case intern_label t label of
        (t1, Inl e) \<Rightarrow> Some (t1, Inl e)
      | (t1, Inr label_id) \<Rightarrow>
          (case nth_opt (dt_nodes t1) node_id of
             None \<Rightarrow> None
           | Some node \<Rightarrow>
               (case map_of (dn_children node) label_id of
                  Some next_id \<Rightarrow> insert_path t1 next_id labels
                | None \<Rightarrow>
                    (let next_id = length (dt_nodes t1) mod 2 ^ 32
                     in insert_path (add_child t1 node_id label_id next_id) next_id labels))))"

definition domain_trie_insert ::
  "'a domain_trie \<Rightarrow> string \<Rightarrow> 'a \<Rightarrow> ('a domain_trie \<times> 'a option result) option" where
  "domain_trie_insert t domain value =
     (case pattern_labels domain of
        Inl e \<Rightarrow> Some (t, Inl e)
      | Inr labels \<Rightarrow>
          (case insert_path t 0 (rev labels) of
             None \<Rightarrow> None
           | Some (t1, Inl e) \<Rightarrow> Some (t1, Inl e)
           | Some (t1, Inr node_id) \<Rightarrow>
               (case nth_opt (dt_nodes t1) node_id of
                  None \<Rightarrow> None
                | Some node \<Rightarrow>
                    Some (t1\<lparr>dt_nodes := (dt_nodes t1)[node_id := node\<lparr>dn_value := Some value\<rparr>]\<rparr>,
                          Inr (dn_value node)))))"

text \<open>\<open>remove_domain\<close>: the labels below \<open>depth\<close> are the list argument.\<close>

fun remove_domain :: "'a domain_trie \<Rightarrow> nat \<Rightarrow> string list \<Rightarrow> ('a domain_trie \<times> 'a option) option" where
  "remove_domain t node_id [] =
     (case nth_opt (dt_nodes t) node_id of
        None \<Rightarrow> None
      | Some node \<Rightarrow>
          Some (t\<lparr>dt_nodes := (dt_nodes t)[node_id := node\<lparr>dn_value := None\<rparr>]\<rparr>, dn_value node))"
| "remove_domain t node_id (label # labels) =
     (case map_of (dt_labels t) label of
        None \<Rightarrow> Some (t, None)
      | Some label_id \<Rightarrow>
          (case nth_opt (dt_nodes t) node_id of
             None \<Rightarrow> None
           | Some node \<Rightarrow>
               (case map_of (dn_children node) label_id of
                  None \<Rightarrow> Some (t, None)
                | Some child_id \<Rightarrow>
                    (case remove_domain t child_id labels of
                       None \<Rightarrow> None
                     | Some (t1, result) \<Rightarrow>
                         (case (nth_opt (dt_nodes t1) child_id, nth_opt (dt_nodes t1) node_id) of
                            (Some child, Some node1) \<Rightarrow>
                              if dn_value child = None \<and> dn_children child = []
                              then Some (t1\<lparr>dt_nodes := (dt_nodes t1)[node_id :=
                                          node1\<lparr>dn_children := AList.delete label_id (dn_children node1)\<rparr>]\<rparr>,
                                         result)
                              else Some (t1, result)
                          | _ \<Rightarrow> None)))))"

definition domain_trie_remove ::
  "'a domain_trie \<Rightarrow> string \<Rightarrow> ('a domain_trie \<times> 'a option result) option" where
  "domain_trie_remove t domain =
     (case pattern_labels domain of
        Inl e \<Rightarrow> Some (t, Inl e)
      | Inr labels \<Rightarrow>
          map_option (\<lambda>(t1, r). (t1, Inr r)) (remove_domain t 0 (rev labels)))"

text \<open>
  \<open>search_domain\<close>: the outer option is the panic, the inner one the answer. \<open>descend\<close>
  follows a child edge that may be absent.
\<close>

fun search_domain :: "'a domain_trie \<Rightarrow> nat \<Rightarrow> string list \<Rightarrow> 'a option option" where
  "search_domain t node_id [] =
     (case nth_opt (dt_nodes t) node_id of
        None \<Rightarrow> None
      | Some node \<Rightarrow>
          (case dn_value node of
             Some v \<Rightarrow> Some (Some v)
           | None \<Rightarrow>
               (case Option.bind (map_of (dt_labels t) ''*'') (map_of (dn_children node)) of
                  None \<Rightarrow> Some None
                | Some child_id \<Rightarrow> map_option dn_value (nth_opt (dt_nodes t) child_id))))"
| "search_domain t node_id (label # labels) =
     (case nth_opt (dt_nodes t) node_id of
        None \<Rightarrow> None
      | Some node \<Rightarrow>
          (case (case Option.bind (map_of (dt_labels t) label) (map_of (dn_children node)) of
                   None \<Rightarrow> Some None
                 | Some child_id \<Rightarrow> search_domain t child_id labels) of
             None \<Rightarrow> None
           | Some exact \<Rightarrow>
               (case (case Option.bind (map_of (dt_labels t) ''*'') (map_of (dn_children node)) of
                        None \<Rightarrow> Some None
                      | Some child_id \<Rightarrow>
                          (case nth_opt (dt_nodes t) child_id of
                             None \<Rightarrow> None
                           | Some child \<Rightarrow>
                               (case dn_value child of
                                  Some v \<Rightarrow> Some (Some v)
                                | None \<Rightarrow> search_domain t child_id labels))) of
                  None \<Rightarrow> None
                | Some wildcard \<Rightarrow> Some (or_else exact wildcard))))"

definition domain_trie_search :: "'a domain_trie \<Rightarrow> string \<Rightarrow> 'a option result option" where
  "domain_trie_search t domain =
     (case domain_name_new domain of
        Inl e \<Rightarrow> Some (Inl e)
      | Inr d \<Rightarrow> map_option Inr (search_domain t 0 (rev (domain_labels d))))"

text \<open>
  The loop of \<open>search_parent\<close> over \<open>end = labels.len(), ..., 1\<close>, where \<open>labels[..end]\<close>
  is a prefix of the reversed labels.
\<close>

fun search_parent_loop :: "'a domain_trie \<Rightarrow> string list \<Rightarrow> nat \<Rightarrow> 'a option option" where
  "search_parent_loop t labels 0 = Some None"
| "search_parent_loop t labels (Suc n) =
     (case search_domain t 0 (take (Suc n) labels) of
        None \<Rightarrow> None
      | Some (Some v) \<Rightarrow> Some (Some v)
      | Some None \<Rightarrow> search_parent_loop t labels n)"

definition domain_trie_search_parent :: "'a domain_trie \<Rightarrow> string \<Rightarrow> 'a option result option" where
  "domain_trie_search_parent t domain =
     (case domain_name_new domain of
        Inl e \<Rightarrow> Some (Inl e)
      | Inr d \<Rightarrow>
          (let labels = rev (domain_labels d)
           in map_option Inr (search_parent_loop t labels (length labels))))"

subsection \<open>The map the trie implements\<close>

definition dt_edge :: "'a domain_trie \<Rightarrow> nat \<Rightarrow> nat \<Rightarrow> nat option" where
  "dt_edge t i l = (if i < length (dt_nodes t) then map_of (dn_children (dt_nodes t ! i)) l else None)"

definition dt_child :: "'a domain_trie \<Rightarrow> nat \<Rightarrow> string \<Rightarrow> nat option" where
  "dt_child t i label = Option.bind (map_of (dt_labels t) label) (dt_edge t i)"

fun dt_walk :: "'a domain_trie \<Rightarrow> nat \<Rightarrow> string list \<Rightarrow> nat option" where
  "dt_walk t i [] = Some i"
| "dt_walk t i (l # ls) = (case dt_child t i l of None \<Rightarrow> None | Some c \<Rightarrow> dt_walk t c ls)"

fun dt_get :: "'a domain_trie \<Rightarrow> nat \<Rightarrow> string list \<Rightarrow> 'a option" where
  "dt_get t i [] = (if i < length (dt_nodes t) then dn_value (dt_nodes t ! i) else None)"
| "dt_get t i (l # ls) = (case dt_child t i l of None \<Rightarrow> None | Some c \<Rightarrow> dt_get t c ls)"

abbreviation dt_abs :: "'a domain_trie \<Rightarrow> string list \<Rightarrow> 'a option" where
  "dt_abs t \<equiv> dt_get t 0"

text \<open>
  The invariant: edges go from a node to a later node of the vector, no node has two
  incoming edges, and label numbers are distinct and below the number of labels.
\<close>

definition dt_wf :: "'a domain_trie \<Rightarrow> bool" where
  "dt_wf t \<longleftrightarrow>
     0 < length (dt_nodes t)
     \<and> (\<forall>i l c. dt_edge t i l = Some c \<longrightarrow>
          i < c \<and> c < length (dt_nodes t) \<and> l < length (dt_labels t))
     \<and> (\<forall>i l j m c. dt_edge t i l = Some c \<longrightarrow> dt_edge t j m = Some c \<longrightarrow> i = j \<and> l = m)
     \<and> distinct (map fst (dt_labels t))
     \<and> (\<forall>s n. map_of (dt_labels t) s = Some n \<longrightarrow> n < length (dt_labels t))
     \<and> (\<forall>s s' n. map_of (dt_labels t) s = Some n \<longrightarrow> map_of (dt_labels t) s' = Some n \<longrightarrow> s = s')"

lemma dt_wfD:
  assumes "dt_wf t"
  shows "0 < length (dt_nodes t)"
    and "dt_edge t i l = Some c \<Longrightarrow> i < c \<and> c < length (dt_nodes t) \<and> l < length (dt_labels t)"
    and "dt_edge t i l = Some c \<Longrightarrow> dt_edge t j m = Some c \<Longrightarrow> i = j \<and> l = m"
    and "map_of (dt_labels t) s = Some n \<Longrightarrow> n < length (dt_labels t)"
    and "map_of (dt_labels t) s = Some n \<Longrightarrow> map_of (dt_labels t) s' = Some n \<Longrightarrow> s = s'"
    and "distinct (map fst (dt_labels t))"
  using assms unfolding dt_wf_def by blast+

lemma dt_wf_new: "dt_wf domain_trie_new"
  by (auto simp: dt_wf_def domain_trie_new_def dt_edge_def domain_node_default_def split: if_splits)

lemma dt_child_edge: "dt_child t i l = Some c \<Longrightarrow> \<exists>n. map_of (dt_labels t) l = Some n \<and> dt_edge t i n = Some c"
  by (auto simp: dt_child_def split: Option.bind_splits)

lemma dt_child_inj:
  assumes "dt_wf t" "dt_child t i l = Some c" "dt_child t j m = Some c"
  shows "i = j \<and> l = m"
proof -
  obtain n n' where "map_of (dt_labels t) l = Some n" "dt_edge t i n = Some c"
    "map_of (dt_labels t) m = Some n'" "dt_edge t j n' = Some c"
    using assms(2,3) dt_child_edge by metis
  then show ?thesis
    using dt_wfD(3) [OF assms(1)] dt_wfD(5) [OF assms(1)] by metis
qed

lemma dt_child_less: "dt_wf t \<Longrightarrow> dt_child t i l = Some c \<Longrightarrow> i < c \<and> c < length (dt_nodes t)"
  using dt_wfD(2) dt_child_edge by metis

lemma dt_walk_append:
  "dt_walk t i (p @ q) = (case dt_walk t i p of None \<Rightarrow> None | Some j \<Rightarrow> dt_walk t j q)"
  by (induction p arbitrary: i) (auto split: option.splits)

lemma dt_walk_snoc:
  "dt_walk t i (p @ [l]) = Option.bind (dt_walk t i p) (\<lambda>j. dt_child t j l)"
  by (cases "dt_walk t i p") (auto simp: dt_walk_append split: option.splits)

lemma dt_walk_range:
  "dt_wf t \<Longrightarrow> i < length (dt_nodes t) \<Longrightarrow> dt_walk t i p = Some j \<Longrightarrow> i \<le> j \<and> j < length (dt_nodes t)"
proof (induction p arbitrary: i)
  case (Cons l p)
  then show ?case
    using dt_child_less [of t i l] by (fastforce split: option.splits)
qed simp

text \<open>Two different label lists lead to two different nodes.\<close>

lemma dt_walk_inj:
  "dt_wf t \<Longrightarrow> dt_walk t 0 p = Some j \<Longrightarrow> dt_walk t 0 q = Some j \<Longrightarrow> p = q"
proof (induction p arbitrary: j q rule: rev_induct)
  case Nil
  show ?case
  proof (cases q rule: rev_cases)
    case (snoc q' m)
    with Nil have "\<exists>k. dt_child t k m = Some 0"
      by (auto simp: dt_walk_snoc split: Option.bind_splits)
    then show ?thesis
      using dt_child_less [OF Nil(1)] by fastforce
  qed simp
next
  case (snoc l p)
  then obtain k where k: "dt_walk t 0 p = Some k" "dt_child t k l = Some j"
    by (auto simp: dt_walk_snoc split: Option.bind_splits)
  show ?case
  proof (cases q rule: rev_cases)
    case Nil
    with snoc.prems k show ?thesis
      using dt_child_less [OF snoc.prems(1)] by fastforce
  next
    case (snoc q' m)
    with \<open>dt_walk t 0 q = Some j\<close> obtain k' where "dt_walk t 0 q' = Some k'" "dt_child t k' m = Some j"
      by (auto simp: dt_walk_snoc split: Option.bind_splits)
    moreover from this k have "k = k'" "l = m"
      using dt_child_inj [OF \<open>dt_wf t\<close>] by metis+
    ultimately show ?thesis
      using snoc snoc.IH [OF \<open>dt_wf t\<close> k(1)] by simp
  qed
qed

lemma dt_get_walk:
  "dt_get t i p = (case dt_walk t i p of None \<Rightarrow> None | Some j \<Rightarrow> dt_get t j [])"
  by (induction p arbitrary: i) (auto split: option.splits)

lemma dt_get_append:
  "dt_walk t i p = Some j \<Longrightarrow> dt_get t i (p @ q) = dt_get t j q"
  by (induction p arbitrary: i) (auto split: option.splits)

subsection \<open>How each elementary update changes the map\<close>

text \<open>Interning a label leaves every edge and every value as they are.\<close>

lemma dt_walk_cong:
  assumes "\<And>i l. dt_child t1 i l = dt_child t i l"
  shows "dt_walk t1 i p = dt_walk t i p"
  by (induction p arbitrary: i) (auto simp: assms split: option.splits)

lemma dt_get_cong:
  assumes "dt_nodes t1 = dt_nodes t" and "\<And>i l. dt_child t1 i l = dt_child t i l"
  shows "dt_get t1 i p = dt_get t i p"
  by (induction p arbitrary: i) (auto simp: assms split: option.splits)

lemma intern_label_ok:
  assumes wf: "dt_wf t" and "length (dt_labels t) < 2 ^ 32"
  shows "\<exists>t1 n. intern_label t label = (t1, Inr n)
     \<and> dt_nodes t1 = dt_nodes t \<and> map_of (dt_labels t1) label = Some n
     \<and> length (dt_labels t1) \<le> Suc (length (dt_labels t)) \<and> dt_wf t1
     \<and> (\<forall>i l. dt_child t1 i l = dt_child t i l)"
proof (cases "map_of (dt_labels t) label")
  case (Some n)
  then show ?thesis
    using wf by (simp add: intern_label_def)
next
  case None
  let ?n = "length (dt_labels t)"
  let ?t1 = "t\<lparr>dt_labels := AList.update label ?n (dt_labels t)\<rparr>"
  have new: "label \<notin> fst ` set (dt_labels t)"
    using None by (simp add: map_of_eq_None_keys)
  have edge [simp]: "dt_edge ?t1 i m = dt_edge t i m" for i m
    by (simp add: dt_edge_def)
  have len: "length (dt_labels ?t1) = Suc ?n"
    using new by (simp add: length_update_new)
  have fresh: "dt_edge t i ?n = None" for i
    using dt_wfD(2) [OF wf, of i ?n] by (cases "dt_edge t i ?n") auto
  have child: "dt_child ?t1 i l = dt_child t i l" for i l
    by (cases "l = label") (auto simp: dt_child_def None fresh split: Option.bind_splits)
  have "dt_wf ?t1"
    unfolding dt_wf_def edge len
  proof (intro conjI allI impI)
    show "distinct (map fst (dt_labels ?t1))"
      using dt_wfD(6) [OF wf] by (simp add: distinct_update)
  qed (use wf new in \<open>auto simp: dt_wf_def less_Suc_eq split: if_splits\<close>)
  then show ?thesis
    using None assms(2) child len by (simp add: intern_label_def Let_def)
qed

text \<open>A new empty leaf adds no value.\<close>

lemma dt_edge_add_child:
  assumes "i < length (dt_nodes t)"
  shows "dt_edge (add_child t i n c) j m =
    (if j = i \<and> m = n then Some c else dt_edge t j m)"
  using assms
  by (auto simp: dt_edge_def add_child_def Let_def nth_append nth_list_update domain_node_default_def
      less_Suc_eq)

lemma length_add_child [simp]: "length (dt_nodes (add_child t i n c)) = Suc (length (dt_nodes t))"
  by (simp add: add_child_def Let_def)

lemma labels_add_child [simp]: "dt_labels (add_child t i n c) = dt_labels t"
  by (simp add: add_child_def Let_def)

lemma value_add_child:
  assumes "i < length (dt_nodes t)"
  shows "dt_get (add_child t i n c) j [] = dt_get t j []"
  using assms
  by (auto simp: add_child_def Let_def nth_append nth_list_update domain_node_default_def less_Suc_eq)

lemma add_child_ok:
  assumes wf: "dt_wf t" and i: "i < length (dt_nodes t)" and n: "map_of (dt_labels t) label = Some n"
    and none: "dt_edge t i n = None"
    and t1: "t1 = add_child t i n (length (dt_nodes t))"
  shows "dt_wf t1"
    and "j < length (dt_nodes t) \<Longrightarrow> dt_get t1 j p = dt_get t j p"
    and "dt_walk t j p = Some k \<Longrightarrow> dt_walk t1 j p = Some k"
    and "dt_child t1 i label = Some (length (dt_nodes t))"
proof -
  let ?c = "length (dt_nodes t)"
  note edge = dt_edge_add_child [OF i, of n ?c, folded t1]
  have labels: "dt_labels t1 = dt_labels t"
    by (simp add: t1)
  have child: "dt_child t1 j l = (if j = i \<and> l = label then Some ?c else dt_child t j l)" for j l
  proof (cases "map_of (dt_labels t) l")
    case (Some m)
    then have "m = n \<longleftrightarrow> l = label"
      using n dt_wfD(5) [OF wf, of l n label] by auto
    with Some show ?thesis
      by (simp add: dt_child_def labels edge)
  qed (use n in \<open>auto simp: dt_child_def labels\<close>)
  show "dt_child t1 i label = Some ?c"
    by (simp add: child)
  have nochild: "dt_child t i label = None"
    by (simp add: dt_child_def n none)
  have leaf: "dt_child t1 ?c l = None" for l
  proof -
    have "dt_edge t1 ?c m = None" for m
      using i unfolding edge by (simp add: dt_edge_def)
    then show ?thesis
      by (simp add: dt_child_def split: Option.bind_splits)
  qed
  show "dt_wf t1"
    unfolding dt_wf_def edge unfolding t1 labels_add_child length_add_child
  proof (intro conjI allI impI)
    fix j m k
    assume "(if j = i \<and> m = n then Some ?c else dt_edge t j m) = Some k"
    then show "j < k" "k < Suc ?c" "m < length (dt_labels t)"
      using i dt_wfD(2) [OF wf, of j m k] dt_wfD(4) [OF wf n] by (auto split: if_splits)
  next
    fix j m j' m' k
    assume "(if j = i \<and> m = n then Some ?c else dt_edge t j m) = Some k"
      and "(if j' = i \<and> m' = n then Some ?c else dt_edge t j' m') = Some k"
    then show "j = j'" "m = m'"
      using dt_wfD(3) [OF wf, of j m k j' m'] dt_wfD(2) [OF wf, of j m k] dt_wfD(2) [OF wf, of j' m' k]
      by (auto split: if_splits)
  qed (use wf in \<open>auto simp: dt_wf_def\<close>)
  show "dt_walk t j p = Some k \<Longrightarrow> dt_walk t1 j p = Some k"
  proof (induction p arbitrary: j)
    case (Cons l p)
    then show ?case
      using nochild by (auto simp: child split: option.splits)
  qed simp
  show "j < length (dt_nodes t) \<Longrightarrow> dt_get t1 j p = dt_get t j p"
  proof (induction p arbitrary: j)
    case Nil
    show ?case unfolding t1 by (rule value_add_child [OF i])
  next
    case (Cons l p)
    show ?case
    proof (cases "j = i \<and> l = label")
      case True
      have "dt_get t1 ?c p = None"
        using leaf by (cases p) (simp_all add: value_add_child [OF i, of n ?c, folded t1] del: dt_get.simps(1), simp)
      with True show ?thesis
        using nochild by (simp add: child)
    next
      case False
      then show ?thesis
        using Cons.IH dt_child_less [OF wf, of j l] by (auto simp: child split: option.splits)
    qed
  qed
qed

text \<open>Writing the value of one node.\<close>

definition set_value :: "'a domain_trie \<Rightarrow> nat \<Rightarrow> 'a option \<Rightarrow> 'a domain_trie" where
  "set_value t i v = t\<lparr>dt_nodes := (dt_nodes t)[i := (dt_nodes t ! i)\<lparr>dn_value := v\<rparr>]\<rparr>"

lemma set_value_simps [simp]:
  "length (dt_nodes (set_value t i v)) = length (dt_nodes t)"
  "dt_labels (set_value t i v) = dt_labels t"
  "dt_edge (set_value t i v) j m = dt_edge t j m"
  by (auto simp: set_value_def dt_edge_def nth_list_update_full)

lemma dt_child_set_value [simp]: "dt_child (set_value t i v) j l = dt_child t j l"
  by (cases "map_of (dt_labels t) l") (simp_all add: dt_child_def)

lemma dt_walk_set_value [simp]: "dt_walk (set_value t i v) j p = dt_walk t j p"
  by (rule dt_walk_cong) simp

lemma dt_wf_set_value [simp]: "dt_wf (set_value t i v) = dt_wf t"
  by (simp add: dt_wf_def)

lemma dt_get_set_value:
  "i < length (dt_nodes t) \<Longrightarrow>
   dt_get (set_value t i v) j p = (if dt_walk t j p = Some i then v else dt_get t j p)"
proof (induction p arbitrary: j)
  case Nil
  then show ?case by (auto simp: set_value_def nth_list_update_full)
next
  case (Cons l p)
  then show ?case by (auto split: option.splits)
qed

lemma dt_abs_set_value:
  assumes "dt_wf t" "dt_walk t 0 p = Some i"
  shows "dt_abs (set_value t i v) = (dt_abs t)(p := v)"
proof
  fix q
  have "i < length (dt_nodes t)"
    using assms dt_walk_range [of t 0 p i] dt_wfD(1) by blast
  moreover have "dt_walk t 0 q = Some i \<longleftrightarrow> q = p"
    using assms dt_walk_inj by blast
  ultimately show "dt_abs (set_value t i v) q = ((dt_abs t)(p := v)) q"
    by (simp add: dt_get_set_value)
qed

text \<open>Cutting the edge to an empty leaf.\<close>

definition del_edge :: "'a domain_trie \<Rightarrow> nat \<Rightarrow> nat \<Rightarrow> 'a domain_trie" where
  "del_edge t i n =
     t\<lparr>dt_nodes := (dt_nodes t)[i := (dt_nodes t ! i)\<lparr>dn_children :=
         AList.delete n (dn_children (dt_nodes t ! i))\<rparr>]\<rparr>"

lemma del_edge_simps [simp]:
  "length (dt_nodes (del_edge t i n)) = length (dt_nodes t)"
  "dt_labels (del_edge t i n) = dt_labels t"
  by (simp_all add: del_edge_def)

lemma dt_edge_del_edge:
  "dt_edge (del_edge t i n) j m = (if j = i \<and> m = n then None else dt_edge t j m)"
  by (auto simp: del_edge_def dt_edge_def nth_list_update_full)

lemma dt_wf_fewer_edges:
  assumes "dt_wf t" and "length (dt_nodes t1) = length (dt_nodes t)" and "dt_labels t1 = dt_labels t"
    and sub: "\<And>i l c. dt_edge t1 i l = Some c \<Longrightarrow> dt_edge t i l = Some c"
  shows "dt_wf t1"
  unfolding dt_wf_def assms(2,3)
proof (intro conjI allI impI)
  fix i l j m c
  assume "dt_edge t1 i l = Some c" and "dt_edge t1 j m = Some c"
  then show "i = j" "l = m"
    using sub dt_wfD(3) [OF assms(1)] by blast+
qed (use dt_wfD [OF assms(1)] sub in blast)+

lemma dt_wf_del_edge: "dt_wf t \<Longrightarrow> dt_wf (del_edge t i n)"
  by (rule dt_wf_fewer_edges) (auto simp: dt_edge_del_edge split: if_splits)

lemma dt_value_del_edge: "dt_get (del_edge t i n) j [] = dt_get t j []"
  by (auto simp: del_edge_def nth_list_update_full)

lemma dt_get_del_edge:
  assumes wf: "dt_wf t" and e: "dt_edge t i n = Some c"
    and leaf: "dn_value (dt_nodes t ! c) = None" "dn_children (dt_nodes t ! c) = []"
  shows "dt_get (del_edge t i n) j p = dt_get t j p"
proof (induction p arbitrary: j)
  case Nil
  show ?case by (rule dt_value_del_edge)
next
  case (Cons l p)
  have empty: "dt_get t c q = None" for q
    using leaf by (cases q) (auto simp: dt_child_def dt_edge_def split: Option.bind_splits)
  show ?case
  proof (cases "map_of (dt_labels t) l")
    case (Some m)
    then show ?thesis
      using Cons.IH e empty
      by (cases "j = i \<and> m = n")
        (auto simp: dt_child_def dt_edge_del_edge split: option.splits)
  qed (simp add: dt_child_def)
qed

lemma dt_walk_del_edge_before:
  "dt_wf t \<Longrightarrow> j < length (dt_nodes t) \<Longrightarrow> dt_walk t j p = Some k \<Longrightarrow> k \<le> i \<Longrightarrow>
   dt_walk (del_edge t i n) j p = Some k"
proof (induction p arbitrary: j)
  case (Cons l p)
  then obtain m c where m: "map_of (dt_labels t) l = Some m" "dt_edge t j m = Some c" "dt_walk t c p = Some k"
    by (auto simp: dt_child_def split: option.splits Option.bind_splits)
  then have "j < c" "c < length (dt_nodes t)"
    using dt_wfD(2) [OF Cons.prems(1)] by blast+
  moreover from this have "c \<le> k"
    using dt_walk_range [OF Cons.prems(1) _ m(3)] by simp
  ultimately have "j \<noteq> i"
    using Cons.prems by simp
  with m show ?case
    using Cons.IH [OF Cons.prems(1) \<open>c < length (dt_nodes t)\<close> m(3) Cons.prems(4)]
    by (simp add: dt_child_def dt_edge_del_edge)
qed simp

subsection \<open>Insertion\<close>

lemma insert_path_ok:
  assumes "dt_wf t" "dt_walk t 0 p = Some i"
    and "length (dt_nodes t) + length ls \<le> 2 ^ 32" "length (dt_labels t) + length ls \<le> 2 ^ 32"
  shows "\<exists>t1 j. insert_path t i ls = Some (t1, Inr j) \<and> dt_wf t1 \<and> dt_walk t1 0 (p @ ls) = Some j
     \<and> dt_abs t1 = dt_abs t \<and> length (dt_nodes t1) \<le> length (dt_nodes t) + length ls
     \<and> length (dt_labels t1) \<le> length (dt_labels t) + length ls"
  using assms
proof (induction ls arbitrary: t i p)
  case (Cons l ls)
  have room: "length (dt_labels t) < 2 ^ 32"
    using Cons.prems by simp
  obtain t1 n where n: "intern_label t l = (t1, Inr n)" and nodes: "dt_nodes t1 = dt_nodes t"
    and lab: "map_of (dt_labels t1) l = Some n" and len: "length (dt_labels t1) \<le> Suc (length (dt_labels t))"
    and wf1: "dt_wf t1" and child: "\<And>i l. dt_child t1 i l = dt_child t i l"
    using intern_label_ok [OF Cons.prems(1) room, of l] by blast
  have walk1: "dt_walk t1 0 p = Some i"
    using dt_walk_cong [of t1 t, OF child] Cons.prems(2) by simp
  have get1: "dt_abs t1 = dt_abs t"
    using dt_get_cong [of t1 t, OF nodes child] by blast
  have i: "i < length (dt_nodes t1)"
    using dt_walk_range [OF wf1 _ walk1] dt_wfD(1) [OF wf1] by simp
  show ?case
  proof (cases "map_of (dn_children (dt_nodes t1 ! i)) n")
    case (Some c)
    then have "dt_walk t1 0 (p @ [l]) = Some c"
      using walk1 lab i by (simp add: dt_walk_snoc dt_child_def dt_edge_def)
    from Cons.IH [OF wf1 this] Cons.prems(3,4) len nodes
    obtain t2 j where "insert_path t1 c ls = Some (t2, Inr j)" "dt_wf t2" "dt_walk t2 0 ((p @ [l]) @ ls) = Some j"
      "dt_abs t2 = dt_abs t1" "length (dt_nodes t2) \<le> length (dt_nodes t1) + length ls"
      "length (dt_labels t2) \<le> length (dt_labels t1) + length ls"
      by auto
    with Some n i get1 nodes len show ?thesis
      by simp
  next
    case None
    let ?c = "length (dt_nodes t1)"
    let ?t2 = "add_child t1 i n ?c"
    have trunc: "?c mod 2 ^ 32 = ?c"
      using Cons.prems(3) nodes by simp
    have none: "dt_edge t1 i n = None"
      using None i by (simp add: dt_edge_def)
    note ok = add_child_ok [OF wf1 i lab none refl]
    have "dt_walk ?t2 0 (p @ [l]) = Some ?c"
      using ok(3) [OF walk1] ok(4) by (simp add: dt_walk_snoc)
    from Cons.IH [OF ok(1) this] Cons.prems(3,4) len nodes
    obtain t3 j where t3: "insert_path ?t2 ?c ls = Some (t3, Inr j)" "dt_wf t3" "dt_walk t3 0 ((p @ [l]) @ ls) = Some j"
      "dt_abs t3 = dt_abs ?t2" "length (dt_nodes t3) \<le> length (dt_nodes ?t2) + length ls"
      "length (dt_labels t3) \<le> length (dt_labels ?t2) + length ls"
      by auto
    have "dt_abs ?t2 = dt_abs t"
      using ok(2) [of 0] dt_wfD(1) [OF wf1] get1 by auto
    with t3 n i None trunc nodes len show ?thesis
      by (auto simp: Let_def)
  qed
qed simp

lemma domain_trie_insert_ok:
  assumes "dt_wf t" "pattern_labels domain = Inr ls"
    and "length (dt_nodes t) + length ls \<le> 2 ^ 32" "length (dt_labels t) + length ls \<le> 2 ^ 32"
  shows "\<exists>t1. domain_trie_insert t domain v = Some (t1, Inr (dt_abs t (rev ls))) \<and> dt_wf t1
     \<and> dt_abs t1 = (dt_abs t)(rev ls \<mapsto> v)
     \<and> length (dt_nodes t1) \<le> length (dt_nodes t) + length ls
     \<and> length (dt_labels t1) \<le> length (dt_labels t) + length ls"
proof -
  have "dt_walk t 0 [] = Some 0"
    by simp
  from insert_path_ok [OF assms(1) this, of "rev ls"] assms(3,4)
  obtain t1 j where t1: "insert_path t 0 (rev ls) = Some (t1, Inr j)" "dt_wf t1"
    "dt_walk t1 0 (rev ls) = Some j" "dt_abs t1 = dt_abs t"
    "length (dt_nodes t1) \<le> length (dt_nodes t) + length ls"
    "length (dt_labels t1) \<le> length (dt_labels t) + length ls"
    by auto
  have j: "j < length (dt_nodes t1)"
    using dt_walk_range [OF t1(2) _ t1(3)] dt_wfD(1) [OF t1(2)] by simp
  have old: "dn_value (dt_nodes t1 ! j) = dt_abs t (rev ls)"
    using j t1(3,4) dt_get_walk [of t1 0 "rev ls"] by simp
  have "domain_trie_insert t domain v = Some (set_value t1 j (Some v), Inr (dt_abs t (rev ls)))"
    using assms(2) t1(1) j old by (simp add: domain_trie_insert_def set_value_def)
  moreover have "dt_abs (set_value t1 j (Some v)) = (dt_abs t)(rev ls \<mapsto> v)"
    using dt_abs_set_value [OF t1(2,3)] t1(4) by simp
  ultimately show ?thesis
    using t1(2,5,6) by simp
qed

subsection \<open>Removal\<close>

lemma remove_domain_ok:
  assumes "dt_wf t" "dt_walk t 0 p = Some i"
  shows "\<exists>t1. remove_domain t i ls = Some (t1, dt_abs t (p @ ls)) \<and> dt_wf t1
     \<and> dt_abs t1 = (dt_abs t)(p @ ls := None) \<and> dt_labels t1 = dt_labels t
     \<and> length (dt_nodes t1) = length (dt_nodes t) \<and> (\<forall>j < i. dt_nodes t1 ! j = dt_nodes t ! j)
     \<and> dt_walk t1 0 p = Some i"
  using assms
proof (induction ls arbitrary: i p)
  case Nil
  have i: "i < length (dt_nodes t)"
    using dt_walk_range [OF Nil(1) _ Nil(2)] dt_wfD(1) [OF Nil(1)] by simp
  have "remove_domain t i [] = Some (set_value t i None, dt_abs t p)"
    using i dt_get_walk [of t 0 p] Nil(2) by (simp add: set_value_def)
  moreover have "\<forall>j<i. dt_nodes (set_value t i None) ! j = dt_nodes t ! j"
    by (simp add: set_value_def)
  moreover have "dt_abs (set_value t i None) = (dt_abs t)(p := None)"
    using dt_abs_set_value [OF Nil(1,2)] by (simp add: fun_upd_def)
  ultimately show ?case
    using Nil by (simp add: fun_eq_iff del: remove_domain.simps)
next
  case (Cons l ls)
  have i: "i < length (dt_nodes t)"
    using dt_walk_range [OF Cons.prems(1) _ Cons.prems(2)] dt_wfD(1) [OF Cons.prems(1)] by simp
  show ?case
  proof (cases "dt_child t i l")
    case None
    then have "dt_abs t (p @ l # ls) = None"
      using dt_get_append [OF Cons.prems(2)] by simp
    moreover from this have "(dt_abs t)(p @ l # ls := None) = dt_abs t"
      by auto
    moreover have "remove_domain t i (l # ls) = Some (t, None)"
      using None i by (auto simp: dt_child_def dt_edge_def split: option.splits Option.bind_splits)
    ultimately show ?thesis
      using Cons.prems by simp
  next
    case (Some c)
    then obtain n where n: "map_of (dt_labels t) l = Some n" "map_of (dn_children (dt_nodes t ! i)) n = Some c"
      using dt_child_edge [OF Some] i by (auto simp: dt_edge_def)
    have ic: "i < c" "c < length (dt_nodes t)"
      using dt_child_less [OF Cons.prems(1) Some] by auto
    have "dt_walk t 0 (p @ [l]) = Some c"
      using Some Cons.prems(2) by (simp add: dt_walk_snoc)
    from Cons.IH [OF Cons.prems(1) this] obtain t1 where
      t1: "remove_domain t c ls = Some (t1, dt_abs t (p @ l # ls))" "dt_wf t1"
      "dt_abs t1 = (dt_abs t)(p @ l # ls := None)" "dt_labels t1 = dt_labels t"
      "length (dt_nodes t1) = length (dt_nodes t)" "\<forall>j < c. dt_nodes t1 ! j = dt_nodes t ! j"
      "dt_walk t1 0 (p @ [l]) = Some c"
      unfolding append_assoc append_Cons append_Nil by blast
    have same: "dt_nodes t1 ! i = dt_nodes t ! i"
      using t1(6) ic by simp
    have child1: "dt_child t1 i l = Some c"
      using n same ic t1(4,5) by (simp add: dt_child_def dt_edge_def)
    have walk1: "dt_walk t1 0 p = Some i"
      using t1(7) child1 dt_child_inj [OF t1(2)]
      by (auto simp: dt_walk_snoc split: Option.bind_splits)
    let ?leaf = "dn_value (dt_nodes t1 ! c) = None \<and> dn_children (dt_nodes t1 ! c) = []"
    have eq: "remove_domain t i (l # ls) =
      Some (if ?leaf then del_edge t1 i n else t1, dt_abs t (p @ l # ls))"
      using n i ic t1(1,5) same by (simp add: del_edge_def)
    show ?thesis
    proof (cases ?leaf)
      case True
      have "dt_edge t1 i n = Some c"
        using n same ic t1(5) by (simp add: dt_edge_def)
      then have "dt_abs (del_edge t1 i n) = dt_abs t1"
        using dt_get_del_edge [OF t1(2)] True by blast
      moreover have "dt_walk (del_edge t1 i n) 0 p = Some i"
        using dt_walk_del_edge_before [OF t1(2) _ walk1] dt_wfD(1) [OF t1(2)] by simp
      moreover have "\<forall>j<i. dt_nodes (del_edge t1 i n) ! j = dt_nodes t ! j"
        using t1(6) ic by (simp add: del_edge_def)
      ultimately show ?thesis
        using eq True t1 dt_wf_del_edge [OF t1(2)] by (simp add: fun_eq_iff del: remove_domain.simps)
    next
      case False
      then have "remove_domain t i (l # ls) = Some (t1, dt_abs t (p @ l # ls))"
        using eq by presburger
      then show ?thesis
        using t1 walk1 ic by (simp add: fun_eq_iff del: remove_domain.simps)
    qed
  qed
qed

lemma domain_trie_remove_ok:
  assumes "dt_wf t" "pattern_labels domain = Inr ls"
  shows "\<exists>t1. domain_trie_remove t domain = Some (t1, Inr (dt_abs t (rev ls))) \<and> dt_wf t1
     \<and> dt_abs t1 = (dt_abs t)(rev ls := None)"
  using remove_domain_ok [OF assms(1), of "[]" 0 "rev ls"] assms(2)
  by (auto simp: domain_trie_remove_def)

subsection \<open>Search\<close>

text \<open>
  The lookup the trie computes, stated on the map alone: an exact label is preferred to
  \<open>*\<close>, and a \<open>*\<close> that ends a pattern takes all the labels that are left, none included.
\<close>

fun pattern_lookup :: "(string list \<Rightarrow> 'a option) \<Rightarrow> string list \<Rightarrow> 'a option" where
  "pattern_lookup m [] = or_else (m []) (m [''*''])"
| "pattern_lookup m (l # ls) =
     or_else (pattern_lookup (\<lambda>p. m (l # p)) ls)
       (or_else (m [''*'']) (pattern_lookup (\<lambda>p. m (''*'' # p)) ls))"

lemma pattern_lookup_empty [simp]: "pattern_lookup (\<lambda>p. None) ls = None"
  by (induction ls) simp_all

lemma search_domain_ok:
  "dt_wf t \<Longrightarrow> i < length (dt_nodes t) \<Longrightarrow>
   search_domain t i ls = Some (pattern_lookup (dt_get t i) ls)"
proof (induction ls arbitrary: i)
  case Nil
  have "dt_get t i [''*''] =
    (case dt_child t i ''*'' of None \<Rightarrow> None | Some c \<Rightarrow> dn_value (dt_nodes t ! c))"
    using dt_child_less [OF Nil(1), of i "''*''"] by (auto split: option.splits)
  moreover have "Option.bind (map_of (dt_labels t) ''*'') (map_of (dn_children (dt_nodes t ! i))) = dt_child t i ''*''"
    using Nil by (cases "map_of (dt_labels t) ''*''") (simp_all add: dt_child_def dt_edge_def)
  ultimately show ?case
    using Nil dt_child_less [OF Nil(1), of i "''*''"] by (auto split: option.splits simp del: dt_get.simps(2))
next
  case (Cons l ls)
  note i = Cons.prems(2)
  have child: "Option.bind (map_of (dt_labels t) s) (map_of (dn_children (dt_nodes t ! i))) = dt_child t i s" for s
    using i by (cases "map_of (dt_labels t) s") (simp_all add: dt_child_def dt_edge_def)
  have sub: "(case dt_child t i s of None \<Rightarrow> Some None | Some c \<Rightarrow> search_domain t c ls)
      = Some (pattern_lookup (\<lambda>p. dt_get t i (s # p)) ls)" for s
    using Cons.IH [OF Cons.prems(1)] dt_child_less [OF Cons.prems(1), of i s]
    by (auto split: option.splits)
  have star: "(case dt_child t i ''*'' of None \<Rightarrow> Some None
       | Some c \<Rightarrow> (case nth_opt (dt_nodes t) c of None \<Rightarrow> None
           | Some child \<Rightarrow> (case dn_value child of Some v \<Rightarrow> Some (Some v) | None \<Rightarrow> search_domain t c ls)))
      = Some (or_else (dt_get t i [''*'']) (pattern_lookup (\<lambda>p. dt_get t i (''*'' # p)) ls))"
    using Cons.IH [OF Cons.prems(1)] dt_child_less [OF Cons.prems(1), of i "''*''"]
    by (auto split: option.splits)
  show ?case
    using i by (simp add: child sub star del: dt_get.simps)
qed

lemma search_parent_loop_ok:
  "dt_wf t \<Longrightarrow> n \<le> length ls \<Longrightarrow>
   search_parent_loop t ls n =
     Some (case find (\<lambda>k. pattern_lookup (dt_abs t) (take k ls) \<noteq> None) (rev [1..<Suc n]) of
             None \<Rightarrow> None | Some k \<Rightarrow> pattern_lookup (dt_abs t) (take k ls))"
proof (induction n)
  case (Suc n)
  have "search_domain t 0 (take (Suc n) ls) = Some (pattern_lookup (dt_abs t) (take (Suc n) ls))"
    using Suc.prems(1) dt_wfD(1) by (intro search_domain_ok) auto
  with Suc show ?case
    by (cases "pattern_lookup (dt_abs t) (take (Suc n) ls)") auto
qed simp

text \<open>
  When a pattern covers a name: the declarative reading of the lookup. Both sides are label
  lists with the top-level label first.
\<close>

fun pattern_covers :: "string list \<Rightarrow> string list \<Rightarrow> bool" where
  "pattern_covers [] ls = (ls = [])"
| "pattern_covers [p] [] = (p = ''*'')"
| "pattern_covers (p # q # ps) [] = False"
| "pattern_covers (p # ps) (l # ls) =
     (p = ''*'' \<and> ps = [] \<or> (p = l \<or> p = ''*'') \<and> pattern_covers ps ls)"

lemma pattern_covers_star [simp]: "pattern_covers [''*''] ls"
  by (cases ls) auto

lemma pattern_covers_refl [simp]: "pattern_covers ls ls"
  by (induction ls) auto

lemma pattern_covers_Nil_iff: "pattern_covers p [] \<longleftrightarrow> p = [] \<or> p = [''*'']"
  by (cases p rule: remdups_adj.cases) auto

lemma pattern_lookup_covers:
  "pattern_lookup m ls = Some v \<Longrightarrow> \<exists>p. m p = Some v \<and> pattern_covers p ls"
proof (induction ls arbitrary: m)
  case Nil
  then show ?case
    by (cases "m []") (auto simp: pattern_covers_Nil_iff)
next
  case (Cons l ls)
  consider (exact) "pattern_lookup (\<lambda>p. m (l # p)) ls = Some v"
    | (ends) "m [''*''] = Some v"
    | (star) "pattern_lookup (\<lambda>p. m (''*'' # p)) ls = Some v"
    using Cons.prems
    by (cases "pattern_lookup (\<lambda>p. m (l # p)) ls"; cases "m [''*'']") auto
  then show ?case
  proof cases
    case exact
    from Cons.IH [OF this] show ?thesis
      by (metis pattern_covers.simps(4))
  next
    case ends
    then show ?thesis
      using pattern_covers_star by blast
  next
    case star
    from Cons.IH [OF this] show ?thesis
      by (metis pattern_covers.simps(4))
  qed
qed

lemma pattern_lookup_None_iff:
  "pattern_lookup m ls = None \<longleftrightarrow> (\<forall>p. pattern_covers p ls \<longrightarrow> m p = None)"
proof (induction ls arbitrary: m)
  case Nil
  then show ?case by (auto simp: pattern_covers_Nil_iff)
next
  case (Cons l ls)
  have cov: "pattern_covers p (l # ls) \<longleftrightarrow>
      p = [''*''] \<or> (\<exists>q. p = l # q \<and> pattern_covers q ls) \<or> (\<exists>q. p = ''*'' # q \<and> pattern_covers q ls)" for p
    by (cases p) auto
  have "(\<forall>p. pattern_covers p (l # ls) \<longrightarrow> m p = None) \<longleftrightarrow>
      (\<forall>q. pattern_covers q ls \<longrightarrow> m (l # q) = None) \<and> m [''*''] = None
      \<and> (\<forall>q. pattern_covers q ls \<longrightarrow> m (''*'' # q) = None)"
    unfolding cov by (simp only: ex_simps imp_disjL all_conj_distrib imp_ex imp_conjL) (simp add: conj_ac)
  then show ?case
    by (simp only: pattern_lookup.simps or_else_eq_None_iff Cons.IH)
qed

text \<open>
  Which of two patterns covering the same name takes precedence: the one that ends first;
  otherwise, at the first difference, an exact label before \<open>*\<close>, and a final \<open>*\<close> before one
  with labels below it.
\<close>

fun preferred :: "string list \<Rightarrow> string list \<Rightarrow> bool" where
  "preferred [] q = True"
| "preferred (p # ps) [] = False"
| "preferred (p # ps) (q # qs) =
     (if p \<noteq> q then p \<noteq> ''*''
      else if p = ''*'' then ps = [] \<or> qs \<noteq> [] \<and> preferred ps qs
      else preferred ps qs)"

lemma pattern_covers_Cons:
  "pattern_covers p (l # ls) \<longleftrightarrow>
     p = [''*''] \<or> (\<exists>q. p = l # q \<and> pattern_covers q ls) \<or> (\<exists>q. p = ''*'' # q \<and> pattern_covers q ls)"
  by (cases p) auto

lemma pattern_lookup_preferred:
  "''*'' \<notin> set ls \<Longrightarrow> pattern_lookup m ls = Some v \<Longrightarrow>
   \<exists>p. m p = Some v \<and> pattern_covers p ls \<and> (\<forall>q. pattern_covers q ls \<and> m q \<noteq> None \<longrightarrow> preferred p q)"
proof (induction ls arbitrary: m)
  case Nil
  show ?case
  proof (cases "m []")
    case None
    then have "m [''*''] = Some v"
      using Nil by simp
    with None show ?thesis
      by (intro exI [of _ "[''*'']"]) (auto simp: pattern_covers_Nil_iff)
  next
    case (Some w)
    with Nil show ?thesis
      by (intro exI [of _ "[]"]) simp
  qed
next
  case (Cons l ls)
  have l: "l \<noteq> ''*''" and ls: "''*'' \<notin> set ls"
    using Cons.prems(1) by auto
  show ?case
  proof (cases "pattern_lookup (\<lambda>p. m (l # p)) ls")
    case (Some w)
    then obtain p where "m (l # p) = Some v" "pattern_covers p ls"
      "\<forall>q. pattern_covers q ls \<and> m (l # q) \<noteq> None \<longrightarrow> preferred p q"
      using Cons.IH [OF ls, of "\<lambda>p. m (l # p)"] Cons.prems(2) by auto
    with l show ?thesis
      by (intro exI [of _ "l # p"]) (auto simp: pattern_covers_Cons)
  next
    case None
    then have exact: "pattern_covers q ls \<Longrightarrow> m (l # q) = None" for q
      by (simp add: pattern_lookup_None_iff)
    show ?thesis
    proof (cases "m [''*'']")
      case (Some w)
      with exact None Cons.prems(2) show ?thesis
        by (intro exI [of _ "[''*'']"]) (auto simp: pattern_covers_Cons)
    next
      case star: None
      then obtain p where "m (''*'' # p) = Some v" "pattern_covers p ls"
        "\<forall>q. pattern_covers q ls \<and> m (''*'' # q) \<noteq> None \<longrightarrow> preferred p q"
        using Cons.IH [OF ls, of "\<lambda>p. m (''*'' # p)"] Cons.prems(2) None by auto
      with exact star show ?thesis
        by (intro exI [of _ "''*'' # p"]) (auto simp: pattern_covers_Cons)
    qed
  qed
qed

lemma valid_domain_no_star: "valid_domain d \<Longrightarrow> ''*'' \<notin> set (rev (domain_labels d))"
  using valid_label_not_star by (auto simp: valid_domain_def)

subsection \<open>The trie as an index\<close>

definition domain_pattern :: "string \<Rightarrow> string list result" where
  "domain_pattern p = map_sum id rev (pattern_labels p)"

definition dt_used :: "'a domain_trie \<Rightarrow> nat" where
  "dt_used t = max (length (dt_nodes t)) (length (dt_labels t))"

lemma domain_pattern_Inr: "domain_pattern p = Inr k \<longleftrightarrow> pattern_labels p = Inr (rev k)"
  by (cases "pattern_labels p") (auto simp: domain_pattern_def)

lemma domain_pattern_Inl: "domain_pattern p = Inl e \<longleftrightarrow> pattern_labels p = Inl e"
  by (cases "pattern_labels p") (auto simp: domain_pattern_def)

interpretation dt: removable_index domain_pattern domain_trie_insert dt_abs dt_wf dt_used length
  "2 ^ 32" domain_trie_remove
proof unfold_locales
  fix t :: "'a domain_trie" and p k v e
  show "dt_wf t \<Longrightarrow> domain_pattern p = Inr k \<Longrightarrow> dt_used t + length k \<le> 2 ^ 32 \<Longrightarrow>
      \<exists>t1. domain_trie_insert t p v = Some (t1, Inr (dt_abs t k)) \<and> dt_wf t1
        \<and> dt_abs t1 = (dt_abs t)(k \<mapsto> v) \<and> dt_used t1 \<le> dt_used t + length k"
    using domain_trie_insert_ok [of t p "rev k" v]
    by (fastforce simp: domain_pattern_Inr dt_used_def)
  show "dt_wf t \<Longrightarrow> domain_pattern p = Inr k \<Longrightarrow>
      \<exists>t1. domain_trie_remove t p = Some (t1, Inr (dt_abs t k)) \<and> dt_wf t1
        \<and> dt_abs t1 = (dt_abs t)(k := None)"
    using domain_trie_remove_ok [of t p "rev k"] by (simp add: domain_pattern_Inr)
  show "domain_pattern p = Inl e \<Longrightarrow> domain_trie_insert t p v = Some (t, Inl e)"
    by (simp add: domain_pattern_Inl domain_trie_insert_def)
  show "domain_pattern p = Inl e \<Longrightarrow> domain_trie_remove t p = Some (t, Inl e)"
    by (simp add: domain_pattern_Inl domain_trie_remove_def)
qed

lemma dt_abs_new: "dt_abs domain_trie_new = Map.empty"
proof
  fix p :: "string list"
  show "dt_abs (domain_trie_new :: 'a domain_trie) p = None"
    by (cases p) (auto simp: domain_trie_new_def domain_node_default_def dt_child_def)
qed

lemma dt_used_new: "dt_used domain_trie_new = 1"
  by (simp add: dt_used_def domain_trie_new_def)

lemma domain_search_lookup:
  assumes "dt_wf t" "valid_domain d"
  shows "domain_trie_search t d = Some (Inr (pattern_lookup (dt_abs t) (rev (domain_labels d))))"
  using assms dt_wfD(1) [OF assms(1)] search_domain_ok [OF assms(1)]
  by (simp add: domain_trie_search_def domain_name_new_of_valid)

text \<open>A rule list whose patterns all parse, and what the trie holds after inserting it.\<close>

definition domain_rules_ok :: "(string \<times> 'v) list \<Rightarrow> bool" where
  "domain_rules_ok rules \<longleftrightarrow> list_all (\<lambda>(p, v). is_ok (domain_pattern p)) rules
     \<and> 1 + (\<Sum>(p, v)\<leftarrow>rules. length (projr (domain_pattern p))) \<le> 2 ^ 32"

abbreviation domain_keyed :: "(string \<times> 'v) list \<Rightarrow> (string list \<times> 'v) list" where
  "domain_keyed rules \<equiv> map (\<lambda>(p, v). (projr (domain_pattern p), v)) rules"

lemma domain_keyed_rel:
  "list_all (\<lambda>(p, v). is_ok (domain_pattern p)) rules \<Longrightarrow>
   list_all2 (\<lambda>(p, v) (k, w). domain_pattern p = Inr k \<and> v = w) rules (domain_keyed rules)"
  by (induction rules) (auto simp: is_ok_def split: sum.splits)

lemma domain_insert_all:
  assumes "domain_rules_ok rules"
  shows "\<exists>t. insert_all domain_trie_insert domain_trie_new rules = Some (t, Inr ())
     \<and> dt_wf t \<and> dt_abs t = last_wins (domain_keyed rules)"
proof -
  have "dt_used (domain_trie_new :: 'a domain_trie) + (\<Sum>kv\<leftarrow>domain_keyed rules. length (fst kv)) \<le> 2 ^ 32"
    using assms by (simp add: domain_rules_ok_def dt_used_new comp_def case_prod_unfold)
  from dt.insert_all_ok [OF dt_wf_new domain_keyed_rel this] assms show ?thesis
    by (auto simp: domain_rules_ok_def dt_abs_new)
qed

subsection \<open>Properties\<close>

text \<open>
  C8: a domain trie filled from any rule list whose patterns parse never panics. A search for
  a valid name finds nothing exactly when no stored pattern covers the name; otherwise it
  returns the value last inserted under a covering pattern that takes precedence over every
  other covering pattern.
\<close>

theorem domain_search_best_pattern:
  assumes "domain_rules_ok rules" "valid_domain d"
  shows "\<exists>t r. insert_all domain_trie_insert domain_trie_new rules = Some (t, Inr ())
     \<and> domain_trie_search t d = Some (Inr r)
     \<and> (r = None \<longleftrightarrow> (\<forall>(p, v) \<in> set (domain_keyed rules). \<not> pattern_covers p (rev (domain_labels d))))
     \<and> (\<forall>v. r = Some v \<longrightarrow>
          (\<exists>p. last_wins (domain_keyed rules) p = Some v \<and> pattern_covers p (rev (domain_labels d))
            \<and> (\<forall>(q, w) \<in> set (domain_keyed rules).
                 pattern_covers q (rev (domain_labels d)) \<longrightarrow> preferred p q)))"
proof -
  let ?m = "last_wins (domain_keyed rules)" and ?ls = "rev (domain_labels d)"
  obtain t where t: "insert_all domain_trie_insert domain_trie_new rules = Some (t, Inr ())"
    "dt_wf t" "dt_abs t = ?m"
    using domain_insert_all [OF assms(1)] by blast
  have search: "domain_trie_search t d = Some (Inr (pattern_lookup ?m ?ls))"
    using domain_search_lookup [OF t(2) assms(2)] t(3) by simp
  have stored: "?m q \<noteq> None \<longleftrightarrow> (\<exists>w. (q, w) \<in> set (domain_keyed rules))" for q
    unfolding last_wins_None_iff by (force simp del: set_map)
  then have none: "pattern_lookup ?m ?ls = None \<longleftrightarrow>
      (\<forall>(p, v) \<in> set (domain_keyed rules). \<not> pattern_covers p ?ls)"
    unfolding pattern_lookup_None_iff by blast
  have some: "\<exists>p. ?m p = Some v \<and> pattern_covers p ?ls
      \<and> (\<forall>(q, w) \<in> set (domain_keyed rules). pattern_covers q ?ls \<longrightarrow> preferred p q)"
    if found: "pattern_lookup ?m ?ls = Some v" for v
  proof -
    obtain p where "?m p = Some v" "pattern_covers p ?ls"
      "\<forall>q. pattern_covers q ?ls \<and> ?m q \<noteq> None \<longrightarrow> preferred p q"
      using pattern_lookup_preferred [OF valid_domain_no_star [OF assms(2)] found] by blast
    with stored show ?thesis
      by (intro exI [of _ p]) (auto simp del: set_map)
  qed
  show ?thesis
    by (intro exI [of _ t] exI [of _ "pattern_lookup ?m ?ls"] conjI t(1) search none allI impI some)
qed

theorem domain_search_best_pattern_witness:
  defines "rules \<equiv> [(''example.com'', 1 :: nat), (''*.api.example.com'', 2), (''Example.com.'', 3)]"
  shows "\<exists>t. insert_all domain_trie_insert domain_trie_new rules = Some (t, Inr ())
     \<and> domain_trie_search t ''www.example.com'' = Some (Inr None)"
proof -
  have "domain_rules_ok rules"
    unfolding rules_def by code_simp
  moreover have "valid_domain ''www.example.com''"
    by code_simp
  moreover have "\<forall>(p, v) \<in> set (domain_keyed rules). \<not> pattern_covers p (rev (domain_labels ''www.example.com''))"
    unfolding rules_def by code_simp
  ultimately show ?thesis
    using domain_search_best_pattern [of rules "''www.example.com''"] by auto
qed

text \<open>
  Inserting a pattern and removing it again returns the inserted value; when the pattern
  was not stored before, every lookup by exact pattern and every search answers as before.
\<close>

lemma domain_insert_remove:
  assumes "dt_wf t" "pattern_labels p = Inr ls" "dt_used t + length ls \<le> 2 ^ 32"
    and "dt_abs t (rev ls) = None"
  shows "\<exists>t1 t2. domain_trie_insert t p v = Some (t1, Inr None)
     \<and> domain_trie_remove t1 p = Some (t2, Inr (Some v))
     \<and> (\<forall>d. valid_domain d \<longrightarrow> domain_trie_search t2 d = domain_trie_search t d)"
proof -
  have "domain_pattern p = Inr (rev ls)"
    using assms(2) by (simp add: domain_pattern_Inr)
  from dt.ins_del [OF assms(1) this, of v] assms(3) obtain t1 t2 where
    t: "domain_trie_insert t p v = Some (t1, Inr (dt_abs t (rev ls)))"
    "domain_trie_remove t1 p = Some (t2, Inr (Some v))" "dt_wf t2"
    "dt_abs t2 = (dt_abs t)(rev ls := None)"
    by auto
  then have "dt_abs t2 = dt_abs t"
    using assms(4) by (simp add: fun_upd_idem)
  with t assms(4) show ?thesis
    using domain_search_lookup [OF t(3)] domain_search_lookup [OF assms(1)] by simp
qed

lemma domain_insert_remove_example:
  "\<exists>t1 t2. domain_trie_insert domain_trie_new ''*.a.com'' True = Some (t1, Inr None)
     \<and> domain_trie_remove t1 ''*.a.com'' = Some (t2, Inr (Some True))
     \<and> (\<forall>d. valid_domain d \<longrightarrow> domain_trie_search t2 d = domain_trie_search domain_trie_new d)"
proof (rule domain_insert_remove)
  show "pattern_labels ''*.a.com'' = Inr [''*'', ''a'', ''com'']"
    by code_simp
qed (simp_all add: dt_wf_new dt_used_new dt_abs_new)

end
