(* ===== verification/Cidr_Trie.thy ===== *)
theory Cidr_Trie
  imports Index_Spec
begin

text \<open>
  The longest-prefix-match trie of \<open>trie/src/lib.rs\<close>: a binary tree of owned nodes per
  address family, walked by the bits of an address, most significant bit first. The lemmas
  read it as a map from an address family and a bit string to values (\<open>ct_abs\<close>), show
  that \<open>insert\<close> and \<open>remove\<close> update that map at one key, and that \<open>search\<close> returns the
  value of the longest stored prefix of the address.
\<close>

subsection \<open>The model\<close>

datatype 'a cidr_node =
  CidrNode (cn_value: "'a option") (cn_zero: "'a cidr_node option") (cn_one: "'a cidr_node option")

definition cidr_node_default :: "'a cidr_node" where
  "cidr_node_default = CidrNode None None None"

record 'a cidr_trie =
  ct_v4 :: "'a cidr_node"
  ct_v6 :: "'a cidr_node"

definition cidr_trie_new :: "'a cidr_trie" where
  "cidr_trie_new = \<lparr>ct_v4 = cidr_node_default, ct_v6 = cidr_node_default\<rparr>"

definition address_width :: "ip_addr \<Rightarrow> nat" where
  "address_width address = (case address of V4 _ \<Rightarrow> 32 | V6 _ \<Rightarrow> 128)"

definition address_bits :: "ip_addr \<Rightarrow> bool list" where
  "address_bits address =
     map (\<lambda>index. and (octets address ! (index div 8)) (push_bit (7 - index mod 8) 1) \<noteq> 0)
       [0..<address_width address]"

definition cn_child :: "'a cidr_node \<Rightarrow> bool \<Rightarrow> 'a cidr_node option" where
  "cn_child node b = (if b then cn_one node else cn_zero node)"

definition cn_set_child :: "'a cidr_node \<Rightarrow> bool \<Rightarrow> 'a cidr_node option \<Rightarrow> 'a cidr_node" where
  "cn_set_child node b c =
     (if b then CidrNode (cn_value node) (cn_zero node) c
      else CidrNode (cn_value node) c (cn_one node))"

text \<open>The loop of \<open>CidrTrie::insert\<close>, creating the missing children on the way down.\<close>

fun insert_bits :: "'a cidr_node \<Rightarrow> bool list \<Rightarrow> 'a \<Rightarrow> 'a cidr_node \<times> 'a option" where
  "insert_bits node [] value =
     (CidrNode (Some value) (cn_zero node) (cn_one node), cn_value node)"
| "insert_bits node (b # bits) value =
     (let child = (case cn_child node b of None \<Rightarrow> cidr_node_default | Some c \<Rightarrow> c);
          (child1, old) = insert_bits child bits value
      in (cn_set_child node b (Some child1), old))"

fun remove_cidr :: "'a cidr_node \<Rightarrow> bool list \<Rightarrow> 'a cidr_node \<times> 'a option" where
  "remove_cidr node [] = (CidrNode None (cn_zero node) (cn_one node), cn_value node)"
| "remove_cidr node (b # bits) =
     (case cn_child node b of
        None \<Rightarrow> (node, None)
      | Some child_node \<Rightarrow>
          (let (child1, result) = remove_cidr child_node bits in
           if cn_value child1 = None \<and> cn_zero child1 = None \<and> cn_one child1 = None
           then (cn_set_child node b None, result)
           else (cn_set_child node b (Some child1), result)))"

text \<open>The loop of \<open>CidrTrie::search\<close> with its variable \<open>best\<close>.\<close>

fun search_bits :: "'a cidr_node \<Rightarrow> 'a option \<Rightarrow> bool list \<Rightarrow> 'a option" where
  "search_bits node best [] = best"
| "search_bits node best (b # bits) =
     (case cn_child node b of
        None \<Rightarrow> best
      | Some next \<Rightarrow>
          search_bits next (if cn_value next \<noteq> None then cn_value next else best) bits)"

definition ct_root :: "'a cidr_trie \<Rightarrow> bool \<Rightarrow> 'a cidr_node" where
  "ct_root t v4 = (if v4 then ct_v4 t else ct_v6 t)"

definition ct_set_root :: "'a cidr_trie \<Rightarrow> bool \<Rightarrow> 'a cidr_node \<Rightarrow> 'a cidr_trie" where
  "ct_set_root t v4 n = (if v4 then t\<lparr>ct_v4 := n\<rparr> else t\<lparr>ct_v6 := n\<rparr>)"

definition cidr_trie_insert ::
  "'a cidr_trie \<Rightarrow> ip_addr \<Rightarrow> nat \<Rightarrow> 'a \<Rightarrow> 'a cidr_trie \<times> 'a option result" where
  "cidr_trie_insert t network prefix_len value =
     (if prefix_len > address_width network
      then (t, Inl (error_invalid ''CIDR prefix length exceeds address width''))
      else
        (let (root, old) =
           insert_bits (ct_root t (is_ipv4 network)) (take prefix_len (address_bits network)) value
         in (ct_set_root t (is_ipv4 network) root, Inr old)))"

definition cidr_trie_remove ::
  "'a cidr_trie \<Rightarrow> ip_addr \<Rightarrow> nat \<Rightarrow> 'a cidr_trie \<times> 'a option result" where
  "cidr_trie_remove t network prefix_len =
     (if prefix_len > address_width network
      then (t, Inl (error_invalid ''CIDR prefix length exceeds address width''))
      else
        (let (root, old) =
           remove_cidr (ct_root t (is_ipv4 network)) (take prefix_len (address_bits network))
         in (ct_set_root t (is_ipv4 network) root, Inr old)))"

definition cidr_trie_search :: "'a cidr_trie \<Rightarrow> ip_addr \<Rightarrow> 'a option" where
  "cidr_trie_search t address =
     (let root = ct_root t (is_ipv4 address)
      in search_bits root (cn_value root) (address_bits address))"

subsection \<open>The map the trie implements\<close>

fun cn_get :: "'a cidr_node \<Rightarrow> bool list \<Rightarrow> 'a option" where
  "cn_get node [] = cn_value node"
| "cn_get node (b # bits) = (case cn_child node b of None \<Rightarrow> None | Some c \<Rightarrow> cn_get c bits)"

text \<open>A parsed CIDR pattern: the family (\<open>True\<close> for IPv4) and the bits of the prefix.\<close>

type_synonym cidr_key = "bool \<times> bool list"

definition ct_abs :: "'a cidr_trie \<Rightarrow> cidr_key \<Rightarrow> 'a option" where
  "ct_abs t k = cn_get (ct_root t (fst k)) (snd k)"

definition cidr_pattern :: "ip_addr \<times> nat \<Rightarrow> cidr_key result" where
  "cidr_pattern np =
     (if snd np > address_width (fst np)
      then Inl (error_invalid ''CIDR prefix length exceeds address width'')
      else Inr (is_ipv4 (fst np), take (snd np) (address_bits (fst np))))"

lemma length_address_bits [simp]: "length (address_bits a) = address_width a"
  by (simp add: address_bits_def)

lemma cn_child_set [simp]:
  "cn_child (cn_set_child n b c) b' = (if b' = b then c else cn_child n b')"
  by (simp add: cn_child_def cn_set_child_def)

lemma cn_value_set [simp]: "cn_value (cn_set_child n b c) = cn_value n"
  by (simp add: cn_set_child_def)

lemma cn_get_default [simp]: "cn_get cidr_node_default bs = None"
  by (cases bs) (simp_all add: cidr_node_default_def cn_child_def)

lemma cn_child_CidrNode: "cn_child (CidrNode v (cn_zero n) (cn_one n)) b = cn_child n b"
  by (simp add: cn_child_def)

lemma insert_bits_ok:
  "insert_bits n bs v = (n1, old) \<Longrightarrow> old = cn_get n bs \<and> cn_get n1 = (cn_get n)(bs \<mapsto> v)"
proof (induction bs arbitrary: n n1)
  case Nil
  then have "cn_get n1 p = ((cn_get n)([] \<mapsto> v)) p" for p
    by (cases p) (auto simp: cn_child_CidrNode)
  with Nil show ?case by auto
next
  case (Cons b bs)
  let ?c = "case cn_child n b of None \<Rightarrow> cidr_node_default | Some c \<Rightarrow> c"
  obtain c1 where c1: "insert_bits ?c bs v = (c1, old)" "n1 = cn_set_child n b (Some c1)"
    using Cons.prems by (auto simp: Let_def split: prod.splits)
  note IH = Cons.IH [OF c1(1)]
  have get: "cn_get ?c q = cn_get n (b # q)" for q
    by (auto split: option.splits)
  have "cn_get n1 p = ((cn_get n)(b # bs \<mapsto> v)) p" for p
    using IH get c1(2) by (cases p) auto
  with IH get show ?case by auto
qed

lemma cn_empty_default:
  "cn_value c = None \<and> cn_zero c = None \<and> cn_one c = None \<longleftrightarrow> c = cidr_node_default"
  by (cases c) (simp add: cidr_node_default_def)

lemma remove_cidr_ok:
  "remove_cidr n bs = (n1, old) \<Longrightarrow> old = cn_get n bs \<and> cn_get n1 = (cn_get n)(bs := None)"
proof (induction bs arbitrary: n n1)
  case Nil
  then have "cn_get n1 p = ((cn_get n)([] := None)) p" for p
    by (cases p) (auto simp: cn_child_CidrNode)
  with Nil show ?case by auto
next
  case (Cons b bs)
  show ?case
  proof (cases "cn_child n b")
    case None
    with Cons.prems show ?thesis by (auto simp: fun_upd_idem_iff)
  next
    case (Some c)
    obtain c1 where c1: "remove_cidr c bs = (c1, old)"
      "n1 = cn_set_child n b (if c1 = cidr_node_default then None else Some c1)"
      using Cons.prems Some by (auto simp: Let_def cn_empty_default split: prod.splits if_splits)
    note IH = Cons.IH [OF c1(1)]
    have "cn_get n1 p = ((cn_get n)(b # bs := None)) p" for p
      using IH c1(2) Some by (cases p) (auto split: if_splits dest: fun_cong)
    with IH Some show ?thesis by auto
  qed
qed

lemma ct_root_set [simp]: "ct_root (ct_set_root t f n) g = (if g = f then n else ct_root t g)"
  by (simp add: ct_root_def ct_set_root_def)

lemma ct_abs_set_root:
  "cn_get n = (cn_get (ct_root t f))(bs := x) \<Longrightarrow>
   ct_abs (ct_set_root t f n) = (ct_abs t)((f, bs) := x)"
  by (auto simp: ct_abs_def fun_eq_iff)

lemma cidr_trie_insert_ok:
  assumes "cidr_pattern (network, len) = Inr k"
  shows "\<exists>t1. cidr_trie_insert t network len v = (t1, Inr (ct_abs t k)) \<and> ct_abs t1 = (ct_abs t)(k \<mapsto> v)"
proof -
  let ?f = "is_ipv4 network" and ?bs = "take len (address_bits network)"
  have k: "k = (?f, ?bs)" and le: "len \<le> address_width network"
    using assms by (auto simp: cidr_pattern_def split: if_splits)
  obtain r old where r: "insert_bits (ct_root t ?f) ?bs v = (r, old)"
    by fastforce
  note ok = insert_bits_ok [OF r]
  show ?thesis
    using r le ok ct_abs_set_root [of r t ?f ?bs "Some v"]
    by (simp add: cidr_trie_insert_def k ct_abs_def)
qed

lemma cidr_trie_remove_ok:
  assumes "cidr_pattern (network, len) = Inr k"
  shows "\<exists>t1. cidr_trie_remove t network len = (t1, Inr (ct_abs t k)) \<and> ct_abs t1 = (ct_abs t)(k := None)"
proof -
  let ?f = "is_ipv4 network" and ?bs = "take len (address_bits network)"
  have k: "k = (?f, ?bs)" and le: "len \<le> address_width network"
    using assms by (auto simp: cidr_pattern_def split: if_splits)
  obtain r old where r: "remove_cidr (ct_root t ?f) ?bs = (r, old)"
    by fastforce
  note ok = remove_cidr_ok [OF r]
  show ?thesis
    using r le ok ct_abs_set_root [of r t ?f ?bs None]
    by (simp add: cidr_trie_remove_def k ct_abs_def)
qed

lemma ct_abs_new: "ct_abs cidr_trie_new = Map.empty"
  by (auto simp: ct_abs_def ct_root_def cidr_trie_new_def)

text \<open>The CIDR trie meets the contract of an index; it has no capacity limit.\<close>

definition cidr_ins :: "'a cidr_trie \<Rightarrow> ip_addr \<times> nat \<Rightarrow> 'a \<Rightarrow> ('a cidr_trie, 'a option) outcome" where
  "cidr_ins t np v = Some (cidr_trie_insert t (fst np) (snd np) v)"

definition cidr_del :: "'a cidr_trie \<Rightarrow> ip_addr \<times> nat \<Rightarrow> ('a cidr_trie, 'a option) outcome" where
  "cidr_del t np = Some (cidr_trie_remove t (fst np) (snd np))"

interpretation ct: removable_index cidr_pattern cidr_ins ct_abs "\<lambda>_. True" "\<lambda>_. 0" "\<lambda>_. 0" 0 cidr_del
proof unfold_locales
  fix t :: "'a cidr_trie" and p k v e
  show "cidr_pattern p = Inr k \<Longrightarrow> \<exists>t1. cidr_ins t p v = Some (t1, Inr (ct_abs t k)) \<and> True
      \<and> ct_abs t1 = (ct_abs t)(k \<mapsto> v) \<and> 0 \<le> (0 :: nat) + 0"
    using cidr_trie_insert_ok [of "fst p" "snd p" k t v] by (simp add: cidr_ins_def)
  show "cidr_pattern p = Inr k \<Longrightarrow> \<exists>t1. cidr_del t p = Some (t1, Inr (ct_abs t k)) \<and> True
      \<and> ct_abs t1 = (ct_abs t)(k := None)"
    using cidr_trie_remove_ok [of "fst p" "snd p" k t] by (simp add: cidr_del_def)
  show "cidr_pattern p = Inl e \<Longrightarrow> cidr_ins t p v = Some (t, Inl e)"
    by (auto simp: cidr_ins_def cidr_pattern_def cidr_trie_insert_def split: if_splits)
  show "cidr_pattern p = Inl e \<Longrightarrow> cidr_del t p = Some (t, Inl e)"
    by (auto simp: cidr_del_def cidr_pattern_def cidr_trie_remove_def split: if_splits)
qed

subsection \<open>Search\<close>

text \<open>The longest prefix of \<open>bs\<close> at which \<open>m\<close> has a value.\<close>

fun lpm :: "(bool list \<Rightarrow> 'a option) \<Rightarrow> bool list \<Rightarrow> 'a option" where
  "lpm m [] = m []"
| "lpm m (b # bs) = or_else (lpm (\<lambda>p. m (b # p)) bs) (m [])"

lemma lpm_empty [simp]: "lpm (\<lambda>_. None) bs = None"
  by (induction bs) auto

lemma or_else_if: "or_else a (if b \<noteq> None then b else c) = or_else (or_else a b) c"
  by (cases a; cases b) auto

lemma lpm_value_first: "or_else (lpm (cn_get n) bs) (cn_value n) = lpm (cn_get n) bs"
  by (cases bs) (auto simp: or_else_def split: option.splits)

lemma search_bits_lpm:
  "best = cn_value n \<or> cn_value n = None \<Longrightarrow> search_bits n best bs = or_else (lpm (cn_get n) bs) best"
proof (induction bs arbitrary: n best)
  case Nil
  then show ?case by (auto simp: or_else_def split: option.splits)
next
  case (Cons b bs)
  show ?case
  proof (cases "cn_child n b")
    case None
    with Cons.prems show ?thesis
      by (auto simp: or_else_def split: option.splits)
  next
    case (Some c)
    let ?best = "if cn_value c \<noteq> None then cn_value c else best"
    have "search_bits c ?best bs = or_else (lpm (cn_get c) bs) ?best"
      by (rule Cons.IH) auto
    also have "\<dots> = or_else (lpm (cn_get c) bs) best"
      by (simp only: or_else_if lpm_value_first)
    finally show ?thesis
      using Some Cons.prems by (auto simp: or_else_def split: option.splits)
  qed
qed

lemma cidr_trie_search_lpm:
  "cidr_trie_search t a = lpm (\<lambda>bs. ct_abs t (is_ipv4 a, bs)) (address_bits a)"
  using search_bits_lpm [of "cn_value (ct_root t (is_ipv4 a))" "ct_root t (is_ipv4 a)" "address_bits a"]
  by (simp add: cidr_trie_search_def ct_abs_def lpm_value_first Let_def)

lemma ex_le_Suc: "(\<exists>n \<le> Suc k. P n) \<longleftrightarrow> P 0 \<or> (\<exists>n \<le> k. P (Suc n))"
  by (metis Suc_le_mono le0 not0_implies_Suc)

lemma all_le_Suc: "(\<forall>n \<le> Suc k. P n) \<longleftrightarrow> P 0 \<and> (\<forall>n \<le> k. P (Suc n))"
  by (metis Suc_le_mono le0 not0_implies_Suc)

lemma lpm_None_iff: "lpm m bs = None \<longleftrightarrow> (\<forall>n \<le> length bs. m (take n bs) = None)"
proof (induction bs arbitrary: m)
  case (Cons b bs)
  show ?case
    using Cons.IH [of "\<lambda>p. m (b # p)"] by (simp add: all_le_Suc conj_commute)
qed simp

lemma lpm_Some_iff:
  "lpm m bs = Some v \<longleftrightarrow>
   (\<exists>n \<le> length bs. m (take n bs) = Some v \<and> (\<forall>k \<le> length bs. n < k \<longrightarrow> m (take k bs) = None))"
proof (induction bs arbitrary: m)
  case (Cons b bs)
  have split: "or_else x y = Some v \<longleftrightarrow> x = Some v \<or> x = None \<and> y = Some v" for x y :: "'a option"
    by (cases x) auto
  show ?case
    using Cons.IH [of "\<lambda>p. m (b # p)"] lpm_None_iff [of "\<lambda>p. m (b # p)" bs]
    by (simp add: split ex_le_Suc all_le_Suc) blast
qed simp

text \<open>The bits of an address, and what it means for two addresses to agree on a prefix.\<close>

lemma nth_nat_be: "k < n \<Longrightarrow> nat_be n v ! k = of_nat (v div 256 ^ (n - 1 - k))"
proof (induction n v arbitrary: k rule: nat_be.induct)
  case (2 n v)
  show ?case
  proof (cases "k = n")
    case False
    with 2 have "k < n" by simp
    then have "n - k = Suc (n - 1 - k)" by simp
    then show ?thesis
      using 2 \<open>k < n\<close> by (simp add: nth_append div_mult2_eq)
  qed (simp add: nth_append)
qed simp

lemma and_push_bit_1: "and (x :: byte) (push_bit j 1) \<noteq> 0 \<longleftrightarrow> bit x j" if "j < 8"
proof -
  have "and x (push_bit j 1) = (if bit x j then push_bit j 1 else 0)"
    by (rule bit_eqI) (auto simp: bit_simps)
  moreover have "bit (push_bit j 1 :: byte) j"
    using that by (simp add: bit_push_bit_iff del: push_bit_of_1)
  then have "push_bit j 1 \<noteq> (0 :: byte)"
    using bit_0_eq [where 'a = byte] by (auto simp del: push_bit_of_1)
  ultimately show ?thesis by simp
qed

lemma take_map_upt_eq_iff:
  "p \<le> n \<Longrightarrow> take p (map f [0..<n]) = take p (map g [0..<n]) \<longleftrightarrow> (\<forall>i < p. f i = g i)"
  by (auto simp: list_eq_iff_nth_eq)

lemma nat_be_bit:
  assumes "i < 8 * n"
  shows "and (nat_be n v ! (i div 8)) (push_bit (7 - i mod 8) 1) \<noteq> 0 \<longleftrightarrow> bit v (8 * n - 1 - i)"
proof -
  have k: "i div 8 < n"
    using assms by (simp add: less_mult_imp_div_less mult.commute)
  have pow: "(256 :: nat) ^ m = 2 ^ (8 * m)" for m
    by (simp add: power_mult)
  obtain m where m: "n = Suc (i div 8 + m)"
    using k less_iff_Suc_add by auto
  have "8 * m + (7 - r) = 8 * Suc (q + m) - 1 - (8 * q + r)" if "r < 8" for q r
    using that by simp
  from this [of "i mod 8" "i div 8"] have "8 * (n - 1 - i div 8) + (7 - i mod 8) = 8 * n - 1 - i"
    by (simp add: m)
  moreover have lt: "7 - i mod 8 < 8"
    by (rule le_less_trans [of _ 7]) simp_all
  moreover have "bit (of_nat (v div 256 ^ (n - 1 - i div 8)) :: byte) (7 - i mod 8)
      \<longleftrightarrow> bit v (8 * (n - 1 - i div 8) + (7 - i mod 8))"
    using lt by (simp add: pow bit_simps drop_bit_eq_div [symmetric])
  ultimately show ?thesis
    using k by (simp add: nth_nat_be and_push_bit_1 del: push_bit_of_1)
qed

lemma address_bits_v4: "address_bits (V4 a) = map (\<lambda>i. bit a (31 - i)) [0..<32]"
proof -
  have "and (nat_be 4 (unat a) ! (i div 8)) (push_bit (7 - i mod 8) 1) \<noteq> 0 \<longleftrightarrow> bit a (31 - i)" if "i < 32" for i
    using nat_be_bit [of i 4 "unat a"] that by (simp add: bit_unsigned_iff)
  then show ?thesis
    by (simp add: address_bits_def address_width_def to_be32_def)
qed

lemma address_bits_v6: "address_bits (V6 a) = map (\<lambda>i. bit a (127 - i)) [0..<128]"
proof -
  have "and (nat_be 16 (unat a) ! (i div 8)) (push_bit (7 - i mod 8) 1) \<noteq> 0 \<longleftrightarrow> bit a (127 - i)" if "i < 128" for i
    using nat_be_bit [of i 16 "unat a"] that by (simp add: bit_unsigned_iff)
  then show ?thesis
    by (simp add: address_bits_def address_width_def to_be128_def)
qed

text \<open>A CIDR block contains an address when the bits above the host part agree.\<close>

fun in_prefix :: "ip_addr \<Rightarrow> nat \<Rightarrow> ip_addr \<Rightarrow> bool" where
  "in_prefix (V4 n) len (V4 a) = (drop_bit (32 - len) a = drop_bit (32 - len) n)"
| "in_prefix (V6 n) len (V6 a) = (drop_bit (128 - len) a = drop_bit (128 - len) n)"
| "in_prefix _ _ _ = False"

lemma drop_bit_eq_iff_bits:
  fixes a b :: "'w :: len word"
  shows "drop_bit (LENGTH('w) - p) a = drop_bit (LENGTH('w) - p) b \<longleftrightarrow>
     (\<forall>i < min p LENGTH('w). bit a (LENGTH('w) - 1 - i) = bit b (LENGTH('w) - 1 - i))"
  (is "?l \<longleftrightarrow> ?r")
proof
  assume l: ?l
  show ?r
  proof (intro allI impI)
    fix i assume i: "i < min p LENGTH('w)"
    have "bit (drop_bit (LENGTH('w) - p) x) (min p LENGTH('w) - 1 - i) = bit x (LENGTH('w) - 1 - i)" for x :: "'w word"
      using i by (simp add: bit_drop_bit_eq min_def split: if_splits)
    with l show "bit a (LENGTH('w) - 1 - i) = bit b (LENGTH('w) - 1 - i)"
      by metis
  qed
next
  assume r: ?r
  show ?l
  proof (rule bit_eqI)
    fix j assume "possible_bit TYPE('w word) j"
    show "bit (drop_bit (LENGTH('w) - p) a) j = bit (drop_bit (LENGTH('w) - p) b) j"
    proof (cases "LENGTH('w) - p + j < LENGTH('w)")
      case True
      let ?i = "LENGTH('w) - 1 - (LENGTH('w) - p + j)"
      have "?i < min p LENGTH('w)" "LENGTH('w) - 1 - ?i = LENGTH('w) - p + j"
        using True by auto
      with r show ?thesis
        by (metis bit_drop_bit_eq comp_apply)
    next
      case False
      then show ?thesis
        by (auto simp: bit_drop_bit_eq bit_imp_le_length dest: bit_imp_le_length)
    qed
  qed
qed

lemma in_prefix_bits:
  assumes "len \<le> address_width n"
  shows "in_prefix n len a \<longleftrightarrow>
     is_ipv4 a = is_ipv4 n \<and> take len (address_bits a) = take len (address_bits n)"
proof (cases n; cases a)
  fix x y assume "n = V4 x" "a = V4 y"
  then show ?thesis
    using assms drop_bit_eq_iff_bits [of len y x]
    by (simp add: address_bits_v4 take_map_upt_eq_iff address_width_def min_def del: take_map)
next
  fix x y assume "n = V6 x" "a = V6 y"
  then show ?thesis
    using assms drop_bit_eq_iff_bits [of len y x]
    by (simp add: address_bits_v6 take_map_upt_eq_iff address_width_def min_def del: take_map)
qed auto

subsection \<open>The trie against a linear scan\<close>

text \<open>
  The reference: scan the rules in order and keep the rule with the longest prefix seen so
  far; at equal length the later rule replaces the earlier one.
\<close>

definition naive_step :: "ip_addr \<Rightarrow> (nat \<times> 'v) option \<Rightarrow> (ip_addr \<times> nat) \<times> 'v \<Rightarrow> (nat \<times> 'v) option" where
  "naive_step a best r =
     (case r of ((network, len), v) \<Rightarrow>
        if in_prefix network len a \<and> (case best of None \<Rightarrow> True | Some (l, _) \<Rightarrow> l \<le> len)
        then Some (len, v) else best)"

definition naive_lpm :: "ip_addr \<Rightarrow> ((ip_addr \<times> nat) \<times> 'v) list \<Rightarrow> 'v option" where
  "naive_lpm a rules = map_option snd (foldl (naive_step a) None rules)"

definition cidr_rules_ok :: "((ip_addr \<times> nat) \<times> 'v) list \<Rightarrow> bool" where
  "cidr_rules_ok rules = list_all (\<lambda>((network, len), v). len \<le> address_width network) rules"

abbreviation cidr_keyed :: "((ip_addr \<times> nat) \<times> 'v) list \<Rightarrow> (cidr_key \<times> 'v) list" where
  "cidr_keyed rules \<equiv> map (\<lambda>((n, l), v). ((is_ipv4 n, take l (address_bits n)), v)) rules"

lemma cidr_keyed_rel:
  "cidr_rules_ok rules \<Longrightarrow>
   list_all2 (\<lambda>(p, v) (k, w). cidr_pattern p = Inr k \<and> v = w) rules (cidr_keyed rules)"
  by (induction rules) (auto simp: cidr_rules_ok_def cidr_pattern_def)

lemma last_wins_snoc: "last_wins (kvs @ [(k, v)]) = (last_wins kvs)(k \<mapsto> v)"
  by (simp add: last_wins_def)

lemma address_width_family: "is_ipv4 a = is_ipv4 b \<Longrightarrow> address_width a = address_width b"
  by (cases a; cases b) (auto simp: address_width_def)

lemma take_eq_take_length:
  "k \<le> length xs \<Longrightarrow> l \<le> length ys \<Longrightarrow> take k xs = take l ys \<Longrightarrow> k = l"
  by (metis length_take min.absorb2)

definition stored_at :: "((ip_addr \<times> nat) \<times> 'v) list \<Rightarrow> ip_addr \<Rightarrow> nat \<Rightarrow> 'v option" where
  "stored_at rules a n = last_wins (cidr_keyed rules) (is_ipv4 a, take n (address_bits a))"

lemma stored_at_snoc:
  assumes "len \<le> address_width n" "k \<le> address_width a"
  shows "stored_at (rules @ [((n, len), v)]) a k =
     (if k = len \<and> in_prefix n len a then Some v else stored_at rules a k)"
proof -
  have "(is_ipv4 a, take k (address_bits a)) = (is_ipv4 n, take len (address_bits n))
      \<longleftrightarrow> k = len \<and> in_prefix n len a"
    using assms in_prefix_bits [OF assms(1), of a] address_width_family [of a n]
      take_eq_take_length [of k "address_bits a" len "address_bits n"]
    by auto
  then show ?thesis
    by (simp add: stored_at_def last_wins_snoc)
qed

lemma naive_scan_invariant:
  "cidr_rules_ok rules \<Longrightarrow>
   case foldl (naive_step a) None rules of
     None \<Rightarrow> \<forall>n \<le> address_width a. stored_at rules a n = None
   | Some (l, v) \<Rightarrow> l \<le> address_width a \<and> stored_at rules a l = Some v
       \<and> (\<forall>k \<le> address_width a. l < k \<longrightarrow> stored_at rules a k = None)"
proof (induction rules rule: rev_induct)
  case (snoc r rules)
  obtain n len v where r: "r = ((n, len), v)"
    by (cases r) auto
  have ok: "cidr_rules_ok rules" and len: "len \<le> address_width n"
    using snoc.prems r by (auto simp: cidr_rules_ok_def)
  have "in_prefix n len a \<Longrightarrow> len \<le> address_width a"
    using in_prefix_bits [OF len] len address_width_family [of a n] by simp
  then show ?case
    using snoc.IH [OF ok] len
    by (auto simp: stored_at_snoc r naive_step_def split: option.splits prod.splits if_splits)
qed (simp add: stored_at_def)

lemma naive_lpm_eq:
  "cidr_rules_ok rules \<Longrightarrow>
   naive_lpm a rules = lpm (\<lambda>bs. last_wins (cidr_keyed rules) (is_ipv4 a, bs)) (address_bits a)"
proof -
  assume ok: "cidr_rules_ok rules"
  show ?thesis
  proof (cases "foldl (naive_step a) None rules")
    case None
    with naive_scan_invariant [OF ok, of a] show ?thesis
      by (simp add: naive_lpm_def stored_at_def lpm_None_iff eq_commute [of None])
  next
    case (Some lv)
    then obtain l v where lv: "foldl (naive_step a) None rules = Some (l, v)"
      by (cases lv) auto
    with naive_scan_invariant [OF ok, of a]
    have "lpm (\<lambda>bs. last_wins (cidr_keyed rules) (is_ipv4 a, bs)) (address_bits a) = Some v"
      unfolding lpm_Some_iff by (auto simp: stored_at_def)
    then show ?thesis
      using lv by (simp add: naive_lpm_def)
  qed
qed

lemma cidr_insert_all:
  assumes "cidr_rules_ok rules"
  shows "\<exists>t. insert_all cidr_ins cidr_trie_new rules = Some (t, Inr ())
     \<and> ct_abs t = last_wins (cidr_keyed rules)"
  using ct.insert_all_ok [where t = cidr_trie_new, OF TrueI cidr_keyed_rel [OF assms]]
  by (auto simp: ct_abs_new)

lemma cidr_search_cong: "ct_abs t = ct_abs u \<Longrightarrow> cidr_trie_search t a = cidr_trie_search u a"
  by (simp add: cidr_trie_search_lpm)

subsection \<open>Properties\<close>

text \<open>
  C5: the CIDR trie filled from any list of rules with valid prefix lengths answers every
  query, IPv4 or IPv6, as a linear scan that keeps the longest matching prefix (the later
  rule at equal prefixes).
\<close>

theorem cidr_search_is_longest_prefix:
  assumes "cidr_rules_ok rules"
  shows "\<exists>t. insert_all cidr_ins cidr_trie_new rules = Some (t, Inr ())
     \<and> (\<forall>a. cidr_trie_search t a = naive_lpm a rules)"
  using cidr_insert_all [OF assms] naive_lpm_eq [OF assms] by (auto simp: cidr_trie_search_lpm)

theorem cidr_search_is_longest_prefix_witness:
  defines "rules \<equiv> [((V4 0x0A000000, 8), ''private''), ((V4 0x0A010000, 16), ''specific''),
      ((V6 0x20010db8000000000000000000000000, 32), ''doc'')]"
  shows "\<exists>t. insert_all cidr_ins cidr_trie_new rules = Some (t, Inr ())
     \<and> cidr_trie_search t (V4 0x0A010203) = Some ''specific''
     \<and> cidr_trie_search t (V4 0x0A090203) = Some ''private''
     \<and> cidr_trie_search t (V4 0x08080808) = None"
proof -
  have "cidr_rules_ok rules"
    by (simp add: rules_def cidr_rules_ok_def address_width_def)
  from cidr_search_is_longest_prefix [OF this] show ?thesis
    by (auto simp: rules_def naive_lpm_def naive_step_def)
qed

text \<open>
  Removing a network just inserted returns its value, and when the network was not
  stored before, the trie answers every query as before the insertion.
\<close>

lemma cidr_insert_remove:
  assumes "len \<le> address_width network"
    and "ct_abs t (is_ipv4 network, take len (address_bits network)) = None"
  shows "\<exists>t1 t2. cidr_trie_insert t network len v = (t1, Inr None)
     \<and> cidr_trie_remove t1 network len = (t2, Inr (Some v))
     \<and> (\<forall>a. cidr_trie_search t2 a = cidr_trie_search t a)"
proof -
  let ?k = "(is_ipv4 network, take len (address_bits network))"
  have "cidr_pattern (network, len) = Inr ?k"
    using assms(1) by (simp add: cidr_pattern_def)
  from ct.ins_del [OF TrueI this, of t v] obtain t1 t2 where
    t: "cidr_trie_insert t network len v = (t1, Inr (ct_abs t ?k))"
    "cidr_trie_remove t1 network len = (t2, Inr (Some v))" "ct_abs t2 = (ct_abs t)(?k := None)"
    by (auto simp: cidr_ins_def cidr_del_def)
  then have "ct_abs t2 = ct_abs t"
    using assms(2) by (simp add: fun_upd_idem)
  with t assms(2) show ?thesis
    using cidr_search_cong by (metis (no_types))
qed

lemma cidr_insert_remove_example:
  "\<exists>t1 t2. cidr_trie_insert cidr_trie_new (V4 0x0A000000) 8 ''private'' = (t1, Inr None)
     \<and> cidr_trie_remove t1 (V4 0x0A000000) 8 = (t2, Inr (Some ''private''))
     \<and> (\<forall>a. cidr_trie_search t2 a = cidr_trie_search cidr_trie_new a)"
  by (rule cidr_insert_remove) (simp_all add: address_width_def ct_abs_new)

end
