(* ===== verification/Combined_Trie.thy ===== *)
theory Combined_Trie
  imports Domain_Trie Cidr_Trie
begin

text \<open>
  \<open>CombinedTrie\<close> of \<open>trie/src/lib.rs\<close>: one index for the router, a pattern with a slash
  going to the CIDR trie and any other to the domain trie. It meets the contract of
  \<open>pattern_index\<close> because both tries do.
\<close>

subsection \<open>The model\<close>

record 'a combined_trie =
  cb_domains :: "'a domain_trie"
  cb_cidrs :: "'a cidr_trie"

definition combined_trie_new :: "'a combined_trie" where
  "combined_trie_new = \<lparr>cb_domains = domain_trie_new, cb_cidrs = cidr_trie_new\<rparr>"

text \<open>The text of a CIDR pattern, split at its slash.\<close>

definition parse_cidr :: "string \<times> string \<Rightarrow> (ip_addr \<times> nat) result" where
  "parse_cidr ap =
     (case parse_ip_addr (fst ap) of
        None \<Rightarrow> Inl (error_invalid ''invalid CIDR address'')
      | Some address \<Rightarrow>
          (case parse_uint 8 10 (snd ap) of
             None \<Rightarrow> Inl (error_invalid ''invalid CIDR prefix length'')
           | Some pl \<Rightarrow> Inr (address, pl)))"

definition combined_trie_insert ::
  "'a combined_trie \<Rightarrow> string \<Rightarrow> 'a \<Rightarrow> ('a combined_trie, 'a option) outcome" where
  "combined_trie_insert t pattern value =
     (case split_once CHR ''/'' pattern of
        Some ap \<Rightarrow>
          (case parse_cidr ap of
             Inl e \<Rightarrow> Some (t, Inl e)
           | Inr (address, pl) \<Rightarrow>
               (let (c, r) = cidr_trie_insert (cb_cidrs t) address pl value
                in Some (t\<lparr>cb_cidrs := c\<rparr>, r)))
      | None \<Rightarrow>
          (case domain_trie_insert (cb_domains t) pattern value of
             None \<Rightarrow> None
           | Some (d, r) \<Rightarrow> Some (t\<lparr>cb_domains := d\<rparr>, r)))"

text \<open>\<open>search(..).ok().flatten()\<close>: an invalid name is not found.\<close>

definition ok_flatten :: "'a option result \<Rightarrow> 'a option" where
  "ok_flatten r = (case r of Inl _ \<Rightarrow> None | Inr x \<Rightarrow> x)"

definition combined_trie_search :: "'a combined_trie \<Rightarrow> endpoint \<Rightarrow> 'a option option" where
  "combined_trie_search t e =
     (case e of
        EIp _ addr \<Rightarrow> Some (cidr_trie_search (cb_cidrs t) (sock_ip addr))
      | EDomain _ host _ \<Rightarrow> map_option ok_flatten (domain_trie_search (cb_domains t) host))"

definition combined_trie_search_parent :: "'a combined_trie \<Rightarrow> endpoint \<Rightarrow> 'a option option" where
  "combined_trie_search_parent t e =
     (case e of
        EIp _ addr \<Rightarrow> Some (cidr_trie_search (cb_cidrs t) (sock_ip addr))
      | EDomain _ host _ \<Rightarrow> map_option ok_flatten (domain_trie_search_parent (cb_domains t) host))"

subsection \<open>The combined index\<close>

type_synonym combined_key = "string list + cidr_key"

definition combined_pattern :: "string \<Rightarrow> combined_key result" where
  "combined_pattern pattern =
     (case split_once CHR ''/'' pattern of
        Some ap \<Rightarrow> rbind (parse_cidr ap) (\<lambda>np. rbind (cidr_pattern np) (\<lambda>k. Inr (Inr k)))
      | None \<Rightarrow> rbind (domain_pattern pattern) (\<lambda>k. Inr (Inl k)))"

definition cb_abs :: "'a combined_trie \<Rightarrow> combined_key \<Rightarrow> 'a option" where
  "cb_abs t k = (case k of Inl p \<Rightarrow> dt_abs (cb_domains t) p | Inr c \<Rightarrow> ct_abs (cb_cidrs t) c)"

definition cb_wf :: "'a combined_trie \<Rightarrow> bool" where
  "cb_wf t = dt_wf (cb_domains t)"

definition cb_used :: "'a combined_trie \<Rightarrow> nat" where
  "cb_used t = dt_used (cb_domains t)"

definition cb_weight :: "combined_key \<Rightarrow> nat" where
  "cb_weight k = (case k of Inl p \<Rightarrow> length p | Inr c \<Rightarrow> 0)"

lemma cb_abs_upd:
  "dt_abs d = (dt_abs (cb_domains t))(p := x) \<Longrightarrow>
     cb_abs (t\<lparr>cb_domains := d\<rparr>) = (cb_abs t)(Inl p := x)"
  "ct_abs c = (ct_abs (cb_cidrs t))(q := x) \<Longrightarrow>
     cb_abs (t\<lparr>cb_cidrs := c\<rparr>) = (cb_abs t)(Inr q := x)"
  by (auto simp: cb_abs_def fun_eq_iff split: sum.splits)

interpretation cb: pattern_index combined_pattern combined_trie_insert cb_abs cb_wf cb_used
  cb_weight "2 ^ 32"
proof unfold_locales
  fix t :: "'a combined_trie" and p k v e
  assume wf: "cb_wf t" and key: "combined_pattern p = Inr k" and room: "cb_used t + cb_weight k \<le> 2 ^ 32"
  show "\<exists>t1. combined_trie_insert t p v = Some (t1, Inr (cb_abs t k)) \<and> cb_wf t1
      \<and> cb_abs t1 = (cb_abs t)(k \<mapsto> v) \<and> cb_used t1 \<le> cb_used t + cb_weight k"
  proof (cases "split_once CHR ''/'' p")
    case None
    then obtain d where d: "domain_pattern p = Inr d" "k = Inl d"
      using key by (auto simp: combined_pattern_def result_simps)
    then have "dt_used (cb_domains t) + length d \<le> 2 ^ 32"
      using room by (simp add: cb_used_def cb_weight_def)
    from dt.ins_ok [OF _ d(1) this, of v] wf None d(2) show ?thesis
      by (force simp: cb_wf_def combined_trie_insert_def cb_used_def cb_weight_def cb_abs_def
          fun_eq_iff split: sum.splits)
  next
    case (Some ap)
    then obtain n l c where c: "parse_cidr ap = Inr (n, l)" "cidr_pattern (n, l) = Inr c" "k = Inr c"
      using key by (auto simp: combined_pattern_def result_simps)
    from cidr_trie_insert_ok [OF c(2), of "cb_cidrs t" v] wf Some c show ?thesis
      by (auto simp: cb_wf_def combined_trie_insert_def cb_used_def cb_weight_def cb_abs_def
          fun_eq_iff split: sum.splits)
  qed
next
  fix t :: "'a combined_trie" and p v e
  assume "combined_pattern p = Inl e"
  then show "combined_trie_insert t p v = Some (t, Inl e)"
    using dt.ins_err [of p e "cb_domains t" v]
    by (auto simp: combined_pattern_def combined_trie_insert_def rbind_def cidr_pattern_def
        cidr_trie_insert_def Let_def split: option.splits sum.splits if_splits)
qed

lemma cb_new: "cb_wf combined_trie_new" "cb_abs combined_trie_new = Map.empty"
    "cb_used combined_trie_new = 1"
  by (auto simp: cb_wf_def cb_used_def cb_abs_def combined_trie_new_def dt_wf_new dt_abs_new
      ct_abs_new dt_used_new fun_eq_iff split: sum.splits)

text \<open>What a search computes from the abstract map.\<close>

definition combined_lookup :: "(combined_key \<Rightarrow> 'a option) \<Rightarrow> endpoint \<Rightarrow> 'a option" where
  "combined_lookup m e =
     (case e of
        EIp _ addr \<Rightarrow>
          lpm (\<lambda>bs. m (Inr (is_ipv4 (sock_ip addr), bs))) (address_bits (sock_ip addr))
      | EDomain _ host _ \<Rightarrow> pattern_lookup (\<lambda>p. m (Inl p)) (rev (domain_labels host)))"

fun valid_endpoint :: "endpoint \<Rightarrow> bool" where
  "valid_endpoint (EIp _ _) = True"
| "valid_endpoint (EDomain _ host _) = valid_domain host"

lemma combined_search_lookup:
  assumes "cb_wf t" "valid_endpoint e"
  shows "combined_trie_search t e = Some (combined_lookup (cb_abs t) e)"
proof (cases e)
  case (EIp n a)
  then show ?thesis
    by (simp add: combined_trie_search_def combined_lookup_def cidr_trie_search_lpm cb_abs_def)
next
  case (EDomain n h p)
  then show ?thesis
    using domain_search_lookup [of "cb_domains t" h] assms
    by (simp add: combined_trie_search_def combined_lookup_def cb_abs_def cb_wf_def ok_flatten_def)
qed

text \<open>A rule list whose patterns parse, and the index it builds.\<close>

definition patterns_ok :: "(string \<times> 'v) list \<Rightarrow> bool" where
  "patterns_ok rules \<longleftrightarrow> list_all (\<lambda>(p, v). is_ok (combined_pattern p)) rules
     \<and> 1 + (\<Sum>(p, v)\<leftarrow>rules. cb_weight (projr (combined_pattern p))) \<le> 2 ^ 32"

abbreviation combined_keyed :: "(string \<times> 'v) list \<Rightarrow> (combined_key \<times> 'v) list" where
  "combined_keyed rules \<equiv> map (\<lambda>(p, v). (projr (combined_pattern p), v)) rules"

lemma combined_keyed_rel:
  "list_all (\<lambda>(p, v). is_ok (combined_pattern p)) rules \<Longrightarrow>
   list_all2 (\<lambda>(p, v) (k, w). combined_pattern p = Inr k \<and> v = w) rules (combined_keyed rules)"
  by (induction rules) (auto simp: is_ok_def split: sum.splits)

lemma combined_insert_all:
  assumes "patterns_ok rules"
  shows "\<exists>t. insert_all combined_trie_insert combined_trie_new rules = Some (t, Inr ())
     \<and> cb_wf t \<and> cb_abs t = last_wins (combined_keyed rules)"
proof -
  have "cb_used (combined_trie_new :: 'a combined_trie) + (\<Sum>kv\<leftarrow>combined_keyed rules. cb_weight (fst kv)) \<le> 2 ^ 32"
    using assms by (simp add: patterns_ok_def cb_new comp_def case_prod_unfold)
  from cb.insert_all_ok [OF cb_new(1) combined_keyed_rel this] assms show ?thesis
    by (auto simp: patterns_ok_def cb_new)
qed

end
