(* ===== verification/Disk_Build.thy ===== *)
theory Disk_Build
  imports Combined_Trie "HOL-Library.List_Lexorder"
begin

text \<open>
  How the file-backed membership index is built (\<open>trie/src/ondisk_build.rs\<close> and the building
  half of \<open>trie/src/ondisk.rs\<close>): patterns become fixed-width records, records are sorted in
  bounded runs, and the runs are merged into one table behind a 32-byte header. A file is the
  list of its bytes. Failures of the file system itself (a file that cannot be created,
  written, renamed or mapped) are not modelled; everything the code checks about the contents
  of a file is. The lemmas show that the external sort yields the strictly sorted records of
  exactly the keys that went in.

  \<open>[u8]\<close> is compared lexicographically by unsigned bytes, which is the order of
  \<^typ>\<open>byte list\<close> here.
\<close>

subsection \<open>Constants and keys\<close>

definition MAGIC :: "byte list" where
  "MAGIC = as_bytes ''YHTRIE01''"

definition VERSION :: nat where "VERSION = 1"
definition HEADER_SIZE :: nat where "HEADER_SIZE = 32"
definition DOMAIN_RECORD_SIZE :: nat where "DOMAIN_RECORD_SIZE = 256"
definition CIDR_RECORD_SIZE :: nat where "CIDR_RECORD_SIZE = 32"
definition DOMAIN_KEY_SIZE :: nat where "DOMAIN_KEY_SIZE = DOMAIN_RECORD_SIZE - 2"
definition CIDR_KEY_SIZE :: nat where "CIDR_KEY_SIZE = 18"
definition ROOT_RECORD_SIZE :: nat where "ROOT_RECORD_SIZE = 68"
definition ROOT_KEY_SIZE :: nat where "ROOT_KEY_SIZE = ROOT_RECORD_SIZE - 2"
definition SORT_CHUNK_BYTES :: nat where "SORT_CHUNK_BYTES = 8 * 1024 * 1024"
definition MERGE_FAN_IN :: nat where "MERGE_FAN_IN = 32"

lemmas disk_consts =
  VERSION_def HEADER_SIZE_def DOMAIN_RECORD_SIZE_def CIDR_RECORD_SIZE_def DOMAIN_KEY_SIZE_def
  CIDR_KEY_SIZE_def ROOT_RECORD_SIZE_def ROOT_KEY_SIZE_def SORT_CHUNK_BYTES_def MERGE_FAN_IN_def

definition mask_octets :: "byte list \<Rightarrow> nat \<Rightarrow> byte list" where
  "mask_octets os pl =
     (let full = pl div 8; remainder = pl mod 8 in
      if full < length os then
        (let os1 = (if remainder \<noteq> 0
                    then os[full := and (os ! full) (push_bit (8 - remainder) 0xff)] else os);
             from = full + of_bool (remainder \<noteq> 0)
         in take from os1 @ replicate (length os - from) 0)
      else os)"

definition mask_address :: "ip_addr \<Rightarrow> nat \<Rightarrow> ip_addr" where
  "mask_address address pl =
     (case address of
        V4 a \<Rightarrow> V4 (from_be32 (mask_octets (to_be32 a) pl))
      | V6 a \<Rightarrow> V6 (from_be128 (mask_octets (to_be128 a) pl)))"

definition cidr_key :: "ip_addr \<Rightarrow> nat \<Rightarrow> byte list" where
  "cidr_key address pl =
     (let head = [if is_ipv4 address then 4 else 6, of_nat pl]
      in head @ octets address @ replicate (CIDR_KEY_SIZE - 2 - length (octets address)) 0)"

definition domain_key :: "string list \<Rightarrow> byte list" where
  "domain_key labels = as_bytes (join_with CHR ''.'' (rev labels))"

definition append_label :: "byte list \<Rightarrow> string \<Rightarrow> byte list" where
  "append_label path label =
     (if path = [] then as_bytes label else path @ as_bytes ''.'' @ as_bytes label)"

fun show_ip_addr :: "ip_addr \<Rightarrow> string" where
  "show_ip_addr (V4 w) = show_ipv4 w"
| "show_ip_addr (V6 w) = show_ipv6 w"

definition canonical_pattern :: "string \<Rightarrow> string result" where
  "canonical_pattern pattern =
     (case split_once CHR ''/'' pattern of
        Some ap \<Rightarrow>
          rbind (parse_cidr ap) (\<lambda>(address, pl).
            if pl > address_width address
            then Inl (error_invalid ''CIDR prefix length exceeds address width'')
            else Inr (show_ip_addr (mask_address address pl) @ ''/'' @ show_nat pl))
      | None \<Rightarrow> rbind (pattern_labels pattern) (\<lambda>labels. Inr (join_with CHR ''.'' labels)))"

subsection \<open>Building the files\<close>

definition record_key :: "byte list \<Rightarrow> nat \<Rightarrow> byte list" where
  "record_key rec key_size =
     (if key_size = DOMAIN_KEY_SIZE then bslice rec 2 (2 + le_nat (take 2 rec))
      else take key_size rec)"

text \<open>\<open>Vec::dedup_by\<close>: of a run of equal keys the first record stays.\<close>

fun dedup_by_key :: "('a \<Rightarrow> 'k) \<Rightarrow> 'a list \<Rightarrow> 'a list" where
  "dedup_by_key f [] = []"
| "dedup_by_key f [x] = [x]"
| "dedup_by_key f (x # y # ys) =
     (if f x = f y then dedup_by_key f (x # ys) else x # dedup_by_key f (y # ys))"

text \<open>
  \<open>flush_run\<close>: the records become one sorted run without duplicates and the buffer is
  emptied. (The unstable sort is modelled by a stable one; records with equal keys are equal.)
\<close>

definition flush_run :: "nat \<Rightarrow> byte list list \<Rightarrow> byte list list list \<Rightarrow> byte list list \<times> byte list list list" where
  "flush_run key_size records runs =
     (if records = [] then (records, runs)
      else
        (let key = (\<lambda>r. record_key r key_size)
         in ([], runs @ [dedup_by_key key (sort_key key records)])))"

record build_state =
  bs_domain_records :: "byte list list"
  bs_cidr_records :: "byte list list"
  bs_domain_bytes :: nat
  bs_cidr_bytes :: nat
  bs_domain_runs :: "byte list list list"
  bs_cidr_runs :: "byte list list list"

definition build_state_new :: build_state where
  "build_state_new =
     \<lparr>bs_domain_records = [], bs_cidr_records = [], bs_domain_bytes = 0, bs_cidr_bytes = 0,
      bs_domain_runs = [], bs_cidr_runs = []\<rparr>"

definition domain_record :: "byte list \<Rightarrow> byte list" where
  "domain_record key =
     nat_le 2 (length key) @ key @ replicate (DOMAIN_RECORD_SIZE - 2 - length key) 0"

definition cidr_record :: "byte list \<Rightarrow> byte list" where
  "cidr_record key = key @ replicate (CIDR_RECORD_SIZE - length key) 0"

text \<open>The body of the loop of \<open>build_checked\<close> over the patterns.\<close>

definition build_pattern :: "build_state \<Rightarrow> string \<Rightarrow> build_state result" where
  "build_pattern s raw =
     rbind (canonical_pattern raw) (\<lambda>pattern.
       case split_once CHR ''/'' pattern of
         Some ap \<Rightarrow>
           rbind (parse_cidr ap) (\<lambda>(address, pl).
             if pl > address_width address
             then Inl (error_invalid ''CIDR prefix length exceeds address width'')
             else
               (let rec = cidr_record (cidr_key address pl);
                    bytes = bs_cidr_bytes s + length rec;
                    records = bs_cidr_records s @ [rec]
                in if bytes \<ge> SORT_CHUNK_BYTES
                   then
                     (let (records1, runs1) = flush_run CIDR_KEY_SIZE records (bs_cidr_runs s)
                      in Inr (s\<lparr>bs_cidr_records := records1, bs_cidr_runs := runs1, bs_cidr_bytes := 0\<rparr>))
                   else Inr (s\<lparr>bs_cidr_records := records, bs_cidr_bytes := bytes\<rparr>)))
       | None \<Rightarrow>
           rbind (pattern_labels pattern) (\<lambda>labels.
             let key = domain_key labels in
             if length key > DOMAIN_KEY_SIZE
             then Inl (error_invalid ''domain pattern is too large for disk index'')
             else
               (let rec = domain_record key;
                    bytes = bs_domain_bytes s + length rec;
                    records = bs_domain_records s @ [rec]
                in if bytes \<ge> SORT_CHUNK_BYTES
                   then
                     (let (records1, runs1) = flush_run DOMAIN_KEY_SIZE records (bs_domain_runs s)
                      in Inr (s\<lparr>bs_domain_records := records1, bs_domain_runs := runs1, bs_domain_bytes := 0\<rparr>))
                   else Inr (s\<lparr>bs_domain_records := records, bs_domain_bytes := bytes\<rparr>))))"

fun build_patterns :: "build_state \<Rightarrow> string result list \<Rightarrow> build_state result" where
  "build_patterns s [] = Inr s"
| "build_patterns s (p # ps) =
     rbind p (\<lambda>pattern. rbind (build_pattern s pattern) (\<lambda>s1. build_patterns s1 ps))"

text \<open>
  The k-way merge of \<open>merge_run_group_to_writer\<close>. A cursor is the list of records it has not
  delivered yet; \<open>min_by\<close> returns the first of several minima.
\<close>

fun best_cursor :: "nat \<Rightarrow> nat \<Rightarrow> (nat \<times> byte list) option \<Rightarrow> byte list list list \<Rightarrow> nat option" where
  "best_cursor key_size i best [] = map_option fst best"
| "best_cursor key_size i best (c # cs) =
     (case c of
        [] \<Rightarrow> best_cursor key_size (Suc i) best cs
      | rec # _ \<Rightarrow>
          best_cursor key_size (Suc i)
            (case best of
               None \<Rightarrow> Some (i, rec)
             | Some (j, rec') \<Rightarrow>
                 if record_key rec key_size < record_key rec' key_size then Some (i, rec) else best)
            cs)"

lemma best_cursor_nonempty:
  "best_cursor ks i best cs = Some j \<Longrightarrow>
   (case best of None \<Rightarrow> False | Some b \<Rightarrow> j = fst b) \<or> (i \<le> j \<and> j - i < length cs \<and> cs ! (j - i) \<noteq> [])"
proof (induction ks i best cs rule: best_cursor.induct)
  case (2 ks i best c cs)
  show ?case
  proof (cases c)
    case Nil
    then have "(case best of None \<Rightarrow> False | Some b \<Rightarrow> j = fst b)
        \<or> (Suc i \<le> j \<and> j - Suc i < length cs \<and> cs ! (j - Suc i) \<noteq> [])"
      using 2 by simp
    then show ?thesis
      by (auto simp: Suc_diff_le nth_Cons' le_Suc_eq)
  next
    case (Cons r rs)
    let ?best = "case best of None \<Rightarrow> Some (i, r)
        | Some (j, r') \<Rightarrow> if record_key r ks < record_key r' ks then Some (i, r) else best"
    have "(case ?best of None \<Rightarrow> False | Some b \<Rightarrow> j = fst b)
        \<or> (Suc i \<le> j \<and> j - Suc i < length cs \<and> cs ! (j - Suc i) \<noteq> [])"
      using 2(2) [OF Cons] 2(3) Cons by simp
    then show ?thesis
      using Cons by (auto simp: nth_Cons' split: option.splits if_splits)
  qed
qed auto

lemma sum_list_update_tl:
  "i < length cs \<Longrightarrow> cs ! i \<noteq> [] \<Longrightarrow> sum_list (map length (cs[i := tl (cs ! i)])) < sum_list (map length cs)"
  by (induction cs arbitrary: i) (auto simp: nth_Cons split: nat.splits)

lemma best_cursor_in:
  "best_cursor ks 0 None cs = Some j \<Longrightarrow> j < length cs \<and> cs ! j \<noteq> []"
  using best_cursor_nonempty [of ks 0 None cs j] by simp

lemma best_cursor_step:
  "best_cursor ks 0 None cs = Some j \<Longrightarrow>
   sum_list (map length (cs[j := tl (cs ! j)])) < sum_list (map length cs)"
  using best_cursor_in sum_list_update_tl by blast

function merge_cursors :: "nat \<Rightarrow> byte list option \<Rightarrow> byte list list list \<Rightarrow> byte list list" where
  "merge_cursors key_size previous cursors =
     (case best_cursor key_size 0 None cursors of
        None \<Rightarrow> []
      | Some best \<Rightarrow>
          (let rec = hd (cursors ! best);
               duplicate = (case previous of
                              None \<Rightarrow> False
                            | Some prev \<Rightarrow> record_key prev key_size = record_key rec key_size);
               cursors1 = cursors[best := tl (cursors ! best)]
           in if duplicate then merge_cursors key_size previous cursors1
              else rec # merge_cursors key_size (Some rec) cursors1))"
  by pat_completeness auto
termination
  by (relation "measure (\<lambda>(_, _, cs). sum_list (map length cs))") (simp_all add: best_cursor_step)

declare merge_cursors.simps [simp del]

lemma length_chunks_less: "1 < n \<Longrightarrow> 1 < length xs \<Longrightarrow> length (chunks n xs) < length xs"
proof (induction n xs rule: chunks.induct)
  case (1 n xs)
  show ?case
  proof (cases "1 < length (drop n xs)")
    case True
    then have "length (chunks n (drop n xs)) < length (drop n xs)"
      using 1 by (cases xs) auto
    then show ?thesis
      using 1(2,3) by (subst chunks.simps) auto
  next
    case False
    then have "length (chunks n (drop n xs)) \<le> length (drop n xs)"
      using 1(2) by (cases "drop n xs") (auto simp: chunks.simps)
    then show ?thesis
      using 1(2,3) by (subst chunks.simps) auto
  qed
qed

function merge_rounds :: "nat \<Rightarrow> byte list list list \<Rightarrow> byte list list list" where
  "merge_rounds key_size runs =
     (if length runs > MERGE_FAN_IN
      then merge_rounds key_size (map (merge_cursors key_size None) (chunks MERGE_FAN_IN runs))
      else runs)"
  by pat_completeness auto
termination
  by (relation "measure (\<lambda>(_, runs). length runs)") (auto simp: MERGE_FAN_IN_def intro!: length_chunks_less)

declare merge_rounds.simps [simp del]

definition table_header :: "nat \<Rightarrow> nat \<Rightarrow> nat \<Rightarrow> byte list" where
  "table_header kind record_size count =
     MAGIC @ nat_le 4 VERSION @ nat_le 4 kind @ nat_le 4 record_size @ replicate 4 0 @ nat_le 8 count"

definition merge_runs_to_table :: "nat \<Rightarrow> nat \<Rightarrow> nat \<Rightarrow> byte list list list \<Rightarrow> byte list" where
  "merge_runs_to_table kind record_size key_size runs =
     (let output = merge_cursors key_size None (merge_rounds key_size runs)
      in table_header kind record_size (length output) @ concat output)"

subsection \<open>The external sort\<close>

lemma dedup_by_key_ok:
  "sorted (map f xs) \<Longrightarrow>
   sorted_wrt (\<lambda>a b. f a < f b) (dedup_by_key f xs) \<and> f ` set (dedup_by_key f xs) = f ` set xs
   \<and> set (dedup_by_key f xs) \<subseteq> set xs \<and> (xs \<noteq> [] \<longrightarrow> dedup_by_key f xs \<noteq> [] \<and> hd (dedup_by_key f xs) = hd xs)"
  for f :: "'a \<Rightarrow> 'k :: linorder"
proof (induction f xs rule: dedup_by_key.induct)
  case (3 f x y ys)
  show ?case
  proof (cases "f x = f y")
    case True
    have "sorted (map f (x # ys))"
      using "3.prems" by auto
    from "3.IH"(1) [OF True this] True show ?thesis
      by auto
  next
    case False
    have s: "sorted (map f (y # ys))" and lt: "f x < f y"
      using "3.prems" False by (auto simp: order_neq_le_trans)
    note IH = "3.IH"(2) [OF False s]
    have "f x < f z" if "z \<in> set (dedup_by_key f (y # ys))" for z
    proof -
      have "z \<in> set (y # ys)"
        using that IH by blast
      with s lt show ?thesis
        by auto
    qed
    with IH False show ?thesis
      by auto
  qed
qed auto

definition run_ok :: "nat \<Rightarrow> byte list list \<Rightarrow> bool" where
  "run_ok ks run = sorted (map (\<lambda>r. record_key r ks) run)"

lemma best_cursor_None_iff: "best_cursor ks i best cs = None \<longleftrightarrow> best = None \<and> (\<forall>c \<in> set cs. c = [])"
  by (induction ks i best cs rule: best_cursor.induct) (auto split: list.splits option.splits)

text \<open>The record at the head of the chosen cursor is a least one.\<close>

lemma best_cursor_least:
  "best_cursor ks i best cs = Some j \<Longrightarrow> (\<And>b. best = Some b \<Longrightarrow> fst b < i) \<Longrightarrow>
   (case best of
      Some (k, r) \<Rightarrow>
        (j = k \<and> (\<forall>c \<in> set cs. c \<noteq> [] \<longrightarrow> record_key r ks \<le> record_key (hd c) ks))
        \<or> (i \<le> j \<and> record_key (hd (cs ! (j - i))) ks \<le> record_key r ks
           \<and> (\<forall>c \<in> set cs. c \<noteq> [] \<longrightarrow> record_key (hd (cs ! (j - i))) ks \<le> record_key (hd c) ks))
    | None \<Rightarrow> i \<le> j \<and> (\<forall>c \<in> set cs. c \<noteq> [] \<longrightarrow> record_key (hd (cs ! (j - i))) ks \<le> record_key (hd c) ks))"
proof (induction ks i best cs rule: best_cursor.induct)
  case (2 ks i best c cs)
  show ?case
  proof (cases c)
    case Nil
    have "\<And>b. best = Some b \<Longrightarrow> fst b < Suc i"
      using "2.prems"(2) less_SucI by blast
    with 2(1) [OF Nil] "2.prems"(1) Nil show ?thesis
      by (fastforce simp: Suc_le_eq Suc_diff_Suc nth_Cons' split: option.splits)
  next
    case (Cons r rs)
    let ?best = "case best of None \<Rightarrow> Some (i, r)
        | Some (j, r') \<Rightarrow> if record_key r ks < record_key r' ks then Some (i, r) else best"
    have lt: "\<And>b. ?best = Some b \<Longrightarrow> fst b < Suc i"
      using "2.prems"(2) by (auto split: option.splits if_splits intro: less_SucI)
    have rec: "best_cursor ks (Suc i) ?best cs = Some j"
      using "2.prems"(1) Cons by simp
    note IH = 2(2) [OF Cons rec lt]
    show ?thesis
      using IH Cons
      by (auto simp: nth_Cons' Suc_le_eq split: option.splits if_splits)
  qed
qed (auto split: option.splits)

definition keys_of :: "nat \<Rightarrow> byte list list \<Rightarrow> byte list set" where
  "keys_of ks recs = (\<lambda>r. record_key r ks) ` set recs"

lemma run_ok_Cons: "run_ok ks (r # rs) \<longleftrightarrow> (\<forall>x \<in> set rs. record_key r ks \<le> record_key x ks) \<and> run_ok ks rs"
  by (simp add: run_ok_def)

lemma run_ok_tl: "run_ok ks run \<Longrightarrow> run_ok ks (tl run)"
  by (cases run) (auto simp: run_ok_Cons)

lemma best_cursor_min:
  assumes "best_cursor ks 0 None cs = Some j" "\<forall>c \<in> set cs. run_ok ks c" "c \<in> set cs" "r \<in> set c"
  shows "record_key (hd (cs ! j)) ks \<le> record_key r ks"
proof -
  have "c \<noteq> []"
    using assms(4) by auto
  then have "record_key (hd (cs ! j)) ks \<le> record_key (hd c) ks"
    using best_cursor_least [OF assms(1)] assms(3) by auto
  also have "\<dots> \<le> record_key r ks"
    using assms(2-4) by (cases c) (auto simp: run_ok_Cons)
  finally show ?thesis .
qed

lemma union_update_tl:
  assumes "j < length cs" "cs ! j \<noteq> []"
  shows "insert (hd (cs ! j)) (\<Union>c \<in> set (cs[j := tl (cs ! j)]). set c) = (\<Union>c \<in> set cs. set c)"
  using assms
proof (induction cs arbitrary: j)
  case (Cons c cs)
  then show ?case
    by (cases j; cases c) auto
qed simp

lemma merge_cursors_ok:
  assumes "\<forall>c \<in> set cs. run_ok ks c"
    and "\<And>p r. previous = Some p \<Longrightarrow> r \<in> (\<Union>c \<in> set cs. set c) \<Longrightarrow> record_key p ks \<le> record_key r ks"
  shows "sorted_wrt (\<lambda>a b. record_key a ks < record_key b ks) (merge_cursors ks previous cs)
     \<and> keys_of ks (merge_cursors ks previous cs) =
         (\<Union>c \<in> set cs. keys_of ks c) - (case previous of None \<Rightarrow> {} | Some p \<Rightarrow> {record_key p ks})
     \<and> set (merge_cursors ks previous cs) \<subseteq> (\<Union>c \<in> set cs. set c)"
  using assms
proof (induction ks previous cs rule: merge_cursors.induct)
  case (1 ks previous cs)
  show ?case
  proof (cases "best_cursor ks 0 None cs")
    case None
    then have "merge_cursors ks previous cs = []"
      by (simp add: merge_cursors.simps [of ks previous cs])
    moreover have "\<forall>c \<in> set cs. c = []"
      using None by (simp add: best_cursor_None_iff)
    ultimately show ?thesis
      by (auto simp: keys_of_def)
  next
    case (Some j)
    let ?r = "hd (cs ! j)" and ?cs = "cs[j := tl (cs ! j)]"
    let ?dup = "case previous of None \<Rightarrow> False | Some p \<Rightarrow> record_key p ks = record_key ?r ks"
    have j: "j < length cs" "cs ! j \<noteq> []"
      using best_cursor_in [OF Some] by auto
    note all = union_update_tl [OF j]
    have ok: "\<forall>c \<in> set ?cs. run_ok ks c"
      using "1.prems"(1) j run_ok_tl set_update_subset_insert [of cs j] by fastforce
    have least: "record_key ?r ks \<le> record_key x ks" if "x \<in> (\<Union>c \<in> set ?cs. set c)" for x
      using best_cursor_min [OF Some "1.prems"(1)] that all by blast
    have keys: "(\<Union>c \<in> set cs. keys_of ks c) = insert (record_key ?r ks) (\<Union>c \<in> set ?cs. keys_of ks c)"
      using arg_cong [OF all, of "image (\<lambda>r. record_key r ks)"] by (auto simp: keys_of_def image_UN)
    show ?thesis
    proof (cases ?dup)
      case True
      then obtain p where p: "previous = Some p" "record_key p ks = record_key ?r ks"
        by (auto split: option.splits)
      have "merge_cursors ks previous cs = merge_cursors ks previous ?cs"
        using Some True by (simp add: merge_cursors.simps [of ks previous cs])
      moreover have "record_key q ks \<le> record_key x ks" if "previous = Some q" "x \<in> (\<Union>c \<in> set ?cs. set c)" for q x
        using "1.prems"(2) that all by blast
      note IH = "1.IH"(1) [OF Some refl refl refl True ok this]
      ultimately show ?thesis
        using IH keys all p by auto
    next
      case False
      have eq: "merge_cursors ks previous cs = ?r # merge_cursors ks (Some ?r) ?cs"
        using Some False by (simp add: merge_cursors.simps [of ks previous cs] Let_def)
      have "record_key q ks \<le> record_key x ks" if "Some ?r = Some q" "x \<in> (\<Union>c \<in> set ?cs. set c)" for q x
        using least that by auto
      note IH = "1.IH"(2) [OF Some refl refl refl False ok this]
      have lt: "record_key ?r ks < record_key x ks" if "x \<in> set (merge_cursors ks (Some ?r) ?cs)" for x
      proof -
        have "record_key x ks \<in> keys_of ks (merge_cursors ks (Some ?r) ?cs)"
          using that by (simp add: keys_of_def)
        then have "record_key x ks \<noteq> record_key ?r ks"
          using IH by auto
        moreover have "x \<in> (\<Union>c \<in> set ?cs. set c)"
          using IH that by blast
        ultimately show ?thesis
          using least by fastforce
      qed
      have gt: "record_key p ks \<notin> insert (record_key ?r ks) (\<Union>c \<in> set ?cs. keys_of ks c)" if "previous = Some p" for p
      proof -
        have "?r \<in> (\<Union>c \<in> set cs. set c)"
          using all by blast
        then have "record_key p ks \<le> record_key ?r ks"
          by (rule "1.prems"(2) [OF that])
        moreover have "record_key p ks \<noteq> record_key ?r ks"
          using False that by auto
        ultimately have "record_key p ks < record_key ?r ks"
          by simp
        with least show ?thesis
          by (fastforce simp: keys_of_def)
      qed
      have "keys_of ks (merge_cursors ks previous cs) = (\<Union>c \<in> set cs. keys_of ks c)"
        using IH keys eq by (auto simp: keys_of_def)
      also have "\<dots> = (\<Union>c \<in> set cs. keys_of ks c) - (case previous of None \<Rightarrow> {} | Some p \<Rightarrow> {record_key p ks})"
        using gt keys by (auto split: option.splits)
      finally show ?thesis
        using IH eq lt all by auto
    qed
  qed
qed

lemma sorted_wrt_run_ok: "sorted_wrt (\<lambda>a b. record_key a ks < record_key b ks) run \<Longrightarrow> run_ok ks run"
  by (induction run) (auto simp: run_ok_def)

lemma merge_one_round:
  assumes "\<forall>c \<in> set runs. run_ok ks c"
  defines "runs1 \<equiv> map (merge_cursors ks None) (chunks MERGE_FAN_IN runs)"
  shows "(\<forall>c \<in> set runs1. run_ok ks c) \<and> (\<Union>c \<in> set runs1. keys_of ks c) = (\<Union>c \<in> set runs. keys_of ks c)
     \<and> (\<Union>c \<in> set runs1. set c) \<subseteq> (\<Union>c \<in> set runs. set c)"
proof -
  have cat: "concat (chunks MERGE_FAN_IN runs) = runs"
    by (rule chunks_concat) (simp add: MERGE_FAN_IN_def)
  have sub: "set g \<subseteq> set runs" if "g \<in> set (chunks MERGE_FAN_IN runs)" for g
    using that arg_cong [OF cat, of set] by auto
  have one: "run_ok ks (merge_cursors ks None g) \<and> keys_of ks (merge_cursors ks None g) = (\<Union>c \<in> set g. keys_of ks c)
      \<and> set (merge_cursors ks None g) \<subseteq> (\<Union>c \<in> set g. set c)" if "g \<in> set (chunks MERGE_FAN_IN runs)" for g
  proof -
    have "\<forall>c \<in> set g. run_ok ks c"
      using assms(1) sub [OF that] by blast
    from merge_cursors_ok [OF this, of None] show ?thesis
      by (auto dest: sorted_wrt_run_ok)
  qed
  have union: "(\<Union>g \<in> set (chunks MERGE_FAN_IN runs). \<Union>c \<in> set g. f c) = (\<Union>c \<in> set runs. f c)" for f :: "byte list list \<Rightarrow> byte list set"
    using arg_cong [OF cat, of set] by auto
  have "(\<Union>c \<in> set runs1. keys_of ks c) = (\<Union>g \<in> set (chunks MERGE_FAN_IN runs). \<Union>c \<in> set g. keys_of ks c)"
    using one by (simp add: runs1_def)
  moreover have "(\<Union>c \<in> set runs1. set c) \<subseteq> (\<Union>g \<in> set (chunks MERGE_FAN_IN runs). \<Union>c \<in> set g. set c)"
    using one by (fastforce simp: runs1_def)
  ultimately show ?thesis
    using one union [of "keys_of ks"] union [of set] by (auto simp: runs1_def)
qed

lemma merge_rounds_ok:
  "\<forall>c \<in> set runs. run_ok ks c \<Longrightarrow>
   (\<forall>c \<in> set (merge_rounds ks runs). run_ok ks c)
   \<and> (\<Union>c \<in> set (merge_rounds ks runs). keys_of ks c) = (\<Union>c \<in> set runs. keys_of ks c)
   \<and> (\<Union>c \<in> set (merge_rounds ks runs). set c) \<subseteq> (\<Union>c \<in> set runs. set c)"
proof (induction ks runs rule: merge_rounds.induct)
  case (1 ks runs)
  show ?case
  proof (cases "length runs > MERGE_FAN_IN")
    case True
    let ?runs = "map (merge_cursors ks None) (chunks MERGE_FAN_IN runs)"
    note round = merge_one_round [OF "1.prems"]
    have eq: "merge_rounds ks runs = merge_rounds ks ?runs"
      using True by (subst merge_rounds.simps) simp
    have "\<forall>c \<in> set ?runs. run_ok ks c"
      using round by simp
    from "1.IH" [OF True this] round show ?thesis
      unfolding eq by simp (elim conjE, erule (1) order_trans)
  next
    case False
    then have "merge_rounds ks runs = runs"
      by (subst merge_rounds.simps) simp
    with 1 show ?thesis by simp
  qed
qed

text \<open>The records of the table: strictly sorted, with exactly the keys of the runs.\<close>

definition merged_records :: "nat \<Rightarrow> byte list list list \<Rightarrow> byte list list" where
  "merged_records ks runs = merge_cursors ks None (merge_rounds ks runs)"

lemma merged_records_ok:
  assumes "\<forall>c \<in> set runs. run_ok ks c"
  shows "sorted_wrt (\<lambda>a b. record_key a ks < record_key b ks) (merged_records ks runs)
     \<and> keys_of ks (merged_records ks runs) = (\<Union>c \<in> set runs. keys_of ks c)
     \<and> set (merged_records ks runs) \<subseteq> (\<Union>c \<in> set runs. set c)"
proof -
  note rounds = merge_rounds_ok [OF assms]
  then have "\<forall>c \<in> set (merge_rounds ks runs). run_ok ks c"
    by blast
  from merge_cursors_ok [OF this, of None] rounds show ?thesis
    unfolding merged_records_def by auto
qed

lemma flush_run_ok:
  assumes "\<forall>c \<in> set runs. run_ok ks c" "flush_run ks recs runs = (recs1, runs1)"
  shows "recs1 = [] \<and> (\<forall>c \<in> set runs1. run_ok ks c)
     \<and> (\<Union>c \<in> set runs1. keys_of ks c) = keys_of ks recs \<union> (\<Union>c \<in> set runs. keys_of ks c)
     \<and> (\<Union>c \<in> set runs1. set c) \<subseteq> set recs \<union> (\<Union>c \<in> set runs. set c)"
proof (cases "recs = []")
  case True
  with assms show ?thesis by (simp add: flush_run_def keys_of_def)
next
  case False
  let ?f = "\<lambda>r. record_key r ks"
  let ?run = "dedup_by_key ?f (sort_key ?f recs)"
  have d: "run_ok ks ?run" "keys_of ks ?run = keys_of ks recs" "set ?run \<subseteq> set recs"
    using dedup_by_key_ok [of ?f "sort_key ?f recs"] by (auto simp: keys_of_def intro: sorted_wrt_run_ok)
  have "recs1 = []" "runs1 = runs @ [?run]"
    using assms(2) False by (auto simp: flush_run_def Let_def)
  with d assms(1) show ?thesis
    by auto
qed

subsection \<open>From patterns to keys\<close>

text \<open>The key a pattern contributes: the left table for domains, the right one for networks.\<close>

definition pattern_record_key :: "string \<Rightarrow> (byte list + byte list) result" where
  "pattern_record_key raw =
     rbind (canonical_pattern raw) (\<lambda>pattern.
       case split_once CHR ''/'' pattern of
         Some ap \<Rightarrow>
           rbind (parse_cidr ap) (\<lambda>(address, pl).
             if pl > address_width address
             then Inl (error_invalid ''CIDR prefix length exceeds address width'')
             else Inr (Inr (cidr_key address pl)))
       | None \<Rightarrow>
           rbind (pattern_labels pattern) (\<lambda>labels.
             if length (domain_key labels) > DOMAIN_KEY_SIZE
             then Inl (error_invalid ''domain pattern is too large for disk index'')
             else Inr (Inl (domain_key labels))))"

lemma pattern_record_key_domain:
  assumes "pattern_record_key raw = Inr (Inl k)"
  shows "\<exists>pattern labels. canonical_pattern raw = Inr pattern \<and> split_once CHR ''/'' pattern = None
     \<and> pattern_labels pattern = Inr labels \<and> k = domain_key labels \<and> length k \<le> DOMAIN_KEY_SIZE"
proof -
  obtain pattern where "canonical_pattern raw = Inr pattern"
    using assms by (auto simp: pattern_record_key_def rbind_eq_Inr_iff)
  then show ?thesis
    using assms by (cases "split_once CHR ''/'' pattern")
      (auto simp: pattern_record_key_def rbind_eq_Inr_iff split: if_splits)
qed

lemma pattern_record_key_cidr:
  assumes "pattern_record_key raw = Inr (Inr k)"
  shows "\<exists>pattern ap address pl. canonical_pattern raw = Inr pattern \<and> split_once CHR ''/'' pattern = Some ap
     \<and> parse_cidr ap = Inr (address, pl) \<and> k = cidr_key address pl \<and> \<not> pl > address_width address"
proof -
  obtain pattern where "canonical_pattern raw = Inr pattern"
    using assms by (auto simp: pattern_record_key_def rbind_eq_Inr_iff)
  then show ?thesis
    using assms by (cases "split_once CHR ''/'' pattern")
      (auto simp: pattern_record_key_def rbind_eq_Inr_iff split: if_splits)
qed

lemma le_nat_2: "n < 2 ^ 16 \<Longrightarrow> le_nat (nat_le 2 n) = n"
  by (simp add: le_nat_nat_le)

lemma length_domain_record: "length k \<le> DOMAIN_KEY_SIZE \<Longrightarrow> length (domain_record k) = DOMAIN_RECORD_SIZE"
  by (simp add: domain_record_def disk_consts)

lemma record_key_domain_record: "length k \<le> DOMAIN_KEY_SIZE \<Longrightarrow> record_key (domain_record k) DOMAIN_KEY_SIZE = k"
  by (simp add: record_key_def domain_record_def bslice_def le_nat_2 disk_consts)

lemma length_octets: "length (octets a) = (if is_ipv4 a then 4 else 16)"
  by (cases a) simp_all

lemma length_cidr_key [simp]: "length (cidr_key a pl) = CIDR_KEY_SIZE"
  by (simp add: cidr_key_def length_octets disk_consts Let_def)

lemma length_cidr_record: "length k = CIDR_KEY_SIZE \<Longrightarrow> length (cidr_record k) = CIDR_RECORD_SIZE"
  by (simp add: cidr_record_def disk_consts)

lemma record_key_cidr_record: "length k = CIDR_KEY_SIZE \<Longrightarrow> record_key (cidr_record k) CIDR_KEY_SIZE = k"
  by (simp add: record_key_def cidr_record_def disk_consts)

lemma flush_run_keys:
  assumes "\<forall>c \<in> set runs. run_ok ks c"
  shows "(\<forall>c \<in> set (snd (flush_run ks recs runs)). run_ok ks c)
     \<and> (\<Union>c \<in> set (snd (flush_run ks recs runs)). keys_of ks c) = keys_of ks recs \<union> (\<Union>c \<in> set runs. keys_of ks c)
     \<and> (\<Union>c \<in> set (snd (flush_run ks recs runs)). set c) \<subseteq> set recs \<union> (\<Union>c \<in> set runs. set c)
     \<and> fst (flush_run ks recs runs) = []"
  using flush_run_ok [OF assms, of recs "fst (flush_run ks recs runs)" "snd (flush_run ks recs runs)"]
  by simp

text \<open>
  The state of the build loop after the patterns whose keys are \<open>kd\<close> (domains) and \<open>kc\<close>
  (networks): buffers and runs together hold exactly those keys, in well-formed records.
\<close>

definition build_inv :: "build_state \<Rightarrow> byte list set \<Rightarrow> byte list set \<Rightarrow> bool" where
  "build_inv s kd kc \<longleftrightarrow>
     (\<forall>c \<in> set (bs_domain_runs s). run_ok DOMAIN_KEY_SIZE c) \<and> (\<forall>c \<in> set (bs_cidr_runs s). run_ok CIDR_KEY_SIZE c)
     \<and> keys_of DOMAIN_KEY_SIZE (bs_domain_records s) \<union> (\<Union>c \<in> set (bs_domain_runs s). keys_of DOMAIN_KEY_SIZE c) = kd
     \<and> keys_of CIDR_KEY_SIZE (bs_cidr_records s) \<union> (\<Union>c \<in> set (bs_cidr_runs s). keys_of CIDR_KEY_SIZE c) = kc
     \<and> (\<forall>r \<in> set (bs_domain_records s) \<union> (\<Union>c \<in> set (bs_domain_runs s). set c).
          \<exists>k. r = domain_record k \<and> length k \<le> DOMAIN_KEY_SIZE)
     \<and> (\<forall>r \<in> set (bs_cidr_records s) \<union> (\<Union>c \<in> set (bs_cidr_runs s). set c).
          \<exists>k. r = cidr_record k \<and> length k = CIDR_KEY_SIZE)"

lemma build_inv_new: "build_inv build_state_new {} {}"
  by (simp add: build_inv_def build_state_new_def keys_of_def)

lemma build_pattern_domain:
  assumes "build_inv s kd kc" "pattern_record_key raw = Inr (Inl k)"
  shows "\<exists>s1. build_pattern s raw = Inr s1 \<and> build_inv s1 (insert k kd) kc"
proof -
  obtain pattern labels where p: "canonical_pattern raw = Inr pattern"
    "split_once CHR ''/'' pattern = None" "pattern_labels pattern = Inr labels" "k = domain_key labels"
    "length k \<le> DOMAIN_KEY_SIZE"
    using pattern_record_key_domain [OF assms(2)] by blast
  let ?recs = "bs_domain_records s @ [domain_record k]"
  have runs: "\<forall>c \<in> set (bs_domain_runs s). run_ok DOMAIN_KEY_SIZE c"
    using assms(1) by (simp add: build_inv_def)
  note flush = flush_run_keys [OF runs, of ?recs]
  have keys: "keys_of DOMAIN_KEY_SIZE ?recs = insert k (keys_of DOMAIN_KEY_SIZE (bs_domain_records s))"
    using p(5) by (simp add: keys_of_def record_key_domain_record)
  have recs: "\<forall>r \<in> set ?recs \<union> (\<Union>c \<in> set (bs_domain_runs s). set c). \<exists>k. r = domain_record k \<and> length k \<le> DOMAIN_KEY_SIZE"
    using assms(1) p(5) by (auto simp: build_inv_def)
  show ?thesis
  proof (cases "bs_domain_bytes s + length (domain_record k) \<ge> SORT_CHUNK_BYTES")
    case True
    let ?fl = "flush_run DOMAIN_KEY_SIZE ?recs (bs_domain_runs s)"
    have eq: "build_pattern s raw = Inr (s\<lparr>bs_domain_records := fst ?fl, bs_domain_runs := snd ?fl, bs_domain_bytes := 0\<rparr>)"
      using p True by (simp add: build_pattern_def Let_def case_prod_unfold)
    have "\<forall>r \<in> (\<Union>c \<in> set (snd ?fl). set c). \<exists>k. r = domain_record k \<and> length k \<le> DOMAIN_KEY_SIZE"
      by (intro ballI, rule bspec [OF recs], rule subsetD [OF conjunct1 [OF conjunct2 [OF conjunct2 [OF flush]]]])
    moreover have "(\<Union>c \<in> set (snd ?fl). keys_of DOMAIN_KEY_SIZE c) = insert k kd"
      using flush keys assms(1) by (auto simp: build_inv_def)
    ultimately have "build_inv (s\<lparr>bs_domain_records := fst ?fl, bs_domain_runs := snd ?fl, bs_domain_bytes := 0\<rparr>) (insert k kd) kc"
      using assms(1) flush by (simp add: build_inv_def keys_of_def)
    with eq show ?thesis by blast
  next
    case False
    have eq: "build_pattern s raw = Inr (s\<lparr>bs_domain_records := ?recs, bs_domain_bytes := bs_domain_bytes s + length (domain_record k)\<rparr>)"
      using p False by (simp add: build_pattern_def Let_def)
    have "build_inv (s\<lparr>bs_domain_records := ?recs, bs_domain_bytes := bs_domain_bytes s + length (domain_record k)\<rparr>) (insert k kd) kc"
      using assms(1) keys recs by (auto simp: build_inv_def)
    with eq show ?thesis by blast
  qed
qed

lemma build_pattern_cidr:
  assumes "build_inv s kd kc" "pattern_record_key raw = Inr (Inr k)"
  shows "\<exists>s1. build_pattern s raw = Inr s1 \<and> build_inv s1 kd (insert k kc)"
proof -
  obtain pattern ap address pl where p: "canonical_pattern raw = Inr pattern"
    "split_once CHR ''/'' pattern = Some ap" "parse_cidr ap = Inr (address, pl)" "k = cidr_key address pl"
    "\<not> pl > address_width address"
    using pattern_record_key_cidr [OF assms(2)] by blast
  let ?recs = "bs_cidr_records s @ [cidr_record k]"
  have runs: "\<forall>c \<in> set (bs_cidr_runs s). run_ok CIDR_KEY_SIZE c"
    using assms(1) by (simp add: build_inv_def)
  note flush = flush_run_keys [OF runs, of ?recs]
  have keys: "keys_of CIDR_KEY_SIZE ?recs = insert k (keys_of CIDR_KEY_SIZE (bs_cidr_records s))"
    using p(4) by (simp add: keys_of_def record_key_cidr_record)
  have recs: "\<forall>r \<in> set ?recs \<union> (\<Union>c \<in> set (bs_cidr_runs s). set c). \<exists>k. r = cidr_record k \<and> length k = CIDR_KEY_SIZE"
    using assms(1) p(4) by (auto simp: build_inv_def)
  show ?thesis
  proof (cases "bs_cidr_bytes s + length (cidr_record k) \<ge> SORT_CHUNK_BYTES")
    case True
    let ?fl = "flush_run CIDR_KEY_SIZE ?recs (bs_cidr_runs s)"
    have eq: "build_pattern s raw = Inr (s\<lparr>bs_cidr_records := fst ?fl, bs_cidr_runs := snd ?fl, bs_cidr_bytes := 0\<rparr>)"
      using p True by (simp add: build_pattern_def Let_def case_prod_unfold)
    have "\<forall>r \<in> (\<Union>c \<in> set (snd ?fl). set c). \<exists>k. r = cidr_record k \<and> length k = CIDR_KEY_SIZE"
      by (intro ballI, rule bspec [OF recs], rule subsetD [OF conjunct1 [OF conjunct2 [OF conjunct2 [OF flush]]]])
    moreover have "(\<Union>c \<in> set (snd ?fl). keys_of CIDR_KEY_SIZE c) = insert k kc"
      using flush keys assms(1) by (auto simp: build_inv_def)
    ultimately have "build_inv (s\<lparr>bs_cidr_records := fst ?fl, bs_cidr_runs := snd ?fl, bs_cidr_bytes := 0\<rparr>) kd (insert k kc)"
      using assms(1) flush by (simp add: build_inv_def keys_of_def)
    with eq show ?thesis by blast
  next
    case False
    have eq: "build_pattern s raw = Inr (s\<lparr>bs_cidr_records := ?recs, bs_cidr_bytes := bs_cidr_bytes s + length (cidr_record k)\<rparr>)"
      using p False by (simp add: build_pattern_def Let_def)
    have "build_inv (s\<lparr>bs_cidr_records := ?recs, bs_cidr_bytes := bs_cidr_bytes s + length (cidr_record k)\<rparr>) kd (insert k kc)"
      using assms(1) keys recs by (auto simp: build_inv_def)
    with eq show ?thesis by blast
  qed
qed

definition domain_keys :: "string list \<Rightarrow> byte list set" where
  "domain_keys ps = {k. \<exists>p \<in> set ps. pattern_record_key p = Inr (Inl k)}"

definition cidr_keys :: "string list \<Rightarrow> byte list set" where
  "cidr_keys ps = {k. \<exists>p \<in> set ps. pattern_record_key p = Inr (Inr k)}"

lemma build_patterns_ok:
  assumes "build_inv s kd kc" "\<forall>p \<in> set ps. is_ok (pattern_record_key p)"
  shows "\<exists>s1. build_patterns s (map Inr ps) = Inr s1 \<and> build_inv s1 (kd \<union> domain_keys ps) (kc \<union> cidr_keys ps)"
  using assms
proof (induction ps arbitrary: s kd kc)
  case Nil
  then show ?case by (simp add: domain_keys_def cidr_keys_def)
next
  case (Cons p ps)
  from Cons.prems(2) obtain k where k: "pattern_record_key p = Inr k"
    by (auto simp: is_ok_def split: sum.splits)
  have "\<exists>s1. build_pattern s p = Inr s1 \<and> build_inv s1 (kd \<union> domain_keys [p]) (kc \<union> cidr_keys [p])"
    using k build_pattern_domain [OF Cons.prems(1)] build_pattern_cidr [OF Cons.prems(1)]
    by (cases k) (auto simp: domain_keys_def cidr_keys_def)
  then obtain s1 where s1: "build_pattern s p = Inr s1" "build_inv s1 (kd \<union> domain_keys [p]) (kc \<union> cidr_keys [p])"
    by blast
  have "kd \<union> domain_keys [p] \<union> domain_keys ps = kd \<union> domain_keys (p # ps)"
    "kc \<union> cidr_keys [p] \<union> cidr_keys ps = kc \<union> cidr_keys (p # ps)"
    by (auto simp: domain_keys_def cidr_keys_def)
  with Cons.IH [OF s1(2)] Cons.prems(2) s1(1) show ?case
    by simp
qed

lemma build_pattern_err: "pattern_record_key raw = Inl e \<Longrightarrow> build_pattern s raw = Inl e"
  by (auto simp: pattern_record_key_def build_pattern_def rbind_def Let_def
      split: sum.splits option.splits if_splits prod.splits)

end
