(* ===== verification/Disk_Table.thy ===== *)
theory Disk_Table
  imports Disk_Build
begin

text \<open>
  The searching half of \<open>trie/src/ondisk.rs\<close>: opening the files, the root-label index, and
  the binary searches through the mapped tables.
\<close>

subsection \<open>The root index\<close>

definition read_exact_at :: "byte list \<Rightarrow> nat \<Rightarrow> nat \<Rightarrow> byte list result" where
  "read_exact_at file len offset =
     (if offset + len \<le> length file then Inr (bslice file offset (offset + len))
      else Inl (error_new Io ''short disk trie read''))"

text \<open>The key stored in a domain record, \<open>&record[2..2 + length.min(DOMAIN_KEY_SIZE)]\<close>.\<close>

definition domain_record_key :: "byte list \<Rightarrow> byte list" where
  "domain_record_key rec = bslice rec 2 (2 + min (le_nat (take 2 rec)) DOMAIN_KEY_SIZE)"

definition dot_byte :: byte where "dot_byte = 0x2e"

text \<open>The loop of \<open>write_root_index\<close>: the root labels in the order they are written.\<close>

fun collect_roots :: "byte list \<Rightarrow> byte list \<Rightarrow> nat list \<Rightarrow> byte list list result" where
  "collect_roots file previous [] = Inr []"
| "collect_roots file previous (index # rest) =
     rbind (read_exact_at file DOMAIN_RECORD_SIZE (HEADER_SIZE + index * DOMAIN_RECORD_SIZE)) (\<lambda>rec.
       let root = takeWhile (\<lambda>b. b \<noteq> dot_byte) (domain_record_key rec) in
       if previous = root then collect_roots file previous rest
       else if length root > ROOT_KEY_SIZE
       then Inl (error_new Protocol ''domain root label is too large'')
       else rbind (collect_roots file root rest) (\<lambda>roots. Inr (root # roots)))"

definition root_record :: "byte list \<Rightarrow> byte list" where
  "root_record root = nat_le 2 (length root) @ root @ replicate (ROOT_RECORD_SIZE - 2 - length root) 0"

definition write_root_index :: "byte list \<Rightarrow> byte list result" where
  "write_root_index domain =
     rbind (read_exact_at domain HEADER_SIZE 0) (\<lambda>header.
       let count = le_nat (bslice header 24 32) in
       rbind (collect_roots domain [] [0..<count]) (\<lambda>roots.
         Inr (table_header 3 ROOT_RECORD_SIZE (length roots) @ concat (map root_record roots))))"

definition header_matches :: "byte list \<Rightarrow> nat \<Rightarrow> nat \<Rightarrow> bool" where
  "header_matches header kind record_size =
     (bslice header 0 8 = MAGIC \<and> le_nat (bslice header 8 12) = VERSION
      \<and> le_nat (bslice header 12 16) = kind \<and> le_nat (bslice header 16 20) = record_size)"

text \<open>\<open>HEADER_SIZE as u64 + count.saturating_mul(record_size)\<close> in 64-bit arithmetic.\<close>

definition expected_length :: "nat \<Rightarrow> nat \<Rightarrow> nat" where
  "expected_length count record_size =
     (HEADER_SIZE + min (count * record_size) (2 ^ 64 - 1)) mod 2 ^ 64"

fun load_roots_loop :: "byte list \<Rightarrow> nat list \<Rightarrow> byte list list result" where
  "load_roots_loop file [] = Inr []"
| "load_roots_loop file (index # rest) =
     rbind (read_exact_at file ROOT_RECORD_SIZE (HEADER_SIZE + index * ROOT_RECORD_SIZE)) (\<lambda>rec.
       let len = le_nat (take 2 rec) in
       if len > ROOT_KEY_SIZE then Inl (error_new Protocol ''invalid root label length'')
       else rbind (load_roots_loop file rest) (\<lambda>roots. Inr (bslice rec 2 (2 + len) # roots)))"

definition load_root_labels :: "string \<Rightarrow> byte list \<Rightarrow> byte list list result" where
  "load_root_labels path file =
     rbind (read_exact_at file HEADER_SIZE 0) (\<lambda>header.
       let count = le_nat (bslice header 24 32) in
       if \<not> header_matches header 3 ROOT_RECORD_SIZE
       then Inl (error_new Protocol (''invalid doradus trie root index: '' @ path))
       else if length file \<noteq> expected_length count ROOT_RECORD_SIZE
       then Inl (error_new Protocol (''truncated doradus trie root index: '' @ path))
       else load_roots_loop file [0..<count])"

subsection \<open>Tables\<close>

record disk_table =
  tb_map :: "byte list"
  tb_kind :: nat
  tb_record_size :: nat
  tb_count :: nat
  tb_root_labels :: "byte list list"

definition disk_table_open ::
  "string \<Rightarrow> byte list \<Rightarrow> nat \<Rightarrow> nat \<Rightarrow> (string \<times> byte list) option \<Rightarrow> disk_table result" where
  "disk_table_open path file kind record_size roots =
     rbind (read_exact_at file HEADER_SIZE 0) (\<lambda>header.
       if \<not> header_matches header kind record_size
       then Inl (error_new Protocol (''invalid doradus trie index: '' @ path))
       else
         (let count = le_nat (bslice header 24 32) in
          if length file \<noteq> expected_length count record_size
          then Inl (error_new Protocol (''truncated doradus trie index: '' @ path))
          else
            rbind (case roots of None \<Rightarrow> Inr [] | Some (p, f) \<Rightarrow> load_root_labels p f) (\<lambda>root_labels.
              Inr \<lparr>tb_map = file, tb_kind = kind, tb_record_size = record_size, tb_count = count,
                   tb_root_labels = root_labels\<rparr>)))"

text \<open>\<open>map.get(start..start + record_size)\<close>.\<close>

definition table_record :: "disk_table \<Rightarrow> nat \<Rightarrow> byte list option" where
  "table_record t i =
     (let start = HEADER_SIZE + i * tb_record_size t in
      if start + tb_record_size t \<le> length (tb_map t)
      then Some (bslice (tb_map t) start (start + tb_record_size t)) else None)"

function contains_loop :: "disk_table \<Rightarrow> byte list \<Rightarrow> nat \<Rightarrow> nat \<Rightarrow> bool" where
  "contains_loop t key low high =
     (if low < high then
        (let middle = low + (high - low) div 2 in
         case table_record t middle of
           None \<Rightarrow> False
         | Some rec \<Rightarrow>
             (let k = (if tb_kind t = 1 then domain_record_key rec else take CIDR_KEY_SIZE rec) in
              if k < key then contains_loop t key (middle + 1) high
              else if key < k then contains_loop t key low middle
              else True))
      else False)"
  by pat_completeness auto
termination
  by (relation "measure (\<lambda>(t, key, low, high). high - low)") auto

declare contains_loop.simps [simp del]

definition table_contains :: "disk_table \<Rightarrow> byte list \<Rightarrow> bool" where
  "table_contains t key = contains_loop t key 0 (tb_count t)"

text \<open>\<open>slice::binary_search_by(..).is_ok()\<close>.\<close>

function binary_search :: "byte list list \<Rightarrow> byte list \<Rightarrow> nat \<Rightarrow> nat \<Rightarrow> bool" where
  "binary_search xs key low high =
     (if low < high then
        (let middle = low + (high - low) div 2 in
         if xs ! middle < key then binary_search xs key (middle + 1) high
         else if key < xs ! middle then binary_search xs key low middle
         else True)
      else False)"
  by pat_completeness auto
termination
  by (relation "measure (\<lambda>(xs, key, low, high). high - low)") auto

declare binary_search.simps [simp del]

text \<open>The lower bound of \<open>has_prefix\<close>; \<open>None\<close> where the code returns early.\<close>

function lower_bound :: "disk_table \<Rightarrow> byte list \<Rightarrow> nat \<Rightarrow> nat \<Rightarrow> nat option" where
  "lower_bound t key low high =
     (if low < high then
        (let middle = low + (high - low) div 2 in
         case table_record t middle of
           None \<Rightarrow> None
         | Some rec \<Rightarrow>
             if domain_record_key rec < key then lower_bound t key (middle + 1) high
             else lower_bound t key low middle)
      else Some low)"
  by pat_completeness auto
termination
  by (relation "measure (\<lambda>(t, key, low, high). high - low)") auto

declare lower_bound.simps [simp del]

definition has_prefix :: "disk_table \<Rightarrow> byte list \<Rightarrow> bool" where
  "has_prefix t pre =
     (if tb_kind t = 1 \<and> dot_byte \<notin> set pre
      then binary_search (tb_root_labels t) pre 0 (length (tb_root_labels t))
      else
        (case lower_bound t pre 0 (tb_count t) of
           None \<Rightarrow> False
         | Some low \<Rightarrow>
             (case table_record t low of
                None \<Rightarrow> False
              | Some rec \<Rightarrow>
                  (let key = domain_record_key rec in
                   prefix pre key
                   \<and> (length key = length pre \<or> nth_opt key (length pre) = Some dot_byte)))))"

definition pattern_at :: "disk_table \<Rightarrow> nat \<Rightarrow> string result" where
  "pattern_at t index =
     (case table_record t index of
        None \<Rightarrow> Inl (error_new Protocol ''invalid disk trie record offset'')
      | Some rec \<Rightarrow>
          if tb_kind t = 1 then
            Inr (join_with CHR ''.'' (rev (split_on CHR ''.'' (from_bytes (bslice rec 2 (2 + le_nat (take 2 rec)))))))
          else
            (let show = (\<lambda>a. show_ip_addr a @ ''/'' @ show_nat (unat (rec ! 1))) in
             if rec ! 0 = 4 then Inr (show (V4 (from_be32 (bslice rec 2 6))))
             else if rec ! 0 = 6 then Inr (show (V6 (from_be128 (bslice rec 2 18))))
             else Inl (error_new Protocol ''invalid address family in disk trie'')))"

text \<open>\<open>matches_domain_node\<close>: the labels from \<open>depth\<close> on are the list argument.\<close>

fun matches_domain_node :: "disk_table \<Rightarrow> string list \<Rightarrow> byte list \<Rightarrow> bool" where
  "matches_domain_node t [] path =
     (table_contains t path \<or> table_contains t (append_label path ''*''))"
| "matches_domain_node t (label # labels) path =
     (let exact = append_label path label; star = append_label path ''*'' in
      has_prefix t exact \<and> matches_domain_node t labels exact
      \<or> has_prefix t star \<and> (table_contains t star \<or> matches_domain_node t labels star))"

definition matches_domain_path :: "disk_table \<Rightarrow> string list \<Rightarrow> bool" where
  "matches_domain_path t labels = matches_domain_node t labels []"

definition matches_domain_name :: "disk_table \<Rightarrow> domain_name \<Rightarrow> bool \<Rightarrow> bool" where
  "matches_domain_name t name parent =
     (let labels = rev (domain_labels name) in
      if parent then
        (\<exists>end' \<in> set (rev [1..<Suc (length labels)]). matches_domain_path t (take end' labels))
      else if \<not> has_prefix t (as_bytes (hd labels)) \<and> \<not> has_prefix t (as_bytes ''*'') then False
      else matches_domain_path t labels)"

definition matches_ip :: "disk_table \<Rightarrow> ip_addr \<Rightarrow> bool" where
  "matches_ip t address =
     (\<exists>pl \<in> set [0..<Suc (address_width address)].
        table_contains t (cidr_key (mask_address address pl) pl))"

subsection \<open>The two tables of an index\<close>

record disk_files =
  df_domains :: disk_table
  df_cidrs :: disk_table

definition disk_files_open :: "string \<Rightarrow> byte list \<Rightarrow> byte list \<Rightarrow> byte list \<Rightarrow> disk_files result" where
  "disk_files_open dir domains_idx domains_roots cidrs_idx =
     rbind (disk_table_open (dir @ ''/domains.idx'') domains_idx 1 DOMAIN_RECORD_SIZE
             (Some (dir @ ''/domains.roots'', domains_roots))) (\<lambda>domains.
     rbind (disk_table_open (dir @ ''/cidrs.idx'') cidrs_idx 2 CIDR_RECORD_SIZE None) (\<lambda>cidrs.
       Inr \<lparr>df_domains = domains, df_cidrs = cidrs\<rparr>))"

definition build_checked :: "string \<Rightarrow> string result list \<Rightarrow> disk_files result" where
  "build_checked dir patterns =
     rbind (build_patterns build_state_new patterns) (\<lambda>s.
       let domain_runs = snd (flush_run DOMAIN_KEY_SIZE (bs_domain_records s) (bs_domain_runs s));
           cidr_runs = snd (flush_run CIDR_KEY_SIZE (bs_cidr_records s) (bs_cidr_runs s));
           domains_idx = merge_runs_to_table 1 DOMAIN_RECORD_SIZE DOMAIN_KEY_SIZE domain_runs;
           cidrs_idx = merge_runs_to_table 2 CIDR_RECORD_SIZE CIDR_KEY_SIZE cidr_runs
       in rbind (write_root_index domains_idx) (\<lambda>domains_roots.
            disk_files_open dir domains_idx domains_roots cidrs_idx))"

definition files_matches :: "disk_files \<Rightarrow> endpoint \<Rightarrow> bool \<Rightarrow> bool" where
  "files_matches f e parent =
     (case e of
        EDomain _ host _ \<Rightarrow> matches_domain_name (df_domains f) host parent
      | EIp _ addr \<Rightarrow> matches_ip (df_cidrs f) (sock_ip addr))"

definition pattern_iter :: "disk_files \<Rightarrow> string result list" where
  "pattern_iter f =
     map (pattern_at (df_domains f)) [0..<tb_count (df_domains f)]
     @ map (pattern_at (df_cidrs f)) [0..<tb_count (df_cidrs f)]"

definition contains_pattern :: "disk_files \<Rightarrow> string \<Rightarrow> bool result" where
  "contains_pattern f pattern =
     (case split_once CHR ''/'' pattern of
        Some ap \<Rightarrow>
          rbind (parse_cidr ap) (\<lambda>(address, pl).
            Inr (table_contains (df_cidrs f) (cidr_key (mask_address address pl) pl)))
      | None \<Rightarrow>
          rbind (pattern_labels pattern) (\<lambda>labels.
            Inr (table_contains (df_domains f) (domain_key labels))))"

subsection \<open>Reading back a file that was written\<close>

lemma le_nat_4: "n < 2 ^ 32 \<Longrightarrow> le_nat (nat_le 4 n) = n"
  by (simp add: le_nat_nat_le)

lemma le_nat_8: "n < 2 ^ 64 \<Longrightarrow> le_nat (nat_le 8 n) = n"
  by (simp add: le_nat_nat_le)

lemma length_MAGIC [simp]: "length MAGIC = 8"
  by (simp add: MAGIC_def)

lemma length_table_header [simp]: "length (table_header kind sz n) = HEADER_SIZE"
  by (simp add: table_header_def disk_consts)

lemma header_round_trip:
  assumes "kind < 2 ^ 32" "sz < 2 ^ 32" "n < 2 ^ 64"
  shows "header_matches (table_header kind sz n) kind sz"
    and "le_nat (bslice (table_header kind sz n) 24 32) = n"
  using assms
  by (simp_all add: header_matches_def table_header_def bslice_def le_nat_4 le_nat_8 VERSION_def)

lemma length_concat_const: "(\<And>r. r \<in> set rs \<Longrightarrow> length r = n) \<Longrightarrow> length (concat rs) = length rs * n"
  by (induction rs) auto

lemma bslice_concat:
  "(\<And>r. r \<in> set rs \<Longrightarrow> length r = n) \<Longrightarrow> i < length rs \<Longrightarrow>
   bslice (concat rs) (i * n) (i * n + n) = rs ! i"
proof (induction rs arbitrary: i)
  case (Cons r rs)
  show ?case
  proof (cases i)
    case 0
    with Cons show ?thesis by (simp add: bslice_def)
  next
    case (Suc j)
    have "bslice (r @ concat rs) (n + j * n) (n + j * n + n) = bslice (concat rs) (j * n) (j * n + n)"
      using Cons.prems(1) [of r] by (subst bslice_append2) (simp_all add: add.commute)
    also have "\<dots> = rs ! j"
      using Cons Suc by simp
    finally show ?thesis
      using Suc by simp
  qed
qed simp

lemma bslice_header:
  assumes "length h = HEADER_SIZE" "\<And>r. r \<in> set rs \<Longrightarrow> length r = n" "i < length rs"
  shows "bslice (h @ concat rs) (HEADER_SIZE + i * n) (HEADER_SIZE + i * n + n) = rs ! i"
    and "HEADER_SIZE + i * n + n \<le> length (h @ concat rs)"
proof -
  show "bslice (h @ concat rs) (HEADER_SIZE + i * n) (HEADER_SIZE + i * n + n) = rs ! i"
    using assms(1) bslice_concat [OF assms(2,3)] by (subst bslice_append2) simp_all
  have "Suc i * n \<le> length rs * n"
    using assms(3) by (intro mult_le_mono1) simp
  then show "HEADER_SIZE + i * n + n \<le> length (h @ concat rs)"
    using assms(1) length_concat_const [OF assms(2)] by simp
qed

lemma read_exact_header: "length h = HEADER_SIZE \<Longrightarrow> read_exact_at (h @ f) HEADER_SIZE 0 = Inr h"
  by (simp add: read_exact_at_def bslice_def)

text \<open>A table written from records of one sz opens, and its records can be read.\<close>

lemma disk_table_open_ok:
  assumes "\<And>r. r \<in> set rs \<Longrightarrow> length r = sz" "kind < 2 ^ 32" "sz < 2 ^ 32"
    and "HEADER_SIZE + length rs * sz < 2 ^ 64" "0 < sz"
    and "(case roots of None \<Rightarrow> Inr [] | Some (p, f) \<Rightarrow> load_root_labels p f) = Inr labels"
  shows "\<exists>t. disk_table_open path (table_header kind sz (length rs) @ concat rs) kind sz roots = Inr t
     \<and> tb_kind t = kind \<and> tb_count t = length rs \<and> tb_root_labels t = labels
     \<and> (\<forall>i. table_record t i = nth_opt rs i)"
proof -
  let ?h = "table_header kind sz (length rs)"
  let ?t = "\<lparr>tb_map = ?h @ concat rs, tb_kind = kind, tb_record_size = sz, tb_count = length rs,
      tb_root_labels = labels\<rparr>"
  have "length rs \<le> length rs * sz"
    using assms(5) by simp
  then have n: "length rs < 2 ^ 64"
    using assms(4) by linarith
  note hdr = header_round_trip [OF assms(2,3) n]
  have len: "length (?h @ concat rs) = HEADER_SIZE + length rs * sz"
    using length_concat_const [OF assms(1)] by simp
  have "expected_length (length rs) sz = HEADER_SIZE + length rs * sz"
    using assms(4) by (simp add: expected_length_def min_def)
  then have "disk_table_open path (?h @ concat rs) kind sz roots = Inr ?t"
    using hdr len assms(6) by (simp add: disk_table_open_def read_exact_header Let_def)
  moreover have "table_record ?t i = nth_opt rs i" for i
  proof (cases "i < length rs")
    case True
    then show ?thesis
      using bslice_header [of ?h rs sz i] assms(1) by (simp add: table_record_def)
  next
    case False
    then have "length rs * sz \<le> i * sz"
      by simp
    then have "\<not> i * sz + sz \<le> length rs * sz"
      using assms(5) by linarith
    then show ?thesis
      using False len by (simp add: table_record_def Let_def)
  qed
  ultimately show ?thesis
    by (intro exI [of _ ?t]) simp
qed

text \<open>The labels the root index holds: the first labels, a repetition of the previous one dropped.\<close>

definition root_of :: "byte list \<Rightarrow> byte list" where
  "root_of key = takeWhile (\<lambda>b. b \<noteq> dot_byte) key"

fun adjacent_roots :: "byte list \<Rightarrow> byte list list \<Rightarrow> byte list list" where
  "adjacent_roots previous [] = []"
| "adjacent_roots previous (k # ks) =
     (if previous = root_of k then adjacent_roots previous ks else root_of k # adjacent_roots (root_of k) ks)"

lemma domain_record_key_record: "length k \<le> DOMAIN_KEY_SIZE \<Longrightarrow> domain_record_key (domain_record k) = k"
  by (simp add: domain_record_key_def domain_record_def bslice_def le_nat_2 disk_consts)

lemma collect_roots_ok:
  assumes "\<And>k. k \<in> set K \<Longrightarrow> length k \<le> DOMAIN_KEY_SIZE \<and> length (root_of k) \<le> ROOT_KEY_SIZE"
    and "length h = HEADER_SIZE" "n \<le> length K"
  shows "collect_roots (h @ concat (map domain_record K)) previous [n..<length K] =
     Inr (adjacent_roots previous (drop n K))"
  using assms(3)
proof (induction "length K - n" arbitrary: n previous)
  case 0
  then show ?case by simp
next
  case (Suc m)
  let ?f = "h @ concat (map domain_record K)"
  have n: "n < length K"
    using Suc.hyps(2) by simp
  then have in_K: "K ! n \<in> set K"
    by simp
  have rsize: "length r = DOMAIN_RECORD_SIZE" if "r \<in> set (map domain_record K)" for r
    using that assms(1) length_domain_record by auto
  have read: "read_exact_at ?f DOMAIN_RECORD_SIZE (HEADER_SIZE + n * DOMAIN_RECORD_SIZE) = Inr (domain_record (K ! n))"
    using bslice_header [of h "map domain_record K" DOMAIN_RECORD_SIZE n, OF assms(2) rsize] n by (simp add: read_exact_at_def)
  have upt: "[n..<length K] = n # [Suc n..<length K]"
    using n by (rule upt_conv_Cons)
  have drop: "drop n K = K ! n # drop (Suc n) K"
    using n by (simp add: Cons_nth_drop_Suc)
  have IH: "collect_roots ?f q [Suc n..<length K] = Inr (adjacent_roots q (drop (Suc n) K))" for q
    using Suc.hyps(1) [of "Suc n" q] Suc.hyps(2) n by simp
  have key: "domain_record_key (domain_record (K ! n)) = K ! n"
    using assms(1) [OF in_K] by (simp add: domain_record_key_record)
  have small: "\<not> ROOT_KEY_SIZE < length (root_of (K ! n))"
    using assms(1) [OF in_K] by simp
  show ?case
    using small by (simp add: upt drop read IH key root_of_def [symmetric] Let_def)
qed

lemma length_root_record: "length r \<le> ROOT_KEY_SIZE \<Longrightarrow> length (root_record r) = ROOT_RECORD_SIZE"
  by (simp add: root_record_def disk_consts)

lemma load_roots_loop_ok:
  assumes "\<And>r. r \<in> set R \<Longrightarrow> length r \<le> ROOT_KEY_SIZE" "length h = HEADER_SIZE" "n \<le> length R"
  shows "load_roots_loop (h @ concat (map root_record R)) [n..<length R] = Inr (drop n R)"
  using assms(3)
proof (induction "length R - n" arbitrary: n)
  case 0
  then show ?case by simp
next
  case (Suc m)
  let ?f = "h @ concat (map root_record R)"
  have n: "n < length R"
    using Suc.hyps(2) by simp
  then have len: "length (R ! n) \<le> ROOT_KEY_SIZE"
    by (simp add: assms(1))
  have rsize: "length r = ROOT_RECORD_SIZE" if "r \<in> set (map root_record R)" for r
    using that assms(1) length_root_record by auto
  have read: "read_exact_at ?f ROOT_RECORD_SIZE (HEADER_SIZE + n * ROOT_RECORD_SIZE) = Inr (root_record (R ! n))"
    using bslice_header [of h "map root_record R" ROOT_RECORD_SIZE n, OF assms(2) rsize] n by (simp add: read_exact_at_def)
  have le: "le_nat (take 2 (root_record (R ! n))) = length (R ! n)"
    using len by (simp add: root_record_def le_nat_2 disk_consts)
  have body: "bslice (root_record (R ! n)) 2 (2 + length (R ! n)) = R ! n"
    by (simp add: root_record_def bslice_def)
  have IH: "load_roots_loop ?f [Suc n..<length R] = Inr (drop (Suc n) R)"
    using Suc.hyps(1) [of "Suc n"] Suc.hyps(2) n by simp
  have upt: "[n..<length R] = n # [Suc n..<length R]"
    using n by (rule upt_conv_Cons)
  show ?case
    using len by (simp add: upt read le body [simplified] IH Let_def Cons_nth_drop_Suc [OF n])
qed

lemma adjacent_roots_set:
  "set (adjacent_roots q K) \<subseteq> root_of ` set K \<and> root_of ` set K \<subseteq> insert q (set (adjacent_roots q K))"
  by (induction q K rule: adjacent_roots.induct) auto

lemma adjacent_roots_mem: "r \<in> set (adjacent_roots q K) \<Longrightarrow> \<exists>k \<in> set K. r = root_of k"
  by (induction q K rule: adjacent_roots.induct) (auto split: if_splits)

lemma length_adjacent_roots: "length (adjacent_roots q K) \<le> length K"
  by (induction q K rule: adjacent_roots.induct) auto

lemma write_load_roots:
  assumes "\<And>k. k \<in> set K \<Longrightarrow> length k \<le> DOMAIN_KEY_SIZE \<and> length (root_of k) \<le> ROOT_KEY_SIZE"
    and "HEADER_SIZE + length K * DOMAIN_RECORD_SIZE < 2 ^ 64"
  shows "\<exists>f. write_root_index (table_header 1 DOMAIN_RECORD_SIZE (length K) @ concat (map domain_record K)) = Inr f
     \<and> load_root_labels path f = Inr (adjacent_roots [] K)"
proof -
  let ?R = "adjacent_roots [] K"
  let ?f = "table_header 3 ROOT_RECORD_SIZE (length ?R) @ concat (map root_record ?R)"
  have n: "length K < 2 ^ 64"
    using assms(2) by (simp add: disk_consts)
  have hdr: "le_nat (bslice (table_header 1 DOMAIN_RECORD_SIZE (length K)) 24 32) = length K"
    using header_round_trip(2) [of 1 DOMAIN_RECORD_SIZE "length K"] n by (simp add: disk_consts)
  have small: "length r \<le> ROOT_KEY_SIZE" if r: "r \<in> set ?R" for r
  proof -
    obtain k where "k \<in> set K" "r = root_of k"
      using adjacent_roots_mem [OF r] by blast
    with assms(1) show ?thesis by simp
  qed
  have written: "write_root_index (table_header 1 DOMAIN_RECORD_SIZE (length K) @ concat (map domain_record K)) = Inr ?f"
    using collect_roots_ok [of K "table_header 1 DOMAIN_RECORD_SIZE (length K)" 0 "[]"] assms(1)
    by (simp add: write_root_index_def read_exact_header hdr [simplified])
  have bound: "HEADER_SIZE + length ?R * ROOT_RECORD_SIZE < 2 ^ 64"
    using assms(2) length_adjacent_roots [of "[]" K] by (simp add: disk_consts)
  have nR: "length ?R < 2 ^ 64"
    using bound by (simp add: disk_consts)
  have hdrR: "header_matches (table_header 3 ROOT_RECORD_SIZE (length ?R)) 3 ROOT_RECORD_SIZE"
    "le_nat (bslice (table_header 3 ROOT_RECORD_SIZE (length ?R)) 24 32) = length ?R"
    using header_round_trip [of 3 ROOT_RECORD_SIZE "length ?R"] nR by (simp_all add: disk_consts)
  have "length (concat (map root_record ?R)) = length ?R * ROOT_RECORD_SIZE"
    using length_concat_const [of "map root_record ?R" ROOT_RECORD_SIZE] small length_root_record by auto
  then have "length ?f = expected_length (length ?R) ROOT_RECORD_SIZE"
    using bound by (simp add: expected_length_def min_def)
  then have "load_root_labels path ?f = Inr ?R"
    using hdrR load_roots_loop_ok [of ?R "table_header 3 ROOT_RECORD_SIZE (length ?R)" 0] small
    by (simp add: load_root_labels_def read_exact_header Let_def)
  with written show ?thesis by blast
qed

subsection \<open>Binary search\<close>

definition key_in :: "disk_table \<Rightarrow> byte list \<Rightarrow> byte list" where
  "key_in t rec = (if tb_kind t = 1 then domain_record_key rec else take CIDR_KEY_SIZE rec)"

text \<open>A table holds the keys \<open>K\<close>: strictly sorted, one per record.\<close>

definition table_keys :: "disk_table \<Rightarrow> byte list list \<Rightarrow> bool" where
  "table_keys t K \<longleftrightarrow>
     tb_count t = length K \<and> sorted_wrt (<) K \<and> table_record t (length K) = None
     \<and> (\<forall>i < length K. \<exists>rec. table_record t i = Some rec \<and> key_in t rec = K ! i)"

lemma sorted_wrt_less_nth_iff:
  fixes K :: "'a :: linorder list"
  shows "sorted_wrt (<) K \<Longrightarrow> i < length K \<Longrightarrow> j < length K \<Longrightarrow> K ! i < K ! j \<longleftrightarrow> i < j"
  by (metis linorder_neqE_nat order_less_asym sorted_wrt_iff_nth_less)

lemma contains_loop_iff:
  assumes "table_keys t K" "high \<le> length K"
  shows "contains_loop t key low high \<longleftrightarrow> (\<exists>i. low \<le> i \<and> i < high \<and> K ! i = key)"
  using assms
proof (induction t key low high rule: contains_loop.induct)
  case (1 t key low high)
  show ?case
  proof (cases "low < high")
    case True
    let ?m = "low + (high - low) div 2"
    have m: "low \<le> ?m" "?m < high" "?m < length K"
      using True "1.prems"(2) by auto
    obtain rec where r: "table_record t ?m = Some rec" "key_in t rec = K ! ?m"
      using "1.prems"(1) m(3) by (auto simp: table_keys_def)
    have srt: "sorted_wrt (<) K"
      using "1.prems"(1) by (simp add: table_keys_def)
    have step: "contains_loop t key low high \<longleftrightarrow>
        (if K ! ?m < key then contains_loop t key (?m + 1) high
         else if key < K ! ?m then contains_loop t key low ?m else True)"
      using True r by (subst contains_loop.simps) (simp add: key_in_def Let_def)
    consider (less) "K ! ?m < key" | (greater) "key < K ! ?m" | (eq) "K ! ?m = key"
      by fastforce
    then show ?thesis
    proof cases
      case less
      have above: "?m + 1 \<le> i" if "i < high" "K ! i = key" for i
        using sorted_wrt_less_nth_iff [OF srt m(3), of i] that less "1.prems"(2) by simp
      have "(\<exists>i. ?m + 1 \<le> i \<and> i < high \<and> K ! i = key) \<longleftrightarrow> (\<exists>i. low \<le> i \<and> i < high \<and> K ! i = key)"
        using above le_trans [OF m(1)] by (metis add_leD1)
      with less "1.IH"(1) [OF True refl r(1) refl _ "1.prems"] r(2) show ?thesis
        by (simp add: step key_in_def)
    next
      case greater
      have below: "i < ?m" if "i < high" "K ! i = key" for i
        using sorted_wrt_less_nth_iff [OF srt _ m(3), of i] that greater "1.prems"(2) by simp
      have "(\<exists>i. low \<le> i \<and> i < ?m \<and> K ! i = key) \<longleftrightarrow> (\<exists>i. low \<le> i \<and> i < high \<and> K ! i = key)"
        using below less_trans [OF _ m(2)] by metis
      moreover have "\<not> K ! ?m < key"
        using greater by simp
      ultimately show ?thesis
        using greater "1.IH"(2) [OF True refl r(1) refl _ _ "1.prems"(1)] m(3) r(2)
        by (simp add: step key_in_def)
    next
      case eq
      then have "contains_loop t key low high"
        by (simp add: step)
      with eq m show ?thesis by blast
    qed
  next
    case False
    then show ?thesis by (subst contains_loop.simps) auto
  qed
qed

lemma table_contains_iff:
  assumes "table_keys t K"
  shows "table_contains t key \<longleftrightarrow> key \<in> set K"
proof -
  have "table_contains t key \<longleftrightarrow> (\<exists>i. i < length K \<and> K ! i = key)"
    using contains_loop_iff [OF assms order_refl, of key 0] assms
    by (simp add: table_contains_def table_keys_def)
  then show ?thesis
    by (auto simp: in_set_conv_nth)
qed

lemma lower_bound_ok:
  assumes "table_keys t K" "tb_kind t = 1" "high \<le> length K" "low \<le> high"
  shows "\<exists>m. lower_bound t key low high = Some m \<and> low \<le> m \<and> m \<le> high
     \<and> (\<forall>i. low \<le> i \<and> i < m \<longrightarrow> K ! i < key) \<and> (\<forall>i. m \<le> i \<and> i < high \<longrightarrow> key \<le> K ! i)"
  using assms
proof (induction t key low high rule: lower_bound.induct)
  case (1 t key low high)
  show ?case
  proof (cases "low < high")
    case True
    let ?m = "low + (high - low) div 2"
    have m: "low \<le> ?m" "?m < high" "?m < length K"
      using True "1.prems"(3) by auto
    obtain rec where r: "table_record t ?m = Some rec" "domain_record_key rec = K ! ?m"
      using "1.prems"(1,2) m(3) by (auto simp: table_keys_def key_in_def)
    have srt: "sorted_wrt (<) K"
      using "1.prems"(1) by (simp add: table_keys_def)
    have step: "lower_bound t key low high =
        (if K ! ?m < key then lower_bound t key (?m + 1) high else lower_bound t key low ?m)"
      using True r by (subst lower_bound.simps) (simp add: Let_def)
    show ?thesis
    proof (cases "K ! ?m < key")
      case lt: True
      have below: "K ! i < key" if "i \<le> ?m" for i
        using sorted_wrt_less_nth_iff [OF srt, of ?m i] that lt m(3) by fastforce
      from "1.IH"(1) [OF True refl r(1) _ "1.prems"(1-3)] lt r(2) m(2) obtain n where
        n: "lower_bound t key (?m + 1) high = Some n" "?m + 1 \<le> n" "n \<le> high"
        "\<forall>i. ?m + 1 \<le> i \<and> i < n \<longrightarrow> K ! i < key" "\<forall>i. n \<le> i \<and> i < high \<longrightarrow> key \<le> K ! i"
        by auto
      have "K ! i < key" if "low \<le> i \<and> i < n" for i
        using below n(4) that by (cases "i \<le> ?m") auto
      with n m(1) lt step show ?thesis by auto
    next
      case ge: False
      have above: "key \<le> K ! i" if "?m \<le> i" "i < high" for i
        using sorted_wrt_less_nth_iff [OF srt, of i ?m] that ge m(3) "1.prems"(3) by fastforce
      from "1.IH"(2) [OF True refl r(1) _ "1.prems"(1,2)] ge r(2) m obtain n where
        n: "lower_bound t key low ?m = Some n" "low \<le> n" "n \<le> ?m"
        "\<forall>i. low \<le> i \<and> i < n \<longrightarrow> K ! i < key" "\<forall>i. n \<le> i \<and> i < ?m \<longrightarrow> key \<le> K ! i"
        by auto
      have "key \<le> K ! i" if "n \<le> i \<and> i < high" for i
        using above n(5) that by (cases "?m \<le> i") auto
      with n m(2) ge step show ?thesis
        by (intro exI [of _ n]) auto
    qed
  next
    case False
    then show ?thesis
      using "1.prems"(4) by (subst lower_bound.simps) auto
  qed
qed

lemma binary_search_sound:
  "high \<le> length xs \<Longrightarrow> binary_search xs key low high \<Longrightarrow> key \<in> set xs"
proof (induction xs key low high rule: binary_search.induct)
  case (1 xs key low high)
  let ?m = "low + (high - low) div 2"
  have low: "low < high"
    using "1.prems"(2) by (subst (asm) binary_search.simps) (simp split: if_splits)
  then have m: "?m < length xs" "?m \<le> length xs"
    using "1.prems"(1) by auto
  have step: "if xs ! ?m < key then binary_search xs key (?m + 1) high
      else if key < xs ! ?m then binary_search xs key low ?m else True"
    using "1.prems"(2) low by (subst (asm) binary_search.simps) (simp add: Let_def)
  consider (less) "xs ! ?m < key" | (greater) "key < xs ! ?m" | (eq) "xs ! ?m = key"
    by fastforce
  then show ?case
  proof cases
    case less
    with step "1.IH"(1) [OF low refl] "1.prems"(1) show ?thesis by simp
  next
    case greater
    with step "1.IH"(2) [OF low refl _ _ m(2)] show ?thesis by auto
  next
    case eq
    with m(1) show ?thesis by auto
  qed
qed

lemma binary_search_complete:
  "sorted xs \<Longrightarrow> high \<le> length xs \<Longrightarrow> low \<le> i \<Longrightarrow> i < high \<Longrightarrow> xs ! i = key \<Longrightarrow> binary_search xs key low high"
proof (induction xs key low high rule: binary_search.induct)
  case (1 xs key low high)
  let ?m = "low + (high - low) div 2"
  have low: "low < high"
    using "1.prems" by simp
  then have m: "?m < length xs" "?m \<le> length xs" "low \<le> ?m" "?m < high"
    using "1.prems"(2) by auto
  have step: "binary_search xs key low high \<longleftrightarrow>
      (if xs ! ?m < key then binary_search xs key (?m + 1) high
       else if key < xs ! ?m then binary_search xs key low ?m else True)"
    using low by (subst binary_search.simps) (simp add: Let_def)
  consider (less) "xs ! ?m < key" | (greater) "key < xs ! ?m" | (eq) "xs ! ?m = key"
    by fastforce
  then show ?case
  proof cases
    case less
    have "?m < i"
      using sorted_nth_mono [OF "1.prems"(1), of i ?m] less "1.prems" m(1) by (metis leD leI)
    with step less "1.IH"(1) [OF low refl less "1.prems"(1,2)] "1.prems"(4,5) show ?thesis
      by simp
  next
    case greater
    have "i < ?m"
      using sorted_nth_mono [OF "1.prems"(1), of ?m i] greater "1.prems" m(1)
      by (metis leD leI order_less_le_trans)
    with step greater "1.IH"(2) [OF low refl _ greater "1.prems"(1) m(2)] "1.prems"(3,5) show ?thesis
      by (auto simp: order_less_not_sym)
  next
    case eq
    with step show ?thesis by simp
  qed
qed

end
