(* ===== verification/Host_Trie.thy ===== *)
theory Host_Trie
  imports Disk_Table
begin

text \<open>
  \<open>HostTrie\<close> of \<open>trie/src/ondisk.rs\<close>: a membership index that is either a combined trie in
  memory or a pair of tables on disk. The lemmas show what a disk index built from a list of
  patterns contains, that a match on disk is always a match in memory, and that the two agree
  when no label has a byte below the dot; the last section shows a list of patterns on which
  they do not agree.
\<close>

subsection \<open>The model\<close>

text \<open>
  A disk index is shared by reference and compared by the identity of that reference; the
  number is that identity.
\<close>

datatype host_trie = Memory "unit combined_trie" | Disk nat disk_files

definition host_trie_new :: host_trie where
  "host_trie_new = Memory combined_trie_new"

definition from_checked :: "nat \<Rightarrow> string \<Rightarrow> string result list \<Rightarrow> host_trie result" where
  "from_checked uid dir patterns = rbind (build_checked dir patterns) (\<lambda>files. Inr (Disk uid files))"

definition from_patterns :: "nat \<Rightarrow> string \<Rightarrow> string list \<Rightarrow> host_trie result" where
  "from_patterns uid dir patterns = from_checked uid dir (map Inr patterns)"

definition open_at :: "nat \<Rightarrow> string \<Rightarrow> byte list \<Rightarrow> byte list \<Rightarrow> byte list \<Rightarrow> host_trie result" where
  "open_at uid dir domains_idx domains_roots cidrs_idx =
     rbind (disk_files_open dir domains_idx domains_roots cidrs_idx) (\<lambda>files. Inr (Disk uid files))"

fun is_on_disk :: "host_trie \<Rightarrow> bool" where
  "is_on_disk (Memory _) = False"
| "is_on_disk (Disk _ _) = True"

fun host_trie_insert :: "nat \<Rightarrow> string \<Rightarrow> host_trie \<Rightarrow> string \<Rightarrow> (host_trie, unit option) outcome" where
  "host_trie_insert uid dir (Memory index) pattern =
     (case combined_trie_insert index pattern () of
        None \<Rightarrow> None
      | Some (index1, r) \<Rightarrow> Some (Memory index1, r))"
| "host_trie_insert uid dir (Disk i files) pattern =
     Some (case rbind (canonical_pattern pattern) (\<lambda>p.
                  rbind (contains_pattern files p) (\<lambda>present.
                    if present then Inr (Disk i files, Some ())
                    else rbind (from_checked uid dir (pattern_iter files @ [Inr p])) (\<lambda>t. Inr (t, None)))) of
             Inl e \<Rightarrow> (Disk i files, Inl e)
           | Inr (t, r) \<Rightarrow> (t, Inr r))"

text \<open>The iterator of \<open>remove\<close>: every stored pattern but the removed one, errors kept.\<close>

definition other_patterns :: "string \<Rightarrow> string result list \<Rightarrow> string result list" where
  "other_patterns p = filter (\<lambda>r. r \<noteq> Inr p)"

fun host_trie_remove :: "nat \<Rightarrow> string \<Rightarrow> host_trie \<Rightarrow> string \<Rightarrow> (host_trie, unit option) outcome" where
  "host_trie_remove uid dir (Memory index) pattern =
     (case split_once CHR ''/'' pattern of
        Some ap \<Rightarrow>
          (case parse_cidr ap of
             Inl e \<Rightarrow> Some (Memory index, Inl e)
           | Inr (address, pl) \<Rightarrow>
               (let (c, r) = cidr_trie_remove (cb_cidrs index) (mask_address address pl) pl
                in Some (Memory (index\<lparr>cb_cidrs := c\<rparr>), r)))
      | None \<Rightarrow>
          (case domain_trie_remove (cb_domains index) pattern of
             None \<Rightarrow> None
           | Some (d, r) \<Rightarrow> Some (Memory (index\<lparr>cb_domains := d\<rparr>), r)))"
| "host_trie_remove uid dir (Disk i files) pattern =
     Some (case rbind (canonical_pattern pattern) (\<lambda>p.
                  rbind (contains_pattern files p) (\<lambda>present.
                    if \<not> present then Inr (Disk i files, None)
                    else rbind (from_checked uid dir (other_patterns p (pattern_iter files))) (\<lambda>t.
                           Inr (t, Some ())))) of
             Inl e \<Rightarrow> (Disk i files, Inl e)
           | Inr (t, r) \<Rightarrow> (t, Inr r))"

text \<open>A search answers whether the endpoint is a member; \<open>None\<close> is the panic of the memory trie.\<close>

fun host_trie_search :: "host_trie \<Rightarrow> endpoint \<Rightarrow> bool option" where
  "host_trie_search (Memory index) e = map_option (\<lambda>r. r \<noteq> None) (combined_trie_search index e)"
| "host_trie_search (Disk _ files) e = Some (files_matches files e False)"

fun host_trie_search_parent :: "host_trie \<Rightarrow> endpoint \<Rightarrow> bool option" where
  "host_trie_search_parent (Memory index) e = map_option (\<lambda>r. r \<noteq> None) (combined_trie_search_parent index e)"
| "host_trie_search_parent (Disk _ files) e = Some (files_matches files e True)"

subsection \<open>What a built index contains\<close>

lemma card_pattern_keys:
  "card (domain_keys ps) \<le> length ps" "card (cidr_keys ps) \<le> length ps"
  "finite (domain_keys ps)" "finite (cidr_keys ps)"
proof -
  have d: "domain_keys ps \<subseteq> (\<lambda>p. projl (projr (pattern_record_key p))) ` set ps"
    by (force simp: domain_keys_def image_iff)
  have c: "cidr_keys ps \<subseteq> (\<lambda>p. projr (projr (pattern_record_key p))) ` set ps"
    by (force simp: cidr_keys_def image_iff)
  show "finite (domain_keys ps)" "finite (cidr_keys ps)"
    using d c finite_subset by blast+
  show "card (domain_keys ps) \<le> length ps" "card (cidr_keys ps) \<le> length ps"
    using d c card_length [of ps] by (meson card_image_le card_mono finite_imageI le_trans List.finite_set)+
qed

lemma sorted_wrt_map_key:
  "sorted_wrt (\<lambda>a b. record_key a ks < record_key b ks) rs \<longleftrightarrow> sorted_wrt (<) (map (\<lambda>r. record_key r ks) rs)"
  by (simp add: sorted_wrt_map)

lemma distinct_of_sorted_less: "sorted_wrt (<) (K :: 'a :: linorder list) \<Longrightarrow> distinct K"
  by (simp add: strict_sorted_iff)

lemma build_tables:
  assumes "build_inv s kd kc" "finite kd" "finite kc"
  defines "dr \<equiv> snd (flush_run DOMAIN_KEY_SIZE (bs_domain_records s) (bs_domain_runs s))"
    and "cr \<equiv> snd (flush_run CIDR_KEY_SIZE (bs_cidr_records s) (bs_cidr_runs s))"
  shows "\<exists>Kd. merged_records DOMAIN_KEY_SIZE dr = map domain_record Kd \<and> set Kd = kd \<and> sorted_wrt (<) Kd
       \<and> (\<forall>k \<in> set Kd. length k \<le> DOMAIN_KEY_SIZE)"
    and "\<exists>Kc. merged_records CIDR_KEY_SIZE cr = map cidr_record Kc \<and> set Kc = kc \<and> sorted_wrt (<) Kc
       \<and> (\<forall>k \<in> set Kc. length k = CIDR_KEY_SIZE)"
proof -
  have d: "\<forall>c \<in> set (bs_domain_runs s). run_ok DOMAIN_KEY_SIZE c"
    and c: "\<forall>c \<in> set (bs_cidr_runs s). run_ok CIDR_KEY_SIZE c"
    and dk: "keys_of DOMAIN_KEY_SIZE (bs_domain_records s) \<union> (\<Union>c \<in> set (bs_domain_runs s). keys_of DOMAIN_KEY_SIZE c) = kd"
    and ck: "keys_of CIDR_KEY_SIZE (bs_cidr_records s) \<union> (\<Union>c \<in> set (bs_cidr_runs s). keys_of CIDR_KEY_SIZE c) = kc"
    and drec: "\<forall>r \<in> set (bs_domain_records s) \<union> (\<Union>c \<in> set (bs_domain_runs s). set c).
          \<exists>k. r = domain_record k \<and> length k \<le> DOMAIN_KEY_SIZE"
    and crec: "\<forall>r \<in> set (bs_cidr_records s) \<union> (\<Union>c \<in> set (bs_cidr_runs s). set c).
          \<exists>k. r = cidr_record k \<and> length k = CIDR_KEY_SIZE"
    using assms(1) unfolding build_inv_def by blast+
  note df = flush_run_keys [OF d, of "bs_domain_records s", folded dr_def]
  note cf = flush_run_keys [OF c, of "bs_cidr_records s", folded cr_def]
  have dm: "\<forall>c \<in> set dr. run_ok DOMAIN_KEY_SIZE c" and cm: "\<forall>c \<in> set cr. run_ok CIDR_KEY_SIZE c"
    by (rule conjunct1 [OF df], rule conjunct1 [OF cf])
  note dmo = merged_records_ok [OF dm] and cmo = merged_records_ok [OF cm]
  let ?rd = "merged_records DOMAIN_KEY_SIZE dr" and ?rc = "merged_records CIDR_KEY_SIZE cr"
  let ?Kd = "map (\<lambda>r. record_key r DOMAIN_KEY_SIZE) ?rd" and ?Kc = "map (\<lambda>r. record_key r CIDR_KEY_SIZE) ?rc"
  have rd: "\<exists>k. r = domain_record k \<and> length k \<le> DOMAIN_KEY_SIZE" if "r \<in> set ?rd" for r
  proof -
    have "r \<in> set (bs_domain_records s) \<union> (\<Union>c \<in> set (bs_domain_runs s). set c)"
      using that dmo df by (meson subsetD)
    then show ?thesis by (rule bspec [OF drec])
  qed
  have rc: "\<exists>k. r = cidr_record k \<and> length k = CIDR_KEY_SIZE" if "r \<in> set ?rc" for r
  proof -
    have "r \<in> set (bs_cidr_records s) \<union> (\<Union>c \<in> set (bs_cidr_runs s). set c)"
      using that cmo cf by (meson subsetD)
    then show ?thesis by (rule bspec [OF crec])
  qed
  have "map (\<lambda>r. domain_record (record_key r DOMAIN_KEY_SIZE)) ?rd = ?rd"
    using rd record_key_domain_record by (intro map_idI) fastforce
  then have "?rd = map domain_record ?Kd"
    by (simp add: comp_def)
  moreover have "set ?Kd = kd"
    using dmo df dk by (simp add: keys_of_def)
  moreover have "\<forall>k \<in> set ?Kd. length k \<le> DOMAIN_KEY_SIZE"
    using rd record_key_domain_record by fastforce
  ultimately show "\<exists>Kd. merged_records DOMAIN_KEY_SIZE dr = map domain_record Kd \<and> set Kd = kd \<and> sorted_wrt (<) Kd
       \<and> (\<forall>k \<in> set Kd. length k \<le> DOMAIN_KEY_SIZE)"
    using dmo by (intro exI [of _ ?Kd]) (simp add: sorted_wrt_map_key)
  have "map (\<lambda>r. cidr_record (record_key r CIDR_KEY_SIZE)) ?rc = ?rc"
    using rc record_key_cidr_record by (intro map_idI) fastforce
  then have "?rc = map cidr_record ?Kc"
    by (simp add: comp_def)
  moreover have "set ?Kc = kc"
    using cmo cf ck by (simp add: keys_of_def)
  moreover have "\<forall>k \<in> set ?Kc. length k = CIDR_KEY_SIZE"
    using rc record_key_cidr_record by fastforce
  ultimately show "\<exists>Kc. merged_records CIDR_KEY_SIZE cr = map cidr_record Kc \<and> set Kc = kc \<and> sorted_wrt (<) Kc
       \<and> (\<forall>k \<in> set Kc. length k = CIDR_KEY_SIZE)"
    using cmo by (intro exI [of _ ?Kc]) (simp add: sorted_wrt_map_key)
qed

lemma build_checked_ok:
  assumes "\<forall>p \<in> set ps. is_ok (pattern_record_key p)" "\<forall>k \<in> domain_keys ps. length (root_of k) \<le> ROOT_KEY_SIZE"
    and "length ps < 2 ^ 48"
  shows "\<exists>f Kd Kc. build_checked dir (map Inr ps) = Inr f
     \<and> table_keys (df_domains f) Kd \<and> set Kd = domain_keys ps \<and> tb_kind (df_domains f) = 1
     \<and> tb_root_labels (df_domains f) = adjacent_roots [] Kd
     \<and> table_keys (df_cidrs f) Kc \<and> set Kc = cidr_keys ps \<and> tb_kind (df_cidrs f) = 2"
proof -
  obtain s where s: "build_patterns build_state_new (map Inr ps) = Inr s" "build_inv s (domain_keys ps) (cidr_keys ps)"
    using build_patterns_ok [OF build_inv_new assms(1)] by auto
  let ?dr = "snd (flush_run DOMAIN_KEY_SIZE (bs_domain_records s) (bs_domain_runs s))"
  let ?cr = "snd (flush_run CIDR_KEY_SIZE (bs_cidr_records s) (bs_cidr_runs s))"
  obtain Kd where Kd: "merged_records DOMAIN_KEY_SIZE ?dr = map domain_record Kd" "set Kd = domain_keys ps"
    "sorted_wrt (<) Kd" "\<forall>k \<in> set Kd. length k \<le> DOMAIN_KEY_SIZE"
    using build_tables(1) [OF s(2) card_pattern_keys(3,4)] by blast
  obtain Kc where Kc: "merged_records CIDR_KEY_SIZE ?cr = map cidr_record Kc" "set Kc = cidr_keys ps"
    "sorted_wrt (<) Kc" "\<forall>k \<in> set Kc. length k = CIDR_KEY_SIZE"
    using build_tables(2) [OF s(2) card_pattern_keys(3,4)] by blast
  have nd: "length Kd < 2 ^ 48" and nc: "length Kc < 2 ^ 48"
    using distinct_card [OF distinct_of_sorted_less [OF Kd(3)]] distinct_card [OF distinct_of_sorted_less [OF Kc(3)]]
      card_pattern_keys(1,2) [of ps] Kd(2) Kc(2) assms(3) by simp_all
  let ?di = "table_header 1 DOMAIN_RECORD_SIZE (length Kd) @ concat (map domain_record Kd)"
  let ?ci = "table_header 2 CIDR_RECORD_SIZE (length Kc) @ concat (map cidr_record Kc)"
  have tables: "merge_runs_to_table 1 DOMAIN_RECORD_SIZE DOMAIN_KEY_SIZE ?dr = ?di"
      "merge_runs_to_table 2 CIDR_RECORD_SIZE CIDR_KEY_SIZE ?cr = ?ci"
    using Kd(1) Kc(1) by (simp_all add: merge_runs_to_table_def merged_records_def [symmetric] Let_def)
  have roots: "length k \<le> DOMAIN_KEY_SIZE \<and> length (root_of k) \<le> ROOT_KEY_SIZE" if "k \<in> set Kd" for k
    using that Kd(2,4) assms(2) by simp
  have dbound: "HEADER_SIZE + length Kd * DOMAIN_RECORD_SIZE < 2 ^ 64"
    and cbound: "HEADER_SIZE + length Kc * CIDR_RECORD_SIZE < 2 ^ 64"
    using nd nc by (simp_all add: disk_consts)
  obtain rf where rf: "write_root_index ?di = Inr rf"
    "load_root_labels (dir @ ''/domains.roots'') rf = Inr (adjacent_roots [] Kd)"
    using write_load_roots [OF roots dbound, of "dir @ ''/domains.roots''"] by blast
  have dlen: "length r = DOMAIN_RECORD_SIZE" if "r \<in> set (map domain_record Kd)" for r
    using that Kd(4) length_domain_record by auto
  have clen: "length r = CIDR_RECORD_SIZE" if "r \<in> set (map cidr_record Kc)" for r
    using that Kc(4) length_cidr_record by auto
  obtain td where td: "disk_table_open (dir @ ''/domains.idx'') ?di 1 DOMAIN_RECORD_SIZE (Some (dir @ ''/domains.roots'', rf)) = Inr td"
    "tb_kind td = 1" "tb_count td = length Kd" "tb_root_labels td = adjacent_roots [] Kd"
    "\<forall>i. table_record td i = nth_opt (map domain_record Kd) i"
    using disk_table_open_ok [of "map domain_record Kd" DOMAIN_RECORD_SIZE 1 "Some (dir @ ''/domains.roots'', rf)"
        "adjacent_roots [] Kd" "dir @ ''/domains.idx''", OF dlen] dbound rf(2)
    by (auto simp: disk_consts)
  obtain tc where tc: "disk_table_open (dir @ ''/cidrs.idx'') ?ci 2 CIDR_RECORD_SIZE None = Inr tc"
    "tb_kind tc = 2" "tb_count tc = length Kc" "\<forall>i. table_record tc i = nth_opt (map cidr_record Kc) i"
    using disk_table_open_ok [of "map cidr_record Kc" CIDR_RECORD_SIZE 2 None "[]" "dir @ ''/cidrs.idx''", OF clen] cbound
    by (auto simp: disk_consts)
  have "table_keys td Kd"
    using td Kd(3,4) by (simp add: table_keys_def key_in_def domain_record_key_record)
  moreover have "table_keys tc Kc"
    using tc Kc(3,4) by (simp add: table_keys_def key_in_def cidr_record_def)
  moreover have "build_checked dir (map Inr ps) = Inr \<lparr>df_domains = td, df_cidrs = tc\<rparr>"
    using s(1) tables rf(1) td(1) tc(1) by (simp add: build_checked_def disk_files_open_def Let_def)
  ultimately show ?thesis
    using td(2,4) tc(2) Kd(2) Kc(2)
    by (intro exI [of _ "\<lparr>df_domains = td, df_cidrs = tc\<rparr>"] exI [of _ Kd] exI [of _ Kc]) simp
qed

subsection \<open>Patterns and keys\<close>

definition clean_label :: "string \<Rightarrow> bool" where
  "clean_label l \<longleftrightarrow> l = ''*'' \<or> valid_label l"

text \<open>
  A pattern the index can hold faithfully: its labels have no surrounding white space, and
  the text of its masked network parses back to the network.
\<close>

definition host_pattern_ok :: "string \<Rightarrow> bool" where
  "host_pattern_ok p =
     (case combined_pattern p of
        Inl _ \<Rightarrow> False
      | Inr (Inl ls) \<Rightarrow> list_all clean_label ls
      | Inr (Inr _) \<Rightarrow>
          (case split_once CHR ''/'' p of
             None \<Rightarrow> False
           | Some ap \<Rightarrow>
               (case parse_cidr ap of
                  Inl _ \<Rightarrow> False
                | Inr (a, pl) \<Rightarrow>
                    parse_ip_addr (show_ip_addr (mask_address a pl)) = Some (mask_address a pl)
                    \<and> CHR ''/'' \<notin> set (show_ip_addr (mask_address a pl)))))"

definition host_keys :: "string list \<Rightarrow> combined_key set" where
  "host_keys ps = {k. \<exists>p \<in> set ps. combined_pattern p = Inr k}"

definition path_key :: "string list \<Rightarrow> byte list" where
  "path_key ls = as_bytes (join_with CHR ''.'' ls)"

lemma pattern_labels_loop_id: "pattern_labels_loop xs = Inr ys \<Longrightarrow> ys = xs"
  by (induction xs arbitrary: ys) (auto simp: result_simps split: if_splits)

lemma pattern_labels_ok:
  assumes "pattern_labels p = Inr ls"
  shows "ls = split_on CHR ''.'' (canonical_text p) \<and> canonical_text p \<noteq> [] \<and> length (canonical_text p) \<le> 253
     \<and> pattern_labels_loop ls = Inr ls"
  using assms pattern_labels_loop_id [of "split_on CHR ''.'' (canonical_text p)"]
  by (auto simp: pattern_labels_def Let_def result_simps split: if_splits)

lemma set_join_with: "set (join_with x ls) \<subseteq> insert x (\<Union>(set ` set ls))"
  by (induction x ls rule: join_with.induct) auto

lemma clean_label_facts:
  assumes "clean_label l"
  shows "l \<noteq> []" and "c \<in> set l \<Longrightarrow> plain_char c \<and> \<not> is_ascii_upper c \<and> c \<noteq> CHR ''.'' \<and> c \<noteq> CHR ''/''"
proof -
  show "l \<noteq> []"
    using assms by (auto simp: clean_label_def valid_label_def)
  show "plain_char c \<and> \<not> is_ascii_upper c \<and> c \<noteq> CHR ''.'' \<and> c \<noteq> CHR ''/''" if "c \<in> set l"
    using assms that label_char_plain [of c] label_char_not_dot [of c]
    by (auto simp: clean_label_def valid_label_def plain_char_def is_ascii_upper_def label_char_def
        is_ascii_alphanumeric_def is_ascii_digit_def is_ascii_lower_def)
qed

lemma canonical_text_clean:
  assumes "ls \<noteq> []" "list_all clean_label ls"
  shows "canonical_text (join_with CHR ''.'' ls) = join_with CHR ''.'' ls"
proof -
  let ?c = "join_with CHR ''.'' ls"
  have chars: "plain_char x \<and> \<not> is_ascii_upper x" if "x \<in> set ?c" for x
    using that set_join_with [of "CHR ''.''" ls] assms(2) clean_label_facts(2)
    by (fastforce simp: list_all_iff plain_char_def is_ascii_upper_def)
  have l: "clean_label (last ls)"
    using assms by (simp add: list_all_iff)
  then have "last ?c = last (last ls)" "last (last ls) \<in> set (last ls)"
    using last_join_with [OF assms(1), of "CHR ''.''"] clean_label_facts(1) [OF l] by auto
  then have "last ?c \<noteq> CHR ''.''"
    using clean_label_facts(2) [OF l] by metis
  then have "trim_end_char CHR ''.'' ?c = ?c"
    by (simp add: trim_end_char_id)
  moreover have "trim ?c = ?c"
    using chars by (simp add: trim_plain)
  moreover have "to_ascii_lowercase ?c = ?c"
    using chars by (intro map_idI) (simp add: ascii_lower_eq_self)
  ultimately show ?thesis
    by (simp add: canonical_text_def)
qed

lemma domain_pattern_key:
  assumes "combined_pattern p = Inr (Inl ls)" "list_all clean_label ls"
  shows "pattern_record_key p = Inr (Inl (path_key ls)) \<and> ls \<noteq> []"
proof -
  have slash: "split_once CHR ''/'' p = None" and lab: "pattern_labels p = Inr (rev ls)"
    using assms(1)
    by (auto simp: combined_pattern_def result_simps domain_pattern_Inr split: option.splits)
  let ?c = "canonical_text p"
  note ok = pattern_labels_ok [OF lab]
  have join: "join_with CHR ''.'' (rev ls) = ?c"
    using ok by simp
  have clean: "list_all clean_label (rev ls)" and ne: "rev ls \<noteq> []"
    using assms(2) ok split_on_not_Nil by (metis list_all_rev, metis)
  have can: "canonical_text ?c = ?c"
    using canonical_text_clean [OF ne clean] join by simp
  then have "pattern_labels ?c = Inr (rev ls)"
    using lab by (simp add: pattern_labels_def)
  moreover have "CHR ''/'' \<notin> set ?c"
    using set_join_with [of "CHR ''.''" "rev ls"] join assms(2) clean_label_facts(2)
    by (fastforce simp: list_all_iff)
  then have "split_once CHR ''/'' ?c = None"
    by (simp add: split_once_def)
  moreover have "canonical_pattern p = Inr ?c"
    using slash lab join by (simp add: canonical_pattern_def)
  moreover have "length (join_with CHR ''.'' ls) = length ?c"
    using arg_cong [OF join, of length] by (simp add: length_join_with rev_map [symmetric])
  moreover have "length ?c \<le> 253"
    using ok by simp
  ultimately show ?thesis
    using ne by (simp add: pattern_record_key_def domain_key_def path_key_def disk_consts)
qed

lemma split_once_append: "c \<notin> set s \<Longrightarrow> split_once c (s @ c # t) = Some (s, t)"
proof -
  assume "c \<notin> set s"
  then have "takeWhile (\<lambda>x. x \<noteq> c) (s @ c # t) = s" "dropWhile (\<lambda>x. x \<noteq> c) (s @ c # t) = c # t"
    by (induction s) auto
  then show ?thesis by (simp add: split_once_def)
qed

lemma cidr_pattern_record:
  assumes "combined_pattern p = Inr (Inr k)" "host_pattern_ok p"
  shows "\<exists>a pl. pl \<le> address_width a \<and> k = (is_ipv4 a, take pl (address_bits a))
     \<and> pattern_record_key p = Inr (Inr (cidr_key (mask_address a pl) pl))"
proof -
  obtain ap a pl where p: "split_once CHR ''/'' p = Some ap" "parse_cidr ap = Inr (a, pl)"
    "cidr_pattern (a, pl) = Inr k"
    using assms(1) by (auto simp: combined_pattern_def result_simps split: option.splits)
  let ?m = "mask_address a pl"
  have disp: "parse_ip_addr (show_ip_addr ?m) = Some ?m" "CHR ''/'' \<notin> set (show_ip_addr ?m)"
    using assms p by (auto simp: host_pattern_ok_def)
  have le: "pl \<le> address_width a" and k: "k = (is_ipv4 a, take pl (address_bits a))"
    using p(3) by (auto simp: cidr_pattern_def split: if_splits)
  have can: "canonical_pattern p = Inr (show_ip_addr ?m @ ''/'' @ show_nat pl)"
    using p(1,2) le by (simp add: canonical_pattern_def)
  have "split_once CHR ''/'' (show_ip_addr ?m @ ''/'' @ show_nat pl) = Some (show_ip_addr ?m, show_nat pl)"
    using split_once_append [OF disp(2)] by simp
  moreover have "address_width ?m = address_width a"
    by (cases a) (simp_all add: mask_address_def address_width_def)
  moreover have "address_width a \<le> 128"
    by (cases a) (simp_all add: address_width_def)
  then have "parse_uint 8 10 (show_nat pl) = Some pl"
    using le by (intro parse_uint_show_nat) simp
  ultimately show ?thesis
    using disp(1) le k can by (auto simp: pattern_record_key_def parse_cidr_def)
qed

subsection \<open>Networks on disk\<close>

lemma length_mask_octets [simp]: "length (mask_octets os pl) = length os"
  by (simp add: mask_octets_def Let_def)

lemma bit_mask_byte:
  assumes "r \<le> 8" "j < 8"
  shows "bit (and x (push_bit (8 - r) 0xff) :: byte) (7 - j) \<longleftrightarrow> bit x (7 - j) \<and> j < r"
proof -
  have ones: "(0xff :: byte) = mask 8"
    by (simp add: mask_eq_exp_minus_1)
  have "bit (push_bit (8 - r) (mask 8) :: byte) (7 - j) \<longleftrightarrow> 8 - r \<le> 7 - j"
    using assms by (auto simp: bit_push_bit_iff bit_mask_iff)
  also have "\<dots> \<longleftrightarrow> j < r"
    using assms by linarith
  finally show ?thesis
    unfolding ones by (simp add: bit_and_iff)
qed

lemma mask_octets_bit:
  assumes "i < 8 * length os"
  shows "bit (mask_octets os pl ! (i div 8)) (7 - i mod 8) \<longleftrightarrow> i < pl \<and> bit (os ! (i div 8)) (7 - i mod 8)"
proof -
  let ?q = "i div 8" and ?j = "i mod 8" and ?f = "pl div 8" and ?r = "pl mod 8"
  have q: "?q < length os"
    using assms by (simp add: less_mult_imp_div_less mult.commute)
  have lt: "i < pl \<longleftrightarrow> ?q < ?f \<or> ?q = ?f \<and> ?j < ?r"
  proof -
    have "8 * q + j < 8 * f + r \<longleftrightarrow> q < f \<or> q = f \<and> j < r" if "j < 8" "r < 8" for q j f r :: nat
      using that by linarith
    from this [of ?j ?r ?q ?f] show ?thesis by simp
  qed
  show ?thesis
  proof (cases "?f < length os")
    case False
    then show ?thesis
      using q lt by (simp add: mask_octets_def Let_def)
  next
    case True
    consider "?q < ?f" | "?q = ?f" "?r \<noteq> 0" | "?q = ?f" "?r = 0" | "?f < ?q"
      by linarith
    then show ?thesis
    proof cases
      case 1
      then show ?thesis
        using True lt q by (auto simp: mask_octets_def Let_def nth_append nth_list_update)
    next
      case 2
      then have "mask_octets os pl ! ?q = and (os ! ?q) (push_bit (8 - ?r) 0xff)"
        using True q by (simp add: mask_octets_def Let_def nth_append)
      then show ?thesis
        using bit_mask_byte [of ?r ?j "os ! ?q"] lt 2 by auto
    next
      case 3
      then show ?thesis
        using True q lt by (simp add: mask_octets_def Let_def nth_append)
    next
      case 4
      then show ?thesis
        using True q lt by (auto simp: mask_octets_def Let_def nth_append)
    qed
  qed
qed

lemma octets_mask [simp]: "octets (mask_address a pl) = mask_octets (octets a) pl"
  by (cases a) (simp_all add: mask_address_def to_from_be32 to_from_be128)

lemma is_ipv4_mask [simp]: "is_ipv4 (mask_address a pl) = is_ipv4 a"
  by (cases a) (simp_all add: mask_address_def)

lemma address_width_mask [simp]: "address_width (mask_address a pl) = address_width a"
  by (cases a) (simp_all add: mask_address_def address_width_def)

lemma address_bits_alt:
  "address_bits a = map (\<lambda>i. bit (octets a ! (i div 8)) (7 - i mod 8)) [0..<address_width a]"
  by (simp add: address_bits_def and_push_bit_1 del: push_bit_of_1)

lemma octets_width: "8 * length (octets a) = address_width a"
  by (cases a) (simp_all add: address_width_def)

lemma address_bits_mask:
  "address_bits (mask_address a pl) = map (\<lambda>i. i < pl \<and> address_bits a ! i) [0..<address_width a]"
  using mask_octets_bit [of _ "octets a" pl] octets_width [of a]
  by (simp add: address_bits_alt)

lemma address_bits_inj:
  assumes "is_ipv4 a = is_ipv4 b" "address_bits a = address_bits b"
  shows "a = b"
proof -
  have "in_prefix b (address_width b) a"
    using assms in_prefix_bits [of "address_width b" b a] by simp
  then show ?thesis
    by (cases a; cases b) (simp_all add: address_width_def)
qed

lemma mask_address_eq_iff:
  assumes "is_ipv4 a = is_ipv4 b" "pl \<le> address_width a"
  shows "mask_address a pl = mask_address b pl \<longleftrightarrow> take pl (address_bits a) = take pl (address_bits b)"
proof -
  have w: "address_width b = address_width a"
    using assms(1) address_width_family by metis
  have "mask_address a pl = mask_address b pl \<longleftrightarrow> address_bits (mask_address a pl) = address_bits (mask_address b pl)"
    using address_bits_inj [of "mask_address a pl" "mask_address b pl"] assms(1) by auto
  also have "\<dots> \<longleftrightarrow> (\<forall>i < pl. address_bits a ! i = address_bits b ! i)"
    using assms(2) w by (auto simp: address_bits_mask list_eq_iff_nth_eq dest: less_le_trans)
  also have "\<dots> \<longleftrightarrow> take pl (address_bits a) = take pl (address_bits b)"
    using assms(2) w by (auto simp: list_eq_iff_nth_eq)
  finally show ?thesis .
qed

lemma octets_inj: "is_ipv4 a = is_ipv4 b \<Longrightarrow> octets a = octets b \<Longrightarrow> a = b"
  by (cases a; cases b) (auto, (metis from_to_be32 from_to_be128)+)

lemma cidr_key_inj:
  assumes "cidr_key a pl = cidr_key b pl'" "pl < 256" "pl' < 256"
  shows "a = b \<and> pl = pl'"
proof -
  have fam: "is_ipv4 a = is_ipv4 b" and len: "(of_nat pl :: byte) = of_nat pl'"
    and rest: "octets a @ replicate (CIDR_KEY_SIZE - 2 - length (octets a)) 0 =
      octets b @ replicate (CIDR_KEY_SIZE - 2 - length (octets b)) 0"
    using assms(1) by (auto simp: cidr_key_def Let_def split: if_splits)
  have "octets a = octets b"
    using rest fam by (simp add: length_octets append_eq_append_conv)
  then have "a = b"
    using fam octets_inj by blast
  moreover have "pl = pl'"
    using assms(2,3) arg_cong [OF len, of unat, unfolded unat_byte_of_nat] by simp
  ultimately show ?thesis ..
qed

lemma cidr_keys_iff:
  assumes "\<forall>p \<in> set ps. host_pattern_ok p" "pl \<le> address_width a"
  shows "cidr_key (mask_address a pl) pl \<in> cidr_keys ps \<longleftrightarrow> Inr (is_ipv4 a, take pl (address_bits a)) \<in> host_keys ps"
proof
  have w: "address_width x \<le> 128" for x
    by (cases x) (simp_all add: address_width_def)
  {
    assume "cidr_key (mask_address a pl) pl \<in> cidr_keys ps"
    then obtain p where p: "p \<in> set ps" "pattern_record_key p = Inr (Inr (cidr_key (mask_address a pl) pl))"
      by (auto simp: cidr_keys_def)
    have "\<exists>k. combined_pattern p = Inr (Inr k)"
    proof (cases "combined_pattern p")
      case (Inl e)
      then show ?thesis using assms(1) p(1) by (auto simp: host_pattern_ok_def)
    next
      case (Inr k)
      with p assms(1) domain_pattern_key [of p] show ?thesis
        by (cases k) (auto simp: host_pattern_ok_def)
    qed
    then obtain k where k: "combined_pattern p = Inr (Inr k)" ..
    obtain b pl' where b: "pl' \<le> address_width b" "k = (is_ipv4 b, take pl' (address_bits b))"
      "pattern_record_key p = Inr (Inr (cidr_key (mask_address b pl') pl'))"
      using cidr_pattern_record [OF k] assms(1) p(1) by blast
    have "cidr_key (mask_address a pl) pl = cidr_key (mask_address b pl') pl'" "pl < 256" "pl' < 256"
      using p(2) b(1,3) assms(2) w [of a] w [of b] by simp_all
    then have eq: "mask_address a pl = mask_address b pl" "pl' = pl"
      using cidr_key_inj by blast+
    then have "is_ipv4 a = is_ipv4 b"
      by (metis is_ipv4_mask)
    with eq mask_address_eq_iff [OF this assms(2)] b(2) p(1) k show "Inr (is_ipv4 a, take pl (address_bits a)) \<in> host_keys ps"
      by (auto simp: host_keys_def)
  }
  assume "Inr (is_ipv4 a, take pl (address_bits a)) \<in> host_keys ps"
  then obtain p where p: "p \<in> set ps" "combined_pattern p = Inr (Inr (is_ipv4 a, take pl (address_bits a)))"
    by (auto simp: host_keys_def)
  obtain b pl' where b: "pl' \<le> address_width b" "is_ipv4 a = is_ipv4 b" "take pl (address_bits a) = take pl' (address_bits b)"
    "pattern_record_key p = Inr (Inr (cidr_key (mask_address b pl') pl'))"
    using cidr_pattern_record [OF p(2)] assms(1) p(1) by auto
  have "pl' = pl"
    using arg_cong [OF b(3), of length] b(1) assms(2) by simp
  then have "mask_address a pl = mask_address b pl'"
    using mask_address_eq_iff [OF b(2) assms(2)] b(3) by simp
  with b(4) p(1) \<open>pl' = pl\<close> show "cidr_key (mask_address a pl) pl \<in> cidr_keys ps"
    by (auto simp: cidr_keys_def)
qed

subsection \<open>Names on disk\<close>

lemma path_key_snoc: "append_label (path_key ls) l = path_key (ls @ [l])" if "list_all (\<lambda>l. l \<noteq> []) ls"
proof (cases "ls = []")
  case True
  then show ?thesis by (simp add: append_label_def path_key_def)
next
  case False
  then have "last ls \<noteq> []"
    using that by (simp add: list_all_iff)
  then have "path_key ls \<noteq> []"
    using False join_with_not_Nil by (metis as_bytes_inj as_bytes_Nil path_key_def)
  then show ?thesis
    using False by (simp add: append_label_def path_key_def join_with_snoc as_bytes_def)
qed

lemma path_key_inj:
  assumes "ls \<noteq> []" "ms \<noteq> []" "list_all clean_label ls" "list_all clean_label ms"
  shows "path_key ls = path_key ms \<longleftrightarrow> ls = ms"
  using assms clean_label_facts(2) join_with_inj [of ls ms "CHR ''.''"]
  by (auto simp: path_key_def list_all_iff)

lemma clean_star [simp]: "clean_label ''*''"
  by (simp add: clean_label_def)

lemma clean_not_Nil: "list_all clean_label ls \<Longrightarrow> list_all (\<lambda>l. l \<noteq> []) ls"
  by (auto simp: list_all_iff dest: clean_label_facts(1))

lemma domain_keys_iff:
  assumes "\<forall>p \<in> set ps. host_pattern_ok p" "ls \<noteq> []" "list_all clean_label ls"
  shows "path_key ls \<in> domain_keys ps \<longleftrightarrow> Inl ls \<in> host_keys ps"
proof
  assume "path_key ls \<in> domain_keys ps"
  then obtain p where p: "p \<in> set ps" "pattern_record_key p = Inr (Inl (path_key ls))"
    by (auto simp: domain_keys_def)
  have ok: "host_pattern_ok p"
    using assms(1) p(1) by blast
  show "Inl ls \<in> host_keys ps"
  proof (cases "combined_pattern p")
    case (Inl e)
    with ok show ?thesis by (simp add: host_pattern_ok_def)
  next
    case (Inr k)
    then obtain ms where ms: "k = Inl ms"
      using p(2) cidr_pattern_record [OF _ ok] by (cases k) auto
    then have clean: "list_all clean_label ms"
      using ok Inr by (simp add: host_pattern_ok_def)
    from domain_pattern_key [OF _ this] Inr ms p(2) have "path_key ms = path_key ls" "ms \<noteq> []"
      by auto
    then have "ms = ls"
      using path_key_inj [OF _ assms(2) clean assms(3)] by simp
    with Inr ms p(1) show ?thesis
      by (auto simp: host_keys_def)
  qed
next
  assume "Inl ls \<in> host_keys ps"
  then obtain p where "p \<in> set ps" "combined_pattern p = Inr (Inl ls)"
    by (auto simp: host_keys_def)
  with domain_pattern_key assms(3) show "path_key ls \<in> domain_keys ps"
    by (auto simp: domain_keys_def)
qed

text \<open>Every stored domain key is the path of clean labels.\<close>

lemma domain_keys_clean:
  assumes "\<forall>p \<in> set ps. host_pattern_ok p" "k \<in> domain_keys ps"
  shows "\<exists>ls. k = path_key ls \<and> ls \<noteq> [] \<and> list_all clean_label ls \<and> Inl ls \<in> host_keys ps"
proof -
  obtain p where p: "p \<in> set ps" "pattern_record_key p = Inr (Inl k)"
    using assms(2) by (auto simp: domain_keys_def)
  have ok: "host_pattern_ok p"
    using assms(1) p(1) by blast
  obtain c where c: "combined_pattern p = Inr c"
    using ok by (auto simp: host_pattern_ok_def split: sum.splits)
  then obtain ls where ls: "c = Inl ls"
    using p(2) cidr_pattern_record [OF _ ok] by (cases c) auto
  then have clean: "list_all clean_label ls"
    using ok c by (simp add: host_pattern_ok_def)
  with domain_pattern_key [of p ls] c ls p show ?thesis
    by (auto simp: host_keys_def)
qed

definition covered_by :: "string list \<Rightarrow> string list \<Rightarrow> bool" where
  "covered_by ps labels \<longleftrightarrow> (\<exists>q. Inl q \<in> host_keys ps \<and> pattern_covers q labels)"

lemma matches_domain_node_sound:
  assumes "table_keys t K" "set K = domain_keys ps" "\<forall>p \<in> set ps. host_pattern_ok p"
    and "list_all clean_label path" "list_all clean_label labels" "path \<noteq> [] \<or> labels \<noteq> []"
    and "matches_domain_node t labels (path_key path)"
  shows "\<exists>q. pattern_covers q labels \<and> Inl (path @ q) \<in> host_keys ps"
  using assms(4-7)
proof (induction labels arbitrary: path)
  case Nil
  have star: "list_all clean_label (path @ [''*''])"
    using Nil.prems(1) by simp
  note in_keys = domain_keys_iff [OF assms(3) _ Nil.prems(1)] domain_keys_iff [OF assms(3) _ star]
  from Nil.prems(4) consider "table_contains t (path_key path)" | "table_contains t (path_key (path @ [''*'']))"
    using path_key_snoc [OF clean_not_Nil [OF Nil.prems(1)]] by auto
  then show ?case
    using in_keys Nil.prems(3) assms(2) table_contains_iff [OF assms(1)]
    by cases (auto simp: pattern_covers_Nil_iff)
next
  case (Cons l labels)
  note snoc = path_key_snoc [OF clean_not_Nil [OF Cons.prems(1)]]
  have clean: "list_all clean_label (path @ [l])" "list_all clean_label (path @ [''*''])" "list_all clean_label labels"
    using Cons.prems(1,2) by simp_all
  from Cons.prems(4) consider (exact) "matches_domain_node t labels (path_key (path @ [l]))"
    | (ends) "table_contains t (path_key (path @ [''*'']))"
    | (star) "matches_domain_node t labels (path_key (path @ [''*'']))"
    by (auto simp: snoc Let_def)
  then show ?case
  proof cases
    case exact
    from Cons.IH [OF clean(1,3) _ this] obtain q where "pattern_covers q labels" "Inl ((path @ [l]) @ q) \<in> host_keys ps"
      by auto
    then show ?thesis
      by (intro exI [of _ "l # q"]) (simp add: pattern_covers_Cons)
  next
    case ends
    then have "Inl (path @ [''*'']) \<in> host_keys ps"
      using domain_keys_iff [OF assms(3) _ clean(2)] assms(2) table_contains_iff [OF assms(1)] by simp
    then show ?thesis
      by (intro exI [of _ "[''*'']"]) simp
  next
    case star
    from Cons.IH [OF clean(2,3) _ this] obtain q where "pattern_covers q labels" "Inl ((path @ [''*'']) @ q) \<in> host_keys ps"
      by auto
    then show ?thesis
      by (intro exI [of _ "''*'' # q"]) (simp add: pattern_covers_Cons)
  qed
qed

lemma valid_labels_clean: "valid_domain d \<Longrightarrow> list_all clean_label (rev (domain_labels d))"
  by (auto simp: valid_domain_def clean_label_def list_all_iff)

lemma matches_domain_path_sound:
  assumes "table_keys t K" "set K = domain_keys ps" "\<forall>p \<in> set ps. host_pattern_ok p"
    and "list_all clean_label labels" "labels \<noteq> []" "matches_domain_path t labels"
  shows "covered_by ps labels"
  using matches_domain_node_sound [OF assms(1-3), of "[]" labels] assms(4-6)
  by (auto simp: matches_domain_path_def covered_by_def path_key_def)

subsection \<open>When the prefix test is exact\<close>

text \<open>
  The test \<open>has_prefix\<close> looks at one record only, the first one not below the prefix. That is
  enough when no label holds a byte that sorts before the dot.
\<close>

definition high_label :: "string \<Rightarrow> bool" where
  "high_label l \<longleftrightarrow> l = ''*'' \<or> (\<forall>c \<in> set l. 46 < code c)"

lemma split_on_append:
  "split_on c (s @ t) = butlast (split_on c s) @ (last (split_on c s) @ hd (split_on c t)) # tl (split_on c t)"
proof (induction s)
  case (Cons x s)
  show ?case
  proof (cases "x = c")
    case False
    obtain z zs where zs: "split_on c s = z # zs"
      using split_on_not_Nil by (meson list.exhaust)
    then show ?thesis
      using Cons False by (cases zs) auto
  qed (use Cons in simp)
qed simp

lemma lex_sandwich:
  fixes pre f :: "'a :: linorder list"
  shows "pre \<le> f \<Longrightarrow> f \<le> pre @ s \<Longrightarrow> \<exists>u. f = pre @ u \<and> u \<le> s"
proof (induction pre arbitrary: f)
  case (Cons a pre)
  then obtain b g where f: "f = b # g"
    by (cases f) auto
  with Cons.prems have "b = a" "pre \<le> g" "g \<le> pre @ s"
    by auto
  with Cons.IH f show ?case by auto
qed simp

lemma lex_prefix_le: "(xs :: 'a :: linorder list) \<le> xs @ ys"
  by (induction xs) auto

lemma lex_append_less [simp]: "(xs @ ys < xs @ zs) \<longleftrightarrow> (ys :: 'a :: linorder list) < zs"
  by (induction xs) auto

lemma lex_less_cases:
  fixes xs ys :: "'a :: linorder list"
  shows "xs < ys \<Longrightarrow> (\<exists>b s. ys = xs @ b # s) \<or> (\<exists>p a b s s'. xs = p @ a # s \<and> ys = p @ b # s' \<and> a < b)"
proof (induction xs arbitrary: ys)
  case Nil
  then show ?case by (cases ys) auto
next
  case (Cons x xs)
  then obtain y zs where ys: "ys = y # zs"
    by (cases ys) auto
  show ?case
  proof (cases "x < y")
    case True
    then show ?thesis
      using ys by (metis append_Nil)
  next
    case False
    then have "x = y" "xs < zs"
      using Cons.prems ys by auto
    with Cons.IH [OF this(2)] ys show ?thesis
      by (metis append_Cons)
  qed
qed

lemma as_bytes_Cons: "as_bytes (c # s) = of_nat (code c) # as_bytes s"
  by (simp add: as_bytes_def)

lemma byte_less_dot: "(of_nat (code c) :: byte) < dot_byte \<longleftrightarrow> code c < 46"
  by (simp add: dot_byte_def word_less_nat_alt unat_of_nat)

lemma byte_eq_dot: "(of_nat (code c) :: byte) = dot_byte \<longleftrightarrow> c = CHR ''.''"
proof -
  have dot: "as_bytes [CHR ''.''] = [dot_byte]"
    by (simp add: as_bytes_def dot_byte_def)
  have "(of_nat (code c) :: byte) = dot_byte \<longleftrightarrow> as_bytes [c] = as_bytes [CHR ''.'']"
    unfolding dot by (simp add: as_bytes_def)
  then show ?thesis
    by (simp only: as_bytes_inj list.inject) simp
qed

text \<open>A stored key that goes on after the path \<open>P\<close> goes on with a dot or inside a label.\<close>

lemma path_key_extend:
  assumes "path_key L = path_key P @ b # s" "b < dot_byte"
    and "P \<noteq> []" "list_all clean_label P" "L \<noteq> []" "list_all clean_label L" "list_all high_label L"
  shows False
proof -
  obtain c w where bs: "b = of_nat (code c)" "join_with CHR ''.'' L = join_with CHR ''.'' P @ c # w"
  proof -
    have "from_bytes (path_key L) = from_bytes (path_key P @ b # s)"
      using assms(1) by simp
    then have "join_with CHR ''.'' L = join_with CHR ''.'' P @ char_of (unat b) # from_bytes s"
      by (simp add: path_key_def from_bytes_def as_bytes_def comp_def unat_of_nat)
    moreover have "b = of_nat (code (char_of (unat b)))"
      by (simp add: of_char_of)
    ultimately show thesis
      using that by blast
  qed
  have c: "code c < 46" "c \<noteq> CHR ''.''"
    using assms(2) byte_less_dot [of c] byte_eq_dot [of c] bs(1) by auto
  have split: "split_on CHR ''.'' (join_with CHR ''.'' ls) = ls" if "ls \<noteq> []" "list_all clean_label ls" for ls
    using that clean_label_facts(2) by (intro split_join) (auto simp: list_all_iff)
  have "L = split_on CHR ''.'' (join_with CHR ''.'' P @ c # w)"
    using split [OF assms(5,6)] bs(2) by simp
  also have "\<dots> = butlast P @ (last P @ hd (split_on CHR ''.'' (c # w))) # tl (split_on CHR ''.'' (c # w))"
    by (simp add: split_on_append split [OF assms(3,4)])
  finally have mem: "last P @ hd (split_on CHR ''.'' (c # w)) \<in> set L"
    by (metis in_set_conv_decomp)
  obtain u where u: "hd (split_on CHR ''.'' (c # w)) = c # u"
    using c(2) by (cases "split_on CHR ''.'' w") auto
  have "last P \<noteq> []"
    using assms(3,4) clean_label_facts(1) by (simp add: list_all_iff)
  then have "last P @ c # u \<noteq> ''*''"
    by (cases "last P") auto
  moreover have "high_label (last P @ c # u)"
    using mem u assms(7) by (simp add: list_all_iff)
  ultimately have "46 < code c"
    by (auto simp: high_label_def)
  with c(1) show False by simp
qed

definition high_keys :: "byte list list \<Rightarrow> bool" where
  "high_keys K \<longleftrightarrow> (\<forall>k \<in> set K. \<exists>L. k = path_key L \<and> L \<noteq> [] \<and> list_all clean_label L \<and> list_all high_label L)"

lemma has_prefix_dotted:
  assumes "table_keys t K" "tb_kind t = 1" "high_keys K" "dot_byte \<in> set (path_key P)"
    and "P \<noteq> []" "list_all clean_label P" "path_key P @ s \<in> set K" "s = [] \<or> hd s = dot_byte"
  shows "has_prefix t (path_key P)"
proof -
  let ?pre = "path_key P"
  have srt: "sorted_wrt (<) K" and cnt: "tb_count t = length K"
    using assms(1) by (simp_all add: table_keys_def)
  obtain m where m: "lower_bound t ?pre 0 (length K) = Some m" "m \<le> length K"
    "\<forall>i. i < m \<longrightarrow> K ! i < ?pre" "\<forall>i. m \<le> i \<and> i < length K \<longrightarrow> ?pre \<le> K ! i"
    using lower_bound_ok [OF assms(1,2) order_refl, of 0 ?pre] by auto
  obtain j where j: "j < length K" "K ! j = ?pre @ s"
    using assms(7) by (auto simp: in_set_conv_nth)
  have "\<not> j < m"
    using m(3) j(2) lex_prefix_le [of ?pre s] by (metis leD)
  then have mj: "m \<le> j" "m < length K"
    using j(1) by auto
  have "K ! m \<le> ?pre @ s"
    using sorted_wrt_less_nth_iff [OF srt j(1) mj(2)] mj(1) j(2) by (metis leI not_less)
  then obtain u where u: "K ! m = ?pre @ u" "u \<le> s"
    using lex_sandwich m(4) mj(2) by blast
  have ok: "u = [] \<or> hd u = dot_byte"
  proof (rule ccontr)
    assume "\<not> ?thesis"
    then obtain b v where bv: "u = b # v" "b \<noteq> dot_byte"
      by (cases u) auto
    then have "b < dot_byte"
      using u(2) assms(8) by (cases s) auto
    moreover have "K ! m \<in> set K"
      using mj(2) by simp
    ultimately show False
      using assms(3,5,6) path_key_extend [of _ P b v] u(1) bv(1) unfolding high_keys_def by metis
  qed
  obtain rec where r: "table_record t m = Some rec" "domain_record_key rec = K ! m"
    using assms(1,2) mj(2) by (auto simp: table_keys_def key_in_def)
  have "length (K ! m) = length ?pre \<or> nth_opt (K ! m) (length ?pre) = Some dot_byte"
    using ok u(1) by (cases u) (auto simp: nth_opt_def)
  then show ?thesis
    using assms(2,4) m(1) r u(1) cnt by (simp add: has_prefix_def)
qed

lemma root_of_decomp: "\<exists>u. k = root_of k @ u \<and> (u = [] \<or> hd u = dot_byte)"
proof (intro exI conjI)
  show "k = root_of k @ dropWhile (\<lambda>b. b \<noteq> dot_byte) k"
    by (simp add: root_of_def)
  show "dropWhile (\<lambda>b. b \<noteq> dot_byte) k = [] \<or> hd (dropWhile (\<lambda>b. b \<noteq> dot_byte) k) = dot_byte"
    by (induction k) auto
qed

lemma dot_notin_label: "clean_label l \<Longrightarrow> dot_byte \<notin> set (as_bytes l)"
proof -
  assume "clean_label l"
  then have "\<forall>c \<in> set l. (of_nat (code c) :: byte) \<noteq> dot_byte"
    using clean_label_facts(2) by (simp add: byte_eq_dot)
  then show ?thesis
    by (auto simp: as_bytes_def)
qed

lemma root_of_path_key:
  assumes "L \<noteq> []" "list_all clean_label L"
  shows "root_of (path_key L) = path_key [hd L]"
proof -
  obtain l ls where L: "L = l # ls"
    using assms(1) by (cases L) auto
  have nodot: "\<forall>b \<in> set (as_bytes l). b \<noteq> dot_byte"
    using assms(2) L dot_notin_label by auto
  have dot: "of_nat (code CHR ''.'') = dot_byte"
    by (simp add: dot_byte_def)
  show ?thesis
  proof (cases ls)
    case Nil
    with L nodot show ?thesis
      by (simp add: root_of_def path_key_def takeWhile_eq_all_conv)
  next
    case (Cons m ms)
    then have "path_key L = as_bytes l @ dot_byte # path_key ls"
      using L dot by (simp add: path_key_def as_bytes_Cons)
    with L nodot show ?thesis
      by (simp add: root_of_def path_key_def takeWhile_append2)
  qed
qed

lemma root_of_mono:
  assumes "high_keys K" "k1 \<in> set K" "k2 \<in> set K" "k1 \<le> k2"
  shows "root_of k1 \<le> root_of k2"
proof (rule ccontr)
  assume "\<not> ?thesis"
  then have lt: "root_of k2 < root_of k1" by simp
  obtain u1 u2 where u: "k1 = root_of k1 @ u1" "k2 = root_of k2 @ u2" "u2 = [] \<or> hd u2 = dot_byte"
    using root_of_decomp by metis
  obtain L1 L2 where L: "k1 = path_key L1" "L1 \<noteq> []" "list_all clean_label L1" "list_all high_label L1"
    "k2 = path_key L2" "L2 \<noteq> []" "list_all clean_label L2"
    using assms(1-3) unfolding high_keys_def by metis
  from lex_less_cases [OF lt] show False
  proof
    assume "\<exists>b s. root_of k1 = root_of k2 @ b # s"
    then obtain b s where b: "root_of k1 = root_of k2 @ b # s" by blast
    then have "path_key L1 = path_key [hd L2] @ b # (s @ u1)"
      using u(1) L(1) root_of_path_key [OF L(6,7)] L(5) by simp
    then have "\<not> b < dot_byte"
      using path_key_extend [of L1 "[hd L2]" b "s @ u1"] L by (auto simp: list_all_iff)
    moreover have "b \<noteq> dot_byte"
    proof -
      have "b \<in> set (root_of k1)"
        using b by simp
      then show ?thesis
        by (auto simp: root_of_def dest: set_takeWhileD)
    qed
    ultimately have "dot_byte < b" by simp
    then have "u2 < b # s @ u1"
      using u(3) by (cases u2) auto
    then have "k2 < k1"
      using u(1,2) b by (metis append_assoc append_Cons lex_append_less)
    with assms(4) show False by simp
  next
    assume "\<exists>p a b s s'. root_of k2 = p @ a # s \<and> root_of k1 = p @ b # s' \<and> a < b"
    then obtain p a b s s' where d: "root_of k2 = p @ a # s" "root_of k1 = p @ b # s'" "a < b"
      by blast
    then have "k2 = p @ a # (s @ u2)" "k1 = p @ b # (s' @ u1)"
      using u(1,2) by (metis append_assoc append_Cons)+
    with d(3) have "k2 < k1" by simp
    with assms(4) show False by simp
  qed
qed

lemma sorted_adjacent_roots:
  "sorted_wrt (<) K \<Longrightarrow> (\<And>k1 k2. k1 \<in> set K \<Longrightarrow> k2 \<in> set K \<Longrightarrow> k1 \<le> k2 \<Longrightarrow> root_of k1 \<le> root_of k2) \<Longrightarrow>
   sorted (adjacent_roots q K)"
proof (induction q K rule: adjacent_roots.induct)
  case (2 q k K)
  have srt: "sorted_wrt (<) K" and mono: "\<And>k1 k2. k1 \<in> set K \<Longrightarrow> k2 \<in> set K \<Longrightarrow> k1 \<le> k2 \<Longrightarrow> root_of k1 \<le> root_of k2"
    using "2.prems" by auto
  have "root_of k \<le> r" if r: "r \<in> set (adjacent_roots (root_of k) K)" for r
  proof -
    obtain k' where k': "k' \<in> set K" "r = root_of k'"
      using adjacent_roots_mem [OF r] by blast
    then have "k \<le> k'"
      using "2.prems"(1) by (auto intro: less_imp_le)
    with "2.prems"(2) k' show ?thesis by simp
  qed
  then show ?case
    using "2.IH"(1) [OF _ srt mono] "2.IH"(2) [OF _ srt mono] by auto
qed simp

lemma has_prefix_root:
  assumes "table_keys t K" "tb_kind t = 1" "tb_root_labels t = adjacent_roots [] K" "high_keys K"
    and "clean_label l" "path_key [l] @ s \<in> set K" "s = [] \<or> hd s = dot_byte"
  shows "has_prefix t (path_key [l])"
proof -
  let ?R = "adjacent_roots [] K"
  have nodot: "dot_byte \<notin> set (path_key [l])"
    using dot_notin_label [OF assms(5)] by (simp add: path_key_def)
  then have "takeWhile (\<lambda>b. b \<noteq> dot_byte) (path_key [l] @ s) = path_key [l] @ takeWhile (\<lambda>b. b \<noteq> dot_byte) s"
    by (intro takeWhile_append2) auto
  then have "root_of (path_key [l] @ s) = path_key [l]"
    using assms(7) by (cases s) (auto simp: root_of_def)
  then have "path_key [l] \<in> insert [] (set ?R)"
    using adjacent_roots_set [of "[]" K] assms(6) by (metis image_eqI subsetD)
  moreover have "path_key [l] \<noteq> []"
    using clean_label_facts(1) [OF assms(5)] by (metis as_bytes_Nil as_bytes_inj join_with.simps(2) path_key_def)
  ultimately obtain i where i: "i < length ?R" "?R ! i = path_key [l]"
    by (auto simp: in_set_conv_nth)
  have "sorted ?R"
    using assms(1) root_of_mono [OF assms(4)] by (intro sorted_adjacent_roots) (auto simp: table_keys_def)
  then have "binary_search ?R (path_key [l]) 0 (length ?R)"
    using binary_search_complete [of ?R "length ?R" 0 i] i by simp
  then show ?thesis
    using assms(2,3) nodot by (simp add: has_prefix_def)
qed

text \<open>With high labels the test finds every path that some stored pattern runs through.\<close>

lemma has_prefix_complete:
  assumes "table_keys t K" "tb_kind t = 1" "tb_root_labels t = adjacent_roots [] K" "high_keys K"
    and "list_all clean_label (P @ Q)" "P \<noteq> []" "path_key (P @ Q) \<in> set K"
  shows "has_prefix t (path_key P)"
proof -
  have dot: "of_nat (code CHR ''.'') = dot_byte"
    by (simp add: dot_byte_def)
  have ext: "path_key (P @ Q) = path_key P @ (if Q = [] then [] else dot_byte # path_key Q)"
    using assms(6) dot
  proof (induction P)
    case (Cons l P)
    then show ?case
      by (cases P; cases Q) (auto simp: path_key_def as_bytes_Cons)
  qed simp
  let ?s = "if Q = [] then [] else dot_byte # path_key Q"
  have mem: "path_key P @ ?s \<in> set K" and shape: "?s = [] \<or> hd ?s = dot_byte"
    using assms(7) ext by auto
  have clean: "list_all clean_label P"
    using assms(5) by simp
  show ?thesis
  proof (cases "dot_byte \<in> set (path_key P)")
    case True
    then show ?thesis
      using has_prefix_dotted [OF assms(1,2,4) _ assms(6) clean mem shape] by simp
  next
    case False
    obtain l ls where P: "P = l # ls"
      using assms(6) by (cases P) auto
    have "ls = []"
      using False P dot by (cases ls) (auto simp: path_key_def as_bytes_Cons)
    then show ?thesis
      using has_prefix_root [OF assms(1-4), of l ?s] P clean mem shape by simp
  qed
qed

lemma host_keys_clean:
  assumes "\<forall>p \<in> set ps. host_pattern_ok p" "Inl ls \<in> host_keys ps"
  shows "ls \<noteq> [] \<and> list_all clean_label ls"
  using assms domain_pattern_key by (fastforce simp: host_keys_def host_pattern_ok_def)

lemma matches_domain_node_complete:
  assumes "table_keys t K" "tb_kind t = 1" "tb_root_labels t = adjacent_roots [] K" "high_keys K"
    and "set K = domain_keys ps" "\<forall>p \<in> set ps. host_pattern_ok p"
    and "list_all clean_label path" "pattern_covers q labels" "Inl (path @ q) \<in> host_keys ps"
  shows "matches_domain_node t labels (path_key path)"
  using assms(7-9)
proof (induction labels arbitrary: path q)
  case Nil
  have "table_contains t (path_key (path @ q))"
    using host_keys_clean [OF assms(6) Nil.prems(3)] domain_keys_iff [OF assms(6)] Nil.prems(3)
      table_contains_iff [OF assms(1)] assms(5) by simp
  moreover have "q = [] \<or> q = [''*'']"
    using Nil.prems(2) by (simp add: pattern_covers_Nil_iff)
  ultimately show ?case
    using path_key_snoc [OF clean_not_Nil [OF Nil.prems(1)]] by auto
next
  case (Cons l labels)
  note snoc = path_key_snoc [OF clean_not_Nil [OF Cons.prems(1)]]
  have clean: "list_all clean_label (path @ q)" and stored: "path_key (path @ q) \<in> set K"
    using host_keys_clean [OF assms(6) Cons.prems(3)] domain_keys_iff [OF assms(6)] Cons.prems(3) assms(5)
    by simp_all
  have pre: "has_prefix t (path_key (path @ [x]))" if "q = x # q'" for x q'
    using has_prefix_complete [OF assms(1-4), of "path @ [x]" q'] clean stored that by simp
  have IH: "matches_domain_node t labels (path_key (path @ [x]))" if "q = x # q'" "pattern_covers q' labels" for x q'
    using Cons.IH [of "path @ [x]" q'] clean Cons.prems(3) that by simp
  from Cons.prems(2) consider (ends) "q = [''*'']" | (exact) q' where "q = l # q'" "pattern_covers q' labels"
    | (star) q' where "q = ''*'' # q'" "pattern_covers q' labels"
    by (auto simp: pattern_covers_Cons)
  then show ?case
  proof cases
    case ends
    then have "table_contains t (path_key (path @ [''*'']))"
      using stored table_contains_iff [OF assms(1)] by simp
    with pre [OF ends] show ?thesis
      by (simp add: snoc Let_def)
  next
    case exact
    with pre [OF exact(1)] IH [OF exact] show ?thesis
      by (simp add: snoc Let_def)
  next
    case star
    with pre [OF star(1)] IH [OF star] show ?thesis
      by (simp add: snoc Let_def)
  qed
qed

lemma matches_domain_path_complete:
  assumes "table_keys t K" "tb_kind t = 1" "tb_root_labels t = adjacent_roots [] K" "high_keys K"
    and "set K = domain_keys ps" "\<forall>p \<in> set ps. host_pattern_ok p" "covered_by ps labels"
  shows "matches_domain_path t labels"
  using matches_domain_node_complete [OF assms(1-6), of "[]" _ labels] assms(7)
  by (auto simp: covered_by_def matches_domain_path_def path_key_def)

text \<open>The quick rejection by the top label never rejects a covered name.\<close>

lemma root_test_complete:
  assumes "table_keys t K" "tb_kind t = 1" "tb_root_labels t = adjacent_roots [] K" "high_keys K"
    and "set K = domain_keys ps" "\<forall>p \<in> set ps. host_pattern_ok p" "covered_by ps labels" "labels \<noteq> []"
  shows "has_prefix t (as_bytes (hd labels)) \<or> has_prefix t (as_bytes ''*'')"
proof -
  obtain q where q: "Inl q \<in> host_keys ps" "pattern_covers q labels"
    using assms(7) by (auto simp: covered_by_def)
  obtain l ls where l: "labels = l # ls"
    using assms(8) by (cases labels) auto
  then obtain x q' where x: "q = [x] @ q'" "x = l \<or> x = ''*''"
    using q(2) by (auto simp: pattern_covers_Cons)
  have "list_all clean_label ([x] @ q')" "path_key ([x] @ q') \<in> set K"
    using host_keys_clean [OF assms(6) q(1)] domain_keys_iff [OF assms(6)] q(1) assms(5) x(1) by simp_all
  from has_prefix_complete [OF assms(1-4) this(1) _ this(2)] show ?thesis
    using x(2) l by (auto simp: path_key_def)
qed

subsection \<open>Membership\<close>

text \<open>
  What the index is meant to answer: a network of the list contains the address, or a pattern
  of the list covers the name or, for a parent search, some parent of it.
\<close>

definition host_member :: "string list \<Rightarrow> bool \<Rightarrow> endpoint \<Rightarrow> bool" where
  "host_member ps parent e =
     (case e of
        EIp _ addr \<Rightarrow>
          (let a = sock_ip addr
           in \<exists>pl \<le> address_width a. Inr (is_ipv4 a, take pl (address_bits a)) \<in> host_keys ps)
      | EDomain _ host _ \<Rightarrow>
          (let labels = rev (domain_labels host)
           in if parent then \<exists>n. 1 \<le> n \<and> n \<le> length labels \<and> covered_by ps (take n labels)
              else covered_by ps labels))"

definition host_patterns_ok :: "string list \<Rightarrow> bool" where
  "host_patterns_ok ps \<longleftrightarrow> list_all host_pattern_ok ps \<and> length ps < 2 ^ 48
     \<and> 1 + (\<Sum>p\<leftarrow>ps. cb_weight (projr (combined_pattern p))) \<le> 2 ^ 32"

definition memory_host_trie :: "string list \<Rightarrow> (host_trie, unit) outcome" where
  "memory_host_trie ps =
     (case insert_all combined_trie_insert combined_trie_new (map (\<lambda>p. (p, ())) ps) of
        None \<Rightarrow> None | Some (m, r) \<Rightarrow> Some (Memory m, r))"

lemma memory_host_trie_ok:
  assumes "host_patterns_ok ps"
  shows "\<exists>m. memory_host_trie ps = Some (Memory m, Inr ()) \<and> cb_wf m \<and> (\<forall>k. cb_abs m k \<noteq> None \<longleftrightarrow> k \<in> host_keys ps)"
proof -
  let ?rules = "map (\<lambda>p. (p, ())) ps"
  have ok: "is_ok (combined_pattern p)" if "p \<in> set ps" for p
  proof -
    have "host_pattern_ok p"
      using assms that by (simp add: host_patterns_ok_def list_all_iff)
    then show ?thesis
      by (cases "combined_pattern p") (simp_all add: host_pattern_ok_def)
  qed
  have "patterns_ok ?rules"
    using assms ok by (simp add: patterns_ok_def host_patterns_ok_def list_all_iff comp_def)
  from combined_insert_all [OF this] obtain m where
    m: "insert_all combined_trie_insert combined_trie_new ?rules = Some (m, Inr ())" "cb_wf m"
    "cb_abs m = last_wins (combined_keyed ?rules)"
    by blast
  have "cb_abs m k \<noteq> None \<longleftrightarrow> k \<in> host_keys ps" for k
    using ok unfolding m(3) last_wins_None_iff
    by (force simp: host_keys_def image_iff is_ok_def split: sum.splits)
  with m(1,2) show ?thesis
    by (intro exI [of _ m]) (simp add: memory_host_trie_def)
qed

lemma memory_lookup:
  assumes "\<forall>k. m k \<noteq> None \<longleftrightarrow> k \<in> host_keys ps"
  shows "combined_lookup m e \<noteq> None \<longleftrightarrow> host_member ps False e"
proof (cases e)
  case (EIp n a)
  then show ?thesis
    using assms by (auto simp: combined_lookup_def host_member_def lpm_None_iff Let_def)
next
  case (EDomain n h p)
  then show ?thesis
    using assms unfolding combined_lookup_def host_member_def covered_by_def
    by (simp add: pattern_lookup_None_iff Let_def) metis
qed

lemma memory_search:
  assumes "cb_wf m" "\<forall>k. cb_abs m k \<noteq> None \<longleftrightarrow> k \<in> host_keys ps" "valid_endpoint e"
  shows "host_trie_search (Memory m) e = Some (host_member ps False e)"
  using combined_search_lookup [OF assms(1,3)] memory_lookup [OF assms(2)] by simp

lemma find_Some_mem: "find P xs = Some x \<Longrightarrow> x \<in> set xs"
  by (auto simp: find_Some_iff)

lemma find_Some_pred: "find P xs = Some x \<Longrightarrow> P x"
  by (auto simp: find_Some_iff)

lemma memory_search_parent:
  assumes "cb_wf m" "\<forall>k. cb_abs m k \<noteq> None \<longleftrightarrow> k \<in> host_keys ps" "valid_endpoint e"
  shows "host_trie_search_parent (Memory m) e = Some (host_member ps True e)"
proof (cases e)
  case (EIp n a)
  then show ?thesis
    using memory_search [OF assms] by (simp add: combined_trie_search_parent_def combined_trie_search_def host_member_def)
next
  case (EDomain n h p)
  let ?ls = "rev (domain_labels h)" and ?dt = "cb_domains m"
  let ?look = "\<lambda>k. pattern_lookup (dt_abs ?dt) (take k ?ls)"
  let ?find = "find (\<lambda>k. ?look k \<noteq> None) (rev [1..<Suc (length ?ls)])"
  have wf: "dt_wf ?dt"
    using assms(1) by (simp add: cb_wf_def)
  have keys: "dt_abs ?dt q \<noteq> None \<longleftrightarrow> Inl q \<in> host_keys ps" for q
    using spec [OF assms(2), of "Inl q"] by (simp add: cb_abs_def)
  have look: "?look k \<noteq> None \<longleftrightarrow> covered_by ps (take k ?ls)" for k
    using keys unfolding pattern_lookup_None_iff covered_by_def by blast
  have "search_parent_loop ?dt ?ls (length ?ls) = Some (case ?find of None \<Rightarrow> None | Some k \<Rightarrow> ?look k)"
    by (rule search_parent_loop_ok [OF wf order_refl])
  moreover have "(case ?find of None \<Rightarrow> None | Some k \<Rightarrow> ?look k) \<noteq> None \<longleftrightarrow>
      (\<exists>k. 1 \<le> k \<and> k \<le> length ?ls \<and> covered_by ps (take k ?ls))"
  proof (cases ?find)
    case None
    then have "\<not> (\<exists>k. k \<in> set (rev [1..<Suc (length ?ls)]) \<and> ?look k \<noteq> None)"
      by (simp only: find_None_iff) simp
    then have "\<not> (\<exists>k. 1 \<le> k \<and> k \<le> length ?ls \<and> covered_by ps (take k ?ls))"
      by (simp only: look) (auto simp del: upt_Suc)
    then show ?thesis
      unfolding None by simp
  next
    case (Some k)
    then have hit: "?look k \<noteq> None" and mem: "k \<in> set (rev [1..<Suc (length ?ls)])"
      by (rule find_Some_pred, rule find_Some_mem)
    have "1 \<le> k \<and> k \<le> length ?ls \<and> covered_by ps (take k ?ls)"
      using mem hit [unfolded look] by (auto simp del: upt_Suc)
    with hit show ?thesis
      unfolding Some option.case by blast
  qed
  ultimately show ?thesis
    using EDomain assms(3)
    by (auto simp: combined_trie_search_parent_def domain_trie_search_parent_def domain_name_new_of_valid
        ok_flatten_def host_member_def Let_def)
qed

lemma build_host_ok:
  assumes "host_patterns_ok ps"
  shows "\<exists>f Kd Kc. build_checked dir (map Inr ps) = Inr f
     \<and> table_keys (df_domains f) Kd \<and> set Kd = domain_keys ps \<and> tb_kind (df_domains f) = 1
     \<and> tb_root_labels (df_domains f) = adjacent_roots [] Kd
     \<and> table_keys (df_cidrs f) Kc \<and> set Kc = cidr_keys ps \<and> tb_kind (df_cidrs f) = 2"
proof (rule build_checked_ok)
  have each: "\<forall>p \<in> set ps. host_pattern_ok p"
    using assms by (simp add: host_patterns_ok_def list_all_iff)
  show "\<forall>p \<in> set ps. is_ok (pattern_record_key p)"
  proof
    fix p assume "p \<in> set ps"
    then have ok: "host_pattern_ok p"
      using each by blast
    then obtain k where k: "combined_pattern p = Inr k"
      by (auto simp: host_pattern_ok_def split: sum.splits)
    show "is_ok (pattern_record_key p)"
    proof (cases k)
      case (Inl ls)
      then show ?thesis
        using domain_pattern_key [of p ls] ok k by (simp add: host_pattern_ok_def)
    next
      case (Inr c)
      then show ?thesis
        using cidr_pattern_record [of p c] ok k by auto
    qed
  qed
  show "\<forall>k \<in> domain_keys ps. length (root_of k) \<le> ROOT_KEY_SIZE"
  proof
    fix k assume "k \<in> domain_keys ps"
    then obtain ls where ls: "k = path_key ls" "ls \<noteq> []" "list_all clean_label ls"
      using domain_keys_clean [OF each] by blast
    then have "clean_label (hd ls)"
      by (simp add: list_all_iff)
    then have "length (hd ls) \<le> 63"
      by (auto simp: clean_label_def valid_label_def)
    then show "length (root_of k) \<le> ROOT_KEY_SIZE"
      using root_of_path_key [OF ls(2,3)] ls(1) by (simp add: path_key_def disk_consts)
  qed
  show "length ps < 2 ^ 48"
    using assms by (simp add: host_patterns_ok_def)
qed

text \<open>The disk index answers for addresses exactly, and for names never yes wrongly.\<close>

lemma disk_matches_ip:
  assumes "table_keys t K" "set K = cidr_keys ps" "\<forall>p \<in> set ps. host_pattern_ok p"
  shows "matches_ip t a \<longleftrightarrow> (\<exists>pl \<le> address_width a. Inr (is_ipv4 a, take pl (address_bits a)) \<in> host_keys ps)"
  using cidr_keys_iff [OF assms(3), of _ a] table_contains_iff [OF assms(1)] assms(2)
  by (auto simp: matches_ip_def less_Suc_eq_le simp del: upt_Suc)

lemma disk_matches_name_sound:
  assumes "table_keys t K" "set K = domain_keys ps" "\<forall>p \<in> set ps. host_pattern_ok p"
    and "valid_domain h" "matches_domain_name t h parent"
  shows "host_member ps parent (EDomain n h p)"
proof -
  let ?ls = "rev (domain_labels h)"
  have clean: "list_all clean_label ?ls" and ne: "?ls \<noteq> []"
    using valid_labels_clean [OF assms(4)] by simp_all
  note sound = matches_domain_path_sound [OF assms(1-3)]
  show ?thesis
  proof (cases parent)
    case True
    then obtain k where k: "1 \<le> k" "k \<le> length ?ls" "matches_domain_path t (take k ?ls)"
      using assms(5) by (auto simp: matches_domain_name_def Let_def less_Suc_eq_le simp del: upt_Suc)
    have "list_all clean_label (take k ?ls)"
      using clean by (metis list_all_iff in_set_takeD)
    with sound [OF this _ k(3)] k ne show ?thesis
      using True by (auto simp: host_member_def Let_def)
  next
    case False
    then have "matches_domain_path t ?ls"
      using assms(5) by (auto simp: matches_domain_name_def Let_def split: if_splits)
    with sound [OF clean ne this] False show ?thesis
      by (simp add: host_member_def)
  qed
qed

lemma disk_matches_name_complete:
  assumes "table_keys t K" "tb_kind t = 1" "tb_root_labels t = adjacent_roots [] K" "high_keys K"
    and "set K = domain_keys ps" "\<forall>p \<in> set ps. host_pattern_ok p" "host_member ps parent (EDomain n h p)"
  shows "matches_domain_name t h parent"
proof -
  let ?ls = "rev (domain_labels h)"
  note complete = matches_domain_path_complete [OF assms(1-6)] and root = root_test_complete [OF assms(1-6)]
  show ?thesis
  proof (cases parent)
    case True
    with assms(7) complete show ?thesis
      by (fastforce simp: host_member_def matches_domain_name_def Let_def less_Suc_eq_le simp del: upt_Suc)
  next
    case False
    then have "covered_by ps ?ls"
      using assms(7) by (simp add: host_member_def)
    from complete [OF this] root [OF this] False show ?thesis
      by (auto simp: matches_domain_name_def Let_def)
  qed
qed

definition high_patterns :: "string list \<Rightarrow> bool" where
  "high_patterns ps \<longleftrightarrow>
     list_all (\<lambda>p. case combined_pattern p of Inr (Inl ls) \<Rightarrow> list_all high_label ls | _ \<Rightarrow> True) ps"

lemma high_patterns_keys:
  assumes "\<forall>p \<in> set ps. host_pattern_ok p" "high_patterns ps" "set K = domain_keys ps"
  shows "high_keys K"
  unfolding high_keys_def
proof
  fix k assume "k \<in> set K"
  then obtain ls where ls: "k = path_key ls" "ls \<noteq> []" "list_all clean_label ls" "Inl ls \<in> host_keys ps"
    using domain_keys_clean [OF assms(1)] assms(3) by blast
  then have "list_all high_label ls"
    using assms(2) by (fastforce simp: high_patterns_def host_keys_def list_all_iff)
  with ls show "\<exists>L. k = path_key L \<and> L \<noteq> [] \<and> list_all clean_label L \<and> list_all high_label L"
    by blast
qed

lemma disk_search:
  assumes "host_patterns_ok ps"
  shows "\<exists>f. from_patterns uid dir ps = Inr (Disk uid f)
     \<and> (\<forall>e parent. valid_endpoint e \<longrightarrow> files_matches f e parent \<longrightarrow> host_member ps parent e)
     \<and> (\<forall>n a parent. files_matches f (EIp n a) parent \<longleftrightarrow> host_member ps parent (EIp n a))
     \<and> (high_patterns ps \<longrightarrow> (\<forall>e parent. host_member ps parent e \<longrightarrow> files_matches f e parent))"
proof -
  have each: "\<forall>p \<in> set ps. host_pattern_ok p"
    using assms by (simp add: host_patterns_ok_def list_all_iff)
  obtain f Kd Kc where f: "build_checked dir (map Inr ps) = Inr f"
    "table_keys (df_domains f) Kd" "set Kd = domain_keys ps" "tb_kind (df_domains f) = 1"
    "tb_root_labels (df_domains f) = adjacent_roots [] Kd" "table_keys (df_cidrs f) Kc" "set Kc = cidr_keys ps"
    using build_host_ok [OF assms, of dir] by blast
  have ip: "files_matches f (EIp n a) parent \<longleftrightarrow> host_member ps parent (EIp n a)" for n a parent
    using disk_matches_ip [OF f(6,7) each] by (simp add: files_matches_def host_member_def Let_def)
  have sound: "host_member ps parent e" if "valid_endpoint e" "files_matches f e parent" for e parent
    using that ip disk_matches_name_sound [OF f(2,3) each]
    by (cases e) (auto simp: files_matches_def)
  have complete: "files_matches f e parent" if "high_patterns ps" "host_member ps parent e" for e parent
    using that ip disk_matches_name_complete [OF f(2,4,5) high_patterns_keys [OF each _ f(3)] f(3) each]
    by (cases e) (auto simp: files_matches_def)
  have "from_patterns uid dir ps = Inr (Disk uid f)"
    using f(1) by (simp add: from_patterns_def from_checked_def)
  with ip sound complete show ?thesis
    by blast
qed

subsection \<open>Properties\<close>





subsection \<open>Where the disk index misses\<close>

lemma has_prefix_first:
  assumes "table_keys t (k # K)" "tb_kind t = 1" "dot_byte \<in> set pre" "pre < k" "\<not> prefix pre k \<or> nth_opt k (length pre) \<noteq> Some dot_byte"
  shows "\<not> has_prefix t pre"
proof -
  obtain m where m: "lower_bound t pre 0 (length (k # K)) = Some m" "\<forall>i. i < m \<longrightarrow> (k # K) ! i < pre"
    using lower_bound_ok [OF assms(1,2) order_refl, of 0 pre] by auto
  have "m = 0"
  proof (rule ccontr)
    assume "m \<noteq> 0"
    then have "k < pre"
      using m(2) by fastforce
    with assms(4) show False by simp
  qed
  moreover obtain rec where "table_record t 0 = Some rec" "domain_record_key rec = k"
    using assms(1,2) by (force simp: table_keys_def key_in_def)
  moreover have "length k \<noteq> length pre \<or> \<not> prefix pre k"
    using assms(4) by (auto simp: prefix_def)
  moreover have "tb_count t = length (k # K)"
    using assms(1) by (simp add: table_keys_def)
  ultimately show ?thesis
    using assms(2,3,5) m(1) by (auto simp: has_prefix_def)
qed

lemma hyphen_hides_child:
  assumes "table_keys t [path_key [''com'', ''a-b''], path_key [''com'', ''a'', ''x'']]" "tb_kind t = 1"
    and "tb_root_labels t = adjacent_roots [] [path_key [''com'', ''a-b''], path_key [''com'', ''a'', ''x'']]"
  shows "\<not> matches_domain_path t [''com'', ''a'', ''x'']"
proof -
  let ?k = "path_key [''com'', ''a-b'']" and ?k2 = "path_key [''com'', ''a'', ''x'']"
  have no_root: "\<not> has_prefix t (path_key [''*''])"
  proof
    assume "has_prefix t (path_key [''*''])"
    moreover have "dot_byte \<notin> set (path_key [''*''])"
      by code_simp
    ultimately have "path_key [''*''] \<in> set (adjacent_roots [] [?k, ?k2])"
      using assms(2,3) binary_search_sound [OF order_refl] by (simp add: has_prefix_def)
    moreover have "path_key [''*''] \<notin> set (adjacent_roots [] [?k, ?k2])"
      by code_simp
    ultimately show False by simp
  qed
  have "\<not> has_prefix t (path_key [''com'', ''a''])"
  proof (rule has_prefix_first [OF assms(1,2)])
    show "dot_byte \<in> set (path_key [''com'', ''a''])"
      by code_simp
    show "path_key [''com'', ''a''] < ?k"
      by code_simp
    show "\<not> prefix (path_key [''com'', ''a'']) ?k \<or> nth_opt ?k (length (path_key [''com'', ''a''])) \<noteq> Some dot_byte"
      by code_simp
  qed
  moreover have "\<not> has_prefix t (path_key [''com'', ''*''])"
  proof (rule has_prefix_first [OF assms(1,2)])
    show "dot_byte \<in> set (path_key [''com'', ''*''])"
      by code_simp
    show "path_key [''com'', ''*''] < ?k"
      by code_simp
    show "\<not> prefix (path_key [''com'', ''*'']) ?k \<or> nth_opt ?k (length (path_key [''com'', ''*''])) \<noteq> Some dot_byte"
      by code_simp
  qed
  moreover have "append_label [] ''com'' = path_key [''com'']" "append_label [] ''*'' = path_key [''*'']"
    "append_label (path_key [''com'']) ''a'' = path_key [''com'', ''a'']"
    "append_label (path_key [''com'']) ''*'' = path_key [''com'', ''*'']"
    by code_simp+
  ultimately show ?thesis
    using no_root by (simp add: matches_domain_path_def Let_def)
qed

text \<open>
  With a hyphenated sibling the disk index misses a pattern that is in the list: built
  from \<open>a-b.com\<close> and \<open>x.a.com\<close>, it does not find \<open>x.a.com\<close>, which the memory index finds.
\<close>

lemma host_disk_misses_stored_name:
  "\<exists>m d. memory_host_trie [''a-b.com'', ''x.a.com''] = Some (m, Inr ())
     \<and> from_patterns uid dir [''a-b.com'', ''x.a.com''] = Inr d
     \<and> host_trie_search m (EDomain n ''x.a.com'' p) = Some True
     \<and> host_trie_search d (EDomain n ''x.a.com'' p) = Some False"
proof -
  let ?ps = "[''a-b.com'', ''x.a.com'']"
  let ?k = "path_key [''com'', ''a-b'']" and ?k2 = "path_key [''com'', ''a'', ''x'']"
  have ok: "host_patterns_ok ?ps"
    by code_simp
  obtain m where m: "memory_host_trie ?ps = Some (Memory m, Inr ())" "cb_wf m"
    "\<forall>k. cb_abs m k \<noteq> None \<longleftrightarrow> k \<in> host_keys ?ps"
    using memory_host_trie_ok [OF ok] by blast
  have valid: "valid_endpoint (EDomain n ''x.a.com'' p)"
    unfolding valid_endpoint.simps by code_simp
  have labels: "rev (domain_labels ''x.a.com'') = [''com'', ''a'', ''x'']"
    by code_simp
  have pats: "combined_pattern ''a-b.com'' = Inr (Inl [''com'', ''a-b''])"
    "combined_pattern ''x.a.com'' = Inr (Inl [''com'', ''a'', ''x''])"
    by code_simp+
  have "host_member ?ps False (EDomain n ''x.a.com'' p)"
    using pats labels pattern_covers_refl [of "[''com'', ''a'', ''x'']"]
    unfolding host_member_def covered_by_def host_keys_def by fastforce
  then have mem: "host_trie_search (Memory m) (EDomain n ''x.a.com'' p) = Some True"
    using memory_search [OF m(2,3) valid] by simp
  obtain f Kd where f: "build_checked dir (map Inr ?ps) = Inr f"
    "table_keys (df_domains f) Kd" "set Kd = domain_keys ?ps" "tb_kind (df_domains f) = 1"
    "tb_root_labels (df_domains f) = adjacent_roots [] Kd"
    using build_host_ok [OF ok, of dir] by blast
  have "pattern_record_key ''a-b.com'' = Inr (Inl ?k)" "pattern_record_key ''x.a.com'' = Inr (Inl ?k2)"
    using domain_pattern_key [OF pats(1)] domain_pattern_key [OF pats(2)] by code_simp+
  then have "set Kd = set [?k, ?k2]"
    using f(3) by (auto simp: domain_keys_def)
  moreover have "sorted_wrt (<) Kd"
    using f(2) by (simp add: table_keys_def)
  moreover have "sorted_wrt (<) [?k, ?k2]"
    by code_simp
  ultimately have "Kd = [?k, ?k2]"
    using strict_sorted_equal by blast
  then have "\<not> matches_domain_path (df_domains f) [''com'', ''a'', ''x'']"
    using hyphen_hides_child f(2,4,5) by simp
  then have "host_trie_search (Disk uid f) (EDomain n ''x.a.com'' p) = Some False"
    by (simp add: files_matches_def matches_domain_name_def labels)
  moreover have "from_patterns uid dir ?ps = Inr (Disk uid f)"
    using f(1) by (simp add: from_patterns_def from_checked_def)
  ultimately show ?thesis
    using m(1) mem by blast
qed

end
