(* ===== verification/Router.thy ===== *)
theory Router
  imports Host_Trie
begin

text \<open>
  The route index of \<open>trie/src/router.rs\<close>: rules grouped by pattern in a combined trie, rules
  without a pattern kept aside, the choice of the matching rule with the least priority value,
  the explanation attached to a flow, and the published snapshot. The geographic database is
  an argument (\<open>GeoLookup::country_code\<close>), since its reader is not part of this code.

  A search of a memory trie can panic in principle, so the functions that search return an
  option, \<open>None\<close> for the panic; the lemmas show that a compiled router never panics.
\<close>

subsection \<open>Rules\<close>

datatype rule_action = ActDirect | ActProxy | ActBypass | ActDrop

fun route_mode_of :: "rule_action \<Rightarrow> route_mode" where
  "route_mode_of ActDirect = Direct"
| "route_mode_of ActProxy = Proxy"
| "route_mode_of ActBypass = Bypass"
| "route_mode_of ActDrop = Block"

record route_rule =
  rr_rule_name :: string
  rr_tag :: string
  rr_list_names :: "string list"
  rr_pattern :: string
  rr_host_lists :: "host_trie list"
  rr_required_patterns :: "host_trie list"
  rr_always_false :: bool
  rr_action :: rule_action
  rr_network :: "network option"
  rr_excluded_networks :: "network list"
  rr_port :: "(u16 \<times> u16) option"
  rr_excluded_ports :: "(u16 \<times> u16) list"
  rr_geo_country :: "string option"
  rr_excluded_geo_countries :: "string list"
  rr_inbound_names :: "string list"
  rr_excluded_inbound_names :: "string list"
  rr_process_names :: "string list"
  rr_excluded_process_names :: "string list"
  rr_excluded_patterns :: host_trie
  rr_excluded_host_lists :: "host_trie list"
  rr_resolver_policy :: resolver_policy
  rr_priority :: int

type_synonym geo_lookup = "ip_addr \<Rightarrow> string option result"

text \<open>\<open>Iterator::any\<close> over a search that may panic.\<close>

fun any_search :: "('a \<Rightarrow> bool option) \<Rightarrow> 'a list \<Rightarrow> bool option" where
  "any_search f [] = Some False"
| "any_search f (x # xs) =
     (case f x of None \<Rightarrow> None | Some True \<Rightarrow> Some True | Some False \<Rightarrow> any_search f xs)"

definition inbound_of :: "flow_context \<Rightarrow> string option" where
  "inbound_of ctx = or_else (fc_inbound_name ctx) (fc_inbound ctx)"

text \<open>The part of \<open>matches_with_context\<close> after the index searches, from the network check on.\<close>

definition matches_fields :: "route_rule \<Rightarrow> endpoint \<Rightarrow> geo_lookup option \<Rightarrow> flow_context option \<Rightarrow> bool" where
  "matches_fields rule e geo cx =
     (if (case rr_network rule of None \<Rightarrow> False | Some n \<Rightarrow> n \<noteq> endpoint_network e) then False
      else if endpoint_network e \<in> set (rr_excluded_networks rule) then False
      else if (case rr_port rule of
                 None \<Rightarrow> False
               | Some (start, end') \<Rightarrow>
                   (case endpoint_port e of None \<Rightarrow> True | Some port \<Rightarrow> port < start \<or> port > end')) then False
      else if (case endpoint_port e of
                 None \<Rightarrow> False
               | Some port \<Rightarrow> list_ex (\<lambda>(start, end'). port \<ge> start \<and> port \<le> end') (rr_excluded_ports rule)) then False
      else if (case rr_geo_country rule of
                 None \<Rightarrow> False
               | Some expected \<Rightarrow>
                   (case map_option sock_ip (endpoint_addr e) of
                      None \<Rightarrow> True
                    | Some address \<Rightarrow>
                        (case geo of
                           None \<Rightarrow> True
                         | Some g \<Rightarrow>
                             (case g address of
                                Inr (Some actual) \<Rightarrow> \<not> eq_ignore_ascii_case actual expected
                              | _ \<Rightarrow> True)))) then False
      else if rr_excluded_geo_countries rule \<noteq> []
              \<and> (case (map_option sock_ip (endpoint_addr e), geo) of
                   (Some address, Some g) \<Rightarrow>
                     (case g address of
                        Inr (Some actual) \<Rightarrow> list_ex (eq_ignore_ascii_case actual) (rr_excluded_geo_countries rule)
                      | _ \<Rightarrow> False)
                 | _ \<Rightarrow> False) then False
      else if rr_inbound_names rule \<noteq> []
              \<and> (case cx of
                   None \<Rightarrow> True
                 | Some ctx \<Rightarrow>
                     (case inbound_of ctx of None \<Rightarrow> True | Some v \<Rightarrow> v \<notin> set (rr_inbound_names rule))) then False
      else if rr_process_names rule \<noteq> []
              \<and> (case cx of
                   None \<Rightarrow> True
                 | Some ctx \<Rightarrow>
                     (case fc_process ctx of None \<Rightarrow> True | Some p \<Rightarrow> p \<notin> set (rr_process_names rule))) then False
      else if (case cx of
                 None \<Rightarrow> False
               | Some ctx \<Rightarrow>
                   (case inbound_of ctx of None \<Rightarrow> False | Some v \<Rightarrow> v \<in> set (rr_excluded_inbound_names rule))
                   \<or> (case fc_process ctx of None \<Rightarrow> False | Some p \<Rightarrow> p \<in> set (rr_excluded_process_names rule))) then False
      else True)"

definition matches_with_context ::
  "route_rule \<Rightarrow> endpoint \<Rightarrow> geo_lookup option \<Rightarrow> flow_context option \<Rightarrow> bool option" where
  "matches_with_context rule e geo cx =
     (if rr_always_false rule then Some False
      else case host_trie_search (rr_excluded_patterns rule) e of
        None \<Rightarrow> None | Some True \<Rightarrow> Some False
      | Some False \<Rightarrow>
      (case any_search (\<lambda>index. host_trie_search_parent index e) (rr_excluded_host_lists rule) of
        None \<Rightarrow> None | Some True \<Rightarrow> Some False
      | Some False \<Rightarrow>
      (case any_search (\<lambda>index. map_option Not (host_trie_search_parent index e)) (rr_host_lists rule) of
        None \<Rightarrow> None | Some True \<Rightarrow> Some False
      | Some False \<Rightarrow>
      (case any_search (\<lambda>patterns. map_option Not (host_trie_search patterns e)) (rr_required_patterns rule) of
        None \<Rightarrow> None | Some True \<Rightarrow> Some False
      | Some False \<Rightarrow> Some (matches_fields rule e geo cx)))))"

definition rule_matches_endpoint :: "route_rule \<Rightarrow> endpoint \<Rightarrow> bool option" where
  "rule_matches_endpoint rule e = matches_with_context rule e None None"

subsection \<open>The router\<close>

record route_decision =
  rd_mode :: route_mode
  rd_resolver_policy :: resolver_policy
  rd_priority :: int

record router =
  ro_rules :: "route_rule list combined_trie"
  ro_all_rules :: "route_rule list"
  ro_global_rules :: "route_rule list"
  ro_fallback :: route_decision
  ro_geo :: "geo_lookup option"

text \<open>\<open>grouped.entry(pattern).or_default().push(rule)\<close> on a \<open>BTreeMap\<close>, a list sorted by key.\<close>

fun group_push :: "string \<Rightarrow> 'r \<Rightarrow> (string \<times> 'r list) list \<Rightarrow> (string \<times> 'r list) list" where
  "group_push k r [] = [(k, [r])]"
| "group_push k r ((k', rs) # g) =
     (if k = k' then (k', rs @ [r]) # g
      else if as_bytes k < as_bytes k' then (k, [r]) # (k', rs) # g
      else (k', rs) # group_push k r g)"

definition blank_pattern :: "route_rule \<Rightarrow> bool" where
  "blank_pattern rule = (trim (rr_pattern rule) = [])"

fun group_rules :: "route_rule list \<Rightarrow> route_rule list \<Rightarrow> (string \<times> route_rule list) list
    \<Rightarrow> route_rule list \<times> (string \<times> route_rule list) list" where
  "group_rules [] globals grouped = (globals, grouped)"
| "group_rules (rule # rules) globals grouped =
     (if blank_pattern rule then group_rules rules (globals @ [rule]) grouped
      else group_rules rules globals (group_push (rr_pattern rule) rule grouped))"

definition router_compile :: "route_rule list \<Rightarrow> route_decision \<Rightarrow> router result option" where
  "router_compile rules0 fallback =
     (let rules = sort_key rr_priority rules0;
          (globals, grouped) = group_rules rules [] []
      in case insert_all combined_trie_insert combined_trie_new grouped of
           None \<Rightarrow> None
         | Some (_, Inl e) \<Rightarrow> Some (Inl e)
         | Some (index, Inr _) \<Rightarrow>
             Some (Inr \<lparr>ro_rules = index, ro_all_rules = rules,
                        ro_global_rules = sort_key rr_priority globals,
                        ro_fallback = fallback, ro_geo = None\<rparr>))"

definition with_geo_lookup :: "router \<Rightarrow> geo_lookup \<Rightarrow> router" where
  "with_geo_lookup r geo = r\<lparr>ro_geo := Some geo\<rparr>"

text \<open>\<open>filter\<close> with a predicate that may panic.\<close>

fun filter_matching :: "('a \<Rightarrow> bool option) \<Rightarrow> 'a list \<Rightarrow> 'a list option" where
  "filter_matching f [] = Some []"
| "filter_matching f (x # xs) =
     (case f x of
        None \<Rightarrow> None
      | Some b \<Rightarrow>
          (case filter_matching f xs of None \<Rightarrow> None | Some ys \<Rightarrow> Some (if b then x # ys else ys)))"

definition matched_rule :: "router \<Rightarrow> endpoint \<Rightarrow> flow_context option \<Rightarrow> route_rule option option" where
  "matched_rule r e cx =
     (case combined_trie_search (ro_rules r) e of
        None \<Rightarrow> None
      | Some candidates \<Rightarrow>
          map_option (min_by_key rr_priority)
            (filter_matching (\<lambda>rule. matches_with_context rule e (ro_geo r) cx)
               (ro_global_rules r @ (case candidates of None \<Rightarrow> [] | Some rules \<Rightarrow> rules))))"

definition decision_of :: "route_rule \<Rightarrow> route_decision" where
  "decision_of rule =
     \<lparr>rd_mode = route_mode_of (rr_action rule), rd_resolver_policy = rr_resolver_policy rule,
      rd_priority = rr_priority rule\<rparr>"

definition matched_decision :: "router \<Rightarrow> endpoint \<Rightarrow> flow_context option \<Rightarrow> route_decision option option" where
  "matched_decision r e cx = map_option (map_option decision_of) (matched_rule r e cx)"

definition or_fallback :: "router \<Rightarrow> route_decision option \<Rightarrow> route_decision" where
  "or_fallback r d = (case d of None \<Rightarrow> ro_fallback r | Some x \<Rightarrow> x)"

definition decide_with_context :: "router \<Rightarrow> endpoint \<Rightarrow> flow_context option \<Rightarrow> route_decision option" where
  "decide_with_context r e cx = map_option (or_fallback r) (matched_decision r e cx)"

definition router_decide :: "router \<Rightarrow> endpoint \<Rightarrow> route_decision option" where
  "router_decide r e = decide_with_context r e None"

definition selected_rule :: "router \<Rightarrow> flow_context \<Rightarrow> route_rule option option" where
  "selected_rule r cx = matched_rule r (effective_destination cx) (Some cx)"

definition decide_context :: "router \<Rightarrow> flow_context \<Rightarrow> route_decision option" where
  "decide_context r cx =
     map_option (or_fallback r) (matched_decision r (effective_destination cx) (Some cx))"

subsection \<open>Explanations\<close>

text \<open>Equality of rules as derived by the code: hash maps compare without order.\<close>

definition domain_trie_eq :: "'a domain_trie \<Rightarrow> 'a domain_trie \<Rightarrow> bool" where
  "domain_trie_eq t u =
     (list_all2 (\<lambda>n m. dn_value n = dn_value m \<and> set (dn_children n) = set (dn_children m)) (dt_nodes t) (dt_nodes u)
      \<and> set (dt_labels t) = set (dt_labels u))"

fun host_trie_eq :: "host_trie \<Rightarrow> host_trie \<Rightarrow> bool" where
  "host_trie_eq (Memory a) (Memory b) = (domain_trie_eq (cb_domains a) (cb_domains b) \<and> cb_cidrs a = cb_cidrs b)"
| "host_trie_eq (Disk i _) (Disk j _) = (i = j)"
| "host_trie_eq _ _ = False"

definition route_rule_eq :: "route_rule \<Rightarrow> route_rule \<Rightarrow> bool" where
  "route_rule_eq a b =
     (a\<lparr>rr_host_lists := [], rr_required_patterns := [], rr_excluded_patterns := host_trie_new,
        rr_excluded_host_lists := []\<rparr>
      = b\<lparr>rr_host_lists := [], rr_required_patterns := [], rr_excluded_patterns := host_trie_new,
        rr_excluded_host_lists := []\<rparr>
      \<and> list_all2 host_trie_eq (rr_host_lists a) (rr_host_lists b)
      \<and> list_all2 host_trie_eq (rr_required_patterns a) (rr_required_patterns b)
      \<and> host_trie_eq (rr_excluded_patterns a) (rr_excluded_patterns b)
      \<and> list_all2 host_trie_eq (rr_excluded_host_lists a) (rr_excluded_host_lists b))"

definition pattern_matches :: "router \<Rightarrow> route_rule \<Rightarrow> endpoint \<Rightarrow> bool option" where
  "pattern_matches r rule e =
     (if blank_pattern rule then Some True
      else map_option (\<lambda>c. case c of None \<Rightarrow> False | Some rules \<Rightarrow> list_ex (\<lambda>x. route_rule_eq x rule) rules)
             (combined_trie_search (ro_rules r) e))"

definition rule_matches :: "router \<Rightarrow> route_rule \<Rightarrow> endpoint \<Rightarrow> flow_context \<Rightarrow> bool option" where
  "rule_matches r rule e cx =
     (case pattern_matches r rule e of
        None \<Rightarrow> None
      | Some False \<Rightarrow> Some False
      | Some True \<Rightarrow> matches_with_context rule e (ro_geo r) (Some cx))"

text \<open>The closure \<open>record\<close>: a name is recorded once, and the result is handed back.\<close>

definition record_match :: "match_result list \<Rightarrow> string \<Rightarrow> bool \<Rightarrow> match_result list" where
  "record_match history list_name matched =
     (if list_ex (\<lambda>h. mr_list_name h = list_name) history then history
      else history @ [\<lparr>mr_list_name = list_name, mr_matched = matched\<rparr>])"

fun record_lists :: "match_result list \<Rightarrow> string list \<Rightarrow> string list \<Rightarrow> match_result list" where
  "record_lists history flow_lists [] = history"
| "record_lists history flow_lists (n # ns) =
     (let matched = n \<in> set flow_lists;
          h = record_match history (''List '' @ n) matched
      in if matched then record_lists h flow_lists ns else h)"

text \<open>
  \<open>append_rule_history\<close>: a check yields the history and whether to go on; a check that does
  not apply leaves the history and goes on.
\<close>

definition history_port :: "match_result list \<Rightarrow> route_rule \<Rightarrow> endpoint \<Rightarrow> match_result list \<times> bool" where
  "history_port h rule e =
     (case (case rr_port rule of Some r \<Rightarrow> Some r
            | None \<Rightarrow> (case rr_excluded_ports rule of [] \<Rightarrow> None | r # _ \<Rightarrow> Some r)) of
        None \<Rightarrow> (h, True)
      | Some (start, end') \<Rightarrow>
          (case endpoint_port e of
             None \<Rightarrow> (h, True)
           | Some port \<Rightarrow>
               (let m = (start \<le> port \<and> port \<le> end')
                in (record_match h (''Port '' @ show_nat (unat port)) m, m))))"

definition history_network :: "match_result list \<Rightarrow> route_rule \<Rightarrow> endpoint \<Rightarrow> match_result list \<times> bool" where
  "history_network h rule e =
     (case (case rr_network rule of Some n \<Rightarrow> Some n
            | None \<Rightarrow> (case rr_excluded_networks rule of [] \<Rightarrow> None | n # _ \<Rightarrow> Some n)) of
        None \<Rightarrow> (h, True)
      | Some expected \<Rightarrow>
          (case (case expected of Tcp \<Rightarrow> Some ''Net TCP'' | Udp \<Rightarrow> Some ''Net UDP'' | Icmp \<Rightarrow> None | Any \<Rightarrow> None) of
             None \<Rightarrow> (h, True)
           | Some label \<Rightarrow>
               (let m = (endpoint_network e = expected) in (record_match h label m, m))))"

definition history_inbound :: "match_result list \<Rightarrow> route_rule \<Rightarrow> flow_context \<Rightarrow> match_result list \<times> bool" where
  "history_inbound h rule cx =
     (if rr_inbound_names rule = [] \<and> rr_excluded_inbound_names rule = [] then (h, True)
      else
        (let inbound = (case inbound_of cx of None \<Rightarrow> [] | Some v \<Rightarrow> v);
             m = (inbound \<in> set (rr_inbound_names rule @ rr_excluded_inbound_names rule))
         in (record_match h inbound m, m)))"

definition history_geo :: "match_result list \<Rightarrow> route_rule \<Rightarrow> flow_context \<Rightarrow> match_result list \<times> bool" where
  "history_geo h rule cx =
     (if rr_geo_country rule = None \<and> rr_excluded_geo_countries rule = [] then (h, True)
      else
        (let country = (case fc_geo cx of None \<Rightarrow> [] | Some v \<Rightarrow> v);
             m = list_ex (\<lambda>expected. eq_ignore_ascii_case expected country)
                   ((case rr_geo_country rule of None \<Rightarrow> [] | Some c \<Rightarrow> [c]) @ rr_excluded_geo_countries rule)
         in (record_match h (''Geoip '' @ country) m, m)))"

definition append_rule_history ::
  "match_result list \<Rightarrow> route_rule \<Rightarrow> flow_context \<Rightarrow> endpoint \<Rightarrow> match_result list" where
  "append_rule_history h0 rule cx e =
     (let (h1, go1) = history_port h0 rule e in if \<not> go1 then h1 else
      let (h2, go2) = history_network h1 rule e in if \<not> go2 then h2 else
      let (h3, go3) = history_inbound h2 rule cx in if \<not> go3 then h3 else
      let (h4, go4) = history_geo h3 rule cx in if \<not> go4 then h4 else
      record_lists h4 (fc_lists cx) (rr_list_names rule))"

text \<open>
  The inner loop of \<open>match_history\<close> over one group of rules with the same name and priority:
  the history, whether a rule matched, and the rules after the group.
\<close>

fun history_group :: "router \<Rightarrow> flow_context \<Rightarrow> string \<times> int \<Rightarrow> match_result list \<Rightarrow> bool \<Rightarrow> route_rule list
    \<Rightarrow> (match_result list \<times> bool \<times> route_rule list) option" where
  "history_group r cx key history matched [] = Some (history, matched, [])"
| "history_group r cx key history matched (rule # rules) =
     (if (rr_rule_name rule, rr_priority rule) = key then
        (let e = effective_destination cx in
         case rule_matches r rule e cx of
           None \<Rightarrow> None
         | Some m \<Rightarrow>
             history_group r cx key (append_rule_history history rule cx e) (matched \<or> m) rules)
      else Some (history, matched, rule # rules))"

lemma history_group_rest:
  "history_group r cx key h m rules = Some (h', m', rest) \<Longrightarrow> length rest \<le> length rules"
  by (induction r cx key h m rules rule: history_group.induct)
    (fastforce simp: Let_def split: if_splits option.splits)+

lemma history_group_first:
  "history_group r cx (rr_rule_name first, rr_priority first) h m (first # rules) = Some (h', m', rest) \<Longrightarrow>
   length rest < Suc (length rules)"
  by (fastforce simp: Let_def le_imp_less_Suc dest: history_group_rest split: option.splits)

function match_history_loop :: "router \<Rightarrow> flow_context \<Rightarrow> (string \<times> int) option \<Rightarrow> route_rule list
    \<Rightarrow> match_history_entry list option" where
  "match_history_loop r cx selected [] = Some []"
| "match_history_loop r cx selected (first # rules) =
     (let key = (rr_rule_name first, rr_priority first) in
      case history_group r cx key [] False (first # rules) of
        None \<Rightarrow> None
      | Some (history, matched, rest) \<Rightarrow>
          (let entry = (if fst key \<noteq> [] then [\<lparr>mh_rule_name = fst key, mh_history = history\<rparr>] else []) in
           if selected = Some key \<or> matched \<and> selected = None then Some entry
           else map_option ((@) entry) (match_history_loop r cx selected rest)))"
  by pat_completeness auto
termination
  by (relation "measure (\<lambda>(_, _, _, rules). length rules)")
    (auto dest: history_group_first simp del: history_group.simps)

definition match_history :: "router \<Rightarrow> flow_context \<Rightarrow> (string \<times> int) option \<Rightarrow> match_history_entry list option" where
  "match_history r cx selected = match_history_loop r cx selected (ro_all_rules r)"

definition apply_to_context :: "router \<Rightarrow> flow_context \<Rightarrow> (flow_context \<times> route_decision) option" where
  "apply_to_context r cx =
     (case selected_rule r cx of
        None \<Rightarrow> None
      | Some sel \<Rightarrow>
          (let selected_key = map_option (\<lambda>rule. (rr_rule_name rule, rr_priority rule)) sel;
               decision = or_fallback r (map_option decision_of sel)
           in if fc_skip_route cx then Some (cx, decision)
              else
                (let c1 = cx\<lparr>fc_route_mode := rd_mode decision,
                                   fc_resolver_policy := rd_resolver_policy decision,
                                   fc_tag := None, fc_match_history := [], fc_geo := None\<rparr>
                 in case selected_rule r c1 of
                      None \<Rightarrow> None
                    | Some sel1 \<Rightarrow>
                        (let c2 = (case sel1 of
                                     None \<Rightarrow> c1
                                   | Some rule \<Rightarrow>
                                       c1\<lparr>fc_tag := (if rr_tag rule \<noteq> [] then Some (rr_tag rule) else None)\<rparr>);
                             c3 = (case (ro_geo r, map_option sock_ip (endpoint_addr (effective_destination c2))) of
                                     (Some geo, Some address) \<Rightarrow>
                                       (case geo address of
                                          Inr (Some country) \<Rightarrow> c2\<lparr>fc_geo := Some country\<rparr>
                                        | _ \<Rightarrow> c2)
                                   | _ \<Rightarrow> c2)
                         in case match_history r c3 selected_key of
                              None \<Rightarrow> None
                            | Some h \<Rightarrow> Some (c3\<lparr>fc_match_history := h\<rparr>, decision)))))"

subsection \<open>The published snapshot\<close>

text \<open>
  The runtime holds the current snapshot behind a lock; readers take the snapshot that is
  current when they ask. An operation is a function of the current snapshot.
\<close>

record router_runtime =
  rt_current :: router

definition router_runtime_new :: "router \<Rightarrow> router_runtime" where
  "router_runtime_new r = \<lparr>rt_current = r\<rparr>"

definition snapshot :: "router_runtime \<Rightarrow> router" where
  "snapshot rt = rt_current rt"

definition runtime_decide :: "router_runtime \<Rightarrow> endpoint \<Rightarrow> route_decision option" where
  "runtime_decide rt e = router_decide (snapshot rt) e"

definition publish :: "router_runtime \<Rightarrow> router \<Rightarrow> router_runtime \<times> router" where
  "publish rt r = (rt\<lparr>rt_current := r\<rparr>, rt_current rt)"

definition compile_and_publish ::
  "router_runtime \<Rightarrow> route_rule list \<Rightarrow> route_decision \<Rightarrow> (router_runtime \<times> router result) option" where
  "compile_and_publish rt rules fallback =
     (case router_compile rules fallback of
        None \<Rightarrow> None
      | Some (Inl e) \<Rightarrow> Some (rt, Inl e)
      | Some (Inr r) \<Rightarrow> (let (rt1, old) = publish rt r in Some (rt1, Inr old)))"

definition compile_and_publish_with_geo ::
  "router_runtime \<Rightarrow> route_rule list \<Rightarrow> route_decision \<Rightarrow> geo_lookup \<Rightarrow> (router_runtime \<times> router result) option" where
  "compile_and_publish_with_geo rt rules fallback geo =
     (case router_compile rules fallback of
        None \<Rightarrow> None
      | Some (Inl e) \<Rightarrow> Some (rt, Inl e)
      | Some (Inr r) \<Rightarrow> (let (rt1, old) = publish rt (with_geo_lookup r geo) in Some (rt1, Inr old)))"

definition rollback :: "router_runtime \<Rightarrow> router \<Rightarrow> router_runtime \<times> router" where
  "rollback rt previous = (rt\<lparr>rt_current := previous\<rparr>, rt_current rt)"

definition runtime_apply :: "router_runtime \<Rightarrow> flow_context \<Rightarrow> (flow_context \<times> route_decision) option" where
  "runtime_apply rt cx = apply_to_context (snapshot rt) cx"

definition selected_rule_name :: "router_runtime \<Rightarrow> flow_context \<Rightarrow> string option option" where
  "selected_rule_name rt cx =
     map_option (\<lambda>sel. case sel of
         None \<Rightarrow> None
       | Some rule \<Rightarrow> if rr_rule_name rule \<noteq> [] then Some (rr_rule_name rule) else None)
       (selected_rule (snapshot rt) cx)"

definition select_proxy :: "route_mode \<Rightarrow> 'p \<Rightarrow> 'p \<Rightarrow> 'p \<Rightarrow> 'p \<Rightarrow> 'p" where
  "select_proxy mode direct proxy bypass dropper =
     (case mode of Direct \<Rightarrow> direct | Proxy \<Rightarrow> proxy | Bypass \<Rightarrow> bypass | Block \<Rightarrow> dropper)"

definition routed_select :: "router \<Rightarrow> flow_context \<Rightarrow> 'p \<Rightarrow> 'p \<Rightarrow> 'p \<Rightarrow> 'p \<Rightarrow> 'p option" where
  "routed_select r cx direct proxy bypass dropper =
     (case (if fc_skip_route cx then Some (fc_route_mode cx)
            else map_option rd_mode (decide_context r cx)) of
        None \<Rightarrow> None
      | Some mode \<Rightarrow> Some (select_proxy mode direct proxy bypass dropper))"

definition runtime_select :: "router_runtime \<Rightarrow> flow_context \<Rightarrow> 'p \<Rightarrow> 'p \<Rightarrow> 'p \<Rightarrow> 'p \<Rightarrow> 'p option" where
  "runtime_select rt cx direct proxy bypass dropper =
     routed_select (snapshot rt) cx direct proxy bypass dropper"

subsection \<open>Searches that do not panic\<close>

fun host_trie_ok :: "host_trie \<Rightarrow> bool" where
  "host_trie_ok (Memory m) = cb_wf m"
| "host_trie_ok (Disk _ _) = True"

definition rule_ok :: "route_rule \<Rightarrow> bool" where
  "rule_ok rule \<longleftrightarrow> list_all host_trie_ok (rr_excluded_patterns rule # rr_excluded_host_lists rule
     @ rr_host_lists rule @ rr_required_patterns rule)"

text \<open>The reading of \<open>matches_with_context\<close> once panics are excluded.\<close>

definition accepts :: "geo_lookup option \<Rightarrow> flow_context option \<Rightarrow> endpoint \<Rightarrow> route_rule \<Rightarrow> bool" where
  "accepts geo cx e rule = (matches_with_context rule e geo cx = Some True)"

lemma any_search_total: "(\<And>x. x \<in> set xs \<Longrightarrow> f x \<noteq> None) \<Longrightarrow> any_search f xs \<noteq> None"
  by (induction xs) (auto split: option.splits bool.splits)

lemma host_trie_search_total:
  assumes "host_trie_ok t" "valid_endpoint e"
  shows "host_trie_search t e \<noteq> None" "host_trie_search_parent t e \<noteq> None"
proof -
  have "search_parent_loop (cb_domains m) (rev (domain_labels h)) (length (rev (domain_labels h))) \<noteq> None"
    if "cb_wf m" for m :: "unit combined_trie" and h
    using that by (subst search_parent_loop_ok) (auto simp: cb_wf_def)
  then show "host_trie_search t e \<noteq> None" "host_trie_search_parent t e \<noteq> None"
    using assms combined_search_lookup
    by (cases t; cases e; fastforce simp: combined_trie_search_parent_def domain_trie_search_parent_def
        domain_name_new_of_valid Let_def)+
qed

lemma matches_total:
  assumes "rule_ok rule" "valid_endpoint e"
  shows "matches_with_context rule e geo cx = Some (accepts geo cx e rule)"
proof -
  have ok: "host_trie_ok (rr_excluded_patterns rule)"
    "t \<in> set (rr_excluded_host_lists rule) \<Longrightarrow> host_trie_ok t"
    "t \<in> set (rr_host_lists rule) \<Longrightarrow> host_trie_ok t"
    "t \<in> set (rr_required_patterns rule) \<Longrightarrow> host_trie_ok t" for t
    using assms(1) by (auto simp: rule_ok_def list_all_iff)
  note total = host_trie_search_total [OF _ assms(2), simplified]
  have "any_search (\<lambda>index. host_trie_search_parent index e) (rr_excluded_host_lists rule) \<noteq> None"
    "any_search (\<lambda>index. map_option Not (host_trie_search_parent index e)) (rr_host_lists rule) \<noteq> None"
    "any_search (\<lambda>patterns. map_option Not (host_trie_search patterns e)) (rr_required_patterns rule) \<noteq> None"
    by (rule any_search_total; use ok total in simp)+
  then have "matches_with_context rule e geo cx \<noteq> None"
    using total(1) [OF ok(1)] by (auto simp: matches_with_context_def split: option.splits bool.splits)
  then show ?thesis
    by (auto simp: accepts_def)
qed

lemma filter_matching_total:
  "(\<And>x. x \<in> set xs \<Longrightarrow> f x = Some (g x)) \<Longrightarrow> filter_matching f xs = Some (filter g xs)"
  by (induction xs) auto

subsection \<open>Grouping by pattern\<close>

definition nonempty_group :: "'a list \<Rightarrow> 'a list option" where
  "nonempty_group xs = (if xs = [] then None else Some xs)"

definition group_sorted :: "(string \<times> 'r) list \<Rightarrow> bool" where
  "group_sorted g = sorted_wrt (\<lambda>a b. as_bytes (fst a) < as_bytes (fst b)) g"

lemma set_group_push: "fst ` set (group_push k r g) = insert k (fst ` set g)"
  by (induction k r g rule: group_push.induct) auto

lemma group_sorted_Cons:
  "group_sorted ((k, v) # g) \<longleftrightarrow> (\<forall>k' \<in> fst ` set g. as_bytes k < as_bytes k') \<and> group_sorted g"
  by (auto simp: group_sorted_def)

lemma group_push_sorted: "group_sorted g \<Longrightarrow> group_sorted (group_push k r g)"
proof (induction k r g rule: group_push.induct)
  case (2 k r k' rs g)
  have tail: "\<forall>x \<in> fst ` set g. as_bytes k' < as_bytes x" "group_sorted g"
    using "2.prems" unfolding group_sorted_Cons by blast+
  have "as_bytes k' < as_bytes k" if "k \<noteq> k'" "\<not> as_bytes k < as_bytes k'"
    using that by (metis as_bytes_inj linorder_neqE)
  with "2.IH" tail show ?case
    by (auto simp: group_sorted_Cons set_group_push dest: less_trans)
qed (simp add: group_sorted_def)

lemma map_of_group_push:
  "group_sorted g \<Longrightarrow>
   map_of (group_push k r g) = (map_of g)(k \<mapsto> (case map_of g k of None \<Rightarrow> [r] | Some rs \<Rightarrow> rs @ [r]))"
proof (induction k r g rule: group_push.induct)
  case (2 k r k' rs g)
  have "map_of g k = None" if "as_bytes k < as_bytes k'"
    using that "2.prems" by (auto simp: group_sorted_Cons map_of_eq_None_iff dest: less_asym)
  with 2 show ?case
    by (auto simp: group_sorted_Cons fun_eq_iff)
qed auto

definition group_at :: "(string \<times> 'r list) list \<Rightarrow> string \<Rightarrow> 'r list" where
  "group_at g p = (case map_of g p of None \<Rightarrow> [] | Some rs \<Rightarrow> rs)"

lemma group_at_push:
  "group_sorted g \<Longrightarrow> group_at (group_push k r g) p = group_at g p @ (if p = k then [r] else [])"
  by (simp add: group_at_def map_of_group_push split: option.splits)

lemma group_push_nonempty:
  "[] \<notin> snd ` set g \<Longrightarrow> [] \<notin> snd ` set (group_push k r g)"
  by (induction k r g rule: group_push.induct) auto

lemma map_of_group_at:
  "[] \<notin> snd ` set g \<Longrightarrow> map_of g p = nonempty_group (group_at g p)"
  by (force simp: group_at_def nonempty_group_def image_iff dest: map_of_SomeD split: option.splits)

lemma group_rules_spec:
  assumes "group_rules rules gl g = (gl1, g1)" "group_sorted g" "[] \<notin> snd ` set g"
  shows "gl1 = gl @ filter blank_pattern rules \<and> group_sorted g1 \<and> [] \<notin> snd ` set g1
    \<and> (\<forall>p. group_at g1 p = group_at g p @ filter (\<lambda>r. \<not> blank_pattern r \<and> rr_pattern r = p) rules)"
  using assms
proof (induction rules gl g rule: group_rules.induct)
  case (2 rule rules gl g)
  then show ?case
    by (cases "blank_pattern rule") (auto simp: group_push_sorted group_push_nonempty group_at_push)
qed simp

lemma group_rules_Nil:
  assumes "group_rules rules [] [] = (gl, g)"
  shows "gl = filter blank_pattern rules" "distinct (map fst g)"
    "map_of g p = nonempty_group (filter (\<lambda>r. \<not> blank_pattern r \<and> rr_pattern r = p) rules)"
proof -
  have spec: "gl = filter blank_pattern rules" "group_sorted g" "[] \<notin> snd ` set g"
    "group_at g p = filter (\<lambda>r. \<not> blank_pattern r \<and> rr_pattern r = p) rules"
    using group_rules_spec [OF assms] by (simp_all add: group_sorted_def group_at_def)
  show "gl = filter blank_pattern rules"
    "map_of g p = nonempty_group (filter (\<lambda>r. \<not> blank_pattern r \<and> rr_pattern r = p) rules)"
    using spec map_of_group_at [of g p] by simp_all
  have "sorted_wrt (<) (map (as_bytes \<circ> fst) g)"
    using spec(2) by (simp add: sorted_wrt_map group_sorted_def)
  then have "distinct (map (as_bytes \<circ> fst) g)"
    by (rule distinct_of_sorted_less)
  then show "distinct (map fst g)"
    by (auto simp: distinct_map inj_on_def)
qed

subsection \<open>The route index as a specification\<close>

definition pattern_rules :: "route_rule list \<Rightarrow> combined_key \<Rightarrow> route_rule list" where
  "pattern_rules rules k =
     filter (\<lambda>r. \<not> blank_pattern r \<and> combined_pattern (rr_pattern r) = Inr k) rules"

text \<open>
  The rules a router considers for an endpoint: those without a pattern, then those filed
  under the pattern the index finds for it, in order of priority value.
\<close>

definition route_candidates :: "route_rule list \<Rightarrow> endpoint \<Rightarrow> route_rule list" where
  "route_candidates rules e =
     sort_key rr_priority
       (filter blank_pattern rules
        @ (case combined_lookup (\<lambda>k. nonempty_group (pattern_rules rules k)) e of
             None \<Rightarrow> [] | Some g \<Rightarrow> g))"

definition route_spec ::
  "route_rule list \<Rightarrow> geo_lookup option \<Rightarrow> flow_context option \<Rightarrow> endpoint \<Rightarrow> route_rule option" where
  "route_spec rules geo cx e = find (accepts geo cx e) (route_candidates (sort_key rr_priority rules) e)"

definition pattern_weight :: "string \<Rightarrow> nat" where
  "pattern_weight p = (case combined_pattern p of Inl _ \<Rightarrow> 0 | Inr k \<Rightarrow> cb_weight k)"

text \<open>The patterns fit in the index (32-bit node and label numbers).\<close>

definition rules_fit :: "route_rule list \<Rightarrow> bool" where
  "rules_fit rules \<longleftrightarrow> 1 + (\<Sum>r\<leftarrow>rules. pattern_weight (rr_pattern r)) \<le> 2 ^ 32"

definition patterns_parse :: "route_rule list \<Rightarrow> bool" where
  "patterns_parse rules \<longleftrightarrow> list_all (\<lambda>r. blank_pattern r \<or> is_ok (combined_pattern (rr_pattern r))) rules"

text \<open>No two spellings of one pattern.\<close>

definition patterns_spelled_once :: "route_rule list \<Rightarrow> bool" where
  "patterns_spelled_once rules \<longleftrightarrow>
     (\<forall>a \<in> set rules. \<forall>b \<in> set rules. \<not> blank_pattern a \<and> \<not> blank_pattern b
        \<and> combined_pattern (rr_pattern a) = combined_pattern (rr_pattern b) \<longrightarrow> rr_pattern a = rr_pattern b)"

subsection \<open>What compiling builds\<close>

definition groups_weight :: "(string \<times> 'r) list \<Rightarrow> nat" where
  "groups_weight g = (\<Sum>pv\<leftarrow>g. pattern_weight (fst pv))"

lemma groups_weight_push: "groups_weight (group_push k r g) \<le> pattern_weight k + groups_weight g"
  by (induction k r g rule: group_push.induct) (auto simp: groups_weight_def)

lemma groups_weight_rules:
  "group_rules rules gl g = (gl1, g1) \<Longrightarrow>
   groups_weight g1 \<le> groups_weight g + (\<Sum>r\<leftarrow>rules. pattern_weight (rr_pattern r))"
proof (induction rules gl g rule: group_rules.induct)
  case (2 rule rules gl g)
  then show ?case
    using groups_weight_push [of "rr_pattern rule" rule g] by (fastforce split: if_splits)
qed simp

lemma sum_list_sort_key: "(\<Sum>x\<leftarrow>sort_key f xs. g x) = (\<Sum>x\<leftarrow>xs. g x :: nat)"
proof (induction xs)
  case (Cons x xs)
  have "(\<Sum>y\<leftarrow>insort_key f x ys. g y) = g x + (\<Sum>y\<leftarrow>ys. g y)" for ys
    by (induction ys) auto
  with Cons show ?case
    by simp
qed simp

lemma rules_fit_groups:
  assumes "rules_fit rules" "group_rules (sort_key f rules) [] [] = (gl, g)"
  shows "1 + groups_weight g \<le> 2 ^ 32"
  using assms groups_weight_rules [OF assms(2)]
  by (simp add: rules_fit_def groups_weight_def sum_list_sort_key)

lemma keyed_weight:
  "list_all (\<lambda>(p, v). is_ok (combined_pattern p)) g \<Longrightarrow>
   (\<Sum>kv\<leftarrow>combined_keyed g. cb_weight (fst kv)) = groups_weight g"
  by (induction g) (auto simp: groups_weight_def pattern_weight_def is_ok_def split: sum.splits)

lemma insert_groups_ok:
  assumes "list_all (\<lambda>(p, v). is_ok (combined_pattern p)) g" "1 + groups_weight g \<le> 2 ^ 32"
  shows "\<exists>t. insert_all combined_trie_insert combined_trie_new g = Some (t, Inr ())
    \<and> cb_wf t \<and> cb_abs t = last_wins (combined_keyed g)"
proof (rule combined_insert_all)
  have "(\<Sum>(p, v)\<leftarrow>g. cb_weight (projr (combined_pattern p))) = groups_weight g"
    using keyed_weight [OF assms(1)] by (simp add: comp_def case_prod_unfold)
  with assms show "patterns_ok g"
    by (simp add: patterns_ok_def)
qed

lemma insert_groups_err:
  assumes "\<not> list_all (\<lambda>(p, v). is_ok (combined_pattern p)) g" "1 + groups_weight g \<le> 2 ^ 32"
  shows "\<exists>t e. insert_all combined_trie_insert combined_trie_new g = Some (t, Inl e)"
proof -
  obtain pvs p v rest where g: "g = pvs @ (p, v) # rest" and bad: "\<not> is_ok (combined_pattern p)"
    and good: "list_all (\<lambda>(p, v). is_ok (combined_pattern p)) pvs"
    using assms(1) split_list_first_prop [of g "\<lambda>(p, v). \<not> is_ok (combined_pattern p)"]
    by (auto simp: list_all_iff case_prod_unfold)
  obtain e where "combined_pattern p = Inl e"
    using bad by (cases "combined_pattern p") (auto simp: is_ok_def)
  moreover have "cb_used (combined_trie_new :: 'a combined_trie) + (\<Sum>kv\<leftarrow>combined_keyed pvs. cb_weight (fst kv)) \<le> 2 ^ 32"
    using assms(2) unfolding keyed_weight [OF good] by (simp add: g groups_weight_def cb_new)
  ultimately show ?thesis
    using cb.insert_all_err [OF cb_new(1) combined_keyed_rel [OF good], of p e v rest] by (auto simp: g)
qed

lemma group_patterns:
  assumes "group_rules rules [] [] = (gl, g)"
  shows "fst ` set g = rr_pattern ` {r \<in> set rules. \<not> blank_pattern r}"
proof -
  have "p \<in> fst ` set g \<longleftrightarrow> filter (\<lambda>r. \<not> blank_pattern r \<and> rr_pattern r = p) rules \<noteq> []" for p
    using group_rules_Nil(3) [OF assms, of p] map_of_eq_None_iff [of g p]
    by (auto simp: nonempty_group_def split: if_splits)
  then have "p \<in> fst ` set g \<longleftrightarrow> p \<in> rr_pattern ` {r \<in> set rules. \<not> blank_pattern r}" for p
    by (auto simp: filter_empty_conv)
  then show ?thesis
    by blast
qed

lemma groups_parse:
  assumes "group_rules (sort_key f rules) [] [] = (gl, g)"
  shows "list_all (\<lambda>(p, v). is_ok (combined_pattern p)) g = patterns_parse rules"
  using group_patterns [OF assms]
  by (force simp: patterns_parse_def list_all_iff case_prod_unfold image_iff set_eq_iff)

lemma groups_abs:
  assumes gr: "group_rules rules [] [] = (gl, g)" and once: "patterns_spelled_once rules"
    and ok: "list_all (\<lambda>(p, v). is_ok (combined_pattern p)) g"
  shows "last_wins (combined_keyed g) k = nonempty_group (pattern_rules rules k)"
proof -
  have key: "combined_pattern p = Inr (projr (combined_pattern p))" if "p \<in> fst ` set g" for p
    using that ok by (auto simp: list_all_iff is_ok_def split: sum.splits)
  have inj: "p = q" if "p \<in> fst ` set g" "q \<in> fst ` set g" "combined_pattern p = combined_pattern q" for p q
    using that once by (auto simp: group_patterns [OF gr] patterns_spelled_once_def)
  have "inj_on (\<lambda>p. projr (combined_pattern p)) (fst ` set g)"
    by (rule inj_onI) (metis inj key)
  then have "distinct (map fst (combined_keyed g))"
    using group_rules_Nil(2) [OF gr] comp_inj_on [of fst "set g" "\<lambda>p. projr (combined_pattern p)"]
    by (simp add: distinct_map comp_def case_prod_unfold)
  note last = last_wins_distinct [OF this, of k]
  have at: "pattern_rules rules k = filter (\<lambda>r. \<not> blank_pattern r \<and> rr_pattern r = p) rules"
    if "p \<in> fst ` set g" "combined_pattern p = Inr k" for p
    unfolding pattern_rules_def
  proof (rule filter_cong [OF refl])
    fix r
    assume "r \<in> set rules"
    then have "\<not> blank_pattern r \<Longrightarrow> rr_pattern r \<in> fst ` set g"
      by (simp add: group_patterns [OF gr])
    with that inj [of p "rr_pattern r"] show
      "(\<not> blank_pattern r \<and> combined_pattern (rr_pattern r) = Inr k) = (\<not> blank_pattern r \<and> rr_pattern r = p)"
      by metis
  qed
  show ?thesis
  proof (cases "\<exists>p \<in> fst ` set g. combined_pattern p = Inr k")
    case True
    then obtain p where p: "p \<in> fst ` set g" "combined_pattern p = Inr k"
      by blast
    then obtain v where v: "map_of g p = Some v"
      using map_of_eq_None_iff [of g p] by fastforce
    then have "(k, v) \<in> set (combined_keyed g)"
      using p by (force dest: map_of_SomeD)
    with last v group_rules_Nil(3) [OF gr, of p] at [OF p] show ?thesis
      by simp
  next
    case False
    have none: "k \<notin> fst ` set (combined_keyed g)"
    proof
      assume "k \<in> fst ` set (combined_keyed g)"
      then obtain p v where p: "(p, v) \<in> set g" "k = projr (combined_pattern p)"
        by auto
      then have "p \<in> fst ` set g"
        by force
      with key [OF this] p(2) False show False
        by blast
    qed
    have "pattern_rules rules k = []"
      using False unfolding group_patterns [OF gr] by (simp add: pattern_rules_def filter_empty_conv)
    with none show ?thesis
      by (simp add: nonempty_group_def last_wins_None_iff del: set_map)
  qed
qed


lemma router_compile_ok:
  assumes "rules_fit rules" "patterns_parse rules" "patterns_spelled_once rules"
  shows "\<exists>index. router_compile rules fallback = Some (Inr
      \<lparr>ro_rules = index, ro_all_rules = sort_key rr_priority rules,
       ro_global_rules = sort_key rr_priority (filter blank_pattern (sort_key rr_priority rules)),
       ro_fallback = fallback, ro_geo = None\<rparr>)
    \<and> cb_wf index \<and> cb_abs index = (\<lambda>k. nonempty_group (pattern_rules (sort_key rr_priority rules) k))"
proof -
  let ?rules = "sort_key rr_priority rules"
  obtain gl g where g: "group_rules ?rules [] [] = (gl, g)"
    by fastforce
  have ok: "list_all (\<lambda>(p, v). is_ok (combined_pattern p)) g"
    using assms(2) groups_parse [OF g] by simp
  from insert_groups_ok [OF ok rules_fit_groups [OF assms(1) g]] obtain t where
    t: "insert_all combined_trie_insert combined_trie_new g = Some (t, Inr ())" "cb_wf t"
    "cb_abs t = last_wins (combined_keyed g)"
    by blast
  have "patterns_spelled_once ?rules"
    using assms(3) by (simp add: patterns_spelled_once_def)
  then have "cb_abs t = (\<lambda>k. nonempty_group (pattern_rules ?rules k))"
    using groups_abs [OF g _ ok] t(3) by (simp add: fun_eq_iff)
  with t g show ?thesis
    using group_rules_Nil(1) [OF g] by (auto simp: router_compile_def Let_def)
qed

lemma router_compile_err:
  assumes "rules_fit rules" "\<not> patterns_parse rules"
  shows "\<exists>e. router_compile rules fallback = Some (Inl e)"
proof -
  obtain gl g where g: "group_rules (sort_key rr_priority rules) [] [] = (gl, g)"
    by fastforce
  have "\<not> list_all (\<lambda>(p, v). is_ok (combined_pattern p)) g"
    using assms(2) groups_parse [OF g] by simp
  from insert_groups_err [OF this rules_fit_groups [OF assms(1) g]] g show ?thesis
    by (auto simp: router_compile_def)
qed

lemma filter_sort_sorted: "sort_key f (filter P (sort_key f xs)) = filter P (sort_key f xs)"
  by (rule sort_key_id_if_sorted) (simp add: sorted_filter)

lemma combined_lookup_key: "combined_lookup m e = Some v \<Longrightarrow> \<exists>k. m k = Some v"
proof (cases e)
  case (EIp n a)
  have "\<exists>p. m p = Some v" if "lpm m bs = Some v" for m :: "bool list \<Rightarrow> 'a option" and bs
    using that
  proof (induction bs arbitrary: m)
    case (Cons b bs)
    then show ?case
      by (auto simp: or_else_def split: option.splits)
  qed auto
  then show "combined_lookup m e = Some v \<Longrightarrow> \<exists>k. m k = Some v"
    using EIp by (fastforce simp: combined_lookup_def)
next
  case (EDomain n h p)
  then show "combined_lookup m e = Some v \<Longrightarrow> \<exists>k. m k = Some v"
    by (auto simp: combined_lookup_def dest!: pattern_lookup_covers)
qed

lemma matched_rule_spec:
  assumes "rules_fit rules" "patterns_parse rules" "patterns_spelled_once rules"
    and "list_all rule_ok rules" "valid_endpoint e" "router_compile rules fallback = Some (Inr r)"
    and geo: "r' = r\<lparr>ro_geo := geo\<rparr>"
  shows "matched_rule r' e cx = Some (route_spec rules geo cx e)"
proof -
  let ?rules = "sort_key rr_priority rules"
  obtain index where r: "r = \<lparr>ro_rules = index, ro_all_rules = ?rules,
      ro_global_rules = sort_key rr_priority (filter blank_pattern ?rules),
      ro_fallback = fallback, ro_geo = None\<rparr>" and wf: "cb_wf index"
    and abs: "cb_abs index = (\<lambda>k. nonempty_group (pattern_rules ?rules k))"
    using router_compile_ok [OF assms(1-3), of fallback] assms(6) by auto
  let ?group = "case combined_lookup (cb_abs index) e of None \<Rightarrow> [] | Some g \<Rightarrow> g"
  have sub: "set ?group \<subseteq> set rules"
  proof (cases "combined_lookup (cb_abs index) e")
    case (Some g)
    then obtain k where "nonempty_group (pattern_rules ?rules k) = Some g"
      using combined_lookup_key abs by fastforce
    then have "set g \<subseteq> set rules"
      by (auto simp: nonempty_group_def pattern_rules_def split: if_splits)
    with Some show ?thesis
      by simp
  qed simp
  have "filter_matching (\<lambda>rule. matches_with_context rule e geo cx) (filter blank_pattern ?rules @ ?group)
      = Some (filter (accepts geo cx e) (filter blank_pattern ?rules @ ?group))"
    using assms(4,5) sub by (intro filter_matching_total matches_total) (auto simp: list_all_iff)
  then show ?thesis
    unfolding geo r route_spec_def route_candidates_def
    by (simp add: matched_rule_def combined_search_lookup [OF wf assms(5)] filter_sort_sorted
        min_by_key_find abs del: filter_append)
qed

subsection \<open>Routers that do not panic\<close>

definition router_ok :: "router \<Rightarrow> bool" where
  "router_ok r \<longleftrightarrow> cb_wf (ro_rules r) \<and> (\<forall>k g. cb_abs (ro_rules r) k = Some g \<longrightarrow> list_all rule_ok g)
     \<and> list_all rule_ok (ro_global_rules r) \<and> list_all rule_ok (ro_all_rules r)"

lemma router_compile_router_ok:
  assumes "rules_fit rules" "patterns_parse rules"
  shows "\<exists>r. router_compile rules fallback = Some (Inr r) \<and> ro_fallback r = fallback
    \<and> (list_all rule_ok rules \<longrightarrow> router_ok r)"
proof -
  let ?rules = "sort_key rr_priority rules"
  obtain gl g where g: "group_rules ?rules [] [] = (gl, g)"
    by fastforce
  have ok: "list_all (\<lambda>(p, v). is_ok (combined_pattern p)) g"
    using assms(2) groups_parse [OF g] by simp
  from insert_groups_ok [OF ok rules_fit_groups [OF assms(1) g]] obtain t where
    t: "insert_all combined_trie_insert combined_trie_new g = Some (t, Inr ())" "cb_wf t"
    "cb_abs t = last_wins (combined_keyed g)"
    by blast
  have "set v \<subseteq> set rules" if "(p, v) \<in> set g" for p v
  proof -
    have "map_of g p = Some v"
      using that group_rules_Nil(2) [OF g] by simp
    then show ?thesis
      using group_rules_Nil(3) [OF g, of p] by (auto simp: nonempty_group_def split: if_splits)
  qed
  then have "set v \<subseteq> set rules" if "cb_abs t k = Some v" for k v
    using that last_wins_SomeD [of "combined_keyed g" k v] t(3) by auto
  then have "list_all rule_ok rules \<Longrightarrow> cb_abs t k = Some v \<Longrightarrow> list_all rule_ok v" for k v
    by (metis list_all_iff subsetD)
  with t(1,2) g show ?thesis
    using group_rules_Nil(1) [OF g] by (auto simp: router_compile_def router_ok_def list_all_iff Let_def)
qed

lemma matched_rule_total:
  assumes "router_ok r" "valid_endpoint e"
  shows "\<exists>sel. matched_rule r e cx = Some sel \<and> pred_option (accepts (ro_geo r) cx e) sel"
proof -
  let ?group = "case combined_lookup (cb_abs (ro_rules r)) e of None \<Rightarrow> [] | Some g \<Rightarrow> g"
  have wf: "cb_wf (ro_rules r)" and glob: "list_all rule_ok (ro_global_rules r)"
    using assms(1) by (simp_all add: router_ok_def)
  have "list_all rule_ok ?group"
    using assms(1) combined_lookup_key [of "cb_abs (ro_rules r)" e]
    by (cases "combined_lookup (cb_abs (ro_rules r)) e") (auto simp: router_ok_def)
  with glob assms(2) have
    "filter_matching (\<lambda>rule. matches_with_context rule e (ro_geo r) cx) (ro_global_rules r @ ?group)
      = Some (filter (accepts (ro_geo r) cx e) (ro_global_rules r @ ?group))"
    by (intro filter_matching_total matches_total) (auto simp: list_all_iff)
  moreover have "pred_option P (find P xs)" for P and xs :: "route_rule list"
    by (induction xs) auto
  ultimately show ?thesis
    by (simp add: matched_rule_def combined_search_lookup [OF wf assms(2)] min_by_key_find del: filter_append)
qed

lemma rule_matches_total:
  assumes "router_ok r" "valid_endpoint e" "rule_ok rule"
  shows "rule_matches r rule e cx \<noteq> None"
  using assms combined_search_lookup [of "ro_rules r" e] matches_total [OF assms(3,2)]
  by (auto simp: rule_matches_def pattern_matches_def router_ok_def split: option.splits bool.splits)

lemma history_group_total:
  assumes "router_ok r" "valid_endpoint (effective_destination cx)"
  shows "list_all rule_ok rules \<Longrightarrow>
    \<exists>h' m'. history_group r cx key h m rules
      = Some (h', m', dropWhile (\<lambda>rule. (rr_rule_name rule, rr_priority rule) = key) rules)"
proof (induction rules arbitrary: h m)
  case (Cons rule rules)
  then obtain b where "rule_matches r rule (effective_destination cx) cx = Some b"
    using rule_matches_total [OF assms, of rule cx] by auto
  with Cons show ?case
    by (auto simp: Let_def)
qed simp

lemma in_image_dropWhile:
  "x \<in> f ` set xs \<Longrightarrow> x \<noteq> k \<Longrightarrow> x \<in> f ` set (dropWhile (\<lambda>y. f y = k) xs)"
  by (induction xs) auto

text \<open>The explanation always ends, and it ends with the rule that was selected.\<close>

lemma match_history_loop_ends:
  assumes "router_ok r" "valid_endpoint (effective_destination cx)"
  shows "list_all rule_ok rules \<Longrightarrow>
    \<exists>h. match_history_loop r cx sel rules = Some h
      \<and> (\<forall>key. sel = Some key \<longrightarrow> fst key \<noteq> [] \<longrightarrow>
           key \<in> (\<lambda>rule. (rr_rule_name rule, rr_priority rule)) ` set rules \<longrightarrow>
           h \<noteq> [] \<and> mh_rule_name (last h) = fst key)"
proof (induction "length rules" arbitrary: rules rule: less_induct)
  case less
  show ?case
  proof (cases rules)
    case (Cons first rest)
    let ?key = "(rr_rule_name first, rr_priority first)"
    let ?tail = "dropWhile (\<lambda>rule. (rr_rule_name rule, rr_priority rule) = ?key) rest"
    obtain h m where g: "history_group r cx ?key [] False (first # rest) = Some (h, m, ?tail)"
      using history_group_total [OF assms, of "first # rest" ?key "[]" False] less.prems Cons by auto
    have "length ?tail < length rules" "list_all rule_ok ?tail"
      using less.prems Cons length_dropWhile_le [of _ rest]
      by (auto simp: list_all_iff le_imp_less_Suc dest!: set_dropWhileD)
    from less.hyps [OF this] obtain h2 where h2: "match_history_loop r cx sel ?tail = Some h2"
      and last: "\<And>key. sel = Some key \<Longrightarrow> fst key \<noteq> [] \<Longrightarrow>
           key \<in> (\<lambda>rule. (rr_rule_name rule, rr_priority rule)) ` set ?tail \<Longrightarrow>
           h2 \<noteq> [] \<and> mh_rule_name (last h2) = fst key"
      by blast
    have tail: "key \<in> (\<lambda>rule. (rr_rule_name rule, rr_priority rule)) ` set ?tail"
      if "key \<in> (\<lambda>rule. (rr_rule_name rule, rr_priority rule)) ` set rules" "key \<noteq> ?key" for key
      using that Cons by (intro in_image_dropWhile) auto
    show ?thesis
      using g h2 last tail Cons by (auto simp: Let_def simp del: history_group.simps)
  qed simp
qed

subsection \<open>Routing metadata does not change a decision\<close>

definition same_flow :: "flow_context \<Rightarrow> flow_context \<Rightarrow> bool" where
  "same_flow c d \<longleftrightarrow> effective_destination c = effective_destination d
     \<and> inbound_of c = inbound_of d \<and> fc_process c = fc_process d"

lemma selected_rule_same_flow: "same_flow c d \<Longrightarrow> selected_rule r c = selected_rule r d"
proof -
  assume same: "same_flow c d"
  then have fields: "matches_fields rule e geo (Some c) = matches_fields rule e geo (Some d)" for rule e geo
    by (simp add: matches_fields_def same_flow_def)
  have "matches_with_context rule e geo (Some c) = matches_with_context rule e geo (Some d)" for rule e geo
    unfolding matches_with_context_def fields by (rule refl)
  then have "matched_rule r e (Some c) = matched_rule r e (Some d)" for e
    unfolding matched_rule_def by presburger
  with same show "selected_rule r c = selected_rule r d"
    by (simp add: selected_rule_def same_flow_def)
qed

lemma effective_destination_metadata [simp]:
  "effective_destination (c\<lparr>fc_route_mode := m\<rparr>) = effective_destination c"
  "effective_destination (c\<lparr>fc_resolver_policy := p\<rparr>) = effective_destination c"
  "effective_destination (c\<lparr>fc_tag := t\<rparr>) = effective_destination c"
  "effective_destination (c\<lparr>fc_match_history := h\<rparr>) = effective_destination c"
  "effective_destination (c\<lparr>fc_geo := g\<rparr>) = effective_destination c"
  by (simp_all add: effective_destination_def split: option.split)

lemma same_flow_metadata [simp]:
  "same_flow (c\<lparr>fc_route_mode := m\<rparr>) d = same_flow c d"
  "same_flow (c\<lparr>fc_resolver_policy := p\<rparr>) d = same_flow c d"
  "same_flow (c\<lparr>fc_tag := t\<rparr>) d = same_flow c d"
  "same_flow (c\<lparr>fc_match_history := h\<rparr>) d = same_flow c d"
  "same_flow (c\<lparr>fc_geo := g\<rparr>) d = same_flow c d"
  by (simp_all add: same_flow_def inbound_of_def)

lemma same_flow_refl [simp]: "same_flow c c"
  by (simp add: same_flow_def)

lemma decide_context_selected:
  "decide_context r cx = map_option (\<lambda>sel. or_fallback r (map_option decision_of sel)) (selected_rule r cx)"
  by (simp add: decide_context_def matched_decision_def selected_rule_def option.map_comp comp_def)

lemma match_history_ends:
  assumes "router_ok r" "valid_endpoint (effective_destination cx)"
  shows "\<exists>h. match_history r cx sel = Some h
    \<and> (\<forall>key. sel = Some key \<longrightarrow> fst key \<noteq> [] \<longrightarrow>
         key \<in> (\<lambda>rule. (rr_rule_name rule, rr_priority rule)) ` set (ro_all_rules r) \<longrightarrow>
         h \<noteq> [] \<and> mh_rule_name (last h) = fst key)"
  using match_history_loop_ends [OF assms, of "ro_all_rules r" sel] assms(1)
  by (simp add: match_history_def router_ok_def)

text \<open>Every rule the index can select is one of the rules kept for explanations.\<close>

definition router_complete :: "router \<Rightarrow> bool" where
  "router_complete r \<longleftrightarrow> set (ro_global_rules r) \<subseteq> set (ro_all_rules r)
     \<and> (\<forall>k g. cb_abs (ro_rules r) k = Some g \<longrightarrow> set g \<subseteq> set (ro_all_rules r))"

lemma selected_rule_in_all:
  assumes "router_ok r" "router_complete r" "valid_endpoint (effective_destination cx)"
    and "selected_rule r cx = Some (Some rule)"
  shows "rule \<in> set (ro_all_rules r)"
proof -
  let ?e = "effective_destination cx"
  let ?group = "case combined_lookup (cb_abs (ro_rules r)) ?e of None \<Rightarrow> [] | Some g \<Rightarrow> g"
  have "set (ro_global_rules r @ ?group) \<subseteq> set (ro_all_rules r)"
    using assms(2) combined_lookup_key [of "cb_abs (ro_rules r)" ?e]
    by (cases "combined_lookup (cb_abs (ro_rules r)) ?e") (auto simp: router_complete_def)
  moreover have "set xs' \<subseteq> set xs" if "filter_matching f xs = Some xs'" for f and xs xs' :: "route_rule list"
    using that by (induction xs arbitrary: xs') (auto split: option.splits if_splits)
  ultimately have "set xs' \<subseteq> set (ro_all_rules r)"
    if "filter_matching f (ro_global_rules r @ ?group) = Some xs'" for f xs'
    using that by (meson subset_trans)
  moreover have "cb_wf (ro_rules r)"
    using assms(1) by (simp add: router_ok_def)
  ultimately show ?thesis
    using assms(3,4) by (auto simp: selected_rule_def matched_rule_def combined_search_lookup
        dest!: min_by_key_in)
qed

lemma apply_to_context_ok:
  assumes "router_ok r" "valid_endpoint (effective_destination cx)" "\<not> fc_skip_route cx"
  shows "\<exists>sel c h. selected_rule r cx = Some sel
    \<and> apply_to_context r cx = Some (c\<lparr>fc_match_history := h\<rparr>, or_fallback r (map_option decision_of sel))
    \<and> same_flow c cx \<and> fc_skip_route c = False
    \<and> fc_route_mode c = rd_mode (or_fallback r (map_option decision_of sel))
    \<and> fc_resolver_policy c = rd_resolver_policy (or_fallback r (map_option decision_of sel))
    \<and> fc_tag c = (case sel of Some rule \<Rightarrow> if rr_tag rule \<noteq> [] then Some (rr_tag rule) else None | None \<Rightarrow> None)
    \<and> match_history r c (map_option (\<lambda>rule. (rr_rule_name rule, rr_priority rule)) sel) = Some h"
proof -
  obtain sel where sel: "selected_rule r cx = Some sel"
    using matched_rule_total [OF assms(1,2)] by (auto simp: selected_rule_def)
  let ?d = "or_fallback r (map_option decision_of sel)"
  let ?key = "map_option (\<lambda>rule. (rr_rule_name rule, rr_priority rule)) sel"
  let ?c1 = "cx\<lparr>fc_route_mode := rd_mode ?d, fc_resolver_policy := rd_resolver_policy ?d,
      fc_tag := None, fc_match_history := [], fc_geo := None\<rparr>"
  let ?c2 = "case sel of None \<Rightarrow> ?c1
    | Some rule \<Rightarrow> ?c1\<lparr>fc_tag := (if rr_tag rule \<noteq> [] then Some (rr_tag rule) else None)\<rparr>"
  let ?c3 = "case (ro_geo r, map_option sock_ip (endpoint_addr (effective_destination ?c2))) of
      (Some geo, Some address) \<Rightarrow>
        (case geo address of Inr (Some country) \<Rightarrow> ?c2\<lparr>fc_geo := Some country\<rparr> | _ \<Rightarrow> ?c2)
    | _ \<Rightarrow> ?c2"
  have c1: "selected_rule r ?c1 = Some sel"
    using sel selected_rule_same_flow [of ?c1 cx r] by simp
  have c3: "\<exists>g. ?c3 = ?c2\<lparr>fc_geo := g\<rparr>"
    by (auto intro: exI [of _ None] split: option.splits sum.splits)
  then obtain g where g: "?c3 = ?c2\<lparr>fc_geo := g\<rparr>"
    by blast
  have flow: "same_flow ?c3 cx" "fc_skip_route ?c3 = False" "fc_route_mode ?c3 = rd_mode ?d"
      "fc_resolver_policy ?c3 = rd_resolver_policy ?d"
      "fc_tag ?c3 = (case sel of Some rule \<Rightarrow> if rr_tag rule \<noteq> [] then Some (rr_tag rule) else None | None \<Rightarrow> None)"
    unfolding g using assms(3) by (auto split: option.splits)
  obtain h where h: "match_history r ?c3 ?key = Some h"
    using match_history_ends [OF assms(1), of ?c3 ?key] flow(1) assms(2) by (auto simp: same_flow_def)
  have "apply_to_context r cx = Some (?c3\<lparr>fc_match_history := h\<rparr>, ?d)"
    using assms(3) sel c1 h unfolding apply_to_context_def by (simp only: Let_def option.case if_False)
  with sel flow h show ?thesis
    by blast
qed

lemma router_compile_complete:
  assumes "rules_fit rules" "patterns_parse rules" "patterns_spelled_once rules"
    and "router_compile rules fallback = Some (Inr r)"
  shows "router_complete r"
  using router_compile_ok [OF assms(1-3), of fallback] assms(4)
  by (auto simp: router_complete_def nonempty_group_def pattern_rules_def split: if_splits)

subsection \<open>Properties\<close>

text \<open>A rule with a pattern, an action and a priority value, and no other condition.\<close>

definition plain_rule :: "string \<Rightarrow> string \<Rightarrow> rule_action \<Rightarrow> int \<Rightarrow> route_rule" where
  "plain_rule name pattern action priority =
     \<lparr>rr_rule_name = name, rr_tag = [], rr_list_names = [], rr_pattern = pattern, rr_host_lists = [],
      rr_required_patterns = [], rr_always_false = False, rr_action = action, rr_network = None,
      rr_excluded_networks = [], rr_port = None, rr_excluded_ports = [], rr_geo_country = None,
      rr_excluded_geo_countries = [], rr_inbound_names = [], rr_excluded_inbound_names = [],
      rr_process_names = [], rr_excluded_process_names = [], rr_excluded_patterns = host_trie_new,
      rr_excluded_host_lists = [], rr_resolver_policy = resolver_policy_default, rr_priority = priority\<rparr>"

definition block_fallback :: route_decision where
  "block_fallback = \<lparr>rd_mode = Block, rd_resolver_policy = resolver_policy_default, rd_priority = 100\<rparr>"

lemma plain_rule_ok [simp]: "rule_ok (plain_rule n p a i)"
  by (simp add: plain_rule_def rule_ok_def host_trie_new_def cb_new)


text \<open>
  C11: publishing is all or nothing. Compiling never panics while the patterns fit; it fails
  exactly when a pattern does not parse, and then the current snapshot stays; otherwise the
  previous snapshot is returned and rolling back to it restores the runtime.
\<close>

theorem publish_all_or_nothing:
  assumes "rules_fit rules"
  shows "\<exists>rt1 res. compile_and_publish rt rules fallback = Some (rt1, res)
    \<and> (is_ok res \<longleftrightarrow> patterns_parse rules)
    \<and> (case res of Inl _ \<Rightarrow> rt1 = rt
       | Inr old \<Rightarrow> old = snapshot rt \<and> ro_fallback (snapshot rt1) = fallback
           \<and> rollback rt1 old = (rt, snapshot rt1))"
proof (cases "patterns_parse rules")
  case True
  then show ?thesis
    using router_compile_router_ok [OF assms True, of fallback]
    by (auto simp: compile_and_publish_def publish_def rollback_def snapshot_def is_ok_def)
next
  case False
  then show ?thesis
    using router_compile_err [OF assms False, of fallback]
    by (auto simp: compile_and_publish_def is_ok_def)
qed


definition sample_rules :: "route_rule list" where
  "sample_rules = [plain_rule ''all'' [] ActDirect 9, plain_rule ''a'' ''a.com'' ActProxy 5]"

lemma router_compile_no_geo: "router_compile rules fallback = Some (Inr r) \<Longrightarrow> ro_geo r = None"
  by (auto simp: router_compile_def Let_def split: option.splits sum.splits prod.splits)

lemma sample_rules_ok:
  "rules_fit sample_rules" "patterns_parse sample_rules" "patterns_spelled_once sample_rules"
  "list_all rule_ok sample_rules"
  by (code_simp, code_simp, code_simp, simp add: sample_rules_def)


definition empty_router :: router where
  "empty_router = \<lparr>ro_rules = combined_trie_new, ro_all_rules = [], ro_global_rules = [],
     ro_fallback = block_fallback, ro_geo = None\<rparr>"

theorem publish_all_or_nothing_witness:
  "\<exists>rt1. compile_and_publish (router_runtime_new empty_router) sample_rules block_fallback
       = Some (rt1, Inr empty_router)
     \<and> rollback rt1 empty_router = (router_runtime_new empty_router, snapshot rt1)"
  using publish_all_or_nothing [OF sample_rules_ok(1), of "router_runtime_new empty_router" block_fallback]
    sample_rules_ok(2)
  by (auto simp: router_runtime_new_def snapshot_def is_ok_def split: sum.splits)


text \<open>
  Of two rules that spell one pattern differently only one is kept: with
  \<open>A.com\<close> at priority 1 and \<open>a.com\<close> at priority 2, the later spelling in byte order replaces the
  rule of the lower priority value, and the flow is routed by priority 2.
\<close>

lemma respelled_pattern_replaces_rule:
  "case router_compile [plain_rule ''first'' ''A.com'' ActDirect 1, plain_rule ''second'' ''a.com'' ActProxy 2]
          block_fallback of
     Some (Inr r) \<Rightarrow> router_decide r (EDomain Tcp ''a.com'' 80)
       = Some (decision_of (plain_rule ''second'' ''a.com'' ActProxy 2))
   | _ \<Rightarrow> False"
  by code_simp

text \<open>
  Only the rules of the most specific pattern are considered: a rule for \<open>*.b.com\<close> at
  priority 1 is passed over for a rule for \<open>a.b.com\<close> at priority 2.
\<close>

lemma specific_pattern_hides_priority:
  "case router_compile [plain_rule ''first'' ''*.b.com'' ActDirect 1, plain_rule ''second'' ''a.b.com'' ActProxy 2]
          block_fallback of
     Some (Inr r) \<Rightarrow> router_decide r (EDomain Tcp ''a.b.com'' 80)
       = Some (decision_of (plain_rule ''second'' ''a.b.com'' ActProxy 2))
   | _ \<Rightarrow> False"
  by code_simp

end
