(* ===== verification/Route_Rules.thy ===== *)
theory Route_Rules
  imports Router
begin

text \<open>
  The compiler from persisted route rules to the rules of the router
  (\<open>runtime/src/policy/route.rs\<close> and \<open>route_expressions.rs\<close>): the JSON shape of a rule, the expansion
  of its nested conditions into variants, each a conjunction the router can test, and the
  assembly of a router from the records.

  A JSON value has the constructors of \<open>serde_json::Value\<close>; the parser from bytes to values is an
  argument. The names of temporary indexes come from a counter, which is passed along. Inside
  error messages a quoted text appears as \<open>debug_str\<close> shows it.
\<close>

subsection \<open>JSON values\<close>

datatype json_number = PosInt u64 | NegInt int | Float nat

datatype json =
  JNull
| JBool bool
| JNumber json_number
| JString string
| JArray "json list"
| JObject "(string \<times> json) list"

fun json_get :: "json \<Rightarrow> string \<Rightarrow> json option" where
  "json_get (JObject m) key = map_of m key"
| "json_get _ key = None"

fun as_str :: "json \<Rightarrow> string option" where
  "as_str (JString s) = Some s"
| "as_str _ = None"

fun as_array :: "json \<Rightarrow> json list option" where
  "as_array (JArray vs) = Some vs"
| "as_array _ = None"

fun as_bool :: "json \<Rightarrow> bool option" where
  "as_bool (JBool b) = Some b"
| "as_bool _ = None"

fun as_u64 :: "json \<Rightarrow> u64 option" where
  "as_u64 (JNumber (PosInt n)) = Some n"
| "as_u64 _ = None"

fun is_object :: "json \<Rightarrow> bool" where
  "is_object (JObject _) = True"
| "is_object _ = False"

definition and_then :: "'a option \<Rightarrow> ('a \<Rightarrow> 'b option) \<Rightarrow> 'b option" where
  "and_then = Option.bind"

definition unwrap_or :: "'a option \<Rightarrow> 'a \<Rightarrow> 'a" where
  "unwrap_or x d = (case x of None \<Rightarrow> d | Some v \<Rightarrow> v)"

fun find_map :: "('a \<Rightarrow> 'b option) \<Rightarrow> 'a list \<Rightarrow> 'b option" where
  "find_map f [] = None"
| "find_map f (x # xs) = (case f x of None \<Rightarrow> find_map f xs | Some y \<Rightarrow> Some y)"

text \<open>\<open>str::split\<close> at any of some characters.\<close>

fun split_any :: "char list \<Rightarrow> string \<Rightarrow> string list" where
  "split_any seps [] = [[]]"
| "split_any seps (c # cs) =
     (if c \<in> set seps then [] # split_any seps cs
      else (case split_any seps cs of [] \<Rightarrow> [[c]] | w # ws \<Rightarrow> (c # w) # ws))"

definition sort_strings :: "string list \<Rightarrow> string list" where
  "sort_strings = sort_key as_bytes"

fun dedup_by :: "('a \<Rightarrow> 'a \<Rightarrow> bool) \<Rightarrow> 'a list \<Rightarrow> 'a list" where
  "dedup_by same (x # y # ys) = (if same x y then dedup_by same (x # ys) else x # dedup_by same (y # ys))"
| "dedup_by same xs = xs"

text \<open>The quoted form of an ASCII text.\<close>

definition debug_char :: "char \<Rightarrow> string" where
  "debug_char c =
     (if c = CHR 0x22 then [CHR 0x5C, CHR 0x22] else if c = CHR 0x5C then [CHR 0x5C, CHR 0x5C]
      else if c = CHR 0x0A then [CHR 0x5C, CHR ''n''] else if c = CHR 0x0D then [CHR 0x5C, CHR ''r'']
      else if c = CHR 0x09 then [CHR 0x5C, CHR ''t''] else if c = CHR 0x00 then [CHR 0x5C, CHR ''0'']
      else if code c < 32 \<or> code c = 127 then [CHR 0x5C, CHR ''u'', CHR 0x7B] @ show_hex (code c) @ [CHR 0x7D]
      else [c])"

definition debug_str :: "string \<Rightarrow> string" where
  "debug_str s = [CHR 0x22] @ concat (map debug_char s) @ [CHR 0x22]"

fun debug_kind :: "error_kind \<Rightarrow> string" where
  "debug_kind InvalidInput = ''InvalidInput''"
| "debug_kind NotFound = ''NotFound''"
| "debug_kind Conflict = ''Conflict''"
| "debug_kind Unsupported = ''Unsupported''"
| "debug_kind Io = ''Io''"
| "debug_kind Protocol = ''Protocol''"
| "debug_kind Storage = ''Storage''"
| "debug_kind Timeout = ''Timeout''"
| "debug_kind Closed = ''Closed''"

definition show_error :: "error \<Rightarrow> string" where
  "show_error e = debug_kind (err_kind e) @ '': '' @ err_message e"

subsection \<open>Fields of a rule\<close>

definition field :: "json \<Rightarrow> json \<Rightarrow> string list \<Rightarrow> json option" where
  "field root nested keys = find_map (\<lambda>key. or_else (json_get root key) (json_get nested key)) keys"

definition bool_field :: "json \<Rightarrow> json \<Rightarrow> string list \<Rightarrow> bool option" where
  "bool_field root nested keys = and_then (field root nested keys) as_bool"

definition string_field :: "json \<Rightarrow> string list \<Rightarrow> string option" where
  "string_field value keys =
     find_map (\<lambda>key. and_then (and_then (json_get value key) as_str)
                        (\<lambda>s. if trim s = [] then None else Some (trim s))) keys"

definition country_codes :: "string \<Rightarrow> string list" where
  "country_codes s = filter (\<lambda>c. c \<noteq> []) (map trim (split_any '',|'' s))"

fun country_strings :: "json \<Rightarrow> string list" where
  "country_strings (JString s) = country_codes s"
| "country_strings (JArray vs) = concat (map country_codes (List.map_filter as_str vs))"
| "country_strings _ = []"

definition geoip_countries :: "json \<Rightarrow> string list" where
  "geoip_countries value =
     (if \<not> is_object value then country_strings value
      else unwrap_or
             (find_map (\<lambda>key. and_then (json_get value key)
                          (\<lambda>v. if country_strings v = [] then None else Some (country_strings v)))
                [''countries'', ''country'', ''country_codes'', ''countryCodes'']) [])"

definition invalid_port :: "string \<Rightarrow> error" where
  "invalid_port rid = error_new InvalidInput (''route rule '' @ rid @ '' has an invalid port range'')"

definition port_of_u64 :: "u64 \<Rightarrow> u16 option" where
  "port_of_u64 n = (if unat n < 65536 then Some (of_nat (unat n)) else None)"

definition port_of_text :: "string \<Rightarrow> u16 option" where
  "port_of_text s = map_option of_nat (parse_uint 16 10 (trim s))"

definition port_range_of_text :: "string \<Rightarrow> (u16 \<times> u16) option" where
  "port_range_of_text s =
     (case split_on CHR ''-'' s of
        [] \<Rightarrow> None
      | [a] \<Rightarrow> map_option (\<lambda>p. (p, p)) (port_of_text a)
      | [a, b] \<Rightarrow> (case (port_of_text a, port_of_text b) of (Some p, Some q) \<Rightarrow> Some (p, q) | _ \<Rightarrow> None)
      | _ \<Rightarrow> None)"

definition port_at :: "json \<Rightarrow> string \<Rightarrow> string \<Rightarrow> u16 option" where
  "port_at value key alias = and_then (and_then (or_else (json_get value key) (json_get value alias)) as_u64) port_of_u64"

definition port_range :: "json \<Rightarrow> (u16 \<times> u16) option" where
  "port_range value =
     (case as_u64 value of
        Some n \<Rightarrow> map_option (\<lambda>p. (p, p)) (port_of_u64 n)
      | None \<Rightarrow>
     (case as_str value of
        Some s \<Rightarrow> port_range_of_text s
      | None \<Rightarrow>
          if is_object value then
            (case (port_at value ''start'' ''from'', port_at value ''end'' ''to'') of
               (Some p, Some q) \<Rightarrow> Some (p, q)
             | _ \<Rightarrow> None)
          else None))"

definition parse_port :: "json option \<Rightarrow> string \<Rightarrow> (u16 \<times> u16) option result" where
  "parse_port value rid =
     (case value of
        None \<Rightarrow> Inr None
      | Some v \<Rightarrow>
          (case port_range v of
             None \<Rightarrow> Inl (invalid_port rid)
           | Some (start, end') \<Rightarrow> if start > end' then Inl (invalid_port rid) else Inr (Some (start, end'))))"

definition parse_network_text :: "string option \<Rightarrow> string \<Rightarrow> network option result" where
  "parse_network_text value rid =
     (case value of
        None \<Rightarrow> Inr None
      | Some s \<Rightarrow>
          (let v = to_ascii_lowercase (trim s) in
           if v = '''' \<or> v = ''any'' \<or> v = ''all'' then Inr None
           else if v = ''tcp'' then Inr (Some Tcp)
           else if v = ''udp'' then Inr (Some Udp)
           else if v = ''icmp'' then Inr (Some Icmp)
           else Inl (error_new Unsupported (''route rule '' @ rid @ '' has unsupported network '' @ debug_str v))))"

definition parse_network :: "json option \<Rightarrow> string \<Rightarrow> network option result" where
  "parse_network value rid =
     (case value of
        None \<Rightarrow> Inr None
      | Some v \<Rightarrow>
          (case as_str v of
             None \<Rightarrow> Inl (error_new InvalidInput (''route rule '' @ rid @ '' network must be a string''))
           | Some s \<Rightarrow> parse_network_text (Some s) rid))"

definition parse_action :: "string \<Rightarrow> json \<Rightarrow> string \<Rightarrow> rule_action result" where
  "parse_action mode root rid =
     (let v = to_ascii_lowercase (trim (unwrap_or (string_field root [''mode'', ''action'']) mode)) in
      if v = ''direct'' then Inr ActDirect
      else if v = ''proxy'' then Inr ActProxy
      else if v = ''bypass'' then Inr ActBypass
      else if v = ''drop'' \<or> v = ''block'' then Inr ActDrop
      else Inl (error_new Unsupported (''route rule '' @ rid @ '' has unsupported action '' @ debug_str v)))"

definition parse_strategy :: "string \<Rightarrow> string \<Rightarrow> resolve_strategy result" where
  "parse_strategy s rid =
     (let v = to_ascii_lowercase (trim s) in
      if v = '''' \<or> v = ''default'' then Inr DefaultStrategy
      else if v = ''only_ipv4'' \<or> v = ''onlyipv4'' \<or> v = ''ipv4'' then Inr OnlyIpv4
      else if v = ''prefer_ipv4'' \<or> v = ''preferipv4'' then Inr PreferIpv4
      else if v = ''only_ipv6'' \<or> v = ''onlyipv6'' \<or> v = ''ipv6'' then Inr OnlyIpv6
      else if v = ''prefer_ipv6'' \<or> v = ''preferipv6'' then Inr PreferIpv6
      else Inl (error_new Unsupported (''route rule '' @ rid @ '' has unsupported resolve strategy '' @ debug_str v)))"

definition parse_resolver_policy :: "json \<Rightarrow> json \<Rightarrow> rule_action \<Rightarrow> string \<Rightarrow> resolver_policy result" where
  "parse_resolver_policy root matcher action rid =
     (let policy = unwrap_or (or_else (json_get root ''resolverPolicy'') (json_get root ''resolver_policy'')) JNull;
          strategy_value = or_else (field root policy [''resolve_strategy'', ''resolveStrategy''])
                             (field matcher policy [''resolve_strategy'', ''resolveStrategy''])
      in rbind (case strategy_value of
                  None \<Rightarrow> Inr DefaultStrategy
                | Some v \<Rightarrow>
                    (case as_str v of
                       None \<Rightarrow> Inl (error_new InvalidInput (''route rule '' @ rid @ '' resolve strategy must be a string''))
                     | Some s \<Rightarrow> parse_strategy s rid))
           (\<lambda>strategy. Inr
              \<lparr>rp_strategy = strategy,
               rp_use_fake_ip = unwrap_or (bool_field root policy [''use_fake_ip'', ''useFakeIp'']) (action = ActProxy),
               rp_fake_ip_skip_check_upstream =
                 unwrap_or (bool_field root policy
                   [''fake_ip_skip_check_upstream'', ''fakeIpSkipCheckUpstream'', ''skip_check_upstream'']) False,
               rp_udp_skip_resolve_target =
                 unwrap_or (bool_field root policy [''udp_skip_resolve_target'', ''udpSkipResolveTarget'']) False\<rparr>))"

definition string_items :: "json \<Rightarrow> string list option" where
  "string_items value = map_option (List.map_filter as_str) (and_then (json_get value ''names'') as_array)"

definition inbound_names_of :: "json \<Rightarrow> string list" where
  "inbound_names_of value =
     remdups_adj (sort_strings (unwrap_or (string_items value) []
       @ (case string_field value [''name''] of None \<Rightarrow> [] | Some name \<Rightarrow> [name])))"

definition parse_inbound_names :: "json \<Rightarrow> json \<Rightarrow> string list option" where
  "parse_inbound_names root matcher =
     (let names = inbound_names_of (unwrap_or (or_else (json_get root ''inbound'') (json_get matcher ''inbound'')) JNull)
      in if names = [] then None else Some names)"

definition parse_process_names :: "json \<Rightarrow> json \<Rightarrow> string list option" where
  "parse_process_names root matcher =
     (let value = unwrap_or (or_else (json_get root ''process'') (json_get matcher ''process'')) JNull;
          names = or_else (string_items value) (map_option (\<lambda>s. [s]) (string_field value [''name'', ''path'']))
      in case names of None \<Rightarrow> None | Some ns \<Rightarrow> if ns = [] then None else Some ns)"

subsection \<open>Route lists\<close>

text \<open>The normalised lists a rule may refer to; \<open>BTreeMap\<close>s as lists in key order.\<close>

record route_list_snapshot =
  rl_values :: "(string \<times> string list) list"
  rl_kinds :: "(string \<times> string) list"
  rl_host_indexes :: "(string \<times> host_trie) list"
  rl_errors :: "(string \<times> string) list"

definition route_list_snapshot_default :: route_list_snapshot where
  "route_list_snapshot_default = \<lparr>rl_values = [], rl_kinds = [], rl_host_indexes = [], rl_errors = []\<rparr>"

definition list_values :: "route_list_snapshot \<Rightarrow> string \<Rightarrow> string list option" where
  "list_values snap name = map_of (rl_values snap) name"

definition host_index :: "route_list_snapshot \<Rightarrow> string \<Rightarrow> host_trie option" where
  "host_index snap name = map_of (rl_host_indexes snap) name"

definition list_error :: "route_list_snapshot \<Rightarrow> string \<Rightarrow> string option" where
  "list_error snap name = map_of (rl_errors snap) name"

definition snapshot_list_names :: "route_list_snapshot \<Rightarrow> string list" where
  "snapshot_list_names snap = map fst (rl_values snap)"

definition snapshot_error_names :: "route_list_snapshot \<Rightarrow> string list" where
  "snapshot_error_names snap = map fst (rl_errors snap)"

definition process_path_matches :: "string \<Rightarrow> string \<Rightarrow> bool" where
  "process_path_matches actual expected =
     (let without_deleted_suffix = (\<lambda>path. unwrap_or (strip_suffix '' (deleted)'' path) path)
      in without_deleted_suffix actual = without_deleted_suffix expected)"

text \<open>\<open>matching_names\<close>: the lists a flow belongs to; \<open>None\<close> when a search panics.\<close>

definition list_matches :: "route_list_snapshot \<Rightarrow> flow_context \<Rightarrow> string \<times> string list \<Rightarrow> bool option" where
  "list_matches snap cx nv =
     (let kind = unwrap_or (map_of (rl_kinds snap) (fst nv)) [] in
      if kind = ''process'' \<or> kind = ''processes'' then
        Some (case fc_process cx of None \<Rightarrow> False | Some p \<Rightarrow> list_ex (process_path_matches p) (snd nv))
      else
        (case map_of (rl_host_indexes snap) (fst nv) of
           None \<Rightarrow> Some False
         | Some index \<Rightarrow> host_trie_search_parent index (effective_destination cx)))"

definition matching_names :: "route_list_snapshot \<Rightarrow> flow_context \<Rightarrow> string list option" where
  "matching_names snap cx = map_option (map fst) (filter_matching (list_matches snap cx) (rl_values snap))"

subsection \<open>Variants\<close>

record rule_variant =
  rv_pattern :: "string option"
  rv_host_lists :: "host_trie list"
  rv_additional_patterns :: "string list"
  rv_network :: "network option"
  rv_excluded_networks :: "network list"
  rv_port :: "(u16 \<times> u16) option"
  rv_excluded_ports :: "(u16 \<times> u16) list"
  rv_geo_country :: "string option"
  rv_excluded_geo_countries :: "string list"
  rv_inbound_names :: "string list option"
  rv_excluded_inbound_names :: "string list option"
  rv_process_names :: "string list option"
  rv_excluded_process_names :: "string list option"
  rv_excluded_patterns :: "string list"
  rv_excluded_host_lists :: "host_trie list"
  rv_list_names :: "string list"
  rv_always_false :: bool

definition rule_variant_default :: rule_variant where
  "rule_variant_default =
     \<lparr>rv_pattern = None, rv_host_lists = [], rv_additional_patterns = [], rv_network = None,
      rv_excluded_networks = [], rv_port = None, rv_excluded_ports = [], rv_geo_country = None,
      rv_excluded_geo_countries = [], rv_inbound_names = None, rv_excluded_inbound_names = None,
      rv_process_names = None, rv_excluded_process_names = None, rv_excluded_patterns = [],
      rv_excluded_host_lists = [], rv_list_names = [], rv_always_false = False\<rparr>"

datatype rule_expression_kind =
  KAll | KAny | KNot | KHost | KNetwork | KPort | KGeoip | KInbound | KProcess | KPattern | KUnsupported string

definition expression_type :: "json \<Rightarrow> string" where
  "expression_type value = to_ascii_lowercase (unwrap_or (and_then (json_get value ''type'') as_str) [])"

definition kind_of :: "json \<Rightarrow> rule_expression_kind" where
  "kind_of value =
     (let kind = expression_type value in
      if kind = ''all'' \<or> json_get value ''all'' \<noteq> None then KAll
      else if kind = ''any'' \<or> json_get value ''any'' \<noteq> None then KAny
      else if kind = ''not'' \<or> json_get value ''not'' \<noteq> None then KNot
      else if kind = ''host'' then KHost
      else if kind = ''network'' then KNetwork
      else if kind = ''port'' then KPort
      else if kind = ''geoip'' then KGeoip
      else if kind = ''inbound'' then KInbound
      else if kind = ''process'' then KProcess
      else if kind = ''domain'' \<or> kind = ''cidr'' \<or> kind = ''ip'' then KPattern
      else KUnsupported kind)"

definition route_expression_sort_key :: "json \<Rightarrow> nat" where
  "route_expression_sort_key value =
     (let kind = expression_type value in
      if kind = ''port'' \<or> kind = ''network'' then 1
      else if kind = ''process'' then 2
      else if kind = ''inbound'' then 3
      else if kind = ''geoip'' then 4
      else if kind = ''host'' then 5
      else 255)"

definition unsupported_expression :: "string \<Rightarrow> string \<Rightarrow> error" where
  "unsupported_expression rid detail = error_new Unsupported (''route rule '' @ rid @ '' has unsupported '' @ detail)"

definition intersect_ports :: "(u16 \<times> u16) option \<Rightarrow> (u16 \<times> u16) option \<Rightarrow> (u16 \<times> u16) option" where
  "intersect_ports l r =
     (case (l, r) of
        (Some (ls, le), Some (rs, re)) \<Rightarrow>
          (let start = max ls rs; end' = min le re in if start \<le> end' then Some (start, end') else None)
      | (Some p, None) \<Rightarrow> Some p
      | (None, Some p) \<Rightarrow> Some p
      | (None, None) \<Rightarrow> None)"

definition intersect_name_constraints ::
  "string list option \<Rightarrow> string list option \<Rightarrow> string list option option" where
  "intersect_name_constraints l r =
     (case (l, r) of
        (None, None) \<Rightarrow> Some None
      | (Some vs, None) \<Rightarrow> Some (Some vs)
      | (None, Some vs) \<Rightarrow> Some (Some vs)
      | (Some ls, Some rs) \<Rightarrow>
          (let vs = filter (\<lambda>v. v \<in> set rs) ls in if vs = [] then None else Some (Some vs)))"

definition union_name_constraints :: "string list option \<Rightarrow> string list option \<Rightarrow> string list option" where
  "union_name_constraints l r =
     (let vs = remdups_adj (sort_strings (unwrap_or l [] @ unwrap_or r [])) in if vs = [] then None else Some vs)"

fun network_rank :: "network \<Rightarrow> nat" where
  "network_rank Tcp = 0"
| "network_rank Udp = 1"
| "network_rank Icmp = 2"
| "network_rank Any = 3"

definition add_names :: "string list \<Rightarrow> string list \<Rightarrow> string list" where
  "add_names names more_names = foldl (\<lambda>ns n. if n \<in> set ns then ns else ns @ [n]) names more_names"

text \<open>
  The body of the inner loop of \<open>combine_all\<close>: the whole function returns, the pair is skipped,
  or the conjunction of the two variants is kept. The code sorts countries by their lower-case
  text with an unstable sort and keeps one spelling of each; the model sorts stably.
\<close>

datatype combination = Abandon | Skip | Keep rule_variant

definition merge_variants ::
  "rule_variant \<Rightarrow> rule_variant \<Rightarrow> string list option \<Rightarrow> string list option \<Rightarrow> rule_variant" where
  "merge_variants l r inbound_names process_names =
     \<lparr>rv_pattern = or_else (rv_pattern l) (rv_pattern r),
      rv_host_lists = rv_host_lists l @ rv_host_lists r,
      rv_additional_patterns =
        rv_additional_patterns l
        @ (case rv_pattern r of Some p \<Rightarrow> if rv_pattern l \<noteq> None then [p] else [] | None \<Rightarrow> [])
        @ rv_additional_patterns r,
      rv_network = or_else (rv_network l) (rv_network r),
      rv_excluded_networks =
        remdups_adj (sort_key network_rank (rv_excluded_networks l @ rv_excluded_networks r)),
      rv_port = intersect_ports (rv_port l) (rv_port r),
      rv_excluded_ports =
        remdups_adj (sort_key (\<lambda>(a, b). unat a * 65536 + unat b) (rv_excluded_ports l @ rv_excluded_ports r)),
      rv_geo_country = or_else (rv_geo_country l) (rv_geo_country r),
      rv_excluded_geo_countries =
        dedup_by eq_ignore_ascii_case
          (sort_key (\<lambda>c. as_bytes (to_ascii_lowercase c))
             (rv_excluded_geo_countries l @ rv_excluded_geo_countries r)),
      rv_inbound_names = inbound_names,
      rv_excluded_inbound_names =
        union_name_constraints (rv_excluded_inbound_names l) (rv_excluded_inbound_names r),
      rv_process_names = process_names,
      rv_excluded_process_names =
        union_name_constraints (rv_excluded_process_names l) (rv_excluded_process_names r),
      rv_excluded_patterns = rv_excluded_patterns l @ rv_excluded_patterns r,
      rv_excluded_host_lists = rv_excluded_host_lists l @ rv_excluded_host_lists r,
      rv_list_names = add_names (rv_list_names l) (rv_list_names r),
      rv_always_false = (rv_always_false l \<or> rv_always_false r)\<rparr>"

definition combine_pair :: "rule_variant \<Rightarrow> rule_variant \<Rightarrow> combination" where
  "combine_pair l r =
     (if (case (rv_network l, rv_network r) of (Some a, Some b) \<Rightarrow> a \<noteq> b | _ \<Rightarrow> False) then Abandon
      else if rv_port l \<noteq> None \<and> rv_port r \<noteq> None \<and> intersect_ports (rv_port l) (rv_port r) = None then Skip
      else if (case (rv_geo_country l, rv_geo_country r) of
                 (Some a, Some b) \<Rightarrow> \<not> eq_ignore_ascii_case a b | _ \<Rightarrow> False) then Skip
      else
        (case intersect_name_constraints (rv_inbound_names l) (rv_inbound_names r) of
           None \<Rightarrow> Skip
         | Some inbound_names \<Rightarrow>
        (case intersect_name_constraints (rv_process_names l) (rv_process_names r) of
           None \<Rightarrow> Skip
         | Some process_names \<Rightarrow> Keep (merge_variants l r inbound_names process_names))))"

fun combine_pairs :: "(rule_variant \<times> rule_variant) list \<Rightarrow> rule_variant list option" where
  "combine_pairs [] = Some []"
| "combine_pairs ((l, r) # pairs) =
     (case combine_pair l r of
        Abandon \<Rightarrow> None
      | Skip \<Rightarrow> combine_pairs pairs
      | Keep v \<Rightarrow> map_option ((#) v) (combine_pairs pairs))"

text \<open>\<open>combine_all\<close>, with the parser of a child as an argument.\<close>

fun combine_all :: "(json \<Rightarrow> rule_variant list result) \<Rightarrow> rule_variant list \<Rightarrow> json list \<Rightarrow> rule_variant list result" where
  "combine_all parse variants [] = Inr variants"
| "combine_all parse variants (child # children) =
     rbind (parse child) (\<lambda>child_variants.
       case combine_pairs (List.product variants child_variants) of
         None \<Rightarrow> Inr []
       | Some combined \<Rightarrow> combine_all parse combined children)"

fun extend_all :: "(json \<Rightarrow> rule_variant list result) \<Rightarrow> json list \<Rightarrow> rule_variant list result" where
  "extend_all parse [] = Inr []"
| "extend_all parse (child # children) =
     rbind (parse child) (\<lambda>variants. rbind (extend_all parse children) (\<lambda>rest. Inr (variants @ rest)))"

lemma combine_all_cong [fundef_cong]:
  "xs = ys \<Longrightarrow> (\<And>c. c \<in> set ys \<Longrightarrow> f c = g c) \<Longrightarrow> vs = ws \<Longrightarrow> combine_all f vs xs = combine_all g ws ys"
proof -
  have "(\<And>c. c \<in> set ys \<Longrightarrow> f c = g c) \<Longrightarrow> combine_all f ws ys = combine_all g ws ys"
    by (induction ys arbitrary: ws) (auto simp: rbind_def split: sum.splits option.splits)
  then show "xs = ys \<Longrightarrow> (\<And>c. c \<in> set ys \<Longrightarrow> f c = g c) \<Longrightarrow> vs = ws \<Longrightarrow> combine_all f vs xs = combine_all g ws ys"
    by simp
qed

lemma extend_all_cong [fundef_cong]:
  "xs = ys \<Longrightarrow> (\<And>c. c \<in> set ys \<Longrightarrow> f c = g c) \<Longrightarrow> extend_all f xs = extend_all g ys"
proof -
  have "(\<And>c. c \<in> set ys \<Longrightarrow> f c = g c) \<Longrightarrow> extend_all f ys = extend_all g ys"
    by (induction ys) auto
  then show "xs = ys \<Longrightarrow> (\<And>c. c \<in> set ys \<Longrightarrow> f c = g c) \<Longrightarrow> extend_all f xs = extend_all g ys"
    by simp
qed

definition port_variants :: "json \<Rightarrow> string \<Rightarrow> rule_variant list result" where
  "port_variants value rid =
     extend_all (\<lambda>v. rbind (parse_port (Some v) rid) (\<lambda>port. Inr [rule_variant_default\<lparr>rv_port := port\<rparr>]))
       (case as_array value of Some vs \<Rightarrow> vs | None \<Rightarrow> [value])"

definition host_variants :: "route_list_snapshot \<Rightarrow> string \<Rightarrow> json \<Rightarrow> bool \<Rightarrow> rule_variant list result" where
  "host_variants snap rid value negated =
     (case string_field (unwrap_or (json_get value ''host'') value) [''list'', ''name''] of
        None \<Rightarrow> Inl (unsupported_expression rid ''host list name'')
      | Some name \<Rightarrow>
          (let named = rule_variant_default\<lparr>rv_list_names := [name]\<rparr> in
           if unwrap_or (list_values snap name) [] = [] then Inr [named\<lparr>rv_always_false := (\<not> negated)\<rparr>]
           else if negated then
             Inr [case host_index snap name of
                    Some index \<Rightarrow> named\<lparr>rv_excluded_host_lists := [index]\<rparr>
                  | None \<Rightarrow> named]
           else
             Inr [case host_index snap name of
                    Some index \<Rightarrow> named\<lparr>rv_host_lists := [index]\<rparr>
                  | None \<Rightarrow> named\<lparr>rv_always_false := True\<rparr>]))"

definition process_variants :: "route_list_snapshot \<Rightarrow> string \<Rightarrow> json \<Rightarrow> bool \<Rightarrow> rule_variant list result" where
  "process_variants snap rid value negated =
     (case string_field (unwrap_or (json_get value ''process'') value) [''list'', ''name''] of
        None \<Rightarrow> Inl (unsupported_expression rid ''process list name'')
      | Some name \<Rightarrow>
          (let names = remdups_adj (sort_strings (unwrap_or (list_values snap name) []));
               named = rule_variant_default\<lparr>rv_list_names := [name]\<rparr>
           in if names = [] then Inr []
              else if negated then Inr [named\<lparr>rv_excluded_process_names := Some names\<rparr>]
              else Inr [named\<lparr>rv_process_names := Some names\<rparr>]))"

text \<open>
  The conditions that are not composed of others; the last case is the \<open>unreachable!\<close> of the code,
  which handles the composed ones before.
\<close>

definition leaf_variants ::
  "route_list_snapshot \<Rightarrow> string \<Rightarrow> json \<Rightarrow> bool \<Rightarrow> rule_expression_kind \<Rightarrow> rule_variant list result" where
  "leaf_variants snap rid value negated kind =
     (case kind of
        KHost \<Rightarrow> host_variants snap rid value negated
      | KNetwork \<Rightarrow>
          rbind (parse_network_text (string_field (unwrap_or (json_get value ''network'') value) [''network'', ''protocol'']) rid)
            (\<lambda>network.
               Inr [if negated
                    then rule_variant_default\<lparr>rv_excluded_networks := (case network of None \<Rightarrow> [] | Some n \<Rightarrow> [n])\<rparr>
                    else rule_variant_default\<lparr>rv_network := network\<rparr>])
      | KPort \<Rightarrow>
          (let nested = unwrap_or (json_get value ''port'') value;
               ports = unwrap_or (or_else (json_get nested ''ports'') (json_get nested ''port'')) nested
           in rbind (port_variants ports rid) (\<lambda>variants.
                Inr (if negated
                     then [rule_variant_default\<lparr>rv_excluded_ports := List.map_filter rv_port variants\<rparr>]
                     else variants)))
      | KGeoip \<Rightarrow>
          (let countries = geoip_countries (unwrap_or (json_get value ''geoip'') value) in
           if countries = [] then Inl (unsupported_expression rid ''geoip countries'')
           else if negated then Inr [rule_variant_default\<lparr>rv_excluded_geo_countries := countries\<rparr>]
           else Inr (map (\<lambda>country. rule_variant_default\<lparr>rv_geo_country := Some country\<rparr>) countries))
      | KInbound \<Rightarrow>
          (let names = inbound_names_of (unwrap_or (json_get value ''inbound'') value) in
           if names = [] then Inr []
           else if negated then Inr [rule_variant_default\<lparr>rv_excluded_inbound_names := Some names\<rparr>]
           else Inr [rule_variant_default\<lparr>rv_inbound_names := Some names\<rparr>])
      | KProcess \<Rightarrow> process_variants snap rid value negated
      | KPattern \<Rightarrow>
          (case string_field value [''domain'', ''host'', ''cidr'', ''ip'', ''pattern''] of
             None \<Rightarrow> Inl (unsupported_expression rid ''matcher pattern'')
           | Some p \<Rightarrow>
               Inr [if negated then rule_variant_default\<lparr>rv_excluded_patterns := [p]\<rparr>
                    else rule_variant_default\<lparr>rv_pattern := Some p\<rparr>])
      | KUnsupported other \<Rightarrow> Inl (unsupported_expression rid (''expression type '' @ debug_str other))
      | _ \<Rightarrow> Inl (unsupported_expression rid ''composite expression''))"

definition children_at :: "json \<Rightarrow> string \<Rightarrow> json list" where
  "children_at value key = unwrap_or (and_then (json_get value key) as_array) []"

lemma json_get_smaller: "json_get value key = Some v \<Longrightarrow> size v < size value"
proof (cases "value")
  case (JObject m)
  assume "json_get value key = Some v"
  then have "(key, v) \<in> set m"
    using JObject by (simp add: map_of_SomeD)
  then have "size v < size_list (size_prod (\<lambda>_. 0) size) m"
    by (induction m) auto
  then show ?thesis
    using JObject by simp
qed simp_all

lemma as_array_Some [simp]: "as_array v = Some vs \<longleftrightarrow> v = JArray vs" "Some vs = as_array v \<longleftrightarrow> v = JArray vs"
  by (cases v; auto)+

lemma children_smaller: "c \<in> set (children_at value key) \<Longrightarrow> size c < size value"
proof -
  assume c: "c \<in> set (children_at value key)"
  then obtain v vs where v: "json_get value key = Some v" "v = JArray vs" "c \<in> set vs"
    by (cases "json_get value key") (auto simp: children_at_def unwrap_or_def and_then_def split: option.splits)
  then have "size c < size v"
    by (simp add: less_Suc_eq_le size_list_estimation' [of c vs])
  with json_get_smaller [OF v(1)] show ?thesis
    by simp
qed

function parse_rule_expression_inner :: "route_list_snapshot \<Rightarrow> string \<Rightarrow> json \<Rightarrow> bool \<Rightarrow> rule_variant list result" where
  "parse_rule_expression_inner snap rid value negated =
     (case kind_of value of
        KAll \<Rightarrow>
          (let children = sort_key route_expression_sort_key (children_at value ''all'') in
           if negated then extend_all (\<lambda>c. parse_rule_expression_inner snap rid c True) children
           else combine_all (\<lambda>c. parse_rule_expression_inner snap rid c False) [rule_variant_default] children)
      | KAny \<Rightarrow>
          (let children = children_at value ''any'' in
           if negated then combine_all (\<lambda>c. parse_rule_expression_inner snap rid c True) [rule_variant_default] children
           else extend_all (\<lambda>c. parse_rule_expression_inner snap rid c False) children)
      | KNot \<Rightarrow>
          (case json_get value ''not'' of
             None \<Rightarrow> Inl (unsupported_expression rid ''not expression value'')
           | Some nested \<Rightarrow> parse_rule_expression_inner snap rid nested (\<not> negated))
      | kind \<Rightarrow> leaf_variants snap rid value negated kind)"
  by pat_completeness auto
termination
  by (relation "measure (\<lambda>(_, _, value, _). size value)") (auto simp: children_smaller json_get_smaller)

declare parse_rule_expression_inner.simps [simp del]

definition parse_rule_expression :: "route_list_snapshot \<Rightarrow> string \<Rightarrow> json \<Rightarrow> rule_variant list result" where
  "parse_rule_expression snap rid value = parse_rule_expression_inner snap rid value False"

subsection \<open>Rules from records\<close>

text \<open>
  Building an index takes the next number of the counter, also when the patterns are refused;
  \<open>dir\<close> is the directory of an index with that number.
\<close>

definition compile_excluded_patterns ::
  "(nat \<Rightarrow> string) \<Rightarrow> nat \<Rightarrow> string list \<Rightarrow> string \<Rightarrow> nat \<times> host_trie result" where
  "compile_excluded_patterns dir uid patterns rid =
     (Suc uid,
      case from_patterns uid (dir uid) patterns of
        Inl e \<Rightarrow> Inl (error_new InvalidInput
          (''route rule '' @ rid @ '' has invalid excluded pattern set: '' @ show_error e))
      | Inr index \<Rightarrow> Inr index)"

fun compile_required_patterns ::
  "(nat \<Rightarrow> string) \<Rightarrow> nat \<Rightarrow> string list \<Rightarrow> string \<Rightarrow> nat \<times> host_trie list result" where
  "compile_required_patterns dir uid [] rid = (uid, Inr [])"
| "compile_required_patterns dir uid (pattern # patterns) rid =
     (case from_patterns uid (dir uid) [pattern] of
        Inl e \<Rightarrow> (Suc uid, Inl (error_new InvalidInput
          (''route rule '' @ rid @ '' has invalid required pattern '' @ debug_str pattern @ '': '' @ show_error e)))
      | Inr index \<Rightarrow>
          (let (uid1, rest) = compile_required_patterns dir (Suc uid) patterns rid
           in (uid1, rbind rest (\<lambda>indexes. Inr (index # indexes)))))"

record go_route_rule =
  gr_id :: string
  gr_name :: string
  gr_priority :: int
  gr_disabled :: bool
  gr_action_mode :: string
  gr_match_type :: string
  gr_tag :: string
  gr_updated_at :: int
  gr_data_json :: "byte list"

definition rule_of_variant ::
  "go_route_rule \<Rightarrow> rule_action \<Rightarrow> resolver_policy \<Rightarrow> int \<Rightarrow> rule_variant \<Rightarrow> host_trie list \<Rightarrow> host_trie \<Rightarrow> route_rule" where
  "rule_of_variant rec action policy priority v required excluded =
     \<lparr>rr_rule_name = gr_name rec, rr_tag = gr_tag rec, rr_list_names = rv_list_names v,
      rr_pattern = unwrap_or (rv_pattern v) [], rr_host_lists = rv_host_lists v, rr_required_patterns = required,
      rr_always_false = rv_always_false v, rr_action = action, rr_network = rv_network v,
      rr_excluded_networks = rv_excluded_networks v, rr_port = rv_port v, rr_excluded_ports = rv_excluded_ports v,
      rr_geo_country = rv_geo_country v, rr_excluded_geo_countries = rv_excluded_geo_countries v,
      rr_inbound_names = unwrap_or (rv_inbound_names v) [],
      rr_excluded_inbound_names = unwrap_or (rv_excluded_inbound_names v) [],
      rr_process_names = unwrap_or (rv_process_names v) [],
      rr_excluded_process_names = unwrap_or (rv_excluded_process_names v) [],
      rr_excluded_patterns = excluded, rr_excluded_host_lists = rv_excluded_host_lists v,
      rr_resolver_policy = policy, rr_priority = priority\<rparr>"

definition compile_variant ::
  "(nat \<Rightarrow> string) \<Rightarrow> nat \<Rightarrow> go_route_rule \<Rightarrow> rule_action \<Rightarrow> resolver_policy \<Rightarrow> int \<Rightarrow> rule_variant \<Rightarrow> nat \<times> route_rule result" where
  "compile_variant dir uid rec action policy priority v =
     (case compile_required_patterns dir uid (rv_additional_patterns v) (gr_id rec) of
        (uid1, Inl e) \<Rightarrow> (uid1, Inl e)
      | (uid1, Inr required) \<Rightarrow>
          (case compile_excluded_patterns dir uid1 (rv_excluded_patterns v) (gr_id rec) of
             (uid2, Inl e) \<Rightarrow> (uid2, Inl e)
           | (uid2, Inr excluded) \<Rightarrow> (uid2, Inr (rule_of_variant rec action policy priority v required excluded))))"

text \<open>\<open>collect\<close> into a result: the first error ends it.\<close>

fun collect_results :: "(nat \<Rightarrow> 'a \<Rightarrow> nat \<times> 'b result) \<Rightarrow> nat \<Rightarrow> 'a list \<Rightarrow> nat \<times> 'b list result" where
  "collect_results f uid [] = (uid, Inr [])"
| "collect_results f uid (x # xs) =
     (case f uid x of
        (uid1, Inl e) \<Rightarrow> (uid1, Inl e)
      | (uid1, Inr y) \<Rightarrow> (let (uid2, rest) = collect_results f uid1 xs in (uid2, rbind rest (\<lambda>ys. Inr (y # ys)))))"

definition priority_i32 :: "go_route_rule \<Rightarrow> int result" where
  "priority_i32 rec =
     (if - (2 ^ 31) \<le> gr_priority rec \<and> gr_priority rec < 2 ^ 31 then Inr (gr_priority rec)
      else Inl (error_new InvalidInput (''route rule '' @ gr_id rec @ '' priority is outside i32'')))"

definition match_pattern :: "go_route_rule \<Rightarrow> json \<Rightarrow> string result" where
  "match_pattern rec matcher =
     (let match_type = to_ascii_lowercase (trim (gr_match_type rec)) in
      case (if match_type = ''domain'' \<or> match_type = ''host'' then string_field matcher [''domain'', ''host'', ''pattern'']
            else if match_type = ''cidr'' \<or> match_type = ''ip'' \<or> match_type = ''network''
              then string_field matcher [''cidr'', ''ip'', ''network'', ''pattern'']
            else string_field matcher [''domain'', ''host'', ''cidr'', ''ip'', ''network'', ''pattern'']) of
        None \<Rightarrow> Inl (error_new Unsupported
          (''route rule '' @ gr_id rec @ '' has unsupported matcher type '' @ debug_str (gr_match_type rec)))
      | Some p \<Rightarrow> Inr p)"

definition route_rule_from_root :: "go_route_rule \<Rightarrow> json \<Rightarrow> route_rule result" where
  "route_rule_from_root rec root =
     (let matcher = unwrap_or (or_else (json_get root ''match'') (json_get root ''matcher'')) root in
      rbind (match_pattern rec matcher) (\<lambda>pattern.
      rbind (parse_action (gr_action_mode rec) root (gr_id rec)) (\<lambda>action.
      rbind (parse_network (field root matcher [''network'', ''protocol'']) (gr_id rec)) (\<lambda>network.
      rbind (parse_port (field root matcher [''port'', ''ports'']) (gr_id rec)) (\<lambda>port.
      rbind (parse_resolver_policy root matcher action (gr_id rec)) (\<lambda>policy.
      rbind (priority_i32 rec) (\<lambda>priority.
      Inr
        \<lparr>rr_rule_name = gr_name rec, rr_tag = gr_tag rec, rr_list_names = [], rr_pattern = pattern,
         rr_host_lists = [], rr_required_patterns = [], rr_always_false = False, rr_action = action,
         rr_network = network, rr_excluded_networks = [], rr_port = port, rr_excluded_ports = [],
         rr_geo_country = or_else (string_field root [''geo_country'', ''geoCountry'', ''country''])
                            (string_field matcher [''geo_country'', ''geoCountry'', ''country'']),
         rr_excluded_geo_countries = [],
         rr_inbound_names = unwrap_or (parse_inbound_names root matcher) [], rr_excluded_inbound_names = [],
         rr_process_names = unwrap_or (parse_process_names root matcher) [], rr_excluded_process_names = [],
         rr_excluded_patterns = host_trie_new, rr_excluded_host_lists = [],
         rr_resolver_policy = policy, rr_priority = priority\<rparr>)))))))"

definition parse_data_json :: "(byte list \<Rightarrow> string + json) \<Rightarrow> go_route_rule \<Rightarrow> json result" where
  "parse_data_json from_slice rec =
     (case from_slice (gr_data_json rec) of
        Inl e \<Rightarrow> Inl (error_new InvalidInput (''route rule '' @ gr_id rec @ '' has invalid data_json: '' @ e))
      | Inr root \<Rightarrow> Inr root)"

definition route_rule_from_go_record :: "(byte list \<Rightarrow> string + json) \<Rightarrow> go_route_rule \<Rightarrow> route_rule option result" where
  "route_rule_from_go_record from_slice rec =
     (if gr_disabled rec then Inr None
      else rbind (parse_data_json from_slice rec) (\<lambda>root. rbind (route_rule_from_root rec root) (\<lambda>r. Inr (Some r))))"

definition rule_variants :: "route_list_snapshot \<Rightarrow> string \<Rightarrow> json list \<Rightarrow> rule_variant list result" where
  "rule_variants snap rid expressions =
     (if expressions = [] then Inr [rule_variant_default] else extend_all (parse_rule_expression snap rid) expressions)"

definition expand_go_route_rule ::
  "(byte list \<Rightarrow> string + json) \<Rightarrow> (nat \<Rightarrow> string) \<Rightarrow> route_list_snapshot \<Rightarrow> nat \<Rightarrow> go_route_rule \<Rightarrow> nat \<times> route_rule list result" where
  "expand_go_route_rule from_slice dir snap uid rec =
     (if gr_disabled rec then (uid, Inr [])
      else case parse_data_json from_slice rec of
        Inl e \<Rightarrow> (uid, Inl e)
      | Inr root \<Rightarrow>
          (case and_then (json_get root ''rules'') as_array of
             None \<Rightarrow> (uid, rbind (route_rule_from_root rec root) (\<lambda>r. Inr [r]))
           | Some expressions \<Rightarrow>
               (case rbind (parse_action (gr_action_mode rec) root (gr_id rec)) (\<lambda>action.
                     rbind (parse_resolver_policy root root action (gr_id rec)) (\<lambda>policy.
                     rbind (priority_i32 rec) (\<lambda>priority.
                     rbind (rule_variants snap (gr_id rec) expressions) (\<lambda>variants.
                       Inr (action, policy, priority, variants))))) of
                  Inl e \<Rightarrow> (uid, Inl e)
                | Inr (action, policy, priority, variants) \<Rightarrow>
                    collect_results (\<lambda>uid v. compile_variant dir uid rec action policy priority v) uid variants)))"

definition compile_go_route_rules_with_lists ::
  "(byte list \<Rightarrow> string + json) \<Rightarrow> (nat \<Rightarrow> string) \<Rightarrow> nat \<Rightarrow> go_route_rule list \<Rightarrow> route_list_snapshot \<Rightarrow> route_decision
    \<Rightarrow> geo_lookup option \<Rightarrow> nat \<times> router_runtime result option" where
  "compile_go_route_rules_with_lists from_slice dir uid records snap fallback geo =
     (case collect_results (expand_go_route_rule from_slice dir snap) uid records of
        (uid1, Inl e) \<Rightarrow> (uid1, Some (Inl e))
      | (uid1, Inr rules) \<Rightarrow>
          (uid1,
           case router_compile (concat rules) fallback of
             None \<Rightarrow> None
           | Some (Inl e) \<Rightarrow> Some (Inl e)
           | Some (Inr r) \<Rightarrow>
               Some (Inr (router_runtime_new (case geo of Some g \<Rightarrow> with_geo_lookup r g | None \<Rightarrow> r)))))"

definition compile_go_route_rules_with_geo where
  "compile_go_route_rules_with_geo from_slice dir uid records fallback geo =
     compile_go_route_rules_with_lists from_slice dir uid records route_list_snapshot_default fallback geo"

definition compile_go_route_rules where
  "compile_go_route_rules from_slice dir uid records fallback =
     compile_go_route_rules_with_lists from_slice dir uid records route_list_snapshot_default fallback None"

end
