(* ===== verification/Route_Meaning.thy ===== *)
theory Route_Meaning
  imports Route_Rules
begin

text \<open>
  What the conditions of a route rule mean, as truth values for a flow, and that the variants the
  compiler expands them into accept the same flows.
\<close>

subsection \<open>The meaning of a condition\<close>

definition flow_country :: "endpoint \<Rightarrow> geo_lookup option \<Rightarrow> string option" where
  "flow_country e geo =
     (case (endpoint_addr e, geo) of
        (Some a, Some g) \<Rightarrow> (case g (sock_ip a) of Inr (Some c) \<Rightarrow> Some c | _ \<Rightarrow> None)
      | _ \<Rightarrow> None)"

definition flow_inbound :: "flow_context option \<Rightarrow> string option" where
  "flow_inbound cx = and_then cx inbound_of"

definition flow_process :: "flow_context option \<Rightarrow> string option" where
  "flow_process cx = and_then cx fc_process"

definition in_range :: "endpoint \<Rightarrow> u16 \<times> u16 \<Rightarrow> bool" where
  "in_range e r = (case endpoint_port e of None \<Rightarrow> False | Some p \<Rightarrow> fst r \<le> p \<and> p \<le> snd r)"

definition in_index :: "endpoint \<Rightarrow> host_trie \<Rightarrow> bool" where
  "in_index e index = (host_trie_search_parent index e = Some True)"

definition network_of :: "json \<Rightarrow> network option result" where
  "network_of value =
     parse_network_text (string_field (unwrap_or (json_get value ''network'') value) [''network'', ''protocol'']) []"

definition port_items :: "json \<Rightarrow> json list" where
  "port_items value =
     (let nested = unwrap_or (json_get value ''port'') value;
          ports = unwrap_or (or_else (json_get nested ''ports'') (json_get nested ''port'')) nested
      in case as_array ports of Some vs \<Rightarrow> vs | None \<Rightarrow> [ports])"

text \<open>Membership in a list of patterns, as a computation.\<close>

lemma covered_by_code [code]:
  "covered_by ps labels = list_ex (\<lambda>p. case combined_pattern p of Inr (Inl q) \<Rightarrow> pattern_covers q labels | _ \<Rightarrow> False) ps"
proof -
  have "(case combined_pattern p of Inr (Inl q) \<Rightarrow> pattern_covers q labels | _ \<Rightarrow> False)
      \<longleftrightarrow> (\<exists>q. combined_pattern p = Inr (Inl q) \<and> pattern_covers q labels)" for p
    by (auto split: sum.split)
  then show ?thesis
    unfolding covered_by_def host_keys_def list_ex_iff mem_Collect_eq by blast
qed

lemma list_ex_upto: "list_ex P [m..<Suc n] \<longleftrightarrow> (\<exists>i. m \<le> i \<and> i \<le> n \<and> P i)"
  unfolding list_ex_iff set_upt atLeastLessThan_iff Bex_def by (meson less_Suc_eq_le)

lemma host_member_code [code]:
  "host_member ps parent e =
     (case e of
        EIp _ addr \<Rightarrow>
          (let a = sock_ip addr
           in list_ex (\<lambda>p. list_ex (\<lambda>pl. combined_pattern p = Inr (Inr (is_ipv4 a, take pl (address_bits a)))) [0..<Suc (address_width a)]) ps)
      | EDomain _ host _ \<Rightarrow>
          (let labels = rev (domain_labels host)
           in if parent then list_ex (\<lambda>n. covered_by ps (take n labels)) [1..<Suc (length labels)] else covered_by ps labels))"
proof (cases e)
  case (EIp n addr)
  then show ?thesis
    unfolding host_member_def host_keys_def Let_def list_ex_iff [of _ ps] list_ex_upto mem_Collect_eq by auto
next
  case (EDomain n host p)
  then show ?thesis
    unfolding host_member_def Let_def list_ex_upto by simp
qed

definition leaf_holds ::
  "route_list_snapshot \<Rightarrow> endpoint \<Rightarrow> geo_lookup option \<Rightarrow> flow_context option \<Rightarrow> json \<Rightarrow> bool" where
  "leaf_holds snap e geo cx value =
     (case kind_of value of
        KHost \<Rightarrow>
          (case string_field (unwrap_or (json_get value ''host'') value) [''list'', ''name''] of
             None \<Rightarrow> False
           | Some name \<Rightarrow>
               unwrap_or (list_values snap name) [] \<noteq> []
               \<and> (case host_index snap name of None \<Rightarrow> False | Some index \<Rightarrow> in_index e index))
      | KNetwork \<Rightarrow> (case network_of value of Inr (Some n) \<Rightarrow> endpoint_network e = n | Inr None \<Rightarrow> True | Inl _ \<Rightarrow> False)
      | KPort \<Rightarrow> list_ex (\<lambda>v. case port_range v of None \<Rightarrow> False | Some r \<Rightarrow> in_range e r) (port_items value)
      | KGeoip \<Rightarrow>
          (case flow_country e geo of
             None \<Rightarrow> False
           | Some c \<Rightarrow> list_ex (eq_ignore_ascii_case c) (geoip_countries (unwrap_or (json_get value ''geoip'') value)))
      | KInbound \<Rightarrow>
          (case flow_inbound cx of
             None \<Rightarrow> False | Some n \<Rightarrow> n \<in> set (inbound_names_of (unwrap_or (json_get value ''inbound'') value)))
      | KProcess \<Rightarrow>
          (case string_field (unwrap_or (json_get value ''process'') value) [''list'', ''name''] of
             None \<Rightarrow> False
           | Some name \<Rightarrow>
               (case flow_process cx of None \<Rightarrow> False | Some p \<Rightarrow> p \<in> set (unwrap_or (list_values snap name) [])))
      | KPattern \<Rightarrow>
          (case string_field value [''domain'', ''host'', ''cidr'', ''ip'', ''pattern''] of
             None \<Rightarrow> False | Some p \<Rightarrow> host_member [p] False e)
      | _ \<Rightarrow> False)"

function expression_holds ::
  "route_list_snapshot \<Rightarrow> endpoint \<Rightarrow> geo_lookup option \<Rightarrow> flow_context option \<Rightarrow> json \<Rightarrow> bool" where
  "expression_holds snap e geo cx value =
     (case kind_of value of
        KAll \<Rightarrow> list_all (expression_holds snap e geo cx) (children_at value ''all'')
      | KAny \<Rightarrow> list_ex (expression_holds snap e geo cx) (children_at value ''any'')
      | KNot \<Rightarrow> (case json_get value ''not'' of None \<Rightarrow> False | Some nested \<Rightarrow> \<not> expression_holds snap e geo cx nested)
      | _ \<Rightarrow> leaf_holds snap e geo cx value)"
  by pat_completeness auto
termination
  by (relation "measure (\<lambda>(_, _, _, _, value). size value)") (auto simp: children_smaller json_get_smaller)

declare expression_holds.simps [simp del]

text \<open>
  Conditions that say something when negated: the code reads the negation of a network condition
  without a network as true, and that of an empty list of inbounds or processes as false.
\<close>

function regular :: "route_list_snapshot \<Rightarrow> bool \<Rightarrow> json \<Rightarrow> bool" where
  "regular snap negated value =
     (case kind_of value of
        KAll \<Rightarrow> list_all (regular snap negated) (children_at value ''all'')
      | KAny \<Rightarrow> list_all (regular snap negated) (children_at value ''any'')
      | KNot \<Rightarrow> (case json_get value ''not'' of None \<Rightarrow> True | Some nested \<Rightarrow> regular snap (\<not> negated) nested)
      | KNetwork \<Rightarrow> negated \<longrightarrow> network_of value \<noteq> Inr None
      | KInbound \<Rightarrow> negated \<longrightarrow> inbound_names_of (unwrap_or (json_get value ''inbound'') value) \<noteq> []
      | KProcess \<Rightarrow>
          negated \<longrightarrow>
          (case string_field (unwrap_or (json_get value ''process'') value) [''list'', ''name''] of
             None \<Rightarrow> True | Some name \<Rightarrow> unwrap_or (list_values snap name) [] \<noteq> [])
      | _ \<Rightarrow> True)"
  by pat_completeness auto
termination
  by (relation "measure (\<lambda>(_, _, value). size value)") (auto simp: children_smaller json_get_smaller)

declare regular.simps [simp del]

text \<open>Conditions that require at most the one network \<open>n\<close>.\<close>

function one_network :: "network \<Rightarrow> bool \<Rightarrow> json \<Rightarrow> bool" where
  "one_network n negated value =
     (case kind_of value of
        KAll \<Rightarrow> list_all (one_network n negated) (children_at value ''all'')
      | KAny \<Rightarrow> list_all (one_network n negated) (children_at value ''any'')
      | KNot \<Rightarrow> (case json_get value ''not'' of None \<Rightarrow> True | Some nested \<Rightarrow> one_network n (\<not> negated) nested)
      | KNetwork \<Rightarrow> negated \<or> (case network_of value of Inr (Some m) \<Rightarrow> m = n | _ \<Rightarrow> True)
      | _ \<Rightarrow> True)"
  by pat_completeness auto
termination
  by (relation "measure (\<lambda>(_, _, value). size value)") (auto simp: children_smaller json_get_smaller)

declare one_network.simps [simp del]

subsection \<open>The meaning of a variant\<close>

definition allowed :: "'a list option \<Rightarrow> 'a option \<Rightarrow> bool" where
  "allowed names x = (case names of None \<Rightarrow> True | Some ns \<Rightarrow> (case x of None \<Rightarrow> False | Some v \<Rightarrow> v \<in> set ns))"

definition excluded :: "'a list option \<Rightarrow> 'a option \<Rightarrow> bool" where
  "excluded names x = (case x of None \<Rightarrow> False | Some v \<Rightarrow> v \<in> set (unwrap_or names []))"

definition country_ok :: "string option \<Rightarrow> string option \<Rightarrow> bool" where
  "country_ok expected actual =
     (case expected of None \<Rightarrow> True | Some c \<Rightarrow> (case actual of None \<Rightarrow> False | Some d \<Rightarrow> eq_ignore_ascii_case d c))"

definition country_excluded :: "string list \<Rightarrow> string option \<Rightarrow> bool" where
  "country_excluded cs actual = (case actual of None \<Rightarrow> False | Some d \<Rightarrow> list_ex (eq_ignore_ascii_case d) cs)"

definition variant_patterns :: "rule_variant \<Rightarrow> string list" where
  "variant_patterns v = (case rv_pattern v of None \<Rightarrow> [] | Some p \<Rightarrow> [p]) @ rv_additional_patterns v"

definition variant_holds :: "endpoint \<Rightarrow> geo_lookup option \<Rightarrow> flow_context option \<Rightarrow> rule_variant \<Rightarrow> bool" where
  "variant_holds e geo cx v \<longleftrightarrow>
     \<not> rv_always_false v
     \<and> list_all (\<lambda>p. host_member [p] False e) (variant_patterns v)
     \<and> list_all (\<lambda>p. \<not> host_member [p] False e) (rv_excluded_patterns v)
     \<and> list_all (in_index e) (rv_host_lists v)
     \<and> list_all (\<lambda>i. \<not> in_index e i) (rv_excluded_host_lists v)
     \<and> (case rv_network v of None \<Rightarrow> True | Some n \<Rightarrow> endpoint_network e = n)
     \<and> endpoint_network e \<notin> set (rv_excluded_networks v)
     \<and> (case rv_port v of None \<Rightarrow> True | Some r \<Rightarrow> in_range e r)
     \<and> list_all (\<lambda>r. \<not> in_range e r) (rv_excluded_ports v)
     \<and> country_ok (rv_geo_country v) (flow_country e geo)
     \<and> \<not> country_excluded (rv_excluded_geo_countries v) (flow_country e geo)
     \<and> allowed (rv_inbound_names v) (flow_inbound cx) \<and> \<not> excluded (rv_excluded_inbound_names v) (flow_inbound cx)
     \<and> allowed (rv_process_names v) (flow_process cx) \<and> \<not> excluded (rv_excluded_process_names v) (flow_process cx)"

lemma holds_default [simp]: "variant_holds e geo cx rule_variant_default"
  by (simp add: variant_holds_def rule_variant_default_def variant_patterns_def country_ok_def country_excluded_def
      allowed_def excluded_def unwrap_or_def split: option.splits)

lemma set_sort_strings [simp]: "set (sort_strings xs) = set xs"
  by (simp add: sort_strings_def)

lemma sort_strings_Nil [simp]: "sort_strings xs = [] \<longleftrightarrow> xs = []"
  by (metis length_0_conv length_sort sort_strings_def)

lemma eq_ignore_sym: "eq_ignore_ascii_case a b = eq_ignore_ascii_case b a"
  and eq_ignore_trans: "eq_ignore_ascii_case a b \<Longrightarrow> eq_ignore_ascii_case b c \<Longrightarrow> eq_ignore_ascii_case a c"
  by (auto simp: eq_ignore_ascii_case_def)

lemma list_ex_dedup:
  assumes "\<And>x y. same x y \<Longrightarrow> P x = P y"
  shows "list_ex P (dedup_by same xs) = list_ex P xs"
  using assms by (induction same xs rule: dedup_by.induct) auto

lemma country_excluded_merge:
  "country_excluded (dedup_by eq_ignore_ascii_case (sort_key f (xs @ ys))) c
     \<longleftrightarrow> country_excluded xs c \<or> country_excluded ys c"
proof (cases c)
  case (Some d)
  have "list_ex (eq_ignore_ascii_case d) (dedup_by eq_ignore_ascii_case (sort_key f (xs @ ys)))
      = list_ex (eq_ignore_ascii_case d) (sort_key f (xs @ ys))"
    by (rule list_ex_dedup) (auto simp: eq_ignore_ascii_case_def)
  also have "\<dots> \<longleftrightarrow> list_ex (eq_ignore_ascii_case d) (xs @ ys)"
    unfolding list_ex_iff by simp
  finally show ?thesis
    using Some by (simp add: country_excluded_def)
qed (simp add: country_excluded_def)

lemma allowed_intersect:
  "intersect_name_constraints l r = Some n \<Longrightarrow> allowed n x \<longleftrightarrow> allowed l x \<and> allowed r x"
  "intersect_name_constraints l r = None \<Longrightarrow> \<not> (allowed l x \<and> allowed r x)"
  by (auto simp: intersect_name_constraints_def allowed_def Let_def filter_empty_conv split: option.splits if_splits)

lemma excluded_union: "excluded (union_name_constraints l r) x \<longleftrightarrow> excluded l x \<or> excluded r x"
  by (auto simp: union_name_constraints_def excluded_def unwrap_or_def Let_def split: option.splits)

lemma in_range_intersect:
  "intersect_ports (Some a) (Some b) = Some r \<Longrightarrow> in_range e r \<longleftrightarrow> in_range e a \<and> in_range e b"
  "intersect_ports (Some a) (Some b) = None \<Longrightarrow> \<not> (in_range e a \<and> in_range e b)"
  by (auto simp: intersect_ports_def in_range_def Let_def split: option.splits prod.splits if_splits)

text \<open>A kept pair is the conjunction of the two; a pair that is not kept has no flow in common.\<close>

lemma port_ok_intersect:
  "\<not> (l \<noteq> None \<and> r \<noteq> None \<and> intersect_ports l r = None) \<Longrightarrow>
   (case intersect_ports l r of None \<Rightarrow> True | Some q \<Rightarrow> in_range e q)
     \<longleftrightarrow> (case l of None \<Rightarrow> True | Some q \<Rightarrow> in_range e q) \<and> (case r of None \<Rightarrow> True | Some q \<Rightarrow> in_range e q)"
  by (cases l; cases r) (auto simp: in_range_intersect split: option.splits, simp_all add: intersect_ports_def)

lemma patterns_merge:
  "rv_pattern v = or_else (rv_pattern l) (rv_pattern r) \<Longrightarrow>
   rv_additional_patterns v = rv_additional_patterns l
     @ (case rv_pattern r of Some p \<Rightarrow> if rv_pattern l \<noteq> None then [p] else [] | None \<Rightarrow> []) @ rv_additional_patterns r \<Longrightarrow>
   set (variant_patterns v) = set (variant_patterns l) \<union> set (variant_patterns r)"
  by (auto simp: variant_patterns_def split: option.splits if_splits)

lemma merge_variants_simps [simp]:
  "rv_always_false (merge_variants l r i p) = (rv_always_false l \<or> rv_always_false r)"
  "set (variant_patterns (merge_variants l r i p)) = set (variant_patterns l) \<union> set (variant_patterns r)"
  "rv_excluded_patterns (merge_variants l r i p) = rv_excluded_patterns l @ rv_excluded_patterns r"
  "rv_host_lists (merge_variants l r i p) = rv_host_lists l @ rv_host_lists r"
  "rv_excluded_host_lists (merge_variants l r i p) = rv_excluded_host_lists l @ rv_excluded_host_lists r"
  "rv_network (merge_variants l r i p) = or_else (rv_network l) (rv_network r)"
  "set (rv_excluded_networks (merge_variants l r i p)) = set (rv_excluded_networks l) \<union> set (rv_excluded_networks r)"
  "rv_port (merge_variants l r i p) = intersect_ports (rv_port l) (rv_port r)"
  "set (rv_excluded_ports (merge_variants l r i p)) = set (rv_excluded_ports l) \<union> set (rv_excluded_ports r)"
  "rv_geo_country (merge_variants l r i p) = or_else (rv_geo_country l) (rv_geo_country r)"
  "country_excluded (rv_excluded_geo_countries (merge_variants l r i p)) c
     \<longleftrightarrow> country_excluded (rv_excluded_geo_countries l) c \<or> country_excluded (rv_excluded_geo_countries r) c"
  "rv_inbound_names (merge_variants l r i p) = i" "rv_process_names (merge_variants l r i p) = p"
  "excluded (rv_excluded_inbound_names (merge_variants l r i p)) x
     \<longleftrightarrow> excluded (rv_excluded_inbound_names l) x \<or> excluded (rv_excluded_inbound_names r) x"
  "excluded (rv_excluded_process_names (merge_variants l r i p)) x
     \<longleftrightarrow> excluded (rv_excluded_process_names l) x \<or> excluded (rv_excluded_process_names r) x"
  by (simp_all add: merge_variants_def patterns_merge excluded_union country_excluded_merge del: sort_key_simps)

lemma combination_cases:
  "(if A then Abandon else if B then Skip else if C then Skip
    else case X of None \<Rightarrow> Skip | Some i \<Rightarrow> (case Y of None \<Rightarrow> Skip | Some p \<Rightarrow> Keep (f i p))) = out \<Longrightarrow>
   (case out of
      Keep v \<Rightarrow> \<not> A \<and> \<not> B \<and> \<not> C \<and> (\<exists>i p. X = Some i \<and> Y = Some p \<and> v = f i p)
    | Abandon \<Rightarrow> A
    | Skip \<Rightarrow> B \<or> C \<or> X = None \<or> Y = None)"
  by (cases A; cases B; cases C; cases X; cases Y) auto

lemmas combine_pair_cases = combination_cases [OF combine_pair_def [symmetric]]

lemma combine_pair_KeepD:
  assumes "combine_pair l r = Keep v"
  obtains i p where "v = merge_variants l r i p"
    "\<not> (case (rv_network l, rv_network r) of (Some a, Some b) \<Rightarrow> a \<noteq> b | _ \<Rightarrow> False)"
    "\<not> (rv_port l \<noteq> None \<and> rv_port r \<noteq> None \<and> intersect_ports (rv_port l) (rv_port r) = None)"
    "\<not> (case (rv_geo_country l, rv_geo_country r) of (Some a, Some b) \<Rightarrow> \<not> eq_ignore_ascii_case a b | _ \<Rightarrow> False)"
    "intersect_name_constraints (rv_inbound_names l) (rv_inbound_names r) = Some i"
    "intersect_name_constraints (rv_process_names l) (rv_process_names r) = Some p"
  using combine_pair_cases [of l r] that unfolding assms combination.case by blast

lemma combine_pair_Keep:
  assumes "combine_pair l r = Keep v"
  shows "variant_holds e geo cx v \<longleftrightarrow> variant_holds e geo cx l \<and> variant_holds e geo cx r"
    and "rv_network v = rv_network l \<or> rv_network v = rv_network r"
proof -
  obtain i p where v: "v = merge_variants l r i p"
    and net: "\<not> (case (rv_network l, rv_network r) of (Some a, Some b) \<Rightarrow> a \<noteq> b | _ \<Rightarrow> False)"
    and port: "\<not> (rv_port l \<noteq> None \<and> rv_port r \<noteq> None \<and> intersect_ports (rv_port l) (rv_port r) = None)"
    and geo_ok: "\<not> (case (rv_geo_country l, rv_geo_country r) of (Some a, Some b) \<Rightarrow> \<not> eq_ignore_ascii_case a b | _ \<Rightarrow> False)"
    and inb: "intersect_name_constraints (rv_inbound_names l) (rv_inbound_names r) = Some i"
    and proc: "intersect_name_constraints (rv_process_names l) (rv_process_names r) = Some p"
    using combine_pair_KeepD [OF assms] by blast
  have network: "(case or_else (rv_network l) (rv_network r) of None \<Rightarrow> True | Some n \<Rightarrow> endpoint_network e = n)
      \<longleftrightarrow> (case rv_network l of None \<Rightarrow> True | Some n \<Rightarrow> endpoint_network e = n) \<and> (case rv_network r of None \<Rightarrow> True | Some n \<Rightarrow> endpoint_network e = n)"
    using net by (auto split: option.splits)
  have country: "country_ok (or_else (rv_geo_country l) (rv_geo_country r)) c
      \<longleftrightarrow> country_ok (rv_geo_country l) c \<and> country_ok (rv_geo_country r) c" for c
    using geo_ok by (auto simp: country_ok_def eq_ignore_ascii_case_def split: option.splits)
  show "variant_holds e geo cx v \<longleftrightarrow> variant_holds e geo cx l \<and> variant_holds e geo cx r"
    unfolding variant_holds_def v list_all_iff merge_variants_simps network country port_ok_intersect [OF port]
      allowed_intersect(1) [OF inb] allowed_intersect(1) [OF proc] set_append
    by blast
  show "rv_network v = rv_network l \<or> rv_network v = rv_network r"
    by (cases "rv_network l") (simp_all add: v)
qed

lemma combine_pair_dropped:
  assumes "combine_pair l r = Skip \<or> combine_pair l r = Abandon"
  shows "\<not> (variant_holds e geo cx l \<and> variant_holds e geo cx r)"
proof -
  have "(case (rv_network l, rv_network r) of (Some a, Some b) \<Rightarrow> a \<noteq> b | _ \<Rightarrow> False)
      \<or> (rv_port l \<noteq> None \<and> rv_port r \<noteq> None \<and> intersect_ports (rv_port l) (rv_port r) = None)
      \<or> (case (rv_geo_country l, rv_geo_country r) of (Some a, Some b) \<Rightarrow> \<not> eq_ignore_ascii_case a b | _ \<Rightarrow> False)
      \<or> intersect_name_constraints (rv_inbound_names l) (rv_inbound_names r) = None
      \<or> intersect_name_constraints (rv_process_names l) (rv_process_names r) = None"
    using combine_pair_cases [of l r] assms by (elim disjE) (simp_all only: combination.case, blast+)
  then consider (net) a b where "rv_network l = Some a" "rv_network r = Some b" "a \<noteq> b"
    | (port) a b where "rv_port l = Some a" "rv_port r = Some b" "intersect_ports (Some a) (Some b) = None"
    | (country) a b where "rv_geo_country l = Some a" "rv_geo_country r = Some b" "\<not> eq_ignore_ascii_case a b"
    | (inb) "intersect_name_constraints (rv_inbound_names l) (rv_inbound_names r) = None"
    | (proc) "intersect_name_constraints (rv_process_names l) (rv_process_names r) = None"
    by (elim disjE) (auto split: option.splits)
  then show ?thesis
  proof cases
    case port
    then show ?thesis
      using in_range_intersect(2) [OF port(3), of e] by (auto simp: variant_holds_def)
  next
    case country
    then show ?thesis
      by (auto simp: variant_holds_def country_ok_def eq_ignore_ascii_case_def split: option.splits)
  next
    case inb
    then show ?thesis
      using allowed_intersect(2) [OF inb] by (auto simp: variant_holds_def)
  next
    case proc
    then show ?thesis
      using allowed_intersect(2) [OF proc] by (auto simp: variant_holds_def)
  qed (auto simp: variant_holds_def)
qed

lemma combine_pair_Abandon:
  "combine_pair l r = Abandon \<Longrightarrow> \<exists>a b. rv_network l = Some a \<and> rv_network r = Some b \<and> a \<noteq> b"
  using combine_pair_cases [of l r] by (simp only: combination.case) (auto split: option.splits)

definition some_holds :: "endpoint \<Rightarrow> geo_lookup option \<Rightarrow> flow_context option \<Rightarrow> rule_variant list \<Rightarrow> bool" where
  "some_holds e geo cx vs = list_ex (variant_holds e geo cx) vs"

lemma combine_pairs_holds:
  "combine_pairs ps = Some vs \<Longrightarrow>
   some_holds e geo cx vs \<longleftrightarrow> (\<exists>(l, r) \<in> set ps. variant_holds e geo cx l \<and> variant_holds e geo cx r)"
proof (induction ps arbitrary: vs)
  case (Cons p ps)
  obtain l r where p: "p = (l, r)"
    by fastforce
  show ?case
  proof (cases "combine_pair l r")
    case Abandon
    then show ?thesis
      using Cons.prems p by simp
  next
    case Skip
    then show ?thesis
      using Cons.IH [of vs] Cons.prems p combine_pair_dropped [of l r e geo cx] by auto
  next
    case (Keep v)
    then obtain ws where ws: "combine_pairs ps = Some ws" "vs = v # ws"
      using Cons.prems p by auto
    then show ?thesis
      using Cons.IH [OF ws(1)] combine_pair_Keep(1) [OF Keep, of e geo cx] p by (auto simp: some_holds_def)
  qed
qed (simp add: some_holds_def)

definition at_most_network :: "network \<Rightarrow> rule_variant \<Rightarrow> bool" where
  "at_most_network n v = (case rv_network v of None \<Rightarrow> True | Some m \<Rightarrow> m = n)"

lemma combine_pairs_one_network:
  "\<forall>(l, r) \<in> set ps. at_most_network n l \<and> at_most_network n r \<Longrightarrow>
   \<exists>vs. combine_pairs ps = Some vs \<and> list_all (at_most_network n) vs"
proof (induction ps)
  case (Cons p ps)
  obtain l r where p: "p = (l, r)"
    by fastforce
  obtain vs where vs: "combine_pairs ps = Some vs" "list_all (at_most_network n) vs"
    using Cons by auto
  show ?case
  proof (cases "combine_pair l r")
    case Abandon
    then show ?thesis
      using combine_pair_Abandon [OF Abandon] Cons.prems p by (auto simp: at_most_network_def)
  next
    case Skip
    then show ?thesis
      using vs p by simp
  next
    case (Keep v)
    then have "at_most_network n v"
      using combine_pair_Keep(2) [OF Keep] Cons.prems p by (auto simp: at_most_network_def)
    then show ?thesis
      using Keep vs p by simp
  qed
qed simp

subsection \<open>Expansion\<close>

lemma some_holds_simps [simp]:
  "\<not> some_holds e geo cx []"
  "some_holds e geo cx (v # vs) \<longleftrightarrow> variant_holds e geo cx v \<or> some_holds e geo cx vs"
  "some_holds e geo cx (vs @ ws) \<longleftrightarrow> some_holds e geo cx vs \<or> some_holds e geo cx ws"
  by (simp_all add: some_holds_def)

lemma combine_product:
  "combine_pairs (List.product vs ws) = Some out \<Longrightarrow> some_holds e geo cx out \<longleftrightarrow> some_holds e geo cx vs \<and> some_holds e geo cx ws"
  by (auto simp: combine_pairs_holds) (auto simp: some_holds_def list_ex_iff)

lemma extend_all_holds:
  assumes "\<And>c ws. c \<in> set cs \<Longrightarrow> f c = Inr ws \<Longrightarrow> some_holds e geo cx ws \<longleftrightarrow> Q c" "extend_all f cs = Inr vs"
  shows "some_holds e geo cx vs \<longleftrightarrow> (\<exists>c \<in> set cs. Q c)"
  using assms
proof (induction cs arbitrary: vs)
  case (Cons c cs)
  obtain ws rest where step: "f c = Inr ws" "extend_all f cs = Inr rest" "vs = ws @ rest"
    using Cons.prems(2) by (auto simp: rbind_def split: sum.splits)
  have "some_holds e geo cx rest \<longleftrightarrow> (\<exists>c \<in> set cs. Q c)"
    using Cons.IH [OF _ step(2)] Cons.prems(1) by (meson list.set_intros(2))
  then show ?case
    using Cons.prems(1) [OF _ step(1)] step(3) by auto
qed simp

lemma extend_all_some:
  assumes "\<And>c ws. c \<in> set cs \<Longrightarrow> f c = Inr ws \<Longrightarrow> some_holds e geo cx ws \<Longrightarrow> Q c" "extend_all f cs = Inr vs"
    "some_holds e geo cx vs"
  shows "\<exists>c \<in> set cs. Q c"
  using assms
proof (induction cs arbitrary: vs)
  case (Cons c cs)
  obtain ws rest where step: "f c = Inr ws" "extend_all f cs = Inr rest" "vs = ws @ rest"
    using Cons.prems(2) by (auto simp: rbind_def split: sum.splits)
  then consider "some_holds e geo cx ws" | "some_holds e geo cx rest"
    using Cons.prems(3) by auto
  then show ?case
  proof cases
    case 1
    then show ?thesis
      using Cons.prems(1) [OF _ step(1)] by simp
  next
    case 2
    then show ?thesis
      using Cons.IH [OF _ step(2)] Cons.prems(1) by (meson list.set_intros(2))
  qed
qed simp

lemma extend_all_all:
  assumes "\<And>c ws. c \<in> set cs \<Longrightarrow> f c = Inr ws \<Longrightarrow> list_all P ws" "extend_all f cs = Inr vs"
  shows "list_all P vs"
  using assms
proof (induction cs arbitrary: vs)
  case (Cons c cs)
  obtain ws rest where step: "f c = Inr ws" "extend_all f cs = Inr rest" "vs = ws @ rest"
    using Cons.prems(2) by (auto simp: rbind_def split: sum.splits)
  have "list_all P rest"
    using Cons.IH [OF _ step(2)] Cons.prems(1) by (meson list.set_intros(2))
  then show ?case
    using Cons.prems(1) [OF _ step(1)] step(3) by auto
qed simp

lemma combine_all_sound:
  assumes "\<And>c ws. c \<in> set cs \<Longrightarrow> f c = Inr ws \<Longrightarrow> some_holds e geo cx ws \<Longrightarrow> Q c" "combine_all f vs cs = Inr out"
  shows "some_holds e geo cx out \<longrightarrow> some_holds e geo cx vs \<and> (\<forall>c \<in> set cs. Q c)"
  using assms
proof (induction cs arbitrary: vs)
  case (Cons c cs)
  obtain ws where ws: "f c = Inr ws"
    using Cons.prems(2) by (auto simp: rbind_def split: sum.splits)
  show ?case
  proof (cases "combine_pairs (List.product vs ws)")
    case None
    then show ?thesis
      using Cons.prems(2) ws by simp
  next
    case (Some vs')
    then have "some_holds e geo cx out \<longrightarrow> some_holds e geo cx vs' \<and> (\<forall>c \<in> set cs. Q c)"
      using Cons.prems ws by (intro Cons.IH) auto
    then show ?thesis
      using combine_product [OF Some, of e geo cx] Cons.prems(1) [OF _ ws] by auto
  qed
qed simp

lemma combine_all_exact:
  assumes "\<And>c ws. c \<in> set cs \<Longrightarrow> f c = Inr ws \<Longrightarrow> (some_holds e geo cx ws \<longleftrightarrow> Q c) \<and> list_all (at_most_network n) ws"
    and "list_all (at_most_network n) vs" "combine_all f vs cs = Inr out"
  shows "(some_holds e geo cx out \<longleftrightarrow> some_holds e geo cx vs \<and> (\<forall>c \<in> set cs. Q c)) \<and> list_all (at_most_network n) out"
  using assms
proof (induction cs arbitrary: vs)
  case (Cons c cs)
  obtain ws where ws: "f c = Inr ws"
    using Cons.prems(3) by (auto simp: rbind_def split: sum.splits)
  have "\<forall>(l, r) \<in> set (List.product vs ws). at_most_network n l \<and> at_most_network n r"
    using Cons.prems(1) [OF _ ws] Cons.prems(2) by (auto simp: list_all_iff)
  from combine_pairs_one_network [OF this] obtain vs' where
    vs': "combine_pairs (List.product vs ws) = Some vs'" "list_all (at_most_network n) vs'"
    by blast
  have "(some_holds e geo cx out \<longleftrightarrow> some_holds e geo cx vs' \<and> (\<forall>c \<in> set cs. Q c)) \<and> list_all (at_most_network n) out"
    using Cons.prems ws vs' by (intro Cons.IH) auto
  then show ?case
    using combine_product [OF vs'(1), of e geo cx] Cons.prems(1) [OF _ ws] by auto
qed simp

subsection \<open>Single conditions\<close>

text \<open>A variant with one constraint.\<close>

lemma holds_update [simp]:
  "variant_holds e geo cx (rule_variant_default\<lparr>rv_list_names := ns\<rparr>)"
  "variant_holds e geo cx (rule_variant_default\<lparr>rv_list_names := ns, rv_always_false := b\<rparr>) \<longleftrightarrow> \<not> b"
  "variant_holds e geo cx (rule_variant_default\<lparr>rv_list_names := ns, rv_host_lists := [i]\<rparr>) \<longleftrightarrow> in_index e i"
  "variant_holds e geo cx (rule_variant_default\<lparr>rv_list_names := ns, rv_excluded_host_lists := [i]\<rparr>) \<longleftrightarrow> \<not> in_index e i"
  "variant_holds e geo cx (rule_variant_default\<lparr>rv_list_names := ns, rv_process_names := ps\<rparr>) \<longleftrightarrow> allowed ps (flow_process cx)"
  "variant_holds e geo cx (rule_variant_default\<lparr>rv_list_names := ns, rv_excluded_process_names := ps\<rparr>) \<longleftrightarrow> \<not> excluded ps (flow_process cx)"
  "variant_holds e geo cx (rule_variant_default\<lparr>rv_inbound_names := ps\<rparr>) \<longleftrightarrow> allowed ps (flow_inbound cx)"
  "variant_holds e geo cx (rule_variant_default\<lparr>rv_excluded_inbound_names := ps\<rparr>) \<longleftrightarrow> \<not> excluded ps (flow_inbound cx)"
  "variant_holds e geo cx (rule_variant_default\<lparr>rv_network := w\<rparr>) \<longleftrightarrow> (case w of None \<Rightarrow> True | Some n \<Rightarrow> endpoint_network e = n)"
  "variant_holds e geo cx (rule_variant_default\<lparr>rv_excluded_networks := nw\<rparr>) \<longleftrightarrow> endpoint_network e \<notin> set nw"
  "variant_holds e geo cx (rule_variant_default\<lparr>rv_port := q\<rparr>) \<longleftrightarrow> (case q of None \<Rightarrow> True | Some r \<Rightarrow> in_range e r)"
  "variant_holds e geo cx (rule_variant_default\<lparr>rv_excluded_ports := qs\<rparr>) \<longleftrightarrow> list_all (\<lambda>r. \<not> in_range e r) qs"
  "variant_holds e geo cx (rule_variant_default\<lparr>rv_geo_country := g\<rparr>) \<longleftrightarrow> country_ok g (flow_country e geo)"
  "variant_holds e geo cx (rule_variant_default\<lparr>rv_excluded_geo_countries := gs\<rparr>) \<longleftrightarrow> \<not> country_excluded gs (flow_country e geo)"
  "variant_holds e geo cx (rule_variant_default\<lparr>rv_pattern := Some p\<rparr>) \<longleftrightarrow> host_member [p] False e"
  "variant_holds e geo cx (rule_variant_default\<lparr>rv_excluded_patterns := [p]\<rparr>) \<longleftrightarrow> \<not> host_member [p] False e"
  using holds_default [of e geo cx]
  by (simp_all add: variant_holds_def variant_patterns_def)

lemma network_id: "parse_network_text x rid = Inr w \<longleftrightarrow> parse_network_text x [] = Inr w"
  by (auto simp: parse_network_text_def Let_def split: option.splits if_splits)

lemma parse_port_range: "parse_port (Some v) rid = Inr q \<Longrightarrow> q = port_range v \<and> q \<noteq> None"
  by (cases "port_range v") (auto simp: parse_port_def split: prod.splits if_splits dest: sym)

lemma port_variants_of:
  "port_variants ports rid = Inr vs \<Longrightarrow>
   vs = map (\<lambda>v. rule_variant_default\<lparr>rv_port := port_range v\<rparr>) (case as_array ports of Some xs \<Rightarrow> xs | None \<Rightarrow> [ports])
   \<and> (\<forall>v \<in> set (case as_array ports of Some xs \<Rightarrow> xs | None \<Rightarrow> [ports]). port_range v \<noteq> None)"
proof -
  have "extend_all (\<lambda>v. rbind (parse_port (Some v) rid) (\<lambda>port. Inr [rule_variant_default\<lparr>rv_port := port\<rparr>])) xs = Inr vs \<Longrightarrow>
      vs = map (\<lambda>v. rule_variant_default\<lparr>rv_port := port_range v\<rparr>) xs \<and> (\<forall>v \<in> set xs. port_range v \<noteq> None)" for xs vs
  proof (induction xs arbitrary: vs)
    case (Cons x xs)
    then obtain q rest where "parse_port (Some x) rid = Inr q"
      "extend_all (\<lambda>v. rbind (parse_port (Some v) rid) (\<lambda>port. Inr [rule_variant_default\<lparr>rv_port := port\<rparr>])) xs = Inr rest"
      "vs = rule_variant_default\<lparr>rv_port := q\<rparr> # rest"
      by (auto simp: rbind_def split: sum.splits)
    with Cons.IH [of rest] parse_port_range [of x rid q] show ?case
      by (simp only: list.map list.set) blast
  qed simp
  then show "port_variants ports rid = Inr vs \<Longrightarrow> ?thesis"
    by (simp add: port_variants_def)
qed

lemma host_leaf:
  assumes "host_variants snap rid value neg = Inr vs" "kind_of value = KHost"
  shows "some_holds e geo cx vs \<longleftrightarrow> leaf_holds snap e geo cx value \<noteq> neg"
  using assms by (auto simp: host_variants_def leaf_holds_def Let_def split: option.splits if_splits)

lemma process_leaf:
  assumes "process_variants snap rid value neg = Inr vs" "kind_of value = KProcess" "regular snap neg value"
  shows "some_holds e geo cx vs \<longleftrightarrow> leaf_holds snap e geo cx value \<noteq> neg"
  using assms unfolding regular.simps [of snap neg "value"]
  by (auto simp: process_variants_def leaf_holds_def Let_def allowed_def excluded_def unwrap_or_def
      split: option.splits if_splits)

lemma network_leaf:
  assumes "leaf_variants snap rid value neg KNetwork = Inr vs" "kind_of value = KNetwork" "regular snap neg value"
  shows "some_holds e geo cx vs \<longleftrightarrow> leaf_holds snap e geo cx value \<noteq> neg"
proof -
  obtain w where w: "network_of value = Inr w"
    "vs = [if neg then rule_variant_default\<lparr>rv_excluded_networks := (case w of None \<Rightarrow> [] | Some n \<Rightarrow> [n])\<rparr>
           else rule_variant_default\<lparr>rv_network := w\<rparr>]"
    using assms(1) network_id unfolding leaf_variants_def network_of_def rule_expression_kind.case rbind_eq_Inr_iff by blast
  then show ?thesis
    using assms(2,3) unfolding regular.simps [of snap neg "value"]
    by (cases w) (auto simp: leaf_holds_def)
qed

lemma port_leaf:
  assumes "leaf_variants snap rid value neg KPort = Inr vs" "kind_of value = KPort"
  shows "some_holds e geo cx vs \<longleftrightarrow> leaf_holds snap e geo cx value \<noteq> neg"
proof -
  define nested where "nested = unwrap_or (json_get value ''port'') value"
  define ports where "ports = unwrap_or (or_else (json_get nested ''ports'') (json_get nested ''port'')) nested"
  obtain ws where ws: "port_variants ports rid = Inr ws"
    and vs: "vs = (if neg then [rule_variant_default\<lparr>rv_excluded_ports := List.map_filter rv_port ws\<rparr>] else ws)"
    using assms(1) by (auto simp: leaf_variants_def nested_def ports_def Let_def rbind_def split: sum.splits)
  have items: "port_items value = (case as_array ports of Some xs \<Rightarrow> xs | None \<Rightarrow> [ports])"
    unfolding port_items_def nested_def ports_def Let_def ..
  have map: "ws = map (\<lambda>v. rule_variant_default\<lparr>rv_port := port_range v\<rparr>) (port_items value)"
    "\<forall>v \<in> set (port_items value). port_range v \<noteq> None"
    using port_variants_of [OF ws] items by auto
  have "some_holds e geo cx ws \<longleftrightarrow> leaf_holds snap e geo cx value"
    using map(2) unfolding map(1) some_holds_def leaf_holds_def assms(2)
    by (auto simp: list_ex_iff split: option.splits)
  moreover have "list_all (\<lambda>r. \<not> in_range e r) (List.map_filter rv_port ws) \<longleftrightarrow> \<not> leaf_holds snap e geo cx value"
    using map(2) unfolding map(1) leaf_holds_def assms(2)
    by (auto simp: list_ex_iff list_all_iff map_filter_def split: option.splits)
  ultimately show ?thesis
    by (simp add: vs)
qed

lemma geoip_leaf:
  assumes "leaf_variants snap rid value neg KGeoip = Inr vs" "kind_of value = KGeoip"
  shows "some_holds e geo cx vs \<longleftrightarrow> leaf_holds snap e geo cx value \<noteq> neg"
  using assms
  by (auto simp: leaf_variants_def leaf_holds_def Let_def some_holds_def list_ex_iff country_ok_def country_excluded_def
      split: if_splits option.splits) blast

lemma inbound_leaf:
  assumes "leaf_variants snap rid value neg KInbound = Inr vs" "kind_of value = KInbound" "regular snap neg value"
  shows "some_holds e geo cx vs \<longleftrightarrow> leaf_holds snap e geo cx value \<noteq> neg"
  using assms unfolding regular.simps [of snap neg "value"]
  by (auto simp: leaf_variants_def leaf_holds_def Let_def allowed_def excluded_def unwrap_or_def split: if_splits option.splits)

lemma pattern_leaf:
  assumes "leaf_variants snap rid value neg KPattern = Inr vs" "kind_of value = KPattern"
  shows "some_holds e geo cx vs \<longleftrightarrow> leaf_holds snap e geo cx value \<noteq> neg"
  using assms by (auto simp: leaf_variants_def leaf_holds_def split: option.splits)

subsection \<open>Conditions\<close>

lemmas leaf_lemmas = host_leaf process_leaf network_leaf port_leaf geoip_leaf inbound_leaf pattern_leaf

definition composite :: "rule_expression_kind \<Rightarrow> bool" where
  "composite k \<longleftrightarrow> k = KAll \<or> k = KAny \<or> k = KNot"

lemma leaf_meaning:
  assumes "leaf_variants snap rid value neg (kind_of value) = Inr vs" "\<not> composite (kind_of value)" "regular snap neg value"
  shows "some_holds e geo cx vs \<longleftrightarrow> leaf_holds snap e geo cx value \<noteq> neg"
proof (cases "kind_of value")
  case KHost
  then show ?thesis
    using assms(1) by (intro host_leaf [of snap rid "value" neg]) (simp_all add: leaf_variants_def)
next
  case KProcess
  then show ?thesis
    using assms(1,3) by (intro process_leaf [of snap rid "value" neg]) (simp_all add: leaf_variants_def)
next
  case (KUnsupported k)
  then show ?thesis
    using assms(1) by (simp add: leaf_variants_def)
qed (use assms leaf_lemmas in \<open>simp_all add: composite_def\<close>)

lemma leaf_networks:
  assumes "leaf_variants snap rid value neg (kind_of value) = Inr vs" "\<not> composite (kind_of value)" "one_network n neg value"
  shows "list_all (at_most_network n) vs"
proof (cases "kind_of value")
  case KHost
  then show ?thesis
    using assms(1)
    by (auto simp: leaf_variants_def host_variants_def Let_def at_most_network_def rule_variant_default_def split: option.splits if_splits)
next
  case KNetwork
  then obtain w where "network_of value = Inr w"
    "vs = [if neg then rule_variant_default\<lparr>rv_excluded_networks := (case w of None \<Rightarrow> [] | Some n \<Rightarrow> [n])\<rparr>
           else rule_variant_default\<lparr>rv_network := w\<rparr>]"
    using assms(1) network_id unfolding leaf_variants_def network_of_def by (simp add: rbind_eq_Inr_iff) blast
  then show ?thesis
    using assms(3) KNetwork unfolding one_network.simps [of n neg "value"]
    by (cases w) (auto simp: at_most_network_def rule_variant_default_def)
next
  case KPort
  then show ?thesis
    using assms(1)
    by (auto simp: leaf_variants_def Let_def rbind_eq_Inr_iff at_most_network_def rule_variant_default_def list_all_iff
        dest!: port_variants_of split: if_splits)
next
  case KProcess
  then show ?thesis
    using assms(1)
    by (auto simp: leaf_variants_def process_variants_def Let_def at_most_network_def rule_variant_default_def split: option.splits if_splits)
qed (use assms in \<open>auto simp: leaf_variants_def Let_def composite_def at_most_network_def rule_variant_default_def list_all_iff
    split: option.splits if_splits\<close>)

lemma default_network [simp]: "at_most_network n rule_variant_default"
  by (simp add: at_most_network_def rule_variant_default_def)

text \<open>
  A variant that accepts a flow only does so when the condition holds of it; when the condition
  requires at most one network, some variant accepts exactly the flows it holds of.
\<close>

lemma expression_sound:
  "parse_rule_expression_inner snap rid value neg = Inr vs \<Longrightarrow> regular snap neg value \<Longrightarrow>
   some_holds e geo cx vs \<Longrightarrow> expression_holds snap e geo cx value \<noteq> neg"
proof (induction "size value" arbitrary: "value" neg vs rule: less_induct)
  case less
  let ?H = "expression_holds snap e geo cx"
  note parse = less.prems(1) [unfolded parse_rule_expression_inner.simps [of snap rid "value" neg]]
    and reg = less.prems(2) [unfolded regular.simps [of snap neg "value"]]
    and meaning = expression_holds.simps [of snap e geo cx "value"]
  have kids: "?H c \<noteq> neg" if "c \<in> set (children_at value key)" "list_all (regular snap neg) (children_at value key)"
      "parse_rule_expression_inner snap rid c neg = Inr ws" "some_holds e geo cx ws" for c ws key
    using less.hyps [OF children_smaller [OF that(1)] that(3) _ that(4)] that(1,2) by (auto simp: list_all_iff)
  show ?case
  proof (cases "kind_of value")
    case KAll
    let ?cs = "sort_key route_expression_sort_key (children_at value ''all'')"
    have all: "list_all (regular snap neg) (children_at value ''all'')"
      using reg KAll by simp
    show ?thesis
    proof (cases neg)
      case True
      then have "extend_all (\<lambda>c. parse_rule_expression_inner snap rid c True) ?cs = Inr vs"
        using parse KAll by (simp add: Let_def)
      from extend_all_some [OF _ this less.prems(3), of "\<lambda>c. \<not> ?H c"] have "\<exists>c \<in> set ?cs. \<not> ?H c"
        using kids [OF _ all] True by auto
      then show ?thesis
        using True KAll meaning by (auto simp: list_all_iff)
    next
      case False
      then have "combine_all (\<lambda>c. parse_rule_expression_inner snap rid c False) [rule_variant_default] ?cs = Inr vs"
        using parse KAll by (simp add: Let_def)
      from combine_all_sound [OF _ this, of e geo cx ?H] have "\<forall>c \<in> set ?cs. ?H c"
        using kids [OF _ all] False less.prems(3) by auto
      then show ?thesis
        using False KAll meaning by (auto simp: list_all_iff)
    qed
  next
    case KAny
    let ?cs = "children_at value ''any''"
    have all: "list_all (regular snap neg) ?cs"
      using reg KAny by simp
    show ?thesis
    proof (cases neg)
      case True
      then have "combine_all (\<lambda>c. parse_rule_expression_inner snap rid c True) [rule_variant_default] ?cs = Inr vs"
        using parse KAny by (simp add: Let_def)
      from combine_all_sound [OF _ this, of e geo cx "\<lambda>c. \<not> ?H c"] have "\<forall>c \<in> set ?cs. \<not> ?H c"
        using kids [OF _ all] True less.prems(3) by auto
      then show ?thesis
        using True KAny meaning by (auto simp: list_ex_iff)
    next
      case False
      then have "extend_all (\<lambda>c. parse_rule_expression_inner snap rid c False) ?cs = Inr vs"
        using parse KAny by (simp add: Let_def)
      from extend_all_some [OF _ this less.prems(3), of ?H] have "\<exists>c \<in> set ?cs. ?H c"
        using kids [OF _ all] False by auto
      then show ?thesis
        using False KAny meaning by (auto simp: list_ex_iff)
    qed
  next
    case KNot
    then obtain nested where nested: "json_get value ''not'' = Some nested"
      and sub: "parse_rule_expression_inner snap rid nested (\<not> neg) = Inr vs"
      using parse by (auto split: option.splits)
    have "regular snap (\<not> neg) nested"
      using reg KNot nested by simp
    from less.hyps [OF json_get_smaller [OF nested] sub this less.prems(3)] show ?thesis
      using meaning KNot nested by auto
  qed (use leaf_meaning [of snap rid "value" neg vs e geo cx] parse meaning less.prems in \<open>auto simp: composite_def\<close>)
qed

lemma expression_exact:
  "parse_rule_expression_inner snap rid value neg = Inr vs \<Longrightarrow> regular snap neg value \<Longrightarrow> one_network n neg value \<Longrightarrow>
   (some_holds e geo cx vs \<longleftrightarrow> expression_holds snap e geo cx value \<noteq> neg) \<and> list_all (at_most_network n) vs"
proof (induction "size value" arbitrary: "value" neg vs rule: less_induct)
  case less
  let ?H = "expression_holds snap e geo cx"
  note parse = less.prems(1) [unfolded parse_rule_expression_inner.simps [of snap rid "value" neg]]
    and reg = less.prems(2) [unfolded regular.simps [of snap neg "value"]]
    and one = less.prems(3) [unfolded one_network.simps [of n neg "value"]]
    and meaning = expression_holds.simps [of snap e geo cx "value"]
  have kids: "(some_holds e geo cx ws \<longleftrightarrow> ?H c \<noteq> neg) \<and> list_all (at_most_network n) ws"
    if "c \<in> set (children_at value key)" "list_all (regular snap neg) (children_at value key)"
      "list_all (one_network n neg) (children_at value key)" "parse_rule_expression_inner snap rid c neg = Inr ws" for c ws key
    using less.hyps [OF children_smaller [OF that(1)] that(4)] that(1,2,3) by (auto simp: list_all_iff)
  show ?case
  proof (cases "kind_of value")
    case KAll
    let ?cs = "sort_key route_expression_sort_key (children_at value ''all'')"
    have all: "list_all (regular snap neg) (children_at value ''all'')" "list_all (one_network n neg) (children_at value ''all'')"
      using reg one KAll by simp_all
    note kids = kids [OF _ all]
    show ?thesis
    proof (cases neg)
      case True
      then have ext: "extend_all (\<lambda>c. parse_rule_expression_inner snap rid c True) ?cs = Inr vs"
        using parse KAll by (simp add: Let_def)
      have "some_holds e geo cx vs \<longleftrightarrow> (\<exists>c \<in> set ?cs. \<not> ?H c)"
        using kids True by (intro extend_all_holds [OF _ ext]) auto
      moreover have "list_all (at_most_network n) vs"
        using kids True by (intro extend_all_all [OF _ ext]) auto
      ultimately show ?thesis
        using True KAll meaning by (auto simp: list_all_iff)
    next
      case False
      then have "combine_all (\<lambda>c. parse_rule_expression_inner snap rid c False) [rule_variant_default] ?cs = Inr vs"
        using parse KAll by (simp add: Let_def)
      from combine_all_exact [OF _ _ this, of e geo cx ?H n] show ?thesis
        using kids False KAll meaning by (auto simp: list_all_iff)
    qed
  next
    case KAny
    let ?cs = "children_at value ''any''"
    have all: "list_all (regular snap neg) ?cs" "list_all (one_network n neg) ?cs"
      using reg one KAny by simp_all
    note kids = kids [OF _ all]
    show ?thesis
    proof (cases neg)
      case True
      then have "combine_all (\<lambda>c. parse_rule_expression_inner snap rid c True) [rule_variant_default] ?cs = Inr vs"
        using parse KAny by (simp add: Let_def)
      from combine_all_exact [OF _ _ this, of e geo cx "\<lambda>c. \<not> ?H c" n] show ?thesis
        using kids True KAny meaning by (auto simp: list_ex_iff)
    next
      case False
      then have ext: "extend_all (\<lambda>c. parse_rule_expression_inner snap rid c False) ?cs = Inr vs"
        using parse KAny by (simp add: Let_def)
      have "some_holds e geo cx vs \<longleftrightarrow> (\<exists>c \<in> set ?cs. ?H c)"
        using kids False by (intro extend_all_holds [OF _ ext]) auto
      moreover have "list_all (at_most_network n) vs"
        using kids False by (intro extend_all_all [OF _ ext]) auto
      ultimately show ?thesis
        using False KAny meaning by (auto simp: list_ex_iff)
    qed
  next
    case KNot
    then obtain nested where nested: "json_get value ''not'' = Some nested"
      and sub: "parse_rule_expression_inner snap rid nested (\<not> neg) = Inr vs"
      using parse by (auto split: option.splits)
    have "regular snap (\<not> neg) nested" "one_network n (\<not> neg) nested"
      using reg one KNot nested by simp_all
    from less.hyps [OF json_get_smaller [OF nested] sub this] show ?thesis
      using meaning KNot nested by auto
  qed (use leaf_meaning [of snap rid "value" neg vs e geo cx] leaf_networks [of snap rid "value" neg vs n] parse meaning less.prems
      in \<open>auto simp: composite_def\<close>)
qed

end
