(* ===== verification/Route_Properties.thy ===== *)
theory Route_Properties
  imports Route_Meaning
begin

text \<open>
  The rules a record is compiled into: which flows they accept, in terms of the conditions the
  record states.
\<close>

subsection \<open>Invariants of the variants\<close>

lemma combine_pairs_inv:
  assumes "\<forall>l r v. P l \<longrightarrow> P r \<longrightarrow> combine_pair l r = Keep v \<longrightarrow> P v"
    and "combine_pairs ps = Some vs" "\<forall>(l, r) \<in> set ps. P l \<and> P r"
  shows "list_all P vs"
  using assms(2,3)
proof (induction ps arbitrary: vs)
  case (Cons p ps)
  obtain l r where p: "p = (l, r)"
    by fastforce
  show ?case
    using Cons assms(1) [rule_format, of l r] p by (cases "combine_pair l r") auto
qed simp

lemma combine_all_inv:
  assumes "\<forall>l r v. P l \<longrightarrow> P r \<longrightarrow> combine_pair l r = Keep v \<longrightarrow> P v"
    and "\<And>c ws. c \<in> set cs \<Longrightarrow> f c = Inr ws \<Longrightarrow> list_all P ws" "list_all P vs" "combine_all f vs cs = Inr out"
  shows "list_all P out"
  using assms(2-4)
proof (induction cs arbitrary: vs)
  case (Cons c cs)
  obtain ws where ws: "f c = Inr ws"
    using Cons.prems(3) by (auto simp: rbind_def split: sum.splits)
  show ?case
  proof (cases "combine_pairs (List.product vs ws)")
    case None
    then show ?thesis
      using Cons.prems(3) ws by simp
  next
    case (Some vs')
    then have eq: "combine_all f vs' cs = Inr out"
      using Cons.prems(3) ws by simp
    have "list_all P ws"
      using Cons.prems(1) [OF _ ws] by simp
    then have "\<forall>(l, r) \<in> set (List.product vs ws). P l \<and> P r"
      using Cons.prems(2) by (auto simp: list_all_iff)
    then have vs': "list_all P vs'"
      by (rule combine_pairs_inv [OF assms(1) Some])
    show ?thesis
      using Cons.prems(1) by (intro Cons.IH [OF _ vs' eq]) auto
  qed
qed simp

lemma parse_inv:
  assumes keep: "\<forall>l r v. P l \<longrightarrow> P r \<longrightarrow> combine_pair l r = Keep v \<longrightarrow> P v" and base: "P rule_variant_default"
    and leaf: "\<forall>value neg vs. leaf_variants snap rid value neg (kind_of value) = Inr vs \<longrightarrow> list_all P vs"
  shows "parse_rule_expression_inner snap rid value neg = Inr vs \<Longrightarrow> list_all P vs"
proof (induction "size value" arbitrary: "value" neg vs rule: less_induct)
  case less
  note parse = less.prems [unfolded parse_rule_expression_inner.simps [of snap rid "value" neg]]
  note kids = less.hyps [OF children_smaller]
  have ext: "list_all P vs" if "extend_all (\<lambda>c. parse_rule_expression_inner snap rid c b) cs = Inr vs"
    "set cs \<subseteq> set (children_at value key)" for cs b key
    using that kids by (intro extend_all_all [OF _ that(1)]) auto
  have comb: "list_all P vs" if "combine_all (\<lambda>c. parse_rule_expression_inner snap rid c b) [rule_variant_default] cs = Inr vs"
    "set cs \<subseteq> set (children_at value key)" for cs b key
    using that kids base by (intro combine_all_inv [OF keep _ _ that(1)]) auto
  show ?case
  proof (cases "kind_of value")
    case KAll
    then show ?thesis
      using parse ext [of _ _ "''all''"] comb [of _ _ "''all''"] by (cases neg) (auto simp: Let_def)
  next
    case KAny
    then show ?thesis
      using parse ext [of _ _ "''any''"] comb [of _ _ "''any''"] by (cases neg) (auto simp: Let_def)
  next
    case KNot
    then show ?thesis
      using parse less.hyps [OF json_get_smaller] by (auto split: option.splits)
  qed (use parse leaf [rule_format, of "value" neg vs] in auto)
qed

text \<open>Constraints on names are never empty, and a pattern is not blank.\<close>

definition variant_wf :: "rule_variant \<Rightarrow> bool" where
  "variant_wf v \<longleftrightarrow> rv_inbound_names v \<noteq> Some [] \<and> rv_process_names v \<noteq> Some []
     \<and> (case rv_pattern v of None \<Rightarrow> True | Some p \<Rightarrow> trim p \<noteq> [])"

lemma strip_front_stops: "find (\<lambda>w. w \<noteq> [] \<and> prefix w (strip_front ws s)) ws = None"
proof (induction ws s rule: strip_front.induct)
  case (1 ws s)
  show ?case
  proof (cases "find (\<lambda>w. w \<noteq> [] \<and> prefix w s) ws")
    case None
    then show ?thesis
      by (simp add: strip_front_id)
  next
    case (Some w)
    then show ?thesis
      using 1 strip_front.simps [of ws s] by simp
  qed
qed

lemma suffix_strip_front: "suffix (strip_front ws s) s"
proof (induction ws s rule: strip_front.induct)
  case (1 ws s)
  then show ?case
    by (subst strip_front.simps) (auto split: option.splits intro: suffix_order.trans suffix_drop)
qed

lemma trim_idem: "trim (trim s) = trim s"
proof -
  let ?a = "trim_start s" and ?ws = "map rev white_space"
  have stop: "find (\<lambda>w. w \<noteq> [] \<and> prefix w ?a) white_space = None"
    unfolding trim_start_def by (rule strip_front_stops)
  have "suffix (strip_front ?ws (rev ?a)) (rev ?a)"
    by (rule suffix_strip_front)
  then have pre: "prefix (trim s) ?a"
    by (simp add: trim_def trim_end_def suffix_to_prefix)
  have "find (\<lambda>w. w \<noteq> [] \<and> prefix w (trim s)) white_space = None"
    using stop pre unfolding find_None_iff by (meson prefix_order.trans)
  then have "trim_start (trim s) = trim s"
    by (simp add: trim_start_def strip_front_id)
  moreover have "trim_end (trim s) = trim s"
    unfolding trim_def trim_end_def using strip_front_id [OF strip_front_stops [of ?ws "rev ?a"]] by simp
  ultimately show ?thesis
    by (simp add: trim_def [of "trim s"])
qed

lemma trim_Nil: "trim [] = []"
  by code_simp

lemma string_field_trimmed: "string_field v ks = Some p \<Longrightarrow> trim p = p \<and> p \<noteq> []"
  unfolding string_field_def
  by (induction ks) (auto simp: and_then_def trim_idem split: option.splits if_splits bind_splits)

lemma intersect_names_nonempty:
  "intersect_name_constraints a b = Some c \<Longrightarrow> a \<noteq> Some [] \<Longrightarrow> b \<noteq> Some [] \<Longrightarrow> c \<noteq> Some []"
  by (cases a; cases b) (auto simp: intersect_name_constraints_def Let_def split: if_splits)

lemma variant_wf_keep: "variant_wf l \<Longrightarrow> variant_wf r \<Longrightarrow> combine_pair l r = Keep v \<Longrightarrow> variant_wf v"
proof -
  assume wf: "variant_wf l" "variant_wf r" and keep: "combine_pair l r = Keep v"
  obtain i p where v: "v = merge_variants l r i p"
    and i: "intersect_name_constraints (rv_inbound_names l) (rv_inbound_names r) = Some i"
    and p: "intersect_name_constraints (rv_process_names l) (rv_process_names r) = Some p"
    using combine_pair_KeepD [OF keep] by blast
  have "i \<noteq> Some []" "p \<noteq> Some []"
    using wf unfolding variant_wf_def by (intro intersect_names_nonempty [OF i] intersect_names_nonempty [OF p]; simp)+
  moreover have "rv_pattern v = or_else (rv_pattern l) (rv_pattern r)" "rv_inbound_names v = i" "rv_process_names v = p"
    by (simp_all add: v merge_variants_def)
  ultimately show ?thesis
    using wf by (cases "rv_pattern l") (simp_all add: variant_wf_def)
qed

lemma variant_wf_default [simp]: "variant_wf rule_variant_default"
  by (simp add: variant_wf_def rule_variant_default_def)

lemma variant_wf_leaf: "leaf_variants snap rid value neg (kind_of value) = Inr vs \<Longrightarrow> list_all variant_wf vs"
proof (cases "kind_of value")
  case KHost
  assume "leaf_variants snap rid value neg (kind_of value) = Inr vs"
  then show ?thesis
    using KHost
    by (auto simp: leaf_variants_def host_variants_def Let_def variant_wf_def rule_variant_default_def split: option.splits if_splits)
next
  case KNetwork
  assume "leaf_variants snap rid value neg (kind_of value) = Inr vs"
  then show ?thesis
    using KNetwork
    by (auto simp: leaf_variants_def rbind_eq_Inr_iff variant_wf_def rule_variant_default_def split: option.splits)
next
  case KPort
  assume "leaf_variants snap rid value neg (kind_of value) = Inr vs"
  then show ?thesis
    using KPort
    by (auto simp: leaf_variants_def Let_def rbind_eq_Inr_iff variant_wf_def rule_variant_default_def list_all_iff
        dest!: port_variants_of split: if_splits)
next
  case KProcess
  assume "leaf_variants snap rid value neg (kind_of value) = Inr vs"
  then show ?thesis
    using KProcess
    by (auto simp: leaf_variants_def process_variants_def Let_def variant_wf_def rule_variant_default_def split: option.splits if_splits)
next
  case KPattern
  assume "leaf_variants snap rid value neg (kind_of value) = Inr vs"
  then show ?thesis
    using KPattern
    by (auto simp: leaf_variants_def variant_wf_def rule_variant_default_def dest!: string_field_trimmed split: option.splits if_splits)
qed (auto simp: leaf_variants_def Let_def variant_wf_def rule_variant_default_def list_all_iff split: option.splits if_splits)

lemma parsed_wf: "parse_rule_expression_inner snap rid value neg = Inr vs \<Longrightarrow> list_all variant_wf vs"
  using variant_wf_keep variant_wf_leaf variant_wf_default by (intro parse_inv [of variant_wf]) blast+

subsection \<open>Indexes of patterns\<close>

lemma host_member_each: "host_member ps False e \<longleftrightarrow> list_ex (\<lambda>p. host_member [p] False e) ps"
  by (cases e) (auto simp: host_member_def host_keys_def covered_by_def Let_def list_ex_iff)

definition patterns_fit :: "string list \<Rightarrow> bool" where
  "patterns_fit ps \<longleftrightarrow> host_patterns_ok ps \<and> high_patterns ps"

lemma from_patterns_search:
  assumes "patterns_fit ps"
  obtains i where "from_patterns uid dir ps = Inr i"
    "\<And>e. valid_endpoint e \<Longrightarrow> host_trie_search i e = Some (host_member ps False e)" "host_trie_ok i"
proof -
  obtain f where f: "from_patterns uid dir ps = Inr (Disk uid f)"
    "\<And>e parent. valid_endpoint e \<Longrightarrow> files_matches f e parent \<Longrightarrow> host_member ps parent e"
    "\<And>e parent. host_member ps parent e \<Longrightarrow> files_matches f e parent"
    using disk_search [of ps uid dir] assms unfolding patterns_fit_def by blast
  show thesis
    by (rule that [OF f(1)]) (use f(2,3) in auto)
qed

lemma compile_required_ok:
  "list_all (\<lambda>p. patterns_fit [p]) ps \<Longrightarrow>
   \<exists>uid1 is. compile_required_patterns dir uid ps rid = (uid1, Inr is)
     \<and> list_all2 (\<lambda>p i. host_trie_ok i \<and> (\<forall>e. valid_endpoint e \<longrightarrow> host_trie_search i e = Some (host_member [p] False e))) ps is"
proof (induction ps arbitrary: uid)
  case (Cons p ps)
  obtain i where i: "from_patterns uid (dir uid) [p] = Inr i"
    "\<And>e. valid_endpoint e \<Longrightarrow> host_trie_search i e = Some (host_member [p] False e)" "host_trie_ok i"
    using from_patterns_search [of "[p]"] Cons.prems by auto
  obtain uid1 "is" where rest: "compile_required_patterns dir (Suc uid) ps rid = (uid1, Inr is)"
    "list_all2 (\<lambda>p i. host_trie_ok i \<and> (\<forall>e. valid_endpoint e \<longrightarrow> host_trie_search i e = Some (host_member [p] False e))) ps is"
    using Cons.IH [of "Suc uid"] Cons.prems by auto
  have "compile_required_patterns dir uid (p # ps) rid = (uid1, Inr (i # is))"
    by (simp add: i(1) rest(1))
  moreover have "list_all2 (\<lambda>p i. host_trie_ok i \<and> (\<forall>e. valid_endpoint e \<longrightarrow> host_trie_search i e = Some (host_member [p] False e)))
      (p # ps) (i # is)"
    using i(2,3) rest(2) by simp
  ultimately show ?case
    by blast
qed simp

definition variant_fits :: "rule_variant \<Rightarrow> bool" where
  "variant_fits v \<longleftrightarrow> list_all (\<lambda>p. patterns_fit [p]) (rv_additional_patterns v) \<and> patterns_fit (rv_excluded_patterns v)"

definition variant_indexes_ok :: "rule_variant \<Rightarrow> bool" where
  "variant_indexes_ok v \<longleftrightarrow> list_all host_trie_ok (rv_host_lists v @ rv_excluded_host_lists v)"

definition snapshot_ok :: "route_list_snapshot \<Rightarrow> bool" where
  "snapshot_ok snap \<longleftrightarrow> list_all (\<lambda>(_, index). host_trie_ok index) (rl_host_indexes snap)"

lemma indexes_ok_keep: "variant_indexes_ok l \<Longrightarrow> variant_indexes_ok r \<Longrightarrow> combine_pair l r = Keep v \<Longrightarrow> variant_indexes_ok v"
  by (elim combine_pair_KeepD) (simp add: variant_indexes_ok_def)

lemma host_index_ok: "snapshot_ok snap \<Longrightarrow> host_index snap name = Some i \<Longrightarrow> host_trie_ok i"
  by (auto simp: snapshot_ok_def host_index_def list_all_iff dest!: map_of_SomeD)

lemma indexes_ok_leaf:
  assumes "snapshot_ok snap" "leaf_variants snap rid value neg (kind_of value) = Inr vs"
  shows "list_all variant_indexes_ok vs"
proof (cases "kind_of value")
  case KHost
  then show ?thesis
    using assms(2) host_index_ok [OF assms(1)]
    by (auto simp: leaf_variants_def host_variants_def Let_def variant_indexes_ok_def rule_variant_default_def split: option.splits if_splits)
next
  case KNetwork
  then show ?thesis
    using assms(2)
    by (auto simp: leaf_variants_def rbind_eq_Inr_iff variant_indexes_ok_def rule_variant_default_def split: option.splits)
next
  case KPort
  then show ?thesis
    using assms(2)
    by (auto simp: leaf_variants_def Let_def rbind_eq_Inr_iff variant_indexes_ok_def rule_variant_default_def list_all_iff
        dest!: port_variants_of split: if_splits)
next
  case KProcess
  then show ?thesis
    using assms(2)
    by (auto simp: leaf_variants_def process_variants_def Let_def variant_indexes_ok_def rule_variant_default_def split: option.splits if_splits)
next
  case KPattern
  then show ?thesis
    using assms(2)
    by (auto simp: leaf_variants_def variant_indexes_ok_def rule_variant_default_def split: option.splits if_splits)
qed (use assms(2) in \<open>auto simp: leaf_variants_def Let_def variant_indexes_ok_def rule_variant_default_def list_all_iff
  split: option.splits if_splits\<close>)

lemma indexes_ok_default [simp]: "variant_indexes_ok rule_variant_default"
  by (simp add: variant_indexes_ok_def rule_variant_default_def)

lemma parsed_indexes_ok:
  "snapshot_ok snap \<Longrightarrow> parse_rule_expression_inner snap rid value neg = Inr vs \<Longrightarrow> list_all variant_indexes_ok vs"
  by (rule parse_inv [of variant_indexes_ok])
    (use indexes_ok_keep indexes_ok_leaf indexes_ok_default in blast)+

subsection \<open>What a compiled rule accepts\<close>

lemma any_search_some: "(\<And>x. x \<in> set xs \<Longrightarrow> f x = Some (g x)) \<Longrightarrow> any_search f xs = Some (list_ex g xs)"
  by (induction xs) (auto split: bool.splits)

lemma not_list_ex: "\<not> list_ex P xs \<longleftrightarrow> list_all (\<lambda>x. \<not> P x) xs"
  by (simp add: list_ex_iff list_all_iff)

lemma matches_fields_of_variant:
  assumes "variant_wf v"
  shows "matches_fields (rule_of_variant rec action policy priority v required excl) e geo cx \<longleftrightarrow>
     (case rv_network v of None \<Rightarrow> True | Some n \<Rightarrow> endpoint_network e = n)
     \<and> endpoint_network e \<notin> set (rv_excluded_networks v)
     \<and> (case rv_port v of None \<Rightarrow> True | Some r \<Rightarrow> in_range e r)
     \<and> list_all (\<lambda>r. \<not> in_range e r) (rv_excluded_ports v)
     \<and> country_ok (rv_geo_country v) (flow_country e geo)
     \<and> \<not> country_excluded (rv_excluded_geo_countries v) (flow_country e geo)
     \<and> allowed (rv_inbound_names v) (flow_inbound cx) \<and> \<not> excluded (rv_excluded_inbound_names v) (flow_inbound cx)
     \<and> allowed (rv_process_names v) (flow_process cx) \<and> \<not> excluded (rv_excluded_process_names v) (flow_process cx)"
proof -
  let ?r = "rule_of_variant rec action policy priority v required excl"
  have net: "(case rr_network ?r of None \<Rightarrow> False | Some n \<Rightarrow> n \<noteq> endpoint_network e)
      \<longleftrightarrow> \<not> (case rv_network v of None \<Rightarrow> True | Some n \<Rightarrow> endpoint_network e = n)"
    by (auto simp: rule_of_variant_def split: option.split)
  have port: "(case rr_port ?r of None \<Rightarrow> False | Some (start, end') \<Rightarrow>
        (case endpoint_port e of None \<Rightarrow> True | Some port \<Rightarrow> port < start \<or> port > end'))
      \<longleftrightarrow> \<not> (case rv_port v of None \<Rightarrow> True | Some r \<Rightarrow> in_range e r)"
    by (auto simp: rule_of_variant_def in_range_def split: option.split)
  have no_port: "(case endpoint_port e of None \<Rightarrow> False
        | Some port \<Rightarrow> list_ex (\<lambda>(start, end'). port \<ge> start \<and> port \<le> end') (rr_excluded_ports ?r))
      \<longleftrightarrow> \<not> list_all (\<lambda>r. \<not> in_range e r) (rv_excluded_ports v)"
    by (cases "endpoint_port e") (simp_all add: rule_of_variant_def in_range_def list_all_iff list_ex_iff case_prod_beta)
  have country: "(case rr_geo_country ?r of None \<Rightarrow> False | Some expected \<Rightarrow>
        (case map_option sock_ip (endpoint_addr e) of None \<Rightarrow> True | Some address \<Rightarrow>
          (case geo of None \<Rightarrow> True | Some g \<Rightarrow>
            (case g address of Inr (Some actual) \<Rightarrow> \<not> eq_ignore_ascii_case actual expected | _ \<Rightarrow> True))))
      \<longleftrightarrow> \<not> country_ok (rv_geo_country v) (flow_country e geo)"
    by (auto simp: rule_of_variant_def country_ok_def flow_country_def split: option.split sum.split)
  have no_country: "rr_excluded_geo_countries ?r \<noteq> []
        \<and> (case (map_option sock_ip (endpoint_addr e), geo) of
             (Some address, Some g) \<Rightarrow>
               (case g address of
                  Inr (Some actual) \<Rightarrow> list_ex (eq_ignore_ascii_case actual) (rr_excluded_geo_countries ?r) | _ \<Rightarrow> False)
           | _ \<Rightarrow> False)
      \<longleftrightarrow> country_excluded (rv_excluded_geo_countries v) (flow_country e geo)"
    by (auto simp: rule_of_variant_def country_excluded_def flow_country_def split: option.split sum.split)
  have inbound: "rr_inbound_names ?r \<noteq> []
        \<and> (case cx of None \<Rightarrow> True | Some ctx \<Rightarrow> (case inbound_of ctx of None \<Rightarrow> True | Some v \<Rightarrow> v \<notin> set (rr_inbound_names ?r)))
      \<longleftrightarrow> \<not> allowed (rv_inbound_names v) (flow_inbound cx)"
    using assms
    by (auto simp: rule_of_variant_def allowed_def flow_inbound_def and_then_def unwrap_or_def variant_wf_def
        split: option.split)
  have process: "rr_process_names ?r \<noteq> []
        \<and> (case cx of None \<Rightarrow> True | Some ctx \<Rightarrow> (case fc_process ctx of None \<Rightarrow> True | Some p \<Rightarrow> p \<notin> set (rr_process_names ?r)))
      \<longleftrightarrow> \<not> allowed (rv_process_names v) (flow_process cx)"
    using assms
    by (auto simp: rule_of_variant_def allowed_def flow_process_def and_then_def unwrap_or_def variant_wf_def
        split: option.split)
  have names: "(case cx of None \<Rightarrow> False | Some ctx \<Rightarrow>
        (case inbound_of ctx of None \<Rightarrow> False | Some v \<Rightarrow> v \<in> set (rr_excluded_inbound_names ?r))
        \<or> (case fc_process ctx of None \<Rightarrow> False | Some p \<Rightarrow> p \<in> set (rr_excluded_process_names ?r)))
      \<longleftrightarrow> excluded (rv_excluded_inbound_names v) (flow_inbound cx) \<or> excluded (rv_excluded_process_names v) (flow_process cx)"
    by (auto simp: rule_of_variant_def excluded_def flow_inbound_def flow_process_def and_then_def split: option.split)
  have nets: "rr_excluded_networks ?r = rv_excluded_networks v"
    by (simp add: rule_of_variant_def)
  show ?thesis
    unfolding matches_fields_def net port no_port country no_country inbound process names nets by auto
qed

text \<open>
  A rule applies when its pattern is blank or covers the endpoint, which the router finds out by
  its index, and its other conditions accept the flow.
\<close>

definition rule_applies :: "geo_lookup option \<Rightarrow> flow_context option \<Rightarrow> endpoint \<Rightarrow> route_rule \<Rightarrow> bool" where
  "rule_applies geo cx e rule \<longleftrightarrow>
     (blank_pattern rule \<or> host_member [rr_pattern rule] False e) \<and> accepts geo cx e rule"

lemma compile_variant_ok:
  assumes "variant_wf v" "variant_indexes_ok v" "variant_fits v"
  obtains uid1 rule where "compile_variant dir uid rec action policy priority v = (uid1, Inr rule)" "rule_ok rule"
    "\<And>e geo cx. valid_endpoint e \<Longrightarrow> rule_applies geo cx e rule \<longleftrightarrow> variant_holds e geo cx v"
    "rr_action rule = action" "rr_resolver_policy rule = policy" "rr_priority rule = priority"
    "rr_rule_name rule = gr_name rec" "rr_tag rule = gr_tag rec"
proof -
  obtain uid1 req where req: "compile_required_patterns dir uid (rv_additional_patterns v) (gr_id rec) = (uid1, Inr req)"
    and req_ok: "list_all2 (\<lambda>p i. host_trie_ok i \<and> (\<forall>e. valid_endpoint e \<longrightarrow> host_trie_search i e = Some (host_member [p] False e)))
      (rv_additional_patterns v) req"
    using compile_required_ok [of "rv_additional_patterns v"] assms(3) unfolding variant_fits_def by blast
  obtain excl where excl: "from_patterns uid1 (dir uid1) (rv_excluded_patterns v) = Inr excl"
    "\<And>e. valid_endpoint e \<Longrightarrow> host_trie_search excl e = Some (host_member (rv_excluded_patterns v) False e)" "host_trie_ok excl"
    using from_patterns_search [of "rv_excluded_patterns v" uid1] assms(3) unfolding variant_fits_def by blast
  let ?r = "rule_of_variant rec action policy priority v req excl"
  have fields: "rr_always_false ?r = rv_always_false v" "rr_excluded_patterns ?r = excl" "rr_required_patterns ?r = req"
    "rr_excluded_host_lists ?r = rv_excluded_host_lists v" "rr_host_lists ?r = rv_host_lists v"
    "rr_pattern ?r = unwrap_or (rv_pattern v) []"
    by (simp_all add: rule_of_variant_def)
  have req_set: "\<forall>i \<in> set req. host_trie_ok i"
    using req_ok by (induction rule: list_all2_induct) auto
  then have ok: "rule_ok ?r"
    using assms(2) excl(3) by (auto simp: rule_ok_def fields variant_indexes_ok_def list_all_iff)
  have applies: "rule_applies geo cx e ?r \<longleftrightarrow> variant_holds e geo cx v" if e: "valid_endpoint e" for e geo cx
  proof -
    have lists: "any_search (\<lambda>i. host_trie_search_parent i e) (rv_excluded_host_lists v) = Some (list_ex (in_index e) (rv_excluded_host_lists v))"
      "any_search (\<lambda>i. map_option Not (host_trie_search_parent i e)) (rv_host_lists v) = Some (list_ex (\<lambda>i. \<not> in_index e i) (rv_host_lists v))"
      using host_trie_search_total(2) [OF _ e] assms(2)
      by (intro any_search_some; fastforce simp: in_index_def variant_indexes_ok_def list_all_iff)+
    have "any_search (\<lambda>i. map_option Not (host_trie_search i e)) req = Some (\<not> list_all (\<lambda>p. host_member [p] False e) (rv_additional_patterns v))"
      using req_ok by (induction rule: list_all2_induct) (use e in \<open>auto split: bool.splits\<close>)
    note searches = lists this excl(2) [OF e] host_member_each [of "rv_excluded_patterns v"]
    have pattern: "blank_pattern ?r \<or> host_member [rr_pattern ?r] False e \<longleftrightarrow> (\<forall>p. rv_pattern v = Some p \<longrightarrow> host_member [p] False e)"
      using assms(1) by (auto simp: blank_pattern_def fields unwrap_or_def variant_wf_def trim_Nil split: option.splits)
    have "accepts geo cx e ?r \<longleftrightarrow> \<not> rv_always_false v \<and> \<not> list_ex (\<lambda>p. host_member [p] False e) (rv_excluded_patterns v)
        \<and> \<not> list_ex (in_index e) (rv_excluded_host_lists v) \<and> \<not> list_ex (\<lambda>i. \<not> in_index e i) (rv_host_lists v)
        \<and> list_all (\<lambda>p. host_member [p] False e) (rv_additional_patterns v) \<and> matches_fields ?r e geo cx"
      unfolding accepts_def matches_with_context_def fields searches by (simp split: bool.split)
    moreover have "list_all (\<lambda>p. host_member [p] False e) (variant_patterns v) \<longleftrightarrow>
        (\<forall>p. rv_pattern v = Some p \<longrightarrow> host_member [p] False e) \<and> list_all (\<lambda>p. host_member [p] False e) (rv_additional_patterns v)"
      by (simp add: variant_patterns_def split: option.split)
    ultimately show ?thesis
      unfolding rule_applies_def pattern variant_holds_def matches_fields_of_variant [OF assms(1)] not_list_ex not_not by blast
  qed
  show thesis
    by (rule that [OF _ ok applies]) (simp_all add: compile_variant_def compile_excluded_patterns_def req excl(1) rule_of_variant_def)
qed

subsection \<open>Records\<close>

lemma collect_results_ok:
  assumes "\<And>v uid. v \<in> set vs \<Longrightarrow> \<exists>uid1 r. f uid v = (uid1, Inr r) \<and> Q v r"
  shows "\<exists>uid1 rs. collect_results f uid vs = (uid1, Inr rs) \<and> list_all2 Q vs rs"
  using assms
proof (induction vs arbitrary: uid)
  case (Cons v vs)
  obtain uid1 r where r: "f uid v = (uid1, Inr r)" "Q v r"
    using Cons.prems [of v uid] by auto
  obtain uid2 rs where "collect_results f uid1 vs = (uid2, Inr rs)" "list_all2 Q vs rs"
    using Cons.IH [of uid1] Cons.prems by auto
  then show ?case
    using r by simp
qed simp

definition record_ok :: "(byte list \<Rightarrow> string + json) \<Rightarrow> go_route_rule \<Rightarrow> json \<Rightarrow> json list \<Rightarrow> bool" where
  "record_ok from_slice rec root exprs \<longleftrightarrow>
     \<not> gr_disabled rec \<and> from_slice (gr_data_json rec) = Inr root \<and> json_get root ''rules'' = Some (JArray exprs)"

definition rule_heads :: "go_route_rule \<Rightarrow> json \<Rightarrow> (rule_action \<times> resolver_policy \<times> int) result" where
  "rule_heads rec root =
     rbind (parse_action (gr_action_mode rec) root (gr_id rec)) (\<lambda>action.
     rbind (parse_resolver_policy root root action (gr_id rec)) (\<lambda>policy.
     rbind (priority_i32 rec) (\<lambda>priority. Inr (action, policy, priority))))"

lemma rule_variants_inv:
  assumes "rule_variants snap rid exprs = Inr vs" "P rule_variant_default"
    and "\<And>value vs. parse_rule_expression_inner snap rid value False = Inr vs \<Longrightarrow> list_all P vs"
  shows "list_all P vs"
proof (cases "exprs = []")
  case True
  then show ?thesis
    using assms(1,2) by (auto simp: rule_variants_def)
next
  case False
  then have ext: "extend_all (parse_rule_expression snap rid) exprs = Inr vs"
    using assms(1) by (simp add: rule_variants_def)
  show ?thesis
    by (rule extend_all_all [OF _ ext]) (simp add: assms(3) parse_rule_expression_def)
qed

definition rule_from :: "go_route_rule \<Rightarrow> rule_action \<times> resolver_policy \<times> int \<Rightarrow> rule_variant \<Rightarrow> route_rule \<Rightarrow> bool" where
  "rule_from rec heads v rule \<longleftrightarrow>
     (rr_action rule, rr_resolver_policy rule, rr_priority rule) = heads
     \<and> rr_rule_name rule = gr_name rec \<and> rr_tag rule = gr_tag rec \<and> rule_ok rule
     \<and> (\<forall>e geo cx. valid_endpoint e \<longrightarrow> rule_applies geo cx e rule = variant_holds e geo cx v)"

lemma expand_ok:
  assumes "record_ok from_slice rec root exprs" "rule_heads rec root = Inr heads"
    and "rule_variants snap (gr_id rec) exprs = Inr vs" "list_all variant_fits vs" "snapshot_ok snap"
  shows "\<exists>uid1 rules. expand_go_route_rule from_slice dir snap uid rec = (uid1, Inr rules)
    \<and> list_all2 (rule_from rec heads) vs rules"
proof -
  obtain action policy priority where heads: "heads = (action, policy, priority)"
    by (cases heads)
  have parse: "parse_data_json from_slice rec = Inr root" "and_then (json_get root ''rules'') as_array = Some exprs"
      "\<not> gr_disabled rec"
    using assms(1) by (simp_all add: record_ok_def parse_data_json_def and_then_def)
  have start: "rbind (parse_action (gr_action_mode rec) root (gr_id rec)) (\<lambda>action.
      rbind (parse_resolver_policy root root action (gr_id rec)) (\<lambda>policy.
      rbind (priority_i32 rec) (\<lambda>priority.
      rbind (rule_variants snap (gr_id rec) exprs) (\<lambda>variants. Inr (action, policy, priority, variants)))))
      = Inr (action, policy, priority, vs)"
    using assms(2,3) heads by (auto simp: rule_heads_def rbind_eq_Inr_iff)
  have inv: "list_all variant_wf vs" "list_all variant_indexes_ok vs"
    by (rule rule_variants_inv [where P = variant_wf, OF assms(3) variant_wf_default], erule parsed_wf)
      (rule rule_variants_inv [where P = variant_indexes_ok, OF assms(3) indexes_ok_default], erule parsed_indexes_ok [OF assms(5)])
  have "\<exists>uid1 r. compile_variant dir uid rec action policy priority v = (uid1, Inr r) \<and> rule_from rec heads v r"
    if "v \<in> set vs" for v uid
  proof -
    have "variant_wf v" "variant_indexes_ok v" "variant_fits v"
      using that inv assms(4) by (simp_all add: list_all_iff)
    then show ?thesis
      by (rule compile_variant_ok [of v dir uid rec action policy priority]) (auto simp: heads rule_from_def)
  qed
  from collect_results_ok [of vs "\<lambda>uid v. compile_variant dir uid rec action policy priority v" "rule_from rec heads" uid, OF this]
  show ?thesis
    using parse start by (simp add: expand_go_route_rule_def)
qed

lemma list_all2_ex: "list_all2 Q vs rs \<Longrightarrow> (\<And>v r. Q v r \<Longrightarrow> A r = B v) \<Longrightarrow> (\<exists>r \<in> set rs. A r) \<longleftrightarrow> list_ex B vs"
  by (induction rule: list_all2_induct) auto

lemma list_all2_all: "list_all2 Q vs rs \<Longrightarrow> (\<And>v r. Q v r \<Longrightarrow> A r) \<Longrightarrow> \<forall>r \<in> set rs. A r"
  by (induction rule: list_all2_induct) auto


text \<open>
  Whatever networks the conditions of a stored rule require, a rule it compiles to accepts a
  flow only when one of the conditions holds of it.
\<close>

lemma route_record_sound:
  assumes "record_ok from_slice rec root exprs" "rule_heads rec root = Inr heads"
    and "rule_variants snap (gr_id rec) exprs = Inr vs" "list_all variant_fits vs" "snapshot_ok snap"
    and "list_all (regular snap False) exprs" "valid_endpoint e"
  shows "\<exists>uid1 rules. expand_go_route_rule from_slice dir snap uid rec = (uid1, Inr rules)
    \<and> (\<forall>rule \<in> set rules. rule_applies geo cx e rule \<longrightarrow>
         exprs = [] \<or> (\<exists>x \<in> set exprs. expression_holds snap e geo cx x))"
proof -
  obtain uid1 rules where rules: "expand_go_route_rule from_slice dir snap uid rec = (uid1, Inr rules)"
    "list_all2 (rule_from rec heads) vs rules"
    using expand_ok [OF assms(1-5)] by blast
  have "\<exists>x \<in> set exprs. expression_holds snap e geo cx x" if "some_holds e geo cx vs" "exprs \<noteq> []"
  proof -
    have ext: "extend_all (parse_rule_expression snap (gr_id rec)) exprs = Inr vs"
      using assms(3) that(2) by (simp add: rule_variants_def)
    show ?thesis
      using expression_sound [of snap "gr_id rec" _ False] assms(6)
      by (intro extend_all_some [OF _ ext that(1)]) (auto simp: parse_rule_expression_def list_all_iff)
  qed
  moreover have "(\<exists>rule \<in> set rules. rule_applies geo cx e rule) \<longleftrightarrow> some_holds e geo cx vs"
    unfolding some_holds_def by (rule list_all2_ex [OF rules(2)]) (simp add: rule_from_def assms(7))
  ultimately show ?thesis
    using rules(1) by blast
qed

subsection \<open>Examples\<close>

definition network_condition :: "string \<Rightarrow> json" where
  "network_condition n = JObject [(''type'', JString ''network''), (''network'', JObject [(''network'', JString n)])]"

definition sample_condition :: json where
  "sample_condition =
     JObject [(''all'', JArray
       [JObject [(''not'', JObject [(''type'', JString ''port''), (''port'', JString ''80-90'')])],
        JObject [(''any'', JArray [JObject [(''type'', JString ''geoip''), (''geoip'', JString ''cn, de'')], network_condition ''tcp''])]])]"

definition sample_record :: go_route_rule where
  "sample_record = \<lparr>gr_id = ''7'', gr_name = ''web'', gr_priority = 5, gr_disabled = False, gr_action_mode = ''proxy'',
     gr_match_type = [], gr_tag = ''t'', gr_updated_at = 0, gr_data_json = []\<rparr>"

definition sample_root :: "json list \<Rightarrow> json" where
  "sample_root exprs = JObject [(''rules'', JArray exprs)]"

lemma sample_record_ok: "record_ok (\<lambda>_. Inr (sample_root exprs)) sample_record (sample_root exprs) exprs"
  by (simp add: record_ok_def sample_root_def sample_record_def)

definition sample_heads :: "rule_action \<times> resolver_policy \<times> int" where
  "sample_heads = (ActProxy, \<lparr>rp_strategy = DefaultStrategy, rp_use_fake_ip = True,
     rp_fake_ip_skip_check_upstream = False, rp_udp_skip_resolve_target = False\<rparr>, 5)"

lemma sample_rule_heads: "rule_heads sample_record (sample_root [sample_condition]) = Inr sample_heads"
  by code_simp

definition sample_variants :: "json list \<Rightarrow> rule_variant list" where
  "sample_variants exprs = projr (rule_variants route_list_snapshot_default ''7'' exprs)"

lemma empty_snapshot_ok: "snapshot_ok route_list_snapshot_default"
  by (simp add: snapshot_ok_def route_list_snapshot_default_def)

lemma sample_variants_ok:
  "rule_variants route_list_snapshot_default (gr_id sample_record) [sample_condition] = Inr (sample_variants [sample_condition])"
  "list_all variant_fits (sample_variants [sample_condition])"
  "list_all (regular route_list_snapshot_default False) [sample_condition]" "list_all (one_network Tcp False) [sample_condition]"
  by code_simp+


definition either_network :: json where
  "either_network = JObject [(''any'', JArray [network_condition ''tcp'', network_condition ''udp''])]"

lemma either_network_ok:
  "rule_heads sample_record (sample_root [either_network]) = Inr sample_heads"
  "rule_variants route_list_snapshot_default (gr_id sample_record) [either_network] = Inr (sample_variants [either_network])"
  "list_all variant_fits (sample_variants [either_network])"
  "list_all (regular route_list_snapshot_default False) [either_network]"
  by code_simp+

lemma route_record_sound_example:
  "\<exists>uid1 rules. expand_go_route_rule (\<lambda>_. Inr (sample_root [either_network])) (\<lambda>_. ''tmp'') route_list_snapshot_default 0 sample_record
       = (uid1, Inr rules)
     \<and> \<not> (\<exists>rule \<in> set rules. rule_applies None None (EDomain Icmp ''a.com'' 0) rule)"
proof -
  have valid: "valid_endpoint (EDomain Icmp ''a.com'' 0)"
    by code_simp
  moreover have "\<not> expression_holds route_list_snapshot_default (EDomain Icmp ''a.com'' 0) None None either_network"
    by code_simp
  ultimately show ?thesis
    using route_record_sound [OF sample_record_ok either_network_ok(1-3) empty_snapshot_ok either_network_ok(4),
        of "EDomain Icmp ''a.com'' 0" "\<lambda>_. ''tmp''" 0 None None]
    by auto
qed

text \<open>
  The converse fails across networks: a conflict between two networks gives up the whole
  conjunction and not only the pair, so that \<open>UDP and (TCP or UDP)\<close> compiles to no rule although it holds of
  every UDP flow.
\<close>

lemma network_conflict_drops_rule:
  "parse_rule_expression route_list_snapshot_default ''7'' (JObject [(''all'', JArray [network_condition ''udp'', either_network])]) = Inr []
   \<and> expression_holds route_list_snapshot_default (EDomain Udp ''a.com'' 53) None None
       (JObject [(''all'', JArray [network_condition ''udp'', either_network])])"
  by code_simp

text \<open>
  A list that is not there makes a negated condition on it true of every flow, so that the
  condition compiles to a rule for all of them.
\<close>

lemma missing_list_negation_is_global:
  "parse_rule_expression route_list_snapshot_default ''7''
      (JObject [(''not'', JObject [(''type'', JString ''host''), (''list'', JString ''gone'')])])
     = Inr [rule_variant_default\<lparr>rv_list_names := [''gone'']\<rparr>]"
  by code_simp

end
