(* ===== verification/Nat_Table.thy ===== *)
theory Nat_Table
  imports Types
begin

text \<open>
  The full-cone NAT table of \<open>core/src/nat.rs\<close> and the UDP relay built on it. The table's
  lock makes every operation atomic, so an operation is a function from the table to the
  table; \<open>Instant::now()\<close> is an argument in nanoseconds, one per call the code makes. The
  error of a poisoned lock is not modelled, and the sockets of the relay are arguments: the
  result of \<open>local_addr\<close>, \<open>send_to\<close> and \<open>recv_from\<close>.

  Hash maps are association lists with distinct keys, a hash set is a distinct list. The
  gauge \<open>active_destinations\<close> is an integer here, so that an underflow of the code's
  \<open>usize\<close> would be a negative number; the invariant shows that it never is one.
\<close>

subsection \<open>The table\<close>

record nat_key =
  nk_network :: network
  nk_source :: socket_addr
  nk_destination :: socket_addr

record nat_entry =
  ne_translated :: socket_addr
  ne_created_at :: nat
  ne_last_seen :: nat
  ne_idle_timeout :: nat

type_synonym nat_binding_key = "network \<times> socket_addr"
type_synonym nat_endpoint_key = "network \<times> socket_addr"

record nat_binding =
  nb_entry :: nat_entry
  nb_destinations :: "socket_addr list"

record nat_metrics =
  nm_allocations :: u64
  nm_reuses :: u64
  nm_touch_hits :: u64
  nm_touch_misses :: u64
  nm_reverse_lookups :: u64
  nm_reverse_hits :: u64
  nm_translated_rebinds :: u64
  nm_expired_bindings :: u64
  nm_explicit_closes :: u64

record nat_table =
  nt_entries :: "(nat_binding_key \<times> nat_binding) list"
  nt_translated :: "(nat_endpoint_key \<times> nat_binding_key) list"
  nt_active_destinations :: int
  nt_metrics :: nat_metrics

definition binding_key :: "nat_key \<Rightarrow> nat_binding_key" where
  "binding_key k = (nk_network k, nk_source k)"

definition nat_metrics_default :: nat_metrics where
  "nat_metrics_default =
     \<lparr>nm_allocations = 0, nm_reuses = 0, nm_touch_hits = 0, nm_touch_misses = 0,
      nm_reverse_lookups = 0, nm_reverse_hits = 0, nm_translated_rebinds = 0,
      nm_expired_bindings = 0, nm_explicit_closes = 0\<rparr>"

definition nat_table_new :: nat_table where
  "nat_table_new =
     \<lparr>nt_entries = [], nt_translated = [], nt_active_destinations = 0,
      nt_metrics = nat_metrics_default\<rparr>"

text \<open>\<open>saturating_duration_since\<close> is subtraction on the naturals.\<close>

definition is_expired :: "nat_entry \<Rightarrow> nat \<Rightarrow> bool" where
  "is_expired e now = (now - ne_last_seen e \<ge> ne_idle_timeout e)"

definition remove_binding :: "nat_table \<Rightarrow> nat_binding_key \<Rightarrow> nat_table \<times> nat_binding option" where
  "remove_binding t key =
     (case map_of (nt_entries t) key of
        None \<Rightarrow> (t, None)
      | Some binding \<Rightarrow>
          (t\<lparr>nt_entries := AList.delete key (nt_entries t),
             nt_translated :=
               AList.delete (fst key, ne_translated (nb_entry binding)) (nt_translated t),
             nt_active_destinations :=
               nt_active_destinations t - int (length (nb_destinations binding))\<rparr>,
           Some binding))"

text \<open>\<open>HashSet::insert\<close>: the set afterwards and whether the element is new.\<close>

definition set_insert :: "'a \<Rightarrow> 'a list \<Rightarrow> 'a list \<times> bool" where
  "set_insert x xs = (if x \<in> set xs then (xs, False) else (x # xs, True))"

definition put_binding :: "nat_table \<Rightarrow> nat_binding_key \<Rightarrow> nat_binding \<Rightarrow> nat_table" where
  "put_binding t key b = t\<lparr>nt_entries := AList.update key b (nt_entries t)\<rparr>"

text \<open>\<open>fetch_add(n, Relaxed)\<close> on one counter.\<close>

abbreviation (input) count_by ::
  "((u64 \<Rightarrow> u64) \<Rightarrow> nat_metrics \<Rightarrow> nat_metrics) \<Rightarrow> u64 \<Rightarrow> nat_table \<Rightarrow> nat_table" where
  "count_by field n t \<equiv> t\<lparr>nt_metrics := field (\<lambda>c. c + n) (nt_metrics t)\<rparr>"

definition nat_allocate :: "nat_table \<Rightarrow> nat_key \<Rightarrow> socket_addr \<Rightarrow> nat \<Rightarrow> nat \<Rightarrow> nat_table" where
  "nat_allocate t key translated idle_timeout now =
     (let bk = binding_key key;
          t1 = put_binding t bk
                 \<lparr>nb_entry = \<lparr>ne_translated = translated, ne_created_at = now, ne_last_seen = now,
                              ne_idle_timeout = idle_timeout\<rparr>,
                  nb_destinations = [nk_destination key]\<rparr>;
          t2 = t1\<lparr>nt_translated := AList.update (nk_network key, translated) bk (nt_translated t1),
                  nt_active_destinations := nt_active_destinations t1 + 1\<rparr>
      in count_by nm_allocations_update 1 t2)"

definition nat_insert ::
  "nat_table \<Rightarrow> nat_key \<Rightarrow> socket_addr \<Rightarrow> nat \<Rightarrow> nat \<Rightarrow> nat_table \<times> unit result" where
  "nat_insert t key translated idle_timeout now =
     (if idle_timeout = 0
      then (t, Inl (error_new InvalidInput ''NAT idle timeout must be greater than zero''))
      else
        (let bk = binding_key key in
         case map_of (nt_entries t) bk of
           Some binding \<Rightarrow>
             if ne_translated (nb_entry binding) \<noteq> translated
             then (t, Inl (error_invalid ''full-cone NAT source already uses another translated endpoint''))
             else
               (let (ds, new) = set_insert (nk_destination key) (nb_destinations binding);
                    t1 = put_binding t bk
                           (binding\<lparr>nb_entry := (nb_entry binding)\<lparr>ne_last_seen := now\<rparr>,
                                    nb_destinations := ds\<rparr>);
                    t2 = t1\<lparr>nt_active_destinations := nt_active_destinations t1 + of_bool new\<rparr>
                in (count_by nm_reuses_update 1 t2, Inr ()))
         | None \<Rightarrow>
             (case map_of (nt_translated t) (nk_network key, translated) of
                Some owner \<Rightarrow>
                  if owner \<noteq> bk
                  then (t, Inl (error_invalid ''translated NAT endpoint is already owned by another source''))
                  else (nat_allocate t key translated idle_timeout now, Inr ())
              | None \<Rightarrow> (nat_allocate t key translated idle_timeout now, Inr ()))))"

text \<open>\<open>touch\<close> reads the clock twice: for the expiry check and for \<open>last_seen\<close>.\<close>

definition nat_touch ::
  "nat_table \<Rightarrow> nat_key \<Rightarrow> nat \<Rightarrow> nat \<Rightarrow> nat_table \<times> nat_entry option result" where
  "nat_touch t key now1 now2 =
     (let bk = binding_key key in
      case map_of (nt_entries t) bk of
        None \<Rightarrow> (count_by nm_touch_misses_update 1 t, Inr None)
      | Some binding \<Rightarrow>
          if is_expired (nb_entry binding) now1
          then
            (let t1 = fst (remove_binding t bk);
                 t2 = count_by nm_expired_bindings_update 1 t1
             in (count_by nm_touch_misses_update 1 t2, Inr None))
          else
            (let entry = (nb_entry binding)\<lparr>ne_last_seen := now2\<rparr>;
                 (ds, inserted) = set_insert (nk_destination key) (nb_destinations binding);
                 t1 = put_binding t bk (binding\<lparr>nb_entry := entry, nb_destinations := ds\<rparr>);
                 t2 = t1\<lparr>nt_active_destinations := nt_active_destinations t1 + of_bool inserted\<rparr>
             in (count_by nm_touch_hits_update 1 t2, Inr (Some entry))))"

definition bind_translated ::
  "nat_table \<Rightarrow> network \<Rightarrow> socket_addr \<Rightarrow> socket_addr \<Rightarrow> nat \<Rightarrow> nat_table \<times> nat_entry result" where
  "bind_translated t network source translated now =
     (let bk = (network, source) in
      case map_of (nt_entries t) bk of
        None \<Rightarrow> (t, Inl (error_new NotFound ''NAT source binding does not exist''))
      | Some current \<Rightarrow>
          if is_expired (nb_entry current) now
          then
            (let t1 = fst (remove_binding t bk)
             in (count_by nm_expired_bindings_update 1 t1,
                 Inl (error_new Closed
                   ''NAT source binding expired before translated endpoint was ready'')))
          else if ne_translated (nb_entry current) = translated
          then
            (let entry = (nb_entry current)\<lparr>ne_last_seen := now\<rparr>
             in (put_binding t bk (current\<lparr>nb_entry := entry\<rparr>), Inr entry))
          else if (case map_of (nt_translated t) (network, translated) of
                     None \<Rightarrow> False | Some owner \<Rightarrow> owner \<noteq> bk)
          then (t, Inl (error_invalid ''translated NAT endpoint is already owned by another source''))
          else
            (let t1 = t\<lparr>nt_translated :=
                   AList.update (network, translated) bk
                     (AList.delete (network, ne_translated (nb_entry current)) (nt_translated t))\<rparr>;
                 t2 = count_by nm_translated_rebinds_update 1 t1;
                 entry = (nb_entry current)\<lparr>ne_translated := translated, ne_last_seen := now\<rparr>
             in (put_binding t2 bk (current\<lparr>nb_entry := entry\<rparr>), Inr entry)))"

definition nat_remove :: "nat_table \<Rightarrow> nat_key \<Rightarrow> nat_table \<times> nat_entry option result" where
  "nat_remove t key =
     (let bk = binding_key key in
      case map_of (nt_entries t) bk of
        None \<Rightarrow> (t, Inr None)
      | Some binding \<Rightarrow>
          (let removed = nk_destination key \<in> set (nb_destinations binding);
               binding1 = binding\<lparr>nb_destinations := remove1 (nk_destination key) (nb_destinations binding)\<rparr>;
               t1 = put_binding t bk binding1;
               t2 = t1\<lparr>nt_active_destinations := nt_active_destinations t1 - of_bool removed\<rparr>
           in if nb_destinations binding1 \<noteq> [] then (t2, Inr (Some (nb_entry binding1)))
              else
                (let t3 = fst (remove_binding t2 bk)
                 in (count_by nm_explicit_closes_update 1 t3, Inr (Some (nb_entry binding1))))))"

definition remove_source :: "nat_table \<Rightarrow> network \<Rightarrow> socket_addr \<Rightarrow> nat_table \<times> nat result" where
  "remove_source t network source =
     (case remove_binding t (network, source) of
        (t1, None) \<Rightarrow> (t1, Inr 0)
      | (t1, Some binding) \<Rightarrow>
          (count_by nm_explicit_closes_update 1 t1, Inr (length (nb_destinations binding))))"

definition flow_keys :: "nat_binding_key \<times> nat_binding \<Rightarrow> nat_key list" where
  "flow_keys kb =
     map (\<lambda>d. \<lparr>nk_network = fst (fst kb), nk_source = snd (fst kb), nk_destination = d\<rparr>)
       (nb_destinations (snd kb))"

definition sweep_keys :: "nat_table \<Rightarrow> nat \<Rightarrow> nat_table \<times> nat_key list result" where
  "sweep_keys t now =
     (let expired = filter (\<lambda>kb. is_expired (nb_entry (snd kb)) now) (nt_entries t);
          t1 = foldl (\<lambda>s kb. fst (remove_binding s (fst kb))) t expired
      in (count_by nm_expired_bindings_update (of_nat (length expired)) t1,
          Inr (concat (map flow_keys expired))))"

definition nat_sweep :: "nat_table \<Rightarrow> nat \<Rightarrow> nat_table \<times> nat result" where
  "nat_sweep t now =
     (case sweep_keys t now of
        (t1, Inl e) \<Rightarrow> (t1, Inl e)
      | (t1, Inr keys) \<Rightarrow> (t1, Inr (length keys)))"

text \<open>
  \<open>lookup_translated\<close> ignores the external source. Which of the destinations it returns is
  the hash set's choice; the model takes the first of the list.
\<close>

definition lookup_translated ::
  "nat_table \<Rightarrow> network \<Rightarrow> socket_addr \<Rightarrow> socket_addr \<Rightarrow> nat \<Rightarrow> nat \<Rightarrow> nat_table \<times> nat_key option result" where
  "lookup_translated t0 network translated external_source now1 now2 =
     (let t = count_by nm_reverse_lookups_update 1 t0 in
      case map_of (nt_translated t) (network, translated) of
        None \<Rightarrow> (t, Inr None)
      | Some bk \<Rightarrow>
          (case map_of (nt_entries t) bk of
             None \<Rightarrow> (t, Inr None)
           | Some current \<Rightarrow>
               if is_expired (nb_entry current) now1
               then
                 (let t1 = fst (remove_binding t bk)
                  in (count_by nm_expired_bindings_update 1 t1, Inr None))
               else
                 (let t1 = put_binding t bk
                        (current\<lparr>nb_entry := (nb_entry current)\<lparr>ne_last_seen := now2\<rparr>\<rparr>)
                  in case flow_keys (bk, current) of
                       [] \<Rightarrow> (t1, Inr None)
                     | key # _ \<Rightarrow> (count_by nm_reverse_hits_update 1 t1, Inr (Some key)))))"

definition lookup_source ::
  "nat_table \<Rightarrow> network \<Rightarrow> socket_addr \<Rightarrow> nat \<Rightarrow> nat_table \<times> nat_entry option result" where
  "lookup_source t network source now =
     (case map_of (nt_entries t) (network, source) of
        None \<Rightarrow> (t, Inr None)
      | Some current \<Rightarrow>
          if is_expired (nb_entry current) now
          then
            (let t1 = fst (remove_binding t (network, source))
             in (count_by nm_expired_bindings_update 1 t1, Inr None))
          else (t, Inr (Some (nb_entry current))))"

definition nat_len :: "nat_table \<Rightarrow> nat" where
  "nat_len t = length (nt_entries t)"

definition nat_is_empty :: "nat_table \<Rightarrow> bool" where
  "nat_is_empty t = (nt_entries t = [])"

record nat_stats =
  ns_active_bindings :: nat
  ns_active_destinations :: int
  ns_reverse_mappings :: nat
  ns_metrics :: nat_metrics

definition nat_table_stats :: "nat_table \<Rightarrow> nat_stats" where
  "nat_table_stats t =
     \<lparr>ns_active_bindings = length (nt_entries t),
      ns_active_destinations = nt_active_destinations t,
      ns_reverse_mappings = length (nt_translated t),
      ns_metrics = nt_metrics t\<rparr>"

subsection \<open>The UDP relay\<close>

record udp_nat_relay =
  ur_mapping :: "nat_key option"
  ur_idle_timeout :: nat

definition relay_bind :: "nat \<Rightarrow> unit result \<Rightarrow> udp_nat_relay result" where
  "relay_bind idle_timeout socket =
     (if idle_timeout = 0 then Inl (error_invalid ''UDP NAT idle timeout must be non-zero'')
      else rbind socket (\<lambda>_. Inr \<lparr>ur_mapping = None, ur_idle_timeout = idle_timeout\<rparr>))"

text \<open>
  \<open>send_to\<close>: \<open>local\<close> is the socket's own address and \<open>sent\<close> the result of handing the
  payload to the socket. The clock is read by \<open>touch\<close> (twice) and by \<open>insert\<close>.
\<close>

definition relay_send_to ::
  "udp_nat_relay \<Rightarrow> nat_table \<Rightarrow> nat_key \<Rightarrow> socket_addr result \<Rightarrow> nat result \<Rightarrow> nat \<Rightarrow> nat \<Rightarrow> nat
     \<Rightarrow> udp_nat_relay \<times> nat_table \<times> nat result" where
  "relay_send_to r t key local_addr sent now1 now2 now3 =
     (case local_addr of
        Inl e \<Rightarrow> (r, t, Inl e)
      | Inr translated \<Rightarrow>
          if (case ur_mapping r of
                None \<Rightarrow> False
              | Some current \<Rightarrow> nk_network current \<noteq> nk_network key \<or> nk_source current \<noteq> nk_source key)
          then (r, t, Inl (error_invalid ''one UDP NAT relay cannot own multiple full-cone sources''))
          else
            (let r1 = r\<lparr>ur_mapping :=
                        (case ur_mapping r of
                           Some current \<Rightarrow> Some (current\<lparr>nk_destination := nk_destination key\<rparr>)
                         | None \<Rightarrow> Some key)\<rparr>
             in case nat_touch t key now1 now2 of
               (t1, Inl e) \<Rightarrow> (r, t1, Inl e)
             | (t1, Inr (Some entry)) \<Rightarrow>
                 if ne_translated entry \<noteq> translated
                 then (r, t1, Inl (error_new Closed
                        ''UDP NAT source is already bound to another translated endpoint''))
                 else (r1, t1, sent)
             | (t1, Inr None) \<Rightarrow>
                 (case nat_insert t1 key translated (ur_idle_timeout r) now3 of
                    (t2, Inl e) \<Rightarrow> (r, t2, Inl e)
                  | (t2, Inr _) \<Rightarrow> (r1, t2, sent))))"

definition relay_recv_from ::
  "udp_nat_relay \<Rightarrow> nat_table \<Rightarrow> (nat \<times> socket_addr) result \<Rightarrow> socket_addr result \<Rightarrow> nat \<Rightarrow> nat \<Rightarrow> nat \<Rightarrow> nat
     \<Rightarrow> udp_nat_relay \<times> nat_table \<times> (nat_key \<times> nat \<times> socket_addr) result" where
  "relay_recv_from r t received local_addr now1 now2 now3 now4 =
     (case received of
        Inl e \<Rightarrow> (r, t, Inl e)
      | Inr (len, peer) \<Rightarrow>
          (case ur_mapping r of
             None \<Rightarrow> (r, t, Inl (error_new NotFound ''UDP packet has no NAT mapping''))
           | Some key \<Rightarrow>
               (case local_addr of
                  Inl e \<Rightarrow> (r, t, Inl e)
                | Inr translated \<Rightarrow>
                    (case lookup_translated t Udp translated peer now1 now2 of
                       (t1, Inl e) \<Rightarrow> (r, t1, Inl e)
                     | (t1, Inr None) \<Rightarrow>
                         (r, t1, Inl (error_new NotFound
                            ''UDP packet has no active full-cone NAT mapping''))
                     | (t1, Inr (Some _)) \<Rightarrow>
                         (case nat_touch t1 key now3 now4 of
                            (t2, Inl e) \<Rightarrow> (r, t2, Inl e)
                          | (t2, Inr _) \<Rightarrow> (r, t2, Inr (key, len, peer)))))))"

definition relay_sweep ::
  "udp_nat_relay \<Rightarrow> nat_table \<Rightarrow> socket_addr result \<Rightarrow> nat \<Rightarrow> nat \<Rightarrow> nat
     \<Rightarrow> udp_nat_relay \<times> nat_table \<times> nat result" where
  "relay_sweep r t local_addr now1 now2 now3 =
     (case nat_sweep t now1 of
        (t1, Inl e) \<Rightarrow> (r, t1, Inl e)
      | (t1, Inr removed) \<Rightarrow>
          (case ur_mapping r of
             Some key \<Rightarrow>
               if removed \<noteq> 0 then
                 (case local_addr of
                    Inl e \<Rightarrow> (r, t1, Inl e)
                  | Inr translated \<Rightarrow>
                      (case lookup_translated t1 Udp translated (nk_source key) now2 now3 of
                         (t2, Inl e) \<Rightarrow> (r, t2, Inl e)
                       | (t2, Inr None) \<Rightarrow> (r\<lparr>ur_mapping := None\<rparr>, t2, Inr removed)
                       | (t2, Inr (Some _)) \<Rightarrow> (r, t2, Inr removed)))
               else (r, t1, Inr removed)
           | None \<Rightarrow> (r, t1, Inr removed)))"

definition relay_close :: "udp_nat_relay \<Rightarrow> nat_table \<Rightarrow> udp_nat_relay \<times> nat_table \<times> nat result" where
  "relay_close r t =
     (case ur_mapping r of
        None \<Rightarrow> (r, t, Inr 0)
      | Some key \<Rightarrow>
          (case remove_source t (nk_network key) (nk_source key) of
             (t1, res) \<Rightarrow> (r\<lparr>ur_mapping := None\<rparr>, t1, res)))"

definition relay_drop :: "udp_nat_relay \<Rightarrow> nat_table \<Rightarrow> nat_table" where
  "relay_drop r t =
     (case ur_mapping r of
        None \<Rightarrow> t
      | Some key \<Rightarrow> fst (remove_source t (nk_network key) (nk_source key)))"

subsection \<open>The invariant\<close>

definition nat_inv :: "nat_table \<Rightarrow> bool" where
  "nat_inv t \<longleftrightarrow>
     distinct (map fst (nt_entries t)) \<and> distinct (map fst (nt_translated t))
     \<and> (\<forall>bk b. map_of (nt_entries t) bk = Some b \<longrightarrow>
          nb_destinations b \<noteq> [] \<and> distinct (nb_destinations b) \<and> 0 < ne_idle_timeout (nb_entry b)
          \<and> map_of (nt_translated t) (fst bk, ne_translated (nb_entry b)) = Some bk)
     \<and> (\<forall>ek bk. map_of (nt_translated t) ek = Some bk \<longrightarrow>
          (\<exists>b. map_of (nt_entries t) bk = Some b \<and> ek = (fst bk, ne_translated (nb_entry b))))
     \<and> nt_active_destinations t = alist_sum (\<lambda>b. int (length (nb_destinations b))) (nt_entries t)"

lemma nat_invD:
  assumes "nat_inv t"
  shows "distinct (map fst (nt_entries t))" "distinct (map fst (nt_translated t))"
    and "map_of (nt_entries t) bk = Some b \<Longrightarrow> nb_destinations b \<noteq> [] \<and> distinct (nb_destinations b)
      \<and> 0 < ne_idle_timeout (nb_entry b)"
    and "map_of (nt_entries t) bk = Some b \<Longrightarrow>
      map_of (nt_translated t) (fst bk, ne_translated (nb_entry b)) = Some bk"
    and "map_of (nt_translated t) ek = Some bk \<Longrightarrow>
      \<exists>b. map_of (nt_entries t) bk = Some b \<and> ek = (fst bk, ne_translated (nb_entry b))"
    and "nt_active_destinations t = alist_sum (\<lambda>b. int (length (nb_destinations b))) (nt_entries t)"
  using assms unfolding nat_inv_def by blast+

lemma nat_inv_metrics [simp]: "nat_inv (t\<lparr>nt_metrics := m\<rparr>) = nat_inv t"
  by (simp add: nat_inv_def)

lemma put_binding_metrics: "put_binding (t\<lparr>nt_metrics := m\<rparr>) bk b = (put_binding t bk b)\<lparr>nt_metrics := m\<rparr>"
  by (simp add: put_binding_def)

lemma nat_inv_new: "nat_inv nat_table_new"
  by (simp add: nat_inv_def nat_table_new_def)

lemma nat_inv_remove_binding:
  assumes "nat_inv t"
  shows "nat_inv (fst (remove_binding t bk))"
proof (cases "map_of (nt_entries t) bk")
  case None
  with assms show ?thesis by (simp add: remove_binding_def)
next
  case (Some b)
  let ?ek = "(fst bk, ne_translated (nb_entry b))"
  let ?t = "fst (remove_binding t bk)"
  note inv = nat_invD [OF assms]
  have entries: "map_of (nt_entries ?t) = (map_of (nt_entries t))(bk := None)"
    and trans: "map_of (nt_translated ?t) = (map_of (nt_translated t))(?ek := None)"
    using Some by (simp_all add: remove_binding_def)
  have "map_of (nt_translated ?t) (fst bk', ne_translated (nb_entry b')) = Some bk'"
    if "map_of (nt_entries ?t) bk' = Some b'" for bk' b'
  proof -
    have old: "map_of (nt_entries t) bk' = Some b'" and ne: "bk' \<noteq> bk"
      using that entries by (auto split: if_splits)
    have "(fst bk', ne_translated (nb_entry b')) \<noteq> ?ek"
      using inv(4) [OF old] inv(4) [OF Some] ne by force
    with inv(4) [OF old] show ?thesis
      by (simp add: trans)
  qed
  moreover have "\<exists>b'. map_of (nt_entries ?t) bk' = Some b' \<and> ek = (fst bk', ne_translated (nb_entry b'))"
    if hit: "map_of (nt_translated ?t) ek = Some bk'" for ek bk'
  proof -
    have old: "map_of (nt_translated t) ek = Some bk'" and ne: "ek \<noteq> ?ek"
      using hit trans by (auto split: if_splits)
    from inv(5) [OF old] ne Some show ?thesis
      by (auto simp: entries)
  qed
  moreover have "nb_destinations b' \<noteq> [] \<and> distinct (nb_destinations b') \<and> 0 < ne_idle_timeout (nb_entry b')"
    if "map_of (nt_entries ?t) bk' = Some b'" for bk' b'
    using that entries inv(3) by (auto split: if_splits)
  moreover have "nt_active_destinations ?t = alist_sum (\<lambda>b. int (length (nb_destinations b))) (nt_entries ?t)"
    using inv(6) Some alist_sum_delete [OF inv(1)] by (simp add: remove_binding_def)
  moreover have "distinct (map fst (nt_entries ?t))" "distinct (map fst (nt_translated ?t))"
    using inv(1,2) Some by (auto simp: remove_binding_def)
  ultimately show ?thesis
    unfolding nat_inv_def by blast
qed

text \<open>Replacing a binding by one with the same translated endpoint.\<close>

lemma nat_inv_put_same:
  assumes "nat_inv t" "map_of (nt_entries t) bk = Some b"
    and "ne_translated (nb_entry b') = ne_translated (nb_entry b)"
    and "ne_idle_timeout (nb_entry b') = ne_idle_timeout (nb_entry b)"
    and "nb_destinations b' \<noteq> []" "distinct (nb_destinations b')"
    and "n = nt_active_destinations t + int (length (nb_destinations b')) - int (length (nb_destinations b))"
  shows "nat_inv ((put_binding t bk b')\<lparr>nt_active_destinations := n\<rparr>)"
proof -
  note inv = nat_invD [OF assms(1)]
  have "n = alist_sum (\<lambda>b. int (length (nb_destinations b))) (AList.update bk b' (nt_entries t))"
    using assms(2,7) inv(6) alist_sum_update [OF inv(1)] by simp
  moreover have "\<exists>b''. ((map_of (nt_entries t))(bk \<mapsto> b')) bk' = Some b'' \<and> ek = (fst bk', ne_translated (nb_entry b''))"
    if "map_of (nt_translated t) ek = Some bk'" for ek bk'
    using inv(5) [OF that] assms(2,3) by auto
  ultimately show ?thesis
    using inv(1,2) inv(3,4) assms(2-6) distinct_update [OF inv(1)]
    unfolding nat_inv_def put_binding_def by (auto split: if_splits)
qed

lemma nat_inv_put_entry:
  assumes "nat_inv t" "map_of (nt_entries t) bk = Some b"
    and "ne_translated e = ne_translated (nb_entry b)" "ne_idle_timeout e = ne_idle_timeout (nb_entry b)"
  shows "nat_inv (put_binding t bk (b\<lparr>nb_entry := e\<rparr>))"
proof -
  have "put_binding t bk (b\<lparr>nb_entry := e\<rparr>) =
      (put_binding t bk (b\<lparr>nb_entry := e\<rparr>))\<lparr>nt_active_destinations := nt_active_destinations t\<rparr>"
    by (simp add: put_binding_def)
  also have "nat_inv \<dots>"
    using assms nat_invD(3) [OF assms(1,2)] by (intro nat_inv_put_same) auto
  finally show ?thesis .
qed

lemma nat_inv_allocate:
  assumes "nat_inv t" "map_of (nt_entries t) (binding_key key) = None" "0 < idle_timeout"
    and "map_of (nt_translated t) (nk_network key, tr) = None"
  shows "nat_inv (nat_allocate t key tr idle_timeout now)"
proof -
  note inv = nat_invD [OF assms(1)]
  let ?t = "nat_allocate t key tr idle_timeout now" and ?bk = "binding_key key"
  let ?b = "\<lparr>nb_entry = \<lparr>ne_translated = tr, ne_created_at = now, ne_last_seen = now,
      ne_idle_timeout = idle_timeout\<rparr>, nb_destinations = [nk_destination key]\<rparr>"
  have es: "nt_entries ?t = AList.update ?bk ?b (nt_entries t)"
    and ts: "nt_translated ?t = AList.update (nk_network key, tr) ?bk (nt_translated t)"
    and ac: "nt_active_destinations ?t = nt_active_destinations t + 1"
    by (simp_all add: nat_allocate_def put_binding_def Let_def)
  have fst: "fst ?bk = nk_network key"
    by (simp add: binding_key_def)
  have new: "(fst bk, ne_translated (nb_entry b)) \<noteq> (nk_network key, tr)"
    if "map_of (nt_entries t) bk = Some b" for bk b
    using inv(4) [OF that] assms(4) by auto
  have reverse: "\<exists>b. map_of (nt_entries ?t) bk = Some b \<and> ek = (fst bk, ne_translated (nb_entry b))"
    if hit: "map_of (nt_translated ?t) ek = Some bk" for ek bk
  proof (cases "ek = (nk_network key, tr)")
    case True
    with hit fst show ?thesis by (simp add: es ts)
  next
    case False
    with hit have "map_of (nt_translated t) ek = Some bk"
      by (simp add: ts)
    from inv(5) [OF this] assms(2) show ?thesis
      by (auto simp: es)
  qed
  have forth: "nb_destinations b \<noteq> [] \<and> distinct (nb_destinations b) \<and> 0 < ne_idle_timeout (nb_entry b)
      \<and> map_of (nt_translated ?t) (fst bk, ne_translated (nb_entry b)) = Some bk"
    if hit: "map_of (nt_entries ?t) bk = Some b" for bk b
  proof (cases "bk = ?bk")
    case True
    with hit fst assms(3) show ?thesis by (auto simp: es ts)
  next
    case False
    with hit have ent: "map_of (nt_entries t) bk = Some b"
      by (simp add: es)
    from inv(3,4) [OF ent] new [OF ent] show ?thesis
      by (auto simp: ts)
  qed
  have "nt_active_destinations ?t = alist_sum (\<lambda>b. int (length (nb_destinations b))) (nt_entries ?t)"
    using assms(2) inv(6) alist_sum_update [OF inv(1)] by (simp add: es ac)
  with reverse forth show ?thesis
    unfolding nat_inv_def es ts using distinct_update [OF inv(1)] distinct_update [OF inv(2)]
    by (metis es ts)
qed

lemma nat_inv_rebind:
  assumes "nat_inv t" "map_of (nt_entries t) bk = Some b"
    and "map_of (nt_translated t) (fst bk, tr) = None"
    and "ne_translated e = tr" "ne_idle_timeout e = ne_idle_timeout (nb_entry b)"
  shows "nat_inv (put_binding (t\<lparr>nt_translated := AList.update (fst bk, tr) bk
      (AList.delete (fst bk, ne_translated (nb_entry b)) (nt_translated t)), nt_metrics := m\<rparr>) bk (b\<lparr>nb_entry := e\<rparr>))"
    (is "nat_inv ?t")
proof -
  note inv = nat_invD [OF assms(1)]
  have es: "map_of (nt_entries ?t) = (map_of (nt_entries t))(bk \<mapsto> b\<lparr>nb_entry := e\<rparr>)"
    and ts: "map_of (nt_translated ?t) =
      (map_of (nt_translated t))((fst bk, ne_translated (nb_entry b)) := None, (fst bk, tr) \<mapsto> bk)"
    by (simp_all add: put_binding_def)
  have other: "map_of (nt_translated t) (fst bk', ne_translated (nb_entry b')) = Some bk'"
      "(fst bk', ne_translated (nb_entry b')) \<noteq> (fst bk, tr)"
      "(fst bk', ne_translated (nb_entry b')) \<noteq> (fst bk, ne_translated (nb_entry b))"
    if ent: "map_of (nt_entries t) bk' = Some b'" and ne: "bk' \<noteq> bk" for bk' b'
    using inv(4) [OF ent] inv(4) [OF assms(2)] assms(3) ne by force+
  have reverse: "\<exists>b'. map_of (nt_entries ?t) bk' = Some b' \<and> ek = (fst bk', ne_translated (nb_entry b'))"
    if hit: "map_of (nt_translated ?t) ek = Some bk'" for ek bk'
  proof (cases "ek = (fst bk, tr)")
    case True
    with hit have "bk' = bk" by (simp add: ts)
    with True assms(4) show ?thesis by (simp add: es)
  next
    case False
    with hit have old: "map_of (nt_translated t) ek = Some bk'" "ek \<noteq> (fst bk, ne_translated (nb_entry b))"
      by (auto simp: ts split: if_splits)
    from inv(5) [OF old(1)] old(2) assms(2) show ?thesis
      by (auto simp: es)
  qed
  have forth: "nb_destinations b' \<noteq> [] \<and> distinct (nb_destinations b') \<and> 0 < ne_idle_timeout (nb_entry b')
      \<and> map_of (nt_translated ?t) (fst bk', ne_translated (nb_entry b')) = Some bk'"
    if hit: "map_of (nt_entries ?t) bk' = Some b'" for bk' b'
  proof (cases "bk' = bk")
    case True
    with hit have "b' = b\<lparr>nb_entry := e\<rparr>"
      by (simp add: es)
    moreover from this assms(4) have "ne_translated (nb_entry b') = tr"
      by simp
    ultimately show ?thesis
      using inv(3) [OF assms(2)] assms(5) True by (simp add: ts)
  next
    case False
    with hit have "map_of (nt_entries t) bk' = Some b'"
      by (simp add: es)
    with inv(3) other [OF this False] show ?thesis
      by (auto simp: ts)
  qed
  have "nt_active_destinations ?t = alist_sum (\<lambda>b. int (length (nb_destinations b))) (nt_entries ?t)"
    using assms(2) inv(6) alist_sum_update [OF inv(1)] by (simp add: put_binding_def)
  moreover have "distinct (map fst (nt_entries ?t))" "distinct (map fst (nt_translated ?t))"
    using distinct_update [OF inv(1)] distinct_update [OF distinct_alist_delete [OF inv(2)]]
    by (simp_all add: put_binding_def)
  ultimately show ?thesis
    using reverse forth unfolding nat_inv_def by blast
qed

lemma set_insert_ok:
  "distinct xs \<Longrightarrow> set_insert x xs = (ys, new) \<Longrightarrow>
   distinct ys \<and> ys \<noteq> [] \<and> set ys = insert x (set xs) \<and> int (length ys) = int (length xs) + of_bool new"
  by (auto simp: set_insert_def split: if_splits)

subsection \<open>Every operation keeps the invariant\<close>

lemma nat_insert_inv:
  assumes "nat_inv t"
  shows "nat_inv (fst (nat_insert t key tr to now))"
proof (cases "map_of (nt_entries t) (binding_key key)")
  case None
  have "map_of (nt_translated t) (nk_network key, tr) \<noteq> Some (binding_key key)"
    using nat_invD(5) [OF assms] None by fastforce
  with None show ?thesis
    using assms nat_inv_allocate [OF assms None, of to tr now]
    by (auto simp: nat_insert_def Let_def split: option.splits)
next
  case (Some b)
  obtain ds new where ds: "set_insert (nk_destination key) (nb_destinations b) = (ds, new)"
    by fastforce
  note ok = set_insert_ok [OF _ ds]
  have "nat_inv ((put_binding t (binding_key key)
      (b\<lparr>nb_entry := (nb_entry b)\<lparr>ne_last_seen := now\<rparr>, nb_destinations := ds\<rparr>))
      \<lparr>nt_active_destinations := nt_active_destinations t + of_bool new\<rparr>)"
    using nat_invD(3) [OF assms Some] ok by (intro nat_inv_put_same [OF assms Some]) auto
  with Some assms ds show ?thesis
    by (simp add: nat_insert_def Let_def put_binding_def)
qed

lemma nat_touch_inv:
  assumes "nat_inv t"
  shows "nat_inv (fst (nat_touch t key now1 now2))"
proof (cases "map_of (nt_entries t) (binding_key key)")
  case None
  with assms show ?thesis by (simp add: nat_touch_def)
next
  case (Some b)
  obtain ds new where ds: "set_insert (nk_destination key) (nb_destinations b) = (ds, new)"
    by fastforce
  note ok = set_insert_ok [OF _ ds]
  have "nat_inv ((put_binding t (binding_key key)
      (b\<lparr>nb_entry := (nb_entry b)\<lparr>ne_last_seen := now2\<rparr>, nb_destinations := ds\<rparr>))
      \<lparr>nt_active_destinations := nt_active_destinations t + of_bool new\<rparr>)"
    using nat_invD(3) [OF assms Some] ok by (intro nat_inv_put_same [OF assms Some]) auto
  with Some assms ds nat_inv_remove_binding [OF assms] show ?thesis
    by (simp add: nat_touch_def Let_def put_binding_def)
qed

lemma bind_translated_inv:
  assumes "nat_inv t"
  shows "nat_inv (fst (bind_translated t net src tr now))"
proof (cases "map_of (nt_entries t) (net, src)")
  case None
  with assms show ?thesis by (simp add: bind_translated_def)
next
  case (Some b)
  have own: "map_of (nt_translated t) (net, tr) = Some (net, src) \<Longrightarrow> ne_translated (nb_entry b) = tr"
    using nat_invD(5) [OF assms] Some by fastforce
  have rebind: "nat_inv (put_binding (t\<lparr>nt_translated := AList.update (net, tr) (net, src)
      (AList.delete (net, ne_translated (nb_entry b)) (nt_translated t)), nt_metrics := m\<rparr>) (net, src)
      (b\<lparr>nb_entry := (nb_entry b)\<lparr>ne_translated := tr, ne_last_seen := now\<rparr>\<rparr>))"
    if "map_of (nt_translated t) (net, tr) = None" for m
    using nat_inv_rebind [OF assms Some, of tr "(nb_entry b)\<lparr>ne_translated := tr, ne_last_seen := now\<rparr>" m] that
    by simp
  show ?thesis
    using Some assms own rebind nat_inv_remove_binding [OF assms]
      nat_inv_put_entry [OF assms Some, of "(nb_entry b)\<lparr>ne_last_seen := now\<rparr>"]
    by (auto simp: bind_translated_def Let_def split: option.splits)
qed

text \<open>Removing the last destination of a binding removes the binding.\<close>

lemma nat_remove_last:
  assumes "nat_inv t" "map_of (nt_entries t) (binding_key key) = Some b"
    and "remove1 (nk_destination key) (nb_destinations b) = []"
  shows "\<exists>m. fst (nat_remove t key) = (fst (remove_binding t (binding_key key)))\<lparr>nt_metrics := m\<rparr>"
proof -
  have "nb_destinations b = [nk_destination key]"
    using assms(3) nat_invD(3) [OF assms(1,2)]
    by (cases "nb_destinations b") (auto split: if_splits)
  then show ?thesis
    using assms(2)
    by (intro exI) (simp add: nat_remove_def remove_binding_def put_binding_def Let_def delete_update_same)
qed

lemma nat_remove_inv:
  assumes "nat_inv t"
  shows "nat_inv (fst (nat_remove t key))"
proof (cases "map_of (nt_entries t) (binding_key key)")
  case None
  with assms show ?thesis by (simp add: nat_remove_def)
next
  case (Some b)
  let ?ds = "remove1 (nk_destination key) (nb_destinations b)"
  let ?rm = "nk_destination key \<in> set (nb_destinations b)"
  show ?thesis
  proof (cases "?ds = []")
    case True
    with nat_remove_last [OF assms Some] nat_inv_remove_binding [OF assms, of "binding_key key"]
    show ?thesis by auto
  next
    case False
    have d: "distinct (nb_destinations b)"
      using nat_invD(3) [OF assms Some] by simp
    have len: "int (length ?ds) = int (length (nb_destinations b)) - of_bool ?rm"
      using length_pos_if_in_set [of "nk_destination key" "nb_destinations b"]
      by (auto simp: length_remove1 of_nat_diff Suc_leI)
    have "nat_inv ((put_binding t (binding_key key) (b\<lparr>nb_destinations := ?ds\<rparr>))
        \<lparr>nt_active_destinations := nt_active_destinations t - of_bool ?rm\<rparr>)"
      using False d len by (intro nat_inv_put_same [OF assms Some]) auto
    with Some False show ?thesis
      by (simp add: nat_remove_def Let_def put_binding_def)
  qed
qed

lemma remove_source_inv: "nat_inv t \<Longrightarrow> nat_inv (fst (remove_source t net src))"
  using nat_inv_remove_binding [of t "(net, src)"]
  by (auto simp: remove_source_def split: prod.splits option.splits)

lemma foldl_remove_binding_inv:
  "nat_inv t \<Longrightarrow> nat_inv (foldl (\<lambda>s kb. fst (remove_binding s (fst kb))) t kbs)"
  by (induction kbs arbitrary: t) (auto intro: nat_inv_remove_binding)

lemma sweep_keys_inv: "nat_inv t \<Longrightarrow> nat_inv (fst (sweep_keys t now))"
  by (simp add: sweep_keys_def Let_def foldl_remove_binding_inv)

lemma nat_sweep_fst: "fst (nat_sweep t now) = fst (sweep_keys t now)"
  by (simp add: nat_sweep_def sweep_keys_def Let_def)

lemma lookup_translated_inv:
  assumes "nat_inv t"
  shows "nat_inv (fst (lookup_translated t net tr ext now1 now2))"
proof (cases "map_of (nt_translated t) (net, tr)")
  case None
  with assms show ?thesis by (simp add: lookup_translated_def Let_def)
next
  case (Some bk)
  then obtain b where b: "map_of (nt_entries t) bk = Some b"
    using nat_invD(5) [OF assms] by blast
  have "nat_inv (put_binding t bk (b\<lparr>nb_entry := (nb_entry b)\<lparr>ne_last_seen := now2\<rparr>\<rparr>))"
    by (rule nat_inv_put_entry [OF assms b]) simp_all
  then have "nat_inv (put_binding (t\<lparr>nt_metrics := m\<rparr>) bk (b\<lparr>nb_entry := (nb_entry b)\<lparr>ne_last_seen := now2\<rparr>\<rparr>))" for m
    by (simp add: put_binding_metrics)
  moreover have "nat_inv (fst (remove_binding (t\<lparr>nt_metrics := m\<rparr>) bk))" for m
    using assms by (intro nat_inv_remove_binding) simp
  ultimately show ?thesis
    using Some b by (auto simp: lookup_translated_def Let_def split: list.splits)
qed

lemma lookup_source_inv:
  "nat_inv t \<Longrightarrow> nat_inv (fst (lookup_source t net src now))"
  using nat_inv_remove_binding [of t] by (auto simp: lookup_source_def Let_def split: option.splits)

subsection \<open>Runs of the table\<close>

text \<open>One step of the table: some client calls one operation, at any time and with any arguments.\<close>

inductive nat_step :: "nat_table \<Rightarrow> nat_table \<Rightarrow> bool" where
  step_insert: "nat_insert t key tr to now = (t1, r) \<Longrightarrow> nat_step t t1"
| step_touch: "nat_touch t key now1 now2 = (t1, r') \<Longrightarrow> nat_step t t1"
| step_bind: "bind_translated t net src tr now = (t1, r'') \<Longrightarrow> nat_step t t1"
| step_remove: "nat_remove t key = (t1, r') \<Longrightarrow> nat_step t t1"
| step_remove_source: "remove_source t net src = (t1, n) \<Longrightarrow> nat_step t t1"
| step_sweep: "sweep_keys t now = (t1, ks) \<Longrightarrow> nat_step t t1"
| step_lookup_translated: "lookup_translated t net tr ext now1 now2 = (t1, rk) \<Longrightarrow> nat_step t t1"
| step_lookup_source: "lookup_source t net src now = (t1, r') \<Longrightarrow> nat_step t t1"

inductive_cases nat_stepE: "nat_step t t1"

lemmas nat_op_invs =
  nat_insert_inv nat_touch_inv bind_translated_inv nat_remove_inv remove_source_inv
  sweep_keys_inv lookup_translated_inv lookup_source_inv

lemma nat_step_inv: "nat_step t t1 \<Longrightarrow> nat_inv t \<Longrightarrow> nat_inv t1"
  by (induction rule: nat_step.induct) (metis nat_op_invs fst_conv)+

lemma nat_reachable_inv: "nat_step\<^sup>*\<^sup>* nat_table_new t \<Longrightarrow> nat_inv t"
  by (induction rule: rtranclp_induct) (auto intro: nat_inv_new nat_step_inv)

text \<open>The two indexes have the same size.\<close>

lemma nat_inv_same_size:
  assumes "nat_inv t"
  shows "length (nt_entries t) = length (nt_translated t)"
proof -
  note inv = nat_invD [OF assms]
  let ?f = "\<lambda>bk. (fst bk, ne_translated (nb_entry (the (map_of (nt_entries t) bk))))"
  have dom: "dom (map_of (nt_translated t)) = ?f ` dom (map_of (nt_entries t))"
    using inv(4) inv(5) by (force simp: dom_def image_iff)
  have "inj_on ?f (dom (map_of (nt_entries t)))"
    using inv(4) by (intro inj_onI) (auto, (metis option.inject prod.inject)+)
  with dom have "card (dom (map_of (nt_translated t))) = card (dom (map_of (nt_entries t)))"
    by (simp add: card_image)
  then show ?thesis
    using inv(1,2) by (simp add: dom_map_of_conv_image_fst card_image distinct_map)
      (metis distinct_card distinct_map length_map set_map inv(1,2))
qed

subsection \<open>The abstract table: who owns which endpoint\<close>

definition nat_view :: "nat_table \<Rightarrow> nat_binding_key \<Rightarrow> socket_addr option" where
  "nat_view t bk = map_option (\<lambda>b. ne_translated (nb_entry b)) (map_of (nt_entries t) bk)"

definition idle_timeout_of :: "nat_table \<Rightarrow> nat_binding_key \<Rightarrow> nat" where
  "idle_timeout_of t bk = (case map_of (nt_entries t) bk of None \<Rightarrow> 0 | Some b \<Rightarrow> ne_idle_timeout (nb_entry b))"

lemma nat_owner_view:
  "nat_inv t \<Longrightarrow> map_of (nt_translated t) (net, tr) = Some bk \<longleftrightarrow> fst bk = net \<and> nat_view t bk = Some tr"
  using nat_invD(4,5) [of t] by (fastforce simp: nat_view_def)

lemma nat_view_metrics [simp]: "nat_view (t\<lparr>nt_metrics := m\<rparr>) = nat_view t"
  by (simp add: nat_view_def fun_eq_iff)

lemma nat_view_put [simp]:
  "nat_view (put_binding t bk b) = (nat_view t)(bk \<mapsto> ne_translated (nb_entry b))"
  by (auto simp: nat_view_def put_binding_def)

lemma nat_view_upd [simp]:
  "nat_view (t\<lparr>nt_active_destinations := n\<rparr>) = nat_view t"
  "nat_view (t\<lparr>nt_translated := ts\<rparr>) = nat_view t"
  by (auto simp: nat_view_def)

lemma nat_view_remove_binding [simp]:
  "nat_view (fst (remove_binding t bk)) = (nat_view t)(bk := None)"
  by (auto simp: remove_binding_def nat_view_def split: option.splits)

lemma nat_insert_ok_iff:
  assumes "nat_inv t"
  shows "snd (nat_insert t key tr to now) = Inr () \<longleftrightarrow>
      to \<noteq> 0 \<and> (nat_view t (binding_key key) = Some tr \<or>
        nat_view t (binding_key key) = None
        \<and> (\<forall>bk. fst bk = nk_network key \<longrightarrow> nat_view t bk \<noteq> Some tr))"
proof (cases "map_of (nt_entries t) (binding_key key)")
  case None
  have "(\<forall>bk. fst bk = nk_network key \<longrightarrow> nat_view t bk \<noteq> Some tr) \<longleftrightarrow>
      map_of (nt_translated t) (nk_network key, tr) = None"
    using nat_owner_view [OF assms, of "nk_network key" tr]
    by (metis not_None_eq)
  moreover have "map_of (nt_translated t) (nk_network key, tr) \<noteq> Some (binding_key key)"
    using nat_invD(5) [OF assms] None by fastforce
  ultimately show ?thesis
    using None by (auto simp: nat_insert_def Let_def nat_view_def split: option.splits)
next
  case (Some b)
  then show ?thesis
    by (auto simp: nat_insert_def Let_def nat_view_def split: prod.splits)
qed

lemma nat_insert_view:
  "nat_view (fst (nat_insert t key tr to now)) =
     (if snd (nat_insert t key tr to now) = Inr () then (nat_view t)(binding_key key \<mapsto> tr) else nat_view t)"
  by (auto simp: nat_insert_def nat_allocate_def Let_def split: option.splits prod.splits)

lemma lookup_translated_hit:
  assumes "nat_inv t" "map_of (nt_entries t) bk = Some b" "\<not> is_expired (nb_entry b) now1"
  shows "\<exists>k. snd (lookup_translated t (fst bk) (ne_translated (nb_entry b)) ext now1 now2) = Inr (Some k)
     \<and> binding_key k = bk \<and> nk_destination k \<in> set (nb_destinations b)"
proof -
  obtain d ds where "nb_destinations b = d # ds"
    using nat_invD(3) [OF assms(1,2)] by (cases "nb_destinations b") auto
  then show ?thesis
    using assms nat_invD(4) [OF assms(1,2)]
    by (auto simp: lookup_translated_def Let_def flow_keys_def binding_key_def)
qed

lemma lookup_translated_miss:
  assumes "nat_inv t" "\<And>src. nat_view t (net, src) \<noteq> Some tr"
  shows "snd (lookup_translated t net tr ext now1 now2) = Inr None"
proof -
  have "map_of (nt_translated t) (net, tr) = None"
    using nat_owner_view [OF assms(1), of net tr] assms(2) by (metis not_None_eq prod.collapse)
  then show ?thesis
    by (simp add: lookup_translated_def Let_def)
qed

lemma nat_insert_entry:
  assumes "nat_insert t key tr to now = (t1, Inr ())"
  shows "\<exists>b. map_of (nt_entries t1) (binding_key key) = Some b \<and> ne_translated (nb_entry b) = tr
     \<and> ne_last_seen (nb_entry b) = now \<and> nk_destination key \<in> set (nb_destinations b)
     \<and> ne_idle_timeout (nb_entry b) =
         (case map_of (nt_entries t) (binding_key key) of None \<Rightarrow> to | Some b0 \<Rightarrow> ne_idle_timeout (nb_entry b0))"
  using assms
  by (auto simp: nat_insert_def nat_allocate_def put_binding_def Let_def set_insert_def
      split: if_splits option.splits prod.splits)

lemma foldl_remove_binding_entries:
  "map_of (nt_entries (foldl (\<lambda>s kb. fst (remove_binding s (fst kb))) t kbs)) bk =
     (if bk \<in> fst ` set kbs then None else map_of (nt_entries t) bk)"
  by (induction kbs arbitrary: t) (auto simp: remove_binding_def split: option.splits)

lemma sweep_keys_entries:
  assumes "nat_inv t"
  shows "map_of (nt_entries (fst (sweep_keys t now))) bk =
     (case map_of (nt_entries t) bk of
        None \<Rightarrow> None | Some b \<Rightarrow> if is_expired (nb_entry b) now then None else Some b)"
proof -
  let ?ex = "filter (\<lambda>kb. is_expired (nb_entry (snd kb)) now) (nt_entries t)"
  have "bk \<in> fst ` set ?ex \<longleftrightarrow>
      (\<exists>b. map_of (nt_entries t) bk = Some b \<and> is_expired (nb_entry b) now)"
    unfolding map_of_eq_Some_iff [OF nat_invD(1) [OF assms]] by force
  then show ?thesis
    by (auto simp: sweep_keys_def Let_def foldl_remove_binding_entries split: option.splits)
qed

lemma sweep_keys_flows:
  assumes "nat_inv t" "snd (sweep_keys t now) = Inr ks"
  shows "k \<in> set ks \<longleftrightarrow>
     (\<exists>b. map_of (nt_entries t) (binding_key k) = Some b \<and> is_expired (nb_entry b) now
        \<and> nk_destination k \<in> set (nb_destinations b))"
proof -
  have "ks = concat (map flow_keys (filter (\<lambda>kb. is_expired (nb_entry (snd kb)) now) (nt_entries t)))"
    using assms(2) by (simp add: sweep_keys_def Let_def)
  moreover have "((net, src), b) \<in> set (nt_entries t) \<longleftrightarrow> map_of (nt_entries t) (net, src) = Some b" for net src b
    using nat_invD(1) [OF assms(1)] by simp
  ultimately show ?thesis
    by (cases k) (fastforce simp: flow_keys_def binding_key_def)
qed

lemma bind_translated_view:
  "nat_view (fst (bind_translated t net src tr now)) =
     (case snd (bind_translated t net src tr now) of
        Inr e \<Rightarrow> (nat_view t)((net, src) \<mapsto> tr)
      | Inl e \<Rightarrow> if err_kind e = Closed then (nat_view t)((net, src) := None) else nat_view t)"
  by (auto simp: bind_translated_def Let_def error_new_def error_invalid_def
      split: option.splits)

lemma nat_remove_view:
  assumes "nat_inv t"
  shows "map_of (nt_entries (fst (nat_remove t key))) =
     (case map_of (nt_entries t) (binding_key key) of
        None \<Rightarrow> map_of (nt_entries t)
      | Some b \<Rightarrow>
          (map_of (nt_entries t))(binding_key key :=
             (if set (nb_destinations b) \<subseteq> {nk_destination key} then None
              else Some (b\<lparr>nb_destinations := remove1 (nk_destination key) (nb_destinations b)\<rparr>))))"
proof (cases "map_of (nt_entries t) (binding_key key)")
  case None
  then show ?thesis by (simp add: nat_remove_def)
next
  case (Some b)
  have "remove1 (nk_destination key) (nb_destinations b) = [] \<longleftrightarrow> set (nb_destinations b) \<subseteq> {nk_destination key}"
    using nat_invD(3) [OF assms Some]
    by (cases "nb_destinations b" rule: remdups_adj.cases) auto
  with Some show ?thesis
    by (auto simp: nat_remove_def remove_binding_def put_binding_def Let_def split: option.splits)
qed

lemma nat_touch_view:
  "nat_view (fst (nat_touch t key now1 now2)) =
     (if snd (nat_touch t key now1 now2) = Inr None then (nat_view t)(binding_key key := None) else nat_view t)"
  by (auto simp: nat_touch_def Let_def nat_view_def put_binding_def remove_binding_def fun_eq_iff
      split: option.splits prod.splits)

lemma nat_touch_hit:
  "snd (nat_touch t key now1 now2) = Inr (Some e) \<Longrightarrow> nat_view t (binding_key key) = Some (ne_translated e)"
  by (auto simp: nat_touch_def Let_def nat_view_def split: option.splits prod.splits if_splits)

text \<open>What a successful \<open>send_to\<close> of the relay leaves behind.\<close>

lemma relay_send_to_ok:
  assumes "nat_inv t" "relay_send_to r t key (Inr la) sent now1 now2 now3 = (r1, t1, Inr n)"
  shows "nat_inv t1 \<and> nat_view t1 (binding_key key) = Some la
     \<and> (\<exists>m. ur_mapping r1 = Some m \<and> binding_key m = binding_key key \<and> nk_destination m = nk_destination key)"
proof -
  obtain t2 res where touch: "nat_touch t key now1 now2 = (t2, res)"
    by fastforce
  have inv2: "nat_inv t2"
    using nat_touch_inv [OF assms(1), of key now1 now2] touch by simp
  have map1: "\<exists>m. ur_mapping r1 = Some m \<and> binding_key m = binding_key key \<and> nk_destination m = nk_destination key"
    using assms(2) touch
    by (cases "ur_mapping r")
      (auto simp: relay_send_to_def Let_def binding_key_def split: if_splits sum.splits option.splits prod.splits)
  show ?thesis
  proof (cases "res = Inr None")
    case True
    obtain t3 r3 where ins: "nat_insert t2 key la (ur_idle_timeout r) now3 = (t3, r3)"
      by fastforce
    then have "r3 = Inr ()" "t1 = t3"
      using assms(2) touch True
      by (auto simp: relay_send_to_def Let_def split: if_splits sum.splits option.splits)
    then show ?thesis
      using map1 ins nat_insert_inv [OF inv2, of key la "ur_idle_timeout r" now3]
        nat_insert_view [of t2 key la "ur_idle_timeout r" now3]
      by simp
  next
    case False
    then obtain e where "res = Inr (Some e)" "t1 = t2" "ne_translated e = la"
      using assms(2) touch
      by (auto simp: relay_send_to_def Let_def split: if_splits sum.splits option.splits)
    then show ?thesis
      using map1 inv2 touch nat_touch_view [of t key now1 now2] nat_touch_hit [of t key now1 now2 e]
      by simp
  qed
qed

lemma remove_source_view:
  "nat_view (fst (remove_source t net src)) = (nat_view t)((net, src) := None)"
  by (auto simp: remove_source_def remove_binding_def nat_view_def split: option.splits)

subsection \<open>Properties\<close>

text \<open>
  C6: in every reachable table the forward index (source to binding) and the reverse index
  (translated endpoint to source) are inverse to each other and have the same size, every
  binding has a flow, and the gauge of active destinations is the number of flows, so that it
  never underflows.
\<close>

theorem nat_indexes_agree:
  assumes "nat_step\<^sup>*\<^sup>* nat_table_new t"
  shows "(\<forall>net tr bk. map_of (nt_translated t) (net, tr) = Some bk \<longleftrightarrow> fst bk = net \<and> nat_view t bk = Some tr)
     \<and> ns_active_bindings (nat_table_stats t) = ns_reverse_mappings (nat_table_stats t)
     \<and> (\<forall>bk b. map_of (nt_entries t) bk = Some b \<longrightarrow> nb_destinations b \<noteq> [])
     \<and> ns_active_destinations (nat_table_stats t) =
         alist_sum (\<lambda>b. int (length (nb_destinations b))) (nt_entries t)
     \<and> 0 \<le> ns_active_destinations (nat_table_stats t)"
proof -
  have inv: "nat_inv t"
    by (rule nat_reachable_inv [OF assms])
  show ?thesis
    using nat_owner_view [OF inv] nat_inv_same_size [OF inv] nat_invD(3,6) [OF inv]
    by (simp add: nat_table_stats_def alist_sum_nonneg)
qed

theorem nat_indexes_agree_witness:
  defines "a \<equiv> SockV4 0x0A000001 5000" and "x \<equiv> SockV4 0xC0000201 40000" and "d \<equiv> SockV4 0x08080808 53"
  defines "t \<equiv> fst (nat_insert nat_table_new \<lparr>nk_network = Udp, nk_source = a, nk_destination = d\<rparr> x 30 7)"
  shows "ns_active_bindings (nat_table_stats t) = ns_reverse_mappings (nat_table_stats t)
     \<and> nat_view t (Udp, a) = Some x"
proof -
  have "nat_step nat_table_new t"
    unfolding t_def by (rule nat_step.step_insert) (rule prod.collapse [symmetric])
  then have "nat_step\<^sup>*\<^sup>* nat_table_new t"
    by (rule r_into_rtranclp)
  from nat_indexes_agree [OF this] show ?thesis
    by (simp add: t_def nat_view_def nat_insert_def nat_allocate_def put_binding_def
        nat_table_new_def binding_key_def Let_def)
qed



text \<open>
  Full cone. After a successful insertion, and as long as the binding's idle timeout has
  not elapsed, a packet from any external address to the translated endpoint is resolved to
  the source that inserted it.
\<close>

lemma nat_full_cone:
  assumes "nat_inv t" "nat_insert t key tr to now = (t1, Inr ())"
    and "now1 - now < idle_timeout_of t1 (binding_key key)"
  shows "\<exists>k. snd (lookup_translated t1 (nk_network key) tr ext now1 now2) = Inr (Some k)
     \<and> nk_network k = nk_network key \<and> nk_source k = nk_source key"
proof -
  obtain b where b: "map_of (nt_entries t1) (binding_key key) = Some b"
    "ne_translated (nb_entry b) = tr" "ne_last_seen (nb_entry b) = now"
    using nat_insert_entry [OF assms(2)] by blast
  have "nat_inv t1"
    using nat_insert_inv [OF assms(1), of key tr to now] assms(2) by simp
  moreover have "\<not> is_expired (nb_entry b) now1"
    using assms(3) b by (simp add: is_expired_def idle_timeout_of_def)
  ultimately show ?thesis
    using lookup_translated_hit [of t1 "binding_key key" b now1 ext now2] b
    by (auto simp: binding_key_def)
qed

lemma nat_full_cone_example:
  "\<exists>t1 k. nat_insert nat_table_new \<lparr>nk_network = Udp, nk_source = SockV4 1 1, nk_destination = SockV4 2 2\<rparr>
        (SockV4 3 3) 30 5 = (t1, Inr ())
     \<and> snd (lookup_translated t1 Udp (SockV4 3 3) (SockV4 9 9) 34 34) = Inr (Some k)
     \<and> nk_source k = SockV4 1 1"
proof -
  let ?k = "\<lparr>nk_network = Udp, nk_source = SockV4 1 1, nk_destination = SockV4 2 2\<rparr>"
  let ?t = "nat_allocate nat_table_new ?k (SockV4 3 3) 30 5"
  have ins: "nat_insert nat_table_new ?k (SockV4 3 3) 30 5 = (?t, Inr ())"
    by (simp add: nat_insert_def nat_table_new_def)
  moreover have "34 - 5 < idle_timeout_of ?t (binding_key ?k)"
    by (simp add: idle_timeout_of_def nat_allocate_def put_binding_def nat_table_new_def Let_def)
  ultimately show ?thesis
    using nat_full_cone [OF nat_inv_new ins, of 34 "SockV4 9 9" 34] by auto
qed

text \<open>
  C37: a sweep removes exactly the expired bindings, leaves the others as they are, and reports
  exactly the flows of the removed bindings.
\<close>

theorem nat_sweep_exact:
  assumes "nat_inv t"
  shows "\<exists>t1 ks. sweep_keys t now = (t1, Inr ks) \<and> nat_inv t1
     \<and> (\<forall>bk. map_of (nt_entries t1) bk =
          (case map_of (nt_entries t) bk of
             None \<Rightarrow> None | Some b \<Rightarrow> if is_expired (nb_entry b) now then None else Some b))
     \<and> (\<forall>k. k \<in> set ks \<longleftrightarrow>
          (\<exists>b. map_of (nt_entries t) (binding_key k) = Some b \<and> is_expired (nb_entry b) now
             \<and> nk_destination k \<in> set (nb_destinations b)))"
proof -
  obtain t1 ks where s: "sweep_keys t now = (t1, Inr ks)"
    by (simp add: sweep_keys_def Let_def)
  then show ?thesis
    using sweep_keys_entries [OF assms, of now] sweep_keys_flows [OF assms, of now ks]
      sweep_keys_inv [OF assms, of now]
    by simp
qed

theorem nat_sweep_exact_witness:
  "\<exists>t1 ks. sweep_keys (nat_allocate nat_table_new
        \<lparr>nk_network = Udp, nk_source = SockV4 1 1, nk_destination = SockV4 2 2\<rparr> (SockV4 3 3) 30 5) 35 = (t1, Inr ks)
     \<and> map_of (nt_entries t1) (Udp, SockV4 1 1) = None
     \<and> \<lparr>nk_network = Udp, nk_source = SockV4 1 1, nk_destination = SockV4 2 2\<rparr> \<in> set ks"
proof -
  let ?k = "\<lparr>nk_network = Udp, nk_source = SockV4 1 1, nk_destination = SockV4 2 2\<rparr>"
  let ?t = "nat_allocate nat_table_new ?k (SockV4 3 3) 30 5"
  have "nat_inv ?t"
    by (rule nat_inv_allocate [OF nat_inv_new]) (simp_all add: nat_table_new_def)
  from nat_sweep_exact [OF this, of 35] show ?thesis
    by (auto simp: nat_allocate_def put_binding_def nat_table_new_def binding_key_def is_expired_def Let_def)
qed

text \<open>
  When \<open>bind_translated\<close> succeeds, the source owns the new endpoint and packets to the
  endpoint it had before are no longer resolved.
\<close>

lemma nat_rebind_moves_endpoint:
  assumes "nat_inv t" "bind_translated t net src tr now = (t1, Inr e)"
    and "nat_view t (net, src) = Some old" "old \<noteq> tr"
  shows "nat_inv t1 \<and> nat_view t1 = (nat_view t)((net, src) \<mapsto> tr) \<and> ne_translated e = tr
     \<and> snd (lookup_translated t1 net old ext now1 now2) = Inr None"
proof -
  have inv1: "nat_inv t1"
    using bind_translated_inv [OF assms(1), of net src tr now] assms(2) by simp
  have view: "nat_view t1 = (nat_view t)((net, src) \<mapsto> tr)"
    using bind_translated_view [of t net src tr now] assms(2) by simp
  have "nat_view t1 (net, s) \<noteq> Some old" for s
    using nat_owner_view [OF assms(1), of net old "(net, s)"]
      nat_owner_view [OF assms(1), of net old "(net, src)"] assms(3,4) view
    by auto
  moreover have "ne_translated e = tr"
    using assms(2) by (auto simp: bind_translated_def Let_def split: option.splits if_splits)
  ultimately show ?thesis
    using inv1 view lookup_translated_miss [OF inv1] by blast
qed

lemma nat_rebind_moves_endpoint_example:
  "\<exists>t t1 e. nat_view t (Udp, SockV4 1 1) = Some (SockV4 3 3)
     \<and> bind_translated t Udp (SockV4 1 1) (SockV4 4 4) 6 = (t1, Inr e)
     \<and> nat_view t1 (Udp, SockV4 1 1) = Some (SockV4 4 4)
     \<and> snd (lookup_translated t1 Udp (SockV4 3 3) (SockV4 9 9) 7 7) = Inr None"
proof -
  let ?k = "\<lparr>nk_network = Udp, nk_source = SockV4 1 1, nk_destination = SockV4 2 2\<rparr>"
  let ?t = "nat_allocate nat_table_new ?k (SockV4 3 3) 30 5"
  let ?r = "bind_translated ?t Udp (SockV4 1 1) (SockV4 4 4) 6"
  have inv: "nat_inv ?t"
    by (rule nat_inv_allocate [OF nat_inv_new]) (simp_all add: nat_table_new_def)
  have view: "nat_view ?t (Udp, SockV4 1 1) = Some (SockV4 3 3)"
    by (simp add: nat_view_def nat_allocate_def put_binding_def nat_table_new_def binding_key_def Let_def)
  obtain t1 e where bind: "?r = (t1, Inr e)"
    by (simp add: bind_translated_def nat_allocate_def put_binding_def nat_table_new_def
        binding_key_def is_expired_def Let_def)
  have "SockV4 3 3 \<noteq> SockV4 4 4"
    by simp
  from nat_rebind_moves_endpoint [OF inv bind view this, of "SockV4 9 9" 7 7] bind view show ?thesis
    by fastforce
qed

text \<open>
  After a successful send the relay's source owns the relay's own address in the table,
  and closing (or dropping) the relay releases exactly that source's binding.
\<close>

lemma relay_close_releases:
  assumes "nat_inv t" "relay_send_to r t key (Inr la) sent now1 now2 now3 = (r1, t1, Inr n)"
  shows "nat_view t1 (nk_network key, nk_source key) = Some la
     \<and> (\<exists>r2 t2 c. relay_close r1 t1 = (r2, t2, Inr c) \<and> ur_mapping r2 = None \<and> nat_inv t2 \<and> 0 < c
          \<and> nat_view t2 = (nat_view t1)((nk_network key, nk_source key) := None))
     \<and> nat_view (relay_drop r1 t1) = (nat_view t1)((nk_network key, nk_source key) := None)"
proof -
  obtain m where m: "ur_mapping r1 = Some m" "binding_key m = (nk_network key, nk_source key)"
    and inv1: "nat_inv t1" and view: "nat_view t1 (nk_network key, nk_source key) = Some la"
    using relay_send_to_ok [OF assms] by (auto simp: binding_key_def)
  let ?rs = "remove_source t1 (nk_network m) (nk_source m)"
  have key: "(nk_network m, nk_source m) = (nk_network key, nk_source key)"
    using m(2) by (simp add: binding_key_def)
  obtain b where b: "map_of (nt_entries t1) (nk_network m, nk_source m) = Some b"
    using view key by (auto simp: nat_view_def)
  then obtain t2 where "?rs = (t2, Inr (length (nb_destinations b)))" "0 < length (nb_destinations b)"
    using nat_invD(3) [OF inv1 b] by (simp add: remove_source_def remove_binding_def)
  then show ?thesis
    using m(1) view key remove_source_view [of t1 "nk_network m" "nk_source m"]
      remove_source_inv [OF inv1, of "nk_network m" "nk_source m"]
    by (simp add: relay_close_def relay_drop_def)
qed

lemma relay_close_releases_example:
  "\<exists>r1 t1 r2 t2 c. relay_send_to \<lparr>ur_mapping = None, ur_idle_timeout = 30\<rparr> nat_table_new
        \<lparr>nk_network = Udp, nk_source = SockV4 1 1, nk_destination = SockV4 2 2\<rparr>
        (Inr (SockV4 3 3)) (Inr 10) 1 1 1 = (r1, t1, Inr 10)
     \<and> relay_close r1 t1 = (r2, t2, Inr c) \<and> 0 < c \<and> nat_view t2 (Udp, SockV4 1 1) = None"
proof -
  let ?k = "\<lparr>nk_network = Udp, nk_source = SockV4 1 1, nk_destination = SockV4 2 2\<rparr>"
  let ?send = "relay_send_to \<lparr>ur_mapping = None, ur_idle_timeout = 30\<rparr> nat_table_new ?k
      (Inr (SockV4 3 3)) (Inr 10) 1 1 1"
  obtain r1 t1 where send: "?send = (r1, t1, Inr 10)"
    by (simp add: relay_send_to_def nat_touch_def nat_insert_def nat_table_new_def Let_def)
  from relay_close_releases [OF nat_inv_new send] send show ?thesis
    by fastforce
qed

end
