(* ===== verification/Fakeip_Config.thy ===== *)
theory Fakeip_Config
  imports Types
begin

text \<open>
  The FakeIP contracts shared by the DNS layer and the pools (\<open>dns/src/fakeip.rs\<close>): address
  ranges, lifecycle options, the domain policy, the reverse view of the packet plane and the
  parser of reverse-lookup names.
\<close>

subsection \<open>Ranges and options\<close>

text \<open>\<open>FakeIpConfig\<close> for \<open>u32\<close> addresses and \<open>FakeIpV6Config\<close> for \<open>u128\<close> addresses.\<close>

record 'a fakeip_config =
  fr_start :: 'a
  fr_end :: 'a

definition fakeip_config_new :: "u32 \<Rightarrow> u32 \<Rightarrow> u32 fakeip_config result" where
  "fakeip_config_new start end' =
     (if start > end' then Inl (error_new InvalidInput ''FakeIP start must not be greater than end'')
      else Inr \<lparr>fr_start = start, fr_end = end'\<rparr>)"

text \<open>The subtraction of two \<open>u32\<close> wraps, the addition in \<open>u64\<close> does not.\<close>

definition fakeip_config_size :: "u32 fakeip_config \<Rightarrow> nat" where
  "fakeip_config_size c = unat (fr_end c - fr_start c) + 1"

definition fakeip_range_prefix :: "u32 fakeip_config \<Rightarrow> string" where
  "fakeip_range_prefix c = ''range:'' @ show_ipv4 (fr_start c) @ ''-'' @ show_ipv4 (fr_end c)"

definition fakeip_v6_config_new :: "u128 \<Rightarrow> u128 \<Rightarrow> u128 fakeip_config result" where
  "fakeip_v6_config_new start end' =
     (if start > end' then Inl (error_new InvalidInput ''FakeIP IPv6 start must not be greater than end'')
      else Inr \<lparr>fr_start = start, fr_end = end'\<rparr>)"

text \<open>\<open>checked_sub\<close> and \<open>checked_add\<close> in \<open>u128\<close>.\<close>

definition fakeip_v6_config_size :: "u128 fakeip_config \<Rightarrow> nat result" where
  "fakeip_v6_config_size c =
     (if fr_start c \<le> fr_end c \<and> unat (fr_end c) - unat (fr_start c) + 1 < 2 ^ 128
      then Inr (unat (fr_end c) - unat (fr_start c) + 1)
      else Inl (error_invalid ''FakeIP IPv6 pool is too large''))"

definition fakeip_v6_range_prefix :: "u128 fakeip_config \<Rightarrow> string" where
  "fakeip_v6_range_prefix c = ''range:'' @ show_ipv6 (fr_start c) @ ''-'' @ show_ipv6 (fr_end c)"

record fakeip_options =
  fo_max_entries :: nat
  fo_ttl_seconds :: int
  fo_touch_interval_seconds :: int

definition DEFAULT_TTL_SECONDS :: int where "DEFAULT_TTL_SECONDS = 24 * 60 * 60"
definition DEFAULT_TOUCH_INTERVAL_SECONDS :: int where "DEFAULT_TOUCH_INTERVAL_SECONDS = 5 * 60"

definition options_for_config :: "u32 fakeip_config \<Rightarrow> fakeip_options" where
  "options_for_config c =
     \<lparr>fo_max_entries = fakeip_config_size c, fo_ttl_seconds = DEFAULT_TTL_SECONDS,
      fo_touch_interval_seconds = DEFAULT_TOUCH_INTERVAL_SECONDS\<rparr>"

definition options_for_v6_config :: "u128 fakeip_config \<Rightarrow> fakeip_options" where
  "options_for_v6_config c =
     \<lparr>fo_max_entries = min (case fakeip_v6_config_size c of Inl _ \<Rightarrow> 2 ^ 64 - 1 | Inr n \<Rightarrow> n) (2 ^ 64 - 1),
      fo_ttl_seconds = DEFAULT_TTL_SECONDS,
      fo_touch_interval_seconds = DEFAULT_TOUCH_INTERVAL_SECONDS\<rparr>"

definition fakeip_options_new :: "nat \<Rightarrow> int \<Rightarrow> fakeip_options result" where
  "fakeip_options_new max_entries ttl_seconds =
     (if max_entries = 0 \<or> ttl_seconds \<le> 0
      then Inl (error_invalid ''FakeIP max_entries and ttl_seconds must be positive'')
      else Inr \<lparr>fo_max_entries = max_entries, fo_ttl_seconds = ttl_seconds,
                fo_touch_interval_seconds = DEFAULT_TOUCH_INTERVAL_SECONDS\<rparr>)"

definition with_touch_interval :: "fakeip_options \<Rightarrow> int \<Rightarrow> fakeip_options result" where
  "with_touch_interval opts seconds =
     (if seconds \<le> 0 then Inl (error_invalid ''FakeIP touch_interval_seconds must be positive'')
      else Inr (opts\<lparr>fo_touch_interval_seconds := seconds\<rparr>))"

subsection \<open>Domain policy\<close>

record domain_matcher =
  dm_suffixes :: "string list"
  dm_wildcards :: "string list"

text \<open>
  The loop of \<open>from_patterns\<close>. The error message quotes the pattern in Rust's debug format,
  which is the argument \<open>dbg\<close>.
\<close>

fun matcher_from_patterns ::
  "(string \<Rightarrow> string) \<Rightarrow> string \<Rightarrow> domain_matcher \<Rightarrow> string list \<Rightarrow> domain_matcher result" where
  "matcher_from_patterns dbg field m [] = Inr m"
| "matcher_from_patterns dbg field m (pattern # ps) =
     (let normalized = canonical_text pattern;
          (wildcard, suf) = (case strip_prefix ''*.'' normalized of
                               None \<Rightarrow> (False, normalized) | Some s \<Rightarrow> (True, s))
      in if suf = [] \<or> CHR ''*'' \<in> set suf \<or> \<not> is_ok (domain_name_new suf)
         then Inl (error_invalid (''invalid FakeIP '' @ field @ '' entry '' @ dbg pattern))
         else if wildcard then matcher_from_patterns dbg field (m\<lparr>dm_wildcards := List.insert suf (dm_wildcards m)\<rparr>) ps
         else matcher_from_patterns dbg field (m\<lparr>dm_suffixes := List.insert suf (dm_suffixes m)\<rparr>) ps)"

definition matcher_matches :: "domain_matcher \<Rightarrow> domain_name \<Rightarrow> bool" where
  "matcher_matches m domain =
     (list_ex (\<lambda>s. domain = s \<or> suffix (CHR ''.'' # s) domain) (dm_suffixes m)
      \<or> list_ex (\<lambda>s. case strip_suffix (CHR ''.'' # s) domain of
                       None \<Rightarrow> False
                     | Some p \<Rightarrow> p \<noteq> [] \<and> CHR ''.'' \<notin> set p) (dm_wildcards m))"

record fakeip_policy =
  fp_whitelist :: domain_matcher
  fp_skip_check :: domain_matcher

definition policy_from_lists :: "(string \<Rightarrow> string) \<Rightarrow> string list \<Rightarrow> string list \<Rightarrow> fakeip_policy result" where
  "policy_from_lists dbg whitelist skip_check =
     rbind (matcher_from_patterns dbg ''whitelist'' \<lparr>dm_suffixes = [], dm_wildcards = []\<rparr> whitelist) (\<lambda>w.
     rbind (matcher_from_patterns dbg ''skip-check'' \<lparr>dm_suffixes = [], dm_wildcards = []\<rparr> skip_check) (\<lambda>s.
       Inr \<lparr>fp_whitelist = w, fp_skip_check = s\<rparr>))"

definition is_whitelisted :: "fakeip_policy \<Rightarrow> domain_name \<Rightarrow> bool" where
  "is_whitelisted p domain = matcher_matches (fp_whitelist p) domain"

definition is_skip_check :: "fakeip_policy \<Rightarrow> domain_name \<Rightarrow> bool" where
  "is_skip_check p domain = matcher_matches (fp_skip_check p) domain"

subsection \<open>The reverse view\<close>

record fakeip_view =
  fv_reverse :: "(u32 \<times> domain_name) list"
  fv_reverse_v6 :: "(u128 \<times> domain_name) list"

definition view_from_maps :: "(u32 \<times> domain_name) list \<Rightarrow> (u128 \<times> domain_name) list \<Rightarrow> fakeip_view" where
  "view_from_maps reverse reverse_v6 = \<lparr>fv_reverse = reverse, fv_reverse_v6 = reverse_v6\<rparr>"

definition view_lookup_domain :: "fakeip_view \<Rightarrow> u32 \<Rightarrow> domain_name option" where
  "view_lookup_domain v address = map_of (fv_reverse v) address"

definition view_lookup_domain_v6 :: "fakeip_view \<Rightarrow> u128 \<Rightarrow> domain_name option" where
  "view_lookup_domain_v6 v address = map_of (fv_reverse_v6 v) address"

definition view_lookup_domain_ip :: "fakeip_view \<Rightarrow> ip_addr \<Rightarrow> domain_name option" where
  "view_lookup_domain_ip v address =
     (case address of V4 a \<Rightarrow> view_lookup_domain v a | V6 a \<Rightarrow> view_lookup_domain_v6 v a)"

text \<open>\<open>HashMap::extend\<close>: the entries of the second map replace those of the first.\<close>

definition view_merge :: "fakeip_view \<Rightarrow> fakeip_view \<Rightarrow> fakeip_view" where
  "view_merge v other =
     view_from_maps (fold (\<lambda>(a, d). AList.update a d) (fv_reverse other) (fv_reverse v))
       (fold (\<lambda>(a, d). AList.update a d) (fv_reverse_v6 other) (fv_reverse_v6 v))"

record fakeip_view_store =
  vs_view :: fakeip_view

definition view_store_new :: "fakeip_view \<Rightarrow> fakeip_view_store" where
  "view_store_new v = \<lparr>vs_view = v\<rparr>"

definition view_store_lookup :: "fakeip_view_store \<Rightarrow> ip_addr \<Rightarrow> domain_name option" where
  "view_store_lookup s address = view_lookup_domain_ip (vs_view s) address"

definition view_store_replace :: "fakeip_view_store \<Rightarrow> fakeip_view \<Rightarrow> fakeip_view_store" where
  "view_store_replace s v = s\<lparr>vs_view := v\<rparr>"

definition view_store_snapshot :: "fakeip_view_store \<Rightarrow> fakeip_view" where
  "view_store_snapshot s = vs_view s"

subsection \<open>Reverse-lookup names\<close>

text \<open>The loop over the 32 nibble labels, last label first.\<close>

fun parse_nibbles :: "string list \<Rightarrow> nat list option" where
  "parse_nibbles [] = Some []"
| "parse_nibbles (l # ls) =
     (case parse_uint 8 16 l of
        None \<Rightarrow> None
      | Some nibble \<Rightarrow>
          if l \<noteq> show_hex nibble then None
          else map_option ((#) nibble) (parse_nibbles ls))"

text \<open>\<open>(hi << 4) | lo\<close> on bytes.\<close>

fun nibble_bytes :: "nat list \<Rightarrow> byte list" where
  "nibble_bytes (hi # lo # ns) = (or (push_bit 4 (of_nat hi)) (of_nat lo)) # nibble_bytes ns"
| "nibble_bytes _ = []"

definition reverse_name_to_ip :: "domain_name \<Rightarrow> ip_addr option" where
  "reverse_name_to_ip domain =
     (let labels = domain_labels domain in
      if length labels = 6 \<and> labels ! 4 = ''in-addr'' \<and> labels ! 5 = ''arpa''
         \<and> list_all (\<lambda>l. parse_uint 8 10 l \<noteq> None) (take 4 labels)
      then (case (parse_uint 8 10 (labels ! 3), parse_uint 8 10 (labels ! 2),
                  parse_uint 8 10 (labels ! 1), parse_uint 8 10 (labels ! 0)) of
              (Some a, Some b, Some c, Some d) \<Rightarrow> Some (V4 (from_be32 [of_nat a, of_nat b, of_nat c, of_nat d]))
            | _ \<Rightarrow> None)
      else if length labels \<noteq> 34 \<or> labels ! 32 \<noteq> ''ip6'' \<or> labels ! 33 \<noteq> ''arpa'' then None
      else (case parse_nibbles (rev (take 32 labels)) of
              None \<Rightarrow> None
            | Some nibbles \<Rightarrow> Some (V6 (from_be128 (nibble_bytes nibbles)))))"

subsection \<open>Properties\<close>

lemma split_on_sep: "split_on c (p @ c # s) = split_on c p @ split_on c s"
  by (induction p) (auto split: list.splits)

lemma labels_suffix_iff:
  "d = s \<or> suffix (CHR ''.'' # s) d \<longleftrightarrow> (\<exists>ls. domain_labels d = ls @ domain_labels s)"
proof
  assume "\<exists>ls. domain_labels d = ls @ domain_labels s"
  then obtain ls where ls: "domain_labels d = ls @ domain_labels s" ..
  have app: "join_with c (xs @ ys) = join_with c xs @ c # join_with c ys" if "xs \<noteq> []" "ys \<noteq> []" for c xs ys
    using that by (induction c xs rule: join_with.induct) (auto simp: join_with_Cons)
  have "d = join_with CHR ''.'' (ls @ domain_labels s)"
    using ls by (metis domain_labels_def join_split)
  then show "d = s \<or> suffix (CHR ''.'' # s) d"
    using app [of ls "domain_labels s" "CHR ''.''"] by (cases "ls = []") (auto simp: domain_labels_def suffix_def)
qed (auto simp: suffix_def domain_labels_def split_on_sep)

lemma wildcard_label_iff:
  "(case strip_suffix (CHR ''.'' # s) d of None \<Rightarrow> False | Some p \<Rightarrow> p \<noteq> [] \<and> CHR ''.'' \<notin> set p)
     \<longleftrightarrow> (\<exists>l. l \<noteq> [] \<and> domain_labels d = l # domain_labels s)"
proof
  assume "\<exists>l. l \<noteq> [] \<and> domain_labels d = l # domain_labels s"
  then obtain l where l: "l \<noteq> []" "domain_labels d = l # domain_labels s"
    by blast
  then have "d = l @ CHR ''.'' # s"
    by (metis domain_labels_def join_split join_with_Cons split_on_not_Nil)
  moreover have "CHR ''.'' \<notin> set l"
    using split_on_pieces [of l "CHR ''.''" d] l(2) by (simp add: domain_labels_def)
  ultimately show "case strip_suffix (CHR ''.'' # s) d of None \<Rightarrow> False | Some p \<Rightarrow> p \<noteq> [] \<and> CHR ''.'' \<notin> set p"
    using l(1) by (simp add: strip_suffix_def suffix_def)
qed (auto simp: strip_suffix_def suffix_def domain_labels_def split_on_sep split_on_no_sep split: option.splits if_splits)

text \<open>What a pattern of a policy list covers, by labels.\<close>

definition policy_covers :: "string \<Rightarrow> domain_name \<Rightarrow> bool" where
  "policy_covers pattern d =
     (case strip_prefix ''*.'' (canonical_text pattern) of
        None \<Rightarrow> suffix (domain_labels (canonical_text pattern)) (domain_labels d)
      | Some s \<Rightarrow> length (domain_labels d) = length (domain_labels s) + 1 \<and> suffix (domain_labels s) (domain_labels d))"

lemma wildcard_covers:
  assumes "valid_domain d"
  shows "(\<exists>l. l \<noteq> [] \<and> domain_labels d = l # domain_labels s) \<longleftrightarrow>
    length (domain_labels d) = length (domain_labels s) + 1 \<and> suffix (domain_labels s) (domain_labels d)"
proof -
  have "l \<noteq> []" if "domain_labels d = l # ls" for l ls
    using assms that by (auto simp: valid_domain_def valid_label_def)
  moreover have "\<exists>l. zs = [l]" if "length (zs @ domain_labels s) = length (domain_labels s) + 1" for zs
    using that by (simp add: length_Suc_conv)
  ultimately show ?thesis
    by (fastforce simp: suffix_def)
qed

lemma matcher_matches_iff:
  "matcher_matches m d \<longleftrightarrow> (\<exists>s \<in> set (dm_suffixes m). suffix (domain_labels s) (domain_labels d))
     \<or> (\<exists>s \<in> set (dm_wildcards m). \<exists>l. l \<noteq> [] \<and> domain_labels d = l # domain_labels s)"
  unfolding matcher_matches_def list_ex_iff labels_suffix_iff wildcard_label_iff by (auto simp: suffix_def)

lemma matcher_insert:
  assumes "valid_domain d"
  shows "strip_prefix ''*.'' (canonical_text p) = None \<Longrightarrow>
      matcher_matches (m\<lparr>dm_suffixes := List.insert (canonical_text p) (dm_suffixes m)\<rparr>) d \<longleftrightarrow> matcher_matches m d \<or> policy_covers p d"
    and "strip_prefix ''*.'' (canonical_text p) = Some s \<Longrightarrow>
      matcher_matches (m\<lparr>dm_wildcards := List.insert s (dm_wildcards m)\<rparr>) d \<longleftrightarrow> matcher_matches m d \<or> policy_covers p d"
  using wildcard_covers [OF assms, of s] by (auto simp: matcher_matches_iff policy_covers_def)

lemma matcher_from_patterns_matches:
  assumes "valid_domain d"
  shows "matcher_from_patterns dbg field m ps = Inr m1 \<Longrightarrow>
    matcher_matches m1 d \<longleftrightarrow> matcher_matches m d \<or> (\<exists>p \<in> set ps. policy_covers p d)"
proof (induction ps arbitrary: m)
  case (Cons p ps)
  show ?case
  proof (cases "strip_prefix ''*.'' (canonical_text p)")
    case None
    then have "matcher_from_patterns dbg field (m\<lparr>dm_suffixes := List.insert (canonical_text p) (dm_suffixes m)\<rparr>) ps = Inr m1"
      using Cons.prems by (auto simp: Let_def split: if_splits)
    from Cons.IH [OF this] matcher_insert(1) [OF assms None] show ?thesis
      by auto
  next
    case (Some s)
    then have "matcher_from_patterns dbg field (m\<lparr>dm_wildcards := List.insert s (dm_wildcards m)\<rparr>) ps = Inr m1"
      using Cons.prems by (auto simp: Let_def split: if_splits)
    from Cons.IH [OF this] matcher_insert(2) [OF assms Some] show ?thesis
      by auto
  qed
qed simp

text \<open>
  A policy built from its two lists answers by labels: a plain entry covers the name itself
  and every name below it, an entry \<open>*.s\<close> exactly the names one label below \<open>s\<close>, and the two lists
  do not influence each other.
\<close>

lemma policy_matches_by_labels:
  assumes "policy_from_lists dbg whitelist skip_check = Inr p" "valid_domain d"
  shows "(is_whitelisted p d \<longleftrightarrow> (\<exists>w \<in> set whitelist. policy_covers w d))
    \<and> (is_skip_check p d \<longleftrightarrow> (\<exists>s \<in> set skip_check. policy_covers s d))"
proof -
  obtain w s where "matcher_from_patterns dbg ''whitelist'' \<lparr>dm_suffixes = [], dm_wildcards = []\<rparr> whitelist = Inr w"
    "matcher_from_patterns dbg ''skip-check'' \<lparr>dm_suffixes = [], dm_wildcards = []\<rparr> skip_check = Inr s"
    "p = \<lparr>fp_whitelist = w, fp_skip_check = s\<rparr>"
    using assms(1) by (auto simp: policy_from_lists_def rbind_def split: sum.splits)
  with this(1,2) [THEN matcher_from_patterns_matches [OF assms(2)]] show ?thesis
    by (simp add: is_whitelisted_def is_skip_check_def matcher_matches_def)
qed

lemma policy_matches_by_labels_example:
  "\<exists>p. policy_from_lists id [''*.Example.com.'', ''b.org''] [] = Inr p \<and> is_whitelisted p ''a.b.org''
     \<and> is_whitelisted p ''x.example.com'' \<and> \<not> is_whitelisted p ''y.x.example.com'' \<and> \<not> is_whitelisted p ''example.com''"
proof -
  have "is_ok (policy_from_lists id [''*.Example.com.'', ''b.org''] [])"
    by code_simp
  then obtain p where p: "policy_from_lists id [''*.Example.com.'', ''b.org''] [] = Inr p"
    by (cases "policy_from_lists id [''*.Example.com.'', ''b.org''] []") simp_all
  have "valid_domain ''a.b.org''" "valid_domain ''x.example.com''" "valid_domain ''y.x.example.com''" "valid_domain ''example.com''"
    by code_simp+
  note facts = this [THEN policy_matches_by_labels [OF p]]
  have "policy_covers ''b.org'' ''a.b.org''" "policy_covers ''*.Example.com.'' ''x.example.com''"
    "\<not> policy_covers ''*.Example.com.'' ''y.x.example.com''" "\<not> policy_covers ''b.org'' ''y.x.example.com''"
    "\<not> policy_covers ''*.Example.com.'' ''example.com''" "\<not> policy_covers ''b.org'' ''example.com''"
    by code_simp+
  with facts p show ?thesis
    by simp
qed

text \<open>The names of reverse lookups.\<close>

definition byte_nibbles :: "byte \<Rightarrow> nat list" where
  "byte_nibbles b = [unat b div 16, unat b mod 16]"

fun ptr_labels :: "ip_addr \<Rightarrow> string list" where
  "ptr_labels (V4 a) = map (\<lambda>b. show_nat (unat b)) (rev (to_be32 a)) @ [''in-addr'', ''arpa'']"
| "ptr_labels (V6 a) = map show_hex (rev (concat (map byte_nibbles (to_be128 a)))) @ [''ip6'', ''arpa'']"

definition ptr_name :: "ip_addr \<Rightarrow> domain_name" where
  "ptr_name ip = join_with CHR ''.'' (ptr_labels ip)"

lemma parse_hex_nibble:
  assumes "n < 16"
  shows "parse_uint 8 16 (show_hex n) = Some n" "CHR ''.'' \<notin> set (show_hex n)"
proof -
  have "\<forall>n \<in> set [0..<16]. parse_uint 8 16 (show_hex n) = Some n \<and> CHR ''.'' \<notin> set (show_hex n)"
    by code_simp
  then show "parse_uint 8 16 (show_hex n) = Some n" "CHR ''.'' \<notin> set (show_hex n)"
    using assms by auto
qed

lemma parse_nibbles_show: "(\<And>n. n \<in> set ns \<Longrightarrow> n < 16) \<Longrightarrow> parse_nibbles (map show_hex ns) = Some ns"
  by (induction ns) (auto simp: parse_hex_nibble)

lemma nibble_byte: "or (push_bit 4 (of_nat (unat b div 16))) (of_nat (unat b mod 16)) = (b :: byte)"
proof -
  have "of_nat (unat b div 16) = drop_bit 4 b" "of_nat (unat b mod 16) = take_bit 4 b"
    by (simp_all add: drop_bit_eq_div take_bit_eq_mod word_arith_nat_div word_arith_nat_mod)
  then show ?thesis
    by (auto intro!: bit_word_eqI simp: bit_simps)
qed

lemma nibble_bytes_of: "nibble_bytes (concat (map byte_nibbles bs)) = bs"
  by (induction bs) (simp_all add: byte_nibbles_def nibble_byte)

lemma byte_nibbles_less: "n \<in> set (concat (map byte_nibbles bs)) \<Longrightarrow> n < 16"
proof -
  have "unat b div 16 < 16" for b :: byte
    using unsigned_less [of b, where ?'a = nat] by (simp add: less_mult_imp_div_less)
  then show "n \<in> set (concat (map byte_nibbles bs)) \<Longrightarrow> n < 16"
    by (auto simp: byte_nibbles_def)
qed

lemma show_nat_no_dot: "CHR ''.'' \<notin> set (show_nat n)"
  using show_nat_digits [of "CHR ''.''" n]
  by (auto simp: to_digit_def is_ascii_digit_def is_ascii_lower_def is_ascii_upper_def)

lemma labels_ptr_name: "domain_labels (ptr_name ip) = ptr_labels ip"
proof -
  have "ptr_labels ip \<noteq> []"
    by (cases ip) simp_all
  moreover have "CHR ''.'' \<notin> set l" if "l \<in> set (ptr_labels ip)" for l
  proof (cases ip)
    case (V6 a)
    then show ?thesis
      using that parse_hex_nibble(2) [OF byte_nibbles_less [of _ "to_be128 a"]] by auto
  qed (use that show_nat_no_dot in auto)
  moreover have "split_on c (join_with c ls) = ls" if "ls \<noteq> []" "\<And>l. l \<in> set ls \<Longrightarrow> c \<notin> set l" for c ls
    using that by (induction c ls rule: join_with.induct) (auto simp: split_on_no_sep split_on_append_sep)
  ultimately show ?thesis
    by (simp add: domain_labels_def ptr_name_def)
qed

text \<open>
  The reverse-lookup name of every address, v4 or v6, is parsed back to the address.
\<close>

lemma reverse_name_roundtrip: "reverse_name_to_ip (ptr_name ip) = Some ip"
proof (cases ip)
  case (V4 a)
  obtain w x y z where bs: "to_be32 a = [w, x, y, z]"
    unfolding to_be32_def nat_be_4 by blast
  have "parse_uint 8 10 (show_nat (unat b)) = Some (unat b)" for b :: byte
    using unsigned_less [of b, where ?'a = nat] by (intro parse_uint_show_nat) simp
  moreover have "from_be32 [w, x, y, z] = a"
    using from_to_be32 [of a] by (simp add: bs)
  ultimately show ?thesis
    by (simp add: V4 reverse_name_to_ip_def labels_ptr_name bs)
next
  case (V6 a)
  let ?ns = "concat (map byte_nibbles (to_be128 a))"
  have "length (concat (map byte_nibbles bs)) = 2 * length bs" for bs
    by (induction bs) (simp_all add: byte_nibbles_def)
  then have len: "length ?ns = 32"
    by simp
  have "parse_nibbles (map show_hex ?ns) = Some ?ns"
    by (rule parse_nibbles_show) (rule byte_nibbles_less)
  then show ?thesis
    using len by (simp add: V6 reverse_name_to_ip_def labels_ptr_name Let_def nth_append nibble_bytes_of rev_map)
qed

text \<open>
  The parser of \<open>ip6.arpa\<close> names also accepts labels of two hexadecimal digits, whose upper
  digit is lost or runs into the next nibble: two names that are no reverse-lookup names of any
  address are read as addresses.
\<close>

lemma reverse_name_wide_nibbles:
  "let name = (\<lambda>l. join_with CHR ''.'' (l # replicate 31 ''0'' @ [''ip6'', ''arpa''])) in
     reverse_name_to_ip (name ''10'') = Some (V6 16) \<and> reverse_name_to_ip (name ''ff'') = Some (V6 255)
     \<and> ptr_name (V6 16) \<noteq> name ''10''"
  by code_simp

end
