(* ===== verification/Fakeip_Store.thy ===== *)
theory Fakeip_Store
  imports Types "HOL-Library.List_Lexorder"
begin

text \<open>
  The persistent tables behind the FakeIP pools (\<open>store/src/fakeip_store.rs\<close>, the validation of
  \<open>store/src/row.rs\<close> and the transaction wrapper and configuration reads of
  \<open>store/src/lib.rs\<close>). A table is the list of its rows and an SQL statement a function on it,
  with the primary key and the unique index of \<open>store/src/schema.rs\<close>.

  The database engine is not part of this code: each call takes what the engine answers,
  \<open>Some e\<close> when locking, a statement or the commit fails with \<open>e\<close>, \<open>None\<close> when it succeeds.
  A transaction that fails is rolled back, so it leaves the tables as they were.
\<close>

subsection \<open>Rows\<close>

record fakeip_entry =
  fe_family :: int
  fe_prefix :: string
  fe_domain :: string
  fe_ip :: "byte list"
  fe_created_at :: int
  fe_last_used_at :: int

record fakeip_cursor =
  fu_family :: int
  fu_prefix :: string
  fu_cursor_ip :: "byte list"
  fu_cursor_idx :: int
  fu_updated_at :: int

record config_db =
  db_entries :: "fakeip_entry list"
  db_cursors :: "fakeip_cursor list"
  db_config :: "(string \<times> byte list) list"

subsection \<open>Validation\<close>

text \<open>
  \<open>char::is_control\<close> on UTF-8 bytes: U+0000 to U+001F and U+007F as one byte, U+0080 to U+009F
  as the bytes C2 80 to C2 9F.
\<close>

fun has_control :: "string \<Rightarrow> bool" where
  "has_control [] = False"
| "has_control (c # s) =
     (code c < 0x20 \<or> code c = 0x7F
      \<or> (code c = 0xC2 \<and> (case s of [] \<Rightarrow> False | d # _ \<Rightarrow> 0x80 \<le> code d \<and> code d \<le> 0x9F))
      \<or> has_control s)"

definition valid_text :: "string \<Rightarrow> bool" where
  "valid_text s = (s \<noteq> [] \<and> length s \<le> 512 \<and> \<not> has_control s)"

definition validate_key :: "string \<Rightarrow> unit result" where
  "validate_key key =
     (if \<not> valid_text key
      then Inl (error_new InvalidInput ''config key must be 1..=512 non-control characters'')
      else Inr ())"

definition validate_id :: "string \<Rightarrow> unit result" where
  "validate_id value =
     (if \<not> valid_text value
      then Inl (error_invalid ''typed store identifier must be 1..=512 non-control characters'')
      else Inr ())"

definition validate_fakeip_scope :: "int \<Rightarrow> string \<Rightarrow> unit result" where
  "validate_fakeip_scope family pfx =
     (if family \<noteq> 4 \<and> family \<noteq> 6 then Inl (error_invalid ''FakeIP family must be 4 or 6'')
      else validate_id pfx)"

definition family_ip_len :: "int \<Rightarrow> nat" where
  "family_ip_len family = (if family = 4 then 4 else 16)"

definition validate_fakeip_entry :: "fakeip_entry \<Rightarrow> unit result" where
  "validate_fakeip_entry entry =
     rbind (validate_fakeip_scope (fe_family entry) (fe_prefix entry)) (\<lambda>_.
     rbind (validate_id (fe_domain entry)) (\<lambda>_.
       if length (fe_ip entry) \<noteq> family_ip_len (fe_family entry)
         then Inl (error_invalid ''FakeIP entry has an invalid IP length'')
       else if fe_created_at entry < 0 \<or> fe_last_used_at entry < 0
         then Inl (error_invalid ''FakeIP entry timestamps must not be negative'')
       else Inr ()))"

definition validate_fakeip_cursor :: "fakeip_cursor \<Rightarrow> unit result" where
  "validate_fakeip_cursor cursor =
     rbind (validate_fakeip_scope (fu_family cursor) (fu_prefix cursor)) (\<lambda>_.
       if length (fu_cursor_ip cursor) \<noteq> family_ip_len (fu_family cursor)
         then Inl (error_invalid ''FakeIP cursor has an invalid IP length'')
       else if fu_cursor_idx cursor < 0 \<or> fu_updated_at cursor < 0
         then Inl (error_invalid ''FakeIP cursor values must not be negative'')
       else Inr ())"

fun validate_all :: "('a \<Rightarrow> unit result) \<Rightarrow> 'a list \<Rightarrow> unit result" where
  "validate_all f [] = Inr ()"
| "validate_all f (x # xs) = rbind (f x) (\<lambda>_. validate_all f xs)"

subsection \<open>Statements\<close>

definition in_scope :: "int \<Rightarrow> string \<Rightarrow> fakeip_entry \<Rightarrow> bool" where
  "in_scope family pfx e = (fe_family e = family \<and> fe_prefix e = pfx)"

definition same_row :: "fakeip_entry \<Rightarrow> fakeip_entry \<Rightarrow> bool" where
  "same_row e f =
     (in_scope (fe_family e) (fe_prefix e) f \<and> (fe_domain f = fe_domain e \<or> fe_ip f = fe_ip e))"

definition sql_delete_domain :: "int \<Rightarrow> string \<Rightarrow> string \<Rightarrow> config_db \<Rightarrow> config_db" where
  "sql_delete_domain family pfx domain db =
     db\<lparr>db_entries := filter (\<lambda>e. \<not> (in_scope family pfx e \<and> fe_domain e = domain)) (db_entries db)\<rparr>"

definition sql_delete_ip :: "int \<Rightarrow> string \<Rightarrow> byte list \<Rightarrow> config_db \<Rightarrow> config_db" where
  "sql_delete_ip family pfx ip db =
     db\<lparr>db_entries := filter (\<lambda>e. \<not> (in_scope family pfx e \<and> fe_ip e = ip)) (db_entries db)\<rparr>"

text \<open>\<open>INSERT\<close> fails on a row with the same key or the same address in the scope.\<close>

definition sql_insert_entry :: "fakeip_entry \<Rightarrow> config_db \<Rightarrow> config_db result" where
  "sql_insert_entry e db =
     (if list_ex (same_row e) (db_entries db) then Inl (error_new Storage ''UNIQUE constraint failed'')
      else Inr (db\<lparr>db_entries := db_entries db @ [e]\<rparr>))"

definition sql_replace_entry :: "fakeip_entry \<Rightarrow> config_db \<Rightarrow> config_db" where
  "sql_replace_entry e db =
     db\<lparr>db_entries := filter (\<lambda>f. \<not> same_row e f) (db_entries db) @ [e]\<rparr>"

definition sql_replace_cursor :: "fakeip_cursor \<Rightarrow> config_db \<Rightarrow> config_db" where
  "sql_replace_cursor c db =
     db\<lparr>db_cursors := filter (\<lambda>d. \<not> (fu_family d = fu_family c \<and> fu_prefix d = fu_prefix c)) (db_cursors db) @ [c]\<rparr>"

definition sql_touch :: "int \<Rightarrow> string \<Rightarrow> string \<Rightarrow> int \<Rightarrow> config_db \<Rightarrow> config_db" where
  "sql_touch family pfx domain timestamp db =
     db\<lparr>db_entries := map (\<lambda>e. if in_scope family pfx e \<and> fe_domain e = domain
                                then e\<lparr>fe_last_used_at := timestamp\<rparr> else e) (db_entries db)\<rparr>"

definition sql_delete_config :: "string \<Rightarrow> config_db \<Rightarrow> config_db" where
  "sql_delete_config key db = db\<lparr>db_config := filter (\<lambda>kv. fst kv \<noteq> key) (db_config db)\<rparr>"

definition sql_put_config :: "string \<Rightarrow> byte list \<Rightarrow> config_db \<Rightarrow> config_db" where
  "sql_put_config key value db =
     db\<lparr>db_config := filter (\<lambda>kv. fst kv \<noteq> key) (db_config db) @ [(key, value)]\<rparr>"

text \<open>\<open>LIKE 'prefix%'\<close> for a prefix without wildcards, which ignores the case of letters.\<close>

definition like_prefix :: "string \<Rightarrow> string \<Rightarrow> bool" where
  "like_prefix pfx key =
     (length pfx \<le> length key \<and> eq_ignore_ascii_case pfx (take (length pfx) key))"

subsection \<open>Reads\<close>

definition list_fakeip_entries ::
  "error option \<Rightarrow> config_db \<Rightarrow> int \<Rightarrow> string \<Rightarrow> fakeip_entry list result" where
  "list_fakeip_entries fault db family pfx =
     rbind (validate_fakeip_scope family pfx) (\<lambda>_.
       case fault of
         Some e \<Rightarrow> Inl e
       | None \<Rightarrow> Inr (sort_key fe_ip (sort_key (\<lambda>e. as_bytes (fe_domain e))
                        (filter (in_scope family pfx) (db_entries db)))))"

definition list_fakeip_entries_in_range ::
  "error option \<Rightarrow> config_db \<Rightarrow> int \<Rightarrow> string \<Rightarrow> byte list \<Rightarrow> byte list \<Rightarrow> fakeip_entry list result" where
  "list_fakeip_entries_in_range fault db family pfx start_ip end_ip =
     rbind (validate_fakeip_scope family pfx) (\<lambda>_.
       let expected_len = family_ip_len family in
       if length start_ip \<noteq> expected_len \<or> length end_ip \<noteq> expected_len \<or> start_ip > end_ip
         then Inl (error_invalid ''invalid FakeIP address range'')
       else case fault of
         Some e \<Rightarrow> Inl e
       | None \<Rightarrow>
           Inr (sort_key fe_ip (sort_key (\<lambda>e. as_bytes (fe_prefix e)) (sort_key (\<lambda>e. as_bytes (fe_domain e))
             (filter (\<lambda>e. fe_family e = family \<and> fe_prefix e \<noteq> pfx \<and> length (fe_ip e) = expected_len
                        \<and> start_ip \<le> fe_ip e \<and> fe_ip e \<le> end_ip) (db_entries db))))))"

definition get_fakeip_cursor ::
  "error option \<Rightarrow> config_db \<Rightarrow> int \<Rightarrow> string \<Rightarrow> fakeip_cursor option result" where
  "get_fakeip_cursor fault db family pfx =
     rbind (validate_fakeip_scope family pfx) (\<lambda>_.
       case fault of
         Some e \<Rightarrow> Inl e
       | None \<Rightarrow> Inr (find (\<lambda>c. fu_family c = family \<and> fu_prefix c = pfx) (db_cursors db)))"

definition get_config :: "error option \<Rightarrow> config_db \<Rightarrow> string \<Rightarrow> byte list option result" where
  "get_config fault db key =
     rbind (validate_key key) (\<lambda>_.
       case fault of Some e \<Rightarrow> Inl e | None \<Rightarrow> Inr (map_of (db_config db) key))"

definition list_config :: "error option \<Rightarrow> config_db \<Rightarrow> string \<Rightarrow> (string \<times> byte list) list result" where
  "list_config fault db pfx =
     rbind (if pfx \<noteq> [] then validate_key pfx else Inr ()) (\<lambda>_.
       case fault of
         Some e \<Rightarrow> Inl e
       | None \<Rightarrow> Inr (sort_key (\<lambda>kv. as_bytes (fst kv)) (filter (\<lambda>kv. like_prefix pfx (fst kv)) (db_config db))))"

subsection \<open>Transactions\<close>

definition with_write_transaction ::
  "error option \<Rightarrow> 'db \<Rightarrow> ('db \<Rightarrow> ('db \<times> 'v) result) \<Rightarrow> 'db \<times> 'v result" where
  "with_write_transaction fault db operation =
     (case operation db of
        Inl e \<Rightarrow> (db, Inl e)
      | Inr (db1, v) \<Rightarrow> (case fault of Some e \<Rightarrow> (db, Inl e) | None \<Rightarrow> (db1, Inr v)))"

text \<open>A check before the transaction: its error leaves the tables alone.\<close>

definition checked :: "unit result \<Rightarrow> 'db \<Rightarrow> ('db \<times> 'v result) \<Rightarrow> 'db \<times> 'v result" where
  "checked r db k = (case r of Inl e \<Rightarrow> (db, Inl e) | Inr _ \<Rightarrow> k)"

definition replace_fakeip_entry ::
  "error option \<Rightarrow> config_db \<Rightarrow> fakeip_entry \<Rightarrow> fakeip_cursor \<Rightarrow> string option \<Rightarrow> config_db \<times> unit result" where
  "replace_fakeip_entry fault db entry cursor evicted_domain =
     checked (validate_fakeip_entry entry) db (
     checked (validate_fakeip_cursor cursor) db (
     checked (if fe_family entry \<noteq> fu_family cursor \<or> fe_prefix entry \<noteq> fu_prefix cursor
              then Inl (error_invalid ''FakeIP entry and cursor must use the same scope'') else Inr ()) db (
     checked (case evicted_domain of None \<Rightarrow> Inr () | Some domain \<Rightarrow> validate_id domain) db (
       with_write_transaction fault db (\<lambda>db.
         let db = sql_delete_domain (fe_family entry) (fe_prefix entry) (fe_domain entry) db;
             db = (case evicted_domain of None \<Rightarrow> db
                   | Some domain \<Rightarrow> sql_delete_domain (fe_family entry) (fe_prefix entry) domain db);
             db = sql_delete_ip (fe_family entry) (fe_prefix entry) (fe_ip entry) db
         in rbind (sql_insert_entry entry db) (\<lambda>db. Inr (sql_replace_cursor cursor db, ())))))))"

fun delete_domains :: "int \<Rightarrow> string \<Rightarrow> string list \<Rightarrow> config_db \<Rightarrow> nat \<Rightarrow> config_db \<times> nat" where
  "delete_domains family pfx [] db deleted = (db, deleted)"
| "delete_domains family pfx (d # ds) db deleted =
     (let db1 = sql_delete_domain family pfx d db
      in delete_domains family pfx ds db1
           (deleted + (length (db_entries db) - length (db_entries db1))))"

definition delete_fakeip_entries ::
  "error option \<Rightarrow> config_db \<Rightarrow> int \<Rightarrow> string \<Rightarrow> string list \<Rightarrow> config_db \<times> nat result" where
  "delete_fakeip_entries fault db family pfx domains =
     checked (validate_fakeip_scope family pfx) db (
     checked (validate_all validate_id domains) db (
       if domains = [] then (db, Inr 0)
       else with_write_transaction fault db (\<lambda>db. Inr (delete_domains family pfx domains db 0))))"

fun touch_domains :: "int \<Rightarrow> string \<Rightarrow> (string \<times> int) list \<Rightarrow> config_db \<Rightarrow> nat \<Rightarrow> config_db \<times> nat" where
  "touch_domains family pfx [] db updated = (db, updated)"
| "touch_domains family pfx ((d, t) # ts) db updated =
     touch_domains family pfx ts (sql_touch family pfx d t db)
       (updated + length (filter (\<lambda>e. in_scope family pfx e \<and> fe_domain e = d) (db_entries db)))"

definition validate_touch :: "string \<times> int \<Rightarrow> unit result" where
  "validate_touch dt =
     rbind (validate_id (fst dt)) (\<lambda>_.
       if snd dt < 0 then Inl (error_invalid ''FakeIP last_used_at must not be negative'') else Inr ())"

definition touch_fakeip_entries ::
  "error option \<Rightarrow> config_db \<Rightarrow> int \<Rightarrow> string \<Rightarrow> (string \<times> int) list \<Rightarrow> config_db \<times> nat result" where
  "touch_fakeip_entries fault db family pfx touches =
     checked (validate_fakeip_scope family pfx) db (
     checked (validate_all validate_touch touches) db (
       if touches = [] then (db, Inr 0)
       else with_write_transaction fault db (\<lambda>db. Inr (touch_domains family pfx touches db 0))))"

definition validate_import_entry :: "fakeip_cursor \<Rightarrow> fakeip_entry \<Rightarrow> unit result" where
  "validate_import_entry cursor entry =
     rbind (validate_fakeip_entry entry) (\<lambda>_.
       if fe_family entry \<noteq> fu_family cursor \<or> fe_prefix entry \<noteq> fu_prefix cursor
       then Inl (error_invalid ''legacy FakeIP entries and cursor must use the same scope'') else Inr ())"

text \<open>A skipping import without a marker panics: the outer option.\<close>

definition validate_import :: "fakeip_entry list \<Rightarrow> fakeip_cursor \<Rightarrow> string list \<Rightarrow> string option \<Rightarrow> unit result" where
  "validate_import entries cursor legacy_keys marker_key =
     rbind (validate_fakeip_cursor cursor) (\<lambda>_.
     rbind (validate_all (validate_import_entry cursor) entries) (\<lambda>_.
     rbind (validate_all validate_key legacy_keys) (\<lambda>_.
       case marker_key of None \<Rightarrow> Inr () | Some k \<Rightarrow> validate_key k)))"

definition import_fakeip_state_inner ::
  "error option \<Rightarrow> config_db \<Rightarrow> fakeip_entry list \<Rightarrow> fakeip_cursor \<Rightarrow> string list \<Rightarrow> string option \<Rightarrow> bool
    \<Rightarrow> (config_db \<times> bool result) option" where
  "import_fakeip_state_inner fault db entries cursor legacy_keys marker_key skip_if_marked =
     (case validate_import entries cursor legacy_keys marker_key of
        Inl e \<Rightarrow> Some (db, Inl e)
      | Inr _ \<Rightarrow>
          if skip_if_marked \<and> marker_key = None then None
          else Some (with_write_transaction fault db (\<lambda>db.
            if skip_if_marked \<and> map_of (db_config db) (the marker_key) \<noteq> None then Inr (db, False)
            else
              (let db = fold sql_replace_entry entries db;
                   db = sql_replace_cursor cursor db;
                   db = fold sql_delete_config legacy_keys db;
                   db = (case marker_key of None \<Rightarrow> db | Some k \<Rightarrow> sql_put_config k [0x31] db)
               in Inr (db, True)))))"

definition import_fakeip_state ::
  "error option \<Rightarrow> config_db \<Rightarrow> fakeip_entry list \<Rightarrow> fakeip_cursor \<Rightarrow> string list \<Rightarrow> string option
    \<Rightarrow> (config_db \<times> unit result) option" where
  "import_fakeip_state fault db entries cursor legacy_keys marker_key =
     map_option (\<lambda>(db, r). (db, rbind r (\<lambda>_. Inr ())))
       (import_fakeip_state_inner fault db entries cursor legacy_keys marker_key False)"

definition import_fakeip_state_if_unmarked ::
  "error option \<Rightarrow> config_db \<Rightarrow> fakeip_entry list \<Rightarrow> fakeip_cursor \<Rightarrow> string list \<Rightarrow> string
    \<Rightarrow> (config_db \<times> bool result) option" where
  "import_fakeip_state_if_unmarked fault db entries cursor legacy_keys marker_key =
     import_fakeip_state_inner fault db entries cursor legacy_keys (Some marker_key) True"

subsection \<open>The constraints of the tables\<close>

definition entry_key :: "fakeip_entry \<Rightarrow> int \<times> string \<times> string" where
  "entry_key e = (fe_family e, fe_prefix e, fe_domain e)"

definition entry_addr :: "fakeip_entry \<Rightarrow> int \<times> string \<times> byte list" where
  "entry_addr e = (fe_family e, fe_prefix e, fe_ip e)"

text \<open>Primary key and unique index of the entries, primary key of the cursors.\<close>

definition db_ok :: "config_db \<Rightarrow> bool" where
  "db_ok db \<longleftrightarrow> distinct (map entry_key (db_entries db)) \<and> distinct (map entry_addr (db_entries db))
     \<and> distinct (map (\<lambda>c. (fu_family c, fu_prefix c)) (db_cursors db))"

lemma same_row_alt: "same_row e f \<longleftrightarrow> entry_key f = entry_key e \<or> entry_addr f = entry_addr e"
  by (auto simp: same_row_def in_scope_def entry_key_def entry_addr_def)

lemma db_ok_filter: "db_ok db \<Longrightarrow> db_ok (db\<lparr>db_entries := filter P (db_entries db)\<rparr>)"
  by (auto simp: db_ok_def distinct_map_filter)

lemma db_ok_delete_domain [intro]: "db_ok db \<Longrightarrow> db_ok (sql_delete_domain f p d db)"
  unfolding sql_delete_domain_def by (rule db_ok_filter)

lemma db_ok_delete_ip [intro]: "db_ok db \<Longrightarrow> db_ok (sql_delete_ip f p i db)"
  unfolding sql_delete_ip_def by (rule db_ok_filter)

lemma db_ok_insert: "db_ok db \<Longrightarrow> \<not> list_ex (same_row e) (db_entries db) \<Longrightarrow>
    db_ok (db\<lparr>db_entries := db_entries db @ [e]\<rparr>)"
  by (auto simp: db_ok_def list_ex_iff same_row_alt)

lemma db_ok_replace [intro]: "db_ok db \<Longrightarrow> db_ok (sql_replace_entry e db)"
proof -
  assume "db_ok db"
  then have "db_ok (db\<lparr>db_entries := filter (\<lambda>f. \<not> same_row e f) (db_entries db)\<rparr>)"
    by (rule db_ok_filter)
  from db_ok_insert [OF this, of e] show "db_ok (sql_replace_entry e db)"
    by (simp add: sql_replace_entry_def list_ex_iff)
qed

lemma db_ok_cursor [intro]: "db_ok db \<Longrightarrow> db_ok (sql_replace_cursor c db)"
  by (auto simp: db_ok_def sql_replace_cursor_def distinct_map_filter)

lemma entry_key_touch [simp]:
  "map entry_key (db_entries (sql_touch f p d t db)) = map entry_key (db_entries db)"
  "map entry_addr (db_entries (sql_touch f p d t db)) = map entry_addr (db_entries db)"
  by (simp_all add: sql_touch_def entry_key_def entry_addr_def)

lemma db_ok_touch [intro]: "db_ok db \<Longrightarrow> db_ok (sql_touch f p d t db)"
  by (simp add: db_ok_def) (simp add: sql_touch_def)

lemma db_ok_config [intro]:
  "db_ok db \<Longrightarrow> db_ok (sql_delete_config k db)" "db_ok db \<Longrightarrow> db_ok (sql_put_config k v db)"
  by (simp_all add: db_ok_def sql_delete_config_def sql_put_config_def)

lemma db_ok_fold: "(\<And>x db. db_ok db \<Longrightarrow> db_ok (f x db)) \<Longrightarrow> db_ok db \<Longrightarrow> db_ok (fold f xs db)"
  by (induction xs arbitrary: db) auto

lemma db_ok_delete_domains [intro]: "db_ok db \<Longrightarrow> db_ok (fst (delete_domains f p ds db n))"
  by (induction f p ds db n rule: delete_domains.induct) (auto simp: Let_def)

lemma db_ok_touch_domains [intro]: "db_ok db \<Longrightarrow> db_ok (fst (touch_domains f p ts db n))"
  by (induction f p ts db n rule: touch_domains.induct) auto

text \<open>After the deletes of \<open>replace_fakeip_entry\<close> the insertion cannot violate a constraint.\<close>

definition replaced_entries :: "fakeip_entry \<Rightarrow> string option \<Rightarrow> fakeip_entry list \<Rightarrow> fakeip_entry list" where
  "replaced_entries entry evicted rows =
     filter (\<lambda>e. \<not> same_row entry e
               \<and> \<not> (in_scope (fe_family entry) (fe_prefix entry) e \<and> evicted = Some (fe_domain e))) rows @ [entry]"

lemma replace_fakeip_entry_ok:
  assumes "validate_fakeip_entry entry = Inr ()" "validate_fakeip_cursor cursor = Inr ()"
    and "fu_family cursor = fe_family entry" "fu_prefix cursor = fe_prefix entry"
    and "\<And>d. evicted = Some d \<Longrightarrow> validate_id d = Inr ()"
  shows "replace_fakeip_entry fault db entry cursor evicted =
    (case fault of Some e \<Rightarrow> (db, Inl e)
     | None \<Rightarrow> (sql_replace_cursor cursor (db\<lparr>db_entries := replaced_entries entry evicted (db_entries db)\<rparr>), Inr ()))"
proof -
  let ?scope = "in_scope (fe_family entry) (fe_prefix entry)"
  let ?keep = "\<lambda>e. \<not> same_row entry e \<and> \<not> (?scope e \<and> evicted = Some (fe_domain e))"
  let ?deleted = "sql_delete_ip (fe_family entry) (fe_prefix entry) (fe_ip entry)
    (case evicted of None \<Rightarrow> sql_delete_domain (fe_family entry) (fe_prefix entry) (fe_domain entry) db
     | Some d \<Rightarrow> sql_delete_domain (fe_family entry) (fe_prefix entry) d
         (sql_delete_domain (fe_family entry) (fe_prefix entry) (fe_domain entry) db))"
  have "db_entries ?deleted = filter ?keep (db_entries db)"
    by (cases evicted) (auto simp: sql_delete_domain_def sql_delete_ip_def same_row_def intro!: filter_cong)
  moreover have "?deleted = db\<lparr>db_entries := db_entries ?deleted\<rparr>"
    by (cases evicted) (simp_all add: sql_delete_domain_def sql_delete_ip_def)
  ultimately have deleted: "?deleted = db\<lparr>db_entries := filter ?keep (db_entries db)\<rparr>"
    by simp
  have "sql_insert_entry entry ?deleted = Inr (db\<lparr>db_entries := replaced_entries entry evicted (db_entries db)\<rparr>)"
    unfolding deleted by (simp add: sql_insert_entry_def list_ex_iff replaced_entries_def)
  with assms show ?thesis
    by (cases fault) (auto simp: replace_fakeip_entry_def checked_def with_write_transaction_def Let_def
        rbind_def split: option.splits)
qed

lemma checkedE:
  assumes "checked c db k = (db1, r)"
  obtains (failed) e where "r = Inl e" "db1 = db" | (passed) "c = Inr ()" "k = (db1, r)"
  using assms by (cases c) (auto simp: checked_def)

lemma replace_fakeip_entry_cases:
  assumes "replace_fakeip_entry fault db entry cursor evicted = (db1, r)"
    and "fu_family cursor = fe_family entry" "fu_prefix cursor = fe_prefix entry"
  shows "(\<exists>e. r = Inl e \<and> db1 = db) \<or>
    (r = Inr () \<and> db1 = sql_replace_cursor cursor (db\<lparr>db_entries := replaced_entries entry evicted (db_entries db)\<rparr>))"
  using assms(1) unfolding replace_fakeip_entry_def
proof (elim checkedE)
  assume "validate_fakeip_entry entry = Inr ()" "validate_fakeip_cursor cursor = Inr ()"
    "(case evicted of None \<Rightarrow> Inr () | Some domain \<Rightarrow> validate_id domain) = Inr ()"
  then show ?thesis
    using assms replace_fakeip_entry_ok [of entry cursor evicted fault db] by (auto split: option.splits)
qed auto

lemma db_ok_replaced: "db_ok db \<Longrightarrow> db_ok (db\<lparr>db_entries := replaced_entries entry evicted (db_entries db)\<rparr>)"
proof -
  let ?keep = "\<lambda>e. \<not> same_row entry e
    \<and> \<not> (in_scope (fe_family entry) (fe_prefix entry) e \<and> evicted = Some (fe_domain e))"
  assume "db_ok db"
  then have "db_ok (db\<lparr>db_entries := filter ?keep (db_entries db)\<rparr>)"
    by (rule db_ok_filter)
  from db_ok_insert [OF this, of entry] show ?thesis
    by (simp add: replaced_entries_def list_ex_iff)
qed

lemma delete_fakeip_entries_cases:
  assumes "delete_fakeip_entries fault db family pfx ds = (db1, r)"
  shows "(\<exists>e. r = Inl e \<and> db1 = db) \<or> (\<exists>n. r = Inr n \<and> db1 = fst (delete_domains family pfx ds db 0))"
  using assms
  by (auto simp: delete_fakeip_entries_def checked_def with_write_transaction_def
      split: sum.splits option.splits if_splits prod.splits)

lemma touch_fakeip_entries_cases:
  assumes "touch_fakeip_entries fault db family pfx ts = (db1, r)"
  shows "(\<exists>e. r = Inl e \<and> db1 = db) \<or> (\<exists>n. r = Inr n \<and> db1 = fst (touch_domains family pfx ts db 0))"
  using assms
  by (auto simp: touch_fakeip_entries_def checked_def with_write_transaction_def
      split: sum.splits option.splits if_splits prod.splits)

definition imported_db :: "fakeip_entry list \<Rightarrow> fakeip_cursor \<Rightarrow> string list \<Rightarrow> string option \<Rightarrow> config_db \<Rightarrow> config_db" where
  "imported_db entries cursor legacy_keys marker_key db =
     (let db = fold sql_delete_config legacy_keys (sql_replace_cursor cursor (fold sql_replace_entry entries db))
      in case marker_key of None \<Rightarrow> db | Some k \<Rightarrow> sql_put_config k [0x31] db)"

lemma import_inner_cases:
  assumes "import_fakeip_state_inner fault db entries cursor keys marker skip = Some (db1, r)"
  shows "(\<exists>e. r = Inl e \<and> db1 = db) \<or> (r = Inr False \<and> db1 = db \<and> skip) \<or>
    (r = Inr True \<and> db1 = imported_db entries cursor keys marker db)"
  using assms
  by (auto simp: import_fakeip_state_inner_def with_write_transaction_def imported_db_def Let_def
      split: sum.splits option.splits if_splits)

lemma db_ok_imported: "db_ok db \<Longrightarrow> db_ok (imported_db entries cursor keys marker db)"
  by (auto simp: imported_db_def Let_def intro!: db_ok_fold split: option.splits)

subsection \<open>Properties of the writes\<close>

text \<open>One write of the store with the answer of the engine, and whether it succeeded.\<close>

datatype store_op =
    Replace fakeip_entry fakeip_cursor "string option"
  | Delete int string "string list"
  | Touch int string "(string \<times> int) list"
  | Import "fakeip_entry list" fakeip_cursor "string list" string

fun run_store :: "store_op \<Rightarrow> error option \<Rightarrow> config_db \<Rightarrow> (config_db \<times> bool) option" where
  "run_store (Replace entry cursor evicted) fault db =
     Some (apsnd is_ok (replace_fakeip_entry fault db entry cursor evicted))"
| "run_store (Delete family pfx domains) fault db =
     Some (apsnd is_ok (delete_fakeip_entries fault db family pfx domains))"
| "run_store (Touch family pfx touches) fault db =
     Some (apsnd is_ok (touch_fakeip_entries fault db family pfx touches))"
| "run_store (Import entries cursor keys marker) fault db =
     map_option (apsnd is_ok) (import_fakeip_state_if_unmarked fault db entries cursor keys marker)"

lemma replace_fakeip_entry_scope:
  assumes "replace_fakeip_entry fault db entry cursor evicted = (db1, Inr u)"
  shows "fu_family cursor = fe_family entry \<and> fu_prefix cursor = fe_prefix entry \<and> fault = None"
  using assms unfolding replace_fakeip_entry_def
  by (elim checkedE) (auto simp: with_write_transaction_def split: if_splits sum.splits option.splits)

lemma with_write_transaction_err: "with_write_transaction fault db f = (db1, Inl e) \<Longrightarrow> db1 = db"
  by (auto simp: with_write_transaction_def split: sum.splits option.splits)

lemma replace_fakeip_entry_err: "replace_fakeip_entry fault db entry cursor evicted = (db1, Inl e) \<Longrightarrow> db1 = db"
  unfolding replace_fakeip_entry_def by (elim checkedE) (auto dest: with_write_transaction_err)

lemma db_ok_replace_fakeip_entry:
  assumes "replace_fakeip_entry fault db entry cursor evicted = (db1, r)" "db_ok db"
  shows "db_ok db1"
proof (cases r)
  case (Inl e)
  then show ?thesis
    using assms replace_fakeip_entry_err by blast
next
  case (Inr u)
  then have "fu_family cursor = fe_family entry" "fu_prefix cursor = fe_prefix entry"
    using replace_fakeip_entry_scope assms(1) by blast+
  from replace_fakeip_entry_cases [OF assms(1) this] assms(2) show ?thesis
    by (auto intro: db_ok_replaced)
qed


definition demo_entry :: "string \<Rightarrow> byte list \<Rightarrow> fakeip_entry" where
  "demo_entry d ip = \<lparr>fe_family = 4, fe_prefix = ''p'', fe_domain = d, fe_ip = ip, fe_created_at = 1, fe_last_used_at = 1\<rparr>"

definition demo_cursor :: fakeip_cursor where
  "demo_cursor = \<lparr>fu_family = 4, fu_prefix = ''p'', fu_cursor_ip = [1, 2, 3, 5], fu_cursor_idx = 1, fu_updated_at = 1\<rparr>"


text \<open>
  After a replacement the scope lists, in the order of the addresses, exactly the new entry
  and the former entries with another domain, another address and not evicted, and the cursor
  read back is the one written.
\<close>

lemma replace_then_list:
  assumes "replace_fakeip_entry fault db entry cursor evicted = (db1, Inr ())"
    and "list_fakeip_entries None db1 (fe_family entry) (fe_prefix entry) = Inr rows"
  shows "sorted (map fe_ip rows)
    \<and> set rows = insert entry {e \<in> set (db_entries db). in_scope (fe_family entry) (fe_prefix entry) e
        \<and> fe_domain e \<noteq> fe_domain entry \<and> fe_ip e \<noteq> fe_ip entry \<and> evicted \<noteq> Some (fe_domain e)}
    \<and> get_fakeip_cursor None db1 (fe_family entry) (fe_prefix entry) = Inr (Some cursor)"
proof -
  have scope: "fu_family cursor = fe_family entry" "fu_prefix cursor = fe_prefix entry"
    using replace_fakeip_entry_scope [OF assms(1)] by simp_all
  have db1: "db1 = sql_replace_cursor cursor (db\<lparr>db_entries := replaced_entries entry evicted (db_entries db)\<rparr>)"
    using replace_fakeip_entry_cases [OF assms(1) scope] by simp
  have v: "validate_fakeip_scope (fe_family entry) (fe_prefix entry) = Inr ()"
    and rows: "rows = sort_key fe_ip (sort_key (\<lambda>e. as_bytes (fe_domain e))
      (filter (in_scope (fe_family entry) (fe_prefix entry)) (db_entries db1)))"
    using assms(2) by (auto simp: list_fakeip_entries_def rbind_def split: sum.splits)
  have "set rows = insert entry {e \<in> set (db_entries db). in_scope (fe_family entry) (fe_prefix entry) e
        \<and> fe_domain e \<noteq> fe_domain entry \<and> fe_ip e \<noteq> fe_ip entry \<and> evicted \<noteq> Some (fe_domain e)}"
    by (auto simp: rows db1 sql_replace_cursor_def replaced_entries_def same_row_def in_scope_def)
  moreover have "find P (filter (\<lambda>x. \<not> P x) xs @ [c]) = Some c" if "P c" for P and c :: fakeip_cursor and xs
    using that by (induction xs) auto
  from this [of "\<lambda>c. fu_family c = fe_family entry \<and> fu_prefix c = fe_prefix entry"]
  have "get_fakeip_cursor None db1 (fe_family entry) (fe_prefix entry) = Inr (Some cursor)"
    using v scope by (simp add: get_fakeip_cursor_def db1 sql_replace_cursor_def rbind_def)
  ultimately show ?thesis
    by (simp add: rows)
qed

lemma replace_then_list_example:
  "let db = \<lparr>db_entries = [demo_entry ''a.b'' [1, 2, 3, 9], demo_entry ''e.f'' [1, 2, 3, 4]], db_cursors = [], db_config = []\<rparr>
   in \<exists>db1 rows. list_fakeip_entries None db1 4 ''p'' = Inr rows
       \<and> replace_fakeip_entry None db (demo_entry ''c.d'' [1, 2, 3, 4]) demo_cursor None = (db1, Inr ())
       \<and> set rows = {demo_entry ''c.d'' [1, 2, 3, 4], demo_entry ''a.b'' [1, 2, 3, 9]}"
proof -
  let ?db = "\<lparr>db_entries = [demo_entry ''a.b'' [1, 2, 3, 9], demo_entry ''e.f'' [1, 2, 3, 4]], db_cursors = [], db_config = []\<rparr>"
  let ?run = "replace_fakeip_entry None ?db (demo_entry ''c.d'' [1, 2, 3, 4]) demo_cursor None"
  define run where "run = ?run"
  have "is_ok (snd run)" "is_ok (list_fakeip_entries None (fst run) 4 ''p'')"
    unfolding run_def by code_simp+
  then obtain db1 rows where "run = (db1, Inr ())" and rows: "list_fakeip_entries None db1 4 ''p'' = Inr rows"
    by (cases run; cases "snd run") (auto simp: is_ok_def split: sum.splits)
  then have run: "?run = (db1, Inr ())"
    unfolding run_def by blast
  have fields: "fe_family (demo_entry d ip) = 4" "fe_prefix (demo_entry d ip) = ''p''" "fe_domain (demo_entry d ip) = d"
    "fe_ip (demo_entry d ip) = ip" for d ip
    by (simp_all add: demo_entry_def)
  have "set rows = insert (demo_entry ''c.d'' [1, 2, 3, 4])
      {e \<in> {demo_entry ''a.b'' [1, 2, 3, 9], demo_entry ''e.f'' [1, 2, 3, 4]}. in_scope 4 ''p'' e
        \<and> fe_domain e \<noteq> ''c.d'' \<and> fe_ip e \<noteq> [1, 2, 3, 4] \<and> None \<noteq> Some (fe_domain e)}"
    using replace_then_list [OF run, unfolded fields, OF rows] by simp
  also have "{e \<in> {demo_entry ''a.b'' [1, 2, 3, 9], demo_entry ''e.f'' [1, 2, 3, 4]}. in_scope 4 ''p'' e
        \<and> fe_domain e \<noteq> ''c.d'' \<and> fe_ip e \<noteq> [1, 2, 3, 4] \<and> None \<noteq> Some (fe_domain e)} = {demo_entry ''a.b'' [1, 2, 3, 9]}"
    by (auto simp: fields in_scope_def)
  finally have "set rows = {demo_entry ''c.d'' [1, 2, 3, 4], demo_entry ''a.b'' [1, 2, 3, 9]}" .
  with run rows show ?thesis
    unfolding Let_def by blast
qed

end
