(* ===== verification/Fakeip_Pool.thy ===== *)
theory Fakeip_Pool
  imports Fakeip_Config Fakeip_Store
begin

text \<open>
  The FakeIP pools (\<open>store/src/fakeip_pool_v4.rs\<close>, \<open>fakeip_pool_v6.rs\<close> and the helpers of
  \<open>store/src/fakeip.rs\<close>): a bijection between live domains and addresses of a range, mirrored
  in the store. The two files are the same program at two address widths; the model takes the
  width as a \<open>pool_family\<close> and is instantiated at both.

  Each call of the store takes the answer of the database engine from \<open>faults\<close>, by the number
  of the call within the operation. Subtractions and additions that would overflow panic: the
  outer option is \<open>None\<close>. Timestamps are \<open>int\<close>, the clock is an argument read once per operation.
\<close>

subsection \<open>Families\<close>

record 'w pool_family =
  pf_family :: int
  pf_num :: "'w \<Rightarrow> nat"
  pf_addr :: "nat \<Rightarrow> 'w"
  pf_octets :: "'w \<Rightarrow> byte list"
  pf_from_octets :: "byte list \<Rightarrow> 'w"
  pf_size :: "'w fakeip_config \<Rightarrow> nat result"
  pf_bits :: nat \<comment> \<open>width of the offset arithmetic\<close>
  pf_label :: string
  pf_next_key :: string
  pf_map_prefix :: string

definition NEXT_KEY :: string where "NEXT_KEY = ''fakeip/next''"
definition MAP_PREFIX :: string where "MAP_PREFIX = ''fakeip/map/''"
definition NEXT_V6_KEY :: string where "NEXT_V6_KEY = ''fakeip/ipv6/next''"
definition MAP_V6_PREFIX :: string where "MAP_V6_PREFIX = ''fakeip/ipv6/map/''"
definition IMPORT_MARKER_PREFIX :: string where "IMPORT_MARKER_PREFIX = ''fakeip/legacy-import/''"

definition family_v4 :: "u32 pool_family" where
  "family_v4 =
     \<lparr>pf_family = 4, pf_num = unat, pf_addr = of_nat, pf_octets = to_be32, pf_from_octets = from_be32,
      pf_size = (\<lambda>c. Inr (fakeip_config_size c)), pf_bits = 64, pf_label = [],
      pf_next_key = NEXT_KEY, pf_map_prefix = MAP_PREFIX\<rparr>"

definition family_v6 :: "u128 pool_family" where
  "family_v6 =
     \<lparr>pf_family = 6, pf_num = unat, pf_addr = of_nat, pf_octets = to_be128, pf_from_octets = from_be128,
      pf_size = fakeip_v6_config_size, pf_bits = 128, pf_label = ''IPv6 '',
      pf_next_key = NEXT_V6_KEY, pf_map_prefix = MAP_V6_PREFIX\<rparr>"

definition pf_ip_len :: "'w pool_family \<Rightarrow> nat" where
  "pf_ip_len F = family_ip_len (pf_family F)"

subsection \<open>State\<close>

record 'w ip_mapping =
  im_address :: 'w
  im_created_at :: int
  im_last_used_at :: int
  im_persisted_last_used_at :: int

record 'w pool_state =
  ps_next :: 'w
  ps_forward :: "(domain_name \<times> 'w ip_mapping) list"
  ps_reverse :: "('w \<times> domain_name) list"
  ps_reserved :: "('w \<times> int) list"

record 'w fakeip_pool =
  pl_config :: "'w fakeip_config"
  pl_prefix :: string
  pl_options :: fakeip_options

type_synonym faults = "nat \<Rightarrow> error option"
type_synonym ('w, 'r) pool_result = "('w pool_state \<times> config_db \<times> 'r result) option"

definition expired_at :: "int \<Rightarrow> int \<Rightarrow> int \<Rightarrow> bool" where
  "expired_at last_used_at now ttl_seconds = (now \<ge> last_used_at \<and> now - last_used_at \<ge> ttl_seconds)"

definition config_contains :: "'w pool_family \<Rightarrow> 'w fakeip_config \<Rightarrow> 'w \<Rightarrow> bool" where
  "config_contains F c address =
     (pf_num F address \<ge> pf_num F (fr_start c) \<and> pf_num F address \<le> pf_num F (fr_end c))"

definition normalize_next :: "'w pool_family \<Rightarrow> 'w fakeip_config \<Rightarrow> 'w \<Rightarrow> 'w" where
  "normalize_next F c next = (if \<not> config_contains F c next then fr_start c else next)"

text \<open>\<open>state.forward.remove(&domain)\<close> and, when it was there, the reverse entry.\<close>

definition drop_domain :: "domain_name \<Rightarrow> 'w pool_state \<Rightarrow> 'w pool_state" where
  "drop_domain domain st =
     (case map_of (ps_forward st) domain of
        None \<Rightarrow> st
      | Some m \<Rightarrow> st\<lparr>ps_forward := AList.delete domain (ps_forward st),
                    ps_reverse := AList.delete (im_address m) (ps_reverse st)\<rparr>)"

definition put_mapping :: "domain_name \<Rightarrow> 'w ip_mapping \<Rightarrow> 'w pool_state \<Rightarrow> 'w pool_state" where
  "put_mapping domain m st =
     st\<lparr>ps_reverse := AList.update (im_address m) domain (ps_reverse st),
        ps_forward := AList.update domain m (ps_forward st)\<rparr>"

subsection \<open>Opening a pool\<close>

text \<open>The legacy rows, \<open>load_legacy_v4\<close> and \<open>load_legacy_v6\<close>: the first row of an address wins.\<close>

fun load_legacy_loop ::
  "'w pool_family \<Rightarrow> 'w fakeip_config \<Rightarrow> string \<Rightarrow> int \<Rightarrow> 'w list \<Rightarrow> (string \<times> byte list) list \<Rightarrow> fakeip_entry list" where
  "load_legacy_loop F c pfx now addresses [] = []"
| "load_legacy_loop F c pfx now addresses ((key, value) # rows) =
     (if length value \<noteq> pf_ip_len F then load_legacy_loop F c pfx now addresses rows
      else case strip_prefix (pf_map_prefix F) key of
        None \<Rightarrow> load_legacy_loop F c pfx now addresses rows
      | Some name \<Rightarrow>
          (case domain_name_new name of
             Inl _ \<Rightarrow> load_legacy_loop F c pfx now addresses rows
           | Inr domain \<Rightarrow>
               (let address = pf_from_octets F value in
                if \<not> config_contains F c address \<or> address \<in> set addresses
                then load_legacy_loop F c pfx now addresses rows
                else \<lparr>fe_family = pf_family F, fe_prefix = pfx, fe_domain = domain,
                      fe_ip = pf_octets F address, fe_created_at = now, fe_last_used_at = now\<rparr>
                     # load_legacy_loop F c pfx now (address # addresses) rows)))"

definition load_legacy ::
  "'w pool_family \<Rightarrow> error option \<Rightarrow> config_db \<Rightarrow> 'w fakeip_config \<Rightarrow> string \<Rightarrow> int \<Rightarrow> fakeip_entry list result" where
  "load_legacy F fault db c pfx now =
     rbind (list_config fault db (pf_map_prefix F)) (\<lambda>rows. Inr (load_legacy_loop F c pfx now [] rows))"

definition load_legacy_keys :: "error option \<Rightarrow> config_db \<Rightarrow> string \<Rightarrow> string list result" where
  "load_legacy_keys fault db pfx = rbind (list_config fault db pfx) (\<lambda>rows. Inr (map fst rows))"

definition reserved_addresses ::
  "'w pool_family \<Rightarrow> fakeip_options \<Rightarrow> int \<Rightarrow> fakeip_entry list \<Rightarrow> ('w \<times> int) list" where
  "reserved_addresses F opts now rows =
     fold (\<lambda>e. AList.update (pf_from_octets F (fe_ip e)) (fe_last_used_at e))
       (filter (\<lambda>e. length (fe_ip e) = pf_ip_len F)
         (filter (\<lambda>e. \<not> expired_at (fe_last_used_at e) now (fo_ttl_seconds opts)) rows)) []"

text \<open>The loop over the stored rows: the state and the expired domains.\<close>

fun load_entries ::
  "'w pool_family \<Rightarrow> 'w fakeip_pool \<Rightarrow> int \<Rightarrow> 'w pool_state \<Rightarrow> string list \<Rightarrow> fakeip_entry list \<Rightarrow> 'w pool_state \<times> string list" where
  "load_entries F pool now st expired [] = (st, expired)"
| "load_entries F pool now st expired (e # es) =
     (if length (fe_ip e) \<noteq> pf_ip_len F \<or> fe_family e \<noteq> pf_family F \<or> fe_prefix e \<noteq> pl_prefix pool
      then load_entries F pool now st expired es
      else case domain_name_new (fe_domain e) of
        Inl _ \<Rightarrow> load_entries F pool now st expired es
      | Inr domain \<Rightarrow>
          (let address = pf_from_octets F (fe_ip e) in
           if \<not> config_contains F (pl_config pool) address
              \<or> map_of (ps_reserved st) address \<noteq> None \<or> map_of (ps_reverse st) address \<noteq> None
              \<or> map_of (ps_forward st) domain \<noteq> None
           then load_entries F pool now st expired es
           else if expired_at (fe_last_used_at e) now (fo_ttl_seconds (pl_options pool))
           then load_entries F pool now st (expired @ [fe_domain e]) es
           else load_entries F pool now
                  (put_mapping domain
                     \<lparr>im_address = address, im_created_at = fe_created_at e,
                      im_last_used_at = fe_last_used_at e, im_persisted_last_used_at = fe_last_used_at e\<rparr> st)
                  expired es))"

definition state_entries :: "'w pool_family \<Rightarrow> string \<Rightarrow> 'w pool_state \<Rightarrow> fakeip_entry list" where
  "state_entries F pfx st =
     map (\<lambda>(domain, m). \<lparr>fe_family = pf_family F, fe_prefix = pfx, fe_domain = domain,
        fe_ip = pf_octets F (im_address m), fe_created_at = im_created_at m,
        fe_last_used_at = im_last_used_at m\<rparr>) (ps_forward st)"

text \<open>\<open>i64::try_from(..).unwrap_or(i64::MAX)\<close> of the distance to the start.\<close>

definition cursor_index :: "'w pool_family \<Rightarrow> 'w fakeip_config \<Rightarrow> 'w \<Rightarrow> int" where
  "cursor_index F c next = int (min (pf_num F next - pf_num F (fr_start c)) (2 ^ 63 - 1))"

definition pool_cursor :: "'w pool_family \<Rightarrow> 'w fakeip_pool \<Rightarrow> 'w \<Rightarrow> int \<Rightarrow> fakeip_cursor" where
  "pool_cursor F pool next now =
     \<lparr>fu_family = pf_family F, fu_prefix = pl_prefix pool, fu_cursor_ip = pf_octets F next,
      fu_cursor_idx = cursor_index F (pl_config pool) next, fu_updated_at = now\<rparr>"

text \<open>The checks before the store is read.\<close>

definition check_pool :: "'w pool_family \<Rightarrow> 'w fakeip_pool \<Rightarrow> unit result" where
  "check_pool F pool =
     rbind (pf_size F (pl_config pool)) (\<lambda>sz.
       if fo_max_entries (pl_options pool) = 0 \<or> fo_max_entries (pl_options pool) > sz
         then Inl (error_invalid (''FakeIP max_entries must fit inside the configured '' @ pf_label F @ ''pool''))
       else if fo_ttl_seconds (pl_options pool) \<le> 0 \<or> fo_touch_interval_seconds (pl_options pool) \<le> 0
         then Inl (error_invalid ''FakeIP time options must be positive'')
       else if \<not> valid_text (pl_prefix pool) then Inl (error_invalid ''invalid FakeIP pool prefix'')
       else Inr ())"

text \<open>The domains dropped when more than \<open>max_entries\<close> were stored, the oldest first.\<close>

definition trim_domains :: "fakeip_options \<Rightarrow> 'w pool_state \<Rightarrow> domain_name list" where
  "trim_domains opts st =
     take (length (ps_forward st) - fo_max_entries opts)
       (map fst (sort_key snd (map (\<lambda>(d, m). (d, im_last_used_at m)) (ps_forward st))))"

text \<open>The state before the rows are loaded.\<close>

definition initial_state ::
  "'w pool_family \<Rightarrow> 'w fakeip_pool \<Rightarrow> int \<Rightarrow> fakeip_entry list \<Rightarrow> fakeip_cursor option \<Rightarrow> byte list option \<Rightarrow> 'w pool_state" where
  "initial_state F pool now other_rows typed_cursor legacy_cursor =
     (let decode = (\<lambda>bs. if length bs = pf_ip_len F then Some (pf_from_octets F bs) else None);
          next = (case Option.bind typed_cursor (\<lambda>c. decode (fu_cursor_ip c)) of
                    Some a \<Rightarrow> a
                  | None \<Rightarrow> (case Option.bind legacy_cursor decode of Some a \<Rightarrow> a | None \<Rightarrow> fr_start (pl_config pool)))
      in \<lparr>ps_next = normalize_next F (pl_config pool) next, ps_forward = [], ps_reverse = [],
          ps_reserved = reserved_addresses F (pl_options pool) now other_rows\<rparr>)"

text \<open>The writes of \<open>open_with_prefix\<close> once the rows are read.\<close>

definition open_rows ::
  "'w pool_family \<Rightarrow> faults \<Rightarrow> int \<Rightarrow> config_db \<Rightarrow> 'w fakeip_pool \<Rightarrow> bool \<Rightarrow> 'w pool_state \<Rightarrow> fakeip_entry list
    \<Rightarrow> (config_db \<times> 'w pool_state result) option" where
  "open_rows F faults now db pool typed_absent st0 rows =
     (let (st1, expired) = load_entries F pool now st0 [] rows;
          (db1, r1) = (if expired \<noteq> [] then delete_fakeip_entries (faults 5) db (pf_family F) (pl_prefix pool) expired
                       else (db, Inr 0))
      in case r1 of
           Inl e \<Rightarrow> Some (db1, Inl e)
         | Inr _ \<Rightarrow>
             (let domains = trim_domains (pl_options pool) st1;
                  (db2, r2) = (if domains \<noteq> [] then delete_fakeip_entries (faults 6) db1 (pf_family F) (pl_prefix pool) domains
                               else (db1, Inr 0))
              in case r2 of
                   Inl e \<Rightarrow> Some (db2, Inl e)
                 | Inr _ \<Rightarrow>
                     (let st2 = fold drop_domain domains st1 in
                      if \<not> typed_absent then Some (db2, Inr st2)
                      else case load_legacy_keys (faults 7) db2 (pf_map_prefix F) of
                        Inl e \<Rightarrow> Some (db2, Inl e)
                      | Inr keys \<Rightarrow>
                          (let entries = state_entries F (pl_prefix pool) st2;
                               legacy_keys = pf_next_key F # keys
                           in if entries \<noteq> [] \<or> length legacy_keys > 1
                              then map_option (\<lambda>(db3, r). (db3, rbind r (\<lambda>_. Inr st2)))
                                     (import_fakeip_state (faults 8) db2 entries (pool_cursor F pool (ps_next st2) now)
                                        legacy_keys None)
                              else Some (db2, Inr st2)))))"

definition open_with_prefix ::
  "'w pool_family \<Rightarrow> faults \<Rightarrow> int \<Rightarrow> config_db \<Rightarrow> 'w fakeip_pool \<Rightarrow> (config_db \<times> 'w pool_state result) option" where
  "open_with_prefix F faults now db pool =
     (let c = pl_config pool; pfx = pl_prefix pool; reads =
        rbind (check_pool F pool) (\<lambda>_.
        rbind (list_fakeip_entries (faults 0) db (pf_family F) pfx) (\<lambda>typed.
        rbind (list_fakeip_entries_in_range (faults 1) db (pf_family F) pfx
                 (pf_octets F (fr_start c)) (pf_octets F (fr_end c))) (\<lambda>others.
        rbind (get_fakeip_cursor (faults 2) db (pf_family F) pfx) (\<lambda>cursor.
        rbind (if typed = [] then load_legacy F (faults 3) db c pfx now else Inr []) (\<lambda>legacy.
        rbind (if typed = [] then get_config (faults 4) db (pf_next_key F) else Inr None) (\<lambda>legacy_cursor.
          Inr (typed, initial_state F pool now others cursor legacy_cursor, legacy)))))))
      in case reads of
           Inl e \<Rightarrow> Some (db, Inl e)
         | Inr (typed, st, legacy) \<Rightarrow>
             open_rows F faults now db pool (typed = []) st (if typed = [] then legacy else typed))"

subsection \<open>Allocating an address\<close>

text \<open>
  The loop over the offsets: the first address from the cursor on, cyclically, that is neither
  mapped nor reserved. The result is \<open>None\<close> for an overflow, \<open>Some None\<close> when every address is taken.
\<close>

function select_address ::
  "'w pool_family \<Rightarrow> 'w fakeip_config \<Rightarrow> 'w pool_state \<Rightarrow> nat \<Rightarrow> nat \<Rightarrow> 'w option option" where
  "select_address F c st sz offset =
     (if offset \<ge> sz then Some None
      else if pf_num F (ps_next st) < pf_num F (fr_start c)
              \<or> pf_num F (ps_next st) - pf_num F (fr_start c) + offset \<ge> 2 ^ pf_bits F then None
      else
        (let candidate = pf_num F (fr_start c)
               + (pf_num F (ps_next st) - pf_num F (fr_start c) + offset) mod sz;
             address = pf_addr F candidate
         in if map_of (ps_reverse st) address = None \<and> map_of (ps_reserved st) address = None
            then Some (Some address)
            else select_address F c st sz (offset + 1)))"
  by pat_completeness auto
termination
  by (relation "measure (\<lambda>(_, _, _, sz, offset). sz - offset)") auto

declare select_address.simps [simp del]

definition pool_exhausted :: "'w pool_family \<Rightarrow> error" where
  "pool_exhausted F = error_new Storage (''FakeIP '' @ pf_label F @ ''pool is exhausted'')"

text \<open>The address for a new mapping, and the domain evicted for it when the pool is full.\<close>

definition choose_address ::
  "'w pool_family \<Rightarrow> 'w fakeip_pool \<Rightarrow> 'w pool_state \<Rightarrow> nat \<Rightarrow> ('w \<times> domain_name option) result option" where
  "choose_address F pool st sz =
     (if length (ps_forward st) \<ge> fo_max_entries (pl_options pool) then
        (case min_by_key (\<lambda>dm. im_last_used_at (snd dm)) (ps_forward st) of
           None \<Rightarrow> Some (Inl (pool_exhausted F))
         | Some (evicted_domain, m) \<Rightarrow> Some (Inr (im_address m, Some evicted_domain)))
      else
        (case select_address F (pl_config pool) st sz 0 of
           None \<Rightarrow> None
         | Some None \<Rightarrow> Some (Inl (pool_exhausted F))
         | Some (Some address) \<Rightarrow> Some (Inr (address, None))))"

text \<open>The successor of an address in the range; the addition may overflow at the family's width.\<close>

definition next_address :: "'w pool_family \<Rightarrow> 'w fakeip_config \<Rightarrow> nat \<Rightarrow> 'w \<Rightarrow> 'w option" where
  "next_address F c sz address =
     (if pf_num F address < pf_num F (fr_start c)
         \<or> pf_num F address - pf_num F (fr_start c) + 1 \<ge> 2 ^ pf_bits F then None
      else Some (pf_addr F (pf_num F (fr_start c) + (pf_num F address - pf_num F (fr_start c) + 1) mod sz)))"

definition new_mapping :: "'w \<Rightarrow> int \<Rightarrow> 'w ip_mapping" where
  "new_mapping address now =
     \<lparr>im_address = address, im_created_at = now, im_last_used_at = now, im_persisted_last_used_at = now\<rparr>"

definition new_entry :: "'w pool_family \<Rightarrow> 'w fakeip_pool \<Rightarrow> domain_name \<Rightarrow> 'w \<Rightarrow> int \<Rightarrow> fakeip_entry" where
  "new_entry F pool domain address now =
     \<lparr>fe_family = pf_family F, fe_prefix = pl_prefix pool, fe_domain = domain,
      fe_ip = pf_octets F address, fe_created_at = now, fe_last_used_at = now\<rparr>"

text \<open>The part of \<open>allocate_at\<close> after the domain is known to have no live mapping.\<close>

definition expired_domains :: "'w fakeip_pool \<Rightarrow> int \<Rightarrow> 'w pool_state \<Rightarrow> domain_name list" where
  "expired_domains pool now st =
     map fst (filter (\<lambda>dm. expired_at (im_last_used_at (snd dm)) now (fo_ttl_seconds (pl_options pool))) (ps_forward st))"

definition store_new ::
  "'w pool_family \<Rightarrow> 'w fakeip_pool \<Rightarrow> error option \<Rightarrow> domain_name \<Rightarrow> int \<Rightarrow> 'w pool_state \<Rightarrow> config_db
    \<Rightarrow> 'w \<times> domain_name option \<Rightarrow> 'w \<Rightarrow> 'w pool_state \<times> config_db \<times> 'w result" where
  "store_new F pool fault domain now st db choice next =
     (case replace_fakeip_entry fault db (new_entry F pool domain (fst choice) now)
             (pool_cursor F pool next now) (snd choice) of
        (db1, Inl e) \<Rightarrow> (st, db1, Inl e)
      | (db1, Inr _) \<Rightarrow>
          (let st1 = (case snd choice of None \<Rightarrow> st | Some d \<Rightarrow> drop_domain d st)
           in (put_mapping domain (new_mapping (fst choice) now) (st1\<lparr>ps_next := next\<rparr>), db1, Inr (fst choice))))"

definition allocate_new ::
  "'w pool_family \<Rightarrow> 'w fakeip_pool \<Rightarrow> faults \<Rightarrow> domain_name \<Rightarrow> int \<Rightarrow> 'w pool_state \<Rightarrow> config_db \<Rightarrow> ('w, 'w) pool_result" where
  "allocate_new F pool faults domain now st db =
     (let expired = expired_domains pool now st;
          (db1, r) = (if expired \<noteq> [] then delete_fakeip_entries (faults 1) db (pf_family F) (pl_prefix pool) expired
                      else (db, Inr 0))
      in case r of
           Inl e \<Rightarrow> Some (st, db1, Inl e)
         | Inr _ \<Rightarrow>
             (let st1 = fold drop_domain expired st in
              case pf_size F (pl_config pool) of
                Inl e \<Rightarrow> Some (st1, db1, Inl e)
              | Inr sz \<Rightarrow>
                  (case choose_address F pool st1 sz of
                     None \<Rightarrow> None
                   | Some (Inl e) \<Rightarrow> Some (st1, db1, Inl e)
                   | Some (Inr choice) \<Rightarrow>
                       (case next_address F (pl_config pool) sz (fst choice) of
                          None \<Rightarrow> None
                        | Some next \<Rightarrow> Some (store_new F pool (faults 2) domain now st1 db1 choice next)))))"

definition touch_mapping :: "domain_name \<Rightarrow> ('w ip_mapping \<Rightarrow> 'w ip_mapping) \<Rightarrow> 'w pool_state \<Rightarrow> 'w pool_state" where
  "touch_mapping domain f st =
     (case map_of (ps_forward st) domain of
        None \<Rightarrow> st
      | Some m \<Rightarrow> st\<lparr>ps_forward := AList.update domain (f m) (ps_forward st)\<rparr>)"

definition allocate_at ::
  "'w pool_family \<Rightarrow> 'w fakeip_pool \<Rightarrow> faults \<Rightarrow> domain_name \<Rightarrow> int \<Rightarrow> 'w pool_state \<Rightarrow> config_db \<Rightarrow> ('w, 'w) pool_result" where
  "allocate_at F pool faults domain now st0 db =
     (let opts = pl_options pool;
          st = st0\<lparr>ps_reserved := filter (\<lambda>al. \<not> expired_at (snd al) now (fo_ttl_seconds opts)) (ps_reserved st0)\<rparr>
      in case map_of (ps_forward st) domain of
           None \<Rightarrow> allocate_new F pool faults domain now st db
         | Some m \<Rightarrow>
             if \<not> expired_at (im_last_used_at m) now (fo_ttl_seconds opts) then
               (if now - im_persisted_last_used_at m \<ge> fo_touch_interval_seconds opts then
                  (case touch_fakeip_entries (faults 0) db (pf_family F) (pl_prefix pool) [(domain, now)] of
                     (db1, Inl e) \<Rightarrow> Some (st, db1, Inl e)
                   | (db1, Inr _) \<Rightarrow>
                       Some (touch_mapping domain (\<lambda>m. m\<lparr>im_persisted_last_used_at := now, im_last_used_at := now\<rparr>) st,
                             db1, Inr (im_address m)))
                else Some (touch_mapping domain (\<lambda>m. m\<lparr>im_last_used_at := now\<rparr>) st, db, Inr (im_address m)))
             else
               (case delete_fakeip_entries (faults 0) db (pf_family F) (pl_prefix pool) [domain] of
                  (db1, Inl e) \<Rightarrow> Some (st, db1, Inl e)
                | (db1, Inr _) \<Rightarrow> allocate_new F pool faults domain now (drop_domain domain st) db1))"

subsection \<open>Importing a legacy snapshot\<close>

text \<open>
  The checks of one entry against the entries imported so far and the live mappings. The maps
  are updated as the entry is read.
\<close>

fun import_entries ::
  "'w pool_family \<Rightarrow> 'w fakeip_pool \<Rightarrow> 'w pool_state \<Rightarrow> int \<Rightarrow> (domain_name \<times> 'w) list
    \<Rightarrow> ('w \<times> domain_name) list \<Rightarrow> (domain_name \<times> 'w) list
    \<Rightarrow> (('w \<times> domain_name) list \<times> fakeip_entry list) result" where
  "import_entries F pool st now [] ips domains = Inr (ips, [])"
| "import_entries F pool st now ((domain, address) # es) ips domains =
     (let msg = (\<lambda>s. ''legacy FakeIP '' @ pf_label F @ s) in
      if \<not> config_contains F (pl_config pool) address
        then Inl (error_invalid (msg ''address is outside the pool''))
      else if (case map_of ips address of None \<Rightarrow> False | Some d \<Rightarrow> d \<noteq> domain)
        then Inl (error_new Storage (msg ''export contains duplicate addresses''))
      else if (case map_of domains domain of None \<Rightarrow> False | Some a \<Rightarrow> a \<noteq> address)
        then Inl (error_new Storage (msg ''export contains duplicate domains''))
      else if (case map_of (ps_reverse st) address of None \<Rightarrow> False | Some d \<Rightarrow> d \<noteq> domain)
        then Inl (error_new Storage (msg ''address conflicts with current mapping''))
      else if (case map_of (ps_forward st) domain of None \<Rightarrow> False | Some m \<Rightarrow> im_address m \<noteq> address)
        then Inl (error_new Storage (msg ''domain conflicts with current mapping''))
      else rbind (import_entries F pool st now es (AList.update address domain ips) (AList.update domain address domains))
             (\<lambda>(ips1, rows). Inr (ips1, new_entry F pool domain address now # rows)))"

definition marker_ok :: "string \<Rightarrow> bool" where
  "marker_ok marker = (marker \<noteq> [] \<and> length marker \<le> 128 \<and> \<not> has_control marker)"

definition import_legacy ::
  "'w pool_family \<Rightarrow> 'w fakeip_pool \<Rightarrow> error option \<Rightarrow> string \<Rightarrow> (domain_name \<times> 'w) list \<Rightarrow> 'w option \<Rightarrow> int
    \<Rightarrow> 'w pool_state \<Rightarrow> config_db \<Rightarrow> ('w, bool) pool_result" where
  "import_legacy F pool fault marker entries snapshot_next now st db =
     (if \<not> marker_ok marker then Some (st, db, Inl (error_invalid ''invalid FakeIP legacy import marker''))
      else case import_entries F pool st now entries [] [] of
        Inl e \<Rightarrow> Some (st, db, Inl e)
      | Inr (ips, rows) \<Rightarrow>
          (let next = (case snapshot_next of None \<Rightarrow> fr_start (pl_config pool) | Some a \<Rightarrow> a) in
           if \<not> config_contains F (pl_config pool) next
           then Some (st, db, Inl (error_invalid (''legacy FakeIP '' @ pf_label F @ ''cursor is outside the pool'')))
           else case import_fakeip_state_if_unmarked fault db rows (pool_cursor F pool next now) []
                       (IMPORT_MARKER_PREFIX @ marker) of
             None \<Rightarrow> None
           | Some (db1, Inl e) \<Rightarrow> Some (st, db1, Inl e)
           | Some (db1, Inr imported) \<Rightarrow>
               if \<not> imported then Some (st, db1, Inr False)
               else Some (fold (\<lambda>(address, domain). put_mapping domain (new_mapping address now)) ips
                            (st\<lparr>ps_next := next\<rparr>), db1, Inr True)))"

subsection \<open>Lookups and maintenance\<close>

definition pool_lookup_domain :: "'w pool_state \<Rightarrow> 'w \<Rightarrow> domain_name option" where
  "pool_lookup_domain st address = map_of (ps_reverse st) address"

definition pool_lookup_ip :: "'w pool_state \<Rightarrow> domain_name \<Rightarrow> 'w option" where
  "pool_lookup_ip st domain = map_option im_address (map_of (ps_forward st) domain)"

definition pool_snapshot_v4 :: "u32 pool_state \<Rightarrow> fakeip_view" where
  "pool_snapshot_v4 st = view_from_maps (ps_reverse st) []"

definition pool_snapshot_v6 :: "u128 pool_state \<Rightarrow> fakeip_view" where
  "pool_snapshot_v6 st = view_from_maps [] (ps_reverse st)"

definition pool_release ::
  "'w pool_family \<Rightarrow> 'w fakeip_pool \<Rightarrow> error option \<Rightarrow> domain_name \<Rightarrow> 'w pool_state \<Rightarrow> config_db \<Rightarrow> ('w, bool) pool_result" where
  "pool_release F pool fault domain st db =
     (case map_of (ps_forward st) domain of
        None \<Rightarrow> Some (st, db, Inr False)
      | Some _ \<Rightarrow>
          (case delete_fakeip_entries fault db (pf_family F) (pl_prefix pool) [domain] of
             (db1, Inl e) \<Rightarrow> Some (st, db1, Inl e)
           | (db1, Inr _) \<Rightarrow> Some (drop_domain domain st, db1, Inr True)))"

definition pending_touches :: "'w pool_state \<Rightarrow> (domain_name \<times> int) list" where
  "pending_touches st =
     map (\<lambda>(d, m). (d, im_last_used_at m))
       (filter (\<lambda>dm. im_last_used_at (snd dm) \<noteq> im_persisted_last_used_at (snd dm)) (ps_forward st))"

definition mark_flushed :: "domain_name \<times> int \<Rightarrow> 'w pool_state \<Rightarrow> 'w pool_state" where
  "mark_flushed dt st =
     (case domain_name_new (fst dt) of
        Inl _ \<Rightarrow> st
      | Inr domain \<Rightarrow> touch_mapping domain (\<lambda>m. m\<lparr>im_persisted_last_used_at := im_last_used_at m\<rparr>) st)"

definition flush_touches ::
  "'w pool_family \<Rightarrow> 'w fakeip_pool \<Rightarrow> error option \<Rightarrow> 'w pool_state \<Rightarrow> config_db \<Rightarrow> ('w, nat) pool_result" where
  "flush_touches F pool fault st db =
     (case touch_fakeip_entries fault db (pf_family F) (pl_prefix pool) (pending_touches st) of
        (db1, Inl e) \<Rightarrow> Some (st, db1, Inl e)
      | (db1, Inr updated) \<Rightarrow> Some (fold mark_flushed (pending_touches st) st, db1, Inr updated))"

definition pool_len :: "'w pool_state \<Rightarrow> nat" where
  "pool_len st = length (ps_forward st)"

definition pool_is_empty :: "'w pool_state \<Rightarrow> bool" where
  "pool_is_empty st = (pool_len st = 0)"

definition pool_contains :: "'w pool_family \<Rightarrow> 'w fakeip_pool \<Rightarrow> 'w \<Rightarrow> bool" where
  "pool_contains F pool address = config_contains F (pl_config pool) address"

subsection \<open>The two pools\<close>

text \<open>The constructors that choose the prefix and the options, and the v6 pool (\<open>FakeIpV6Pool\<close>) at its width.\<close>

definition pool_open_with_options ::
  "faults \<Rightarrow> int \<Rightarrow> config_db \<Rightarrow> u32 fakeip_config \<Rightarrow> fakeip_options \<Rightarrow> (config_db \<times> u32 pool_state result) option" where
  "pool_open_with_options faults now db c opts =
     open_with_prefix family_v4 faults now db \<lparr>pl_config = c, pl_prefix = fakeip_range_prefix c, pl_options = opts\<rparr>"

definition pool_open :: "faults \<Rightarrow> int \<Rightarrow> config_db \<Rightarrow> u32 fakeip_config \<Rightarrow> (config_db \<times> u32 pool_state result) option" where
  "pool_open faults now db c = pool_open_with_options faults now db c (options_for_config c)"

definition load_legacy_v6 ::
  "error option \<Rightarrow> config_db \<Rightarrow> u128 fakeip_config \<Rightarrow> string \<Rightarrow> int \<Rightarrow> fakeip_entry list result" where
  "load_legacy_v6 = load_legacy family_v6"

definition open_with_prefix_v6 ::
  "faults \<Rightarrow> int \<Rightarrow> config_db \<Rightarrow> u128 fakeip_pool \<Rightarrow> (config_db \<times> u128 pool_state result) option" where
  "open_with_prefix_v6 = open_with_prefix family_v6"

definition pool_open_with_options_v6 ::
  "faults \<Rightarrow> int \<Rightarrow> config_db \<Rightarrow> u128 fakeip_config \<Rightarrow> fakeip_options \<Rightarrow> (config_db \<times> u128 pool_state result) option" where
  "pool_open_with_options_v6 faults now db c opts =
     open_with_prefix_v6 faults now db \<lparr>pl_config = c, pl_prefix = fakeip_v6_range_prefix c, pl_options = opts\<rparr>"

definition pool_open_v6 :: "faults \<Rightarrow> int \<Rightarrow> config_db \<Rightarrow> u128 fakeip_config \<Rightarrow> (config_db \<times> u128 pool_state result) option" where
  "pool_open_v6 faults now db c = pool_open_with_options_v6 faults now db c (options_for_v6_config c)"

definition allocate_at_v6 ::
  "u128 fakeip_pool \<Rightarrow> faults \<Rightarrow> domain_name \<Rightarrow> int \<Rightarrow> u128 pool_state \<Rightarrow> config_db \<Rightarrow> (u128, u128) pool_result" where
  "allocate_at_v6 = allocate_at family_v6"

definition import_legacy_v6 ::
  "u128 fakeip_pool \<Rightarrow> error option \<Rightarrow> string \<Rightarrow> (domain_name \<times> u128) list \<Rightarrow> u128 option \<Rightarrow> int
    \<Rightarrow> u128 pool_state \<Rightarrow> config_db \<Rightarrow> (u128, bool) pool_result" where
  "import_legacy_v6 = import_legacy family_v6"

definition pool_release_v6 ::
  "u128 fakeip_pool \<Rightarrow> error option \<Rightarrow> domain_name \<Rightarrow> u128 pool_state \<Rightarrow> config_db \<Rightarrow> (u128, bool) pool_result" where
  "pool_release_v6 = pool_release family_v6"

definition flush_touches_v6 ::
  "u128 fakeip_pool \<Rightarrow> error option \<Rightarrow> u128 pool_state \<Rightarrow> config_db \<Rightarrow> (u128, nat) pool_result" where
  "flush_touches_v6 = flush_touches family_v6"

subsection \<open>The bijection\<close>

definition config_ok :: "'w pool_family \<Rightarrow> 'w fakeip_pool \<Rightarrow> bool" where
  "config_ok F pool \<longleftrightarrow> pf_num F (fr_start (pl_config pool)) \<le> pf_num F (fr_end (pl_config pool))"

text \<open>
  Live domains and their addresses are in bijection, every address and the cursor lie in the
  range, and every domain is canonical.
\<close>

definition pool_inv :: "'w pool_family \<Rightarrow> 'w fakeip_pool \<Rightarrow> 'w pool_state \<Rightarrow> bool" where
  "pool_inv F pool st \<longleftrightarrow>
     distinct (map fst (ps_forward st)) \<and> distinct (map fst (ps_reverse st))
     \<and> (\<forall>d m. map_of (ps_forward st) d = Some m \<longrightarrow>
          map_of (ps_reverse st) (im_address m) = Some d
          \<and> config_contains F (pl_config pool) (im_address m) \<and> valid_domain d)
     \<and> (\<forall>a d. map_of (ps_reverse st) a = Some d \<longrightarrow>
          (\<exists>m. map_of (ps_forward st) d = Some m \<and> im_address m = a))
     \<and> config_contains F (pl_config pool) (ps_next st)"

lemma pool_invD:
  assumes "pool_inv F pool st"
  shows "distinct (map fst (ps_forward st))" "distinct (map fst (ps_reverse st))"
    and "map_of (ps_forward st) d = Some m \<Longrightarrow> map_of (ps_reverse st) (im_address m) = Some d"
    and "map_of (ps_forward st) d = Some m \<Longrightarrow> config_contains F (pl_config pool) (im_address m)"
    and "map_of (ps_forward st) d = Some m \<Longrightarrow> valid_domain d"
    and "map_of (ps_reverse st) a = Some d \<Longrightarrow> \<exists>m. map_of (ps_forward st) d = Some m \<and> im_address m = a"
    and "config_contains F (pl_config pool) (ps_next st)"
  using assms by (auto simp: pool_inv_def)

lemma pool_invI:
  assumes "distinct (map fst (ps_forward st))" "distinct (map fst (ps_reverse st))"
    and "\<And>d m. map_of (ps_forward st) d = Some m \<Longrightarrow> map_of (ps_reverse st) (im_address m) = Some d"
    and "\<And>d m. map_of (ps_forward st) d = Some m \<Longrightarrow> config_contains F (pl_config pool) (im_address m)"
    and "\<And>d m. map_of (ps_forward st) d = Some m \<Longrightarrow> valid_domain d"
    and "\<And>a d. map_of (ps_reverse st) a = Some d \<Longrightarrow> \<exists>m. map_of (ps_forward st) d = Some m \<and> im_address m = a"
    and "config_contains F (pl_config pool) (ps_next st)"
  shows "pool_inv F pool st"
  using assms unfolding pool_inv_def by blast

lemma pool_inv_addresses:
  assumes "pool_inv F pool st" "map_of (ps_forward st) d = Some m" "map_of (ps_forward st) d' = Some m'"
    and "im_address m = im_address m'"
  shows "d = d'"
  using pool_invD(3) [OF assms(1,2)] pool_invD(3) [OF assms(1,3)] assms(4) by simp

lemma pool_inv_reserved [simp]: "pool_inv F pool (st\<lparr>ps_reserved := r\<rparr>) = pool_inv F pool st"
  by (simp add: pool_inv_def)

lemma pool_inv_next:
  "pool_inv F pool st \<Longrightarrow> config_contains F (pl_config pool) a \<Longrightarrow> pool_inv F pool (st\<lparr>ps_next := a\<rparr>)"
  by (simp add: pool_inv_def del: map_of_eq_Some_iff)

lemma drop_domain_forward [simp]:
  "map_of (ps_forward (drop_domain d st)) = (map_of (ps_forward st))(d := None)"
  by (auto simp: drop_domain_def fun_eq_iff split: option.splits)

lemma drop_domain_other [simp]:
  "ps_next (drop_domain d st) = ps_next st" "ps_reserved (drop_domain d st) = ps_reserved st"
  by (simp_all add: drop_domain_def split: option.splits)

lemma drop_domain_reverse:
  "map_of (ps_reverse (drop_domain d st)) a =
     (if map_option im_address (map_of (ps_forward st) d) = Some a then None else map_of (ps_reverse st) a)"
  by (auto simp: drop_domain_def split: option.splits)

lemma drop_domain_reverse_inv:
  assumes "pool_inv F pool st"
  shows "map_of (ps_reverse (drop_domain d st)) a =
     (if map_of (ps_reverse st) a = Some d then None else map_of (ps_reverse st) a)"
proof -
  have "map_option im_address (map_of (ps_forward st) d) = Some a \<longleftrightarrow> map_of (ps_reverse st) a = Some d"
    using pool_invD(3,6) [OF assms] by fastforce
  then show ?thesis
    by (simp add: drop_domain_reverse)
qed

lemma pool_inv_drop: "pool_inv F pool st \<Longrightarrow> pool_inv F pool (drop_domain d st)"
proof -
  assume inv: "pool_inv F pool st"
  have "distinct (map fst (ps_forward (drop_domain d st)))" "distinct (map fst (ps_reverse (drop_domain d st)))"
    using pool_invD(1,2) [OF inv] by (auto simp: drop_domain_def split: option.splits)
  moreover have "map_of (ps_reverse (drop_domain d st)) (im_address m) = Some d'"
    if "map_of (ps_forward st) d' = Some m" "d' \<noteq> d" for d' m
    using pool_invD(3) [OF inv that(1)] that(2) by (simp add: drop_domain_reverse_inv [OF inv])
  moreover have "\<exists>m. map_of (ps_forward st) d' = Some m \<and> im_address m = a \<and> d' \<noteq> d"
    if "map_of (ps_reverse (drop_domain d st)) a = Some d'" for a d'
    using that pool_invD(6) [OF inv, of a d'] by (auto simp: drop_domain_reverse_inv [OF inv] split: if_splits)
  ultimately show "pool_inv F pool (drop_domain d st)"
    using pool_invD(4,5,7) [OF inv] unfolding pool_inv_def by (fastforce split: if_splits)
qed

lemma pool_inv_fold_drop: "pool_inv F pool st \<Longrightarrow> pool_inv F pool (fold drop_domain ds st)"
  by (induction ds arbitrary: st) (auto intro: pool_inv_drop)

lemma fold_drop_forward:
  "map_of (ps_forward (fold drop_domain ds st)) d = (if d \<in> set ds then None else map_of (ps_forward st) d)"
  by (induction ds arbitrary: st) auto

lemma fold_drop_other [simp]:
  "ps_next (fold drop_domain ds st) = ps_next st" "ps_reserved (fold drop_domain ds st) = ps_reserved st"
  by (induction ds arbitrary: st) auto

lemma put_mapping_simps [simp]:
  "map_of (ps_forward (put_mapping d m st)) = (map_of (ps_forward st))(d \<mapsto> m)"
  "map_of (ps_reverse (put_mapping d m st)) = (map_of (ps_reverse st))(im_address m \<mapsto> d)"
  "ps_next (put_mapping d m st) = ps_next st" "ps_reserved (put_mapping d m st) = ps_reserved st"
  by (simp_all add: put_mapping_def)

text \<open>A mapping whose domain and address are both new, or that keeps the pair.\<close>

lemma pool_inv_put:
  assumes "pool_inv F pool st" "config_contains F (pl_config pool) (im_address m)" "valid_domain d"
    and "\<And>m'. map_of (ps_forward st) d = Some m' \<Longrightarrow> im_address m' = im_address m"
    and "\<And>d'. map_of (ps_reverse st) (im_address m) = Some d' \<Longrightarrow> d' = d"
  shows "pool_inv F pool (put_mapping d m st)"
proof -
  have "distinct (map fst (ps_forward (put_mapping d m st)))" "distinct (map fst (ps_reverse (put_mapping d m st)))"
    using pool_invD(1,2) [OF assms(1)] by (simp_all add: put_mapping_def distinct_update)
  moreover have "\<exists>m'. ((map_of (ps_forward st))(d \<mapsto> m)) d' = Some m' \<and> im_address m' = a"
    if "((map_of (ps_reverse st))(im_address m \<mapsto> d)) a = Some d'" for a d'
  proof (cases "a = im_address m")
    case False
    with that have rev: "map_of (ps_reverse st) a = Some d'"
      by simp
    then obtain m' where "map_of (ps_forward st) d' = Some m'" "im_address m' = a"
      using pool_invD(6) [OF assms(1)] by blast
    with False assms(4) show ?thesis
      by (metis fun_upd_apply)
  qed (use that in auto)
  moreover have "((map_of (ps_reverse st))(im_address m \<mapsto> d)) (im_address m') = Some d'"
    if "((map_of (ps_forward st))(d \<mapsto> m)) d' = Some m'" for d' m'
    using that pool_invD(3) [OF assms(1), of d' m'] assms(5) by (auto split: if_splits)
  ultimately show ?thesis
    using assms(2,3) pool_invD(4,5,7) [OF assms(1)] unfolding pool_inv_def by (simp split: if_splits)
qed

lemma touch_mapping_simps [simp]:
  "map_of (ps_forward (touch_mapping d f st)) d' =
     (if d' = d then map_option f (map_of (ps_forward st) d) else map_of (ps_forward st) d')"
  "ps_reverse (touch_mapping d f st) = ps_reverse st"
  "ps_next (touch_mapping d f st) = ps_next st" "ps_reserved (touch_mapping d f st) = ps_reserved st"
  by (auto simp: touch_mapping_def split: option.splits)

lemma pool_inv_touch:
  assumes "pool_inv F pool st" "\<And>m. im_address (f m) = im_address m"
  shows "pool_inv F pool (touch_mapping d f st)"
proof -
  have "distinct (map fst (ps_forward (touch_mapping d f st)))"
    using pool_invD(1) [OF assms(1)] by (auto simp: touch_mapping_def distinct_update split: option.splits)
  moreover have "\<exists>m. map_of (ps_forward (touch_mapping d f st)) d' = Some m \<and> im_address m = a"
    if "map_of (ps_reverse st) a = Some d'" for a d'
    using pool_invD(6) [OF assms(1) that] assms(2) by (auto simp del: map_of_eq_Some_iff)
  ultimately show ?thesis
    using assms(2) pool_invD(2-5,7) [OF assms(1)]
    by (intro pool_invI) (auto simp del: map_of_eq_Some_iff split: if_splits)
qed

subsection \<open>The rows of a pool\<close>

definition scope_row :: "config_db \<Rightarrow> int \<Rightarrow> string \<Rightarrow> domain_name \<Rightarrow> fakeip_entry option" where
  "scope_row db family pfx d = find (\<lambda>e. in_scope family pfx e \<and> fe_domain e = d) (db_entries db)"

lemma find_filter_keep: "find P xs = Some x \<Longrightarrow> Q x \<Longrightarrow> find P (filter Q xs) = Some x"
  by (induction xs) (auto split: if_splits)

lemma find_filter_same: "(\<And>x. P x \<Longrightarrow> Q x) \<Longrightarrow> find P (filter Q xs) = find P xs"
  by (induction xs) auto

lemma find_filter_none: "(\<And>x. P x \<Longrightarrow> \<not> Q x) \<Longrightarrow> find P (filter Q xs) = None"
  by (induction xs) auto

lemma find_append: "find P (xs @ ys) = (case find P xs of None \<Rightarrow> find P ys | Some x \<Rightarrow> Some x)"
  by (induction xs) auto

lemma find_map_same:
  "(\<And>x. P (f x) = P x) \<Longrightarrow> find P (map f xs) = map_option f (find P xs)"
  by (induction xs) auto

lemma scope_row_delete:
  "scope_row (sql_delete_domain f p d db) f p d' = (if d' = d then None else scope_row db f p d')"
proof (cases "d' = d")
  case True
  then show ?thesis
    unfolding scope_row_def sql_delete_domain_def by (simp, intro find_filter_none) simp
next
  case False
  then show ?thesis
    unfolding scope_row_def sql_delete_domain_def by (simp, intro find_filter_same) simp
qed

lemma scope_row_cursor [simp]: "scope_row (sql_replace_cursor c db) f p d = scope_row db f p d"
  by (simp add: scope_row_def sql_replace_cursor_def)

lemma scope_row_config [simp]:
  "scope_row (sql_delete_config k db) f p d = scope_row db f p d"
  "scope_row (sql_put_config k v db) f p d = scope_row db f p d"
  by (simp_all add: scope_row_def sql_delete_config_def sql_put_config_def)

lemma scope_row_fold_config [simp]: "scope_row (fold sql_delete_config ks db) f p d = scope_row db f p d"
  by (induction ks arbitrary: db) simp_all

lemma scope_row_touch:
  "scope_row (sql_touch f p d t db) f p d' =
     (if d' = d then map_option (\<lambda>e. e\<lparr>fe_last_used_at := t\<rparr>) (scope_row db f p d) else scope_row db f p d')"
proof -
  let ?g = "\<lambda>e. if in_scope f p e \<and> fe_domain e = d then e\<lparr>fe_last_used_at := t\<rparr> else e"
  have "find (\<lambda>e. in_scope f p e \<and> fe_domain e = d') (map ?g xs)
      = map_option ?g (find (\<lambda>e. in_scope f p e \<and> fe_domain e = d') xs)" for xs
    by (rule find_map_same) (auto simp: in_scope_def)
  moreover have "map_option ?g (find (\<lambda>e. in_scope f p e \<and> fe_domain e = d') xs) =
      (if d' = d then map_option (\<lambda>e. e\<lparr>fe_last_used_at := t\<rparr>) (find (\<lambda>e. in_scope f p e \<and> fe_domain e = d') xs)
       else find (\<lambda>e. in_scope f p e \<and> fe_domain e = d') xs)" for xs
    by (induction xs) auto
  ultimately show ?thesis
    by (simp add: scope_row_def sql_touch_def)
qed

lemma scope_row_delete_domains:
  "scope_row (fst (delete_domains f p ds db n)) f p d = (if d \<in> set ds then None else scope_row db f p d)"
  by (induction f p ds db n rule: delete_domains.induct) (auto simp: Let_def scope_row_delete)

lemma scope_row_replaced:
  assumes "scope_row db f p d = Some e" "fe_ip e \<noteq> fe_ip entry" "d \<noteq> fe_domain entry" "evicted \<noteq> Some d"
    and "fe_family entry = f" "fe_prefix entry = p"
  shows "scope_row (db\<lparr>db_entries := replaced_entries entry evicted (db_entries db)\<rparr>) f p d = Some e"
proof -
  have "fe_domain e = d"
    using assms(1) by (auto simp: scope_row_def find_Some_iff)
  then have "find (\<lambda>e. in_scope f p e \<and> fe_domain e = d)
      (filter (\<lambda>e. \<not> same_row entry e
         \<and> \<not> (in_scope (fe_family entry) (fe_prefix entry) e \<and> evicted = Some (fe_domain e))) (db_entries db)) = Some e"
    using assms by (intro find_filter_keep) (auto simp: scope_row_def same_row_def)
  then show ?thesis
    by (simp add: scope_row_def replaced_entries_def find_append)
qed

lemma scope_row_replaced_new:
  assumes "fe_family entry = f" "fe_prefix entry = p"
  shows "scope_row (db\<lparr>db_entries := replaced_entries entry evicted (db_entries db)\<rparr>) f p (fe_domain entry) = Some entry"
proof -
  have "find (\<lambda>e. in_scope f p e \<and> fe_domain e = fe_domain entry)
      (filter (\<lambda>e. \<not> same_row entry e
         \<and> \<not> (in_scope (fe_family entry) (fe_prefix entry) e \<and> evicted = Some (fe_domain e))) (db_entries db)) = None"
    using assms by (intro find_filter_none) (auto simp: same_row_def)
  then show ?thesis
    using assms by (simp add: scope_row_def replaced_entries_def find_append in_scope_def)
qed

text \<open>Every live mapping has its row: address, creation time and the last persisted use.\<close>

definition row_matches :: "'w pool_family \<Rightarrow> 'w ip_mapping \<Rightarrow> fakeip_entry \<Rightarrow> bool" where
  "row_matches F m e \<longleftrightarrow> fe_ip e = pf_octets F (im_address m) \<and> fe_created_at e = im_created_at m
     \<and> fe_last_used_at e = im_persisted_last_used_at m"

definition persisted :: "'w pool_family \<Rightarrow> 'w fakeip_pool \<Rightarrow> 'w pool_state \<Rightarrow> config_db \<Rightarrow> bool" where
  "persisted F pool st db \<longleftrightarrow>
     (\<forall>d m. map_of (ps_forward st) d = Some m \<longrightarrow>
        (\<exists>e. scope_row db (pf_family F) (pl_prefix pool) d = Some e \<and> row_matches F m e))"

lemma persistedD:
  "persisted F pool st db \<Longrightarrow> map_of (ps_forward st) d = Some m \<Longrightarrow>
     \<exists>e. scope_row db (pf_family F) (pl_prefix pool) d = Some e \<and> row_matches F m e"
  by (simp add: persisted_def)

subsection \<open>What a pool needs of its address family\<close>

locale address_family =
  fixes F :: "'w pool_family"
  assumes addr_num [simp]: "pf_addr F (pf_num F a) = a"
    and num_addr: "n < 2 ^ (8 * pf_ip_len F) \<Longrightarrow> pf_num F (pf_addr F n) = n"
    and num_less: "pf_num F a < 2 ^ (8 * pf_ip_len F)"
    and from_octets [simp]: "pf_from_octets F (pf_octets F a) = a"
    and octets_from: "length bs = pf_ip_len F \<Longrightarrow> pf_octets F (pf_from_octets F bs) = bs"
    and length_octets [simp]: "length (pf_octets F a) = pf_ip_len F"
    and family: "pf_family F = 4 \<or> pf_family F = 6"
    and range_size: "pf_size F c = Inr sz \<Longrightarrow> pf_num F (fr_start c) \<le> pf_num F (fr_end c) \<Longrightarrow>
      sz = pf_num F (fr_end c) - pf_num F (fr_start c) + 1 \<and> sz < 2 ^ pf_bits F"
begin

lemma pf_octets_inj: "pf_octets F a = pf_octets F b \<longleftrightarrow> a = b"
  by (metis from_octets)

lemma num_inj: "pf_num F a = pf_num F b \<longleftrightarrow> a = b"
  by (metis addr_num)

lemma contains_offset:
  assumes "pf_size F c = Inr sz" "pf_num F (fr_start c) \<le> pf_num F (fr_end c)"
  shows "config_contains F c (pf_addr F (pf_num F (fr_start c) + x mod sz))"
    "pf_num F (pf_addr F (pf_num F (fr_start c) + x mod sz)) = pf_num F (fr_start c) + x mod sz"
proof -
  have sz: "sz = pf_num F (fr_end c) - pf_num F (fr_start c) + 1"
    using range_size [OF assms] by simp
  then have "x mod sz \<le> pf_num F (fr_end c) - pf_num F (fr_start c)"
    using mod_less_divisor [of sz x] by simp
  then have le: "pf_num F (fr_start c) + x mod sz \<le> pf_num F (fr_end c)"
    using assms(2) by simp
  also have "\<dots> < 2 ^ (8 * pf_ip_len F)"
    by (rule num_less)
  finally show n: "pf_num F (pf_addr F (pf_num F (fr_start c) + x mod sz)) = pf_num F (fr_start c) + x mod sz"
    by (rule num_addr)
  show "config_contains F c (pf_addr F (pf_num F (fr_start c) + x mod sz))"
    unfolding config_contains_def n using le by simp
qed

text \<open>The address a selection returns is in the range and free.\<close>

lemma select_address_free:
  assumes "pf_size F c = Inr sz" "pf_num F (fr_start c) \<le> pf_num F (fr_end c)"
    and "select_address F c st sz k = Some (Some a)"
  shows "config_contains F c a \<and> map_of (ps_reverse st) a = None \<and> map_of (ps_reserved st) a = None"
  using assms(3)
proof (induction "sz - k" arbitrary: k)
  case 0
  then show ?case
    by (simp add: select_address.simps)
next
  case (Suc n)
  let ?a = "pf_addr F (pf_num F (fr_start c) + (pf_num F (ps_next st) - pf_num F (fr_start c) + k) mod sz)"
  show ?case
  proof (cases "map_of (ps_reverse st) ?a = None \<and> map_of (ps_reserved st) ?a = None")
    case True
    then have "a = ?a"
      using Suc(3) by (subst (asm) select_address.simps) (simp add: Let_def split: if_splits)
    then show ?thesis
      using True contains_offset [OF assms(1,2)] by simp
  next
    case False
    then have "select_address F c st sz (Suc k) = Some (Some a)"
      using Suc(3) by (subst (asm) select_address.simps) (simp add: Let_def split: if_splits)
    then show ?thesis
      using Suc(1) [of "Suc k"] Suc(2) by simp
  qed
qed

text \<open>
  Without overflow the search ends, and it finds nothing only when every address of the range
  is taken.
\<close>

definition taken_at :: "'w fakeip_config \<Rightarrow> 'w pool_state \<Rightarrow> nat \<Rightarrow> nat \<Rightarrow> bool" where
  "taken_at c st sz j =
     (let a = pf_addr F (pf_num F (fr_start c) + (pf_num F (ps_next st) - pf_num F (fr_start c) + j) mod sz)
      in map_of (ps_reverse st) a \<noteq> None \<or> map_of (ps_reserved st) a \<noteq> None)"

lemma select_address_total:
  assumes "pf_size F c = Inr sz" "pf_num F (fr_start c) \<le> pf_num F (fr_end c)"
    and "config_contains F c (ps_next st)" "2 * sz \<le> 2 ^ pf_bits F"
  shows "\<exists>r. select_address F c st sz k = Some r \<and> (r = None \<longrightarrow> (\<forall>j. k \<le> j \<and> j < sz \<longrightarrow> taken_at c st sz j))"
proof (induction "sz - k" arbitrary: k)
  case 0
  then show ?case
    by (auto simp: select_address.simps)
next
  case (Suc n)
  have sz: "sz = pf_num F (fr_end c) - pf_num F (fr_start c) + 1"
    using range_size [OF assms(1,2)] by simp
  have "\<not> pf_num F (ps_next st) < pf_num F (fr_start c)" "\<not> k \<ge> sz"
    "\<not> pf_num F (ps_next st) - pf_num F (fr_start c) + k \<ge> 2 ^ pf_bits F"
    using assms(2-4) Suc(2) sz by (auto simp: config_contains_def)
  then have step: "taken_at c st sz k \<Longrightarrow> select_address F c st sz k = select_address F c st sz (Suc k)"
    "\<not> taken_at c st sz k \<Longrightarrow> \<exists>a. select_address F c st sz k = Some (Some a)"
    by (auto simp: select_address.simps [of F c st sz k] Let_def taken_at_def)
  have "n = sz - Suc k"
    using Suc(2) by simp
  from Suc(1) [OF this] obtain r where "select_address F c st sz (Suc k) = Some r"
    "r = None \<longrightarrow> (\<forall>j. Suc k \<le> j \<and> j < sz \<longrightarrow> taken_at c st sz j)"
    by blast
  with step show ?case
    by (cases "taken_at c st sz k") (auto, metis Suc_leI le_neq_implies_less)
qed

lemma range_covered:
  assumes "pf_size F c = Inr sz" "pf_num F (fr_start c) \<le> pf_num F (fr_end c)"
    and "config_contains F c nx" "config_contains F c a"
  shows "\<exists>j < sz. a = pf_addr F (pf_num F (fr_start c) + (pf_num F nx - pf_num F (fr_start c) + j) mod sz)"
proof -
  let ?s = "pf_num F (fr_start c)"
  have sz: "sz = pf_num F (fr_end c) - ?s + 1"
    using range_size [OF assms(1,2)] by simp
  define x where "x = pf_num F a - ?s"
  define y where "y = pf_num F nx - ?s"
  have xy: "x < sz" "y < sz" "pf_num F a = ?s + x"
    using assms(3,4) sz by (auto simp: config_contains_def x_def y_def)
  let ?j = "(x + (sz - y)) mod sz"
  have "(y + ?j) mod sz = (y + (x + (sz - y))) mod sz"
    by (simp add: mod_add_right_eq)
  also have "y + (x + (sz - y)) = x + sz"
    using xy(2) by simp
  finally have "(y + ?j) mod sz = x"
    using xy(1) by simp
  moreover have "?j < sz"
    using xy(1) by simp
  ultimately show ?thesis
    using xy(3) by (metis addr_num y_def)
qed

lemma select_address_exhausted:
  assumes "pf_size F c = Inr sz" "pf_num F (fr_start c) \<le> pf_num F (fr_end c)"
    and "config_contains F c (ps_next st)" "2 * sz \<le> 2 ^ pf_bits F"
  shows "\<exists>r. select_address F c st sz 0 = Some r
    \<and> (r = None \<longleftrightarrow> (\<forall>a. config_contains F c a \<longrightarrow> map_of (ps_reverse st) a \<noteq> None \<or> map_of (ps_reserved st) a \<noteq> None))"
proof -
  obtain r where r: "select_address F c st sz 0 = Some r"
    and none: "r = None \<Longrightarrow> j < sz \<Longrightarrow> taken_at c st sz j" for j
    using select_address_total [OF assms, of 0] by auto
  have "map_of (ps_reverse st) a \<noteq> None \<or> map_of (ps_reserved st) a \<noteq> None"
    if "r = None" "config_contains F c a" for a
    using range_covered [OF assms(1-3) that(2)] none [OF that(1)] by (auto simp: Let_def taken_at_def)
  moreover have "\<exists>a. config_contains F c a \<and> map_of (ps_reverse st) a = None \<and> map_of (ps_reserved st) a = None"
    if "r \<noteq> None"
    using that select_address_free [OF assms(1,2), of st 0] r by auto
  ultimately have "r = None \<longleftrightarrow>
      (\<forall>a. config_contains F c a \<longrightarrow> map_of (ps_reverse st) a \<noteq> None \<or> map_of (ps_reserved st) a \<noteq> None)"
    by blast
  with r show ?thesis
    by blast
qed

end

interpretation v4: address_family family_v4
proof unfold_locales
  fix c sz
  assume "pf_size family_v4 c = Inr sz" and le: "pf_num family_v4 (fr_start c) \<le> pf_num family_v4 (fr_end c)"
  then have sz: "sz = unat (fr_end c - fr_start c) + 1"
    by (simp add: family_v4_def fakeip_config_size_def)
  have "unat (fr_end c - fr_start c) = unat (fr_end c) - unat (fr_start c)"
    using le by (simp add: family_v4_def unat_sub word_le_nat_alt)
  moreover have "unat (fr_end c) < 2 ^ 32"
    using unsigned_less [of "fr_end c", where ?'a = nat] by simp
  ultimately show "sz = pf_num family_v4 (fr_end c) - pf_num family_v4 (fr_start c) + 1 \<and> sz < 2 ^ pf_bits family_v4"
    by (simp add: sz family_v4_def)
qed (auto simp: family_v4_def pf_ip_len_def family_ip_len_def to_from_be32 unat_of_nat unsigned_less
    intro: order_less_le_trans [OF unsigned_less])

interpretation v6: address_family family_v6
proof unfold_locales
  fix c sz
  assume "pf_size family_v6 c = Inr sz"
  then show "sz = pf_num family_v6 (fr_end c) - pf_num family_v6 (fr_start c) + 1 \<and> sz < 2 ^ pf_bits family_v6"
    by (simp add: family_v6_def fakeip_v6_config_size_def split: if_splits)
qed (auto simp: family_v6_def pf_ip_len_def family_ip_len_def to_from_be128 unat_of_nat unsigned_less
    intro: order_less_le_trans [OF unsigned_less])

end
