(* ===== verification/Fakeip_Reach.thy ===== *)
theory Fakeip_Reach
  imports Fakeip_Pool
begin

text \<open>
  The states and tables a FakeIP pool can reach, whatever the database answers: the invariant
  of the pool and its rows, what an allocation hands out, the capacity, and what survives a
  restart, at both address widths.
\<close>

subsection \<open>Every operation keeps state and rows together\<close>

definition pool_good :: "'w pool_family \<Rightarrow> 'w fakeip_pool \<Rightarrow> 'w pool_state \<Rightarrow> config_db \<Rightarrow> bool" where
  "pool_good F pool st db \<longleftrightarrow> pool_inv F pool st \<and> persisted F pool st db \<and> db_ok db"

lemma pool_good_reserved [simp]: "pool_good F pool (st\<lparr>ps_reserved := r\<rparr>) db = pool_good F pool st db"
  by (simp add: pool_good_def persisted_def)

definition rows_canonical :: "'w pool_family \<Rightarrow> 'w fakeip_pool \<Rightarrow> config_db \<Rightarrow> bool" where
  "rows_canonical F pool db \<longleftrightarrow>
     (\<forall>e \<in> set (db_entries db). in_scope (pf_family F) (pl_prefix pool) e \<longrightarrow> valid_domain (fe_domain e))"

text \<open>
  The states and tables a pool can reach, whatever the database answers. With \<open>imp\<close> also
  through imports of legacy snapshots.
\<close>

inductive pool_reach :: "'w pool_family \<Rightarrow> 'w fakeip_pool \<Rightarrow> bool \<Rightarrow> 'w pool_state \<Rightarrow> config_db \<Rightarrow> bool"
  for F :: "'w pool_family" and pool :: "'w fakeip_pool" and imp :: bool where
  opened: "db_ok db \<Longrightarrow> rows_canonical F pool db \<Longrightarrow>
    open_with_prefix F faults now db pool = Some (db1, Inr st) \<Longrightarrow> pool_reach F pool imp st db1"
| allocated: "pool_reach F pool imp st db \<Longrightarrow> valid_domain d \<Longrightarrow>
    allocate_at F pool faults d now st db = Some (st1, db1, r) \<Longrightarrow> pool_reach F pool imp st1 db1"
| released: "pool_reach F pool imp st db \<Longrightarrow>
    pool_release F pool fault d st db = Some (st1, db1, rr) \<Longrightarrow> pool_reach F pool imp st1 db1"
| flushed: "pool_reach F pool imp st db \<Longrightarrow>
    flush_touches F pool fault st db = Some (st1, db1, rf) \<Longrightarrow> pool_reach F pool imp st1 db1"
| imported: "imp \<Longrightarrow> pool_reach F pool imp st db \<Longrightarrow> (\<And>d a. (d, a) \<in> set es \<Longrightarrow> valid_domain d) \<Longrightarrow>
    import_legacy F pool fault marker es nx now st db = Some (st1, db1, ri) \<Longrightarrow> pool_reach F pool imp st1 db1"

text \<open>Rows of dropped domains may go; the others stay.\<close>

lemma pool_good_delete:
  assumes "pool_good F pool st db"
    and "delete_fakeip_entries fault db (pf_family F) (pl_prefix pool) ds = (db1, Inr n)"
  shows "pool_good F pool (fold drop_domain ds st) db1"
proof -
  have db1: "db1 = fst (delete_domains (pf_family F) (pl_prefix pool) ds db 0)"
    using delete_fakeip_entries_cases [OF assms(2)] by auto
  then have "persisted F pool (fold drop_domain ds st) db1"
    using assms(1) by (simp add: pool_good_def persisted_def scope_row_delete_domains fold_drop_forward)
  with assms(1) db1 show ?thesis
    by (auto simp: pool_good_def intro: pool_inv_fold_drop)
qed

lemma delete_fakeip_entries_err: "delete_fakeip_entries fault db f p ds = (db1, Inl e) \<Longrightarrow> db1 = db"
  using delete_fakeip_entries_cases by fastforce

lemma touch_fakeip_entries_err: "touch_fakeip_entries fault db f p ts = (db1, Inl e) \<Longrightarrow> db1 = db"
  using touch_fakeip_entries_cases by fastforce

lemma scope_row_touch_domains:
  "distinct (map fst ts) \<Longrightarrow>
   scope_row (fst (touch_domains f p ts db n)) f p d =
     (case map_of ts d of None \<Rightarrow> scope_row db f p d
      | Some t \<Rightarrow> map_option (\<lambda>e. e\<lparr>fe_last_used_at := t\<rparr>) (scope_row db f p d))"
proof (induction f p ts db n rule: touch_domains.induct)
  case (2 f p d' t ts db n)
  have "map_of ts d' = None"
    using "2.prems" by (simp add: map_of_eq_None_iff)
  with 2 show ?case
    by (cases "d = d'"; cases "map_of ts d") (simp_all add: scope_row_touch)
qed simp

text \<open>Touching: the row of a domain and its persisted time move together.\<close>

lemma persisted_touch:
  assumes "persisted F pool st db"
    and "\<And>d. scope_row db1 (pf_family F) (pl_prefix pool) d =
      (case ts d of None \<Rightarrow> scope_row db (pf_family F) (pl_prefix pool) d
       | Some t \<Rightarrow> map_option (\<lambda>e. e\<lparr>fe_last_used_at := t\<rparr>) (scope_row db (pf_family F) (pl_prefix pool) d))"
    and "\<And>d m. map_of (ps_forward st1) d = Some m \<Longrightarrow>
      \<exists>m0. map_of (ps_forward st) d = Some m0 \<and> im_address m = im_address m0 \<and> im_created_at m = im_created_at m0
        \<and> im_persisted_last_used_at m = (case ts d of None \<Rightarrow> im_persisted_last_used_at m0 | Some t \<Rightarrow> t)"
  shows "persisted F pool st1 db1"
  unfolding persisted_def
proof (intro allI impI)
  fix d m
  assume "map_of (ps_forward st1) d = Some m"
  then obtain m0 where m0: "map_of (ps_forward st) d = Some m0" "im_address m = im_address m0"
    "im_created_at m = im_created_at m0"
    "im_persisted_last_used_at m = (case ts d of None \<Rightarrow> im_persisted_last_used_at m0 | Some t \<Rightarrow> t)"
    using assms(3) by blast
  obtain e where e: "scope_row db (pf_family F) (pl_prefix pool) d = Some e" "row_matches F m0 e"
    using persistedD [OF assms(1) m0(1)] by blast
  show "\<exists>e. scope_row db1 (pf_family F) (pl_prefix pool) d = Some e \<and> row_matches F m e"
    using e m0 assms(2) [of d] by (cases "ts d") (auto simp: row_matches_def)
qed

context address_family
begin

text \<open>The new mapping and its row.\<close>

lemma store_new_good:
  assumes good: "pool_good F pool st db" and dom: "valid_domain domain" "map_of (ps_forward st) domain = None"
    and a: "config_contains F (pl_config pool) a" "config_contains F (pl_config pool) nx"
    and free: "ev = None \<Longrightarrow> map_of (ps_reverse st) a = None"
    and evict: "\<And>d. ev = Some d \<Longrightarrow> map_of (ps_reverse st) a = Some d"
    and res: "store_new F pool fault domain now st db (a, ev) nx = (st1, db1, r)"
  shows "pool_good F pool st1 db1 \<and> (\<forall>a'. r = Inr a' \<longrightarrow> a' = a \<and> map_of (ps_forward st1) domain = Some (new_mapping a now))"
proof (cases "replace_fakeip_entry fault db (new_entry F pool domain a now) (pool_cursor F pool nx now) ev")
  case (Pair db2 r2)
  let ?entry = "new_entry F pool domain a now"
  have inv: "pool_inv F pool st" and per: "persisted F pool st db" and ok: "db_ok db"
    using good by (simp_all add: pool_good_def)
  consider (err) e where "r2 = Inl e" "db2 = db" | (stored) "r2 = Inr ()"
    "db2 = sql_replace_cursor (pool_cursor F pool nx now) (db\<lparr>db_entries := replaced_entries ?entry ev (db_entries db)\<rparr>)"
    using replace_fakeip_entry_cases [OF Pair] by (auto simp: new_entry_def pool_cursor_def)
  then show ?thesis
  proof cases
    case err
    with Pair res good show ?thesis
      by (auto simp: store_new_def)
  next
    case stored
    let ?st0 = "case ev of None \<Rightarrow> st | Some d \<Rightarrow> drop_domain d st"
    have st1: "st1 = put_mapping domain (new_mapping a now) (?st0\<lparr>ps_next := nx\<rparr>)" "db1 = db2" "r = Inr a"
      using stored Pair res by (simp_all add: store_new_def Let_def)
    have fwd: "map_of (ps_forward ?st0) d = (if ev = Some d then None else map_of (ps_forward st) d)" for d
      by (cases ev) auto
    have rev: "map_of (ps_reverse ?st0) a = None"
      using free evict drop_domain_reverse_inv [OF inv] by (cases ev) auto
    have "pool_inv F pool ?st0"
      using inv by (cases ev) (auto intro: pool_inv_drop)
    then have inv1: "pool_inv F pool st1"
      using a dom rev fwd unfolding st1
      by (intro pool_inv_put pool_inv_next) (auto simp: new_mapping_def split: if_splits)
    have "persisted F pool st1 db1"
      unfolding persisted_def
    proof (intro allI impI)
      fix d m
      assume m: "map_of (ps_forward st1) d = Some m"
      show "\<exists>e. scope_row db1 (pf_family F) (pl_prefix pool) d = Some e \<and> row_matches F m e"
      proof (cases "d = domain")
        case True
        then show ?thesis
          using m scope_row_replaced_new [of ?entry "pf_family F" "pl_prefix pool" ev db]
          by (auto simp: st1 stored new_entry_def new_mapping_def row_matches_def)
      next
        case False
        then have m: "map_of (ps_forward st) d = Some m" "ev \<noteq> Some d"
          using m fwd [of d] by (auto simp: st1 split: if_splits)
        obtain e where e: "scope_row db (pf_family F) (pl_prefix pool) d = Some e" "row_matches F m e"
          using persistedD [OF per m(1)] by blast
        have "im_address m \<noteq> a"
          using pool_invD(3) [OF inv m(1)] free evict m(2) by (cases ev) auto
        then have "fe_ip e \<noteq> fe_ip ?entry"
          using e(2) by (simp add: row_matches_def new_entry_def pf_octets_inj)
        from scope_row_replaced [OF e(1) this] False m(2) e(2) show ?thesis
          by (simp add: st1 stored new_entry_def)
      qed
    qed
    with inv1 ok show ?thesis
      by (auto simp: pool_good_def st1 stored intro: db_ok_replaced)
  qed
qed

lemma choose_address_ok:
  assumes "pool_inv F pool st" "config_ok F pool" "pf_size F (pl_config pool) = Inr sz"
    and "choose_address F pool st sz = Some (Inr (a, ev))"
  shows "config_contains F (pl_config pool) a \<and> (ev = None \<longrightarrow> map_of (ps_reverse st) a = None)
    \<and> (\<forall>d. ev = Some d \<longrightarrow> map_of (ps_reverse st) a = Some d)"
proof (cases "length (ps_forward st) \<ge> fo_max_entries (pl_options pool)")
  case True
  then obtain d m where dm: "min_by_key (\<lambda>dm. im_last_used_at (snd dm)) (ps_forward st) = Some (d, m)"
    "a = im_address m" "ev = Some d"
    using assms(4) by (auto simp: choose_address_def split: option.splits)
  then have "map_of (ps_forward st) d = Some m"
    using min_by_key_in pool_invD(1) [OF assms(1)] by fastforce
  then show ?thesis
    using dm pool_invD(3,4) [OF assms(1)] by auto
next
  case False
  then have "select_address F (pl_config pool) st sz 0 = Some (Some a)" "ev = None"
    using assms(4) by (auto simp: choose_address_def split: option.splits)
  then show ?thesis
    using select_address_free [OF assms(3)] assms(2) by (auto simp: config_ok_def)
qed

lemma next_address_ok:
  assumes "config_ok F pool" "pf_size F (pl_config pool) = Inr sz"
    and "next_address F (pl_config pool) sz a = Some nx"
  shows "config_contains F (pl_config pool) nx"
  using assms contains_offset(1) [OF assms(2)] by (auto simp: next_address_def config_ok_def split: if_splits)

lemma allocate_new_good:
  assumes good: "pool_good F pool st db" and dom: "valid_domain domain" "map_of (ps_forward st) domain = None"
    and cfg: "config_ok F pool" and res: "allocate_new F pool faults domain now st db = Some (st1, db1, r)"
  shows "pool_good F pool st1 db1 \<and> (\<forall>a. r = Inr a \<longrightarrow> map_of (ps_forward st1) domain = Some (new_mapping a now))"
proof -
  let ?ex = "expired_domains pool now st"
  obtain db2 r2 where del: "(if ?ex \<noteq> [] then delete_fakeip_entries (faults 1) db (pf_family F) (pl_prefix pool) ?ex
      else (db, Inr 0)) = (db2, r2)"
    by fastforce
  show ?thesis
  proof (cases r2)
    case (Inl e)
    then show ?thesis
      using del res good by (auto simp: allocate_new_def Let_def dest!: delete_fakeip_entries_err split: if_splits)
  next
    case (Inr n)
    let ?st = "fold drop_domain ?ex st"
    have good2: "pool_good F pool ?st db2"
      using Inr del good pool_good_delete [OF good, of "faults 1" ?ex db2 n] by (auto split: if_splits)
    then have inv2: "pool_inv F pool ?st"
      by (simp add: pool_good_def)
    have dom2: "map_of (ps_forward ?st) domain = None"
      using dom(2) by (simp add: fold_drop_forward)
    consider (err) e where "st1 = ?st" "db1 = db2" "r = Inl e"
      | (new) sz a ev nx where "pf_size F (pl_config pool) = Inr sz" "choose_address F pool ?st sz = Some (Inr (a, ev))"
        "next_address F (pl_config pool) sz a = Some nx" "store_new F pool (faults 2) domain now ?st db2 (a, ev) nx = (st1, db1, r)"
      using res del Inr by (auto simp: allocate_new_def Let_def split: sum.splits option.splits prod.splits)
    then show ?thesis
    proof cases
      case new
      note choice = choose_address_ok [OF inv2 cfg new(1,2)]
      show ?thesis
        using store_new_good [OF good2 dom(1) dom2 _ next_address_ok [OF cfg new(1,3)] _ _ new(4)] choice by blast
    qed (use good2 in auto)
  qed
qed

lemma pool_good_touch:
  assumes good: "pool_good F pool st db"
    and f: "\<And>m. im_address (f m) = im_address m \<and> im_created_at (f m) = im_created_at m"
    and rows: "\<And>d. scope_row db1 (pf_family F) (pl_prefix pool) d =
      (case ts d of None \<Rightarrow> scope_row db (pf_family F) (pl_prefix pool) d
       | Some t \<Rightarrow> map_option (\<lambda>e. e\<lparr>fe_last_used_at := t\<rparr>) (scope_row db (pf_family F) (pl_prefix pool) d))"
    and ts: "\<And>d'. d' \<noteq> d \<Longrightarrow> ts d' = None"
      "\<And>m. im_persisted_last_used_at (f m) = (case ts d of None \<Rightarrow> im_persisted_last_used_at m | Some t \<Rightarrow> t)"
    and ok: "db_ok db1"
  shows "pool_good F pool (touch_mapping d f st) db1"
proof -
  have "pool_inv F pool st" "persisted F pool st db"
    using good by (simp_all add: pool_good_def)
  moreover have "persisted F pool (touch_mapping d f st) db1"
    by (rule persisted_touch [OF \<open>persisted F pool st db\<close> rows])
      (use f ts in \<open>auto simp del: map_of_eq_Some_iff split: if_splits\<close>)
  ultimately show ?thesis
    using f ok by (simp add: pool_good_def pool_inv_touch)
qed

lemma allocate_at_good:
  assumes good: "pool_good F pool st db" and dom: "valid_domain domain" and cfg: "config_ok F pool"
    and res: "allocate_at F pool faults domain now st db = Some (st1, db1, r)"
  shows "pool_good F pool st1 db1 \<and> (\<forall>a. r = Inr a \<longrightarrow> map_option im_address (map_of (ps_forward st1) domain) = Some a)"
proof -
  let ?ttl = "fo_ttl_seconds (pl_options pool)"
  let ?st = "st\<lparr>ps_reserved := filter (\<lambda>al. \<not> expired_at (snd al) now ?ttl) (ps_reserved st)\<rparr>"
  have good0: "pool_good F pool ?st db"
    using good by simp
  have ok: "db_ok db"
    using good by (simp add: pool_good_def)
  show ?thesis
  proof (cases "map_of (ps_forward st) domain")
    case None
    with res have "allocate_new F pool faults domain now ?st db = Some (st1, db1, r)"
      by (simp add: allocate_at_def)
    from allocate_new_good [OF good0 dom _ cfg this] None show ?thesis
      by (auto simp: new_mapping_def)
  next
    case (Some m)
    let ?touch = "touch_fakeip_entries (faults 0) db (pf_family F) (pl_prefix pool) [(domain, now)]"
    let ?delete = "delete_fakeip_entries (faults 0) db (pf_family F) (pl_prefix pool) [domain]"
    consider (failed) e where "st1 = ?st" "r = Inl e" "db1 = db"
      | (touched) n where "?touch = (db1, Inr n)" "r = Inr (im_address m)"
        "st1 = touch_mapping domain (\<lambda>m. m\<lparr>im_persisted_last_used_at := now, im_last_used_at := now\<rparr>) ?st"
      | (used) "db1 = db" "r = Inr (im_address m)" "st1 = touch_mapping domain (\<lambda>m. m\<lparr>im_last_used_at := now\<rparr>) ?st"
      | (renewed) db2 n where "?delete = (db2, Inr n)"
        "allocate_new F pool faults domain now (drop_domain domain ?st) db2 = Some (st1, db1, r)"
      using res Some
      by (auto simp: allocate_at_def Let_def dest: touch_fakeip_entries_err delete_fakeip_entries_err
          split: if_splits prod.splits sum.splits)
    then show ?thesis
    proof cases
      case failed
      then show ?thesis
        using good0 by simp
    next
      case touched
      have db1: "db1 = fst (touch_domains (pf_family F) (pl_prefix pool) [(domain, now)] db 0)"
        using touch_fakeip_entries_cases [OF touched(1)] by auto
      have "pool_good F pool st1 db1"
        unfolding touched(3)
        by (rule pool_good_touch [OF good0, where ts = "[domain \<mapsto> now]"])
          (use ok in \<open>auto simp: db1 scope_row_touch\<close>)
      with touched Some show ?thesis
        by simp
    next
      case used
      have "pool_good F pool st1 db"
        unfolding used(3) by (rule pool_good_touch [OF good0, where ts = Map.empty]) (use ok in auto)
      with used Some show ?thesis
        by simp
    next
      case renewed
      have "pool_good F pool (drop_domain domain ?st) db2"
        using pool_good_delete [OF good0 renewed(1)] by simp
      from allocate_new_good [OF this dom _ cfg renewed(2)] show ?thesis
        by (auto simp: new_mapping_def)
    qed
  qed
qed

lemma pool_release_good:
  assumes "pool_good F pool st db" "pool_release F pool fault domain st db = Some (st1, db1, r)"
  shows "pool_good F pool st1 db1 \<and> (is_ok r \<longrightarrow> map_of (ps_forward st1) domain = None)"
  using assms pool_good_delete [OF assms(1), of fault "[domain]"]
  by (auto simp: pool_release_def is_ok_def dest: delete_fakeip_entries_err split: option.splits prod.splits sum.splits)

lemma mark_flushed_valid:
  "valid_domain (fst x) \<Longrightarrow>
   mark_flushed x st = touch_mapping (fst x) (\<lambda>m. m\<lparr>im_persisted_last_used_at := im_last_used_at m\<rparr>) st"
  by (simp add: mark_flushed_def domain_name_new_of_valid)

lemma fold_mark_flushed:
  "(\<And>x. x \<in> set ts \<Longrightarrow> valid_domain (fst x)) \<Longrightarrow>
   map_of (ps_forward (fold mark_flushed ts st)) d =
      (if d \<in> fst ` set ts then map_option (\<lambda>m. m\<lparr>im_persisted_last_used_at := im_last_used_at m\<rparr>) (map_of (ps_forward st) d)
       else map_of (ps_forward st) d)"
proof (induction ts arbitrary: st)
  case (Cons x ts)
  have "map_option (\<lambda>m. m\<lparr>im_persisted_last_used_at := im_last_used_at m\<rparr>)
      (map_option (\<lambda>m. m\<lparr>im_persisted_last_used_at := im_last_used_at m\<rparr>) y)
    = map_option (\<lambda>m. m\<lparr>im_persisted_last_used_at := im_last_used_at m\<rparr>) y" for y
    by (cases y) simp_all
  with Cons show ?case
    by (auto simp: mark_flushed_valid)
qed simp

lemma pool_inv_flushed:
  "(\<And>x. x \<in> set ts \<Longrightarrow> valid_domain (fst x)) \<Longrightarrow> pool_inv F pool st \<Longrightarrow> pool_inv F pool (fold mark_flushed ts st)"
  by (induction ts arbitrary: st) (simp_all add: mark_flushed_valid pool_inv_touch)

lemma flush_touches_good:
  assumes good: "pool_good F pool st db" and res: "flush_touches F pool fault st db = Some (st1, db1, r)"
  shows "pool_good F pool st1 db1"
proof (cases "touch_fakeip_entries fault db (pf_family F) (pl_prefix pool) (pending_touches st)")
  case (Pair db2 r2)
  let ?ts = "pending_touches st"
  have inv: "pool_inv F pool st" and per: "persisted F pool st db" and ok: "db_ok db"
    using good by (simp_all add: pool_good_def)
  have fst_ts: "map fst ?ts = map fst (filter (\<lambda>dm. im_last_used_at (snd dm) \<noteq> im_persisted_last_used_at (snd dm)) (ps_forward st))"
    by (simp add: pending_touches_def case_prod_unfold comp_def)
  then have dist: "distinct (map fst ?ts)"
    using pool_invD(1) [OF inv] by (simp add: distinct_map_filter)
  have mem: "map_of ?ts d = Some t \<longleftrightarrow>
      (\<exists>m. map_of (ps_forward st) d = Some m \<and> im_last_used_at m = t \<and> t \<noteq> im_persisted_last_used_at m)" for d t
    using dist pool_invD(1) [OF inv] by (auto simp: pending_touches_def)
  have valid: "valid_domain (fst x)" if "x \<in> set ?ts" for x
    using that mem [of "fst x" "snd x"] dist pool_invD(5) [OF inv] by auto
  show ?thesis
  proof (cases r2)
    case (Inl e)
    then show ?thesis
      using good res Pair by (auto simp: flush_touches_def dest: touch_fakeip_entries_err)
  next
    case (Inr n)
    have db1: "db1 = fst (touch_domains (pf_family F) (pl_prefix pool) ?ts db 0)" and st1: "st1 = fold mark_flushed ?ts st"
      using touch_fakeip_entries_cases [OF Pair] res Pair Inr by (auto simp: flush_touches_def)
    have "persisted F pool st1 db1"
    proof (rule persisted_touch [OF per, where ts = "map_of ?ts"])
      show "scope_row db1 (pf_family F) (pl_prefix pool) d =
        (case map_of ?ts d of None \<Rightarrow> scope_row db (pf_family F) (pl_prefix pool) d
         | Some t \<Rightarrow> map_option (\<lambda>e. e\<lparr>fe_last_used_at := t\<rparr>) (scope_row db (pf_family F) (pl_prefix pool) d))" for d
        unfolding db1 by (rule scope_row_touch_domains [OF dist])
    next
      fix d m
      assume m: "map_of (ps_forward st1) d = Some m"
      have dom: "d \<in> fst ` set ?ts \<longleftrightarrow> map_of ?ts d \<noteq> None"
        by (simp add: map_of_eq_None_iff)
      show "\<exists>m0. map_of (ps_forward st) d = Some m0 \<and> im_address m = im_address m0 \<and> im_created_at m = im_created_at m0
        \<and> im_persisted_last_used_at m = (case map_of ?ts d of None \<Rightarrow> im_persisted_last_used_at m0 | Some t \<Rightarrow> t)"
      proof (cases "map_of ?ts d")
        case None
        then show ?thesis
          using m dom by (simp add: st1 fold_mark_flushed [OF valid])
      next
        case (Some t)
        then show ?thesis
          using m dom mem [of d t] by (auto simp: st1 fold_mark_flushed [OF valid] simp del: map_of_eq_Some_iff)
      qed
    qed
    then show ?thesis
      using ok pool_inv_flushed [OF valid inv] by (auto simp: pool_good_def st1 db1)
  qed
qed

text \<open>Rows written by an import. No two rows written disagree on a domain or an address.\<close>

definition rows_agree :: "fakeip_entry list \<Rightarrow> fakeip_entry \<Rightarrow> bool" where
  "rows_agree rows e \<longleftrightarrow> (\<forall>e' \<in> set rows. (fe_domain e' = fe_domain e \<longrightarrow> e' = e)
     \<and> (fe_domain e' \<noteq> fe_domain e \<longrightarrow> fe_ip e' \<noteq> fe_ip e))"

lemma sql_replace_entry_alt:
  "sql_replace_entry e db = db\<lparr>db_entries := replaced_entries e None (db_entries db)\<rparr>"
  by (simp add: sql_replace_entry_def replaced_entries_def)

lemma scope_row_fold_keep:
  assumes "scope_row db f p (fe_domain e) = Some e" "\<forall>e' \<in> set rows. in_scope f p e'" "rows_agree rows e"
  shows "scope_row (fold sql_replace_entry rows db) f p (fe_domain e) = Some e"
  using assms
proof (induction rows arbitrary: db)
  case (Cons e' rows)
  have scope: "fe_family e' = f" "fe_prefix e' = p"
    using Cons.prems(2) by (simp_all add: in_scope_def)
  have "scope_row (sql_replace_entry e' db) f p (fe_domain e) = Some e"
  proof (cases "fe_domain e' = fe_domain e")
    case True
    then show ?thesis
      using Cons.prems(3) scope_row_replaced_new [OF scope, of None db]
      by (simp add: rows_agree_def sql_replace_entry_alt)
  next
    case False
    then show ?thesis
      using Cons.prems(3) scope_row_replaced [OF Cons.prems(1) _ _ _ scope, of None]
      by (auto simp: rows_agree_def sql_replace_entry_alt)
  qed
  with Cons show ?case
    by (simp add: rows_agree_def)
qed simp

lemma scope_row_fold_new:
  assumes "e \<in> set rows" "\<forall>e' \<in> set rows. in_scope f p e'" "rows_agree rows e"
  shows "scope_row (fold sql_replace_entry rows db) f p (fe_domain e) = Some e"
  using assms
proof (induction rows arbitrary: db)
  case (Cons e' rows)
  show ?case
  proof (cases "e' = e")
    case True
    have scope: "fe_family e = f" "fe_prefix e = p"
      using Cons.prems(1,2) by (auto simp: in_scope_def)
    have "scope_row (sql_replace_entry e db) f p (fe_domain e) = Some e"
      using scope_row_replaced_new [OF scope, of None db] by (simp add: sql_replace_entry_alt)
    from scope_row_fold_keep [OF this, of rows] Cons.prems True show ?thesis
      by (simp add: rows_agree_def)
  next
    case False
    with Cons show ?thesis
      by (simp add: rows_agree_def)
  qed
qed simp

lemma scope_row_imported [simp]:
  "scope_row (imported_db rows cursor keys marker db) f p d = scope_row (fold sql_replace_entry rows db) f p d"
  by (cases marker) (simp_all add: imported_db_def Let_def)

text \<open>A list of pairs to be mapped, in agreement with each other and with the state.\<close>

definition pairs_agree :: "'w fakeip_pool \<Rightarrow> 'w pool_state \<Rightarrow> (domain_name \<times> 'w) set \<Rightarrow> bool" where
  "pairs_agree pool st S \<longleftrightarrow> (\<forall>d a. (d, a) \<in> S \<longrightarrow>
     config_contains F (pl_config pool) a
     \<and> (\<forall>m. map_of (ps_forward st) d = Some m \<longrightarrow> im_address m = a)
     \<and> (\<forall>d'. map_of (ps_reverse st) a = Some d' \<longrightarrow> d' = d)
     \<and> (\<forall>d' a'. (d', a') \<in> S \<longrightarrow> (d' = d \<longleftrightarrow> a' = a)))"

lemma pairs_agreeD:
  assumes "pairs_agree pool st S" "(d, a) \<in> S"
  shows "config_contains F (pl_config pool) a"
    and "map_of (ps_forward st) d = Some m \<Longrightarrow> im_address m = a"
    and "map_of (ps_reverse st) a = Some d' \<Longrightarrow> d' = d"
    and "(d', a') \<in> S \<Longrightarrow> d' = d \<longleftrightarrow> a' = a"
  using assms unfolding pairs_agree_def by blast+

lemma pairs_agree_put:
  assumes "pairs_agree pool st S" "(d, a) \<in> S"
  shows "pairs_agree pool (put_mapping d (new_mapping a now) st) S"
  unfolding pairs_agree_def
proof (intro allI impI conjI)
  fix d1 a1
  assume S: "(d1, a1) \<in> S"
  note D = pairs_agreeD [OF assms(1) S] and same = pairs_agreeD(4) [OF assms S]
  show "config_contains F (pl_config pool) a1"
    by (rule D(1))
  show "im_address m = a1" if "map_of (ps_forward (put_mapping d (new_mapping a now) st)) d1 = Some m" for m
    using that D(2) same by (auto simp: new_mapping_def simp del: map_of_eq_Some_iff split: if_splits)
  show "d' = d1" if "map_of (ps_reverse (put_mapping d (new_mapping a now) st)) a1 = Some d'" for d'
    using that D(3) same by (auto simp: new_mapping_def simp del: map_of_eq_Some_iff split: if_splits)
  show "d' = d1 \<longleftrightarrow> a' = a1" if "(d', a') \<in> S" for d' a'
    using that D(4) by blast
qed

lemma fold_put_agree:
  assumes "pairs_agree pool st S" "pool_inv F pool st" "\<And>a d. (a, d) \<in> set ps \<Longrightarrow> (d, a) \<in> S \<and> valid_domain d"
  shows "pool_inv F pool (fold (\<lambda>(a, d). put_mapping d (new_mapping a now)) ps st)"
    and "map_of (ps_forward (fold (\<lambda>(a, d). put_mapping d (new_mapping a now)) ps st)) d = Some m \<Longrightarrow>
      (\<exists>a. (a, d) \<in> set ps \<and> m = new_mapping a now) \<or> (d \<notin> snd ` set ps \<and> map_of (ps_forward st) d = Some m)"
proof -
  show "pool_inv F pool (fold (\<lambda>(a, d). put_mapping d (new_mapping a now)) ps st)"
    using assms
  proof (induction ps arbitrary: st)
    case (Cons x ps)
    obtain a d where x: "x = (a, d)"
      by (cases x)
    then have S: "(d, a) \<in> S" "valid_domain d"
      using Cons.prems(3) by auto
    have "pool_inv F pool (put_mapping d (new_mapping a now) st)"
      using Cons.prems(2) S pairs_agreeD [OF Cons.prems(1) S(1)]
      by (intro pool_inv_put) (auto simp: new_mapping_def simp del: map_of_eq_Some_iff)
    then have "pool_inv F pool (fold (\<lambda>(a, d). put_mapping d (new_mapping a now)) ps (put_mapping d (new_mapping a now) st))"
      by (rule Cons.IH [OF pairs_agree_put [OF Cons.prems(1) S(1)]]) (rule Cons.prems(3), simp)
    then show ?case
      by (simp add: x)
  qed simp
  show "map_of (ps_forward (fold (\<lambda>(a, d). put_mapping d (new_mapping a now)) ps st)) d = Some m \<Longrightarrow>
      (\<exists>a. (a, d) \<in> set ps \<and> m = new_mapping a now) \<or> (d \<notin> snd ` set ps \<and> map_of (ps_forward st) d = Some m)"
  proof (induction ps arbitrary: st)
    case (Cons x ps)
    obtain a' d' where x: "x = (a', d')"
      by (cases x)
    with Cons.prems have "map_of (ps_forward (fold (\<lambda>(a, d). put_mapping d (new_mapping a now)) ps
        (put_mapping d' (new_mapping a' now) st))) d = Some m"
      by simp
    from Cons.IH [OF this] show ?case
      using x by (auto simp del: map_of_eq_Some_iff split: if_splits)
  qed simp
qed

lemma import_entries_ok:
  assumes "import_entries F pool st now es ips doms = Inr (ips1, rows)"
  shows "rows = map (\<lambda>(d, a). new_entry F pool d a now) es
    \<and> ips1 = fold (\<lambda>(d, a). AList.update a d) es ips
    \<and> pairs_agree pool st (set es)
    \<and> (\<forall>d a. (d, a) \<in> set es \<longrightarrow> (\<forall>d'. map_of ips a = Some d' \<longrightarrow> d' = d) \<and> (\<forall>a'. map_of doms d = Some a' \<longrightarrow> a' = a))"
  using assms
proof (induction es arbitrary: ips doms ips1 rows)
  case Nil
  then show ?case
    by (simp add: pairs_agree_def)
next
  case (Cons x es)
  obtain d a where x: "x = (d, a)"
    by (cases x)
  let ?ips = "AList.update a d ips" and ?doms = "AList.update d a doms"
  have conds: "config_contains F (pl_config pool) a"
    "\<not> (case map_of ips a of None \<Rightarrow> False | Some d' \<Rightarrow> d' \<noteq> d)"
    "\<not> (case map_of doms d of None \<Rightarrow> False | Some a' \<Rightarrow> a' \<noteq> a)"
    "\<not> (case map_of (ps_reverse st) a of None \<Rightarrow> False | Some d' \<Rightarrow> d' \<noteq> d)"
    "\<not> (case map_of (ps_forward st) d of None \<Rightarrow> False | Some m \<Rightarrow> im_address m \<noteq> a)"
    using Cons.prems by (simp_all add: x Let_def split: if_splits)
  have here: "config_contains F (pl_config pool) a" "map_of ips a = Some d' \<Longrightarrow> d' = d"
    "map_of doms d = Some a' \<Longrightarrow> a' = a" "map_of (ps_reverse st) a = Some d' \<Longrightarrow> d' = d"
    "map_of (ps_forward st) d = Some m \<Longrightarrow> im_address m = a" for d' a' m
    using conds by simp_all
  obtain rows' where rec: "import_entries F pool st now es ?ips ?doms = Inr (ips1, rows')"
    and rows: "rows = new_entry F pool d a now # rows'"
    using Cons.prems x by (auto simp: Let_def rbind_def split: if_splits sum.splits)
  note IH = Cons.IH [OF rec]
  have agree: "pairs_agree pool st (set es)"
    and later: "\<And>d1 a1. (d1, a1) \<in> set es \<Longrightarrow> (\<forall>d'. map_of ?ips a1 = Some d' \<longrightarrow> d' = d1) \<and> (\<forall>a'. map_of ?doms d1 = Some a' \<longrightarrow> a' = a1)"
    using IH by blast+
  have same: "d1 = d \<longleftrightarrow> a1 = a" if "(d1, a1) \<in> set es" for d1 a1
  proof
    show "a1 = a" if "d1 = d"
      using later [OF \<open>(d1, a1) \<in> set es\<close>, THEN conjunct2, rule_format, of a] that by simp
    show "d1 = d" if "a1 = a"
      using later [OF \<open>(d1, a1) \<in> set es\<close>, THEN conjunct1, rule_format, of d] that by simp
  qed
  have "pairs_agree pool st (set (x # es))"
    unfolding pairs_agree_def
  proof (intro allI impI conjI)
    fix d1 a1
    assume S: "(d1, a1) \<in> set (x # es)"
    from S consider (first) "d1 = d" "a1 = a" | (rest) "(d1, a1) \<in> set es"
      by (auto simp: x)
    note split = this
    show "config_contains F (pl_config pool) a1"
      by (rule split) (use here(1) pairs_agreeD(1) [OF agree] in blast)+
    show "im_address m = a1" if "map_of (ps_forward st) d1 = Some m" for m
      by (rule split) (use that here(5) pairs_agreeD(2) [OF agree] in blast)+
    show "d' = d1" if "map_of (ps_reverse st) a1 = Some d'" for d'
      by (rule split) (use that here(4) pairs_agreeD(3) [OF agree] in blast)+
    show "d' = d1 \<longleftrightarrow> a' = a1" if "(d', a') \<in> set (x # es)" for d' a'
    proof -
      from that consider (first) "d' = d" "a' = a" | (rest) "(d', a') \<in> set es"
        by (auto simp: x)
      note split' = this
      show ?thesis
        by (rule split; rule split') (use same pairs_agreeD(4) [OF agree] in blast)+
    qed
  qed
  moreover have "(\<forall>d'. map_of ips a1 = Some d' \<longrightarrow> d' = d1) \<and> (\<forall>a'. map_of doms d1 = Some a' \<longrightarrow> a' = a1)"
    if "(d1, a1) \<in> set (x # es)" for d1 a1
  proof -
    from that consider (first) "d1 = d" "a1 = a" | (rest) "(d1, a1) \<in> set es" "d1 \<noteq> d" "a1 \<noteq> a"
      using same by (auto simp: x)
    then show ?thesis
    proof cases
      case first
      then show ?thesis
        by (simp only: first) (intro conjI allI impI, erule here(2), erule here(3))
    next
      case rest
      show ?thesis
        by (rule later [OF rest(1), unfolded map_of_update fun_upd_other [OF rest(3)] fun_upd_other [OF rest(2)]])
    qed
  qed
  ultimately show ?case
    using IH by (simp add: x rows)
qed

lemma import_legacy_good:
  assumes good: "pool_good F pool st db" and valid: "\<And>d a. (d, a) \<in> set es \<Longrightarrow> valid_domain d"
    and res: "import_legacy F pool fault marker es nx now st db = Some (st1, db1, r)"
  shows "pool_good F pool st1 db1"
proof -
  have inv: "pool_inv F pool st" and per: "persisted F pool st db" and ok: "db_ok db"
    using good by (simp_all add: pool_good_def)
  let ?next = "case nx of None \<Rightarrow> fr_start (pl_config pool) | Some a \<Rightarrow> a"
  consider (same) "st1 = st" "db1 = db"
    | (imported) ips rows where "import_entries F pool st now es [] [] = Inr (ips, rows)"
      "config_contains F (pl_config pool) ?next"
      "db1 = imported_db rows (pool_cursor F pool ?next now) [] (Some (IMPORT_MARKER_PREFIX @ marker)) db"
      "st1 = fold (\<lambda>(address, domain). put_mapping domain (new_mapping address now)) ips (st\<lparr>ps_next := ?next\<rparr>)"
  proof (cases "marker_ok marker \<and> is_ok (import_entries F pool st now es [] []) \<and> config_contains F (pl_config pool) ?next")
    case False
    then have "st1 = st" "db1 = db"
      using res by (auto simp: import_legacy_def is_ok_def Let_def split: if_splits sum.splits)
    then show thesis
      by (rule same)
  next
    case True
    then obtain ips rows where ie: "import_entries F pool st now es [] [] = Inr (ips, rows)"
      by (auto simp: is_ok_def split: sum.splits)
    let ?import = "import_fakeip_state_inner fault db rows (pool_cursor F pool ?next now) [] (Some (IMPORT_MARKER_PREFIX @ marker)) True"
    obtain db2 r2 where imp: "?import = Some (db2, r2)"
      using res True ie by (cases ?import) (auto simp: import_legacy_def import_fakeip_state_if_unmarked_def Let_def)
    consider (err) e where "r2 = Inl e" "db2 = db" | (marked) "r2 = Inr False" "db2 = db"
      | (new) "r2 = Inr True" "db2 = imported_db rows (pool_cursor F pool ?next now) [] (Some (IMPORT_MARKER_PREFIX @ marker)) db"
      using import_inner_cases [OF imp] by blast
    then show thesis
    proof cases
      case new
      then show thesis
        using res True ie imp imported [of ips rows]
        by (simp add: import_legacy_def import_fakeip_state_if_unmarked_def Let_def)
    qed (use res True ie imp same in \<open>simp_all add: import_legacy_def import_fakeip_state_if_unmarked_def Let_def\<close>)
  qed
  then show ?thesis
  proof cases
    case imported
    note ie = import_entries_ok [OF imported(1)]
    have rows: "rows = map (\<lambda>(d, a). new_entry F pool d a now) es"
      and ips: "ips = fold (\<lambda>(d, a). AList.update a d) es []" and agree: "pairs_agree pool st (set es)"
      using ie by blast+
    have "set (fold (\<lambda>(d, a). AList.update a d) es' acc) \<subseteq> set acc \<union> (\<lambda>(d, a). (a, d)) ` set es'" for es' and acc :: "('w \<times> domain_name) list"
    proof (induction es' arbitrary: acc)
      case (Cons x es')
      have "set (AList.update a d acc) \<subseteq> insert (a, d) (set acc)" for a :: 'w and d :: domain_name and acc
        by (induction acc) auto
      with Cons.IH [of "AList.update (snd x) (fst x) acc"] show ?case
        by (fastforce simp: case_prod_unfold)
    qed simp
    from this [of es "[]"] have sub: "(d, a) \<in> set es" if "(a, d) \<in> set ips" for a d
      using that by (auto simp: ips)
    have keys: "map_of (fold (\<lambda>(d, a). AList.update a d) es' acc) a \<noteq> None"
      if "a \<in> snd ` set es' \<or> map_of acc a \<noteq> None" for es' and acc :: "('w \<times> domain_name) list" and a
      using that by (induction es' arbitrary: acc) (auto simp: case_prod_unfold)
    have "pairs_agree pool (st\<lparr>ps_next := ?next\<rparr>) (set es)"
      using agree by (simp add: pairs_agree_def del: map_of_eq_Some_iff)
    note put = fold_put_agree [OF this pool_inv_next [OF inv imported(2)], of ips]
    have mem: "(d, a) \<in> set es \<and> valid_domain d" if "(a, d) \<in> set ips" for a d
      using sub [OF that] valid by blast
    have inv1: "pool_inv F pool st1"
      unfolding imported(4) by (rule put(1) [OF mem])
    have scope: "\<forall>e \<in> set rows. in_scope (pf_family F) (pl_prefix pool) e"
      by (auto simp: rows new_entry_def in_scope_def)
    have rows_new: "rows_agree rows (new_entry F pool d a now)" if "(d, a) \<in> set es" for d a
      using that by (auto simp: rows_agree_def rows new_entry_def pf_octets_inj dest: pairs_agreeD(4) [OF agree])
    have "persisted F pool st1 db1"
      unfolding persisted_def
    proof (intro allI impI)
      fix d m
      assume "map_of (ps_forward st1) d = Some m"
      then consider (new) a where "(a, d) \<in> set ips" "m = new_mapping a now"
        | (old) "d \<notin> snd ` set ips" "map_of (ps_forward st) d = Some m"
        using put(2) [OF mem, of now d m] unfolding imported(4) by (auto simp del: map_of_eq_Some_iff)
      then show "\<exists>e. scope_row db1 (pf_family F) (pl_prefix pool) d = Some e \<and> row_matches F m e"
      proof cases
        case new
        have "new_entry F pool d a now \<in> set rows"
          using sub [OF new(1)] by (force simp: rows)
        from scope_row_fold_new [OF this scope rows_new [OF sub [OF new(1)]], of db] show ?thesis
          by (simp add: imported(3) new_entry_def new(2) new_mapping_def row_matches_def)
      next
        case old
        have notin: "(d, a) \<notin> set es" for a
        proof
          assume es: "(d, a) \<in> set es"
          then have "map_of ips a \<noteq> None"
            unfolding ips by (intro keys) force
          then obtain d' where "(a, d') \<in> set ips"
            by (auto dest: map_of_SomeD)
          then show False
            using pairs_agreeD(4) [OF agree es sub] old(1) by force
        qed
        obtain e where e: "scope_row db (pf_family F) (pl_prefix pool) d = Some e" "row_matches F m e"
          using persistedD [OF per old(2)] by blast
        have dom: "fe_domain e = d"
          using e(1) by (auto simp: scope_row_def find_Some_iff)
        have "(d', im_address m) \<notin> set es" for d'
          using pool_invD(3) [OF inv old(2)] pairs_agreeD(3) [OF agree, of d' "im_address m" d] notin by auto
        then have "rows_agree rows e"
          using notin e(2) by (auto simp: rows_agree_def rows new_entry_def row_matches_def dom pf_octets_inj)
        from scope_row_fold_keep [OF _ scope this, of db] e show ?thesis
          by (simp add: imported(3) dom)
      qed
    qed
    with inv1 ok show ?thesis
      by (simp add: pool_good_def imported(3) db_ok_imported)
  qed (use good in simp)
qed

text \<open>Loading rows: where a mapping comes from, and which domains are reported as expired.\<close>

definition loaded_from :: "'w fakeip_pool \<Rightarrow> int \<Rightarrow> fakeip_entry \<Rightarrow> domain_name \<Rightarrow> 'w ip_mapping \<Rightarrow> bool" where
  "loaded_from pool now e d m \<longleftrightarrow> in_scope (pf_family F) (pl_prefix pool) e \<and> domain_name_new (fe_domain e) = Inr d
     \<and> row_matches F m e \<and> im_last_used_at m = fe_last_used_at e
     \<and> \<not> expired_at (fe_last_used_at e) now (fo_ttl_seconds (pl_options pool))"

lemma load_entries_ok:
  assumes "load_entries F pool now st ex rows = (st1, ex1)" "pool_inv F pool st"
  shows "pool_inv F pool st1 \<and> ps_reserved st1 = ps_reserved st
    \<and> (\<forall>d m. map_of (ps_forward st1) d = Some m \<longrightarrow>
          map_of (ps_forward st) d = Some m \<or> (\<exists>e \<in> set rows. loaded_from pool now e d m))
    \<and> set ex1 \<subseteq> set ex \<union> fe_domain ` {e \<in> set rows. expired_at (fe_last_used_at e) now (fo_ttl_seconds (pl_options pool))}"
  using assms
proof (induction rows arbitrary: st ex)
  case (Cons e rows)
  let ?ttl = "fo_ttl_seconds (pl_options pool)"
  let ?m = "\<lparr>im_address = pf_from_octets F (fe_ip e), im_created_at = fe_created_at e,
    im_last_used_at = fe_last_used_at e, im_persisted_last_used_at = fe_last_used_at e\<rparr>"
  consider (skip) "load_entries F pool now st ex rows = (st1, ex1)"
    | (expired) "load_entries F pool now st (ex @ [fe_domain e]) rows = (st1, ex1)" "expired_at (fe_last_used_at e) now ?ttl"
    | (load) d where "load_entries F pool now (put_mapping d ?m st) ex rows = (st1, ex1)"
      "length (fe_ip e) = pf_ip_len F" "in_scope (pf_family F) (pl_prefix pool) e" "domain_name_new (fe_domain e) = Inr d"
      "config_contains F (pl_config pool) (pf_from_octets F (fe_ip e))"
      "map_of (ps_reverse st) (pf_from_octets F (fe_ip e)) = None" "map_of (ps_forward st) d = None"
      "\<not> expired_at (fe_last_used_at e) now ?ttl"
    using Cons.prems(1) by (auto simp: Let_def in_scope_def split: if_splits sum.splits)
  then show ?case
  proof cases
    case skip
    from Cons.IH [OF this Cons.prems(2)] show ?thesis
      by auto
  next
    case expired
    from Cons.IH [OF expired(1) Cons.prems(2)] expired(2) show ?thesis
      by auto
  next
    case load
    have src: "loaded_from pool now e d ?m"
      using load octets_from by (simp add: loaded_from_def row_matches_def)
    have "pool_inv F pool (put_mapping d ?m st)"
      using Cons.prems(2) load domain_name_new_valid [OF load(4)] by (intro pool_inv_put) auto
    note IH = Cons.IH [OF load(1) this]
    have "map_of (ps_forward st) d' = Some m \<or> (\<exists>e \<in> set (e # rows). loaded_from pool now e d' m)"
      if "map_of (ps_forward st1) d' = Some m" for d' m
    proof -
      from IH that have "((map_of (ps_forward st))(d \<mapsto> ?m)) d' = Some m \<or> (\<exists>e \<in> set rows. loaded_from pool now e d' m)"
        by simp
      then show ?thesis
        using src by (auto simp del: map_of_eq_Some_iff split: if_splits)
    qed
    with IH show ?thesis
      by auto
  qed
qed auto

lemma load_legacy_rows:
  "e \<in> set (load_legacy_loop F c pfx now addrs rows) \<Longrightarrow> fe_last_used_at e = now"
  by (induction F c pfx now addrs rows rule: load_legacy_loop.induct)
    (auto simp: Let_def split: if_splits option.splits sum.splits)

lemma scope_row_unique:
  assumes "db_ok db" "e \<in> set (db_entries db)" "in_scope f p e"
  shows "scope_row db f p (fe_domain e) = Some e"
proof (cases "scope_row db f p (fe_domain e)")
  case None
  then show ?thesis
    using assms(2,3) by (auto simp: scope_row_def find_None_iff)
next
  case (Some e')
  then have "e' \<in> set (db_entries db)" "entry_key e' = entry_key e"
    using assms(3) by (auto simp: scope_row_def find_Some_iff entry_key_def in_scope_def)
  then show ?thesis
    using assms(1,2) Some by (auto simp: db_ok_def distinct_map inj_on_def)
qed

text \<open>Mappings loaded from rows of the table are persisted, also once the expired rows are deleted.\<close>

lemma load_typed_good:
  assumes ok: "db_ok db" "rows_canonical F pool db"
    and load: "load_entries F pool now st [] rows = (st1, ex)" "pool_inv F pool st" "ps_forward st = []"
    and rows: "\<And>e. e \<in> set rows \<Longrightarrow> e \<in> set (db_entries db) \<and> in_scope (pf_family F) (pl_prefix pool) e"
  shows "pool_good F pool st1 db" and "set ex \<inter> dom (map_of (ps_forward st1)) = {}"
proof -
  note L = load_entries_ok [OF load(1,2)]
  have row: "\<exists>e. e \<in> set (db_entries db) \<and> scope_row db (pf_family F) (pl_prefix pool) d = Some e \<and> fe_domain e = d
      \<and> loaded_from pool now e d m" if fwd: "map_of (ps_forward st1) d = Some m" for d m
  proof -
    obtain e where e: "e \<in> set rows" "loaded_from pool now e d m"
      using L fwd load(3) by (auto simp del: map_of_eq_Some_iff) blast
    then have "e \<in> set (db_entries db)" "in_scope (pf_family F) (pl_prefix pool) e"
      using rows by (auto simp: loaded_from_def)
    moreover from this have "fe_domain e = d"
      using ok(2) e(2) domain_name_new_of_valid by (auto simp: rows_canonical_def loaded_from_def)
    ultimately show ?thesis
      using scope_row_unique [OF ok(1)] e(2) by blast
  qed
  then have "persisted F pool st1 db"
    unfolding persisted_def loaded_from_def by blast
  with L ok(1) show "pool_good F pool st1 db"
    by (simp add: pool_good_def)
  have "d \<notin> set ex" if fwd: "map_of (ps_forward st1) d = Some m" for d m
  proof
    assume "d \<in> set ex"
    then obtain e' where e': "e' \<in> set rows" "fe_domain e' = d" "expired_at (fe_last_used_at e') now (fo_ttl_seconds (pl_options pool))"
      using L by auto
    then have "scope_row db (pf_family F) (pl_prefix pool) d = Some e'"
      using scope_row_unique [OF ok(1)] rows by blast
    with row [OF fwd] e'(3) show False
      by (auto simp: loaded_from_def)
  qed
  then show "set ex \<inter> dom (map_of (ps_forward st1)) = {}"
    by auto
qed

lemma drop_absent: "map_of (ps_forward st) d = None \<Longrightarrow> drop_domain d st = st"
  by (simp add: drop_domain_def)

lemma fold_drop_absent: "set ds \<inter> dom (map_of (ps_forward st)) = {} \<Longrightarrow> fold drop_domain ds st = st"
  by (induction ds arbitrary: st) (auto simp: drop_absent domIff)

lemma db_ok_delete_call:
  "(if ds \<noteq> [] then delete_fakeip_entries fault db f p ds else (db, Inr 0)) = (db1, r) \<Longrightarrow> db_ok db \<Longrightarrow> db_ok db1"
  by (auto dest: delete_fakeip_entries_cases split: if_splits)

lemma initial_state_inv: "config_ok F pool \<Longrightarrow> pool_inv F pool (initial_state F pool now others cursor legacy)"
  by (auto simp: initial_state_def pool_inv_def Let_def normalize_next_def config_contains_def config_ok_def)

lemma initial_state_forward [simp]: "ps_forward (initial_state F pool now others cursor legacy) = []"
  by (simp add: initial_state_def Let_def)

text \<open>The rows written when legacy state was loaded.\<close>

lemma import_state_persisted:
  assumes inv: "pool_inv F pool st"
    and used: "\<And>d m. map_of (ps_forward st) d = Some m \<Longrightarrow> im_last_used_at m = im_persisted_last_used_at m"
    and entries: "entries = state_entries F (pl_prefix pool) st"
  shows "persisted F pool st (imported_db entries cursor keys marker db)"
  unfolding persisted_def
proof (intro allI impI)
  fix d m
  assume m: "map_of (ps_forward st) d = Some m"
  let ?row = "\<lambda>d m. \<lparr>fe_family = pf_family F, fe_prefix = pl_prefix pool, fe_domain = d,
        fe_ip = pf_octets F (im_address m), fe_created_at = im_created_at m, fe_last_used_at = im_last_used_at m\<rparr>"
  have mem: "e \<in> set entries \<longleftrightarrow> (\<exists>d m. map_of (ps_forward st) d = Some m \<and> e = ?row d m)" for e
    using pool_invD(1) [OF inv] unfolding entries state_entries_def by force
  have "rows_agree entries (?row d m)"
    using m pool_inv_addresses [OF inv] unfolding rows_agree_def
    by (auto simp: mem pf_octets_inj simp del: map_of_eq_Some_iff)
  moreover have "?row d m \<in> set entries" "\<forall>e \<in> set entries. in_scope (pf_family F) (pl_prefix pool) e"
    using m mem by (auto simp: in_scope_def)
  ultimately have "scope_row (fold sql_replace_entry entries db) (pf_family F) (pl_prefix pool) (fe_domain (?row d m)) = Some (?row d m)"
    by (intro scope_row_fold_new)
  then show "\<exists>e. scope_row (imported_db entries cursor keys marker db) (pf_family F) (pl_prefix pool) d = Some e \<and> row_matches F m e"
    using used [OF m] by (simp add: row_matches_def)
qed

lemma open_rows_good:
  assumes st0: "pool_inv F pool st0" "ps_forward st0 = []" and ok: "db_ok db"
    and typed: "\<not> absent \<Longrightarrow> rows_canonical F pool db \<and> (\<forall>e \<in> set rows. e \<in> set (db_entries db) \<and> in_scope (pf_family F) (pl_prefix pool) e)"
    and legacy: "absent \<Longrightarrow> \<forall>e \<in> set rows. \<not> expired_at (fe_last_used_at e) now (fo_ttl_seconds (pl_options pool))"
    and res: "open_rows F faults now db pool absent st0 rows = Some (db1, Inr st)"
  shows "pool_good F pool st db1"
proof -
  let ?del = "\<lambda>fault db ds. if ds \<noteq> [] then delete_fakeip_entries fault db (pf_family F) (pl_prefix pool) ds else (db, Inr 0)"
  obtain st1 ex where load: "load_entries F pool now st0 [] rows = (st1, ex)"
    by fastforce
  let ?trim = "trim_domains (pl_options pool) st1"
  obtain db2 n2 where del2: "?del (faults 5) db ex = (db2, Inr n2)"
    using res load by (cases "?del (faults 5) db ex") (auto simp: open_rows_def split: sum.splits)
  obtain db3 n3 where del3: "?del (faults 6) db2 ?trim = (db3, Inr n3)"
    using res load del2 by (cases "?del (faults 6) db2 ?trim") (auto simp: open_rows_def Let_def split: sum.splits)
  let ?st2 = "fold drop_domain ?trim st1"
  have ok3: "db_ok db3"
    using db_ok_delete_call [OF del3 db_ok_delete_call [OF del2 ok]] .
  note L = load_entries_ok [OF load st0(1)]
  show ?thesis
  proof (cases absent)
    case False
    have good1: "pool_good F pool st1 db" and disj: "set ex \<inter> dom (map_of (ps_forward st1)) = {}"
      using load_typed_good [OF ok _ load st0] typed [OF False] by blast+
    have "pool_good F pool st1 db2"
      using good1 del2 pool_good_delete [OF good1, of "faults 5" ex db2 n2] fold_drop_absent [OF disj] by (auto split: if_splits)
    then have "pool_good F pool ?st2 db3"
      using del3 pool_good_delete [of F pool st1 db2 "faults 6" ?trim db3 n3] by (auto split: if_splits)
    then show ?thesis
      using False res load del2 del3 by (simp add: open_rows_def)
  next
    case True
    have inv2: "pool_inv F pool ?st2"
      using L by (intro pool_inv_fold_drop) simp
    have used: "im_last_used_at m = im_persisted_last_used_at m" if "map_of (ps_forward ?st2) d = Some m" for d m
      using that L st0(2) by (auto simp: fold_drop_forward loaded_from_def row_matches_def simp del: map_of_eq_Some_iff split: if_splits) (metis)
    consider (none) "st = ?st2" "db1 = db3" "state_entries F (pl_prefix pool) ?st2 = []"
      | (imported) keys where "st = ?st2"
        "db1 = imported_db (state_entries F (pl_prefix pool) ?st2) (pool_cursor F pool (ps_next ?st2) now) keys None db3"
    proof -
      let ?entries = "state_entries F (pl_prefix pool) ?st2" and ?cursor = "pool_cursor F pool (ps_next ?st2) now"
      have "(case load_legacy_keys (faults 7) db3 (pf_map_prefix F) of
          Inl e \<Rightarrow> Some (db3, Inl e)
        | Inr keys \<Rightarrow>
            if ?entries \<noteq> [] \<or> length (pf_next_key F # keys) > 1
            then map_option (\<lambda>(db3, r). (db3, rbind r (\<lambda>_. Inr ?st2)))
                   (import_fakeip_state (faults 8) db3 ?entries ?cursor (pf_next_key F # keys) None)
            else Some (db3, Inr ?st2)) = Some (db1, Inr st)"
        using res load del2 del3 True by (simp only: open_rows_def Let_def case_prod_conv sum.case if_True not_True_eq_False if_False)
      then obtain keys where tail: "(if ?entries \<noteq> [] \<or> length (pf_next_key F # keys) > 1
            then map_option (\<lambda>(db3, r). (db3, rbind r (\<lambda>_. Inr ?st2)))
                   (import_fakeip_state (faults 8) db3 ?entries ?cursor (pf_next_key F # keys) None)
            else Some (db3, Inr ?st2)) = Some (db1, Inr st)"
        by (auto split: sum.splits)
      show thesis
      proof (cases "?entries \<noteq> [] \<or> length (pf_next_key F # keys) > 1")
        case False
        then show thesis
          using tail none by simp
      next
        case True
        then obtain db4 b where imp: "import_fakeip_state_inner (faults 8) db3 ?entries ?cursor (pf_next_key F # keys) None False = Some (db4, b)"
          and b: "db1 = db4" "rbind (rbind b (\<lambda>_. Inr ())) (\<lambda>_. Inr ?st2) = Inr st"
          using tail by (auto simp: import_fakeip_state_def)
        then have "b = Inr True \<and> st = ?st2"
          using import_inner_cases [OF imp] by auto
        then show thesis
          using imported [of "pf_next_key F # keys"] import_inner_cases [OF imp] b(1) by simp
      qed
    qed
    then show ?thesis
    proof cases
      case none
      then have "ps_forward ?st2 = []"
        by (simp add: state_entries_def)
      then show ?thesis
        using none inv2 ok3 by (simp add: pool_good_def persisted_def)
    next
      case imported
      then show ?thesis
        using inv2 import_state_persisted [OF inv2 used refl] ok3 by (simp add: pool_good_def db_ok_imported)
    qed
  qed
qed

lemma check_pool_ok:
  assumes "check_pool F pool = Inr ()"
  obtains sz where "pf_size F (pl_config pool) = Inr sz" "0 < fo_max_entries (pl_options pool)"
    "fo_max_entries (pl_options pool) \<le> sz" "0 < fo_ttl_seconds (pl_options pool)" "valid_text (pl_prefix pool)"
  using assms by (auto simp: check_pool_def rbind_def split: sum.splits if_splits)

lemma open_with_prefix_inv:
  assumes "open_with_prefix F faults now db pool = Some (db1, Inr st)"
  obtains typed others cursor legacy legacy_cursor where "check_pool F pool = Inr ()"
    "list_fakeip_entries (faults 0) db (pf_family F) (pl_prefix pool) = Inr typed"
    "typed = [] \<Longrightarrow> load_legacy F (faults 3) db (pl_config pool) (pl_prefix pool) now = Inr legacy"
    "list_fakeip_entries_in_range (faults 1) db (pf_family F) (pl_prefix pool)
       (pf_octets F (fr_start (pl_config pool))) (pf_octets F (fr_end (pl_config pool))) = Inr others"
    "open_rows F faults now db pool (typed = []) (initial_state F pool now others cursor legacy_cursor)
       (if typed = [] then legacy else typed) = Some (db1, Inr st)"
  using assms unfolding open_with_prefix_def
  by (auto simp: Let_def rbind_def split: sum.splits if_splits)

lemma load_legacy_fresh:
  assumes "load_legacy F fault db c pfx now = Inr rows" "e \<in> set rows" "0 < ttl"
  shows "\<not> expired_at (fe_last_used_at e) now ttl"
proof -
  have "fe_last_used_at e = now"
    using assms(1,2) load_legacy_rows [of e] by (auto simp: load_legacy_def rbind_def split: sum.splits)
  then show ?thesis
    using assms(3) by (simp add: expired_at_def)
qed

lemma open_with_prefix_good:
  assumes cfg: "config_ok F pool" and ok: "db_ok db" "rows_canonical F pool db"
    and res: "open_with_prefix F faults now db pool = Some (db1, Inr st)"
  shows "pool_good F pool st db1"
  using res
proof (rule open_with_prefix_inv)
  fix typed others cursor legacy legacy_cursor
  assume check: "check_pool F pool = Inr ()"
    and typed: "list_fakeip_entries (faults 0) db (pf_family F) (pl_prefix pool) = Inr typed"
    and legacy: "typed = [] \<Longrightarrow> load_legacy F (faults 3) db (pl_config pool) (pl_prefix pool) now = Inr legacy"
    and rows: "open_rows F faults now db pool (typed = []) (initial_state F pool now others cursor legacy_cursor)
       (if typed = [] then legacy else typed) = Some (db1, Inr st)"
  have "\<forall>e \<in> set typed. e \<in> set (db_entries db) \<and> in_scope (pf_family F) (pl_prefix pool) e"
    using typed by (auto simp: list_fakeip_entries_def rbind_def split: sum.splits option.splits)
  moreover have "0 < fo_ttl_seconds (pl_options pool)"
    using check by (rule check_pool_ok)
  then have "\<forall>e \<in> set legacy. \<not> expired_at (fe_last_used_at e) now (fo_ttl_seconds (pl_options pool))" if "typed = []"
    using load_legacy_fresh [OF legacy [OF that]] by blast
  ultimately show ?thesis
    by (intro open_rows_good [OF initial_state_inv [OF cfg] _ ok(1) _ _ rows]) (simp_all add: ok(2))
qed

lemma pool_reach_good:
  "pool_reach F pool imp st db \<Longrightarrow> config_ok F pool \<Longrightarrow> pool_good F pool st db"
  by (induction rule: pool_reach.induct)
    (auto intro: open_with_prefix_good dest: allocate_at_good pool_release_good flush_touches_good import_legacy_good)

end

end
