(* ===== verification/Fakeip_Guarantees.thy ===== *)
theory Fakeip_Guarantees
  imports Fakeip_Reach "HOL-Library.Multiset"
begin

text \<open>
  What the FakeIP pools promise their users: the addresses an allocation hands out, which
  mapping it may evict, the capacity, and the mappings a reopened pool restores.
\<close>

subsection \<open>Allocation with a working database\<close>

lemma has_controlD: "has_control s \<Longrightarrow> \<exists>c \<in> set s. code c < 0x20 \<or> code c = 0x7F \<or> code c = 0xC2"
  by (induction s) auto

lemma label_char_code: "label_char c \<Longrightarrow> 0x20 \<le> code c \<and> code c < 0x7F"
  by (auto simp: label_char_def is_ascii_alphanumeric_def is_ascii_digit_def is_ascii_lower_def is_ascii_upper_def)

lemma valid_domain_text: "valid_domain d \<Longrightarrow> valid_text d"
  using has_controlD [of d] valid_domain_chars [of d] label_char_code
  by (auto simp: valid_text_def valid_domain_def) fastforce+

lemma validate_id_ok: "valid_text s \<Longrightarrow> validate_id s = Inr ()"
  by (simp add: validate_id_def)

lemma validate_all_ok: "validate_all f xs = Inr () \<longleftrightarrow> (\<forall>x \<in> set xs. f x = Inr ())"
  by (induction xs) (auto simp: result_simps)

lemma delete_works:
  assumes "validate_fakeip_scope f p = Inr ()" "\<And>d. d \<in> set ds \<Longrightarrow> valid_text d"
  shows "\<exists>db1 n. delete_fakeip_entries None db f p ds = (db1, Inr n)"
  using assms validate_all_ok [of validate_id ds] validate_id_ok
  by (auto simp: delete_fakeip_entries_def checked_def with_write_transaction_def split: prod.splits)

lemma touch_works:
  assumes "validate_fakeip_scope f p = Inr ()" "\<And>d t. (d, t) \<in> set ts \<Longrightarrow> valid_text d \<and> 0 \<le> t"
  shows "\<exists>db1 n. touch_fakeip_entries None db f p ts = (db1, Inr n)"
proof -
  have "validate_all validate_touch ts = Inr ()"
    using assms(2) by (fastforce simp: validate_all_ok validate_touch_def validate_id_ok result_simps)
  then show ?thesis
    using assms(1) by (auto simp: touch_fakeip_entries_def checked_def with_write_transaction_def split: prod.splits)
qed

lemma min_by_key_none: "min_by_key f xs = None \<longleftrightarrow> xs = []"
  by (cases xs) (auto split: option.splits)

text \<open>The other live mappings: at most one goes, the least recently used one of a full pool.\<close>

lemma expired_domains_iff:
  assumes "pool_inv F pool st"
  shows "d \<in> set (expired_domains pool now st) \<longleftrightarrow>
    (\<exists>m. map_of (ps_forward st) d = Some m \<and> expired_at (im_last_used_at m) now (fo_ttl_seconds (pl_options pool)))"
  using pool_invD(1) [OF assms] by (force simp: expired_domains_def)

definition live_mapping :: "'w fakeip_pool \<Rightarrow> int \<Rightarrow> 'w pool_state \<Rightarrow> domain_name \<Rightarrow> 'w ip_mapping \<Rightarrow> bool" where
  "live_mapping pool now st d m \<longleftrightarrow>
     map_of (ps_forward st) d = Some m \<and> \<not> expired_at (im_last_used_at m) now (fo_ttl_seconds (pl_options pool))"

lemma purged_forward:
  assumes "pool_inv F pool st"
  shows "map_of (ps_forward (fold drop_domain (expired_domains pool now st) st)) d = Some m \<longleftrightarrow> live_mapping pool now st d m"
  using expired_domains_iff [OF assms, of d now] by (auto simp: fold_drop_forward live_mapping_def simp del: map_of_eq_Some_iff)

lemma card_forward: "pool_inv F pool st \<Longrightarrow> length (ps_forward st) = card (dom (map_of (ps_forward st)))"
  using pool_invD(1) by (metis distinct_card dom_map_of_conv_image_fst length_map set_map)

lemma min_by_key_least: "min_by_key f xs = Some x \<Longrightarrow> y \<in> set xs \<Longrightarrow> f x \<le> f y"
  by (induction xs arbitrary: x) (fastforce simp: min_by_key_none split: option.splits if_splits)+

definition least_recent :: "'w fakeip_pool \<Rightarrow> int \<Rightarrow> 'w pool_state \<Rightarrow> 'w ip_mapping \<Rightarrow> bool" where
  "least_recent pool now st m \<longleftrightarrow>
     fo_max_entries (pl_options pool) \<le> card {d. \<exists>m. live_mapping pool now st d m} \<and>
     (\<forall>d' m'. live_mapping pool now st d' m' \<longrightarrow> im_last_used_at m \<le> im_last_used_at m')"

context address_family
begin

lemma check_pool_scope: "check_pool F pool = Inr () \<Longrightarrow> validate_fakeip_scope (pf_family F) (pl_prefix pool) = Inr ()"
  using family by (auto elim!: check_pool_ok simp: validate_fakeip_scope_def validate_id_ok)

lemma store_new_works:
  assumes "check_pool F pool = Inr ()" "valid_domain d" "0 \<le> now" "\<And>d. ev = Some d \<Longrightarrow> valid_domain d"
  shows "\<exists>st1 db1. store_new F pool None d now st db (a, ev) nx = (st1, db1, Inr a)"
proof -
  have "validate_fakeip_entry (new_entry F pool d a now) = Inr ()"
    using assms check_pool_scope [OF assms(1)] valid_domain_text [OF assms(2)]
    by (simp add: validate_fakeip_entry_def new_entry_def validate_id_ok pf_ip_len_def [symmetric] result_simps)
  moreover have "validate_fakeip_cursor (pool_cursor F pool nx now) = Inr ()"
    using assms(3) check_pool_scope [OF assms(1)]
    by (simp add: validate_fakeip_cursor_def pool_cursor_def cursor_index_def pf_ip_len_def [symmetric] result_simps)
  moreover have "\<And>d. ev = Some d \<Longrightarrow> validate_id d = Inr ()"
    using assms(4) valid_domain_text validate_id_ok by blast
  ultimately show ?thesis
    by (auto simp: store_new_def replace_fakeip_entry_ok pool_cursor_def new_entry_def Let_def)
qed

lemma choose_address_total:
  assumes "pool_inv F pool st" "config_ok F pool" "check_pool F pool = Inr ()"
    and sz: "pf_size F (pl_config pool) = Inr sz" "2 * sz \<le> 2 ^ pf_bits F"
  shows "(\<exists>c. choose_address F pool st sz = Some (Inr c)) \<or>
    choose_address F pool st sz = Some (Inl (pool_exhausted F)) \<and>
    (\<forall>a. config_contains F (pl_config pool) a \<longrightarrow> map_of (ps_reverse st) a \<noteq> None \<or> map_of (ps_reserved st) a \<noteq> None)"
proof (cases "length (ps_forward st) \<ge> fo_max_entries (pl_options pool)")
  case True
  then have "ps_forward st \<noteq> []"
    using assms(3) by (auto elim!: check_pool_ok)
  then have "min_by_key (\<lambda>dm. im_last_used_at (snd dm)) (ps_forward st) \<noteq> None"
    by (simp add: min_by_key_none)
  then show ?thesis
    using True by (auto simp: choose_address_def split: prod.splits)
next
  case False
  from select_address_exhausted [OF sz(1) _ pool_invD(7) [OF assms(1)] sz(2)] assms(2) obtain r where
    r: "select_address F (pl_config pool) st sz 0 = Some r"
    and none: "r = None \<longleftrightarrow> (\<forall>a. config_contains F (pl_config pool) a \<longrightarrow>
      map_of (ps_reverse st) a \<noteq> None \<or> map_of (ps_reserved st) a \<noteq> None)"
    by (auto simp: config_ok_def)
  show ?thesis
    using False r none by (cases r) (simp_all add: choose_address_def)
qed

lemma next_address_total:
  assumes "config_ok F pool" "pf_size F (pl_config pool) = Inr sz" "2 * sz \<le> 2 ^ pf_bits F"
    and "config_contains F (pl_config pool) a"
  shows "\<exists>nx. next_address F (pl_config pool) sz a = Some nx"
  using assms range_size [OF assms(2)] by (auto simp: next_address_def config_ok_def config_contains_def)

lemma allocate_new_total:
  assumes good: "pool_good F pool st db" and dom: "valid_domain d" "map_of (ps_forward st) d = None" and now: "0 \<le> now"
    and cfg: "config_ok F pool" "check_pool F pool = Inr ()"
    and sz: "pf_size F (pl_config pool) = Inr sz" "2 * sz \<le> 2 ^ pf_bits F"
  shows "\<exists>st1 db1 r. allocate_new F pool (\<lambda>_. None) d now st db = Some (st1, db1, r) \<and>
    (\<forall>e. r = Inl e \<longrightarrow> e = pool_exhausted F \<and> (\<forall>a. config_contains F (pl_config pool) a \<longrightarrow>
       map_of (ps_reverse st1) a \<noteq> None \<or> map_of (ps_reserved st1) a \<noteq> None))"
proof -
  let ?ex = "expired_domains pool now st"
  let ?st = "fold drop_domain ?ex st"
  have inv: "pool_inv F pool st"
    using good by (simp add: pool_good_def)
  have "valid_text x" if "x \<in> set ?ex" for x
    using that pool_invD(1) [OF inv] pool_invD(5) [OF inv] valid_domain_text by (fastforce simp: expired_domains_def)
  then obtain db2 n where del: "(if ?ex \<noteq> [] then delete_fakeip_entries None db (pf_family F) (pl_prefix pool) ?ex
      else (db, Inr 0)) = (db2, Inr n)"
    using delete_works [OF check_pool_scope [OF cfg(2)]] by (metis (full_types))
  have inv2: "pool_inv F pool ?st"
    by (rule pool_inv_fold_drop) (rule inv)
  have alloc: "allocate_new F pool (\<lambda>_. None) d now st db =
    (case choose_address F pool ?st sz of
       None \<Rightarrow> None
     | Some (Inl e) \<Rightarrow> Some (?st, db2, Inl e)
     | Some (Inr choice) \<Rightarrow>
         (case next_address F (pl_config pool) sz (fst choice) of
            None \<Rightarrow> None
          | Some next \<Rightarrow> Some (store_new F pool None d now ?st db2 choice next)))"
    unfolding allocate_new_def Let_def del sz(1) by simp
  consider (chosen) a ev where "choose_address F pool ?st sz = Some (Inr (a, ev))"
    | (exhausted) "choose_address F pool ?st sz = Some (Inl (pool_exhausted F))"
      "\<forall>a. config_contains F (pl_config pool) a \<longrightarrow> map_of (ps_reverse ?st) a \<noteq> None \<or> map_of (ps_reserved ?st) a \<noteq> None"
    using choose_address_total [OF inv2 cfg sz] by (metis surj_pair)
  then show ?thesis
  proof cases
    case chosen
    note ok = choose_address_ok [OF inv2 cfg(1) sz(1) chosen]
    obtain nx where nx: "next_address F (pl_config pool) sz a = Some nx"
      using next_address_total [OF cfg(1) sz] ok by blast
    have ev: "valid_domain x" if "ev = Some x" for x
      using pool_invD(6) [OF inv2] pool_invD(5) [OF inv2] ok that by blast
    obtain st1 db1 where "store_new F pool None d now ?st db2 (a, ev) nx = (st1, db1, Inr a)"
      using store_new_works [OF cfg(2) dom(1) now ev] by blast
    then show ?thesis
      using alloc chosen nx by simp
  next
    case exhausted
    then show ?thesis
      using alloc by simp
  qed
qed

lemma allocate_at_total:
  assumes good: "pool_good F pool st db" and dom: "valid_domain d" and now: "0 \<le> now"
    and cfg: "config_ok F pool" "check_pool F pool = Inr ()"
    and sz: "pf_size F (pl_config pool) = Inr sz" "2 * sz \<le> 2 ^ pf_bits F"
  shows "\<exists>st1 db1 r. allocate_at F pool (\<lambda>_. None) d now st db = Some (st1, db1, r) \<and>
    (\<forall>e. r = Inl e \<longrightarrow> e = pool_exhausted F \<and> (\<forall>a. config_contains F (pl_config pool) a \<longrightarrow>
       map_of (ps_reverse st1) a \<noteq> None \<or> map_of (ps_reserved st1) a \<noteq> None))"
proof -
  let ?ttl = "fo_ttl_seconds (pl_options pool)"
  let ?st = "st\<lparr>ps_reserved := filter (\<lambda>al. \<not> expired_at (snd al) now ?ttl) (ps_reserved st)\<rparr>"
  note scope = check_pool_scope [OF cfg(2)]
  have good0: "pool_good F pool ?st db"
    using good by simp
  show ?thesis
  proof (cases "map_of (ps_forward st) d")
    case None
    then show ?thesis
      using allocate_new_total [OF good0 dom _ now cfg sz] by (simp add: allocate_at_def)
  next
    case (Some m)
    show ?thesis
    proof (cases "expired_at (im_last_used_at m) now ?ttl")
      case False
      obtain db1 n where "touch_fakeip_entries None db (pf_family F) (pl_prefix pool) [(d, now)] = (db1, Inr n)"
        using touch_works [OF scope, of "[(d, now)]" db] valid_domain_text [OF dom] now by auto
      then show ?thesis
        using Some False by (simp add: allocate_at_def Let_def)
    next
      case True
      obtain db1 n where del: "delete_fakeip_entries None db (pf_family F) (pl_prefix pool) [d] = (db1, Inr n)"
        using delete_works [OF scope, of "[d]" db] valid_domain_text [OF dom] by auto
      have "pool_good F pool (drop_domain d ?st) db1"
        using pool_good_delete [OF good0 del] by simp
      from allocate_new_total [OF this dom _ now cfg sz] True Some del show ?thesis
        by (simp add: allocate_at_def)
    qed
  qed
qed

lemma choose_address_evicts:
  assumes inv: "pool_inv F pool st" and inv2: "pool_inv F pool (fold drop_domain (expired_domains pool now st) st)"
    and res: "choose_address F pool (fold drop_domain (expired_domains pool now st) st) sz = Some (Inr (a, Some d))"
  shows "\<exists>m. live_mapping pool now st d m \<and> a = im_address m \<and> least_recent pool now st m"
proof -
  let ?st = "fold drop_domain (expired_domains pool now st) st"
  obtain m where m: "min_by_key (\<lambda>dm. im_last_used_at (snd dm)) (ps_forward ?st) = Some (d, m)" "a = im_address m"
    and full: "fo_max_entries (pl_options pool) \<le> length (ps_forward ?st)"
    using res by (auto simp: choose_address_def split: if_splits option.splits)
  have at: "map_of (ps_forward ?st) d' = Some m' \<longleftrightarrow> (d', m') \<in> set (ps_forward ?st)" for d' m'
    using pool_invD(1) [OF inv2] by simp
  have "dom (map_of (ps_forward ?st)) = {d. \<exists>m. live_mapping pool now st d m}"
    using purged_forward [OF inv] by (auto simp: dom_def)
  then have "fo_max_entries (pl_options pool) \<le> card {d. \<exists>m. live_mapping pool now st d m}"
    using full card_forward [OF inv2] by simp
  moreover have "im_last_used_at m \<le> im_last_used_at m'" if "live_mapping pool now st d' m'" for d' m'
    using min_by_key_least [OF m(1), of "(d', m')"] that purged_forward [OF inv] at by simp
  moreover have "live_mapping pool now st d m"
    using min_by_key_in [OF m(1)] purged_forward [OF inv] at by blast
  ultimately show ?thesis
    using m(2) by (auto simp: least_recent_def)
qed

lemma allocate_new_keeps:
  assumes good: "pool_good F pool st db" and d: "map_of (ps_forward st) d = None"
    and cfg: "config_ok F pool" and res: "allocate_new F pool faults d now st db = Some (st1, db1, r)"
    and live: "live_mapping pool now st d' m"
  shows "map_of (ps_forward st1) d' = Some m \<or> r = Inr (im_address m) \<and> least_recent pool now st m"
proof -
  let ?ex = "expired_domains pool now st"
  let ?st = "fold drop_domain ?ex st"
  have inv: "pool_inv F pool st"
    using good by (simp add: pool_good_def)
  have inv2: "pool_inv F pool ?st"
    by (rule pool_inv_fold_drop) (rule inv)
  have keep: "map_of (ps_forward ?st) d' = Some m" "map_of (ps_forward st) d' = Some m" and ne: "d' \<noteq> d"
    using live d purged_forward [OF inv] by (auto simp: live_mapping_def)
  consider (err) "st1 = ?st \<or> st1 = st"
    | (new) sz a ev nx db2 where "choose_address F pool ?st sz = Some (Inr (a, ev))"
        "store_new F pool (faults 2) d now ?st db2 (a, ev) nx = (st1, db1, r)"
    using res by (auto simp: allocate_new_def Let_def split: sum.splits option.splits prod.splits if_splits)
  then show ?thesis
  proof cases
    case err
    then show ?thesis
      using keep by auto
  next
    case new
    from new(2) consider "st1 = ?st" | (stored) "r = Inr a"
      "st1 = put_mapping d (new_mapping a now) ((case ev of None \<Rightarrow> ?st | Some e \<Rightarrow> drop_domain e ?st)\<lparr>ps_next := nx\<rparr>)"
      by (auto simp: store_new_def Let_def split: prod.splits sum.splits)
    then show ?thesis
    proof cases
      case stored
      show ?thesis
      proof (cases "ev = Some d'")
        case True
        then show ?thesis
          using choose_address_evicts [OF inv inv2, of sz a d'] new(1) stored(1) live by (auto simp: live_mapping_def)
      next
        case False
        then show ?thesis
          using stored keep ne by (cases ev) auto
      qed
    qed (use keep in simp)
  qed
qed

lemma live_mapping_drop:
  "live_mapping pool now (drop_domain d st) d' m \<longleftrightarrow> d' \<noteq> d \<and> live_mapping pool now st d' m"
  by (auto simp: live_mapping_def simp del: map_of_eq_Some_iff)

lemma live_mapping_reserved [simp]: "live_mapping pool now (st\<lparr>ps_reserved := x\<rparr>) = live_mapping pool now st"
  by (intro ext) (simp add: live_mapping_def)

lemma least_recent_drop:
  assumes "\<And>m. \<not> live_mapping pool now st d m"
  shows "least_recent pool now (drop_domain d st) m \<longleftrightarrow> least_recent pool now st m"
proof -
  have "live_mapping pool now (drop_domain d st) = live_mapping pool now st"
    using assms by (intro ext) (auto simp: live_mapping_drop)
  then show ?thesis
    by (simp add: least_recent_def)
qed

lemma least_recent_reserved [simp]: "least_recent pool now (st\<lparr>ps_reserved := x\<rparr>) m = least_recent pool now st m"
  by (simp add: least_recent_def)

lemma allocate_at_keeps:
  assumes good: "pool_good F pool st db" and cfg: "config_ok F pool"
    and res: "allocate_at F pool faults d now st db = Some (st1, db1, r)"
    and live: "live_mapping pool now st d' m" and ne: "d' \<noteq> d"
  shows "map_of (ps_forward st1) d' = Some m \<or>
    r = Inr (im_address m) \<and> least_recent pool now st m \<and> (\<forall>m'. \<not> live_mapping pool now st d m')"
proof -
  let ?ttl = "fo_ttl_seconds (pl_options pool)"
  let ?st = "st\<lparr>ps_reserved := filter (\<lambda>al. \<not> expired_at (snd al) now ?ttl) (ps_reserved st)\<rparr>"
  have good0: "pool_good F pool ?st db"
    using good by simp
  have keep: "map_of (ps_forward st) d' = Some m"
    using live by (simp add: live_mapping_def)
  show ?thesis
  proof (cases "map_of (ps_forward st) d")
    case None
    then have "allocate_new F pool faults d now ?st db = Some (st1, db1, r)"
      using res by (simp add: allocate_at_def)
    from allocate_new_keeps [OF good0 _ cfg this, of d' m] None live show ?thesis
      by (auto simp: live_mapping_def)
  next
    case (Some m0)
    show ?thesis
    proof (cases "expired_at (im_last_used_at m0) now ?ttl")
      case False
      then have "map_of (ps_forward st1) d' = Some m"
        using res Some keep ne by (auto simp: allocate_at_def Let_def split: if_splits prod.splits sum.splits)
      then show ?thesis ..
    next
      case True
      then have dead: "\<not> live_mapping pool now st d m'" for m'
        using Some by (auto simp: live_mapping_def)
      consider "st1 = ?st" | (renewed) db2 n where
        "delete_fakeip_entries (faults 0) db (pf_family F) (pl_prefix pool) [d] = (db2, Inr n)"
        "allocate_new F pool faults d now (drop_domain d ?st) db2 = Some (st1, db1, r)"
        using res Some True by (auto simp: allocate_at_def Let_def split: prod.splits sum.splits)
      then show ?thesis
      proof cases
        case renewed
        have good2: "pool_good F pool (drop_domain d ?st) db2"
          using pool_good_delete [OF good0 renewed(1)] by simp
        have "live_mapping pool now (drop_domain d ?st) d' m"
          using live ne by (simp add: live_mapping_drop)
        from allocate_new_keeps [OF good2 _ cfg renewed(2) this] dead show ?thesis
          by (simp add: least_recent_drop)
      qed (use keep in simp)
    qed
  qed
qed

end

subsection \<open>Capacity\<close>

lemma length_alist_insert: "map_of xs k = None \<Longrightarrow> length (AList.update k v xs) = Suc (length xs)"
  by (induction xs) (auto split: if_splits)

lemma length_alist_overwrite: "map_of xs k \<noteq> None \<Longrightarrow> length (AList.update k v xs) = length xs"
  by (induction xs) (auto split: if_splits)

lemma length_drop_domain: "length (ps_forward (drop_domain d st)) \<le> length (ps_forward st)"
  by (auto simp: drop_domain_def AList.delete_eq split: option.splits)

lemma length_drop_domain_live:
  "map_of (ps_forward st) d = Some m \<Longrightarrow> length (ps_forward (drop_domain d st)) < length (ps_forward st)"
  by (auto simp: drop_domain_def AList.delete_eq intro!: length_filter_less dest: map_of_SomeD)

lemma length_fold_drop: "length (ps_forward (fold drop_domain ds st)) \<le> length (ps_forward st)"
  by (induction ds arbitrary: st) (auto intro: le_trans length_drop_domain)

lemma length_fold_drop_live:
  "distinct ds \<Longrightarrow> set ds \<subseteq> dom (map_of (ps_forward st)) \<Longrightarrow>
   length (ps_forward (fold drop_domain ds st)) + length ds \<le> length (ps_forward st)"
proof (induction ds arbitrary: st)
  case (Cons d ds)
  then have "set ds \<subseteq> dom (map_of (ps_forward (drop_domain d st)))" "length (ps_forward (drop_domain d st)) < length (ps_forward st)"
    using length_drop_domain_live [of st d] by auto
  then have "length (ps_forward (fold drop_domain ds (drop_domain d st))) + length ds \<le> length (ps_forward (drop_domain d st))"
    using Cons.IH Cons.prems(1) by simp
  with \<open>length (ps_forward (drop_domain d st)) < length (ps_forward st)\<close> show ?case
    by simp
qed simp

lemma length_touch_mapping [simp]: "length (ps_forward (touch_mapping d f st)) = length (ps_forward st)"
  by (auto simp: touch_mapping_def length_alist_overwrite split: option.splits)

lemma length_mark_flushed [simp]: "length (ps_forward (fold mark_flushed ts st)) = length (ps_forward st)"
  by (induction ts arbitrary: st) (auto simp: mark_flushed_def split: sum.splits)

context address_family
begin

lemma store_new_length:
  assumes "store_new F pool fault d now st db (a, ev) nx = (st1, db1, r)" "map_of (ps_forward st) d = None"
    and "choose_address F pool st sz = Some (Inr (a, ev))" "length (ps_forward st) \<le> fo_max_entries (pl_options pool)"
  shows "length (ps_forward st1) \<le> fo_max_entries (pl_options pool)"
proof -
  let ?st = "case ev of None \<Rightarrow> st | Some e \<Rightarrow> drop_domain e st"
  have "length (ps_forward ?st) < fo_max_entries (pl_options pool)"
  proof (cases ev)
    case None
    then show ?thesis
      using assms(3) by (auto simp: choose_address_def split: if_splits option.splits)
  next
    case (Some e)
    then obtain m where "min_by_key (\<lambda>dm. im_last_used_at (snd dm)) (ps_forward st) = Some (e, m)"
      using assms(3) by (auto simp: choose_address_def split: if_splits option.splits)
    from min_by_key_in [OF this] have "map_of (ps_forward st) e \<noteq> None"
      using weak_map_of_SomeI by fastforce
    then show ?thesis
      using Some assms(4) length_drop_domain_live [of st e] by auto
  qed
  moreover have "map_of (ps_forward ?st) d = None"
    using assms(2) by (cases ev) auto
  ultimately show ?thesis
    using assms(1,4) by (auto simp: store_new_def Let_def put_mapping_def length_alist_insert split: prod.splits sum.splits)
qed

lemma allocate_new_length:
  assumes "allocate_new F pool faults d now st db = Some (st1, db1, r)" "map_of (ps_forward st) d = None"
    and "length (ps_forward st) \<le> fo_max_entries (pl_options pool)"
  shows "length (ps_forward st1) \<le> fo_max_entries (pl_options pool)"
proof -
  let ?st = "fold drop_domain (expired_domains pool now st) st"
  have le: "length (ps_forward ?st) \<le> fo_max_entries (pl_options pool)"
    using assms(3) length_fold_drop le_trans by blast
  have "map_of (ps_forward ?st) d = None"
    using assms(2) by (simp add: fold_drop_forward)
  note new = store_new_length [OF _ this _ le]
  show ?thesis
    using assms(1,3) le new by (auto simp: allocate_new_def Let_def split: sum.splits option.splits prod.splits)
qed

lemma allocate_at_length:
  assumes "allocate_at F pool faults d now st db = Some (st1, db1, r)"
    and "length (ps_forward st) \<le> fo_max_entries (pl_options pool)"
  shows "length (ps_forward st1) \<le> fo_max_entries (pl_options pool)"
proof -
  let ?st = "st\<lparr>ps_reserved := filter (\<lambda>al. \<not> expired_at (snd al) now (fo_ttl_seconds (pl_options pool))) (ps_reserved st)\<rparr>"
  have drop: "length (ps_forward (drop_domain d ?st)) \<le> fo_max_entries (pl_options pool)"
    using assms(2) length_drop_domain [of d ?st] by simp
  have "map_of (ps_forward (drop_domain d ?st)) d = None"
    by simp
  note renewed = allocate_new_length [OF _ this drop]
  show ?thesis
    using assms renewed allocate_new_length [of pool faults d now ?st db st1 db1 r]
    by (auto simp: allocate_at_def Let_def split: option.splits if_splits prod.splits sum.splits)
qed

lemma open_rows_length:
  assumes inv: "pool_inv F pool st0" and res: "open_rows F faults now db pool absent st0 rows = Some (db1, Inr st)"
  shows "length (ps_forward st) \<le> fo_max_entries (pl_options pool)"
proof -
  obtain st1 ex where load: "load_entries F pool now st0 [] rows = (st1, ex)"
    by fastforce
  let ?trim = "trim_domains (pl_options pool) st1"
  let ?keys = "map fst (sort_key snd (map (\<lambda>(d, m). (d, im_last_used_at m)) (ps_forward st1)))"
  have unit_ok: "b = Inr ()" if "\<And>e. b \<noteq> Inl e" for b :: "unit result"
    using that by (cases b) auto
  have st: "st = fold drop_domain ?trim st1"
    using res load unit_ok
    by (auto simp: open_rows_def Let_def rbind_def split: prod.splits sum.splits if_splits)
  have inv1: "pool_inv F pool st1"
    using load_entries_ok [OF load inv] by blast
  have fsts: "fst ` (\<lambda>(d, m). (d, im_last_used_at m)) ` X = fst ` X" for X :: "(domain_name \<times> 'w ip_mapping) set"
    by force
  have keys: "set ?keys = dom (map_of (ps_forward st1))" "length ?keys = length (ps_forward st1)"
    by (simp_all add: dom_map_of_conv_image_fst fsts)
  then have "distinct ?keys"
    using card_forward [OF inv1] by (intro card_distinct) simp
  then have "distinct ?trim" "set ?trim \<subseteq> dom (map_of (ps_forward st1))"
    using keys(1) by (auto simp: trim_domains_def simp del: set_map set_sort dest: in_set_takeD)
  from length_fold_drop_live [OF this] keys(2) show ?thesis
    by (simp add: st trim_domains_def)
qed

lemma open_with_prefix_length:
  assumes "config_ok F pool" "open_with_prefix F faults now db pool = Some (db1, Inr st)"
  shows "length (ps_forward st) \<le> fo_max_entries (pl_options pool)"
  using assms(2) by (rule open_with_prefix_inv) (rule open_rows_length [OF initial_state_inv [OF assms(1)]])

lemma pool_reach_length:
  assumes "pool_reach F pool False st db" "config_ok F pool"
  shows "length (ps_forward st) \<le> fo_max_entries (pl_options pool)"
  using assms
proof (induction rule: pool_reach.induct)
  case (released st db fault d st1 db1 rr)
  then show ?case
    using length_drop_domain [of d st] by (auto simp: pool_release_def split: option.splits prod.splits sum.splits)
next
  case (flushed st db fault st1 db1 rf)
  then show ?case
    by (auto simp: flush_touches_def split: prod.splits sum.splits)
qed (auto dest: open_with_prefix_length allocate_at_length)

lemma pool_reach_checked: "pool_reach F pool imp st db \<Longrightarrow> check_pool F pool = Inr ()"
  by (induction rule: pool_reach.induct) (auto elim: open_with_prefix_inv)

text \<open>Reopening: a stored row that is live, in the range and not claimed by another pool is loaded.\<close>

lemma load_entries_length:
  "load_entries F pool now st ex rows = (st1, ex1) \<Longrightarrow> length (ps_forward st1) \<le> length (ps_forward st) + length rows"
proof (induction rows arbitrary: st ex)
  case (Cons e rows)
  have IH: "load_entries F pool now st' ex' rows = (st1, ex1) \<Longrightarrow> length (ps_forward st') \<le> Suc (length (ps_forward st)) \<Longrightarrow>
      length (ps_forward st1) \<le> Suc (length (ps_forward st) + length rows)" for st' ex'
    using Cons.IH by fastforce
  show ?case
    using Cons.prems
    by (auto simp: Let_def put_mapping_def length_alist_insert split: if_splits sum.splits intro: IH)
qed simp

lemma load_entries_keeps:
  "load_entries F pool now st ex rows = (st1, ex1) \<Longrightarrow> map_of (ps_forward st) d = Some m \<Longrightarrow> map_of (ps_forward st1) d = Some m"
proof (induction rows arbitrary: st ex)
  case (Cons e rows)
  have IH: "load_entries F pool now st' ex' rows = (st1, ex1) \<Longrightarrow> map_of (ps_forward st') d = Some m \<Longrightarrow>
      map_of (ps_forward st1) d = Some m" for st' ex'
    using Cons.IH by blast
  have "map_of (ps_forward st) x = None \<Longrightarrow> map_of (ps_forward (put_mapping x y st)) d = Some m" for x y
    using Cons.prems(2) by auto
  note put = IH [OF _ this]
  show ?case
    using Cons.prems by (auto simp: Let_def simp del: map_of_eq_Some_iff put_mapping_simps split: if_splits sum.splits intro: IH put)
qed simp

lemma load_entries_complete:
  assumes "load_entries F pool now st ex rows = (st1, ex1)" "e \<in> set rows"
    and "\<And>e. e \<in> set rows \<Longrightarrow> valid_domain (fe_domain e)" "\<And>e. e \<in> set rows \<Longrightarrow> in_scope (pf_family F) (pl_prefix pool) e"
    and "distinct (map fe_domain rows)" "distinct (map fe_ip rows)"
    and "\<And>a e. e \<in> set rows \<Longrightarrow> fe_ip e = pf_octets F a \<Longrightarrow> map_of (ps_reverse st) a = None"
    and "\<And>e. e \<in> set rows \<Longrightarrow> map_of (ps_forward st) (fe_domain e) = None"
    and "fe_ip e = pf_octets F a" "config_contains F (pl_config pool) a" "map_of (ps_reserved st) a = None"
    and "\<not> expired_at (fe_last_used_at e) now (fo_ttl_seconds (pl_options pool))"
  shows "map_option im_address (map_of (ps_forward st1) (fe_domain e)) = Some a"
  using assms
proof (induction rows arbitrary: st ex)
  case (Cons f rows)
  let ?m = "\<lparr>im_address = pf_from_octets F (fe_ip f), im_created_at = fe_created_at f,
    im_last_used_at = fe_last_used_at f, im_persisted_last_used_at = fe_last_used_at f\<rparr>"
  have dom: "domain_name_new (fe_domain f) = Inr (fe_domain f)"
    using Cons.prems(3) domain_name_new_of_valid by simp
  show ?case
  proof (cases "e = f")
    case True
    then have "map_of (ps_reverse st) a = None" "map_of (ps_forward st) (fe_domain f) = None"
      using Cons.prems(7) [of f a] Cons.prems(8) [of f] Cons.prems(9) by simp_all
    then have "load_entries F pool now (put_mapping (fe_domain e) ?m st) ex rows = (st1, ex1)"
      using True Cons.prems(1,9-12) Cons.prems(4) [of f] dom by (simp add: in_scope_def Let_def)
    from load_entries_keeps [OF this] True Cons.prems(9) show ?thesis
      by simp
  next
    case False
    then have e: "e \<in> set rows"
      using Cons.prems(2) by simp
    have fresh: "map_of (ps_reverse st) a' = None" "map_of (ps_forward st) (fe_domain e') = None"
      "fe_domain e' \<noteq> fe_domain f" "fe_ip e' \<noteq> fe_ip f" if "e' \<in> set rows" "fe_ip e' = pf_octets F a'" for e' a'
      using that Cons.prems(5-8) by (auto simp: image_iff)
    have IH: "load_entries F pool now st' ex' rows = (st1, ex1) \<Longrightarrow>
        (\<And>a e. e \<in> set rows \<Longrightarrow> fe_ip e = pf_octets F a \<Longrightarrow> map_of (ps_reverse st') a = None) \<Longrightarrow>
        (\<And>e. e \<in> set rows \<Longrightarrow> map_of (ps_forward st') (fe_domain e) = None) \<Longrightarrow> ps_reserved st' = ps_reserved st \<Longrightarrow> ?thesis" for st' ex'
      using Cons.IH [of st' ex'] Cons.prems e by simp
    have skip: "load_entries F pool now st ex' rows = (st1, ex1) \<Longrightarrow> ?thesis" for ex'
      by (rule IH) (use fresh(1) Cons.prems(8) in auto)
    have put: "load_entries F pool now (put_mapping (fe_domain f) ?m st) ex rows = (st1, ex1) \<Longrightarrow>
        length (fe_ip f) = pf_ip_len F \<Longrightarrow> ?thesis"
      using Cons.prems(5,6,7,8) octets_from [of "fe_ip f"]
      by (intro IH [of "put_mapping (fe_domain f) ?m st" ex]) (auto simp: image_iff)
    show ?thesis
      using Cons.prems(1) skip put dom by (auto simp: Let_def split: if_splits)
  qed
qed simp

lemma open_restores:
  assumes cfg: "config_ok F pool" and ok: "db_ok db" "rows_canonical F pool db"
    and res: "open_with_prefix F faults now db pool = Some (db1, Inr st)"
    and fits: "length (filter (in_scope (pf_family F) (pl_prefix pool)) (db_entries db)) \<le> fo_max_entries (pl_options pool)"
    and e: "e \<in> set (db_entries db)" "in_scope (pf_family F) (pl_prefix pool) e"
      "fe_ip e = pf_octets F a" "config_contains F (pl_config pool) a"
      "\<not> expired_at (fe_last_used_at e) now (fo_ttl_seconds (pl_options pool))"
    and free: "map_of (ps_reserved st) a = None"
  shows "map_option im_address (map_of (ps_forward st) (fe_domain e)) = Some a"
  using res
proof (rule open_with_prefix_inv)
  fix typed others cursor legacy legacy_cursor
  assume typed: "list_fakeip_entries (faults 0) db (pf_family F) (pl_prefix pool) = Inr typed"
    and rows: "open_rows F faults now db pool (typed = []) (initial_state F pool now others cursor legacy_cursor)
       (if typed = [] then legacy else typed) = Some (db1, Inr st)"
  let ?rows = "filter (in_scope (pf_family F) (pl_prefix pool)) (db_entries db)"
  let ?st0 = "initial_state F pool now others cursor legacy_cursor"
  have "typed = sort_key fe_ip (sort_key (\<lambda>e. as_bytes (fe_domain e)) ?rows)"
    using typed by (auto simp: list_fakeip_entries_def rbind_def split: sum.splits option.splits)
  then have perm: "mset typed = mset ?rows"
    by simp
  then have set_typed: "set typed = set ?rows" and len: "length typed = length ?rows"
    by (metis set_mset_mset, metis size_mset)
  have "distinct (map entry_key ?rows)" "distinct (map entry_addr ?rows)"
    using ok(1) by (auto simp: db_ok_def distinct_map_filter)
  then have "distinct (map fe_domain ?rows)" "distinct (map fe_ip ?rows)"
    by (auto simp: distinct_map inj_on_def in_scope_def entry_key_def entry_addr_def)
  moreover have "mset (map f typed) = mset (map f ?rows)" for f :: "fakeip_entry \<Rightarrow> 'b"
    using perm by simp
  ultimately have dist: "distinct (map fe_domain typed)" "distinct (map fe_ip typed)"
    by (metis mset_eq_imp_distinct_iff)+
  have in_typed: "e \<in> set typed"
    using e set_typed by simp
  then have "typed \<noteq> []"
    by auto
  obtain st1 ex where load: "load_entries F pool now ?st0 [] typed = (st1, ex)"
    by fastforce
  have inv1: "ps_reserved st1 = ps_reserved ?st0"
    using load_entries_ok [OF load initial_state_inv [OF cfg]] by blast
  have "length (ps_forward st1) \<le> fo_max_entries (pl_options pool)"
    using load_entries_length [OF load] len fits by simp
  then have "trim_domains (pl_options pool) st1 = []"
    by (simp add: trim_domains_def)
  with rows load \<open>typed \<noteq> []\<close> have st: "st = st1"
    by (auto simp: open_rows_def Let_def split: prod.splits sum.splits if_splits)
  show ?thesis
    unfolding st
    by (rule load_entries_complete [OF load in_typed _ _ dist])
      (use ok(2) e set_typed free inv1 st in \<open>auto simp: rows_canonical_def initial_state_def Let_def\<close>)
qed

end

end
