(* ===== verification/Fakeip_Properties.thy ===== *)
theory Fakeip_Properties
  imports Fakeip_Guarantees
begin

text \<open>
  The properties of the FakeIP pools at the two address widths, over the interpretations of
  the address family, with a small pool as the witness.
\<close>

lemma fakeip_config_new_ok: "fakeip_config_new s e = Inr c \<Longrightarrow> fr_start c = s \<and> fr_end c = e \<and> s \<le> e"
  by (auto simp: fakeip_config_new_def split: if_splits)

lemma fakeip_v6_config_new_ok: "fakeip_v6_config_new s e = Inr c \<Longrightarrow> fr_start c = s \<and> fr_end c = e \<and> s \<le> e"
  by (auto simp: fakeip_v6_config_new_def split: if_splits)

lemma config_ok_v4: "fakeip_config_new s e = Inr (pl_config pool) \<Longrightarrow> config_ok family_v4 pool"
  by (auto dest!: fakeip_config_new_ok simp: config_ok_def family_v4_def word_le_nat_alt)

lemma config_ok_v6: "fakeip_v6_config_new s e = Inr (pl_config pool) \<Longrightarrow> config_ok family_v6 pool"
  by (auto dest!: fakeip_v6_config_new_ok simp: config_ok_def family_v6_def word_le_nat_alt)

lemma contains_v4: "config_contains family_v4 c a \<longleftrightarrow> fr_start c \<le> a \<and> a \<le> fr_end c"
  by (simp add: config_contains_def family_v4_def word_le_nat_alt)

lemma contains_v6: "config_contains family_v6 c a \<longleftrightarrow> fr_start c \<le> a \<and> a \<le> fr_end c"
  by (simp add: config_contains_def family_v6_def word_le_nat_alt)

lemma family_fields:
  "pf_family family_v4 = 4" "pf_octets family_v4 = to_be32" "pf_family family_v6 = 6" "pf_octets family_v6 = to_be128"
  by (simp_all add: family_v4_def family_v6_def)

lemma size_v4: "pf_size family_v4 c = Inr (fakeip_config_size c)"
  by (simp add: family_v4_def)

lemma size_v4_small: "2 * fakeip_config_size c \<le> 2 ^ pf_bits family_v4"
proof -
  have "unat (fr_end c - fr_start c) < 2 ^ 32"
    using unsigned_less [of "fr_end c - fr_start c"] by simp
  then show ?thesis
    by (simp add: fakeip_config_size_def family_v4_def)
qed

lemma lookup_inverse:
  assumes "pool_inv F pool st"
  shows "pool_lookup_ip st d = Some a \<longleftrightarrow> pool_lookup_domain st a = Some d"
  using pool_invD(3,6) [OF assms] by (fastforce simp: pool_lookup_ip_def pool_lookup_domain_def)

lemma lookup_row:
  assumes "pool_good F pool st db" "pool_lookup_ip st d = Some a"
  shows "config_contains F (pl_config pool) a"
    "\<exists>e \<in> set (db_entries db). fe_family e = pf_family F \<and> fe_prefix e = pl_prefix pool \<and> fe_domain e = d \<and> fe_ip e = pf_octets F a"
proof -
  have inv: "pool_inv F pool st" and per: "persisted F pool st db"
    using assms(1) by (simp_all add: pool_good_def)
  obtain m where m: "map_of (ps_forward st) d = Some m" "a = im_address m"
    using assms(2) by (auto simp: pool_lookup_ip_def)
  show "config_contains F (pl_config pool) a"
    using pool_invD(4) [OF inv m(1)] m(2) by simp
  obtain e where "scope_row db (pf_family F) (pl_prefix pool) d = Some e" "row_matches F m e"
    using persistedD [OF per m(1)] by blast
  then show "\<exists>e \<in> set (db_entries db). fe_family e = pf_family F \<and> fe_prefix e = pl_prefix pool \<and> fe_domain e = d \<and> fe_ip e = pf_octets F a"
    using m(2) by (auto simp: scope_row_def find_Some_iff row_matches_def in_scope_def)
qed

lemma snapshot_v4_lookup: "view_lookup_domain_ip (pool_snapshot_v4 st) (V4 a) = pool_lookup_domain st a"
  by (simp add: view_lookup_domain_ip_def pool_snapshot_v4_def view_from_maps_def view_lookup_domain_def pool_lookup_domain_def)

lemma snapshot_v6_lookup: "view_lookup_domain_ip (pool_snapshot_v6 st) (V6 a) = pool_lookup_domain st a"
  by (simp add: view_lookup_domain_ip_def pool_snapshot_v6_def view_from_maps_def view_lookup_domain_v6_def pool_lookup_domain_def)

text \<open>A small v4 pool, opened on empty tables and asked for three domains.\<close>

definition demo_pool :: "u32 fakeip_pool" where
  "demo_pool =
     \<lparr>pl_config = \<lparr>fr_start = 10, fr_end = 12\<rparr>, pl_prefix = ''p'',
      pl_options = \<lparr>fo_max_entries = 2, fo_ttl_seconds = 60, fo_touch_interval_seconds = 10\<rparr>\<rparr>"

definition demo_db :: config_db where
  "demo_db = \<lparr>db_entries = [], db_cursors = [], db_config = []\<rparr>"

definition demo_state :: "(domain_name \<times> u32 \<times> int) list \<Rightarrow> u32 \<Rightarrow> u32 pool_state" where
  "demo_state ms nx =
     \<lparr>ps_next = nx, ps_forward = map (\<lambda>(d, a, t). (d, new_mapping a t)) ms,
      ps_reverse = map (\<lambda>(d, a, t). (a, d)) ms, ps_reserved = []\<rparr>"

definition demo_rows :: "(domain_name \<times> u32 \<times> int) list \<Rightarrow> u32 \<Rightarrow> int \<Rightarrow> config_db" where
  "demo_rows ms nx t =
     \<lparr>db_entries = map (\<lambda>(d, a, t). new_entry family_v4 demo_pool d a t) ms,
      db_cursors = [pool_cursor family_v4 demo_pool nx t], db_config = []\<rparr>"

lemma demo_open: "open_with_prefix family_v4 (\<lambda>_. None) 100 demo_db demo_pool = Some (demo_db, Inr (demo_state [] 10))"
  by code_simp

lemma demo_allocate1:
  "allocate_at family_v4 demo_pool (\<lambda>_. None) ''a.b'' 100 (demo_state [] 10) demo_db =
     Some (demo_state [(''a.b'', 10, 100)] 11, demo_rows [(''a.b'', 10, 100)] 11 100, Inr 10)"
  by code_simp

lemma demo_allocate2:
  "allocate_at family_v4 demo_pool (\<lambda>_. None) ''c.d'' 101 (demo_state [(''a.b'', 10, 100)] 11) (demo_rows [(''a.b'', 10, 100)] 11 100) =
     Some (demo_state [(''a.b'', 10, 100), (''c.d'', 11, 101)] 12,
           demo_rows [(''a.b'', 10, 100), (''c.d'', 11, 101)] 12 101, Inr 11)"
  by code_simp

lemma demo_domains: "valid_domain ''a.b''" "valid_domain ''c.d''" "valid_domain ''e.f''"
  by code_simp+

lemma demo_reach:
  "pool_reach family_v4 demo_pool imp (demo_state [(''a.b'', 10, 100), (''c.d'', 11, 101)] 12)
     (demo_rows [(''a.b'', 10, 100), (''c.d'', 11, 101)] 12 101)"
proof -
  have "pool_reach family_v4 demo_pool imp (demo_state [] 10) demo_db"
    by (rule pool_reach.opened [OF _ _ demo_open]) (simp_all add: db_ok_def rows_canonical_def demo_db_def)
  from pool_reach.allocated [OF pool_reach.allocated [OF this demo_domains(1) demo_allocate1] demo_domains(2) demo_allocate2]
  show ?thesis .
qed

lemma demo_config: "fakeip_config_new 10 12 = Inr (pl_config demo_pool)"
  by code_simp

text \<open>
  C7: whatever sequence of opens, allocations, releases, flushes and legacy imports a v4 pool has
  gone through, and whichever of its database calls failed, address and domain lookups are
  inverse to each other, the reverse view it publishes agrees with them, every mapped address
  lies in the configured range, and every mapping has its row in the store, whose key and
  address constraints hold.
\<close>

theorem fakeip_bijection_v4:
  assumes "pool_reach family_v4 pool True st db" "fakeip_config_new first final = Inr (pl_config pool)"
  shows "(pool_lookup_ip st d = Some a \<longleftrightarrow> pool_lookup_domain st a = Some d)
    \<and> view_lookup_domain_ip (pool_snapshot_v4 st) (V4 a) = pool_lookup_domain st a
    \<and> (pool_lookup_ip st d = Some a \<longrightarrow> first \<le> a \<and> a \<le> final
        \<and> (\<exists>e \<in> set (db_entries db). fe_family e = 4 \<and> fe_prefix e = pl_prefix pool \<and> fe_domain e = d \<and> fe_ip e = to_be32 a))
    \<and> db_ok db"
proof -
  have good: "pool_good family_v4 pool st db"
    using v4.pool_reach_good [OF assms(1) config_ok_v4 [OF assms(2)]] .
  then have inv: "pool_inv family_v4 pool st" "db_ok db"
    by (simp_all add: pool_good_def)
  show ?thesis
    using lookup_inverse [OF inv(1)] lookup_row [OF good, of d a] fakeip_config_new_ok [OF assms(2)] inv(2)
    by (auto simp: snapshot_v4_lookup contains_v4 family_fields)
qed

theorem fakeip_bijection_v4_witness:
  "let st = demo_state [(''a.b'', 10, 100), (''c.d'', 11, 101)] 12 in
     pool_lookup_ip st ''c.d'' = Some 11 \<and> pool_lookup_domain st 11 = Some ''c.d''
     \<and> view_lookup_domain_ip (pool_snapshot_v4 st) (V4 11) = Some ''c.d''"
proof -
  have "pool_lookup_ip (demo_state [(''a.b'', 10, 100), (''c.d'', 11, 101)] 12) ''c.d'' = Some 11"
    by code_simp
  then show ?thesis
    using fakeip_bijection_v4 [OF demo_reach demo_config, of "''c.d''" 11] by (simp add: Let_def)
qed

text \<open>
  The same for the v6 pools.
\<close>

lemma fakeip_bijection_v6:
  assumes "pool_reach family_v6 pool True st db" "fakeip_v6_config_new first final = Inr (pl_config pool)"
  shows "(pool_lookup_ip st d = Some a \<longleftrightarrow> pool_lookup_domain st a = Some d)
    \<and> view_lookup_domain_ip (pool_snapshot_v6 st) (V6 a) = pool_lookup_domain st a
    \<and> (pool_lookup_ip st d = Some a \<longrightarrow> first \<le> a \<and> a \<le> final
        \<and> (\<exists>e \<in> set (db_entries db). fe_family e = 6 \<and> fe_prefix e = pl_prefix pool \<and> fe_domain e = d \<and> fe_ip e = to_be128 a))
    \<and> db_ok db"
proof -
  have good: "pool_good family_v6 pool st db"
    using v6.pool_reach_good [OF assms(1) config_ok_v6 [OF assms(2)]] .
  then have inv: "pool_inv family_v6 pool st" "db_ok db"
    by (simp_all add: pool_good_def)
  show ?thesis
    using lookup_inverse [OF inv(1)] lookup_row [OF good, of d a] fakeip_v6_config_new_ok [OF assms(2)] inv(2)
    by (auto simp: snapshot_v6_lookup contains_v6 family_fields)
qed

definition demo_pool6 :: "u128 fakeip_pool" where
  "demo_pool6 =
     \<lparr>pl_config = \<lparr>fr_start = 8, fr_end = 15\<rparr>, pl_prefix = ''p'',
      pl_options = \<lparr>fo_max_entries = 4, fo_ttl_seconds = 60, fo_touch_interval_seconds = 10\<rparr>\<rparr>"

definition demo_state6 :: "u128 \<Rightarrow> (domain_name \<times> u128) list \<Rightarrow> u128 pool_state" where
  "demo_state6 nx ms =
     \<lparr>ps_next = nx, ps_forward = map (\<lambda>(d, a). (d, new_mapping a 100)) ms,
      ps_reverse = map (\<lambda>(d, a). (a, d)) ms, ps_reserved = []\<rparr>"

definition demo_rows6 :: config_db where
  "demo_rows6 =
     \<lparr>db_entries = [new_entry family_v6 demo_pool6 ''a.b'' 8 100],
      db_cursors = [pool_cursor family_v6 demo_pool6 9 100], db_config = []\<rparr>"

lemma demo_open6:
  "open_with_prefix family_v6 (\<lambda>_. None) 100 demo_db demo_pool6 = Some (demo_db, Inr (demo_state6 8 []))"
  by code_simp

lemma demo_allocate6:
  "allocate_at family_v6 demo_pool6 (\<lambda>_. None) ''a.b'' 100 (demo_state6 8 []) demo_db =
     Some (demo_state6 9 [(''a.b'', 8)], demo_rows6, Inr 8)"
  by code_simp

lemma demo_reach6: "pool_reach family_v6 demo_pool6 imp (demo_state6 9 [(''a.b'', 8)]) demo_rows6"
proof -
  have "pool_reach family_v6 demo_pool6 imp (demo_state6 8 []) demo_db"
    by (rule pool_reach.opened [OF _ _ demo_open6]) (simp_all add: db_ok_def rows_canonical_def demo_db_def)
  from pool_reach.allocated [OF this demo_domains(1) demo_allocate6] show ?thesis .
qed

lemma demo_config6: "fakeip_v6_config_new 8 15 = Inr (pl_config demo_pool6)"
  by code_simp

lemma fakeip_bijection_v6_example:
  "let st = demo_state6 9 [(''a.b'', 8)] in
     pool_lookup_ip st ''a.b'' = Some 8 \<and> pool_lookup_domain st 8 = Some ''a.b''
     \<and> view_lookup_domain_ip (pool_snapshot_v6 st) (V6 8) = Some ''a.b''"
proof -
  have "pool_lookup_ip (demo_state6 9 [(''a.b'', 8)]) ''a.b'' = Some 8"
    by code_simp
  then show ?thesis
    using fakeip_bijection_v6 [OF demo_reach6 demo_config6, of "''a.b''" "8"] by (simp add: Let_def)
qed

lemma allocate_v4_answers:
  assumes "pool_reach family_v4 pool True st db" "fakeip_config_new first final = Inr (pl_config pool)"
    and "valid_domain d" "0 \<le> now"
  shows "\<exists>st1 db1 r. allocate_at family_v4 pool (\<lambda>_. None) d now st db = Some (st1, db1, r) \<and>
    (case r of
       Inr a \<Rightarrow> first \<le> a \<and> a \<le> final \<and> pool_lookup_ip st1 d = Some a \<and> pool_lookup_domain st1 a = Some d
     | Inl e \<Rightarrow> e = pool_exhausted family_v4 \<and>
         (\<forall>a. first \<le> a \<and> a \<le> final \<longrightarrow> pool_lookup_domain st1 a \<noteq> None \<or> map_of (ps_reserved st1) a \<noteq> None))"
proof -
  note cfg = config_ok_v4 [OF assms(2)] and ends = fakeip_config_new_ok [OF assms(2)]
  have good: "pool_good family_v4 pool st db"
    using v4.pool_reach_good [OF assms(1) cfg] .
  from v4.allocate_at_total [OF good assms(3,4) cfg v4.pool_reach_checked [OF assms(1)] size_v4 size_v4_small]
  obtain st1 db1 r where res: "allocate_at family_v4 pool (\<lambda>_. None) d now st db = Some (st1, db1, r)"
    and failed: "\<And>e. r = Inl e \<Longrightarrow> e = pool_exhausted family_v4 \<and> (\<forall>a. config_contains family_v4 (pl_config pool) a \<longrightarrow>
       map_of (ps_reverse st1) a \<noteq> None \<or> map_of (ps_reserved st1) a \<noteq> None)"
    by blast
  note ok = v4.allocate_at_good [OF good assms(3) cfg res]
  then have "pool_inv family_v4 pool st1"
    by (simp add: pool_good_def)
  note inverse = lookup_inverse [OF this]
  show ?thesis
  proof (cases r)
    case (Inl e)
    then show ?thesis
      using failed ends by (auto simp: res contains_v4 pool_lookup_domain_def)
  next
    case (Inr a)
    then have "pool_lookup_ip st1 d = Some a"
      using ok by (simp add: pool_lookup_ip_def)
    then show ?thesis
      using Inr ok ends lookup_row(1) [of family_v4 pool st1 db1 d a] inverse [of d a]
      by (auto simp: res contains_v4)
  qed
qed

text \<open>
  C10: with a working database, asking a v4 pool for a domain always answers: with an address of
  the range that from then on belongs to the domain, in both directions, or with the exhaustion
  error, and then every address of the range is mapped or reserved by another pool.
\<close>

theorem fakeip_allocate_v4:
  assumes "pool_reach family_v4 pool True st db" "fakeip_config_new first final = Inr (pl_config pool)"
    and "valid_domain d" "0 \<le> now"
  shows "\<exists>st1 db1 r. allocate_at family_v4 pool (\<lambda>_. None) d now st db = Some (st1, db1, r) \<and>
    (case r of
       Inr a \<Rightarrow> first \<le> a \<and> a \<le> final \<and> pool_lookup_ip st1 d = Some a \<and> pool_lookup_domain st1 a = Some d
     | Inl e \<Rightarrow> e = pool_exhausted family_v4 \<and>
         (\<forall>a. first \<le> a \<and> a \<le> final \<longrightarrow> pool_lookup_domain st1 a \<noteq> None \<or> map_of (ps_reserved st1) a \<noteq> None))"
  using allocate_v4_answers [OF assms] .

lemma demo_allocate3:
  "allocate_at family_v4 demo_pool (\<lambda>_. None) ''e.f'' 102
     (demo_state [(''a.b'', 10, 100), (''c.d'', 11, 101)] 12) (demo_rows [(''a.b'', 10, 100), (''c.d'', 11, 101)] 12 101) =
     Some (demo_state [(''c.d'', 11, 101), (''e.f'', 10, 102)] 11,
           demo_rows [(''c.d'', 11, 101), (''e.f'', 10, 102)] 11 102, Inr 10)"
  by code_simp

theorem fakeip_allocate_v4_witness:
  "pool_lookup_domain (demo_state [(''c.d'', 11, 101), (''e.f'', 10, 102)] 11) 10 = Some ''e.f''"
  using fakeip_allocate_v4 [OF demo_reach demo_config demo_domains(3), of 102] by (simp add: demo_allocate3)

text \<open>
  C32: a v6 pool of at most 2^127 addresses, which keeps the offset arithmetic within 128 bits,
  answers in the same way.
\<close>

theorem fakeip_allocate_v6:
  assumes "pool_reach family_v6 pool True st db" "fakeip_v6_config_new first final = Inr (pl_config pool)"
    and "unat final - unat first < 2 ^ 127" "valid_domain d" "0 \<le> now"
  shows "\<exists>st1 db1 r. allocate_at_v6 pool (\<lambda>_. None) d now st db = Some (st1, db1, r) \<and>
    (case r of
       Inr a \<Rightarrow> first \<le> a \<and> a \<le> final \<and> pool_lookup_ip st1 d = Some a \<and> pool_lookup_domain st1 a = Some d
     | Inl e \<Rightarrow> e = pool_exhausted family_v6 \<and>
         (\<forall>a. first \<le> a \<and> a \<le> final \<longrightarrow> pool_lookup_domain st1 a \<noteq> None \<or> map_of (ps_reserved st1) a \<noteq> None))"
proof -
  note cfg = config_ok_v6 [OF assms(2)] and ends = fakeip_v6_config_new_ok [OF assms(2)]
  let ?sz = "unat final - unat first + 1"
  have sz: "pf_size family_v6 (pl_config pool) = Inr ?sz" "2 * ?sz \<le> 2 ^ pf_bits family_v6"
    using assms(3) ends by (simp_all add: family_v6_def fakeip_v6_config_size_def)
  have good: "pool_good family_v6 pool st db"
    using v6.pool_reach_good [OF assms(1) cfg] .
  from v6.allocate_at_total [OF good assms(4,5) cfg v6.pool_reach_checked [OF assms(1)] sz, folded allocate_at_v6_def]
  obtain st1 db1 r where res: "allocate_at_v6 pool (\<lambda>_. None) d now st db = Some (st1, db1, r)"
    and failed: "\<And>e. r = Inl e \<Longrightarrow> e = pool_exhausted family_v6 \<and> (\<forall>a. config_contains family_v6 (pl_config pool) a \<longrightarrow>
       map_of (ps_reverse st1) a \<noteq> None \<or> map_of (ps_reserved st1) a \<noteq> None)"
    by blast
  note ok = v6.allocate_at_good [OF good assms(4) cfg res [unfolded allocate_at_v6_def]]
  then have "pool_inv family_v6 pool st1"
    by (simp add: pool_good_def)
  note inverse = lookup_inverse [OF this]
  show ?thesis
  proof (cases r)
    case (Inl e)
    then show ?thesis
      using failed ends by (auto simp: res contains_v6 pool_lookup_domain_def)
  next
    case (Inr a)
    then have "pool_lookup_ip st1 d = Some a"
      using ok by (simp add: pool_lookup_ip_def)
    then show ?thesis
      using Inr ok ends lookup_row(1) [of family_v6 pool st1 db1 d a] inverse [of d a]
      by (auto simp: res contains_v6)
  qed
qed

lemma demo_allocate6_again:
  "map_option (\<lambda>(st, db, r). (pool_lookup_domain st 9, r))
     (allocate_at_v6 demo_pool6 (\<lambda>_. None) ''c.d'' 100 (demo_state6 9 [(''a.b'', 8)]) demo_rows6) = Some (Some ''c.d'', Inr 9)"
  by code_simp

theorem fakeip_allocate_v6_witness:
  "\<exists>st1 db1. allocate_at_v6 demo_pool6 (\<lambda>_. None) ''c.d'' 100 (demo_state6 9 [(''a.b'', 8)]) demo_rows6
     = Some (st1, db1, Inr 9) \<and> pool_lookup_ip st1 ''c.d'' = Some 9"
proof -
  have "unat (15 :: u128) - unat (8 :: u128) < 2 ^ 127"
    by simp
  from fakeip_allocate_v6 [OF demo_reach6 demo_config6 this demo_domains(2), of 100] obtain st1 db1 r where
    "allocate_at_v6 demo_pool6 (\<lambda>_. None) ''c.d'' 100 (demo_state6 9 [(''a.b'', 8)]) demo_rows6 = Some (st1, db1, r)"
    "case r of Inr a \<Rightarrow> 8 \<le> a \<and> a \<le> 15 \<and> pool_lookup_ip st1 ''c.d'' = Some a \<and> pool_lookup_domain st1 a = Some ''c.d''
     | Inl e \<Rightarrow> e = pool_exhausted family_v6 \<and>
         (\<forall>a. 8 \<le> a \<and> a \<le> 15 \<longrightarrow> pool_lookup_domain st1 a \<noteq> None \<or> map_of (ps_reserved st1) a \<noteq> None)"
    by auto
  with demo_allocate6_again show ?thesis
    by simp
qed

text \<open>
  C29: an allocation leaves every other live mapping of a v4 pool alone, except that a full pool
  gives up one: the least recently used mapping, whose address goes to the new domain, and only
  when the new domain has no live mapping of its own.
\<close>

theorem fakeip_evicts_least_recent:
  assumes "pool_reach family_v4 pool True st db" "fakeip_config_new first final = Inr (pl_config pool)"
    and "allocate_at family_v4 pool faults d now st db = Some (st1, db1, r)"
    and "live_mapping pool now st d' m" "d' \<noteq> d"
  shows "pool_lookup_ip st1 d' = Some (im_address m) \<or>
    r = Inr (im_address m) \<and> (\<forall>m'. \<not> live_mapping pool now st d m')
    \<and> fo_max_entries (pl_options pool) \<le> card {d. \<exists>m. live_mapping pool now st d m}
    \<and> (\<forall>d'' m''. live_mapping pool now st d'' m'' \<longrightarrow> im_last_used_at m \<le> im_last_used_at m'')"
  using v4.allocate_at_keeps [OF v4.pool_reach_good [OF assms(1) config_ok_v4 [OF assms(2)]] config_ok_v4 [OF assms(2)] assms(3-5)]
  by (auto simp: pool_lookup_ip_def least_recent_def)

theorem fakeip_evicts_least_recent_witness:
  "live_mapping demo_pool 102 (demo_state [(''a.b'', 10, 100), (''c.d'', 11, 101)] 12) ''a.b'' (new_mapping 10 100) \<and>
   fo_max_entries (pl_options demo_pool) \<le>
     card {d. \<exists>m. live_mapping demo_pool 102 (demo_state [(''a.b'', 10, 100), (''c.d'', 11, 101)] 12) d m}"
proof -
  have live: "live_mapping demo_pool 102 (demo_state [(''a.b'', 10, 100), (''c.d'', 11, 101)] 12) ''a.b'' (new_mapping 10 100)"
    by (simp add: live_mapping_def demo_state_def demo_pool_def new_mapping_def expired_at_def)
  have "pool_lookup_ip (demo_state [(''c.d'', 11, 101), (''e.f'', 10, 102)] 11) ''a.b'' = None"
    by code_simp
  with live fakeip_evicts_least_recent [OF demo_reach demo_config demo_allocate3 live] show ?thesis
    by (simp add: new_mapping_def)
qed

text \<open>
  Without legacy imports a v4 pool never holds more mappings than \<open>max_entries\<close>.
\<close>

lemma fakeip_capacity:
  assumes "pool_reach family_v4 pool False st db" "fakeip_config_new first final = Inr (pl_config pool)"
  shows "pool_len st \<le> fo_max_entries (pl_options pool)"
  using v4.pool_reach_length [OF assms(1) config_ok_v4 [OF assms(2)]] by (simp add: pool_len_def)

lemma fakeip_capacity_example:
  "pool_len (demo_state [(''a.b'', 10, 100), (''c.d'', 11, 101)] 12) \<le> 2"
  using fakeip_capacity [OF demo_reach demo_config] by (simp add: demo_pool_def)

text \<open>
  A legacy import is not held to \<open>max_entries\<close>: it leaves a pool of capacity two with three
  mappings.
\<close>

lemma fakeip_import_exceeds_capacity:
  "\<exists>st db. import_legacy family_v4 demo_pool None ''old'' [(''a.b'', 10), (''c.d'', 11), (''e.f'', 12)] None 100
      (demo_state [] 10) demo_db = Some (st, db, Inr True)
    \<and> pool_reach family_v4 demo_pool True st db \<and> fo_max_entries (pl_options demo_pool) = 2 \<and> pool_len st = 3"
proof -
  let ?es = "[(''a.b'', 10), (''c.d'', 11), (''e.f'', 12)] :: (domain_name \<times> u32) list"
  let ?run = "import_legacy family_v4 demo_pool None ''old'' ?es None 100 (demo_state [] 10) demo_db"
  have "map_option (\<lambda>(st, db, r). (pool_len st, r)) ?run = Some (3, Inr True)"
    by code_simp
  then obtain st db where run: "?run = Some (st, db, Inr True)" "pool_len st = 3"
    by auto
  have "pool_reach family_v4 demo_pool True (demo_state [] 10) demo_db"
    by (rule pool_reach.opened [OF _ _ demo_open]) (simp_all add: db_ok_def rows_canonical_def demo_db_def)
  moreover have "\<And>d a. (d, a) \<in> set ?es \<Longrightarrow> valid_domain d"
    using demo_domains by auto
  ultimately have "pool_reach family_v4 demo_pool True st db"
    by (rule pool_reach.imported [OF TrueI _ _ run(1)])
  with run show ?thesis
    by (simp add: demo_pool_def)
qed

text \<open>
  C30: reopening a v4 pool on tables that hold no more rows of its scope than \<open>max_entries\<close>
  restores every row that is within the range, not expired and not claimed by another pool, with
  its address.
\<close>

theorem fakeip_reopen_restores:
  assumes "db_ok db" "rows_canonical family_v4 pool db" "fakeip_config_new first final = Inr (pl_config pool)"
    and "open_with_prefix family_v4 faults now db pool = Some (db1, Inr st)"
    and "length (filter (in_scope 4 (pl_prefix pool)) (db_entries db)) \<le> fo_max_entries (pl_options pool)"
    and "e \<in> set (db_entries db)" "in_scope 4 (pl_prefix pool) e" "fe_ip e = to_be32 a" "first \<le> a" "a \<le> final"
    and "\<not> expired_at (fe_last_used_at e) now (fo_ttl_seconds (pl_options pool))" "map_of (ps_reserved st) a = None"
  shows "pool_lookup_ip st (fe_domain e) = Some a \<and> pool_lookup_domain st a = Some (fe_domain e)"
proof -
  note cfg = config_ok_v4 [OF assms(3)]
  have "map_option im_address (map_of (ps_forward st) (fe_domain e)) = Some a"
    using v4.open_restores [OF cfg assms(1,2,4)] assms fakeip_config_new_ok [OF assms(3)]
    by (simp add: family_fields contains_v4)
  moreover have "pool_inv family_v4 pool st"
    using v4.open_with_prefix_good [OF cfg assms(1,2,4)] by (simp add: pool_good_def)
  ultimately show ?thesis
    using lookup_inverse [of family_v4 pool st "fe_domain e" a] by (simp add: pool_lookup_ip_def)
qed

lemma demo_reopen:
  "open_with_prefix family_v4 (\<lambda>_. None) 110 (demo_rows [(''a.b'', 10, 100), (''c.d'', 11, 101)] 12 101) demo_pool =
     Some (demo_rows [(''a.b'', 10, 100), (''c.d'', 11, 101)] 12 101, Inr (demo_state [(''a.b'', 10, 100), (''c.d'', 11, 101)] 12))"
  by code_simp

theorem fakeip_reopen_restores_witness:
  "pool_lookup_domain (demo_state [(''a.b'', 10, 100), (''c.d'', 11, 101)] 12) 11 = Some ''c.d''"
proof -
  let ?db = "demo_rows [(''a.b'', 10, 100), (''c.d'', 11, 101)] 12 101"
  have "db_ok ?db"
    using v4.pool_reach_good [OF demo_reach config_ok_v4 [OF demo_config]] by (simp add: pool_good_def)
  moreover have "rows_canonical family_v4 demo_pool ?db"
    using demo_domains by (simp add: demo_rows_def rows_canonical_def new_entry_def)
  ultimately have "db_ok ?db" "rows_canonical family_v4 demo_pool ?db" .
  from fakeip_reopen_restores [OF this demo_config demo_reopen, of "new_entry family_v4 demo_pool ''c.d'' 11 101" 11]
  show ?thesis
    by (simp add: demo_rows_def new_entry_def in_scope_def family_fields demo_pool_def expired_at_def demo_state_def)
qed

end
