(* ===== verification/Dns_Hosts.thy ===== *)
theory Dns_Hosts
  imports Fakeip_Config "HOL-Library.Char_ord" "HOL-Library.List_Lexorder"
begin

text \<open>
  The hosts table in front of the DNS resolvers, \<open>dns/src/dns_hosts.rs\<close>, with the answers of
  \<open>types/src/dns.rs\<close>: overrides of names by addresses or by other names, the reverse index for PTR
  queries, the targets of the flow dispatcher, and the handler. A \<open>BTreeMap\<close> is a list with ascending
  keys; names are ordered by their bytes.
\<close>

subsection \<open>Ordered maps\<close>

fun bt_insert :: "'k :: linorder \<Rightarrow> 'v \<Rightarrow> ('k \<times> 'v) list \<Rightarrow> ('k \<times> 'v) list" where
  "bt_insert k v [] = [(k, v)]"
| "bt_insert k v ((k', v') # m) =
     (if k < k' then (k, v) # (k', v') # m else if k = k' then (k, v) # m else (k', v') # bt_insert k v m)"

definition bt_ok :: "('k :: linorder \<times> 'v) list \<Rightarrow> bool" where
  "bt_ok m \<longleftrightarrow> sorted_wrt (<) (map fst m)"

text \<open>\<open>entry(k).or_default()\<close> with a change of the value.\<close>

definition bt_entry :: "'k :: linorder \<Rightarrow> 'v \<Rightarrow> ('v \<Rightarrow> 'v) \<Rightarrow> ('k \<times> 'v) list \<Rightarrow> ('k \<times> 'v) list" where
  "bt_entry k d f m = bt_insert k (f (case map_of m k of None \<Rightarrow> d | Some v \<Rightarrow> v)) m"

lemma set_bt_insert: "set (bt_insert k v m) \<subseteq> insert (k, v) (set m)"
  by (induction m) (auto split: if_splits)

lemma keys_bt_insert: "fst ` set (bt_insert k v m) = insert k (fst ` set m)"
proof (induction m)
  case (Cons kv m)
  then show ?case
    by (cases kv) (simp add: insert_commute)
qed simp

lemma bt_ok_insert: "bt_ok m \<Longrightarrow> bt_ok (bt_insert k v m)"
proof (induction m)
  case (Cons kv m)
  have "k' < y" if "y \<in> fst ` set (bt_insert k v m)" "fst kv = k'" "k' < k" for y k'
    using that Cons.prems by (auto simp: keys_bt_insert bt_ok_def)
  with Cons show ?case
    by (cases kv) (auto simp: bt_ok_def dest: order.strict_trans)
qed (simp add: bt_ok_def)

lemma bt_lookup_below: "bt_ok ((k', v') # m) \<Longrightarrow> k < k' \<Longrightarrow> map_of m k = None"
  by (fastforce simp: bt_ok_def map_of_eq_None_keys)

lemma map_of_bt_insert [simp]: "map_of (bt_insert k v m) = (map_of m)(k \<mapsto> v)"
  by (induction m) (auto simp: fun_eq_iff)

lemma bt_ok_distinct: "bt_ok m \<Longrightarrow> distinct (map fst m)"
  unfolding bt_ok_def by (simp add: strict_sorted_iff)

lemma bt_ok_delete: "bt_ok m \<Longrightarrow> bt_ok (AList.delete k m)"
  unfolding bt_ok_def AList.delete_eq by (induction m) auto

subsection \<open>Answers\<close>

datatype dns_record_type = RecA | RecAaaa | RecPtr | RecHttps | RecSvcb

datatype dns_service_param =
  Mandatory "u16 list" | Alpn "string list" | NoDefaultAlpn | PortParam u16 | Ipv4Hint "u32 list" | Ech "byte list"
| Ipv6Hint "u128 list" | UnknownParam u16 "byte list"

record dns_service_binding =
  sb_priority :: u16
  sb_target :: "domain_name option"
  sb_params :: "dns_service_param list"

record ip_set =
  is_v4 :: "u32 list"
  is_v6 :: "u128 list"

definition ip_set_empty :: ip_set where
  "ip_set_empty = \<lparr>is_v4 = [], is_v6 = []\<rparr>"

definition ip_set_is_empty :: "ip_set \<Rightarrow> bool" where
  "ip_set_is_empty s \<longleftrightarrow> is_v4 s = [] \<and> is_v6 s = []"

definition ip_set_iter :: "ip_set \<Rightarrow> ip_addr list" where
  "ip_set_iter s = map V4 (is_v4 s) @ map V6 (is_v6 s)"

record dns_response =
  dr_addresses :: ip_set
  dr_ptr_names :: "domain_name list"
  dr_service_bindings :: "dns_service_binding list"
  dr_minimum_ttl :: "u32 option"

subsection \<open>The table\<close>

datatype hosts_target = HIp ip_addr | HDomain domain_name

record hosts_dispatch_target =
  dt_target :: hosts_target
  dt_port :: "u16 option"

record hosts_entry =
  he_addresses :: ip_set
  he_alias :: "domain_name option"
  he_port_map :: "(u16 \<times> hosts_dispatch_target) list"

definition hosts_entry_default :: hosts_entry where
  "hosts_entry_default = \<lparr>he_addresses = ip_set_empty, he_alias = None, he_port_map = []\<rparr>"

record hosts_table =
  ht_entries :: "(domain_name \<times> hosts_entry) list"
  ht_ip_entries :: "(ip_addr \<times> hosts_entry) list"
  ht_ptr_entries :: "(ip_addr \<times> domain_name list) list"

definition hosts_table_new :: hosts_table where
  "hosts_table_new = \<lparr>ht_entries = [], ht_ip_entries = [], ht_ptr_entries = []\<rparr>"

definition sort_dedup :: "'a :: linorder list \<Rightarrow> 'a list" where
  "sort_dedup xs = remdups_adj (sort xs)"

definition push_ptr :: "domain_name \<Rightarrow> ip_addr \<Rightarrow> (ip_addr \<times> domain_name list) list \<Rightarrow> (ip_addr \<times> domain_name list) list" where
  "push_ptr domain a reverse =
     AList.update a ((case map_of reverse a of None \<Rightarrow> [] | Some ds \<Rightarrow> ds) @ [domain]) reverse"

definition reverse_entries :: "(domain_name \<times> hosts_entry) list \<Rightarrow> (ip_addr \<times> domain_name list) list" where
  "reverse_entries entries =
     fold (\<lambda>(domain, entry) reverse.
         fold (\<lambda>a. push_ptr domain (V6 a)) (is_v6 (he_addresses entry))
           (fold (\<lambda>a. push_ptr domain (V4 a)) (is_v4 (he_addresses entry)) reverse)) entries []"

definition rebuild_ptr_entries :: "hosts_table \<Rightarrow> hosts_table" where
  "rebuild_ptr_entries t = t\<lparr>ht_ptr_entries := reverse_entries (ht_entries t)\<rparr>"

definition hosts_insert :: "hosts_table \<Rightarrow> domain_name \<Rightarrow> ip_set \<Rightarrow> hosts_table result" where
  "hosts_insert t domain addresses =
     (if ip_set_is_empty addresses then Inl (error_invalid ''hosts entry must contain an address'')
      else Inr (rebuild_ptr_entries (t\<lparr>ht_entries := bt_insert domain
        \<lparr>he_addresses = \<lparr>is_v4 = sort_dedup (is_v4 addresses), is_v6 = sort_dedup (is_v6 addresses)\<rparr>,
         he_alias = None, he_port_map = []\<rparr> (ht_entries t)\<rparr>)))"

definition add_address :: "ip_addr \<Rightarrow> hosts_entry \<Rightarrow> hosts_entry" where
  "add_address address entry =
     (let v4 = is_v4 (he_addresses entry) @ (case address of V4 a \<Rightarrow> [a] | V6 _ \<Rightarrow> []);
          v6 = is_v6 (he_addresses entry) @ (case address of V4 _ \<Rightarrow> [] | V6 a \<Rightarrow> [a])
      in entry\<lparr>he_alias := None, he_addresses := \<lparr>is_v4 = sort_dedup v4, is_v6 = sort_dedup v6\<rparr>\<rparr>)"

definition hosts_insert_ip :: "hosts_table \<Rightarrow> domain_name \<Rightarrow> ip_addr \<Rightarrow> hosts_table" where
  "hosts_insert_ip t domain address =
     rebuild_ptr_entries (t\<lparr>ht_entries := bt_entry domain hosts_entry_default (add_address address) (ht_entries t)\<rparr>)"

definition hosts_insert_alias :: "hosts_table \<Rightarrow> domain_name \<Rightarrow> domain_name \<Rightarrow> hosts_table result" where
  "hosts_insert_alias t domain target =
     (if domain = target then Inl (error_invalid ''DNS hosts alias cannot target itself'')
      else Inr (rebuild_ptr_entries (t\<lparr>ht_entries := bt_entry domain hosts_entry_default
        (\<lambda>entry. entry\<lparr>he_addresses := ip_set_empty, he_alias := Some target\<rparr>) (ht_entries t)\<rparr>)))"

definition apply_default_target :: "hosts_target \<Rightarrow> hosts_entry \<Rightarrow> hosts_entry" where
  "apply_default_target target entry =
     (case target of
        HIp (V4 a) \<Rightarrow> entry\<lparr>he_addresses := \<lparr>is_v4 = [a], is_v6 = []\<rparr>, he_alias := None\<rparr>
      | HIp (V6 a) \<Rightarrow> entry\<lparr>he_addresses := \<lparr>is_v4 = [], is_v6 = [a]\<rparr>, he_alias := None\<rparr>
      | HDomain d \<Rightarrow> entry\<lparr>he_addresses := ip_set_empty, he_alias := Some d\<rparr>)"

definition map_port :: "u16 \<Rightarrow> hosts_target \<Rightarrow> u16 \<Rightarrow> hosts_entry \<Rightarrow> hosts_entry" where
  "map_port host_port target target_port entry =
     entry\<lparr>he_port_map := AList.update host_port \<lparr>dt_target = target, dt_port = Some target_port\<rparr> (he_port_map entry)\<rparr>"

definition insert_ip_target :: "hosts_table \<Rightarrow> ip_addr \<Rightarrow> u16 option \<Rightarrow> hosts_target \<Rightarrow> u16 option \<Rightarrow> hosts_table" where
  "insert_ip_target t address host_port target target_port =
     (let entry = (case map_of (ht_ip_entries t) address of None \<Rightarrow> hosts_entry_default | Some e \<Rightarrow> e);
          entry' = (case (host_port, target_port) of
             (Some hp, Some tp) \<Rightarrow> map_port hp target tp entry
           | _ \<Rightarrow> apply_default_target target entry)
      in t\<lparr>ht_ip_entries := AList.update address entry' (ht_ip_entries t)\<rparr>)"

definition insert_domain_target ::
  "hosts_table \<Rightarrow> domain_name \<Rightarrow> u16 option \<Rightarrow> hosts_target \<Rightarrow> u16 option \<Rightarrow> hosts_table result" where
  "insert_domain_target t domain host_port target target_port =
     (case (host_port, target_port) of
        (Some hp, Some tp) \<Rightarrow>
          Inr (t\<lparr>ht_entries := bt_entry domain hosts_entry_default (map_port hp target tp) (ht_entries t)\<rparr>)
      | _ \<Rightarrow>
          if target = HDomain domain then Inr t
          else (case target of
                  HIp address \<Rightarrow> Inr (hosts_insert_ip t domain address)
                | HDomain d \<Rightarrow> hosts_insert_alias t domain d))"

subsection \<open>Rows of the configuration\<close>

definition host_and_port :: "string \<Rightarrow> string \<times> u16 option" where
  "host_and_port v =
     (if v \<noteq> [] \<and> hd v = CHR ''['' then
        (case (case split_once (CHR '']'') v of
                 Some (h, CHR '':'' # p) \<Rightarrow> map_option (\<lambda>port. (tl h, Some port)) (parse_u16 p)
               | _ \<Rightarrow> None) of
           Some r \<Rightarrow> r
         | None \<Rightarrow>
             (case Option.bind (strip_suffix '']'' v) (strip_prefix ''['') of
                Some h \<Rightarrow> (h, None)
              | None \<Rightarrow> (v, None)))
      else if parse_ip_addr v \<noteq> None then (v, None)
      else
        (case rsplit_once (CHR '':'') v of
           Some (h, p) \<Rightarrow>
             (if h = [] then (v, None) else case parse_u16 p of Some port \<Rightarrow> (h, Some port) | None \<Rightarrow> (v, None))
         | None \<Rightarrow> (v, None)))"

definition host_without_port :: "string \<Rightarrow> string" where
  "host_without_port v = fst (host_and_port v)"

definition parse_host_target :: "string \<Rightarrow> (hosts_target \<times> u16 option) result" where
  "parse_host_target v =
     (case host_and_port v of
        (host, port) \<Rightarrow>
          (case parse_ip_addr host of
             Some address \<Rightarrow> Inr (HIp address, port)
           | None \<Rightarrow> rbind (domain_name_new host) (\<lambda>d. Inr (HDomain d, port))))"

definition insert_host_target :: "hosts_table \<Rightarrow> string \<Rightarrow> string \<Rightarrow> hosts_table result" where
  "insert_host_target t host target =
     (case host_and_port host of
        (h, host_port) \<Rightarrow>
          rbind (parse_host_target target) (\<lambda>(tgt, target_port).
            case parse_ip_addr h of
              Some address \<Rightarrow> Inr (insert_ip_target t address host_port tgt target_port)
            | None \<Rightarrow> rbind (domain_name_new h) (\<lambda>d. insert_domain_target t d host_port tgt target_port)))"

definition insert_target :: "hosts_table \<Rightarrow> domain_name \<Rightarrow> string \<Rightarrow> hosts_table result" where
  "insert_target t domain target =
     rbind (parse_host_target target) (\<lambda>(tgt, _). insert_domain_target t domain None tgt None)"

definition hosts_overlay :: "hosts_table \<Rightarrow> hosts_table \<Rightarrow> hosts_table" where
  "hosts_overlay t overrides =
     rebuild_ptr_entries (t\<lparr>ht_entries := fold (\<lambda>(k, v). bt_insert k v) (ht_entries overrides) (ht_entries t),
       ht_ip_entries := fold (\<lambda>(k, v). AList.update k v) (ht_ip_entries overrides) (ht_ip_entries t)\<rparr>)"

definition hosts_remove :: "hosts_table \<Rightarrow> domain_name \<Rightarrow> hosts_table \<times> bool" where
  "hosts_remove t domain =
     (let t1 = t\<lparr>ht_entries := AList.delete domain (ht_entries t)\<rparr>;
          removed = (map_of (ht_entries t) domain \<noteq> None)
      in (if removed then rebuild_ptr_entries t1 else t1, removed))"

subsection \<open>Lookups\<close>

definition hosts_lookup :: "hosts_table \<Rightarrow> domain_name \<Rightarrow> ip_set option" where
  "hosts_lookup t domain =
     (case map_of (ht_entries t) domain of
        None \<Rightarrow> None
      | Some entry \<Rightarrow> if ip_set_is_empty (he_addresses entry) then None else Some (he_addresses entry))"

function follow_aliases :: "(domain_name \<times> hosts_entry) list \<Rightarrow> domain_name list \<Rightarrow> domain_name \<Rightarrow> ip_set option result" where
  "follow_aliases entries visited current =
     (if current \<in> set visited then Inl (error_invalid ''DNS hosts alias cycle'')
      else
        (case map_of entries current of
           None \<Rightarrow> Inr None
         | Some entry \<Rightarrow>
             if \<not> ip_set_is_empty (he_addresses entry) then Inr (Some (he_addresses entry))
             else
               (case he_alias entry of
                  None \<Rightarrow> Inr None
                | Some alias \<Rightarrow> follow_aliases entries (current # visited) alias)))"
  by pat_completeness auto
termination
proof (relation "measure (\<lambda>(entries, visited, _). card (fst ` set entries - set visited))")
  fix entries :: "(domain_name \<times> hosts_entry) list" and visited current entry next_name
  assume "current \<notin> set visited" "map_of entries current = Some entry"
  then show "((entries, current # visited, next_name), entries, visited, current)
      \<in> measure (\<lambda>(entries, visited, _). card (fst ` set entries - set visited))"
    by (auto dest!: map_of_Some_key intro!: psubset_card_mono)
qed simp

declare follow_aliases.simps [simp del]

definition hosts_resolve :: "hosts_table \<Rightarrow> domain_name \<Rightarrow> ip_set option result" where
  "hosts_resolve t domain = follow_aliases (ht_entries t) [] domain"

definition first_address :: "hosts_entry \<Rightarrow> ip_addr option" where
  "first_address entry =
     (case is_v4 (he_addresses entry) of
        a # _ \<Rightarrow> Some (V4 a)
      | [] \<Rightarrow> (case is_v6 (he_addresses entry) of a # _ \<Rightarrow> Some (V6 a) | [] \<Rightarrow> None))"

definition dispatch_entry :: "hosts_entry \<Rightarrow> u16 \<Rightarrow> hosts_dispatch_target option" where
  "dispatch_entry entry port =
     (case (if port \<noteq> 0 then map_of (he_port_map entry) port else None) of
        Some target \<Rightarrow> Some target
      | None \<Rightarrow>
          (case he_alias entry of
             Some alias \<Rightarrow> Some \<lparr>dt_target = HDomain alias, dt_port = None\<rparr>
           | None \<Rightarrow> map_option (\<lambda>a. \<lparr>dt_target = HIp a, dt_port = None\<rparr>) (first_address entry)))"

definition resolve_domain_target :: "hosts_table \<Rightarrow> domain_name \<Rightarrow> u16 \<Rightarrow> hosts_dispatch_target option" where
  "resolve_domain_target t domain port =
     Option.bind (map_of (ht_entries t) domain) (\<lambda>entry. dispatch_entry entry port)"

definition resolve_ip_target :: "hosts_table \<Rightarrow> ip_addr \<Rightarrow> u16 \<Rightarrow> hosts_dispatch_target option" where
  "resolve_ip_target t address port =
     (case map_of (ht_ip_entries t) address of
        None \<Rightarrow> None
      | Some entry \<Rightarrow>
          (case (if port \<noteq> 0 then map_of (he_port_map entry) port else None) of
             Some target \<Rightarrow> Some target
           | None \<Rightarrow>
               if ip_set_is_empty (he_addresses entry) \<and> he_alias entry = None then None
               else
                 (case he_alias entry of
                    Some alias \<Rightarrow> Some \<lparr>dt_target = HDomain alias, dt_port = None\<rparr>
                  | None \<Rightarrow> map_option (\<lambda>a. \<lparr>dt_target = HIp a, dt_port = None\<rparr>) (first_address entry))))"

definition resolve_ptr :: "hosts_table \<Rightarrow> ip_addr \<Rightarrow> domain_name list" where
  "resolve_ptr t address = (case map_of (ht_ptr_entries t) address of None \<Rightarrow> [] | Some ds \<Rightarrow> ds)"

definition hosts_len :: "hosts_table \<Rightarrow> nat" where
  "hosts_len t = length (ht_entries t) + length (ht_ip_entries t)"

definition hosts_is_empty :: "hosts_table \<Rightarrow> bool" where
  "hosts_is_empty t \<longleftrightarrow> ht_entries t = [] \<and> ht_ip_entries t = []"

subsection \<open>The handler\<close>

definition host_response :: "ip_set \<Rightarrow> dns_response" where
  "host_response addresses =
     \<lparr>dr_addresses = addresses, dr_ptr_names = [], dr_service_bindings = [], dr_minimum_ttl = Some 60\<rparr>"

definition ptr_response :: "domain_name list \<Rightarrow> dns_response" where
  "ptr_response names =
     \<lparr>dr_addresses = ip_set_empty, dr_ptr_names = names, dr_service_bindings = [], dr_minimum_ttl = Some 60\<rparr>"

definition hosts_answer ::
  "hosts_table \<Rightarrow> (dns_response \<Rightarrow> 'r result) \<Rightarrow> 'r result \<Rightarrow> domain_name \<Rightarrow> dns_record_type \<Rightarrow> 'r result" where
  "hosts_answer t reply upstream domain record_type =
     (case (if record_type = RecPtr then reverse_name_to_ip domain else None) of
        Some address \<Rightarrow>
          (let names = resolve_ptr t address in if names \<noteq> [] then reply (ptr_response names) else upstream)
      | None \<Rightarrow>
          rbind (hosts_resolve t domain) (\<lambda>found.
            case found of
              None \<Rightarrow> upstream
            | Some addresses \<Rightarrow>
                (case record_type of
                   RecA \<Rightarrow> reply (host_response (addresses\<lparr>is_v6 := []\<rparr>))
                 | RecAaaa \<Rightarrow> reply (host_response (addresses\<lparr>is_v4 := []\<rparr>))
                 | _ \<Rightarrow> upstream)))"

text \<open>The two handlers: on typed answers, and on packets.\<close>

definition hosts_dns_handler ::
  "hosts_table \<Rightarrow> (domain_name \<Rightarrow> dns_record_type \<Rightarrow> dns_response result) \<Rightarrow> domain_name \<Rightarrow> dns_record_type \<Rightarrow> dns_response result" where
  "hosts_dns_handler t upstream domain record_type = hosts_answer t Inr (upstream domain record_type) domain record_type"

definition async_hosts_dns_handler ::
  "hosts_table \<Rightarrow> (byte list \<Rightarrow> (domain_name \<times> dns_record_type) result) \<Rightarrow> (byte list \<Rightarrow> dns_response \<Rightarrow> byte list result)
    \<Rightarrow> (byte list \<Rightarrow> byte list result) \<Rightarrow> byte list \<Rightarrow> byte list result" where
  "async_hosts_dns_handler t decode_query encode_response upstream packet =
     rbind (decode_query packet) (\<lambda>(domain, record_type).
       hosts_answer t (encode_response packet) (upstream packet) domain record_type)"

subsection \<open>Following aliases\<close>

definition entry_lookup :: "(domain_name \<times> hosts_entry) list \<Rightarrow> domain_name \<Rightarrow> ip_set option" where
  "entry_lookup entries d =
     (case map_of entries d of
        None \<Rightarrow> None
      | Some e \<Rightarrow> if ip_set_is_empty (he_addresses e) then None else Some (he_addresses e))"

text \<open>The name an entry without addresses points to, and the names reached in a number of steps.\<close>

definition alias_step :: "(domain_name \<times> hosts_entry) list \<Rightarrow> domain_name \<Rightarrow> domain_name option" where
  "alias_step entries d =
     (case map_of entries d of
        None \<Rightarrow> None
      | Some e \<Rightarrow> if ip_set_is_empty (he_addresses e) then he_alias e else None)"

fun alias_chain :: "(domain_name \<times> hosts_entry) list \<Rightarrow> nat \<Rightarrow> domain_name \<Rightarrow> domain_name option" where
  "alias_chain entries 0 d = Some d"
| "alias_chain entries (Suc n) d = Option.bind (alias_step entries d) (alias_chain entries n)"

lemma alias_chain_add: "alias_chain entries (m + n) d = Option.bind (alias_chain entries m d) (alias_chain entries n)"
  by (induction m arbitrary: d) (auto split: Option.bind_split)

lemma alias_chain_prefix: "alias_chain entries (m + n) d \<noteq> None \<Longrightarrow> alias_chain entries m d \<noteq> None"
  by (cases "alias_chain entries m d") (simp_all add: alias_chain_add)

lemma alias_chain_cycle:
  assumes "alias_chain entries (Suc k) d = Some d"
  shows "alias_chain entries n d \<noteq> None"
proof -
  have "alias_chain entries (Suc k * n) d = Some d"
    using assms by (induction n) (simp_all only: mult_0_right alias_chain.simps(1) mult_Suc_right alias_chain_add bind.bind_lunit)
  moreover have "Suc k * n = n + k * n"
    by simp
  ultimately show ?thesis
    using alias_chain_prefix [of entries n "k * n" d] by (metis option.distinct(1))
qed

lemma follow_aliases_spec:
  "(\<forall>v \<in> set visited. \<exists>k. alias_chain entries (Suc k) v = Some current) \<Longrightarrow>
   (\<exists>n \<le> card (fst ` set entries - set visited). \<exists>x. alias_chain entries n current = Some x \<and> alias_step entries x = None
      \<and> follow_aliases entries visited current = Inr (entry_lookup entries x))
   \<or> (\<forall>n. alias_chain entries n current \<noteq> None)
     \<and> follow_aliases entries visited current = Inl (error_invalid ''DNS hosts alias cycle'')"
proof (induction entries visited current rule: follow_aliases.induct)
  case (1 entries visited current)
  note unfold = follow_aliases.simps [of entries visited current]
  show ?case
  proof (cases "current \<in> set visited")
    case True
    then obtain k where "alias_chain entries (Suc k) current = Some current"
      using "1.prems" by blast
    from alias_chain_cycle [OF this] True unfold show ?thesis
      by simp
  next
    case new: False
    show ?thesis
    proof (cases "alias_step entries current")
      case None
      then have "follow_aliases entries visited current = Inr (entry_lookup entries current)"
        using new unfold by (auto simp: alias_step_def entry_lookup_def split: option.splits if_splits)
      then show ?thesis
        using None by (intro disjI1 exI [of _ 0] conjI exI [of _ current]) simp_all
    next
      case (Some a)
      then obtain e where e: "map_of entries current = Some e" "ip_set_is_empty (he_addresses e)" "he_alias e = Some a"
        by (auto simp: alias_step_def split: option.splits if_splits)
      have run: "follow_aliases entries visited current = follow_aliases entries (current # visited) a"
        using new e unfold by simp
      have "\<exists>k. alias_chain entries (Suc k) v = Some a" if v: "v \<in> set (current # visited)" for v
      proof (cases "v = current")
        case True
        then show ?thesis
          using Some by (intro exI [of _ 0]) simp
      next
        case False
        then obtain k where "alias_chain entries (Suc k) v = Some current"
          using "1.prems" v by auto
        then have "alias_chain entries (Suc k + 1) v = Some a"
          unfolding alias_chain_add using Some by simp
        then show ?thesis
          by (intro exI [of _ "Suc k"]) simp
      qed
      moreover have "card (fst ` set entries - set (current # visited)) < card (fst ` set entries - set visited)"
        by (rule psubset_card_mono) (use new map_of_Some_key [OF e(1)] in auto)
      ultimately consider n x where "n < card (fst ` set entries - set visited)" "alias_chain entries n a = Some x"
          "alias_step entries x = None" "follow_aliases entries visited current = Inr (entry_lookup entries x)"
        | "\<forall>n. alias_chain entries n a \<noteq> None"
          "follow_aliases entries visited current = Inl (error_invalid ''DNS hosts alias cycle'')"
        using "1.IH" [OF new e(1) _ e(3)] e(2) unfolding run by (meson le_less_trans)
      then show ?thesis
      proof cases
        case 1
        then show ?thesis
          using Some by (intro disjI1 exI [of _ "Suc n"] conjI exI [of _ x]) simp_all
      next
        case 2
        have "alias_chain entries n current \<noteq> None" for n
          using 2(1) Some by (cases n) simp_all
        with 2(2) show ?thesis
          by simp
      qed
    qed
  qed
qed

text \<open>
  C38: resolving a name through the hosts table always ends, after at most as many steps as there
  are entries. It gives the addresses of the name the aliases lead to, nothing when that name has
  none, and the cycle error exactly when the aliases never end.
\<close>

theorem hosts_resolve_ends:
  "(\<exists>n \<le> length (ht_entries t). \<exists>x. alias_chain (ht_entries t) n d = Some x \<and> alias_step (ht_entries t) x = None
      \<and> hosts_resolve t d = Inr (hosts_lookup t x))
   \<or> (\<forall>n. alias_chain (ht_entries t) n d \<noteq> None) \<and> hosts_resolve t d = Inl (error_invalid ''DNS hosts alias cycle'')"
proof -
  have "card (fst ` set (ht_entries t) - set []) \<le> length (ht_entries t)"
    using card_image_le [of "set (ht_entries t)" fst] card_length [of "ht_entries t"] by simp
  moreover have "entry_lookup (ht_entries t) x = hosts_lookup t x" for x
    by (simp add: entry_lookup_def hosts_lookup_def)
  ultimately show ?thesis
    using follow_aliases_spec [of "[]" "ht_entries t" d] unfolding hosts_resolve_def by (auto intro: order_trans)
qed

subsection \<open>The reverse index\<close>

definition owns :: "ip_addr \<Rightarrow> hosts_entry \<Rightarrow> bool" where
  "owns a e \<longleftrightarrow> a \<in> set (ip_set_iter (he_addresses e))"

definition owners :: "(domain_name \<times> hosts_entry) list \<Rightarrow> ip_addr \<Rightarrow> domain_name list" where
  "owners entries a = map fst (filter (\<lambda>(_, e). owns a e) entries)"

definition ptr_names :: "(ip_addr \<times> domain_name list) list \<Rightarrow> ip_addr \<Rightarrow> domain_name list" where
  "ptr_names r a = (case map_of r a of None \<Rightarrow> [] | Some ds \<Rightarrow> ds)"

definition entry_ok :: "hosts_entry \<Rightarrow> bool" where
  "entry_ok e \<longleftrightarrow> distinct (is_v4 (he_addresses e)) \<and> distinct (is_v6 (he_addresses e))"

definition entries_ok :: "(domain_name \<times> hosts_entry) list \<Rightarrow> bool" where
  "entries_ok m \<longleftrightarrow> (\<forall>de \<in> set m. entry_ok (snd de))"

lemma entries_ok_simps [simp]: "entries_ok []" "entries_ok (de # m) \<longleftrightarrow> entry_ok (snd de) \<and> entries_ok m"
  by (simp_all add: entries_ok_def)

lemma entries_ok_subset: "set m' \<subseteq> set m \<Longrightarrow> entries_ok m \<Longrightarrow> entries_ok m'"
  unfolding entries_ok_def by blast

lemma ptr_names_push: "ptr_names (push_ptr d a r) b = ptr_names r b @ (if a = b then [d] else [])"
  by (simp add: ptr_names_def push_ptr_def split: option.split)

lemma ptr_names_push_all:
  "inj f \<Longrightarrow> distinct xs \<Longrightarrow>
   ptr_names (fold (\<lambda>a. push_ptr d (f a)) xs r) b = ptr_names r b @ (if b \<in> f ` set xs then [d] else [])"
  by (induction xs arbitrary: r) (auto simp: ptr_names_push dest: injD)

lemma reverse_entries_names:
  assumes "entries_ok entries"
  shows "ptr_names (reverse_entries entries) a = owners entries a"
proof -
  have inj: "inj V4" "inj V6"
    by (auto intro: injI)
  have "ptr_names (fold (\<lambda>(d, e) r.
      fold (\<lambda>a. push_ptr d (V6 a)) (is_v6 (he_addresses e)) (fold (\<lambda>a. push_ptr d (V4 a)) (is_v4 (he_addresses e)) r)) entries r) a
    = ptr_names r a @ owners entries a" for r
    using assms
  proof (induction entries arbitrary: r)
    case (Cons de entries)
    then show ?case
      by (cases de) (auto simp: ptr_names_push_all [OF inj(1)] ptr_names_push_all [OF inj(2)] entries_ok_def entry_ok_def owners_def owns_def ip_set_iter_def)
  qed (simp add: owners_def)
  from this [of "[]"] show ?thesis
    by (simp add: reverse_entries_def ptr_names_def)
qed

text \<open>An ordered table whose reverse index is exact.\<close>

definition hosts_ok :: "hosts_table \<Rightarrow> bool" where
  "hosts_ok t \<longleftrightarrow>
     bt_ok (ht_entries t) \<and> entries_ok (ht_entries t)
     \<and> (\<forall>a. resolve_ptr t a = owners (ht_entries t) a)"

lemma rebuild_ok: "bt_ok (ht_entries t) \<Longrightarrow> entries_ok (ht_entries t) \<Longrightarrow> hosts_ok (rebuild_ptr_entries t)"
  using reverse_entries_names [of "ht_entries t"] by (simp add: hosts_ok_def rebuild_ptr_entries_def resolve_ptr_def ptr_names_def)

lemma entries_insert_ok:
  assumes "entries_ok m" "entry_ok e'"
  shows "entries_ok (bt_insert k e' m)"
  using assms set_bt_insert [of k e' m] by (auto simp: entries_ok_def)

lemma entries_entry_ok:
  assumes "entries_ok m" "\<And>e. entry_ok e \<Longrightarrow> entry_ok (f e)"
  shows "entries_ok (bt_entry k hosts_entry_default f m)"
proof -
  have "entry_ok (case map_of m k of None \<Rightarrow> hosts_entry_default | Some v \<Rightarrow> v)"
    using assms(1) by (auto simp: entries_ok_def entry_ok_def hosts_entry_default_def ip_set_empty_def dest!: map_of_SomeD split: option.split)
  then show ?thesis
    unfolding bt_entry_def by (intro entries_insert_ok assms)
qed

lemma distinct_sort_dedup: "distinct (sort_dedup xs)"
proof -
  have "sorted ys \<Longrightarrow> distinct (remdups_adj ys)" for ys :: "'a list"
    by (induction ys rule: remdups_adj.induct) (auto dest: order.antisym)
  then show ?thesis
    by (simp add: sort_dedup_def)
qed

lemma add_address_ok: "entry_ok (add_address a e)"
  by (simp add: add_address_def entry_ok_def Let_def distinct_sort_dedup)

text \<open>A change that keeps the addresses of an entry keeps the owners of every address.\<close>

lemma owners_insert_same:
  "bt_ok m \<Longrightarrow> (case map_of m k of None \<Rightarrow> \<not> owns a e | Some e' \<Rightarrow> owns a e = owns a e') \<Longrightarrow>
   owners (bt_insert k e m) a = owners m a"
proof (induction m)
  case (Cons ke m)
  obtain k' e' where ke: "ke = (k', e')"
    by (cases ke)
  have "map_of m k = None" if "k < k'"
    using bt_lookup_below [of k' e' m k] Cons.prems(1) that ke by simp
  moreover have "bt_ok m"
    using Cons.prems(1) by (simp add: bt_ok_def)
  ultimately show ?case
    using Cons.IH Cons.prems(2) by (auto simp: ke owners_def split: if_splits)
qed (simp add: owners_def)

lemma bt_ok_entry: "bt_ok m \<Longrightarrow> bt_ok (bt_entry k d f m)"
  unfolding bt_entry_def by (rule bt_ok_insert)

lemma hosts_ok_new: "hosts_ok hosts_table_new"
  by (simp add: hosts_ok_def hosts_table_new_def bt_ok_def entries_ok_def resolve_ptr_def owners_def)

lemma hosts_ok_parts: "hosts_ok t \<Longrightarrow> bt_ok (ht_entries t)" "hosts_ok t \<Longrightarrow> entries_ok (ht_entries t)"
  by (simp_all add: hosts_ok_def)

lemma hosts_ok_insert: "hosts_ok t \<Longrightarrow> hosts_insert t d s = Inr t' \<Longrightarrow> hosts_ok t'"
proof -
  assume t: "hosts_ok t" "hosts_insert t d s = Inr t'"
  define e where "e = \<lparr>he_addresses = \<lparr>is_v4 = sort_dedup (is_v4 s), is_v6 = sort_dedup (is_v6 s)\<rparr>, he_alias = None, he_port_map = []\<rparr>"
  have "entry_ok e"
    by (simp add: e_def entry_ok_def distinct_sort_dedup)
  moreover have "t' = rebuild_ptr_entries (t\<lparr>ht_entries := bt_insert d e (ht_entries t)\<rparr>)"
    using t(2) by (simp add: hosts_insert_def e_def split: if_splits)
  ultimately show ?thesis
    using hosts_ok_parts [OF t(1)] by (auto intro!: rebuild_ok bt_ok_insert entries_insert_ok)
qed

lemma hosts_ok_insert_ip: "hosts_ok t \<Longrightarrow> hosts_ok (hosts_insert_ip t d a)"
  unfolding hosts_insert_ip_def
  by (rule rebuild_ok) (simp_all add: hosts_ok_def bt_ok_entry entries_entry_ok add_address_ok)

lemma hosts_ok_insert_alias: "hosts_ok t \<Longrightarrow> hosts_insert_alias t d x = Inr t' \<Longrightarrow> hosts_ok t'"
proof -
  assume t: "hosts_ok t" "hosts_insert_alias t d x = Inr t'"
  have "entry_ok (e\<lparr>he_addresses := ip_set_empty, he_alias := Some x\<rparr>)" for e
    by (simp add: entry_ok_def ip_set_empty_def)
  then have "hosts_ok (rebuild_ptr_entries (t\<lparr>ht_entries := bt_entry d hosts_entry_default
        (\<lambda>entry. entry\<lparr>he_addresses := ip_set_empty, he_alias := Some x\<rparr>) (ht_entries t)\<rparr>))"
    using t(1) by (intro rebuild_ok) (simp_all add: hosts_ok_def bt_ok_entry entries_entry_ok)
  with t(2) show ?thesis
    by (auto simp: hosts_insert_alias_def split: if_splits)
qed

lemma hosts_ok_map_port:
  assumes "hosts_ok t"
  shows "hosts_ok (t\<lparr>ht_entries := bt_entry d hosts_entry_default (map_port hp x tp) (ht_entries t)\<rparr>)"
proof -
  have same: "he_addresses (map_port hp x tp e) = he_addresses e" for e
    by (simp add: map_port_def)
  have "owners (bt_entry d hosts_entry_default (map_port hp x tp) (ht_entries t)) a = owners (ht_entries t) a" for a
    unfolding bt_entry_def using assms
    by (intro owners_insert_same)
      (auto simp: hosts_ok_def owns_def same hosts_entry_default_def ip_set_empty_def ip_set_iter_def split: option.split)
  moreover have "entries_ok (bt_entry d hosts_entry_default (map_port hp x tp) (ht_entries t))"
    using assms by (intro entries_entry_ok) (simp_all add: hosts_ok_def entry_ok_def same)
  ultimately show ?thesis
    using assms by (simp add: hosts_ok_def bt_ok_entry resolve_ptr_def)
qed

lemma hosts_ok_insert_domain_target: "hosts_ok t \<Longrightarrow> insert_domain_target t d hp x tp = Inr t' \<Longrightarrow> hosts_ok t'"
  by (auto simp: insert_domain_target_def split: option.splits if_splits hosts_target.splits
      intro: hosts_ok_map_port hosts_ok_insert_ip hosts_ok_insert_alias)

lemma hosts_ok_insert_ip_target: "hosts_ok t \<Longrightarrow> hosts_ok (insert_ip_target t a hp x tp)"
  by (simp add: insert_ip_target_def hosts_ok_def resolve_ptr_def Let_def)

lemma hosts_ok_insert_host_target: "hosts_ok t \<Longrightarrow> insert_host_target t h x = Inr t' \<Longrightarrow> hosts_ok t'"
  by (auto simp: insert_host_target_def rbind_eq_Inr_iff split: prod.splits option.splits
      intro: hosts_ok_insert_ip_target hosts_ok_insert_domain_target)

lemma hosts_ok_insert_target: "hosts_ok t \<Longrightarrow> insert_target t d x = Inr t' \<Longrightarrow> hosts_ok t'"
  by (auto simp: insert_target_def rbind_eq_Inr_iff intro: hosts_ok_insert_domain_target)

lemma hosts_ok_overlay: "hosts_ok t \<Longrightarrow> hosts_ok u \<Longrightarrow> hosts_ok (hosts_overlay t u)"
proof -
  assume ok: "hosts_ok t" "hosts_ok u"
  have "bt_ok (fold (\<lambda>(k, v). bt_insert k v) es m) \<and> (entries_ok (fold (\<lambda>(k, v). bt_insert k v) es m))"
    if "bt_ok m" "entries_ok m" "entries_ok es" for es m
    using that by (induction es arbitrary: m) (auto simp: bt_ok_insert entries_insert_ok split: prod.splits)
  with ok show ?thesis
    unfolding hosts_overlay_def by (intro rebuild_ok) (simp_all add: hosts_ok_def)
qed

lemma hosts_ok_remove: "hosts_ok t \<Longrightarrow> hosts_ok (fst (hosts_remove t d))"
proof (cases "map_of (ht_entries t) d")
  case None
  then have "AList.delete d (ht_entries t) = ht_entries t"
    by (simp add: map_of_eq_None_keys alist_delete_notin)
  with None show "hosts_ok t \<Longrightarrow> ?thesis"
    by (simp add: hosts_remove_def Let_def hosts_ok_def resolve_ptr_def)
next
  case (Some e)
  then have "fst (hosts_remove t d) = rebuild_ptr_entries (t\<lparr>ht_entries := AList.delete d (ht_entries t)\<rparr>)"
    by (simp add: hosts_remove_def Let_def)
  then show "hosts_ok t \<Longrightarrow> ?thesis"
    using hosts_ok_parts [of t] entries_ok_subset [OF set_delete_subset, of "ht_entries t" d] by (auto intro!: rebuild_ok bt_ok_delete)
qed

subsection \<open>Every table\<close>

inductive hosts_reachable :: "hosts_table \<Rightarrow> bool" where
  start: "hosts_reachable hosts_table_new"
| insert: "hosts_reachable t \<Longrightarrow> hosts_insert t d s = Inr t' \<Longrightarrow> hosts_reachable t'"
| insert_ip: "hosts_reachable t \<Longrightarrow> hosts_reachable (hosts_insert_ip t d a)"
| insert_alias: "hosts_reachable t \<Longrightarrow> hosts_insert_alias t d x = Inr t' \<Longrightarrow> hosts_reachable t'"
| insert_row: "hosts_reachable t \<Longrightarrow> insert_host_target t h x = Inr t' \<Longrightarrow> hosts_reachable t'"
| insert_target: "hosts_reachable t \<Longrightarrow> insert_target t d x = Inr t' \<Longrightarrow> hosts_reachable t'"
| overlay: "hosts_reachable t \<Longrightarrow> hosts_reachable u \<Longrightarrow> hosts_reachable (hosts_overlay t u)"
| remove: "hosts_reachable t \<Longrightarrow> hosts_reachable (fst (hosts_remove t d))"

lemma hosts_reachable_ok: "hosts_reachable t \<Longrightarrow> hosts_ok t"
  by (induction rule: hosts_reachable.induct)
    (blast intro: hosts_ok_new hosts_ok_insert hosts_ok_insert_ip hosts_ok_insert_alias hosts_ok_insert_host_target
      hosts_ok_insert_target hosts_ok_overlay hosts_ok_remove)+

text \<open>
  C23: whatever is inserted, overlaid and removed, a PTR query for an address is answered with
  exactly the names whose entries hold the address, each once and in their order.
\<close>

theorem hosts_ptr_exact:
  assumes "hosts_reachable t"
  shows "set (resolve_ptr t a) = {d. \<exists>e. map_of (ht_entries t) d = Some e \<and> a \<in> set (ip_set_iter (he_addresses e))}
    \<and> sorted_wrt (<) (resolve_ptr t a)"
proof -
  have ok: "bt_ok (ht_entries t)" and ptr: "resolve_ptr t a = owners (ht_entries t) a"
    using hosts_reachable_ok [OF assms] by (simp_all add: hosts_ok_def)
  have "sorted_wrt (<) (map fst (filter P (ht_entries t)))" for P
    using ok by (simp add: bt_ok_def sorted_wrt_map sorted_wrt_filter)
  moreover have "map_of (ht_entries t) d = Some e \<longleftrightarrow> (d, e) \<in> set (ht_entries t)" for d e
    using bt_ok_distinct [OF ok] by (rule map_of_eq_Some_iff)
  ultimately show ?thesis
    unfolding ptr owners_def by (force simp: owns_def image_iff)
qed

theorem hosts_ptr_exact_witness:
  "set (resolve_ptr (hosts_insert_ip (hosts_insert_ip hosts_table_new ''b.com'' (V4 1)) ''a.com'' (V4 1)) (V4 1)) = {''a.com'', ''b.com''}
   \<and> sorted_wrt (<) (resolve_ptr (hosts_insert_ip (hosts_insert_ip hosts_table_new ''b.com'' (V4 1)) ''a.com'' (V4 1)) (V4 1))"
proof -
  let ?t = "hosts_insert_ip (hosts_insert_ip hosts_table_new ''b.com'' (V4 1)) ''a.com'' (V4 1)"
  let ?e = "add_address (V4 1) hosts_entry_default"
  have "map_of (ht_entries ?t) = [''b.com'' \<mapsto> ?e, ''a.com'' \<mapsto> ?e]"
    by (simp add: hosts_insert_ip_def rebuild_ptr_entries_def bt_entry_def hosts_table_new_def fun_eq_iff)
  moreover have "V4 1 \<in> set (ip_set_iter (he_addresses ?e))"
    by (simp add: add_address_def hosts_entry_default_def ip_set_empty_def ip_set_iter_def sort_dedup_def)
  ultimately have "{d. \<exists>e. map_of (ht_entries ?t) d = Some e \<and> V4 1 \<in> set (ip_set_iter (he_addresses e))} = {''a.com'', ''b.com''}"
    by (auto split: if_splits)
  moreover have "hosts_reachable ?t"
    by (rule hosts_reachable.insert_ip, rule hosts_reachable.insert_ip, rule hosts_reachable.start)
  ultimately show ?thesis
    using hosts_ptr_exact [of ?t "V4 1"] by simp
qed

end
