(* ===== verification/Fakeip_Answers.thy ===== *)
theory Fakeip_Answers
  imports Fakeip_Properties Dns_Hosts
begin

text \<open>
  How DNS answers become FakeIP answers, \<open>store/src/fakeip_transform.rs\<close>: addresses and address
  hints of an answer are replaced by an address of the pool, and reverse queries for pool addresses
  are answered from the pools. The two transforms differ in the family; the differences are the
  fields of a record, as for the pools. The packet codec and the upstream are arguments.
\<close>

subsection \<open>Transforms\<close>

record 'w answer_family =
  af_record_type :: dns_record_type
  af_addresses :: "ip_set \<Rightarrow> 'w list"
  af_only :: "'w \<Rightarrow> ip_set"
  af_hint :: "dns_service_param \<Rightarrow> 'w list option"
  af_hint_of :: "'w list \<Rightarrow> dns_service_param"

definition answers_v4 :: "u32 answer_family" where
  "answers_v4 =
     \<lparr>af_record_type = RecA, af_addresses = is_v4, af_only = (\<lambda>a. \<lparr>is_v4 = [a], is_v6 = []\<rparr>),
      af_hint = (\<lambda>p. case p of Ipv4Hint vs \<Rightarrow> Some vs | _ \<Rightarrow> None), af_hint_of = Ipv4Hint\<rparr>"

definition answers_v6 :: "u128 answer_family" where
  "answers_v6 =
     \<lparr>af_record_type = RecAaaa, af_addresses = is_v6, af_only = (\<lambda>a. \<lparr>is_v4 = [], is_v6 = [a]\<rparr>),
      af_hint = (\<lambda>p. case p of Ipv6Hint vs \<Rightarrow> Some vs | _ \<Rightarrow> None), af_hint_of = Ipv6Hint\<rparr>"

definition has_hint :: "'w answer_family \<Rightarrow> dns_response \<Rightarrow> bool" where
  "has_hint A response =
     list_ex (\<lambda>b. list_ex (\<lambda>p. case af_hint A p of Some vs \<Rightarrow> vs \<noteq> [] | None \<Rightarrow> False) (sb_params b)) (dr_service_bindings response)"

definition put_hint :: "'w answer_family \<Rightarrow> 'w \<Rightarrow> dns_response \<Rightarrow> dns_response" where
  "put_hint A address response =
     response\<lparr>dr_service_bindings :=
       map (\<lambda>b. b\<lparr>sb_params := map (\<lambda>p. if af_hint A p \<noteq> None then af_hint_of A [address] else p) (sb_params b)\<rparr>)
         (dr_service_bindings response)\<rparr>"

definition answer_transform ::
  "'w pool_family \<Rightarrow> 'w answer_family \<Rightarrow> 'w fakeip_pool \<Rightarrow> faults \<Rightarrow> domain_name \<Rightarrow> dns_record_type \<Rightarrow> dns_response \<Rightarrow> int
    \<Rightarrow> 'w pool_state \<Rightarrow> config_db \<Rightarrow> ('w, dns_response) pool_result" where
  "answer_transform F A pool faults domain record_type response now st db =
     (let with_address = (\<lambda>f. map_option (\<lambda>(st, db, r). (st, db, rbind r (\<lambda>address. Inr (f address))))
                             (allocate_at F pool faults domain now st db)) in
      if record_type = af_record_type A \<and> af_addresses A (dr_addresses response) \<noteq> []
        then with_address (\<lambda>address. response\<lparr>dr_addresses := af_only A address\<rparr>)
      else if record_type \<notin> {RecHttps, RecSvcb} \<or> \<not> has_hint A response then Some (st, db, Inr response)
      else with_address (\<lambda>address. put_hint A address response))"

record fakeip_pools =
  fp_v4 :: "u32 pool_state"
  fp_v6 :: "u128 pool_state"
  fp_db :: config_db

definition dual_stack_transform ::
  "u32 fakeip_pool \<Rightarrow> u128 fakeip_pool \<Rightarrow> faults \<Rightarrow> faults \<Rightarrow> domain_name \<Rightarrow> dns_record_type \<Rightarrow> dns_response \<Rightarrow> int
    \<Rightarrow> fakeip_pools \<Rightarrow> (fakeip_pools \<times> dns_response result) option" where
  "dual_stack_transform pool4 pool6 faults4 faults6 domain record_type response now w =
     Option.bind (answer_transform family_v4 answers_v4 pool4 faults4 domain record_type response now (fp_v4 w) (fp_db w))
       (\<lambda>(st4, db, r). case r of
          Inl e \<Rightarrow> Some (w\<lparr>fp_v4 := st4, fp_db := db\<rparr>, Inl e)
        | Inr response \<Rightarrow>
            map_option (\<lambda>(st6, db, r). (\<lparr>fp_v4 = st4, fp_v6 = st6, fp_db = db\<rparr>, r))
              (answer_transform family_v6 answers_v6 pool6 faults6 domain record_type response now (fp_v6 w) db))"

definition ptr_local_response :: "fakeip_pools \<Rightarrow> domain_name \<Rightarrow> dns_record_type \<Rightarrow> dns_response option" where
  "ptr_local_response w domain record_type =
     (if record_type \<noteq> RecPtr then None
      else
        (case reverse_name_to_ip domain of
           None \<Rightarrow> None
         | Some address \<Rightarrow>
             map_option (\<lambda>d. \<lparr>dr_addresses = ip_set_empty, dr_ptr_names = [d], dr_service_bindings = [], dr_minimum_ttl = Some 60\<rparr>)
               (case address of
                  V4 a \<Rightarrow> pool_lookup_domain (fp_v4 w) a
                | V6 a \<Rightarrow> pool_lookup_domain (fp_v6 w) a)))"

text \<open>The handler, over what its transform answers by itself and how it changes an answer. The local
  answer of \<open>ptr_local_response\<close> never fails.\<close>

definition fakeip_dns_answer ::
  "(byte list \<Rightarrow> (domain_name \<times> dns_record_type) result) \<Rightarrow> (byte list \<Rightarrow> dns_response \<Rightarrow> byte list result)
    \<Rightarrow> (domain_name \<Rightarrow> dns_record_type \<Rightarrow> dns_response result)
    \<Rightarrow> (domain_name \<Rightarrow> dns_record_type \<Rightarrow> dns_response option result)
    \<Rightarrow> (domain_name \<Rightarrow> dns_record_type \<Rightarrow> dns_response \<Rightarrow> 's \<Rightarrow> ('s \<times> dns_response result) option)
    \<Rightarrow> byte list \<Rightarrow> 's \<Rightarrow> ('s \<times> byte list result) option" where
  "fakeip_dns_answer decode_query encode_response upstream local_response transform packet s =
     (case decode_query packet of
        Inl e \<Rightarrow> Some (s, Inl e)
      | Inr (domain, record_type) \<Rightarrow>
          (case rbind (local_response domain record_type) (\<lambda>found. case found of Some r \<Rightarrow> Inr r | None \<Rightarrow> upstream domain record_type) of
             Inl e \<Rightarrow> Some (s, Inl e)
           | Inr response \<Rightarrow>
               map_option (\<lambda>(s, r). (s, rbind r (encode_response packet))) (transform domain record_type response s)))"

subsection \<open>Answers and their reverse\<close>

lemma ptr_local_v4:
  "pool_lookup_domain (fp_v4 w) a = Some d \<Longrightarrow> map_option dr_ptr_names (ptr_local_response w (ptr_name (V4 a)) RecPtr) = Some [d]"
  by (simp add: ptr_local_response_def reverse_name_roundtrip)

lemma put_hint_v4:
  assumes "b \<in> set (dr_service_bindings (put_hint answers_v4 a response))" "Ipv4Hint vs \<in> set (sb_params b)"
  shows "vs = [a]"
  using assms by (auto simp: put_hint_def answers_v4_def split: if_splits dns_service_param.splits)

text \<open>
  C17: with a working database, an address answer for a name is replaced by one address of the v4
  range and otherwise kept, and a reverse query for that address is answered from the pools with
  exactly the name; in an answer with service bindings every IPv4 hint becomes an address of the
  range that belongs to the name, so that no real address is left. The only failure is that the
  pool is exhausted.
\<close>

theorem fakeip_answer_reverses:
  assumes "pool_reach family_v4 pool4 True (fp_v4 w) (fp_db w)" "fakeip_config_new first final = Inr (pl_config pool4)"
    and "valid_domain d" "0 \<le> now"
  shows "(is_v4 (dr_addresses response) \<noteq> [] \<longrightarrow>
      (\<exists>w' r. dual_stack_transform pool4 pool6 (\<lambda>_. None) faults6 d RecA response now w = Some (w', r) \<and>
        (case r of
           Inl e \<Rightarrow> e = pool_exhausted family_v4
         | Inr answer \<Rightarrow> \<exists>a. first \<le> a \<and> a \<le> final \<and> answer = response\<lparr>dr_addresses := \<lparr>is_v4 = [a], is_v6 = []\<rparr>\<rparr>
             \<and> map_option dr_ptr_names (ptr_local_response w' (ptr_name (V4 a)) RecPtr) = Some [d])))
    \<and> (t \<in> {RecHttps, RecSvcb} \<and> has_hint answers_v4 response \<longrightarrow>
      (\<exists>st db r. answer_transform family_v4 answers_v4 pool4 (\<lambda>_. None) d t response now (fp_v4 w) (fp_db w) = Some (st, db, r) \<and>
        (case r of
           Inl e \<Rightarrow> e = pool_exhausted family_v4
         | Inr answer \<Rightarrow> \<forall>b \<in> set (dr_service_bindings answer). \<forall>vs. Ipv4Hint vs \<in> set (sb_params b) \<longrightarrow>
             (\<exists>a. vs = [a] \<and> first \<le> a \<and> a \<le> final \<and> pool_lookup_domain st a = Some d))))"
proof -
  obtain st1 db1 r where alloc: "allocate_at family_v4 pool4 (\<lambda>_. None) d now (fp_v4 w) (fp_db w) = Some (st1, db1, r)"
    and r: "case r of
       Inr a \<Rightarrow> first \<le> a \<and> a \<le> final \<and> pool_lookup_ip st1 d = Some a \<and> pool_lookup_domain st1 a = Some d
     | Inl e \<Rightarrow> e = pool_exhausted family_v4 \<and>
         (\<forall>a. first \<le> a \<and> a \<le> final \<longrightarrow> pool_lookup_domain st1 a \<noteq> None \<or> map_of (ps_reserved st1) a \<noteq> None)"
    using allocate_v4_answers [OF assms] by blast
  have given: "first \<le> a \<and> a \<le> final \<and> pool_lookup_domain st1 a = Some d" if "r = Inr a" for a
    using r that by simp
  have failed: "e = pool_exhausted family_v4" if "r = Inl e" for e
    using r that by simp
  have address: "\<exists>w' r. dual_stack_transform pool4 pool6 (\<lambda>_. None) faults6 d RecA response now w = Some (w', r) \<and>
      (case r of
         Inl e \<Rightarrow> e = pool_exhausted family_v4
       | Inr answer \<Rightarrow> \<exists>a. first \<le> a \<and> a \<le> final \<and> answer = response\<lparr>dr_addresses := \<lparr>is_v4 = [a], is_v6 = []\<rparr>\<rparr>
           \<and> map_option dr_ptr_names (ptr_local_response w' (ptr_name (V4 a)) RecPtr) = Some [d])"
    if "is_v4 (dr_addresses response) \<noteq> []"
    using that failed given ptr_local_v4 [of "\<lparr>fp_v4 = st1, fp_v6 = fp_v6 w, fp_db = db1\<rparr>"]
    by (cases r) (auto simp: dual_stack_transform_def answer_transform_def answers_v4_def answers_v6_def alloc)
  have hints: "\<exists>st db r. answer_transform family_v4 answers_v4 pool4 (\<lambda>_. None) d t response now (fp_v4 w) (fp_db w) = Some (st, db, r) \<and>
      (case r of
         Inl e \<Rightarrow> e = pool_exhausted family_v4
       | Inr answer \<Rightarrow> \<forall>b \<in> set (dr_service_bindings answer). \<forall>vs. Ipv4Hint vs \<in> set (sb_params b) \<longrightarrow>
           (\<exists>a. vs = [a] \<and> first \<le> a \<and> a \<le> final \<and> pool_lookup_domain st a = Some d))"
    if "t \<in> {RecHttps, RecSvcb}" "has_hint answers_v4 response"
  proof -
    have "t \<noteq> af_record_type answers_v4"
      using that(1) by (auto simp: answers_v4_def)
    then have "answer_transform family_v4 answers_v4 pool4 (\<lambda>_. None) d t response now (fp_v4 w) (fp_db w) =
        Some (st1, db1, rbind r (\<lambda>a. Inr (put_hint answers_v4 a response)))"
      using that by (simp add: answer_transform_def alloc)
    then show ?thesis
      using failed given put_hint_v4 by (cases r) fastforce+
  qed
  show ?thesis
    using address hints by blast
qed

theorem fakeip_answer_reverses_witness:
  "\<forall>pool6 faults6 st6. \<exists>w' r. dual_stack_transform demo_pool pool6 (\<lambda>_. None) faults6 ''e.f'' RecA
       \<lparr>dr_addresses = \<lparr>is_v4 = [7], is_v6 = []\<rparr>, dr_ptr_names = [], dr_service_bindings = [], dr_minimum_ttl = None\<rparr> 102
       \<lparr>fp_v4 = demo_state [(''a.b'', 10, 100), (''c.d'', 11, 101)] 12, fp_v6 = st6,
        fp_db = demo_rows [(''a.b'', 10, 100), (''c.d'', 11, 101)] 12 101\<rparr> = Some (w', r)
     \<and> (case r of
         Inl e \<Rightarrow> e = pool_exhausted family_v4
       | Inr answer \<Rightarrow> \<exists>a. 10 \<le> a \<and> a \<le> 12 \<and> map_option dr_ptr_names (ptr_local_response w' (ptr_name (V4 a)) RecPtr) = Some [''e.f''])"
proof (intro allI)
  fix pool6 faults6 st6
  let ?w = "\<lparr>fp_v4 = demo_state [(''a.b'', 10, 100), (''c.d'', 11, 101)] 12, fp_v6 = st6,
    fp_db = demo_rows [(''a.b'', 10, 100), (''c.d'', 11, 101)] 12 101\<rparr>"
  let ?r = "\<lparr>dr_addresses = \<lparr>is_v4 = [7], is_v6 = []\<rparr>, dr_ptr_names = [], dr_service_bindings = [], dr_minimum_ttl = None\<rparr>"
  have reach: "pool_reach family_v4 demo_pool True (fp_v4 ?w) (fp_db ?w)" and "is_v4 (dr_addresses ?r) \<noteq> []" "0 \<le> (102 :: int)"
    using demo_reach by simp_all
  note main = fakeip_answer_reverses [OF reach demo_config demo_domains(3), THEN conjunct1, THEN mp]
  have "\<exists>w' r. dual_stack_transform demo_pool pool6 (\<lambda>_. None) faults6 ''e.f'' RecA ?r 102 ?w = Some (w', r) \<and>
      (case r of Inl e \<Rightarrow> e = pool_exhausted family_v4
       | Inr answer \<Rightarrow> \<exists>a. 10 \<le> a \<and> a \<le> 12 \<and> answer = ?r\<lparr>dr_addresses := \<lparr>is_v4 = [a], is_v6 = []\<rparr>\<rparr>
           \<and> map_option dr_ptr_names (ptr_local_response w' (ptr_name (V4 a)) RecPtr) = Some [''e.f''])"
    by (rule main) simp_all
  then show "\<exists>w' r. dual_stack_transform demo_pool pool6 (\<lambda>_. None) faults6 ''e.f'' RecA ?r 102 ?w = Some (w', r)
     \<and> (case r of
         Inl e \<Rightarrow> e = pool_exhausted family_v4
       | Inr answer \<Rightarrow> \<exists>a. 10 \<le> a \<and> a \<le> 12 \<and> map_option dr_ptr_names (ptr_local_response w' (ptr_name (V4 a)) RecPtr) = Some [''e.f''])"
    by (elim exE conjE) (intro exI conjI, assumption, simp split: sum.splits, blast)
qed

end
