(* ===== verification/Ip_Fragment.thy ===== *)
theory Ip_Fragment
  imports Types
begin

text \<open>
  Fragmentation of IP packets at the TUN boundary (\<open>tun/src/packet.rs\<close>): the header walk that
  finds the part of an IPv6 packet every fragment repeats, the two fragmentation loops and the
  IPv4 header checksum.

  A packet is its byte list. The guards of the code keep every index in range, so \<open>packet[i]\<close>
  is \<open>packet ! i\<close>; writing a slice is \<open>put_at\<close>, which keeps the length.
\<close>

subsection \<open>Bytes of a packet\<close>

definition put_at :: "nat \<Rightarrow> byte list \<Rightarrow> byte list \<Rightarrow> byte list" where
  "put_at i bs packet = take i packet @ bs @ drop (i + length bs) packet"

definition be16_at :: "byte list \<Rightarrow> nat \<Rightarrow> u16" where
  "be16_at packet i = from_be16 [packet ! i, packet ! (i + 1)]"

definition ip_version :: "byte list \<Rightarrow> byte" where
  "ip_version packet = drop_bit 4 (packet ! 0)"

subsection \<open>The IPv4 header checksum\<close>

fun checksum_sum :: "u32 \<Rightarrow> byte list \<Rightarrow> u32" where
  "checksum_sum acc [] = acc"
| "checksum_sum acc [a] = acc + ucast (from_be16 [a, 0])"
| "checksum_sum acc (a # b # bs) = checksum_sum (acc + ucast (from_be16 [a, b])) bs"

function fold_carries :: "u32 \<Rightarrow> u32" where
  "fold_carries s = (if s > 0xFFFF then fold_carries (and s 0xFFFF + drop_bit 16 s) else s)"
  by pat_completeness auto

lemma fold_carries_decreases:
  assumes "(0xFFFF :: u32) < s"
  shows "unat (and s 0xFFFF + drop_bit 16 s) < unat s"
proof -
  have "and s 0xFFFF = take_bit 16 s"
    by (simp add: take_bit_eq_mask mask_eq_decr_exp)
  then have parts: "unat (and s 0xFFFF) = unat s mod 65536"
    by (simp only: unsigned_take_bit_eq) (simp add: take_bit_eq_mod)
  have shifted: "unat (drop_bit 16 s) = unat s div 65536"
    by (simp only: unat_drop_bit_eq) (simp add: drop_bit_eq_div)
  have big: "65536 \<le> unat s"
    using assms by (simp add: word_less_nat_alt)
  have "unat s mod 65536 + unat s div 65536 < unat s"
    using big div_mult_mod_eq [of "unat s" 65536] div_greater_zero_iff [of "unat s" 65536] by linarith
  moreover from this have "unat (and s 0xFFFF + drop_bit 16 s) = unat s mod 65536 + unat s div 65536"
    using unsigned_less [of s, where ?'a = nat] parts shifted by (subst unat_add_lem [THEN iffD1]) simp_all
  ultimately show ?thesis
    by simp
qed

termination fold_carries
  by (relation "measure unat") (simp_all add: fold_carries_decreases)

declare fold_carries.simps [simp del]

definition ipv4_header_checksum :: "byte list \<Rightarrow> u16" where
  "ipv4_header_checksum header = not (ucast (fold_carries (checksum_sum 0 header)))"

subsection \<open>The repeated part of an IPv6 packet\<close>

record frag_layout =
  fl_unfragmentable_prefix :: "byte list"
  fl_previous_next_header_offset :: nat
  fl_next_header :: byte
  fl_fragmentable_part :: "byte list"

definition layout_at :: "byte list \<Rightarrow> nat \<Rightarrow> byte \<Rightarrow> nat \<Rightarrow> nat \<Rightarrow> frag_layout" where
  "layout_at packet total_len next_header previous offset =
     \<lparr>fl_unfragmentable_prefix = take offset packet, fl_previous_next_header_offset = previous,
      fl_next_header = next_header, fl_fragmentable_part = drop offset (take total_len packet)\<rparr>"

text \<open>The bounded walk over the extension headers; the first argument counts the rounds left.\<close>

fun layout_loop ::
  "nat \<Rightarrow> byte list \<Rightarrow> nat \<Rightarrow> byte \<Rightarrow> nat \<Rightarrow> nat \<Rightarrow> bool \<Rightarrow> frag_layout result" where
  "layout_loop 0 packet total_len next_header previous offset saw_routing =
     Inl (error_invalid ''IPv6 extension header chain is too long'')"
| "layout_loop (Suc n) packet total_len next_header previous offset saw_routing =
     (let header_len = (unat (packet ! (offset + 1)) + 1) * 8;
          step = (\<lambda>kind saw.
            if offset + 2 > total_len then Inl (error_invalid (''truncated IPv6 '' @ kind @ '' header''))
            else if header_len < 8 \<or> offset + header_len > total_len
              then Inl (error_invalid (''invalid IPv6 '' @ kind @ '' header length''))
            else layout_loop n packet total_len (packet ! offset) offset (offset + header_len) saw)
      in if next_header = 44 then Inl (error_invalid ''cannot re-fragment an already-fragmented IPv6 packet'')
         else if next_header = 0 then
           (if offset \<noteq> 40
            then Inl (error_invalid ''IPv6 hop-by-hop header is not the first extension header'')
            else step ''extension'' saw_routing)
         else if next_header = 43 then step ''routing'' True
         else if next_header = 60 \<and> \<not> saw_routing then step ''destination'' saw_routing
         else Inr (layout_at packet total_len next_header previous offset))"

definition ipv6_fragment_layout :: "byte list \<Rightarrow> nat \<Rightarrow> frag_layout result" where
  "ipv6_fragment_layout packet total_len = layout_loop 16 packet total_len (packet ! 6) 6 40 False"

subsection \<open>The fragments\<close>

definition ipv4_fragment :: "byte list \<Rightarrow> nat \<Rightarrow> u32 \<Rightarrow> byte list \<Rightarrow> nat \<Rightarrow> bool \<Rightarrow> byte list" where
  "ipv4_fragment packet header_len identification chunk offset more_fragments =
     (let fragment_len = header_len + length chunk;
          reserved = and (be16_at packet 6) 0x8000;
          flags = or (or reserved (if more_fragments then 0x2000 else 0)) (of_nat offset div 8);
          fragment = take header_len packet @ chunk;
          fragment = put_at 2 (to_be16 (of_nat fragment_len)) fragment;
          fragment = put_at 4 (to_be16 (ucast identification)) fragment;
          fragment = put_at 6 (to_be16 flags) fragment;
          fragment = put_at 10 [0, 0] fragment
      in put_at 10 (to_be16 (ipv4_header_checksum (take header_len fragment))) fragment)"

definition ipv6_fragment :: "frag_layout \<Rightarrow> u32 \<Rightarrow> byte list \<Rightarrow> nat \<Rightarrow> bool \<Rightarrow> byte list" where
  "ipv6_fragment layout identification chunk offset more_fragments =
     (let fragment_len = length (fl_unfragmentable_prefix layout) + 8 + length chunk;
          offset_and_flags = or (push_bit 3 (of_nat offset div 8)) (of_bool more_fragments) :: u16;
          head = (fl_unfragmentable_prefix layout)[fl_previous_next_header_offset layout := 44]
      in put_at 4 (to_be16 (of_nat (fragment_len - 40)))
           (head @ [fl_next_header layout, 0] @ to_be16 offset_and_flags @ to_be32 identification @ chunk))"

text \<open>
  The loop over the payload. \<open>wire\<close> names the family in the error; \<open>emit chunk offset more\<close> builds a
  fragment.
\<close>

function fragment_loop ::
  "string \<Rightarrow> nat \<Rightarrow> (byte list \<Rightarrow> nat \<Rightarrow> bool \<Rightarrow> byte list) \<Rightarrow> byte list \<Rightarrow> nat \<Rightarrow> byte list list result" where
  "fragment_loop wire max_payload emit payload offset =
     (if max_payload = 0 \<or> offset \<ge> length payload then Inr []
      else
        (let chunk_len = min (length payload - offset) max_payload;
             more_fragments = (offset + chunk_len < length payload)
         in if offset div 8 > 0x1fff then Inl (error_invalid (wire @ '' fragment offset exceeds wire format''))
            else rbind (fragment_loop wire max_payload emit payload (offset + chunk_len)) (\<lambda>rest.
                   Inr (emit (take chunk_len (drop offset payload)) offset more_fragments # rest))))"
  by pat_completeness auto
termination
  by (relation "measure (\<lambda>(_, _, _, payload, offset). length payload - offset)") auto

declare fragment_loop.simps [simp del]

definition fragment_ipv4 :: "byte list \<Rightarrow> nat \<Rightarrow> u32 \<Rightarrow> byte list list result" where
  "fragment_ipv4 packet mtu identification =
     (if length packet < 20 then Inl (error_invalid ''malformed IPv4 packet'')
      else
        (let header_len = unat (and (packet ! 0) 0x0f) * 4; total_len = unat (be16_at packet 2) in
         if header_len < 20 \<or> header_len > length packet then Inl (error_invalid ''malformed IPv4 header length'')
         else if total_len < header_len \<or> total_len > length packet then Inl (error_invalid ''malformed IPv4 total length'')
         else if total_len \<le> mtu then Inr [take total_len packet]
         else if and (be16_at packet 6) 0x3fff \<noteq> 0
           then Inl (error_invalid ''cannot re-fragment an already-fragmented IPv4 packet'')
         else
           (let max_payload = (mtu - header_len) div 8 * 8 in
            if max_payload = 0 then Inl (error_invalid ''TUN MTU cannot carry an IPv4 fragment'')
            else fragment_loop ''IPv4'' max_payload (ipv4_fragment packet header_len identification)
                   (drop header_len (take total_len packet)) 0)))"

definition fragment_ipv6 :: "byte list \<Rightarrow> nat \<Rightarrow> u32 \<Rightarrow> byte list list result" where
  "fragment_ipv6 packet mtu identification =
     (if length packet < 40 then Inl (error_invalid ''malformed IPv6 packet'')
      else
        (let total_len = 40 + unat (be16_at packet 4) in
         if total_len > length packet then Inl (error_invalid ''malformed IPv6 payload length'')
         else if total_len \<le> mtu then Inr [take total_len packet]
         else rbind (ipv6_fragment_layout (take total_len packet) total_len) (\<lambda>layout.
           let overhead = length (fl_unfragmentable_prefix layout) + 8;
               max_payload = (if overhead \<ge> mtu then 0 else (mtu - overhead) div 8 * 8)
           in if max_payload = 0 then Inl (error_invalid ''TUN MTU cannot carry an IPv6 fragment'')
              else fragment_loop ''IPv6'' max_payload (ipv6_fragment layout identification)
                     (fl_fragmentable_part layout) 0)))"

definition fragment_ip_packet :: "byte list \<Rightarrow> nat \<Rightarrow> u32 \<Rightarrow> byte list list result" where
  "fragment_ip_packet packet mtu identification =
     (if \<not> (576 \<le> mtu \<and> mtu \<le> 9216) then Inl (error_invalid ''TUN MTU must be between 576 and 9216'')
      else if packet = [] then Inl (error_invalid ''cannot fragment an empty IP packet'')
      else if ip_version packet = 4 then fragment_ipv4 packet mtu identification
      else if ip_version packet = 6 then fragment_ipv6 packet mtu identification
      else Inl (error_invalid ''packet is not IPv4 or IPv6''))"

end
