(* ===== verification/Ip_Reassembly.thy ===== *)
theory Ip_Reassembly
  imports Ip_Fragment "HOL-Library.AList" "HOL-Library.Multiset"
begin

text \<open>
  Reassembly of IPv6 fragments at the TUN boundary (\<open>tun/src/packet_reassembly.rs\<close>): the parser
  of fragment headers and the bounded table of partial packets. A \<open>usize\<close> is a natural number
  with the checked and saturating operations of the code at 64 bits; an instant counts
  nanoseconds. A slice or index out of range panics: the outer option is \<open>None\<close>.
\<close>

definition IPV6_FRAGMENT_MAX_ENTRIES :: nat where "IPV6_FRAGMENT_MAX_ENTRIES = 32"
definition IPV6_FRAGMENT_MAX_FRAGMENTS :: nat where "IPV6_FRAGMENT_MAX_FRAGMENTS = 128"
definition MAX_SMOLTCP_PACKET_SIZE :: nat where "MAX_SMOLTCP_PACKET_SIZE = 40 + 65535"
definition IPV6_FRAGMENT_MAX_PACKET :: nat where "IPV6_FRAGMENT_MAX_PACKET = MAX_SMOLTCP_PACKET_SIZE"
definition IPV6_FRAGMENT_MAX_TOTAL_BYTES :: nat where "IPV6_FRAGMENT_MAX_TOTAL_BYTES = 1024 * 1024"
definition IPV6_FRAGMENT_TIMEOUT :: nat where "IPV6_FRAGMENT_TIMEOUT = 15 * 1000000000"

subsection \<open>Fragment headers\<close>

record fragment_metadata =
  fm_source :: u128
  fm_destination :: u128
  fm_identification :: u32
  fm_fragment_offset :: nat
  fm_more_fragments :: bool
  fm_next_header :: byte
  fm_previous_next_header_offset :: nat
  fm_unfragmentable_prefix :: "byte list"
  fm_payload :: "byte list"

definition fragment_header :: "byte list \<Rightarrow> nat \<Rightarrow> nat \<Rightarrow> fragment_metadata option result" where
  "fragment_header bytes previous offset =
     (if offset + 8 > length bytes then Inl (error_invalid ''truncated IPv6 fragment header'')
      else
        (let raw = be16_at bytes (offset + 2);
             fragment_offset = unat (drop_bit 3 raw) * 8;
             more_fragments = (and raw 1 \<noteq> 0);
             payload = drop (offset + 8) bytes
         in if more_fragments \<and> (payload = [] \<or> length payload mod 8 \<noteq> 0)
            then Inl (error_invalid ''invalid IPv6 fragment payload alignment'')
            else if fragment_offset = 0 \<and> \<not> more_fragments then Inr None
            else Inr (Some
              \<lparr>fm_source = from_be128 (take 16 (drop 8 bytes)), fm_destination = from_be128 (take 16 (drop 24 bytes)),
               fm_identification = from_be32 (take 4 (drop (offset + 4) bytes)), fm_fragment_offset = fragment_offset,
               fm_more_fragments = more_fragments, fm_next_header = bytes ! offset,
               fm_previous_next_header_offset = previous, fm_unfragmentable_prefix = take offset bytes,
               fm_payload = payload\<rparr>)))"

fun fragment_walk :: "nat \<Rightarrow> byte list \<Rightarrow> byte \<Rightarrow> nat \<Rightarrow> nat \<Rightarrow> fragment_metadata option result" where
  "fragment_walk 0 bytes next_header previous offset = Inl (error_invalid ''IPv6 extension header chain is too long'')"
| "fragment_walk (Suc n) bytes next_header previous offset =
     (if next_header = 44 then fragment_header bytes previous offset
      else if next_header = 0 \<or> next_header = 43 \<or> next_header = 60 then
        (if offset + 2 > length bytes then Inl (error_invalid ''truncated IPv6 extension header'')
         else
           (let header_len = (unat (bytes ! (offset + 1)) + 1) * 8 in
            if header_len < 8 \<or> offset + header_len > length bytes
            then Inl (error_invalid ''invalid IPv6 extension header length'')
            else fragment_walk n bytes (bytes ! offset) offset (offset + header_len)))
      else if next_header = 51 then
        (if offset + 2 > length bytes then Inl (error_invalid ''truncated IPv6 AH header'')
         else
           (let header_len = (unat (bytes ! (offset + 1)) + 2) * 4 in
            if header_len < 12 \<or> offset + header_len > length bytes
            then Inl (error_invalid ''invalid IPv6 AH header length'')
            else fragment_walk n bytes (bytes ! offset) offset (offset + header_len)))
      else Inr None)"

definition parse_ipv6_fragment_metadata :: "byte list \<Rightarrow> fragment_metadata option result" where
  "parse_ipv6_fragment_metadata bytes =
     (if bytes = [] \<or> ip_version bytes \<noteq> 6 then Inr None
      else if length bytes < 40 then Inl (error_invalid ''malformed IPv6 packet'')
      else case checked_add 40 (unat (be16_at bytes 4)) of
        None \<Rightarrow> Inl (error_invalid ''IPv6 packet length overflow'')
      | Some packet_len \<Rightarrow>
          if packet_len > length bytes then Inl (error_invalid ''malformed IPv6 packet length'')
          else fragment_walk 16 (take packet_len bytes) (bytes ! 6) 6 40)"

definition ipv6_has_fragment_header :: "byte list \<Rightarrow> bool" where
  "ipv6_has_fragment_header bytes =
     (case parse_ipv6_fragment_metadata bytes of Inr (Some _) \<Rightarrow> True | _ \<Rightarrow> False)"

subsection \<open>Partial packets\<close>

record fragment_key =
  fk_source :: u128
  fk_destination :: u128
  fk_identification :: u32
  fk_next_header :: byte

record fragment_piece =
  fp_start :: nat
  fp_end :: nat
  fp_payload :: "byte list"

record fragment_assembly =
  fa_unfragmentable_prefix :: "byte list"
  fa_previous_next_header_offset :: nat
  fa_next_header :: byte
  fa_pieces :: "fragment_piece list"
  fa_received_bytes :: nat
  fa_total_payload :: "nat option"
  fa_expires_at :: nat

definition memory_bytes :: "fragment_assembly \<Rightarrow> nat" where
  "memory_bytes a = saturating_add (length (fa_unfragmentable_prefix a)) (fa_received_bytes a)"

text \<open>The loop of \<open>complete\<close> over the pieces by their start: the bytes covered without a gap.\<close>

fun covered_bytes :: "nat \<Rightarrow> (nat \<times> nat) list \<Rightarrow> nat option" where
  "covered_bytes covered [] = Some covered"
| "covered_bytes covered ((s, e) # ps) = (if s \<noteq> covered then None else covered_bytes e ps)"

definition assembly_complete :: "fragment_assembly \<Rightarrow> nat option" where
  "assembly_complete a =
     (case fa_total_payload a of
        None \<Rightarrow> None
      | Some tot \<Rightarrow>
          (case covered_bytes 0 (sort_key fst (map (\<lambda>p. (fp_start p, fp_end p)) (fa_pieces a))) of
             None \<Rightarrow> None
           | Some covered \<Rightarrow> if covered = tot then Some tot else None))"

text \<open>\<open>copy_from_slice\<close> into the payload: a range out of bounds or of another length panics.\<close>

fun copy_pieces :: "nat \<Rightarrow> fragment_piece list \<Rightarrow> byte list \<Rightarrow> byte list option" where
  "copy_pieces payload_start [] packet = Some packet"
| "copy_pieces payload_start (p # ps) packet =
     (if fp_start p > fp_end p \<or> payload_start + fp_end p > length packet
         \<or> length (fp_payload p) \<noteq> fp_end p - fp_start p then None
      else copy_pieces payload_start ps (put_at (payload_start + fp_start p) (fp_payload p) packet))"

definition assembly_finish :: "fragment_assembly \<Rightarrow> nat \<Rightarrow> byte list option option" where
  "assembly_finish a total_payload =
     (case Option.bind (checked_sub (length (fa_unfragmentable_prefix a)) 40) (\<lambda>n. checked_add n total_payload) of
        None \<Rightarrow> Some None
      | Some payload_length \<Rightarrow>
          if payload_length > 65535 then Some None
          else if fa_previous_next_header_offset a \<ge> length (fa_unfragmentable_prefix a) then None
          else
            (let packet = (fa_unfragmentable_prefix a)[fa_previous_next_header_offset a := fa_next_header a];
                 packet = put_at 4 (to_be16 (of_nat payload_length)) packet;
                 payload_start = length packet
             in map_option Some (copy_pieces payload_start (fa_pieces a) (packet @ replicate total_payload 0))))"

definition ipv6_unfragmentable_prefixes_match :: "byte list \<Rightarrow> byte list \<Rightarrow> bool" where
  "ipv6_unfragmentable_prefixes_match left right =
     (length left = length right
      \<and> (if length left < 4 then None else Some (take 4 left)) = (if length right < 4 then None else Some (take 4 right))
      \<and> (if length left < 6 then None else Some (drop 6 left)) = (if length right < 6 then None else Some (drop 6 right)))"

subsection \<open>The reassembler\<close>

record reassembler =
  ra_assemblies :: "(fragment_key \<times> fragment_assembly) list"
  ra_buffered_bytes :: nat

definition reassembler_default :: reassembler where
  "reassembler_default = \<lparr>ra_assemblies = [], ra_buffered_bytes = 0\<rparr>"

definition remove_assembly :: "reassembler \<Rightarrow> fragment_key \<Rightarrow> reassembler \<times> fragment_assembly option" where
  "remove_assembly r key =
     (case map_of (ra_assemblies r) key of
        None \<Rightarrow> (r, None)
      | Some a \<Rightarrow>
          (r\<lparr>ra_assemblies := AList.delete key (ra_assemblies r),
             ra_buffered_bytes := ra_buffered_bytes r - memory_bytes a\<rparr>, Some a))"

definition reassembler_expire :: "reassembler \<Rightarrow> nat \<Rightarrow> reassembler" where
  "reassembler_expire r now =
     (let released = fold (\<lambda>(_, a) n. saturating_add n (memory_bytes a))
                       (filter (\<lambda>(_, a). \<not> fa_expires_at a > now) (ra_assemblies r)) 0
      in r\<lparr>ra_assemblies := filter (\<lambda>(_, a). fa_expires_at a > now) (ra_assemblies r),
           ra_buffered_bytes := ra_buffered_bytes r - released\<rparr>)"

type_synonym push_result = "(reassembler \<times> byte list option result) option"

text \<open>A rejected fragment drops its assembly.\<close>

definition drop_assembly :: "reassembler \<Rightarrow> fragment_key \<Rightarrow> push_result" where
  "drop_assembly r key = Some (fst (remove_assembly r key), Inr None)"

definition fragment_rejected :: "fragment_assembly \<Rightarrow> fragment_metadata \<Rightarrow> nat \<Rightarrow> bool" where
  "fragment_rejected a m fragment_end =
     (\<not> ipv6_unfragmentable_prefixes_match (fa_unfragmentable_prefix a) (fm_unfragmentable_prefix m)
      \<or> fa_previous_next_header_offset a \<noteq> fm_previous_next_header_offset m
      \<or> fa_next_header a \<noteq> fm_next_header m
      \<or> length (fa_pieces a) \<ge> IPV6_FRAGMENT_MAX_FRAGMENTS
      \<or> saturating_add (fa_received_bytes a) (length (fm_payload m)) > IPV6_FRAGMENT_MAX_PACKET
      \<or> list_ex (\<lambda>p. fm_fragment_offset m < fp_end p \<and> fragment_end > fp_start p) (fa_pieces a)
      \<or> (case fa_total_payload a of None \<Rightarrow> False | Some tot \<Rightarrow> fragment_end > tot)
      \<or> \<not> fm_more_fragments m \<and> (case fa_total_payload a of None \<Rightarrow> False | Some tot \<Rightarrow> tot \<noteq> fragment_end))"

definition add_piece :: "fragment_assembly \<Rightarrow> fragment_metadata \<Rightarrow> nat \<Rightarrow> fragment_assembly" where
  "add_piece a m fragment_end =
     a\<lparr>fa_total_payload := (if \<not> fm_more_fragments m then Some fragment_end else fa_total_payload a),
       fa_received_bytes := fa_received_bytes a + length (fm_payload m),
       fa_pieces := fa_pieces a @ [\<lparr>fp_start = fm_fragment_offset m, fp_end = fragment_end, fp_payload = fm_payload m\<rparr>]\<rparr>"

text \<open>The part of \<open>push_borrowed\<close> after the assembly of the fragment exists.\<close>

definition push_piece :: "reassembler \<Rightarrow> fragment_key \<Rightarrow> fragment_metadata \<Rightarrow> nat \<Rightarrow> push_result" where
  "push_piece r key m fragment_end =
     (if saturating_add (ra_buffered_bytes r) (length (fm_payload m)) > IPV6_FRAGMENT_MAX_TOTAL_BYTES
      then drop_assembly r key
      else case map_of (ra_assemblies r) key of
        None \<Rightarrow> Some (r, Inr None)
      | Some a \<Rightarrow>
          if fragment_rejected a m fragment_end then drop_assembly r key
          else
            (let a1 = add_piece a m fragment_end;
                 r1 = r\<lparr>ra_assemblies := AList.update key a1 (ra_assemblies r),
                        ra_buffered_bytes := saturating_add (ra_buffered_bytes r) (length (fm_payload m))\<rparr>
             in case assembly_complete a1 of
                  None \<Rightarrow> Some (r1, Inr None)
                | Some tot \<Rightarrow>
                    (case remove_assembly r1 key of
                       (_, None) \<Rightarrow> None
                     | (r2, Some a2) \<Rightarrow> map_option (\<lambda>packet. (r2, Inr packet)) (assembly_finish a2 tot))))"

definition metadata_key :: "fragment_metadata \<Rightarrow> fragment_key" where
  "metadata_key m =
     \<lparr>fk_source = fm_source m, fk_destination = fm_destination m, fk_identification = fm_identification m,
      fk_next_header = fm_next_header m\<rparr>"

definition new_assembly :: "fragment_metadata \<Rightarrow> nat \<Rightarrow> fragment_assembly" where
  "new_assembly m now =
     \<lparr>fa_unfragmentable_prefix = fm_unfragmentable_prefix m,
      fa_previous_next_header_offset = fm_previous_next_header_offset m, fa_next_header = fm_next_header m,
      fa_pieces = [], fa_received_bytes = 0, fa_total_payload = None, fa_expires_at = now + IPV6_FRAGMENT_TIMEOUT\<rparr>"

definition push_fragment :: "reassembler \<Rightarrow> fragment_metadata \<Rightarrow> nat \<Rightarrow> push_result" where
  "push_fragment r m now =
     (case checked_add (fm_fragment_offset m) (length (fm_payload m)) of
        None \<Rightarrow> Some (r, Inl (error_invalid ''IPv6 fragment offset overflow''))
      | Some fragment_end \<Rightarrow>
          if fragment_end > IPV6_FRAGMENT_MAX_PACKET
             \<or> length (fm_unfragmentable_prefix m) > IPV6_FRAGMENT_MAX_PACKET
             \<or> saturating_add (length (fm_unfragmentable_prefix m)) fragment_end > IPV6_FRAGMENT_MAX_PACKET
          then Some (r, Inr None)
          else
            (let key = metadata_key m in
             if map_of (ra_assemblies r) key = None then
               (if length (ra_assemblies r) \<ge> IPV6_FRAGMENT_MAX_ENTRIES then Some (r, Inr None)
                else if saturating_add (ra_buffered_bytes r)
                          (saturating_add (length (fm_unfragmentable_prefix m)) (length (fm_payload m)))
                        > IPV6_FRAGMENT_MAX_TOTAL_BYTES then Some (r, Inr None)
                else push_piece
                       (r\<lparr>ra_assemblies := AList.update key (new_assembly m now) (ra_assemblies r),
                          ra_buffered_bytes :=
                            saturating_add (ra_buffered_bytes r) (length (fm_unfragmentable_prefix m))\<rparr>)
                       key m fragment_end)
             else push_piece r key m fragment_end))"

definition reassembler_push :: "reassembler \<Rightarrow> byte list \<Rightarrow> nat \<Rightarrow> push_result" where
  "reassembler_push r packet now =
     (let r0 = reassembler_expire r now in
      case parse_ipv6_fragment_metadata packet of
        Inl e \<Rightarrow> Some (r0, Inl e)
      | Inr None \<Rightarrow> Some (r0, Inr (Some packet))
      | Inr (Some m) \<Rightarrow> push_fragment r0 m now)"

subsection \<open>Pieces in order\<close>

lemma length_put_at [simp]: "i + length bs \<le> length p \<Longrightarrow> length (put_at i bs p) = length p"
  by (simp add: put_at_def)

lemma nth_put_at:
  "i + length bs \<le> length p \<Longrightarrow> x < length p \<Longrightarrow>
   put_at i bs p ! x = (if i \<le> x \<and> x < i + length bs then bs ! (x - i) else p ! x)"
  by (auto simp: put_at_def nth_append min_def)

lemma map_sort_key: "map f (sort_key (\<lambda>x. g (f x)) xs) = sort_key g (map f xs)"
proof -
  have "map f (insort_key (\<lambda>x. g (f x)) y ys) = insort_key g (f y) (map f ys)" for y ys
    by (induction ys) simp_all
  then show ?thesis
    by (induction xs) simp_all
qed

definition piece_range :: "fragment_piece \<Rightarrow> nat \<times> nat" where
  "piece_range p = (fp_start p, fp_end p)"

definition piece_wf :: "fragment_piece \<Rightarrow> bool" where
  "piece_wf p \<longleftrightarrow> fp_end p = fp_start p + length (fp_payload p)"

definition pieces_disjoint :: "fragment_piece \<Rightarrow> fragment_piece \<Rightarrow> bool" where
  "pieces_disjoint p q \<longleftrightarrow> \<not> (fp_start p < fp_end q \<and> fp_start q < fp_end p)"

lemma sorted_ranges:
  "sort_key fst (map (\<lambda>p. (fp_start p, fp_end p)) ps) = map piece_range (sort_key fp_start ps)"
  using map_sort_key [of piece_range fst ps] by (simp add: piece_range_def [abs_def])

lemma covered_bytes_tile:
  "\<forall>p \<in> set ps. piece_wf p \<Longrightarrow> covered_bytes c (map piece_range ps) = Some t \<Longrightarrow>
   t = c + length (concat (map fp_payload ps))
   \<and> (\<forall>us p ws. ps = us @ p # ws \<longrightarrow> fp_start p = c + length (concat (map fp_payload us)))"
proof (induction ps arbitrary: c)
  case (Cons q ps)
  have q: "fp_start q = c" "covered_bytes (fp_end q) (map piece_range ps) = Some t" "fp_end q = c + length (fp_payload q)"
    using Cons.prems by (simp_all add: piece_wf_def piece_range_def [of q] split: if_splits)
  have t: "t = fp_end q + length (concat (map fp_payload ps))"
    and at: "\<And>us p ws. ps = us @ p # ws \<Longrightarrow> fp_start p = fp_end q + length (concat (map fp_payload us))"
    using Cons.IH [OF _ q(2)] Cons.prems(1) by auto
  have "fp_start p = c + length (concat (map fp_payload us))" if "q # ps = us @ p # ws" for us p ws
    using that q(1,3) at by (cases us) auto
  then show ?case
    using t q(3) by auto
qed simp

lemma concat_nth_split:
  "x < length (concat xss) \<Longrightarrow> \<exists>us v ws. xss = us @ v # ws \<and> length (concat us) \<le> x \<and> x < length (concat us) + length v
     \<and> concat xss ! x = v ! (x - length (concat us))"
proof (induction xss arbitrary: x)
  case (Cons xs xss)
  show ?case
  proof (cases "x < length xs")
    case True
    then have "xs # xss = [] @ xs # xss \<and> length (concat []) \<le> x \<and> x < length (concat []) + length xs
        \<and> concat (xs # xss) ! x = xs ! (x - length (concat []))"
      by (simp add: nth_append)
    then show ?thesis
      by blast
  next
    case False
    then have "x - length xs < length (concat xss)"
      using Cons.prems by auto
    from Cons.IH [OF this] obtain us v ws where
      v: "xss = us @ v # ws" "length (concat us) \<le> x - length xs" "x - length xs < length (concat us) + length v"
      "concat xss ! (x - length xs) = v ! (x - length xs - length (concat us))"
      by blast
    have "length (concat (xs # us)) \<le> x" "x < length (concat (xs # us)) + length v"
      using v(2,3) False by simp_all
    moreover have "concat (xs # xss) ! x = v ! (x - length (concat (xs # us)))"
      using v(4) False by (simp add: nth_append [of xs])
    ultimately have "xs # xss = (xs # us) @ v # ws \<and> length (concat (xs # us)) \<le> x \<and> x < length (concat (xs # us)) + length v
        \<and> concat (xs # xss) ! x = v ! (x - length (concat (xs # us)))"
      using v(1) by simp
    then show ?thesis
      by blast
  qed
qed simp

definition covers :: "fragment_piece \<Rightarrow> nat \<Rightarrow> bool" where
  "covers p x \<longleftrightarrow> fp_start p \<le> x \<and> x < fp_end p"

text \<open>Copying disjoint pieces in any order puts every byte in its place.\<close>

lemma copy_pieces_ok:
  assumes "\<forall>p \<in> set ps. piece_wf p \<and> n + fp_end p \<le> length pk" "sorted_wrt pieces_disjoint ps"
  shows "\<exists>r. copy_pieces n ps pk = Some r \<and> length r = length pk \<and> take n r = take n pk
    \<and> (\<forall>x. n + x < length pk \<longrightarrow>
         (\<forall>p \<in> set ps. covers p x \<longrightarrow> r ! (n + x) = fp_payload p ! (x - fp_start p))
         \<and> ((\<forall>p \<in> set ps. \<not> covers p x) \<longrightarrow> r ! (n + x) = pk ! (n + x)))"
  using assms
proof (induction ps arbitrary: pk)
  case (Cons q ps)
  let ?pk = "put_at (n + fp_start q) (fp_payload q) pk"
  have q: "fp_end q = fp_start q + length (fp_payload q)" "n + fp_end q \<le> length pk"
    using Cons.prems(1) by (auto simp: piece_wf_def)
  then have len: "length ?pk = length pk"
    by simp
  have tk: "take n ?pk = take n pk"
    using q by (intro nth_equalityI) (auto simp: nth_put_at)
  have at: "?pk ! (n + x) = (if covers q x then fp_payload q ! (x - fp_start q) else pk ! (n + x))" if "n + x < length pk" for x
    using that q by (auto simp: nth_put_at covers_def)
  obtain r where r: "copy_pieces n ps ?pk = Some r" "length r = length pk" "take n r = take n pk"
    and covered: "\<And>x p. n + x < length pk \<Longrightarrow> p \<in> set ps \<Longrightarrow> covers p x \<Longrightarrow> r ! (n + x) = fp_payload p ! (x - fp_start p)"
    and rest: "\<And>x. n + x < length pk \<Longrightarrow> \<forall>p \<in> set ps. \<not> covers p x \<Longrightarrow> r ! (n + x) = ?pk ! (n + x)"
    using Cons.IH [of ?pk] Cons.prems len tk by auto
  have alone: "\<not> covers p x" if "covers q x" "p \<in> set ps" for p x
    using Cons.prems(2) that by (auto simp: covers_def pieces_disjoint_def)
  have "copy_pieces n (q # ps) pk = Some r"
    using q r(1) by simp
  moreover have "r ! (n + x) = fp_payload p ! (x - fp_start p)" if "n + x < length pk" "p \<in> set (q # ps)" "covers p x" for x p
    using that covered rest [OF that(1)] at [OF that(1)] alone by (cases "p = q") auto
  moreover have "r ! (n + x) = pk ! (n + x)" if "n + x < length pk" "\<forall>p \<in> set (q # ps). \<not> covers p x" for x
    using that rest [OF that(1)] at [OF that(1)] by auto
  ultimately show ?case
    using r by blast
qed simp

subsection \<open>Assemblies\<close>

definition assembly_ok :: "fragment_assembly \<Rightarrow> bool" where
  "assembly_ok a \<longleftrightarrow>
     40 \<le> length (fa_unfragmentable_prefix a) \<and> fa_previous_next_header_offset a < length (fa_unfragmentable_prefix a)
     \<and> length (fa_unfragmentable_prefix a) \<le> IPV6_FRAGMENT_MAX_PACKET
     \<and> length (fa_pieces a) \<le> IPV6_FRAGMENT_MAX_FRAGMENTS
     \<and> fa_received_bytes a = length (concat (map fp_payload (fa_pieces a)))
     \<and> fa_received_bytes a \<le> IPV6_FRAGMENT_MAX_PACKET
     \<and> (\<forall>p \<in> set (fa_pieces a). piece_wf p \<and> length (fa_unfragmentable_prefix a) + fp_end p \<le> IPV6_FRAGMENT_MAX_PACKET)
     \<and> sorted_wrt pieces_disjoint (fa_pieces a)"

lemma max_packet: "IPV6_FRAGMENT_MAX_PACKET = 65575"
  by (simp add: IPV6_FRAGMENT_MAX_PACKET_def MAX_SMOLTCP_PACKET_SIZE_def)

text \<open>
  A complete assembly yields the repeated headers, with the fragment header taken out and the
  length corrected, followed by the payloads in the order of their offsets.
\<close>

definition assembled :: "fragment_assembly \<Rightarrow> byte list" where
  "assembled a =
     (let payload = concat (map fp_payload (sort_key fp_start (fa_pieces a))) in
      put_at 4 (to_be16 (of_nat (length (fa_unfragmentable_prefix a) - 40 + length payload)))
        ((fa_unfragmentable_prefix a)[fa_previous_next_header_offset a := fa_next_header a]) @ payload)"

lemma assembly_finish_ok:
  assumes ok: "assembly_ok a" and complete: "assembly_complete a = Some tot"
  shows "assembly_finish a tot = Some (Some (assembled a)) \<and> length (assembled a) \<le> IPV6_FRAGMENT_MAX_PACKET
    \<and> tot = length (concat (map fp_payload (sort_key fp_start (fa_pieces a))))"
proof -
  let ?ps = "sort_key fp_start (fa_pieces a)" and ?pre = "fa_unfragmentable_prefix a"
  let ?payload = "concat (map fp_payload ?ps)"
  let ?head = "put_at 4 (to_be16 (of_nat (length ?pre - 40 + tot))) (?pre[fa_previous_next_header_offset a := fa_next_header a])"
  have pre: "40 \<le> length ?pre" "fa_previous_next_header_offset a < length ?pre"
    and pieces: "\<forall>p \<in> set (fa_pieces a). piece_wf p \<and> length ?pre + fp_end p \<le> 65575"
    and disj: "sorted_wrt pieces_disjoint (fa_pieces a)" and small: "length ?pre \<le> 65575"
    using ok by (auto simp: assembly_ok_def max_packet)
  have "covered_bytes 0 (map piece_range ?ps) = Some tot"
    using complete by (auto simp: assembly_complete_def sorted_ranges split: option.splits if_splits)
  moreover have "\<forall>p \<in> set ?ps. piece_wf p"
    using pieces by simp
  ultimately have tile: "tot = 0 + length ?payload
      \<and> (\<forall>us p ws. ?ps = us @ p # ws \<longrightarrow> fp_start p = 0 + length (concat (map fp_payload us)))"
    by (intro covered_bytes_tile)
  then have tot: "tot = length ?payload"
    and at: "\<And>us p ws. ?ps = us @ p # ws \<Longrightarrow> fp_start p = length (concat (map fp_payload us))"
    by (simp, metis add_0)
  have ends: "fp_end p \<le> tot" if p: "p \<in> set (fa_pieces a)" for p
  proof -
    obtain us ws where split: "?ps = us @ p # ws"
      using p by (metis set_sort split_list)
    then have "fp_end p = length (concat (map fp_payload us)) + length (fp_payload p)"
      using at [OF split] pieces p by (auto simp: piece_wf_def)
    then show ?thesis
      unfolding tot split by simp
  qed
  have "tot + length ?pre \<le> 65575"
  proof (cases "fa_pieces a = []")
    case True
    then show ?thesis
      using tot small by simp
  next
    case False
    then have "?ps \<noteq> []"
      by (metis length_0_conv length_sort)
    then obtain us p where split: "?ps = us @ [p]"
      by (metis rev_exhaust)
    then have p: "p \<in> set (fa_pieces a)"
      by (metis in_set_conv_decomp set_sort)
    have "fp_end p = tot"
      using at [OF split] pieces p unfolding tot split by (auto simp: piece_wf_def)
    then show ?thesis
      using pieces p by auto
  qed
  have lenhead: "length ?head = length ?pre"
    using pre by simp
  let ?packet = "?head @ replicate tot 0"
  have "\<forall>p \<in> set (fa_pieces a). piece_wf p \<and> length ?head + fp_end p \<le> length ?packet"
    using pieces ends by simp
  from copy_pieces_ok [OF this disj] obtain r where r: "copy_pieces (length ?head) (fa_pieces a) ?packet = Some r"
    "length r = length ?pre + tot" "take (length ?head) r = take (length ?head) ?packet"
    and covered: "\<And>x p. x < tot \<Longrightarrow> p \<in> set (fa_pieces a) \<Longrightarrow> covers p x \<Longrightarrow>
      r ! (length ?head + x) = fp_payload p ! (x - fp_start p)"
    using lenhead by auto
  have "drop (length ?head) r = ?payload"
  proof (rule nth_equalityI)
    show "length (drop (length ?head) r) = length ?payload"
      using r(2) lenhead tot by simp
  next
    fix x
    assume "x < length (drop (length ?head) r)"
    then have x: "x < length ?payload" "x < tot"
      using r(2) lenhead tot by simp_all
    from concat_nth_split [OF x(1)] obtain us v ws where v: "map fp_payload ?ps = us @ v # ws"
      "length (concat us) \<le> x" "x < length (concat us) + length v" "?payload ! x = v ! (x - length (concat us))"
      by blast
    then obtain us' p ws' where split: "?ps = us' @ p # ws'" "us = map fp_payload us'" "v = fp_payload p"
      by (auto simp: map_eq_append_conv)
    have p: "p \<in> set (fa_pieces a)"
      using split(1) by (metis in_set_conv_decomp set_sort)
    have "fp_start p = length (concat us)"
      using at [OF split(1)] split(2) by simp
    then show "drop (length ?head) r ! x = ?payload ! x"
      using covered [OF x(2) p] v split(3) pieces p r(2) lenhead x by (auto simp: covers_def piece_wf_def)
  qed
  then have "r = ?head @ ?payload"
    using r(3) append_take_drop_id [of "length ?head" r] by simp
  then have "r = assembled a"
    by (simp add: assembled_def Let_def tot)
  moreover have "length ?pre - 40 + tot < 2 ^ 64" "\<not> length ?pre - 40 + tot > 65535"
    using \<open>tot + length ?pre \<le> 65575\<close> pre by simp_all
  ultimately show ?thesis
    using pre r tot \<open>tot + length ?pre \<le> 65575\<close> lenhead
    by (auto simp: assembly_finish_def checked_sub_def checked_add_def Let_def max_packet)
qed

subsection \<open>The bounds of the reassembler\<close>

definition reassembler_ok :: "reassembler \<Rightarrow> bool" where
  "reassembler_ok r \<longleftrightarrow>
     distinct (map fst (ra_assemblies r)) \<and> length (ra_assemblies r) \<le> IPV6_FRAGMENT_MAX_ENTRIES
     \<and> (\<forall>(k, a) \<in> set (ra_assemblies r). assembly_ok a)
     \<and> ra_buffered_bytes r = sum_list (map (\<lambda>(k, a). memory_bytes a) (ra_assemblies r))
     \<and> ra_buffered_bytes r \<le> IPV6_FRAGMENT_MAX_TOTAL_BYTES"

lemma assembly_memory: "assembly_ok a \<Longrightarrow> memory_bytes a = length (fa_unfragmentable_prefix a) + fa_received_bytes a"
  by (auto simp: assembly_ok_def memory_bytes_def saturating_add_def max_packet)

lemma sum_delete:
  "distinct (map fst xs) \<Longrightarrow> map_of xs k = Some a \<Longrightarrow>
   sum_list (map (\<lambda>(k, a). f a) xs) = f a + sum_list (map (\<lambda>(k, a). f a) (AList.delete k xs))" for f :: "'a \<Rightarrow> nat"
proof (induction xs)
  case (Cons x xs)
  then show ?case
    by (cases x) (auto simp: AList.delete_idem simp del: map_of_eq_Some_iff split: if_splits)
qed simp

lemma in_set_updateD: "(k, b) \<in> set (AList.update key a xs) \<Longrightarrow> k = key \<and> b = a \<or> (k, b) \<in> set xs"
  by (induction xs) (auto split: if_splits)

lemma sum_update:
  "distinct (map fst xs) \<Longrightarrow> sum_list (map (\<lambda>(k, a). f a) (AList.update k a xs)) + (case map_of xs k of None \<Rightarrow> 0 | Some b \<Rightarrow> f b)
     = sum_list (map (\<lambda>(k, a). f a) xs) + f a" for f :: "'a \<Rightarrow> nat"
  by (induction xs) (auto simp: split: option.splits)

lemma remove_assembly_ok: "reassembler_ok r \<Longrightarrow> reassembler_ok (fst (remove_assembly r key))"
proof (cases "map_of (ra_assemblies r) key")
  case (Some a)
  assume ok: "reassembler_ok r"
  then have "ra_buffered_bytes r = memory_bytes a + sum_list (map (\<lambda>(k, a). memory_bytes a) (AList.delete key (ra_assemblies r)))"
    using sum_delete [of "ra_assemblies r" key a memory_bytes] Some by (simp add: reassembler_ok_def)
  moreover have "set (AList.delete key (ra_assemblies r)) \<subseteq> set (ra_assemblies r)"
    "length (AList.delete key (ra_assemblies r)) \<le> length (ra_assemblies r)"
    by (auto simp: AList.delete_eq)
  ultimately show ?thesis
    using ok Some by (auto simp: reassembler_ok_def remove_assembly_def distinct_delete)
qed (simp add: remove_assembly_def)

lemma fold_saturating:
  "n + sum_list (map (\<lambda>(k, a). f a) xs) < 2 ^ 64 \<Longrightarrow>
   fold (\<lambda>(_, a) n. saturating_add n (f a)) xs n = n + sum_list (map (\<lambda>(k, a). f a) xs)"
  by (induction xs arbitrary: n) (auto simp: saturating_add_def)

lemma sum_filter_split:
  "sum_list (map f (filter P xs)) + sum_list (map f (filter (\<lambda>x. \<not> P x) xs)) = (sum_list (map f xs) :: nat)"
  by (induction xs) auto

lemma reassembler_expire_ok:
  assumes "reassembler_ok r"
  shows "reassembler_ok (reassembler_expire r now)"
proof -
  let ?mem = "\<lambda>(k :: fragment_key, a). memory_bytes a" and ?live = "\<lambda>(k :: fragment_key, a). fa_expires_at a > now"
  have split: "sum_list (map ?mem (filter ?live (ra_assemblies r))) + sum_list (map ?mem (filter (\<lambda>x. \<not> ?live x) (ra_assemblies r)))
      = ra_buffered_bytes r"
    using assms sum_filter_split [of ?mem ?live] by (simp add: reassembler_ok_def)
  have dead: "filter (\<lambda>(_, a). \<not> fa_expires_at a > now) (ra_assemblies r) = filter (\<lambda>x. \<not> ?live x) (ra_assemblies r)"
    by (intro filter_cong) auto
  have "fold (\<lambda>(_, a) n. saturating_add n (memory_bytes a)) (filter (\<lambda>x. \<not> ?live x) (ra_assemblies r)) 0
      = sum_list (map ?mem (filter (\<lambda>x. \<not> ?live x) (ra_assemblies r)))"
    using split assms fold_saturating [of 0 memory_bytes "filter (\<lambda>x. \<not> ?live x) (ra_assemblies r)"]
    by (simp add: reassembler_ok_def IPV6_FRAGMENT_MAX_TOTAL_BYTES_def)
  then have "ra_buffered_bytes (reassembler_expire r now) = sum_list (map ?mem (filter ?live (ra_assemblies r)))"
    using split by (simp add: reassembler_expire_def Let_def dead [unfolded not_less] not_less)
  moreover have "length (filter ?live (ra_assemblies r)) \<le> IPV6_FRAGMENT_MAX_ENTRIES"
    using assms length_filter_le [of ?live "ra_assemblies r"] unfolding reassembler_ok_def by linarith
  ultimately show ?thesis
    using assms split by (auto simp: reassembler_ok_def reassembler_expire_def Let_def distinct_map_filter)
qed

definition metadata_ok :: "fragment_metadata \<Rightarrow> bool" where
  "metadata_ok m \<longleftrightarrow> 40 \<le> length (fm_unfragmentable_prefix m)
     \<and> fm_previous_next_header_offset m < length (fm_unfragmentable_prefix m)
     \<and> length (fm_unfragmentable_prefix m) + 8 + length (fm_payload m) \<le> IPV6_FRAGMENT_MAX_PACKET"

lemma fragment_walk_SomeE:
  assumes "fragment_walk (Suc n) bytes nh prev off = Inr (Some m)"
  obtains (header) "fragment_header bytes prev off = Inr (Some m)"
  | (step) hl where "8 \<le> hl" "fragment_walk n bytes (bytes ! off) off (off + hl) = Inr (Some m)"
proof -
  consider "nh = 44" | "nh \<noteq> 44" "nh = 0 \<or> nh = 43 \<or> nh = 60" | "nh = 51" | "nh \<notin> {44, 0, 43, 60, 51}"
    by blast
  then show thesis
    using assms header
      step [of "8 + unat (bytes ! Suc off) * 8"] step [of "8 + unat (bytes ! Suc off) * 4"]
    by cases (auto simp: Let_def split: if_splits)
qed

lemma fragment_header_SomeD:
  assumes "fragment_header bytes prev off = Inr (Some m)"
  shows "off + 8 \<le> length bytes \<and> fm_unfragmentable_prefix m = take off bytes \<and> fm_previous_next_header_offset m = prev
    \<and> fm_payload m = drop (off + 8) bytes \<and> fm_source m = from_be128 (take 16 (drop 8 bytes))
    \<and> fm_destination m = from_be128 (take 16 (drop 24 bytes))"
  using assms by (auto simp: fragment_header_def Let_def split: if_splits)

lemma fragment_walk_ok:
  "fragment_walk n bytes nh prev off = Inr (Some m) \<Longrightarrow> length bytes \<le> IPV6_FRAGMENT_MAX_PACKET \<Longrightarrow>
   40 \<le> off \<Longrightarrow> prev < off \<Longrightarrow> metadata_ok m"
proof (induction n arbitrary: nh prev off)
  case (Suc n)
  from Suc.prems(1) show ?case
  proof (cases rule: fragment_walk_SomeE)
    case header
    then show ?thesis
      using Suc.prems by (auto dest!: fragment_header_SomeD simp: metadata_ok_def max_packet)
  next
    case (step hl)
    then show ?thesis
      using Suc.IH [OF step(2)] Suc.prems by simp
  qed
qed simp

lemma parse_metadata_ok:
  assumes "parse_ipv6_fragment_metadata bytes = Inr (Some m)"
  shows "metadata_ok m"
proof -
  let ?len = "40 + unat (be16_at bytes 4)"
  have "fragment_walk 16 (take ?len bytes) (bytes ! 6) 6 40 = Inr (Some m)"
    using assms by (auto simp: parse_ipv6_fragment_metadata_def checked_add_def split: if_splits option.splits)
  moreover have "unat (be16_at bytes 4) < 2 ^ 16"
    using unsigned_less [of "be16_at bytes 4", where ?'a = nat] by simp
  then have "length (take ?len bytes) \<le> IPV6_FRAGMENT_MAX_PACKET"
    by (simp add: max_packet)
  ultimately show ?thesis
    by (rule fragment_walk_ok) simp_all
qed

lemma max_total: "IPV6_FRAGMENT_MAX_TOTAL_BYTES = 1048576"
  by (simp add: IPV6_FRAGMENT_MAX_TOTAL_BYTES_def)

lemma add_piece_ok:
  assumes "assembly_ok a" "\<not> fragment_rejected a m fe" "metadata_ok m"
    and "fe = fm_fragment_offset m + length (fm_payload m)"
    and "length (fm_unfragmentable_prefix m) + fe \<le> IPV6_FRAGMENT_MAX_PACKET"
  shows "assembly_ok (add_piece a m fe)"
proof -
  let ?p = "\<lparr>fp_start = fm_fragment_offset m, fp_end = fe, fp_payload = fm_payload m\<rparr>"
  have pre: "length (fa_unfragmentable_prefix a) = length (fm_unfragmentable_prefix m)"
    and room: "length (fa_pieces a) < IPV6_FRAGMENT_MAX_FRAGMENTS"
      "saturating_add (fa_received_bytes a) (length (fm_payload m)) \<le> IPV6_FRAGMENT_MAX_PACKET"
    and disj: "\<forall>q \<in> set (fa_pieces a). pieces_disjoint q ?p"
    using assms(2) by (auto simp: fragment_rejected_def ipv6_unfragmentable_prefixes_match_def list_ex_iff pieces_disjoint_def)
  have "fa_received_bytes a + length (fm_payload m) \<le> IPV6_FRAGMENT_MAX_PACKET"
    using room(2) by (auto simp: saturating_add_def max_packet)
  moreover have "sorted_wrt pieces_disjoint (fa_pieces a @ [?p])"
    using assms(1) disj by (simp add: assembly_ok_def sorted_wrt_append)
  moreover have "piece_wf ?p"
    using assms(4) by (simp add: piece_wf_def)
  ultimately show ?thesis
    using assms(1,5) room(1) pre by (auto simp: assembly_ok_def add_piece_def)
qed

lemma drop_assembly_ok: "reassembler_ok r \<Longrightarrow> \<exists>r1. drop_assembly r key = Some (r1, Inr None) \<and> reassembler_ok r1"
  by (simp add: drop_assembly_def remove_assembly_ok)

lemma push_piece_ok:
  assumes ok: "reassembler_ok r" and m: "metadata_ok m" "fe = fm_fragment_offset m + length (fm_payload m)"
    "length (fm_unfragmentable_prefix m) + fe \<le> IPV6_FRAGMENT_MAX_PACKET"
  shows "\<exists>r1 p. push_piece r key m fe = Some (r1, Inr p) \<and> reassembler_ok r1
    \<and> (\<forall>packet. p = Some packet \<longrightarrow> (\<exists>a. assembly_ok a \<and> packet = assembled a))"
proof (cases "saturating_add (ra_buffered_bytes r) (length (fm_payload m)) > IPV6_FRAGMENT_MAX_TOTAL_BYTES")
  case True
  then show ?thesis
    using drop_assembly_ok [OF ok, of key] by (auto simp: push_piece_def)
next
  case False
  then have room: "ra_buffered_bytes r + length (fm_payload m) \<le> IPV6_FRAGMENT_MAX_TOTAL_BYTES"
    by (auto simp: saturating_add_def max_total)
  show ?thesis
  proof (cases "map_of (ra_assemblies r) key")
    case None
    then show ?thesis
      using False ok by (simp add: push_piece_def)
  next
    case (Some a)
    then have a: "assembly_ok a"
      using ok by (auto simp: reassembler_ok_def)
    show ?thesis
    proof (cases "fragment_rejected a m fe")
      case True
      then show ?thesis
        using False Some drop_assembly_ok [OF ok, of key] by (auto simp: push_piece_def)
    next
      case accepted: False
      let ?a = "add_piece a m fe"
      let ?r = "r\<lparr>ra_assemblies := AList.update key ?a (ra_assemblies r),
        ra_buffered_bytes := saturating_add (ra_buffered_bytes r) (length (fm_payload m))\<rparr>"
      have a1: "assembly_ok ?a"
        using add_piece_ok [OF a accepted m] .
      have mem: "memory_bytes ?a = memory_bytes a + length (fm_payload m)"
        using assembly_memory [OF a] assembly_memory [OF a1] by (simp add: add_piece_def)
      have "sum_list (map (\<lambda>(k, a). memory_bytes a) (AList.update key ?a (ra_assemblies r))) = ra_buffered_bytes r + length (fm_payload m)"
        using sum_update [of "ra_assemblies r" memory_bytes key ?a] ok Some mem by (simp add: reassembler_ok_def)
      moreover have "saturating_add (ra_buffered_bytes r) (length (fm_payload m)) = ra_buffered_bytes r + length (fm_payload m)"
        using room by (simp add: saturating_add_def max_total)
      moreover have "length (AList.update key ?a (ra_assemblies r)) = length (ra_assemblies r)"
        using Some by (intro length_update_old) (force dest: map_of_SomeD)
      moreover have "assembly_ok b" if "(k, b) \<in> set (AList.update key ?a (ra_assemblies r))" for k b
        using in_set_updateD [OF that] a1 ok by (auto simp: reassembler_ok_def)
      ultimately have r1: "reassembler_ok ?r"
        using ok room by (auto simp: reassembler_ok_def distinct_update)
      show ?thesis
      proof (cases "assembly_complete ?a")
        case None
        then show ?thesis
          using False Some accepted r1 by (simp add: push_piece_def)
      next
        case (Some tot)
        have "remove_assembly ?r key = (fst (remove_assembly ?r key), Some ?a)"
          by (simp add: remove_assembly_def)
        then show ?thesis
          using False \<open>map_of (ra_assemblies r) key = Some a\<close> accepted Some remove_assembly_ok [OF r1, of key]
            assembly_finish_ok [OF a1 Some] a1
          by (auto simp: push_piece_def Let_def split: prod.splits)
      qed
    qed
  qed
qed

text \<open>A fragment is ignored, or it joins its assembly in the table, which it may open.\<close>

definition open_assembly :: "reassembler \<Rightarrow> fragment_metadata \<Rightarrow> nat \<Rightarrow> reassembler" where
  "open_assembly r m now =
     r\<lparr>ra_assemblies := AList.update (metadata_key m) (new_assembly m now) (ra_assemblies r),
       ra_buffered_bytes := saturating_add (ra_buffered_bytes r) (length (fm_unfragmentable_prefix m))\<rparr>"

lemma open_assembly_ok:
  assumes ok: "reassembler_ok r" and m: "metadata_ok m"
    and new: "map_of (ra_assemblies r) (metadata_key m) = None" "\<not> length (ra_assemblies r) \<ge> IPV6_FRAGMENT_MAX_ENTRIES"
      "\<not> saturating_add (ra_buffered_bytes r) (saturating_add (length (fm_unfragmentable_prefix m)) (length (fm_payload m)))
         > IPV6_FRAGMENT_MAX_TOTAL_BYTES"
  shows "reassembler_ok (open_assembly r m now)"
proof -
  let ?key = "metadata_key m" and ?pre = "fm_unfragmentable_prefix m"
  have a: "assembly_ok (new_assembly m now)"
    using m by (simp add: assembly_ok_def new_assembly_def metadata_ok_def)
  have mem: "memory_bytes (new_assembly m now) = length ?pre"
    using assembly_memory [OF a] by (simp add: new_assembly_def)
  have room: "ra_buffered_bytes r + length ?pre \<le> IPV6_FRAGMENT_MAX_TOTAL_BYTES"
    using new(3) m by (auto simp: saturating_add_def max_total metadata_ok_def max_packet)
  then have sat: "saturating_add (ra_buffered_bytes r) (length ?pre) = ra_buffered_bytes r + length ?pre"
    by (simp add: saturating_add_def max_total)
  have "sum_list (map (\<lambda>(k, a). memory_bytes a) (AList.update ?key (new_assembly m now) (ra_assemblies r)))
      = ra_buffered_bytes r + length ?pre"
    using sum_update [of "ra_assemblies r" memory_bytes ?key "new_assembly m now"] ok new(1) mem by (simp add: reassembler_ok_def)
  moreover have "length (AList.update ?key (new_assembly m now) (ra_assemblies r)) \<le> IPV6_FRAGMENT_MAX_ENTRIES"
    using new(1,2) by (simp add: length_update)
  moreover have "assembly_ok b" if "(k, b) \<in> set (AList.update ?key (new_assembly m now) (ra_assemblies r))" for k b
    using in_set_updateD [OF that] a ok by (auto simp: reassembler_ok_def)
  ultimately show ?thesis
    using ok room sat by (auto simp: open_assembly_def reassembler_ok_def distinct_update)
qed

lemma push_fragment_cases:
  assumes ok: "reassembler_ok r" and m: "metadata_ok m"
  obtains (ignored) res where "push_fragment r m now = Some (r, res)" "\<And>p. res \<noteq> Inr (Some p)"
  | (piece) r0 where "r0 = r \<or> r0 = open_assembly r m now" "reassembler_ok r0"
      "push_fragment r m now = push_piece r0 (metadata_key m) m (fm_fragment_offset m + length (fm_payload m))"
      "length (fm_unfragmentable_prefix m) + (fm_fragment_offset m + length (fm_payload m)) \<le> IPV6_FRAGMENT_MAX_PACKET"
proof -
  let ?fe = "fm_fragment_offset m + length (fm_payload m)" and ?pre = "fm_unfragmentable_prefix m" and ?key = "metadata_key m"
  consider (over) "checked_add (fm_fragment_offset m) (length (fm_payload m)) = None"
    | (big) "checked_add (fm_fragment_offset m) (length (fm_payload m)) = Some ?fe"
        "?fe > IPV6_FRAGMENT_MAX_PACKET \<or> length ?pre > IPV6_FRAGMENT_MAX_PACKET \<or> saturating_add (length ?pre) ?fe > IPV6_FRAGMENT_MAX_PACKET"
    | (fits) "checked_add (fm_fragment_offset m) (length (fm_payload m)) = Some ?fe"
        "\<not> (?fe > IPV6_FRAGMENT_MAX_PACKET \<or> length ?pre > IPV6_FRAGMENT_MAX_PACKET \<or> saturating_add (length ?pre) ?fe > IPV6_FRAGMENT_MAX_PACKET)"
    using checked_add_def by metis
  then show thesis
  proof cases
    case over
    then show thesis
      by (intro ignored) (auto simp: push_fragment_def)
  next
    case big
    then show thesis
      by (intro ignored) (auto simp: push_fragment_def)
  next
    case fits
    have fe: "length ?pre + ?fe \<le> IPV6_FRAGMENT_MAX_PACKET"
      using fits(2) by (auto simp: saturating_add_def max_packet)
    have push: "push_fragment r m now =
      (if map_of (ra_assemblies r) ?key = None then
         (if length (ra_assemblies r) \<ge> IPV6_FRAGMENT_MAX_ENTRIES then Some (r, Inr None)
          else if saturating_add (ra_buffered_bytes r) (saturating_add (length ?pre) (length (fm_payload m)))
                  > IPV6_FRAGMENT_MAX_TOTAL_BYTES then Some (r, Inr None)
          else push_piece (open_assembly r m now) ?key m ?fe)
       else push_piece r ?key m ?fe)"
      using fits by (simp add: push_fragment_def Let_def open_assembly_def)
    consider "push_fragment r m now = Some (r, Inr None)"
      | r0 where "r0 = r \<or> r0 = open_assembly r m now" "reassembler_ok r0" "push_fragment r m now = push_piece r0 ?key m ?fe"
      using push ok open_assembly_ok [OF ok m] by metis
    then show thesis
      using ignored piece fe by cases auto
  qed
qed

lemma push_fragment_ok:
  assumes ok: "reassembler_ok r" and m: "metadata_ok m"
  shows "\<exists>r1 res. push_fragment r m now = Some (r1, res) \<and> reassembler_ok r1
    \<and> (\<forall>packet. res = Inr (Some packet) \<longrightarrow> (\<exists>a. assembly_ok a \<and> packet = assembled a))"
proof (cases rule: push_fragment_cases [OF ok m, of now, case_names ignored piece])
  case (ignored res)
  then show ?thesis
    using ok by simp
next
  case (piece r0)
  then show ?thesis
    using push_piece_ok [OF piece(2) m refl piece(4), of "metadata_key m"] by auto
qed

lemma reassembler_push_ok:
  assumes "reassembler_ok r"
  shows "\<exists>r1 res. reassembler_push r packet now = Some (r1, res) \<and> reassembler_ok r1
    \<and> (\<forall>p. res = Inr (Some p) \<longrightarrow> p = packet \<or> (\<exists>a. assembly_ok a \<and> p = assembled a))"
proof (cases "parse_ipv6_fragment_metadata packet")
  case (Inl e)
  then show ?thesis
    using reassembler_expire_ok [OF assms] by (simp add: reassembler_push_def Let_def)
next
  case (Inr mo)
  show ?thesis
  proof (cases mo)
    case None
    then show ?thesis
      using Inr reassembler_expire_ok [OF assms] by (simp add: reassembler_push_def Let_def)
  next
    case (Some m)
    then show ?thesis
      using Inr push_fragment_ok [OF reassembler_expire_ok [OF assms] parse_metadata_ok] by (fastforce simp: reassembler_push_def Let_def)
  qed
qed

text \<open>A run of the reassembler over the packets that arrive, each with its time.\<close>

fun push_all :: "reassembler \<Rightarrow> (byte list \<times> nat) list \<Rightarrow> (reassembler \<times> byte list option result list) option" where
  "push_all r [] = Some (r, [])"
| "push_all r ((packet, now) # ps) =
     (case reassembler_push r packet now of
        None \<Rightarrow> None
      | Some (r1, res) \<Rightarrow> map_option (\<lambda>(r2, rs). (r2, res # rs)) (push_all r1 ps))"

lemma push_all_ok:
  "reassembler_ok r \<Longrightarrow> \<exists>r1 outs. push_all r inputs = Some (r1, outs) \<and> reassembler_ok r1 \<and> length outs = length inputs"
proof (induction inputs arbitrary: r)
  case (Cons x inputs)
  obtain packet now where x: "x = (packet, now)"
    by fastforce
  obtain r1 res where "reassembler_push r packet now = Some (r1, res)" "reassembler_ok r1"
    using reassembler_push_ok [OF Cons.prems, of packet now] by blast
  with Cons.IH [of r1] x show ?case
    by auto
qed simp

text \<open>
  C35: whatever packets arrive at whatever times, the reassembler never panics, holds at most 32
  partial packets of at most 128 pieces each, accounts for every byte it holds, and holds at
  most one megabyte.
\<close>

theorem reassembler_bounded:
  "\<exists>r outs. push_all reassembler_default inputs = Some (r, outs) \<and> length outs = length inputs
    \<and> length (ra_assemblies r) \<le> 32 \<and> ra_buffered_bytes r \<le> 1024 * 1024
    \<and> ra_buffered_bytes r = sum_list (map (\<lambda>(_, a). length (fa_unfragmentable_prefix a)
        + sum_list (map (\<lambda>p. length (fp_payload p)) (fa_pieces a))) (ra_assemblies r))
    \<and> list_all (\<lambda>(_, a). length (fa_pieces a) \<le> 128) (ra_assemblies r)"
proof -
  have "reassembler_ok reassembler_default"
    by (simp add: reassembler_ok_def reassembler_default_def)
  from push_all_ok [OF this, of inputs] obtain r outs where
    run: "push_all reassembler_default inputs = Some (r, outs)" "length outs = length inputs" and ok: "reassembler_ok r"
    by blast
  have "memory_bytes a = length (fa_unfragmentable_prefix a) + sum_list (map (\<lambda>p. length (fp_payload p)) (fa_pieces a))"
    if "(k, a) \<in> set (ra_assemblies r)" for k a
    using ok that assembly_memory [of a] by (auto simp: reassembler_ok_def assembly_ok_def length_concat o_def)
  then have "map (\<lambda>(_, a). memory_bytes a) (ra_assemblies r) = map (\<lambda>(_, a). length (fa_unfragmentable_prefix a)
        + sum_list (map (\<lambda>p. length (fp_payload p)) (fa_pieces a))) (ra_assemblies r)"
    by auto
  with run ok show ?thesis
    by (fastforce simp: reassembler_ok_def max_total IPV6_FRAGMENT_MAX_ENTRIES_def list_all_iff assembly_ok_def
        IPV6_FRAGMENT_MAX_FRAGMENTS_def)
qed

end
