(* ===== verification/Ip_Roundtrip.thy ===== *)
theory Ip_Roundtrip
  imports Ip_Reassembly
begin

text \<open>
  The fragments \<open>fragment_ip_packet\<close> cuts from an IPv6 packet, put back together by the
  reassembler: the chunks of the payload, the parser on a fragment, the assembly after some of
  the chunks have arrived, and the round trip for every order of arrival.
\<close>

subsection \<open>The chunks of a payload\<close>

text \<open>The fragments of consecutive chunks from an offset on, of a payload of \<open>n\<close> bytes.\<close>

fun emit_all :: "(byte list \<Rightarrow> nat \<Rightarrow> bool \<Rightarrow> byte list) \<Rightarrow> nat \<Rightarrow> nat \<Rightarrow> byte list list \<Rightarrow> byte list list" where
  "emit_all emit n off [] = []"
| "emit_all emit n off (c # cs) = emit c off (off + length c < n) # emit_all emit n (off + length c) cs"

definition chunk_start :: "byte list list \<Rightarrow> nat \<Rightarrow> nat" where
  "chunk_start cs i = length (concat (take i cs))"

lemma length_emit_all [simp]: "length (emit_all emit n off cs) = length cs"
  by (induction emit n off cs rule: emit_all.induct) simp_all

lemma nth_emit_all:
  "i < length cs \<Longrightarrow> emit_all emit n off cs ! i =
     emit (cs ! i) (off + chunk_start cs i) (off + chunk_start cs i + length (cs ! i) < n)"
proof (induction emit n off cs arbitrary: i rule: emit_all.induct)
  case (2 emit n off c cs)
  then show ?case
    by (cases i) (simp_all add: chunk_start_def add.assoc)
qed simp

text \<open>
  A successful loop cuts the payload into chunks of \<open>max_payload\<close> bytes, the last one possibly
  shorter, and every offset fits the wire format.
\<close>

definition chunked :: "nat \<Rightarrow> byte list list \<Rightarrow> bool" where
  "chunked max_payload cs \<longleftrightarrow>
     (\<forall>c \<in> set cs. c \<noteq> [] \<and> length c \<le> max_payload) \<and> (\<forall>i. Suc i < length cs \<longrightarrow> length (cs ! i) = max_payload)"

lemma chunked_Cons:
  "chunked mp (c # cs) \<longleftrightarrow> c \<noteq> [] \<and> length c \<le> mp \<and> (cs \<noteq> [] \<longrightarrow> length c = mp) \<and> chunked mp cs"
proof -
  have all_nat: "(\<forall>i. P i) \<longleftrightarrow> P 0 \<and> (\<forall>i. P (Suc i))" for P :: "nat \<Rightarrow> bool"
    using not0_implies_Suc by metis
  show ?thesis
    unfolding chunked_def by (subst all_nat) auto
qed

lemma fragment_loop_chunks:
  "fragment_loop wire mp emit payload off = Inr frags \<Longrightarrow> 0 < mp \<Longrightarrow>
   \<exists>cs. concat cs = drop off payload \<and> chunked mp cs \<and> frags = emit_all emit (length payload) off cs
     \<and> (\<forall>i < length cs. (off + chunk_start cs i) div 8 \<le> 0x1fff)"
proof (induction wire mp emit payload off arbitrary: frags rule: fragment_loop.induct)
  case (1 wire mp emit payload off)
  show ?case
  proof (cases "off \<ge> length payload")
    case True
    then have "frags = []"
      using "1.prems"(1) by (simp add: fragment_loop.simps [of wire mp emit payload off])
    then have "concat [] = drop off payload \<and> chunked mp [] \<and> frags = emit_all emit (length payload) off []"
      using True by (simp add: chunked_def)
    then show ?thesis
      by (metis length_0_conv not_less_zero)
  next
    case False
    let ?n = "min (length payload - off) mp"
    let ?c = "take ?n (drop off payload)"
    have c: "length ?c = ?n" "?c \<noteq> []"
      using False "1.prems"(2) by auto
    obtain rest where rest: "fragment_loop wire mp emit payload (off + ?n) = Inr rest" "\<not> off div 8 > 0x1fff"
      and frags: "frags = emit ?c off (off + ?n < length payload) # rest"
      using "1.prems" False
      by (subst (asm) fragment_loop.simps) (auto simp: Let_def rbind_def split: if_splits sum.splits)
    have "\<not> (mp = 0 \<or> length payload \<le> off)"
      using False "1.prems"(2) by simp
    from "1.IH" [OF this refl refl _ rest(1) "1.prems"(2)] rest(2)
    obtain cs where cs: "concat cs = drop (off + ?n) payload" "chunked mp cs" "rest = emit_all emit (length payload) (off + ?n) cs"
      "\<forall>i < length cs. (off + ?n + chunk_start cs i) div 8 \<le> 0x1fff"
      by auto
    have "cs \<noteq> [] \<longrightarrow> ?n = mp"
    proof
      assume "cs \<noteq> []"
      then obtain d ds where "cs = d # ds"
        by (cases cs) auto
      then have "concat cs \<noteq> []"
        using cs(2) by (simp add: chunked_Cons)
      then show "?n = mp"
        using cs(1) by (auto simp: min_def split: if_splits)
    qed
    then have "chunked mp (?c # cs)"
      using cs(2) c by (simp add: chunked_Cons)
    moreover have "concat (?c # cs) = drop off payload"
      using cs(1) by (simp add: append_take_drop_id flip: drop_drop) (metis append_take_drop_id drop_drop add.commute)
    moreover have "frags = emit_all emit (length payload) off (?c # cs)"
      using frags cs(3) c(1) by simp
    moreover have "\<forall>i < length (?c # cs). (off + chunk_start (?c # cs) i) div 8 \<le> 0x1fff"
    proof (intro allI impI)
      fix i
      assume "i < length (?c # cs)"
      then show "(off + chunk_start (?c # cs) i) div 8 \<le> 0x1fff"
        using rest(2) cs(4) c(1) by (cases i) (auto simp: chunk_start_def add.assoc)
    qed
    ultimately show ?thesis
      by blast
  qed
qed

lemma chunk_start_mult:
  assumes "chunked mp cs" "i < length cs"
  shows "chunk_start cs i = i * mp"
  using assms
proof (induction i arbitrary: cs)
  case (Suc i)
  then obtain c cs' where cs: "cs = c # cs'" "cs' \<noteq> []"
    by (cases cs; cases "tl cs") auto
  with Suc show ?case
    by (auto simp: chunked_Cons chunk_start_def)
qed (simp add: chunk_start_def)

subsection \<open>Assemblies of chunks\<close>

definition chunk_piece :: "byte list list \<Rightarrow> nat \<Rightarrow> fragment_piece" where
  "chunk_piece cs i =
     \<lparr>fp_start = chunk_start cs i, fp_end = chunk_start cs i + length (cs ! i), fp_payload = cs ! i\<rparr>"

lemma chunk_start_Suc: "i < length cs \<Longrightarrow> chunk_start cs (Suc i) = chunk_start cs i + length (cs ! i)"
  by (simp add: chunk_start_def take_Suc_conv_app_nth)

lemma chunk_start_mono: "i \<le> j \<Longrightarrow> chunk_start cs i \<le> chunk_start cs j"
proof -
  assume "i \<le> j"
  then have "take j cs = take i cs @ take (j - i) (drop i cs)"
    by (metis le_add_diff_inverse take_add)
  then show ?thesis
    by (simp add: chunk_start_def)
qed

lemma chunk_start_all: "chunk_start cs (length cs) = length (concat cs)"
  by (simp add: chunk_start_def)

lemma chunk_end_le: "i < j \<Longrightarrow> j \<le> length cs \<Longrightarrow> chunk_start cs i + length (cs ! i) \<le> chunk_start cs j"
  using chunk_start_mono [of "Suc i" j cs] chunk_start_Suc [of i cs] by simp

lemma chunk_start_less:
  assumes "\<forall>c \<in> set cs. c \<noteq> []" "i < j" "j < length cs"
  shows "chunk_start cs i < chunk_start cs j"
proof -
  have "cs ! i \<noteq> []"
    using assms by simp
  then have "chunk_start cs i < chunk_start cs i + length (cs ! i)"
    by simp
  also have "\<dots> \<le> chunk_start cs j"
    using chunk_end_le [of i j cs] assms(2,3) by simp
  finally show ?thesis .
qed

lemma sort_key_strict_mono:
  fixes f :: "nat \<Rightarrow> nat"
  assumes "\<And>i j. i \<in> set is \<Longrightarrow> j \<in> set is \<Longrightarrow> i < j \<Longrightarrow> f i < f j"
  shows "sort_key f is = sort is"
proof -
  have ins: "insort_key f x ys = insort x ys" if "\<And>i j. i \<in> set (x # ys) \<Longrightarrow> j \<in> set (x # ys) \<Longrightarrow> i < j \<Longrightarrow> f i < f j" for x ys
    using that
  proof (induction ys)
    case (Cons y ys)
    have "f x \<le> f y \<longleftrightarrow> x \<le> y"
      using Cons.prems [of x y] Cons.prems [of y x] by (cases x y rule: linorder_cases) auto
    with Cons show ?case
      by auto
  qed simp
  show ?thesis
    using assms
  proof (induction "is")
    case (Cons x xs)
    then have "insort_key f x (sort xs) = insort x (sort xs)"
      by (intro ins) auto
    with Cons show ?case
      by auto
  qed simp
qed

lemma sort_chunk_pieces:
  assumes "\<forall>c \<in> set cs. c \<noteq> []" "set is \<subseteq> {..<length cs}"
  shows "sort_key fp_start (map (chunk_piece cs) is) = map (chunk_piece cs) (sort is)"
proof -
  have "sort_key (\<lambda>i. fp_start (chunk_piece cs i)) is = sort is"
    using chunk_start_less [OF assms(1)] assms(2) by (intro sort_key_strict_mono) (auto simp: chunk_piece_def)
  then show ?thesis
    using map_sort_key [of "chunk_piece cs" fp_start "is"] by simp
qed

lemma sum_chunk_sizes:
  assumes "distinct is"
  shows "length (concat (map ((!) cs) is)) = (\<Sum>i \<in> set is. length (cs ! i))"
  using assms by (simp add: length_concat o_def sum_list_distinct_conv_sum_set)

lemma length_some_chunks:
  assumes "\<forall>c \<in> set cs. c \<noteq> []" "distinct is" "set is \<subset> {..<length cs}"
  shows "length (concat (map ((!) cs) is)) < length (concat cs)"
proof -
  obtain j where "j \<in> {..<length cs} - set is"
    using assms(3) by blast
  then have "(\<Sum>i \<in> set is. length (cs ! i)) < (\<Sum>i \<in> {..<length cs}. length (cs ! i))"
    using assms by (intro sum_strict_mono2 [where b = j]) auto
  also have "\<dots> = length (concat (map ((!) cs) [0..<length cs]))"
    by (subst sum_chunk_sizes) (simp_all add: atLeast0LessThan)
  also have "map ((!) cs) [0..<length cs] = cs"
    by (rule map_nth)
  finally show ?thesis
    using sum_chunk_sizes [OF assms(2), of cs] by simp
qed

lemma sum_chunk_sizes_le:
  assumes "distinct is" "set is \<subseteq> {..<length cs}"
  shows "length (concat (map ((!) cs) is)) \<le> length (concat cs)"
proof -
  have "(\<Sum>i \<in> set is. length (cs ! i)) \<le> (\<Sum>i \<in> {..<length cs}. length (cs ! i))"
    using assms by (intro sum_mono2) auto
  also have "\<dots> = length (concat (map ((!) cs) [0..<length cs]))"
    by (subst sum_chunk_sizes) (simp_all add: atLeast0LessThan)
  also have "map ((!) cs) [0..<length cs] = cs"
    by (rule map_nth)
  finally show ?thesis
    using sum_chunk_sizes [OF assms(1), of cs] by simp
qed

definition chunk_assembly :: "byte list \<Rightarrow> nat \<Rightarrow> byte \<Rightarrow> byte list list \<Rightarrow> nat \<Rightarrow> nat list \<Rightarrow> fragment_assembly" where
  "chunk_assembly pre prev nh cs ex is =
     \<lparr>fa_unfragmentable_prefix = pre, fa_previous_next_header_offset = prev, fa_next_header = nh,
      fa_pieces = map (chunk_piece cs) is, fa_received_bytes = length (concat (map ((!) cs) is)),
      fa_total_payload = (if length cs - 1 \<in> set is then Some (length (concat cs)) else None), fa_expires_at = ex\<rparr>"

lemma chunk_piece_wf: "piece_wf (chunk_piece cs i)"
  by (simp add: piece_wf_def chunk_piece_def)

lemma chunks_tile: "n \<le> length cs \<Longrightarrow> covered_bytes 0 (map (\<lambda>i. piece_range (chunk_piece cs i)) [0..<n]) = Some (chunk_start cs n)"
proof -
  have app: "covered_bytes c (xs @ [(s, e)]) = (case covered_bytes c xs of None \<Rightarrow> None | Some t \<Rightarrow> if s \<noteq> t then None else Some e)"
    for c xs s e
    by (induction c xs rule: covered_bytes.induct) auto
  show "n \<le> length cs \<Longrightarrow> ?thesis"
  proof (induction n)
    case (Suc n)
    have "piece_range (chunk_piece cs n) = (chunk_start cs n, chunk_start cs (Suc n))"
      using Suc.prems by (simp add: piece_range_def chunk_piece_def chunk_start_Suc)
    with Suc show ?case
      by (simp add: app)
  qed (simp add: chunk_start_def)
qed

lemma assembly_complete_alt:
  "assembly_complete a =
     (case fa_total_payload a of
        None \<Rightarrow> None
      | Some tot \<Rightarrow>
          (case covered_bytes 0 (map piece_range (sort_key fp_start (fa_pieces a))) of
             None \<Rightarrow> None
           | Some covered \<Rightarrow> if covered = tot then Some tot else None))"
  unfolding assembly_complete_def sorted_ranges ..

lemma chunk_assembly_complete:
  assumes cs: "\<forall>c \<in> set cs. c \<noteq> []" "cs \<noteq> []" and "is": "distinct is" "set is \<subseteq> {..<length cs}"
  shows "assembly_complete (chunk_assembly pre prev nh cs ex is) = (if set is = {..<length cs} then Some (length (concat cs)) else None)"
proof (cases "set is = {..<length cs}")
  case True
  then have "sort is = [0..<length cs]"
    using "is"(1) by (metis atLeast0LessThan atLeast_upt distinct_upt sorted_distinct_set_unique distinct_sort set_sort set_upt sorted_sort sorted_upt)
  moreover have "length cs - 1 \<in> set is"
    using True cs(2) by auto
  ultimately show ?thesis
    using True sort_chunk_pieces [OF cs(1) "is"(2)] chunks_tile [of "length cs" cs]
    by (simp add: assembly_complete_alt chunk_assembly_def chunk_start_all o_def)
next
  case False
  have "t \<noteq> length (concat cs)" if "covered_bytes 0 (map piece_range (map (chunk_piece cs) (sort is))) = Some t" for t
  proof -
    have "t = length (concat (map fp_payload (map (chunk_piece cs) (sort is))))"
      using covered_bytes_tile [OF _ that] chunk_piece_wf by auto
    also have "\<dots> = length (concat (map ((!) cs) (sort is)))"
      by (simp add: chunk_piece_def o_def)
    also have "\<dots> < length (concat cs)"
      using False "is" by (intro length_some_chunks [OF cs(1)]) auto
    finally show ?thesis
      by simp
  qed
  then show ?thesis
    using False sort_chunk_pieces [OF cs(1) "is"(2)]
    by (auto simp: assembly_complete_alt chunk_assembly_def simp del: map_map split: option.splits)
qed

subsection \<open>Headers of the fragments\<close>

definition layout_ok :: "byte list \<Rightarrow> nat \<Rightarrow> nat \<Rightarrow> frag_layout \<Rightarrow> bool" where
  "layout_ok packet prev off L \<longleftrightarrow>
     (let pl = fl_previous_next_header_offset L; ol = length (fl_unfragmentable_prefix L) in
      off \<le> ol \<and> ol \<le> length packet \<and> fl_unfragmentable_prefix L = take ol packet
      \<and> fl_fragmentable_part L = drop ol packet \<and> fl_next_header L = packet ! pl \<and> pl < ol
      \<and> (pl = prev \<and> ol = off \<or> pl = off \<or> off + 8 \<le> pl))"

text \<open>Bytes that agree with the headers of the packet except for the fragment header announced in their place.\<close>

definition announces :: "byte list \<Rightarrow> frag_layout \<Rightarrow> byte list \<Rightarrow> bool" where
  "announces packet L b \<longleftrightarrow>
     (let pl = fl_previous_next_header_offset L; ol = length (fl_unfragmentable_prefix L) in
      (\<forall>i. 6 \<le> i \<and> i < ol \<and> i \<noteq> pl \<longrightarrow> b ! i = packet ! i) \<and> b ! pl = 44 \<and> ol + 8 \<le> length b)"

lemma layout_loop_cases:
  assumes "layout_loop (Suc n) packet t nh prev off saw = Inr L"
  shows "L = layout_at packet t nh prev off \<or>
    (\<exists>saw'. layout_loop n packet t (packet ! off) off (off + (unat (packet ! (off + 1)) + 1) * 8) saw' = Inr L
       \<and> (nh = 0 \<or> nh = 43 \<or> nh = 60) \<and> off + 2 \<le> t \<and> off + (unat (packet ! (off + 1)) + 1) * 8 \<le> t)"
proof -
  define hl where "hl = (unat (packet ! (off + 1)) + 1) * 8"
  define step where "step = (\<lambda>kind saw.
    if off + 2 > t then Inl (error_invalid (''truncated IPv6 '' @ kind @ '' header''))
    else if hl < 8 \<or> off + hl > t then Inl (error_invalid (''invalid IPv6 '' @ kind @ '' header length''))
    else layout_loop n packet t (packet ! off) off (off + hl) saw)"
  have stepD: "step kind saw' = Inr L \<Longrightarrow>
      layout_loop n packet t (packet ! off) off (off + hl) saw' = Inr L \<and> off + 2 \<le> t \<and> off + hl \<le> t" for kind saw'
    by (simp add: step_def split: if_splits)
  have "(if nh = 44 then Inl (error_invalid ''cannot re-fragment an already-fragmented IPv6 packet'')
     else if nh = 0 then
       (if off \<noteq> 40 then Inl (error_invalid ''IPv6 hop-by-hop header is not the first extension header'')
        else step ''extension'' saw)
     else if nh = 43 then step ''routing'' True
     else if nh = 60 \<and> \<not> saw then step ''destination'' saw
     else Inr (layout_at packet t nh prev off)) = Inr L"
    using assms by (simp only: layout_loop.simps Let_def step_def hl_def)
  then show ?thesis
    unfolding hl_def [symmetric] by (cases "nh = 44"; cases "nh = 0"; cases "nh = 43"; cases "nh = 60 \<and> \<not> saw") (auto dest: stepD split: if_splits)
qed

text \<open>
  The walk of the parser over a fragment repeats the walk that found the layout, up to the
  fragment header.
\<close>

lemma layout_loop_walk:
  assumes "layout_loop n packet (length packet) (packet ! prev) prev off saw = Inr L"
    and "6 \<le> prev" "prev < off" "off \<le> length packet"
  shows "layout_ok packet prev off L \<and> (\<forall>b. announces packet L b \<longrightarrow>
    fragment_walk n b (b ! prev) prev off
      = fragment_header b (fl_previous_next_header_offset L) (length (fl_unfragmentable_prefix L)))"
  using assms
proof (induction n arbitrary: prev off saw)
  case (Suc n)
  let ?nh = "packet ! prev" and ?len = "(unat (packet ! (off + 1)) + 1) * 8"
  consider (found) "L = layout_at packet (length packet) ?nh prev off"
    | (step) saw' where "layout_loop n packet (length packet) (packet ! off) off (off + ?len) saw' = Inr L"
        "?nh = 0 \<or> ?nh = 43 \<or> ?nh = 60" "off + 2 \<le> length packet" "off + ?len \<le> length packet"
    using layout_loop_cases [OF Suc.prems(1)] by blast
  then show ?case
  proof cases
    case found
    then show ?thesis
      using Suc.prems by (auto simp: layout_ok_def announces_def layout_at_def Let_def)
  next
    case step
    let ?pl = "fl_previous_next_header_offset L" and ?ol = "length (fl_unfragmentable_prefix L)"
    have IH: "layout_ok packet off (off + ?len) L"
      "\<And>b. announces packet L b \<Longrightarrow> fragment_walk n b (b ! off) off (off + ?len) = fragment_header b ?pl ?ol"
      using Suc.IH [OF step(1)] Suc.prems step(4) by auto
    have at: "off + ?len \<le> ?ol" "?pl = off \<or> off + 8 \<le> ?pl"
      using IH(1) by (auto simp: layout_ok_def Let_def)
    have "fragment_walk (Suc n) b (b ! prev) prev off = fragment_header b ?pl ?ol" if b: "announces packet L b" for b
    proof -
      have same: "b ! i = packet ! i" if "6 \<le> i" "i < ?ol" "i \<noteq> ?pl" for i
        using b that by (simp add: announces_def Let_def)
      have "b ! prev = ?nh" "b ! (off + 1) = packet ! (off + 1)"
        using same [of prev] same [of "off + 1"] at Suc.prems by auto
      moreover have "?ol + 8 \<le> length b"
        using b by (simp add: announces_def Let_def)
      moreover have "?nh \<noteq> 44"
        using step(2) by auto
      ultimately show ?thesis
        using step(2) at(1) IH(2) [OF b] by (auto simp: Let_def)
    qed
    moreover have "layout_ok packet prev off L"
      using IH(1) by (auto simp: layout_ok_def Let_def)
    ultimately show ?thesis
      by blast
  qed
qed simp

lemma put_at_append: "i + length bs \<le> length xs \<Longrightarrow> put_at i bs (xs @ ys) = put_at i bs xs @ ys"
  by (simp add: put_at_def)

lemma length_be [simp]: "length (to_be16 w) = 2" "length (to_be32 v) = 4"
  by (simp_all add: be_defs)

lemma ipv6_fragment_alt:
  assumes "40 \<le> length (fl_unfragmentable_prefix L)"
  shows "ipv6_fragment L ident chunk off mf =
    put_at 4 (to_be16 (of_nat (length (fl_unfragmentable_prefix L) + 8 + length chunk - 40)))
      ((fl_unfragmentable_prefix L)[fl_previous_next_header_offset L := 44])
    @ [fl_next_header L, 0] @ to_be16 (or (push_bit 3 (of_nat off div 8)) (of_bool mf)) @ to_be32 ident @ chunk"
  using assms by (simp add: ipv6_fragment_def Let_def put_at_append)

text \<open>The fields of a fragment word: the offset in units of eight bytes and the flag.\<close>

lemma offset_word:
  assumes "8 dvd off" "off < 65536"
  shows "unat (drop_bit 3 (or (push_bit 3 (of_nat off div 8)) (of_bool mf) :: u16)) * 8 = off"
    "and (or (push_bit 3 (of_nat off div 8)) (of_bool mf) :: u16) 1 \<noteq> 0 \<longleftrightarrow> mf"
proof -
  obtain k where k: "off = 8 * k"
    using assms(1) by blast
  have "unat (of_nat off :: u16) = off"
    using assms(2) by (simp add: unat_of_nat)
  then have "(of_nat off div 8 :: u16) = of_nat (off div 8)"
    by (simp only: word_arith_nat_div) simp
  then have "(of_nat off div 8 :: u16) = of_nat k"
    by (simp add: k)
  moreover have "take_bit 13 k = k"
    using assms(2) k by (simp add: take_bit_nat_eq_self)
  then have small: "bit k n \<Longrightarrow> n < 13" for n
    by (metis bit_take_bit_iff)
  ultimately have "drop_bit 3 (or (push_bit 3 (of_nat k)) (of_bool mf) :: u16) = of_nat k"
    using small by (intro bit_word_eqI) (auto simp: bit_simps)
  with \<open>(of_nat off div 8 :: u16) = of_nat k\<close> show "unat (drop_bit 3 (or (push_bit 3 (of_nat off div 8)) (of_bool mf) :: u16)) * 8 = off"
    using assms(2) k by (simp add: unat_of_nat)
  have one: "and w 1 \<noteq> 0 \<longleftrightarrow> bit w 0" for w :: u16
    by (simp add: and_one_eq bit_0 even_iff_mod_2_eq_zero)
  show "and (or (push_bit 3 (of_nat off div 8)) (of_bool mf) :: u16) 1 \<noteq> 0 \<longleftrightarrow> mf"
    unfolding one by (simp only: bit_simps) simp
qed


subsection \<open>The parser on a fragment\<close>

definition fragment_prefix :: "frag_layout \<Rightarrow> byte list \<Rightarrow> byte list" where
  "fragment_prefix L chunk =
     put_at 4 (to_be16 (of_nat (length (fl_unfragmentable_prefix L) + 8 + length chunk - 40)))
       ((fl_unfragmentable_prefix L)[fl_previous_next_header_offset L := 44])"

definition fragment_meta :: "byte list \<Rightarrow> frag_layout \<Rightarrow> u32 \<Rightarrow> byte list \<Rightarrow> nat \<Rightarrow> bool \<Rightarrow> fragment_metadata" where
  "fragment_meta packet L ident chunk off mf =
     \<lparr>fm_source = from_be128 (take 16 (drop 8 packet)), fm_destination = from_be128 (take 16 (drop 24 packet)),
      fm_identification = ident, fm_fragment_offset = off, fm_more_fragments = mf, fm_next_header = fl_next_header L,
      fm_previous_next_header_offset = fl_previous_next_header_offset L,
      fm_unfragmentable_prefix = fragment_prefix L chunk, fm_payload = chunk\<rparr>"

definition fragmentable :: "byte list \<Rightarrow> frag_layout \<Rightarrow> bool" where
  "fragmentable packet L \<longleftrightarrow>
     ipv6_fragment_layout packet (length packet) = Inr L \<and> ip_version packet = 6 \<and> 40 \<le> length packet"

lemma fragmentable_layout:
  assumes "fragmentable packet L"
  shows "layout_ok packet 6 40 L"
    "announces packet L b \<Longrightarrow> fragment_walk 16 b (b ! 6) 6 40
      = fragment_header b (fl_previous_next_header_offset L) (length (fl_unfragmentable_prefix L))"
  using layout_loop_walk [of 16 packet 6 40 False L] assms
  by (auto simp: fragmentable_def ipv6_fragment_layout_def)

lemma fragmentable_facts:
  assumes "fragmentable packet L"
  shows "40 \<le> length (fl_unfragmentable_prefix L)" "length (fl_unfragmentable_prefix L) \<le> length packet"
    "fl_unfragmentable_prefix L = take (length (fl_unfragmentable_prefix L)) packet"
    "fl_fragmentable_part L = drop (length (fl_unfragmentable_prefix L)) packet"
    "fl_next_header L = packet ! fl_previous_next_header_offset L"
    "fl_previous_next_header_offset L < length (fl_unfragmentable_prefix L)"
    "fl_previous_next_header_offset L = 6 \<or> 40 \<le> fl_previous_next_header_offset L"
  using fragmentable_layout(1) [OF assms] by (auto simp: layout_ok_def Let_def)

lemma length_fragment_prefix [simp]:
  "40 \<le> length (fl_unfragmentable_prefix L) \<Longrightarrow> length (fragment_prefix L chunk) = length (fl_unfragmentable_prefix L)"
  by (simp add: fragment_prefix_def)

lemma nth_fragment_prefix:
  assumes "fragmentable packet L" "i < length (fl_unfragmentable_prefix L)" "i \<noteq> 4" "i \<noteq> 5"
  shows "fragment_prefix L chunk ! i = (if i = fl_previous_next_header_offset L then 44 else packet ! i)"
proof -
  have "fl_unfragmentable_prefix L ! i = packet ! i"
    using fragmentable_facts(3) [OF assms(1)] assms(2) by (metis nth_take)
  then show ?thesis
    using assms fragmentable_facts(1) [OF assms(1)] by (auto simp: fragment_prefix_def nth_put_at)
qed

lemma be16_of_to_be16: "from_be16 [to_be16 w ! 0, to_be16 w ! Suc 0] = w"
proof -
  have "[to_be16 w ! 0, to_be16 w ! Suc 0] = to_be16 w"
    using length_be(1) [of w] by (cases "to_be16 w" rule: list.exhaust; cases "tl (to_be16 w)") (auto simp: length_Suc_conv)
  then show ?thesis
    by (simp add: from_to_be16)
qed

lemma parse_fragment:
  assumes L: "fragmentable packet L"
    and chunk: "length (fl_unfragmentable_prefix L) + 8 + length chunk \<le> 65575" "mf \<Longrightarrow> chunk \<noteq> [] \<and> 8 dvd length chunk"
    and off: "8 dvd off" "off < 65536" "off = 0 \<Longrightarrow> mf"
  shows "parse_ipv6_fragment_metadata (ipv6_fragment L ident chunk off mf) = Inr (Some (fragment_meta packet L ident chunk off mf))"
proof -
  let ?ol = "length (fl_unfragmentable_prefix L)" and ?pl = "fl_previous_next_header_offset L"
  let ?w = "or (push_bit 3 (of_nat off div 8)) (of_bool mf) :: u16"
  define b where "b = ipv6_fragment L ident chunk off mf"
  note facts = fragmentable_facts [OF L]
  have b: "b = fragment_prefix L chunk @ [fl_next_header L, 0] @ to_be16 ?w @ to_be32 ident @ chunk"
    using ipv6_fragment_alt [OF facts(1), of ident chunk off mf] by (simp add: b_def fragment_prefix_def)
  have len: "length b = ?ol + 8 + length chunk"
    using facts(1) by (simp add: b)
  have pre: "b ! i = fragment_prefix L chunk ! i" if "i < ?ol" for i
    using that facts(1) by (simp add: b nth_append)
  have at: "b ! i = (if i = ?pl then 44 else packet ! i)" if "i < ?ol" "i \<noteq> 4" "i \<noteq> 5" for i
    using pre nth_fragment_prefix [OF L that] that(1) by simp
  have "packet \<noteq> []"
    using L by (auto simp: fragmentable_def)
  have version: "ip_version b = 6"
    using at [of 0, OF less_le_trans [OF _ facts(1)]] facts(7) L by (auto simp: ip_version_def fragmentable_def)
  have "b ! 4 = to_be16 (of_nat (?ol + 8 + length chunk - 40)) ! 0" "b ! 5 = to_be16 (of_nat (?ol + 8 + length chunk - 40)) ! 1"
    using pre [of 4] pre [of 5] facts(1) by (simp_all add: fragment_prefix_def nth_put_at)
  then have "be16_at b 4 = of_nat (?ol + 8 + length chunk - 40)"
    by (simp add: be16_at_def be16_of_to_be16)
  then have "unat (be16_at b 4) = ?ol + 8 + length chunk - 40"
    using chunk(1) by (simp only: unat_of_nat) simp
  then have field: "40 + unat (be16_at b 4) = length b"
    using len facts(1) by simp
  have "announces packet L b"
    using at facts(6) len facts(7) by (auto simp: announces_def Let_def)
  then have walk: "fragment_walk 16 b (b ! 6) 6 40 = fragment_header b ?pl ?ol"
    by (rule fragmentable_layout(2) [OF L])
  have "be16_at b (?ol + 2) = ?w"
    using facts(1) by (simp add: be16_at_def b nth_append be16_of_to_be16)
  note fields = offset_word [OF off(1,2), of mf, folded this]
  have "take 16 (drop 8 b) = take 16 (drop 8 packet)" "take 16 (drop 24 b) = take 16 (drop 24 packet)"
    using at facts len L by (auto intro!: nth_equalityI simp: fragmentable_def)
  moreover have "take 4 (drop (?ol + 4) b) = to_be32 ident" "b ! ?ol = fl_next_header L" "take ?ol b = fragment_prefix L chunk"
    "drop (?ol + 8) b = chunk"
    using facts(1) by (simp_all add: b nth_append)
  ultimately have "fragment_header b ?pl ?ol = Inr (Some (fragment_meta packet L ident chunk off mf))"
    using fields chunk(2) off(3) len
    by (auto simp: fragment_header_def fragment_meta_def Let_def from_to_be32 dvd_eq_mod_eq_0)
  then show ?thesis
    using version len field walk facts(1) chunk(1)
    unfolding b_def [symmetric] by (auto simp: parse_ipv6_fragment_metadata_def checked_add_def)
qed

subsection \<open>A fragment joins its assembly\<close>

text \<open>A packet cut into chunks: what a successful fragmentation establishes.\<close>

definition cut_into :: "byte list \<Rightarrow> frag_layout \<Rightarrow> byte list list \<Rightarrow> bool" where
  "cut_into packet L cs \<longleftrightarrow>
     fragmentable packet L \<and> length packet = 40 + unat (be16_at packet 4) \<and> concat cs = fl_fragmentable_part L
     \<and> (\<forall>c \<in> set cs. c \<noteq> [] \<and> length (fl_unfragmentable_prefix L) + 8 + length c \<le> 65575)
     \<and> (\<forall>i. Suc i < length cs \<longrightarrow> 8 dvd length (cs ! i)) \<and> 1 < length cs \<and> length cs \<le> 128
     \<and> (\<forall>i < length cs. 8 dvd chunk_start cs i \<and> chunk_start cs i < 65536)"

definition chunk_meta :: "byte list \<Rightarrow> frag_layout \<Rightarrow> u32 \<Rightarrow> byte list list \<Rightarrow> nat \<Rightarrow> fragment_metadata" where
  "chunk_meta packet L ident cs i =
     fragment_meta packet L ident (cs ! i) (chunk_start cs i) (chunk_start cs i + length (cs ! i) < length (concat cs))"

lemma chunk_more:
  assumes "\<forall>c \<in> set cs. c \<noteq> []" "i < length cs"
  shows "chunk_start cs i + length (cs ! i) < length (concat cs) \<longleftrightarrow> i \<noteq> length cs - 1"
proof (cases "Suc i < length cs")
  case True
  then have "cs ! Suc i \<noteq> []"
    using assms(1) by simp
  then have "0 < length (cs ! Suc i)"
    by simp
  then have "chunk_start cs (Suc i) < length (concat cs)"
    using chunk_end_le [of "Suc i" "length cs" cs] True unfolding chunk_start_all by linarith
  then show ?thesis
    using True assms(2) by (simp add: chunk_start_Suc)
next
  case False
  then have "length cs = Suc i"
    using assms(2) by simp
  then show ?thesis
    using chunk_start_Suc [OF assms(2)] chunk_start_all [of cs] by simp
qed

lemma cut_bounds:
  assumes "cut_into packet L cs" "i < length cs"
  shows "length (fl_unfragmentable_prefix L) + (chunk_start cs i + length (cs ! i)) \<le> 65575"
    "length (fl_unfragmentable_prefix L) + length (concat cs) = length packet" "length packet \<le> 65575"
proof -
  have "length packet = 40 + unat (be16_at packet 4)" and L: "fragmentable packet L"
    and parts: "concat cs = fl_fragmentable_part L"
    using assms(1) by (simp_all add: cut_into_def)
  moreover have "unat (be16_at packet 4) < 2 ^ 16"
    using unsigned_less [of "be16_at packet 4", where ?'a = nat] by simp
  ultimately show small: "length packet \<le> 65575"
    by simp
  show total: "length (fl_unfragmentable_prefix L) + length (concat cs) = length packet"
    using fragmentable_facts(2,4) [OF L] parts by simp
  show "length (fl_unfragmentable_prefix L) + (chunk_start cs i + length (cs ! i)) \<le> 65575"
    using chunk_end_le [of i "length cs" cs] assms(2) small total by (simp add: chunk_start_all)
qed

lemma parse_chunk:
  assumes cut: "cut_into packet L cs" and i: "i < length cs"
  shows "parse_ipv6_fragment_metadata (emit_all (ipv6_fragment L ident) (length (concat cs)) 0 cs ! i)
    = Inr (Some (chunk_meta packet L ident cs i))"
proof -
  have cs: "\<forall>c \<in> set cs. c \<noteq> []" and long: "1 < length cs"
    using cut by (auto simp: cut_into_def)
  note more = chunk_more [OF cs i]
  have "8 dvd length (cs ! i) \<and> cs ! i \<noteq> []" if "i \<noteq> length cs - 1"
    using cut that i cs by (auto simp: cut_into_def)
  moreover have "i \<noteq> length cs - 1" if "chunk_start cs i = 0"
  proof -
    have "i = 0"
      using chunk_start_less [OF cs, of 0 i] that i by (cases i) auto
    then show ?thesis
      using long by simp
  qed
  ultimately show ?thesis
    using cut i more nth_emit_all [OF i, of "ipv6_fragment L ident" "length (concat cs)" 0]
      parse_fragment [of packet L "cs ! i" "i \<noteq> length cs - 1" "chunk_start cs i" ident]
    by (simp add: cut_into_def chunk_meta_def)
qed

text \<open>The assembly after the chunks \<open>is\<close> have arrived, the first of them first.\<close>

definition arrived :: "frag_layout \<Rightarrow> byte list list \<Rightarrow> nat \<Rightarrow> nat \<Rightarrow> nat list \<Rightarrow> fragment_assembly" where
  "arrived L cs first ex is =
     chunk_assembly (fragment_prefix L (cs ! first)) (fl_previous_next_header_offset L) (fl_next_header L) cs ex is"

lemma prefixes_match:
  "40 \<le> length (fl_unfragmentable_prefix L) \<Longrightarrow>
   ipv6_unfragmentable_prefixes_match (fragment_prefix L c) (fragment_prefix L d)"
  by (simp add: ipv6_unfragmentable_prefixes_match_def) (simp add: fragment_prefix_def put_at_def)

lemma arrived_step:
  assumes cut: "cut_into packet L cs" and new: "distinct (is @ [i])" "set (is @ [i]) \<subseteq> {..<length cs}"
  shows "\<not> fragment_rejected (arrived L cs first ex is) (chunk_meta packet L ident cs i) (chunk_start cs i + length (cs ! i))"
    "add_piece (arrived L cs first ex is) (chunk_meta packet L ident cs i) (chunk_start cs i + length (cs ! i))
       = arrived L cs first ex (is @ [i])"
proof -
  have cs: "\<forall>c \<in> set cs. c \<noteq> []" and i: "i < length cs" and few: "length cs \<le> 128" and L: "fragmentable packet L"
    using cut new by (auto simp: cut_into_def)
  have "length is < length cs"
    using new card_mono [OF _ new(2)] distinct_card [OF new(1)] by simp
  moreover have "length (concat (map ((!) cs) (is @ [i]))) \<le> length (concat cs)"
    using sum_chunk_sizes_le [OF new] .
  moreover have apart: "\<not> (chunk_start cs i < chunk_start cs j + length (cs ! j) \<and> chunk_start cs i + length (cs ! i) > chunk_start cs j)"
    if "j \<in> set is" for j
  proof -
    have "j \<noteq> i" "j < length cs"
      using new that by auto
    then show ?thesis
      using chunk_end_le [of i j cs] chunk_end_le [of j i cs] i by (cases i j rule: linorder_cases) auto
  qed
  moreover have "chunk_start cs i + length (cs ! i) \<le> length (concat cs)"
    using chunk_end_le [of i "length cs" cs] i by (simp add: chunk_start_all)
  ultimately show "\<not> fragment_rejected (arrived L cs first ex is) (chunk_meta packet L ident cs i) (chunk_start cs i + length (cs ! i))"
    using prefixes_match [OF fragmentable_facts(1) [OF L]] chunk_more [OF cs i] few new cut_bounds [OF cut i]
    by (auto simp: fragment_rejected_def arrived_def chunk_assembly_def chunk_meta_def fragment_meta_def list_ex_iff chunk_piece_def
        saturating_add_def max_packet IPV6_FRAGMENT_MAX_FRAGMENTS_def)
  have "chunk_start cs i + length (cs ! i) = length (concat cs)" if "i = length cs - 1"
    using that i chunk_start_Suc [OF i] chunk_start_all [of cs] by (cases cs) simp_all
  then show "add_piece (arrived L cs first ex is) (chunk_meta packet L ident cs i) (chunk_start cs i + length (cs ! i))
       = arrived L cs first ex (is @ [i])"
    using chunk_more [OF cs i]
    by (auto simp: add_piece_def arrived_def chunk_assembly_def chunk_meta_def fragment_meta_def chunk_piece_def)
qed

lemma arrived_ok:
  assumes cut: "cut_into packet L cs" and new: "distinct is" "set is \<subseteq> {..<length cs}"
  shows "assembly_ok (arrived L cs first ex is)"
proof -
  have L: "fragmentable packet L" and few: "length cs \<le> 128" and long: "0 < length cs"
    using cut by (auto simp: cut_into_def)
  note facts = fragmentable_facts [OF L]
  have "length is \<le> length cs"
    using card_mono [OF _ new(2)] distinct_card [OF new(1)] by simp
  moreover have "sorted_wrt pieces_disjoint (map (chunk_piece cs) is)"
  proof -
    have "pieces_disjoint (chunk_piece cs i) (chunk_piece cs j)" if "i < length cs" "j < length cs" "i \<noteq> j" for i j
      using that chunk_end_le [of i j cs] chunk_end_le [of j i cs]
      by (cases i j rule: linorder_cases) (auto simp: pieces_disjoint_def chunk_piece_def)
    moreover have "sorted_wrt (\<lambda>i j. i \<noteq> j) is"
      using new(1) by (simp add: distinct_conv_nth sorted_wrt_iff_nth_less)
    ultimately show ?thesis
      using new(2) unfolding sorted_wrt_map by (elim sorted_wrt_mono_rel [rotated]) auto
  qed
  moreover have "piece_wf (chunk_piece cs i) \<and> length (fl_unfragmentable_prefix L) + fp_end (chunk_piece cs i) \<le> 65575" if "i \<in> set is" for i
    using cut_bounds(1) [OF cut, of i] new(2) that by (auto simp: piece_wf_def chunk_piece_def)
  moreover have "length (concat (map ((!) cs) is)) \<le> 65575"
    using sum_chunk_sizes_le [OF new] cut_bounds(2,3) [OF cut long] by simp
  ultimately show ?thesis
    using facts few cut_bounds(2,3) [OF cut long]
    by (auto simp: assembly_ok_def arrived_def chunk_assembly_def max_packet IPV6_FRAGMENT_MAX_FRAGMENTS_def o_def chunk_piece_def)
qed

text \<open>With every chunk there, the assembly is the packet that was cut.\<close>

lemma put_at_same: "i + length bs \<le> length xs \<Longrightarrow> take (length bs) (drop i xs) = bs \<Longrightarrow> put_at i bs xs = xs"
  unfolding put_at_def by (metis append_take_drop_id drop_drop add.commute)

lemma be16_field: "i + 2 \<le> length xs \<Longrightarrow> to_be16 (be16_at xs i) = take 2 (drop i xs)"
proof -
  assume i: "i + 2 \<le> length xs"
  then have "take 2 (drop i xs) = [xs ! i, xs ! (i + 1)]"
    by (auto intro!: nth_equalityI simp: less_Suc_eq numeral_2_eq_2)
  then show ?thesis
    by (simp add: be16_at_def to_from_be16)
qed

lemma arrived_all:
  assumes cut: "cut_into packet L cs" and all: "distinct is" "set is = {..<length cs}"
  shows "assembled (arrived L cs first ex is) = packet"
proof -
  let ?ol = "length (fl_unfragmentable_prefix L)" and ?pl = "fl_previous_next_header_offset L"
  have L: "fragmentable packet L" and len: "length packet = 40 + unat (be16_at packet 4)"
    and cs: "\<forall>c \<in> set cs. c \<noteq> []" "concat cs = drop ?ol packet" "0 < length cs"
    using cut fragmentable_facts(4) [of packet L] by (auto simp: cut_into_def)
  note facts = fragmentable_facts [OF L]
  have "sort is = [0..<length cs]"
    using all by (metis atLeast0LessThan atLeast_upt distinct_upt sorted_distinct_set_unique distinct_sort set_sort set_upt sorted_sort sorted_upt)
  then have payload: "map fp_payload (sort_key fp_start (map (chunk_piece cs) is)) = cs"
    using sort_chunk_pieces [OF cs(1)] all(2) by (simp add: chunk_piece_def o_def map_nth)
  have total: "?ol - 40 + length (concat cs) = unat (be16_at packet 4)"
    using cs(2) len facts(1,2) by simp
  have head: "put_at 4 (to_be16 (be16_at packet 4)) ((fragment_prefix L (cs ! first))[?pl := fl_next_header L]) = take ?ol packet"
    (is "?lhs = _")
  proof (rule nth_equalityI)
    show "length ?lhs = length (take ?ol packet)"
      using facts by simp
  next
    fix j
    assume "j < length ?lhs"
    then have j: "j < ?ol"
      using facts by simp
    show "?lhs ! j = take ?ol packet ! j"
    proof (cases "j = 4 \<or> j = 5")
      case True
      have "to_be16 (be16_at packet 4) = take 2 (drop 4 packet)"
        using be16_field [of 4 packet] len by simp
      then show ?thesis
        using True j facts(1,2) by (auto simp: nth_put_at)
    next
      case False
      then have "?lhs ! j = (fragment_prefix L (cs ! first))[?pl := fl_next_header L] ! j"
        using j facts(1) by (subst nth_put_at) auto
      also have "\<dots> = packet ! j"
        using False nth_fragment_prefix [OF L j] j facts by (cases "j = ?pl") simp_all
      finally show ?thesis
        using j by simp
    qed
  qed
  have "assembled (arrived L cs first ex is)
      = put_at 4 (to_be16 (of_nat (?ol - 40 + length (concat cs)))) ((fragment_prefix L (cs ! first))[?pl := fl_next_header L]) @ concat cs"
    using facts(1) by (simp add: assembled_def Let_def arrived_def chunk_assembly_def payload)
  also have "\<dots> = take ?ol packet @ concat cs"
    unfolding total using head by simp
  finally show ?thesis
    using cs(2) by simp
qed

definition run_state :: "byte list \<Rightarrow> frag_layout \<Rightarrow> u32 \<Rightarrow> byte list list \<Rightarrow> nat \<Rightarrow> nat \<Rightarrow> nat list \<Rightarrow> reassembler" where
  "run_state packet L ident cs first ex is =
     (if is = [] \<or> set is = {..<length cs} then reassembler_default
      else \<lparr>ra_assemblies = [(metadata_key (chunk_meta packet L ident cs first), arrived L cs first ex is)],
            ra_buffered_bytes = length (fl_unfragmentable_prefix L) + length (concat (map ((!) cs) is))\<rparr>)"

lemma chunk_key: "metadata_key (chunk_meta packet L ident cs i) = metadata_key (chunk_meta packet L ident cs j)"
  by (simp add: metadata_key_def chunk_meta_def fragment_meta_def)

lemma push_piece_chunk:
  assumes cut: "cut_into packet L cs" and new: "distinct (is @ [i])" "set (is @ [i]) \<subseteq> {..<length cs}"
  shows "push_piece \<lparr>ra_assemblies = [(metadata_key (chunk_meta packet L ident cs i), arrived L cs first ex is)],
        ra_buffered_bytes = length (fl_unfragmentable_prefix L) + length (concat (map ((!) cs) is))\<rparr>
      (metadata_key (chunk_meta packet L ident cs i)) (chunk_meta packet L ident cs i) (chunk_start cs i + length (cs ! i))
    = Some (run_state packet L ident cs first ex (is @ [i]),
        Inr (if set (is @ [i]) = {..<length cs} then Some packet else None))"
proof -
  let ?ol = "length (fl_unfragmentable_prefix L)" and ?key = "metadata_key (chunk_meta packet L ident cs i)"
  have i: "i < length cs" and cs: "\<forall>c \<in> set cs. c \<noteq> []" "cs \<noteq> []"
    using cut new(2) by (auto simp: cut_into_def)
  have "length (concat (map ((!) cs) is)) + length (cs ! i) \<le> length (concat cs)"
    using sum_chunk_sizes_le [OF new] by simp
  then have small: "?ol + length (concat (map ((!) cs) is)) + length (cs ! i) \<le> 65575"
    using cut_bounds(2,3) [OF cut i] by simp
  note step = arrived_step [OF cut new, of first ex ident]
  note ok = arrived_ok [OF cut new, of first ex]
  have payload: "fm_payload (chunk_meta packet L ident cs i) = cs ! i"
    by (simp add: chunk_meta_def fragment_meta_def)
  have complete: "assembly_complete (arrived L cs first ex (is @ [i])) = (if set (is @ [i]) = {..<length cs} then Some (length (concat cs)) else None)"
    using chunk_assembly_complete [OF cs new] by (simp add: arrived_def)
  have mem: "memory_bytes (arrived L cs first ex (is @ [i])) = ?ol + length (concat (map ((!) cs) (is @ [i])))"
    using assembly_memory [OF ok] fragmentable_facts(1) [of packet L] cut
    by (simp add: arrived_def chunk_assembly_def cut_into_def)
  show ?thesis
  proof (cases "set (is @ [i]) = {..<length cs}")
    case True
    then have "assembly_complete (arrived L cs first ex (is @ [i])) = Some (length (concat cs))"
      using complete by simp
    from assembly_finish_ok [OF ok this]
    have fin: "assembly_finish (arrived L cs first ex (is @ [i])) (length (concat cs)) = Some (Some packet)"
      unfolding arrived_all [OF cut new(1) True] by blast
    show ?thesis
      using True step complete fin mem small
      by (simp add: push_piece_def payload saturating_add_def max_total Let_def remove_assembly_def run_state_def reassembler_default_def)
  next
    case False
    then show ?thesis
      using step complete small
      by (simp add: push_piece_def payload saturating_add_def max_total Let_def run_state_def chunk_key [of packet L ident cs i first])
  qed
qed

lemma push_chunk:
  assumes cut: "cut_into packet L cs" and new: "distinct (is @ [i])" "set (is @ [i]) \<subseteq> {..<length cs}"
    and time: "is = [] \<Longrightarrow> first = i \<and> ex = now + IPV6_FRAGMENT_TIMEOUT" "now < ex"
  shows "reassembler_push (run_state packet L ident cs first ex is) (emit_all (ipv6_fragment L ident) (length (concat cs)) 0 cs ! i) now
    = Some (run_state packet L ident cs first ex (is @ [i]),
        Inr (if set (is @ [i]) = {..<length cs} then Some packet else None))"
proof -
  let ?ol = "length (fl_unfragmentable_prefix L)" and ?m = "chunk_meta packet L ident cs i"
  have i: "i < length cs" and open_: "set is \<noteq> {..<length cs}" and L: "fragmentable packet L"
    using cut new by (auto simp: cut_into_def)
  have fields: "fm_fragment_offset ?m = chunk_start cs i" "fm_payload ?m = cs ! i" "length (fm_unfragmentable_prefix ?m) = ?ol"
    using fragmentable_facts(1) [OF L] by (simp_all add: chunk_meta_def fragment_meta_def)
  have expire: "reassembler_expire (run_state packet L ident cs first ex is) now = run_state packet L ident cs first ex is"
    using time(2) open_
    by (simp add: run_state_def reassembler_expire_def reassembler_default_def arrived_def chunk_assembly_def)
  note bounds = cut_bounds [OF cut i]
  have "push_fragment (run_state packet L ident cs first ex is) ?m now
    = push_piece \<lparr>ra_assemblies = [(metadata_key ?m, arrived L cs first ex is)],
        ra_buffered_bytes = ?ol + length (concat (map ((!) cs) is))\<rparr> (metadata_key ?m) ?m (chunk_start cs i + length (cs ! i))"
  proof (cases "is = []")
    case True
    then have "new_assembly ?m now = arrived L cs first ex []"
      using time(1) by (simp add: new_assembly_def arrived_def chunk_assembly_def chunk_meta_def fragment_meta_def)
    then show ?thesis
      using True bounds fields
      by (simp add: push_fragment_def checked_add_def saturating_add_def max_packet max_total run_state_def reassembler_default_def
          Let_def IPV6_FRAGMENT_MAX_ENTRIES_def)
  next
    case False
    then show ?thesis
      using open_ bounds fields chunk_key [of packet L ident cs first i]
      by (simp add: push_fragment_def checked_add_def saturating_add_def max_packet max_total run_state_def Let_def)
  qed
  then show ?thesis
    using push_piece_chunk [OF cut new, of ident first ex] parse_chunk [OF cut i, of ident] expire
    by (simp add: reassembler_push_def)
qed

text \<open>Fragments of one packet in any order, before the first of them expires.\<close>

lemma push_chunks:
  assumes cut: "cut_into packet L cs" and js: "distinct (is @ js)" "set (is @ js) = {..<length cs}"
    and len: "length ts = length js" and js1: "js \<noteq> []"
    and time: "is = [] \<Longrightarrow> first = hd js \<and> ex = hd ts + IPV6_FRAGMENT_TIMEOUT" "\<forall>t \<in> set ts. t < ex"
  shows "push_all (run_state packet L ident cs first ex is)
      (zip (map ((!) (emit_all (ipv6_fragment L ident) (length (concat cs)) 0 cs)) js) ts)
    = Some (reassembler_default, replicate (length js - 1) (Inr None) @ [Inr (Some packet)])"
  using js len js1 time
proof (induction js arbitrary: "is" ts)
  case (Cons j js)
  obtain t ts' where ts: "ts = t # ts'"
    using Cons.prems(3) by (cases ts) auto
  have "reassembler_push (run_state packet L ident cs first ex is) (emit_all (ipv6_fragment L ident) (length (concat cs)) 0 cs ! j) t
    = Some (run_state packet L ident cs first ex (is @ [j]), Inr (if set (is @ [j]) = {..<length cs} then Some packet else None))"
    using Cons.prems ts by (intro push_chunk [OF cut]) auto
  note step = this
  show ?case
  proof (cases "js = []")
    case True
    then show ?thesis
      using step Cons.prems ts by (simp add: run_state_def)
  next
    case False
    have "hd js \<in> set (is @ j # js)" "hd js \<notin> set (is @ [j])"
      using Cons.prems(1) hd_in_set [OF False] by auto
    then have "set (is @ [j]) \<noteq> {..<length cs}"
      using Cons.prems(2) by metis
    moreover have "push_all (run_state packet L ident cs first ex (is @ [j]))
        (zip (map ((!) (emit_all (ipv6_fragment L ident) (length (concat cs)) 0 cs)) js) ts')
      = Some (reassembler_default, replicate (length js - 1) (Inr None) @ [Inr (Some packet)])"
      using Cons.prems False ts by (intro Cons.IH) auto
    ultimately show ?thesis
      using step ts False by (cases js) auto
  qed
qed simp

lemma fragment_ipv6_cut:
  assumes frag: "fragment_ip_packet packet mtu ident = Inr frags" and six: "ip_version packet = 6"
    and len: "length packet = 40 + unat (be16_at packet 4)" "mtu < length packet" "length frags \<le> 128"
  shows "\<exists>L cs. cut_into packet L cs \<and> frags = emit_all (ipv6_fragment L ident) (length (concat cs)) 0 cs
    \<and> (\<forall>f \<in> set frags. length f \<le> mtu)"
proof -
  have "576 \<le> mtu" "mtu \<le> 9216" "packet \<noteq> []"
    and six_frag: "fragment_ipv6 packet mtu ident = Inr frags"
    using frag six by (auto simp: fragment_ip_packet_def split: if_splits)
  then have "rbind (ipv6_fragment_layout packet (length packet)) (\<lambda>layout.
      let overhead = length (fl_unfragmentable_prefix layout) + 8;
          max_payload = (if overhead \<ge> mtu then 0 else (mtu - overhead) div 8 * 8)
      in if max_payload = 0 then Inl (error_invalid ''TUN MTU cannot carry an IPv6 fragment'')
         else fragment_loop ''IPv6'' max_payload (ipv6_fragment layout ident) (fl_fragmentable_part layout) 0) = Inr frags"
    using len(2) unfolding fragment_ipv6_def len(1) [symmetric] Let_def by (simp split: if_splits)
  then obtain L where L: "ipv6_fragment_layout packet (length packet) = Inr L"
    and fit: "length (fl_unfragmentable_prefix L) + 8 < mtu" "(mtu - (length (fl_unfragmentable_prefix L) + 8)) div 8 * 8 \<noteq> 0"
    and loop: "fragment_loop ''IPv6'' ((mtu - (length (fl_unfragmentable_prefix L) + 8)) div 8 * 8) (ipv6_fragment L ident)
        (fl_fragmentable_part L) 0 = Inr frags"
    by (auto simp: rbind_def Let_def split: sum.splits if_splits)
  let ?ol = "length (fl_unfragmentable_prefix L)"
  let ?mp = "(mtu - (?ol + 8)) div 8 * 8"
  have packet: "fragmentable packet L"
    using L six len(1) by (simp add: fragmentable_def)
  note facts = fragmentable_facts [OF packet]
  have mp: "8 dvd ?mp" "?ol + 8 + ?mp \<le> mtu"
    using fit(1) div_times_less_eq_dividend [of "mtu - (?ol + 8)" 8] by auto
  from fragment_loop_chunks [OF loop] fit(2) obtain cs where cs: "concat cs = fl_fragmentable_part L" "chunked ?mp cs"
    "frags = emit_all (ipv6_fragment L ident) (length (fl_fragmentable_part L)) 0 cs"
    "\<forall>i < length cs. chunk_start cs i div 8 \<le> 0x1fff"
    by auto
  have start: "8 dvd chunk_start cs i \<and> chunk_start cs i < 65536" if "i < length cs" for i
  proof -
    have "8 dvd chunk_start cs i"
      using chunk_start_mult [OF cs(2) that] mp(1) by simp
    moreover have "chunk_start cs i div 8 \<le> 8191"
      using cs(4) that by auto
    ultimately show ?thesis
      by (auto elim!: dvdE)
  qed
  have piece: "c \<noteq> [] \<and> ?ol + 8 + length c \<le> mtu" if "c \<in> set cs" for c
    using cs(2) that mp(2) by (force simp: chunked_def)
  have long: "1 < length cs"
  proof (rule ccontr)
    assume "\<not> 1 < length cs"
    then consider "cs = []" | c where "cs = [c]"
      by (cases cs; cases "tl cs") auto
    then have "length (concat cs) \<le> ?mp"
      using cs(2) by cases (auto simp: chunked_Cons)
    then show False
      using len(2) cs(1) facts(2,4) mp(2) by simp
  qed
  have "8 dvd length (cs ! i)" if "Suc i < length cs" for i
    using cs(2) that mp(1) by (simp add: chunked_def)
  then have "cut_into packet L cs"
    unfolding cut_into_def
    using packet len cs(1,3) piece start long \<open>mtu \<le> 9216\<close> by force
  moreover have "length (frags ! i) \<le> mtu" if "i < length cs" for i
    using nth_emit_all [OF that] piece [OF nth_mem [OF that]] ipv6_fragment_alt [OF facts(1)] facts(1) by (simp add: cs(3))
  then have "\<forall>f \<in> set frags. length f \<le> mtu"
    by (auto simp: in_set_conv_nth cs(3))
  ultimately show ?thesis
    using cs(1,3) by metis
qed

lemma reordering_indices:
  assumes "mset xs = mset ys"
  obtains js where "mset js = mset [0..<length ys]" "map ((!) ys) js = xs"
proof -
  obtain js where js: "length js = length xs" "mset (zip xs js) = mset (zip ys [0..<length ys])"
    using ex_mset_zip_left [of ys "[0..<length ys]" xs] assms by auto
  have "mset (map snd (zip xs js)) = mset (map snd (zip ys [0..<length ys]))"
    using js(2) by (metis mset_map)
  then have "mset js = mset [0..<length ys]"
    using js(1) by simp
  moreover have "ys ! (js ! i) = xs ! i" if "i < length xs" for i
  proof -
    have "(xs ! i, js ! i) \<in> set (zip xs js)"
      using that js(1) by (force simp: in_set_zip)
    then have "(xs ! i, js ! i) \<in> set (zip ys [0..<length ys])"
      using js(2) by (metis set_mset_mset)
    then show ?thesis
      by (auto simp: in_set_zip)
  qed
  then have "map ((!) ys) js = xs"
    using js(1) by (auto intro: nth_equalityI)
  ultimately show ?thesis
    using that by blast
qed

text \<open>
  C2: an IPv6 packet larger than the MTU that is cut into at most 128 fragments comes back from an
  empty reassembler exactly as it was, whatever order the fragments arrive in, provided they
  arrive within fifteen seconds of the first: every fragment fits the MTU, all but the last yield
  nothing, the last yields the packet, and the reassembler is empty again.
\<close>

theorem fragments_reassemble:
  assumes "fragment_ip_packet packet mtu ident = Inr frags" "ip_version packet = 6"
    and "length packet = 40 + unat (be16_at packet 4)" "mtu < length packet" "length frags \<le> 128"
    and "mset (map fst arrivals) = mset frags"
    and "\<forall>(_, t) \<in> set arrivals. t < snd (hd arrivals) + 15 * 1000000000"
  shows "(\<forall>f \<in> set frags. length f \<le> mtu)
    \<and> push_all reassembler_default arrivals
        = Some (reassembler_default, replicate (length frags - 1) (Inr None) @ [Inr (Some packet)])"
proof -
  obtain L cs where cut: "cut_into packet L cs" and frags: "frags = emit_all (ipv6_fragment L ident) (length (concat cs)) 0 cs"
    and small: "\<forall>f \<in> set frags. length f \<le> mtu"
    using fragment_ipv6_cut [OF assms(1-5)] by blast
  obtain js where js: "mset js = mset [0..<length cs]" "map ((!) frags) js = map fst arrivals"
    using reordering_indices [OF assms(6)] frags by auto
  let ?ts = "map snd arrivals"
  have set_js: "distinct js" "set js = {..<length cs}"
    using js(1) by (metis distinct_upt mset_eq_imp_distinct_iff, metis atLeast0LessThan atLeast_upt set_mset_mset set_upt)
  have "length js = length frags"
    using js(1) by (metis frags length_emit_all length_upt diff_zero size_mset)
  have len: "length js = length arrivals"
    using js(2) by (metis length_map)
  have "js \<noteq> []"
    using set_js(2) cut by (auto simp: cut_into_def)
  then have "arrivals \<noteq> []"
    using len by auto
  have "push_all (run_state packet L ident cs (hd js) (hd ?ts + IPV6_FRAGMENT_TIMEOUT) []) (zip (map ((!) frags) js) ?ts)
      = Some (reassembler_default, replicate (length js - 1) (Inr None) @ [Inr (Some packet)])"
    unfolding frags
    using set_js len \<open>js \<noteq> []\<close> assms(7) \<open>arrivals \<noteq> []\<close>
    by (intro push_chunks [OF cut]) (auto simp: IPV6_FRAGMENT_TIMEOUT_def hd_map)
  moreover have "zip (map ((!) frags) js) ?ts = arrivals"
    unfolding js(2) by (rule zip_map_fst_snd)
  ultimately show ?thesis
    using small \<open>length js = length frags\<close> by (simp add: run_state_def)
qed

definition example_packet :: "byte list" where
  "example_packet = [0x60, 0, 0, 0, 2, 48, 17, 64] @ replicate 592 0"

lemma layout_loop_plain:
  "nh \<notin> {44, 0, 43, 60} \<Longrightarrow> layout_loop (Suc n) packet t nh prev off saw = Inr (layout_at packet t nh prev off)"
  by (simp add: Let_def)

lemma example_facts:
  "ip_version example_packet = 6" "be16_at example_packet 4 = 560" "length example_packet = 600"
  "ipv6_fragment_layout example_packet 600 = Inr (layout_at example_packet 600 17 6 40)"
proof -
  have "layout_loop (Suc 15) example_packet 600 17 6 40 False = Inr (layout_at example_packet 600 17 6 40)"
    by (rule layout_loop_plain) simp
  then show "ipv6_fragment_layout example_packet 600 = Inr (layout_at example_packet 600 17 6 40)"
    by (simp add: ipv6_fragment_layout_def example_packet_def)
qed (simp_all add: be16_at_def example_packet_def be_defs be_nat_def ip_version_def)

lemma example_fragments:
  "fragment_ip_packet example_packet 576 7 =
     Inr [ipv6_fragment (layout_at example_packet 600 17 6 40) 7 (replicate 528 0) 0 True,
          ipv6_fragment (layout_at example_packet 600 17 6 40) 7 (replicate 32 0) 528 False]"
proof -
  have part: "fl_fragmentable_part (layout_at example_packet 600 17 6 40) = replicate 560 0"
    "length (fl_unfragmentable_prefix (layout_at example_packet 600 17 6 40)) = 40"
    by (simp_all add: layout_at_def example_packet_def)
  have "fragment_loop wire 528 emit (replicate 560 0) 0 = Inr [emit (replicate 528 0) 0 True, emit (replicate 32 0) 528 False]" for wire emit
    by (simp add: fragment_loop.simps Let_def rbind_def)
  moreover have "example_packet \<noteq> []"
    by (simp add: example_packet_def)
  ultimately show ?thesis
    by (simp add: fragment_ip_packet_def fragment_ipv6_def example_facts part rbind_def)
qed

theorem fragments_reassemble_witness:
  "push_all reassembler_default
     [(ipv6_fragment (layout_at example_packet 600 17 6 40) 7 (replicate 32 0) 528 False, 5),
      (ipv6_fragment (layout_at example_packet 600 17 6 40) 7 (replicate 528 0) 0 True, 9)]
   = Some (reassembler_default, [Inr None, Inr (Some example_packet)])"
  using fragments_reassemble [OF example_fragments, of "[(ipv6_fragment (layout_at example_packet 600 17 6 40) 7 (replicate 32 0) 528 False, 5),
      (ipv6_fragment (layout_at example_packet 600 17 6 40) 7 (replicate 528 0) 0 True, 9)]"]
  by (simp add: example_facts)

end
