(* ===== verification/Ip_Checksum.thy ===== *)
theory Ip_Checksum
  imports Ip_Roundtrip
begin

text \<open>
  IPv4 fragments: the one's complement checksum of a header verifies once it is written into the
  header, and the fields of the fragments describe the payload they carry.
\<close>

subsection \<open>The checksum of a header\<close>

fun word_sum :: "byte list \<Rightarrow> nat" where
  "word_sum [] = 0"
| "word_sum [a] = unat (from_be16 [a, 0])"
| "word_sum (a # b # bs) = unat (from_be16 [a, b]) + word_sum bs"

lemma be16_less: "unat (w :: u16) < 65536"
  using unsigned_less [of w, where ?'a = nat] by simp

lemma word_sum_bound: "word_sum bs \<le> 65535 * length bs"
proof (induction bs rule: word_sum.induct)
  case (2 a)
  then show ?case
    using be16_less [of "from_be16 [a, 0]"] by simp
next
  case (3 a b bs)
  then show ?case
    using be16_less [of "from_be16 [a, b]"] by simp
qed simp

lemma word_sum_append: "even (length xs) \<Longrightarrow> word_sum (xs @ ys) = word_sum xs + word_sum ys"
  by (induction xs rule: word_sum.induct) simp_all

lemma checksum_sum_nat:
  "unat acc + word_sum bs < 2 ^ 32 \<Longrightarrow> unat (checksum_sum acc bs) = unat acc + word_sum bs"
proof -
  have step: "unat (acc + ucast w :: u32) = unat acc + unat (w :: u16)" if "unat acc + unat w < 2 ^ 32" for acc w
    using that by (subst unat_add_lem [THEN iffD1]) (simp_all add: unsigned_ucast_eq take_bit_nat_eq_self be16_less [THEN less_trans])
  show "unat acc + word_sum bs < 2 ^ 32 \<Longrightarrow> ?thesis"
    by (induction acc bs rule: checksum_sum.induct) (simp_all add: step)
qed

lemma fold_carries_facts:
  "unat (fold_carries s) mod 65535 = unat s mod 65535 \<and> unat (fold_carries s) \<le> 65535 \<and> (fold_carries s = 0 \<longrightarrow> s = 0)"
proof (induction s rule: fold_carries.induct)
  case (1 s)
  show ?case
  proof (cases "s > 0xFFFF")
    case True
    let ?t = "and s 0xFFFF + drop_bit 16 s"
    have "unat (and s 0xFFFF) = unat s mod 65536" 
    proof -
      have "and s 0xFFFF = take_bit 16 s"
        by (simp add: take_bit_eq_mask mask_eq_decr_exp)
      then show ?thesis
        by (simp only: unsigned_take_bit_eq) (simp add: take_bit_eq_mod)
    qed
    moreover have "unat (drop_bit 16 s) = unat s div 65536"
      by (simp only: unat_drop_bit_eq) (simp add: drop_bit_eq_div)
    moreover have "unat s mod 65536 + unat s div 65536 \<le> unat s"
      using div_mult_mod_eq [of "unat s" 65536] by linarith
    ultimately have t: "unat ?t = unat s mod 65536 + unat s div 65536"
      using unsigned_less [of s, where ?'a = nat] by (subst unat_add_lem [THEN iffD1]) simp_all
    have "unat s = unat ?t + 65535 * (unat s div 65536)"
      using div_mult_mod_eq [of "unat s" 65536] t by linarith
    then have "unat s mod 65535 = unat ?t mod 65535"
      by (metis mod_mult_self2)
    moreover have "?t \<noteq> 0"
    proof -
      have "65536 \<le> unat s"
        using True by (simp add: word_less_nat_alt)
      then have "0 < unat s div 65536"
        by (simp add: div_greater_zero_iff)
      then show ?thesis
        using t by (metis add_is_0 less_irrefl unat_0)
    qed
    ultimately show ?thesis
      using 1 True fold_carries.simps [of s] by simp
  next
    case False
    then have "fold_carries s = s" "unat s \<le> 65535"
      using fold_carries.simps [of s] by (simp_all add: word_less_nat_alt)
    then show ?thesis
      by simp
  qed
qed

text \<open>Writing the checksum into a header whose field is zero makes the header verify.\<close>

lemma checksum_verifies:
  assumes "length header \<le> 1000" "even i" "i + 2 \<le> length header" "take 2 (drop i header) = [0, 0]"
  shows "ipv4_header_checksum (put_at i (to_be16 (ipv4_header_checksum header)) header) = 0"
proof -
  let ?c = "ipv4_header_checksum header" and ?s = "checksum_sum 0 header"
  define xs ys where "xs = take i header" and "ys = drop (i + 2) header"
  have header: "header = xs @ [0, 0] @ ys"
    using assms(3,4) append_take_drop_id [of i header] append_take_drop_id [of 2 "drop i header"]
    by (simp add: xs_def ys_def add.commute)
  have ev: "even (length xs)"
    using assms(2,3) by (simp add: xs_def min_def)
  let ?header = "put_at i (to_be16 ?c) header"
  have new: "?header = xs @ to_be16 ?c @ ys"
    by (simp add: put_at_def xs_def ys_def)
  have two: "word_sum (to_be16 w) = unat w" for w
  proof -
    obtain a b where "to_be16 w = [a, b]"
      using length_be(1) [of w] by (metis (no_types, opaque_lifting) length_0_conv length_Suc_conv numeral_2_eq_2)
    then show ?thesis
      using from_to_be16 [of w] by simp
  qed
  have tail: "word_sum (to_be16 w @ ys) = unat w + word_sum ys" for w
    using word_sum_append [of "to_be16 w" ys] by (simp add: two)
  have old_sum: "word_sum header = word_sum xs + word_sum ys"
    unfolding header using word_sum_append [OF ev] by (simp add: from_be16_def be_nat_def)
  have new_sum: "word_sum ?header = word_sum header + unat ?c"
    unfolding new old_sum using word_sum_append [OF ev] tail by simp
  have small: "word_sum header \<le> 65535 * 1000"
    using word_sum_bound [of header] assms(1) by simp
  have s: "unat ?s = word_sum header"
    using checksum_sum_nat [of 0 header] small by simp
  have t: "unat (checksum_sum 0 ?header) = word_sum header + unat ?c"
    using checksum_sum_nat [of 0 ?header] small new_sum be16_less [of ?c] by simp
  have "unat (ucast (fold_carries ?s) :: u16) = unat (fold_carries ?s)"
    using fold_carries_facts [of ?s] by (simp add: unsigned_ucast_eq take_bit_nat_eq_self)
  moreover have "unat (not w) = 65535 - unat w" for w :: u16
  proof -
    have "not w = 0xFFFF - w"
      by (simp add: not_eq_complement)
    moreover have "w \<le> 0xFFFF"
      using be16_less [of w] by (simp add: word_le_nat_alt)
    ultimately show ?thesis
      by (simp add: unat_sub)
  qed
  ultimately have c: "unat ?c + unat (fold_carries ?s) = 65535"
    using fold_carries_facts [of ?s] by (simp add: ipv4_header_checksum_def)
  have "(unat (checksum_sum 0 ?header)) mod 65535 = (unat ?c + unat (fold_carries ?s)) mod 65535"
    using fold_carries_facts [of ?s] by (simp only: t s [symmetric] add.commute [of _ "unat ?c"]) (rule mod_add_cong, simp_all)
  then have "unat (fold_carries (checksum_sum 0 ?header)) mod 65535 = 0"
    using fold_carries_facts [of "checksum_sum 0 ?header"] c by simp
  moreover have "checksum_sum 0 ?header \<noteq> 0"
  proof
    assume "checksum_sum 0 ?header = 0"
    then have "word_sum header = 0" "unat ?c = 0"
      using t by simp_all
    then have "?s = 0"
      using s by (simp add: unat_eq_zero)
    then have "fold_carries ?s = 0"
      using fold_carries.simps [of 0] by simp
    then show False
      using c \<open>unat ?c = 0\<close> by simp
  qed
  ultimately have "unat (fold_carries (checksum_sum 0 ?header)) = 65535"
    using fold_carries_facts [of "checksum_sum 0 ?header"]
    by (metis (no_types, opaque_lifting) le_antisym mod_less not_less unat_eq_zero zero_less_iff_neq_zero)
  then have "ucast (fold_carries (checksum_sum 0 ?header)) = (0xFFFF :: u16)"
    by (simp add: word_unat_eq_iff unsigned_ucast_eq take_bit_nat_eq_self)
  then show ?thesis
    by (simp add: ipv4_header_checksum_def)
qed

subsection \<open>The fields of an IPv4 fragment\<close>

lemma put_at_take: "i + length bs \<le> n \<Longrightarrow> n \<le> length xs \<Longrightarrow> take n (put_at i bs xs) = put_at i bs (take n xs)"
  by (auto simp: put_at_def drop_take min.absorb1)

lemma put_at_field: "i + 2 \<le> length xs \<Longrightarrow> be16_at (put_at i (to_be16 w) xs) i = w"
  by (simp add: be16_at_def nth_put_at be16_of_to_be16)

lemma put_at_other_field:
  "i + 2 \<le> length xs \<Longrightarrow> j + 2 \<le> length xs \<Longrightarrow> length bs = 2 \<Longrightarrow> i + 2 \<le> j \<or> j + 2 \<le> i \<Longrightarrow> be16_at (put_at i bs xs) j = be16_at xs j"
  by (auto simp: be16_at_def nth_put_at)

lemma drop_put_at: "i + length bs \<le> n \<Longrightarrow> n \<le> length xs \<Longrightarrow> drop n (put_at i bs xs) = drop n xs"
  by (simp add: put_at_def)

lemma flag_word:
  assumes "8 dvd off" "off < 65536"
  shows "unat (and (or (or (and r 0x8000) (if mf then 0x2000 else 0)) (of_nat off div 8)) 0x1fff :: u16) * 8 = off"
    "and (or (or (and r 0x8000) (if mf then 0x2000 else 0)) (of_nat off div 8)) 0x2000 \<noteq> (0 :: u16) \<longleftrightarrow> mf"
proof -
  obtain k where k: "off = 8 * k"
    using assms(1) by blast
  have "unat (of_nat off :: u16) = off"
    using assms(2) by (simp add: unat_of_nat)
  then have "(of_nat off div 8 :: u16) = of_nat (off div 8)"
    by (simp only: word_arith_nat_div) simp
  then have word: "(of_nat off div 8 :: u16) = of_nat k"
    by (simp add: k)
  have "take_bit 13 k = k"
    using assms(2) k by (simp add: take_bit_nat_eq_self)
  then have small: "bit k n \<Longrightarrow> n < 13" for n
    by (metis bit_take_bit_iff)
  have "bit (2 ^ m :: u16) n \<longleftrightarrow> n = m \<and> m < 16" for m n
    by (auto simp: bit_exp_iff)
  from this [of 15] this [of 13]
  have flags: "bit (0x8000 :: u16) n \<longleftrightarrow> n = 15" "bit (0x2000 :: u16) n \<longleftrightarrow> n = 13" for n
    by simp_all
  have low: "(0x1fff :: u16) = mask 13"
    by (simp add: mask_eq_decr_exp)
  let ?w = "or (or (and r 0x8000) (if mf then 0x2000 else 0)) (of_nat k) :: u16"
  have "and ?w (mask 13) = of_nat k"
    using small by (intro bit_word_eqI) (cases mf; simp only: bit_and_iff bit_or_iff flags if_True if_False; auto simp: bit_simps)
  then show "unat (and (or (or (and r 0x8000) (if mf then 0x2000 else 0)) (of_nat off div 8)) 0x1fff :: u16) * 8 = off"
    unfolding word low using assms(2) k by (simp add: unat_of_nat)
  have "and v 0x2000 = (if bit v 13 then 0x2000 else 0)" for v :: u16
    by (cases "bit v 13"; rule bit_word_eqI; simp only: bit_and_iff flags if_True if_False; auto)
  moreover have "bit ?w 13 \<longleftrightarrow> mf"
    using small [of 13] by (cases mf; simp only: bit_and_iff bit_or_iff flags if_True if_False; auto simp: bit_simps)
  ultimately show "and (or (or (and r 0x8000) (if mf then 0x2000 else 0)) (of_nat off div 8)) 0x2000 \<noteq> (0 :: u16) \<longleftrightarrow> mf"
    unfolding word by simp
qed

lemma ipv4_fragment_fields:
  fixes ident :: u32 and mf :: bool
  assumes hl: "20 \<le> hl" "hl \<le> 60" "hl \<le> length packet" and len: "hl + length chunk < 65536"
    and off: "8 dvd off" "off < 65536"
  defines "f \<equiv> ipv4_fragment packet hl ident chunk off mf"
  shows "length f = hl + length chunk" "unat (be16_at f 2) = hl + length chunk" "be16_at f 4 = ucast ident"
    "unat (and (be16_at f 6) 0x1fff) * 8 = off" "and (be16_at f 6) 0x2000 \<noteq> 0 \<longleftrightarrow> mf"
    "ipv4_header_checksum (take hl f) = 0" "drop hl f = chunk"
proof -
  define f0 where "f0 = take hl packet @ chunk"
  define w where "w = or (or (and (be16_at packet 6) 0x8000) (if mf then 0x2000 else 0)) (of_nat off div 8)"
  define f1 where "f1 = put_at 10 [0, 0] (put_at 6 (to_be16 w) (put_at 4 (to_be16 (ucast ident)) (put_at 2 (to_be16 (of_nat (hl + length chunk))) f0)))"
  have f: "f = put_at 10 (to_be16 (ipv4_header_checksum (take hl f1))) f1"
    by (simp add: f_def ipv4_fragment_def Let_def f1_def f0_def w_def)
  have len0: "length f0 = hl + length chunk"
    using hl by (simp add: f0_def)
  then have len1: "length f1 = hl + length chunk"
    using hl by (simp add: f1_def)
  then show "length f = hl + length chunk"
    using hl by (simp add: f)
  have "be16_at f 2 = of_nat (hl + length chunk)"
    using hl len0 len1 by (simp add: f put_at_other_field) (simp add: f1_def put_at_other_field put_at_field)
  then show "unat (be16_at f 2) = hl + length chunk"
    using len by (simp only: unat_of_nat) simp
  show "be16_at f 4 = ucast ident"
    using hl len0 len1 by (simp add: f put_at_other_field) (simp add: f1_def put_at_other_field put_at_field)
  have flags: "be16_at f 6 = w"
    using hl len0 len1 by (simp add: f put_at_other_field) (simp add: f1_def put_at_other_field put_at_field)
  show "unat (and (be16_at f 6) 0x1fff) * 8 = off" "and (be16_at f 6) 0x2000 \<noteq> 0 \<longleftrightarrow> mf"
    unfolding flags w_def by (rule flag_word [OF off])+
  have "take 2 (drop 10 (take hl f1)) = [0, 0]"
    using hl len0 by (simp add: f1_def put_at_def [of 10] drop_take min_def)
  then have "ipv4_header_checksum (put_at 10 (to_be16 (ipv4_header_checksum (take hl f1))) (take hl f1)) = 0"
    using hl len1 by (intro checksum_verifies) simp_all
  then show "ipv4_header_checksum (take hl f) = 0"
    using hl len1 by (simp add: f put_at_take)
  show "drop hl f = chunk"
    using hl len0 len1 by (simp add: f f1_def drop_put_at) (simp add: f0_def)
qed

lemma low_nibble: "unat (and b 0x0f :: byte) \<le> 15"
proof -
  have "and b 0x0f \<le> 0x0f"
    by (rule word_and_le1)
  then show ?thesis
    by (simp add: word_le_nat_alt)
qed

definition ipv4_header_len :: "byte list \<Rightarrow> nat" where
  "ipv4_header_len packet = unat (and (packet ! 0) 0x0f) * 4"

text \<open>
  C36: the fragments of an IPv4 packet larger than the MTU fit the MTU, carry their own length, the
  identification and a header checksum that verifies; their payloads, in order, are the payload
  of the packet, each at the offset its header announces, and all but the last announce more.
\<close>

theorem ipv4_fragments_sound:
  assumes frag: "fragment_ip_packet packet mtu ident = Inr frags" and four: "ip_version packet = 4"
    and large: "mtu < unat (be16_at packet 2)"
  shows "list_all (\<lambda>f. length f \<le> mtu \<and> unat (be16_at f 2) = length f \<and> be16_at f 4 = ucast ident
      \<and> ipv4_header_checksum (take (ipv4_header_len packet) f) = 0) frags
    \<and> concat (map (drop (ipv4_header_len packet)) frags) = drop (ipv4_header_len packet) (take (unat (be16_at packet 2)) packet)
    \<and> list_all (\<lambda>i. unat (and (be16_at (frags ! i) 6) 0x1fff) * 8 = length (concat (map (drop (ipv4_header_len packet)) (take i frags)))
      \<and> (and (be16_at (frags ! i) 6) 0x2000 \<noteq> 0 \<longleftrightarrow> Suc i < length frags)) [0..<length frags]"
proof -
  define hl where "hl = ipv4_header_len packet"
  let ?tot = "unat (be16_at packet 2)" and ?mp = "(mtu - hl) div 8 * 8"
  let ?payload = "drop hl (take ?tot packet)" and ?emit = "ipv4_fragment packet hl ident"
  have mtu: "576 \<le> mtu" "mtu \<le> 9216" and "fragment_ipv4 packet mtu ident = Inr frags"
    using frag four by (auto simp: fragment_ip_packet_def split: if_splits)
  then have hl: "20 \<le> hl" "hl \<le> length packet" "hl \<le> ?tot" "?tot \<le> length packet" and mp: "?mp \<noteq> 0"
    and loop: "fragment_loop ''IPv4'' ?mp ?emit ?payload 0 = Inr frags"
    using large unfolding fragment_ipv4_def Let_def hl_def ipv4_header_len_def by (auto split: if_splits)
  have hl60: "hl \<le> 60"
    using low_nibble [of "packet ! 0"] by (simp add: hl_def ipv4_header_len_def)
  have mp8: "8 dvd ?mp" "hl + ?mp \<le> mtu"
    using hl60 mtu(1) div_times_less_eq_dividend [of "mtu - hl" 8] by auto
  from fragment_loop_chunks [OF loop] mp obtain cs where cs: "concat cs = ?payload" "chunked ?mp cs"
    "frags = emit_all ?emit (length ?payload) 0 cs" "\<forall>i < length cs. chunk_start cs i div 8 \<le> 0x1fff"
    by auto
  have nonempty: "\<forall>c \<in> set cs. c \<noteq> []" and small: "length (cs ! i) \<le> ?mp" if "i < length cs" for i
    using cs(2) that by (auto simp: chunked_def)
  have start: "8 dvd chunk_start cs i \<and> chunk_start cs i < 65536" if "i < length cs" for i
  proof -
    have "8 dvd chunk_start cs i"
      using chunk_start_mult [OF cs(2) that] mp8(1) by simp
    moreover have "chunk_start cs i div 8 \<le> 8191"
      using cs(4) that by auto
    ultimately show ?thesis
      by (auto elim!: dvdE)
  qed
  have nth: "frags ! i = ?emit (cs ! i) (chunk_start cs i) (i \<noteq> length cs - 1)" if "i < length cs" for i
    using nth_emit_all [OF that, of ?emit "length ?payload" 0] chunk_more [OF nonempty [OF that] that]
    unfolding cs(1) by (simp add: cs(3))
  note fields = ipv4_fragment_fields [OF hl(1) hl60 hl(2)]
  have room: "hl + length (cs ! i) < 65536" "hl + length (cs ! i) \<le> mtu" if "i < length cs" for i
    using small [OF that] mp8(2) mtu(2) by simp_all
  have n: "length frags = length cs"
    by (simp add: cs(3))
  have ith: "length (frags ! i) \<le> mtu \<and> unat (be16_at (frags ! i) 2) = length (frags ! i) \<and> be16_at (frags ! i) 4 = ucast ident
      \<and> ipv4_header_checksum (take hl (frags ! i)) = 0"
    "unat (and (be16_at (frags ! i) 6) 0x1fff) * 8 = chunk_start cs i"
    "and (be16_at (frags ! i) 6) 0x2000 \<noteq> 0 \<longleftrightarrow> Suc i < length cs" "drop hl (frags ! i) = cs ! i" if "i < length cs" for i
    using fields [OF room(1) [OF that], of "chunk_start cs i"] start [OF that] nth [OF that] room [OF that] that by auto
  have drops: "map (drop hl) (take i frags) = take i cs" if "i \<le> length cs" for i
    using that ith(4) by (intro nth_equalityI) (auto simp: n)
  then have "map (drop hl) frags = cs"
    using drops [of "length cs"] n by simp
  then show ?thesis
    unfolding hl_def [symmetric] using ith drops cs(1) by (auto simp: list_all_length n chunk_start_def)
qed


definition example_packet4 :: "byte list" where
  "example_packet4 = [0x45, 0, 2, 0x44, 0, 0, 0, 0, 64, 17] @ replicate 570 0"

lemma example4_facts:
  "ip_version example_packet4 = 4" "be16_at example_packet4 2 = 580" "be16_at example_packet4 6 = 0"
  "length example_packet4 = 580" "ipv4_header_len example_packet4 = 20"
  by (simp_all add: be16_at_def example_packet4_def be_defs be_nat_def ip_version_def ipv4_header_len_def)

lemma example4_fragments:
  "fragment_ip_packet example_packet4 576 7 =
     Inr [ipv4_fragment example_packet4 20 7 (replicate 552 0) 0 True, ipv4_fragment example_packet4 20 7 (replicate 8 0) 552 False]"
proof -
  have part: "drop 20 example_packet4 = replicate 560 0" "example_packet4 \<noteq> []"
    by (simp_all add: example_packet4_def)
  have "fragment_loop wire 552 emit (replicate 560 0) 0 = Inr [emit (replicate 552 0) 0 True, emit (replicate 8 0) 552 False]" for wire emit
    by (simp add: fragment_loop.simps Let_def rbind_def)
  then show ?thesis
    using example4_facts(5) part unfolding fragment_ip_packet_def fragment_ipv4_def ipv4_header_len_def
    by (simp add: example4_facts(1-4))
qed

theorem ipv4_fragments_sound_witness:
  "ipv4_header_checksum (take 20 (ipv4_fragment example_packet4 20 7 (replicate 8 0) 552 False)) = 0
   \<and> unat (be16_at (ipv4_fragment example_packet4 20 7 (replicate 8 0) 552 False) 2) = length (ipv4_fragment example_packet4 20 7 (replicate 8 0) 552 False)"
  using ipv4_fragments_sound [OF example4_fragments] by (simp add: example4_facts)

end
