(* ===== verification/Ip_Origin.thy ===== *)
theory Ip_Origin
  imports Ip_Roundtrip
begin

text \<open>
  Where the bytes of a reassembled packet come from: the packets received so far, all of them
  fragments of one datagram.
\<close>

definition received_fragment :: "byte list list \<Rightarrow> fragment_key \<Rightarrow> fragment_metadata \<Rightarrow> bool" where
  "received_fragment seen key m \<longleftrightarrow>
     metadata_key m = key \<and> (\<exists>bytes \<in> set seen. parse_ipv6_fragment_metadata bytes = Inr (Some m))"

definition assembly_from :: "byte list list \<Rightarrow> fragment_key \<Rightarrow> fragment_assembly \<Rightarrow> bool" where
  "assembly_from seen key a \<longleftrightarrow>
     (\<forall>p \<in> set (fa_pieces a). \<exists>m. received_fragment seen key m \<and> fp_start p = fm_fragment_offset m \<and> fp_payload p = fm_payload m)
     \<and> (\<exists>m. received_fragment seen key m \<and> fa_unfragmentable_prefix a = fm_unfragmentable_prefix m
          \<and> fa_previous_next_header_offset a = fm_previous_next_header_offset m \<and> fa_next_header a = fm_next_header m)"

definition table_from :: "byte list list \<Rightarrow> reassembler \<Rightarrow> bool" where
  "table_from seen r \<longleftrightarrow> (\<forall>(key, a) \<in> set (ra_assemblies r). assembly_from seen key a)"

lemma received_mono: "received_fragment seen key m \<Longrightarrow> set seen \<subseteq> set seen' \<Longrightarrow> received_fragment seen' key m"
  by (auto simp: received_fragment_def)

lemma assembly_from_mono: "assembly_from seen key a \<Longrightarrow> set seen \<subseteq> set seen' \<Longrightarrow> assembly_from seen' key a"
  unfolding assembly_from_def by (meson received_mono)

lemma table_from_mono: "table_from seen r \<Longrightarrow> set seen \<subseteq> set seen' \<Longrightarrow> table_from seen' r"
  by (auto simp: table_from_def intro: assembly_from_mono)

lemma table_from_sub: "table_from seen r \<Longrightarrow> set (ra_assemblies r1) \<subseteq> set (ra_assemblies r) \<Longrightarrow> table_from seen r1"
  by (auto simp: table_from_def)

lemma remove_assembly_sub: "set (ra_assemblies (fst (remove_assembly r key))) \<subseteq> set (ra_assemblies r)"
  by (auto simp: remove_assembly_def AList.delete_eq split: option.splits)

lemma expire_sub: "set (ra_assemblies (reassembler_expire r now)) \<subseteq> set (ra_assemblies r)"
  by (auto simp: reassembler_expire_def Let_def)

lemma assembly_from_add:
  assumes "assembly_from seen key a" "received_fragment seen key m"
  shows "assembly_from seen key (add_piece a m fe)"
  using assms by (auto simp: assembly_from_def add_piece_def)

lemma assembly_from_new: "received_fragment seen key m \<Longrightarrow> assembly_from seen key (new_assembly m now)"
  by (auto simp: assembly_from_def new_assembly_def)

lemma table_from_update:
  assumes "table_from seen r" "assembly_from seen key a"
  shows "table_from seen (r\<lparr>ra_assemblies := AList.update key a (ra_assemblies r), ra_buffered_bytes := n\<rparr>)"
  using assms by (auto simp: table_from_def dest!: in_set_updateD)

text \<open>A packet made of received fragments of one datagram, in the order of their offsets.\<close>

definition made_from :: "byte list list \<Rightarrow> byte list \<Rightarrow> bool" where
  "made_from seen packet \<longleftrightarrow>
     (\<exists>key ms n. (\<forall>m \<in> set ms. received_fragment seen key m) \<and> n \<le> length packet \<and> drop n packet = concat (map fm_payload ms)
        \<and> (\<forall>i < length ms. fm_fragment_offset (ms ! i) = length (concat (map fm_payload (take i ms))))
        \<and> from_be128 (take 16 (drop 8 packet)) = fk_source key \<and> from_be128 (take 16 (drop 24 packet)) = fk_destination key)"

lemma fragment_walk_addresses:
  "fragment_walk n bytes nh prev off = Inr (Some m) \<Longrightarrow> 40 \<le> off \<Longrightarrow> prev = 6 \<or> 40 \<le> prev \<Longrightarrow>
   from_be128 (take 16 (drop 8 (fm_unfragmentable_prefix m))) = fm_source m
   \<and> from_be128 (take 16 (drop 24 (fm_unfragmentable_prefix m))) = fm_destination m
   \<and> (fm_previous_next_header_offset m = 6 \<or> 40 \<le> fm_previous_next_header_offset m)"
proof (induction n arbitrary: nh prev off)
  case (Suc n)
  from Suc.prems(1) show ?case
  proof (cases rule: fragment_walk_SomeE)
    case header
    then show ?thesis
      using Suc.prems(2,3) by (auto dest!: fragment_header_SomeD simp: drop_take min.absorb1)
  next
    case (step hl)
    then show ?thesis
      using Suc.IH [OF step(2)] Suc.prems(2) by simp
  qed
qed simp

lemma parse_addresses:
  assumes "parse_ipv6_fragment_metadata bytes = Inr (Some m)"
  shows "from_be128 (take 16 (drop 8 (fm_unfragmentable_prefix m))) = fm_source m"
    "from_be128 (take 16 (drop 24 (fm_unfragmentable_prefix m))) = fm_destination m"
    "fm_previous_next_header_offset m = 6 \<or> 40 \<le> fm_previous_next_header_offset m"
proof -
  have "fragment_walk 16 (take (40 + unat (be16_at bytes 4)) bytes) (bytes ! 6) 6 40 = Inr (Some m)"
    using assms by (auto simp: parse_ipv6_fragment_metadata_def checked_add_def split: if_splits option.splits)
  from fragment_walk_addresses [OF this]
  show "from_be128 (take 16 (drop 8 (fm_unfragmentable_prefix m))) = fm_source m"
    "from_be128 (take 16 (drop 24 (fm_unfragmentable_prefix m))) = fm_destination m"
    "fm_previous_next_header_offset m = 6 \<or> 40 \<le> fm_previous_next_header_offset m"
    by simp_all
qed

lemma assembled_head:
  assumes "40 \<le> length (fa_unfragmentable_prefix a)" "fa_previous_next_header_offset a = 6 \<or> 40 \<le> fa_previous_next_header_offset a"
  shows "\<exists>h. assembled a = h @ concat (map fp_payload (sort_key fp_start (fa_pieces a))) \<and> length h = length (fa_unfragmentable_prefix a)
    \<and> (\<forall>i. 8 \<le> i \<longrightarrow> i < 40 \<longrightarrow> h ! i = fa_unfragmentable_prefix a ! i)"
  using assms unfolding assembled_def Let_def append_same_eq by (auto simp: nth_put_at)

lemma made_from_assembled:
  assumes ok: "assembly_ok a" and complete: "assembly_complete a = Some tot" and src: "assembly_from seen key a"
  shows "made_from seen (assembled a)"
proof -
  let ?ps = "sort_key fp_start (fa_pieces a)" and ?pre = "fa_unfragmentable_prefix a" and ?pl = "fa_previous_next_header_offset a"
  have "\<forall>p \<in> set ?ps. \<exists>m. received_fragment seen key m \<and> fp_start p = fm_fragment_offset m \<and> fp_payload p = fm_payload m"
    using src by (simp add: assembly_from_def)
  then obtain f where f: "\<And>p. p \<in> set ?ps \<Longrightarrow> received_fragment seen key (f p) \<and> fp_start p = fm_fragment_offset (f p) \<and> fp_payload p = fm_payload (f p)"
    by metis
  have wf: "\<forall>p \<in> set ?ps. piece_wf p" and pre: "40 \<le> length ?pre"
    using ok by (auto simp: assembly_ok_def)
  have "covered_bytes 0 (map piece_range ?ps) = Some tot"
    using complete by (auto simp: assembly_complete_alt split: option.splits if_splits)
  note tile = covered_bytes_tile [OF wf this]
  let ?ms = "map f ?ps"
  have payloads: "map fm_payload (map f qs) = map fp_payload qs" if "set qs \<subseteq> set ?ps" for qs
    using f that by auto
  have offs: "fm_fragment_offset (?ms ! i) = length (concat (map fm_payload (take i ?ms)))" if "i < length ?ms" for i
  proof -
    have i: "i < length ?ps"
      using that by simp
    have "fp_start (?ps ! i) = length (concat (map fp_payload (take i ?ps)))"
      using tile id_take_nth_drop [OF i] by auto
    moreover have "map fm_payload (take i ?ms) = map fp_payload (take i ?ps)"
      using payloads [of "take i ?ps"] set_take_subset [of i ?ps] by (simp only: take_map)
    ultimately show ?thesis
      using f [OF nth_mem [OF i]] i by simp
  qed
  obtain m where m: "received_fragment seen key m" "?pre = fm_unfragmentable_prefix m" "?pl = fm_previous_next_header_offset m"
    using src by (auto simp: assembly_from_def)
  have "?pl = 6 \<or> 40 \<le> ?pl"
    using m parse_addresses(3) by (auto simp: received_fragment_def)
  then obtain h where head: "assembled a = h @ concat (map fp_payload ?ps)" "length h = length ?pre"
    and at: "\<And>i. 8 \<le> i \<Longrightarrow> i < 40 \<Longrightarrow> h ! i = ?pre ! i"
    using assembled_head [OF pre] by metis
  have "take 16 (drop 8 (assembled a)) = take 16 (drop 8 ?pre)" "take 16 (drop 24 (assembled a)) = take 16 (drop 24 ?pre)"
    using pre head at by (auto intro!: nth_equalityI simp: nth_append)
  then have ends: "from_be128 (take 16 (drop 8 (assembled a))) = fk_source key" "from_be128 (take 16 (drop 24 (assembled a))) = fk_destination key"
    using m parse_addresses(1,2) by (auto simp: received_fragment_def metadata_key_def)
  have body: "drop (length ?pre) (assembled a) = concat (map fm_payload ?ms)" "length ?pre \<le> length (assembled a)"
    using payloads [of ?ps] head by (simp_all del: map_map map_eq_conv)
  have "\<forall>m \<in> set ?ms. received_fragment seen key m"
    using f by auto
  with offs ends body show ?thesis
    unfolding made_from_def by (intro exI [of _ key] exI [of _ ?ms] exI [of _ "length ?pre"] conjI allI impI) assumption+
qed

lemma push_piece_from:
  assumes src: "table_from seen r" and ok: "reassembler_ok r" and m: "metadata_ok m" "fe = fm_fragment_offset m + length (fm_payload m)"
    "length (fm_unfragmentable_prefix m) + fe \<le> IPV6_FRAGMENT_MAX_PACKET" and rec: "received_fragment seen key m"
    and run: "push_piece r key m fe = Some (r1, res)"
  shows "table_from seen r1 \<and> (\<forall>p. res = Inr (Some p) \<longrightarrow> made_from seen p)"
proof (cases "saturating_add (ra_buffered_bytes r) (length (fm_payload m)) > IPV6_FRAGMENT_MAX_TOTAL_BYTES")
  case True
  then have "r1 = fst (remove_assembly r key)" "res = Inr None"
    using run by (simp_all add: push_piece_def drop_assembly_def)
  then show ?thesis
    using table_from_sub [OF src remove_assembly_sub] by simp
next
  case room: False
  show ?thesis
  proof (cases "map_of (ra_assemblies r) key")
    case None
    then show ?thesis
      using run room src by (auto simp: push_piece_def)
  next
    case (Some a)
    have a: "assembly_ok a" "assembly_from seen key a"
      using Some ok src by (auto simp: reassembler_ok_def table_from_def dest: map_of_SomeD)
    show ?thesis
    proof (cases "fragment_rejected a m fe")
      case True
      then have "r1 = fst (remove_assembly r key)" "res = Inr None"
        using run room Some by (simp_all add: push_piece_def drop_assembly_def)
      then show ?thesis
        using table_from_sub [OF src remove_assembly_sub] by simp
    next
      case False
      let ?a = "add_piece a m fe"
      let ?r = "r\<lparr>ra_assemblies := AList.update key ?a (ra_assemblies r),
        ra_buffered_bytes := saturating_add (ra_buffered_bytes r) (length (fm_payload m))\<rparr>"
      have a1: "assembly_ok ?a" "assembly_from seen key ?a"
        using add_piece_ok [OF a(1) False m] assembly_from_add [OF a(2) rec] by auto
      have r: "table_from seen ?r"
        by (rule table_from_update [OF src a1(2)])
      show ?thesis
      proof (cases "assembly_complete ?a")
        case None
        then show ?thesis
          using run room Some False r by (auto simp: push_piece_def Let_def)
      next
        case (Some tot)
        have "remove_assembly ?r key = (fst (remove_assembly ?r key), Some ?a)"
          by (simp add: remove_assembly_def)
        then have "r1 = fst (remove_assembly ?r key)" "res = Inr (Some (assembled ?a))"
          using run room \<open>map_of (ra_assemblies r) key = Some a\<close> False Some assembly_finish_ok [OF a1(1) Some]
          by (auto simp: push_piece_def Let_def split: prod.splits)
        then show ?thesis
          using table_from_sub [OF r remove_assembly_sub] made_from_assembled [OF a1(1) Some a1(2)] by simp
      qed
    qed
  qed
qed

lemma push_fragment_from:
  assumes src: "table_from seen r" and ok: "reassembler_ok r" and m: "metadata_ok m" and rec: "received_fragment seen (metadata_key m) m"
    and run: "push_fragment r m now = Some (r1, res)"
  shows "table_from seen r1 \<and> (\<forall>p. res = Inr (Some p) \<longrightarrow> made_from seen p)"
proof (cases rule: push_fragment_cases [OF ok m, of now, case_names ignored piece])
  case (ignored res')
  then show ?thesis
    using src run by auto
next
  case (piece r0)
  have "table_from seen (open_assembly r m now)"
    unfolding open_assembly_def by (rule table_from_update [OF src assembly_from_new [OF rec]])
  then have "table_from seen r0"
    using piece(1) src by metis
  from push_piece_from [OF this piece(2) m refl piece(4) rec] run piece(3) show ?thesis
    by simp
qed

lemma reassembler_push_from:
  assumes src: "table_from seen r" and ok: "reassembler_ok r" and run: "reassembler_push r bytes now = Some (r1, res)"
  shows "table_from (seen @ [bytes]) r1
    \<and> (\<forall>p. res = Inr (Some p) \<longrightarrow> p = bytes \<and> parse_ipv6_fragment_metadata bytes = Inr None \<or> made_from (seen @ [bytes]) p)"
proof -
  let ?r = "reassembler_expire r now" and ?seen = "seen @ [bytes]"
  have r: "table_from ?seen ?r" "reassembler_ok ?r"
    using table_from_mono [OF table_from_sub [OF src expire_sub, of now], of ?seen] reassembler_expire_ok [OF ok] by auto
  consider e where "parse_ipv6_fragment_metadata bytes = Inl e" | "parse_ipv6_fragment_metadata bytes = Inr None"
    | m where "parse_ipv6_fragment_metadata bytes = Inr (Some m)"
    by (metis option.exhaust sum.exhaust)
  then show ?thesis
  proof cases
    case (3 m)
    have "received_fragment ?seen (metadata_key m) m"
      using 3 by (auto simp: received_fragment_def)
    from push_fragment_from [OF r parse_metadata_ok [OF 3] this] run 3 show ?thesis
      by (auto simp: reassembler_push_def Let_def)
  qed (use run r in \<open>auto simp: reassembler_push_def Let_def\<close>)
qed

lemma push_all_from:
  assumes "table_from seen r" "reassembler_ok r" "push_all r inputs = Some (r1, outs)" "i < length outs" "outs ! i = Inr (Some p)"
  shows "p = fst (inputs ! i) \<and> parse_ipv6_fragment_metadata p = Inr None \<or> made_from (seen @ map fst (take (Suc i) inputs)) p"
  using assms
proof (induction inputs arbitrary: seen r outs i)
  case (Cons x inputs)
  obtain bytes now where x: "x = (bytes, now)"
    by fastforce
  obtain r' res outs' where step: "reassembler_push r bytes now = Some (r', res)" "push_all r' inputs = Some (r1, outs')" "outs = res # outs'"
    using Cons.prems(3) x by (auto split: option.splits prod.splits)
  note here = reassembler_push_from [OF Cons.prems(1,2) step(1)]
  have ok: "reassembler_ok r'"
    using reassembler_push_ok [OF Cons.prems(2), of bytes now] step(1) by auto
  show ?case
  proof (cases i)
    case 0
    then show ?thesis
      using here Cons.prems(5) step(3) x by auto
  next
    case (Suc j)
    then show ?thesis
      using Cons.IH [OF conjunct1 [OF here] ok step(2), of j] Cons.prems(4,5) step(3) x by simp
  qed
qed simp



definition example_inputs :: "(byte list \<times> nat) list" where
  "example_inputs =
     [([0x60, 0, 0, 0, 0, 9, 44, 64] @ replicate 32 1 @ [17, 0, 0, 8, 0, 0, 0, 7, 9], 3),
      ([0x60, 0, 0, 0, 0, 16, 44, 64] @ replicate 32 1 @ [17, 0, 0, 1, 0, 0, 0, 7, 1, 2, 3, 4, 5, 6, 7, 8], 5)]"

definition example_output :: "byte list" where
  "example_output = [0x60, 0, 0, 0, 0, 9, 17, 64] @ replicate 32 1 @ [1, 2, 3, 4, 5, 6, 7, 8, 9]"

lemma example_run: "push_all reassembler_default example_inputs = Some (reassembler_default, [Inr None, Inr (Some example_output)])"
  by code_simp


end
