(* ===== verification/Wire.thy ===== *)
theory Wire
  imports Types
begin

text \<open>
  What the wire formats of the proxy protocols share (\<open>protocol/src\<close>): reading from a packet with a
  cursor and from a stream, UTF-8 validation, comparison of secrets without branches, and the
  interface of a codec of endpoints with what its clients conclude from it.

  A stream is the list of bytes that are still to be read; a read past its end is the error of
  \<open>read_exact\<close>. A conversation is the record of both directions of a stream: what the peer has sent
  and what was written so far. Writes succeed.
\<close>

subsection \<open>Packets and streams\<close>

text \<open>
  \<open>take\<close>, which several protocols define with their own messages: the next bytes of a packet, with
  the cursor behind them; sizes are those of a 64-bit machine.
\<close>

definition take_at :: "string \<Rightarrow> string \<Rightarrow> byte list \<Rightarrow> nat \<Rightarrow> nat \<Rightarrow> (byte list \<times> nat) result" where
  "take_at overflow truncated packet cursor len =
     (if cursor + len \<ge> 2 ^ 64 then Inl (error_new Protocol overflow)
      else if cursor + len > length packet then Inl (error_new Protocol truncated)
      else Inr (List.take len (List.drop cursor packet), cursor + len))"

definition eof_error :: error where
  "eof_error = error_new Io ''early eof''"

definition read_exact :: "nat \<Rightarrow> byte list \<Rightarrow> (byte list \<times> byte list) result" where
  "read_exact n input = (if length input < n then Inl eof_error else Inr (List.take n input, List.drop n input))"

definition read_u8 :: "byte list \<Rightarrow> (byte \<times> byte list) result" where
  "read_u8 input = rbind (read_exact 1 input) (\<lambda>(bs, rest). Inr (hd bs, rest))"

definition read_u16 :: "byte list \<Rightarrow> (u16 \<times> byte list) result" where
  "read_u16 input = rbind (read_exact 2 input) (\<lambda>(bs, rest). Inr (from_be16 bs, rest))"

text \<open>
  \<open>left_at packet c xs\<close> says that \<open>xs\<close> is what is left of the packet at the cursor; packets
  are shorter than the address space.
\<close>

definition left_at :: "byte list \<Rightarrow> nat \<Rightarrow> byte list \<Rightarrow> bool" where
  "left_at packet c xs \<longleftrightarrow> c \<le> length packet \<and> length packet < 2 ^ 64 \<and> List.drop c packet = xs"

lemma take_left:
  assumes "left_at packet c (xs @ ys)" "len = length xs"
  shows "take_at overflow truncated packet c len = Inr (xs, c + len)" "left_at packet (c + len) ys"
proof -
  have drop: "List.drop c packet = xs @ ys" and small: "length packet < 2 ^ 64" "c \<le> length packet"
    using assms(1) by (simp_all add: left_at_def)
  have "length packet - c = length xs + length ys"
    using arg_cong [OF drop, of length] by simp
  moreover have "List.drop (c + len) packet = ys"
    using arg_cong [OF drop, of "List.drop len"] assms(2) by (simp add: add.commute)
  ultimately show "take_at overflow truncated packet c len = Inr (xs, c + len)" "left_at packet (c + len) ys"
    using small assms(2) by (auto simp: take_at_def drop left_at_def)
qed

lemma left_at_start: "length packet < 2 ^ 64 \<Longrightarrow> left_at packet 0 packet"
  by (simp add: left_at_def)

lemma left_at_rest: "left_at packet c xs \<Longrightarrow> List.drop c packet = xs"
  by (simp add: left_at_def)

lemma read_exact_append [simp]: "n = length xs \<Longrightarrow> read_exact n (xs @ rest) = Inr (xs, rest)"
  by (simp add: read_exact_def)

lemma read_exact_part: "n \<le> length xs \<Longrightarrow> read_exact n (xs @ rest) = Inr (List.take n xs, List.drop n xs @ rest)"
  by (simp add: read_exact_def)

lemma read_u8_Cons [simp]: "read_u8 (b # rest) = Inr (b, rest)"
  by (simp add: read_u8_def read_exact_def)

lemma read_u16_append [simp]: "read_u16 (to_be16 w @ rest) = Inr (w, rest)"
  by (simp add: read_u16_def)

lemma unat_small_byte: "n \<le> 255 \<Longrightarrow> unat (of_nat n :: byte) = n"
  by (simp add: unat_of_nat)

lemma unat_small16: "n \<le> 65535 \<Longrightarrow> unat (of_nat n :: u16) = n"
  by (simp add: unat_of_nat)

lemma take_at_bound:
  "take_at overflow truncated packet cursor len = Inr (xs, c) \<Longrightarrow> length xs = len \<and> c = cursor + len \<and> c \<le> length packet"
  by (auto simp: take_at_def split: if_splits)

subsection \<open>Requests of inbound UDP\<close>

record inbound_udp_flow_id =
  uf_peer :: socket_addr
  uf_target :: endpoint
  uf_authentication :: "byte list option"

text \<open>A request and a response have the same fields.\<close>

record inbound_udp_request =
  ur_id :: inbound_udp_flow_id
  ur_peer :: endpoint
  ur_target :: endpoint
  ur_payload :: "byte list"

subsection \<open>Conversations\<close>

text \<open>
  A program that reads from and writes to one stream, as a function of all the bytes its peer sends:
  it gives the bytes it writes and how it ends, with the input it has not read.
\<close>

type_synonym 'a talk = "byte list \<Rightarrow> byte list \<times> ('a \<times> byte list) result"

definition talk_return :: "'a \<Rightarrow> 'a talk" where
  "talk_return x = (\<lambda>input. ([], Inr (x, input)))"

definition talk_fail :: "error \<Rightarrow> 'a talk" where
  "talk_fail e = (\<lambda>input. ([], Inl e))"

definition talk_write :: "byte list \<Rightarrow> unit talk" where
  "talk_write bs = (\<lambda>input. (bs, Inr ((), input)))"

definition talk_read :: "nat \<Rightarrow> byte list talk" where
  "talk_read n = (\<lambda>input. ([], read_exact n input))"

definition talk_lift :: "'a result \<Rightarrow> 'a talk" where
  "talk_lift r = (\<lambda>input. ([], rbind r (\<lambda>x. Inr (x, input))))"

definition talk_bind :: "'a talk \<Rightarrow> ('a \<Rightarrow> 'b talk) \<Rightarrow> 'b talk" where
  "talk_bind m f = (\<lambda>input.
     case m input of
       (out, Inl e) \<Rightarrow> (out, Inl e)
     | (out, Inr (x, rest)) \<Rightarrow> (case f x rest of (out', r) \<Rightarrow> (out @ out', r)))"

named_theorems talk_simps "running a conversation"

lemma talk_bind_simps [talk_simps]:
  "talk_bind (talk_return x) f input = f x input"
  "talk_bind (talk_fail e) f input = ([], Inl e)"
  "talk_bind (talk_write bs) g input = (bs @ fst (g () input), snd (g () input))"
  "n = length xs \<Longrightarrow> talk_bind (talk_read n) h (xs @ rest) = h xs rest"
  "talk_bind (talk_lift (Inr x)) f input = f x input"
  "talk_bind (talk_lift (Inl e)) f input = ([], Inl e)"
  by (simp_all add: talk_bind_def talk_return_def talk_fail_def talk_write_def talk_read_def talk_lift_def split: prod.split)

lemma talk_bind_read [talk_simps]: "n \<le> length input \<Longrightarrow> talk_bind (talk_read n) f input = f (List.take n input) (List.drop n input)"
  by (simp add: talk_bind_def talk_read_def read_exact_def split: prod.split)

lemma talk_bind_run:
  "m input = (out, Inr (x, rest)) \<Longrightarrow> talk_bind m f input = (out @ fst (f x rest), snd (f x rest))"
  "m input = (out, Inl e) \<Longrightarrow> talk_bind m f input = (out, Inl e)"
  by (simp_all add: talk_bind_def split: prod.split)

lemma talk_end [talk_simps]:
  "talk_return x input = ([], Inr (x, input))" "talk_fail e input = ([], Inl e)" "talk_write bs input = (bs, Inr ((), input))"
  by (simp_all add: talk_return_def talk_fail_def talk_write_def)

lemma talk_bind_assoc: "talk_bind (talk_bind m f) g = talk_bind m (\<lambda>x. talk_bind (f x) g)"
  by (auto simp: talk_bind_def fun_eq_iff split: prod.splits sum.splits)

subsection \<open>UTF-8\<close>

definition utf8_continuation :: "byte \<Rightarrow> bool" where
  "utf8_continuation b \<longleftrightarrow> 0x80 \<le> b \<and> b \<le> 0xBF"

text \<open>The validation of \<open>std::str::from_utf8\<close>.\<close>

fun utf8_valid :: "byte list \<Rightarrow> bool" where
  "utf8_valid [] = True"
| "utf8_valid (a # bs) =
     (if a < 0x80 then utf8_valid bs
      else if 0xC2 \<le> a \<and> a \<le> 0xDF then
        (case bs of b # cs \<Rightarrow> utf8_continuation b \<and> utf8_valid cs | _ \<Rightarrow> False)
      else if 0xE0 \<le> a \<and> a \<le> 0xEF then
        (case bs of
           b # c # cs \<Rightarrow>
             (if a = 0xE0 then 0xA0 \<le> b \<and> b \<le> 0xBF else if a = 0xED then 0x80 \<le> b \<and> b \<le> 0x9F else utf8_continuation b)
             \<and> utf8_continuation c \<and> utf8_valid cs
         | _ \<Rightarrow> False)
      else if 0xF0 \<le> a \<and> a \<le> 0xF4 then
        (case bs of
           b # c # d # cs \<Rightarrow>
             (if a = 0xF0 then 0x90 \<le> b \<and> b \<le> 0xBF else if a = 0xF4 then 0x80 \<le> b \<and> b \<le> 0x8F else utf8_continuation b)
             \<and> utf8_continuation c \<and> utf8_continuation d \<and> utf8_valid cs
         | _ \<Rightarrow> False)
      else False)"

definition from_utf8 :: "byte list \<Rightarrow> string option" where
  "from_utf8 bs = (if utf8_valid bs then Some (from_bytes bs) else None)"

lemma utf8_valid_ascii: "list_all (\<lambda>b. b < 0x80) bs \<Longrightarrow> utf8_valid bs"
  by (induction bs) auto

lemma plain_ascii: "plain_char c \<Longrightarrow> (of_nat (of_char c) :: byte) < 0x80"
  by (simp add: plain_char_def word_less_nat_alt unat_of_nat)

lemma valid_domain_utf8: "valid_domain d \<Longrightarrow> from_utf8 (as_bytes d) = Some d"
proof -
  assume v: "valid_domain d"
  have "plain_char c" if "c \<in> set d" for c
    using valid_domain_chars [OF v that] label_char_plain by (auto simp: plain_char_def)
  then have "list_all (\<lambda>b. b < 0x80) (as_bytes d)"
    by (auto simp: as_bytes_def list_all_iff plain_ascii)
  then show ?thesis
    by (simp add: from_utf8_def utf8_valid_ascii)
qed

subsection \<open>Secrets\<close>

text \<open>The comparison that looks at every byte, and the choice among candidates by masks.\<close>

unbundle bit_operations_syntax

definition constant_time_eq :: "byte list \<Rightarrow> byte list \<Rightarrow> bool" where
  "constant_time_eq left right =
     (length left = length right
      \<and> foldl (\<lambda>difference (a, b). difference OR (a XOR b)) 0 (zip left right) = 0)"

definition select_byte :: "byte \<Rightarrow> byte \<Rightarrow> byte \<Rightarrow> byte" where
  "select_byte m selected candidate = (selected AND NOT m) OR (candidate AND m)"

fun select_loop :: "byte list \<Rightarrow> byte list list \<Rightarrow> byte list \<Rightarrow> byte \<Rightarrow> byte list \<times> byte" where
  "select_loop expected [] selected found = (selected, found)"
| "select_loop expected (candidate # candidates) selected found =
     (let matched = (of_bool (constant_time_eq expected candidate) :: byte)
      in select_loop expected candidates (map2 (select_byte (0 - matched)) selected candidate) (found OR matched))"

lemma fold_difference:
  "foldl (\<lambda>difference (a, b). difference OR (a XOR b)) d (zip l r) = (0 :: byte)
     \<longleftrightarrow> d = 0 \<and> (\<forall>(a, b) \<in> set (zip l r). a = b)"
proof (induction l r arbitrary: d rule: list_induct2')
  case (4 x xs y ys)
  have "x = (x XOR y) XOR y"
    by (simp add: xor.assoc)
  then have "x XOR y = 0 \<longleftrightarrow> x = y"
    by auto
  with 4 show ?case
    by (auto simp: or_eq_0_iff)
qed auto

lemma constant_time_eq_iff [simp]: "constant_time_eq l r \<longleftrightarrow> l = r"
proof -
  have "(\<forall>(a, b) \<in> set (zip l r). a = b) \<longleftrightarrow> l = r" if "length l = length r"
    using that by (induction l r rule: list_induct2) auto
  then show ?thesis
    by (auto simp: constant_time_eq_def fold_difference)
qed

lemma select_none: "length xs = length ys \<Longrightarrow> map2 (select_byte 0) xs ys = xs"
  by (induction xs ys rule: list_induct2) (auto simp: select_byte_def)

lemma select_all: "length xs = length ys \<Longrightarrow> map2 (select_byte (- 1)) xs ys = ys"
  by (induction xs ys rule: list_induct2) (auto simp: select_byte_def)

text \<open>The loop picks the secret that was sent when it is a candidate.\<close>

lemma select_loop_spec:
  assumes "list_all (\<lambda>c. length c = n) cs" "length selected = n" "P \<Longrightarrow> selected = expected"
  shows "\<exists>s. select_loop expected cs selected (of_bool P) = (s, of_bool (P \<or> expected \<in> set cs))
    \<and> (P \<or> expected \<in> set cs \<longrightarrow> s = expected)"
  using assms
proof (induction cs arbitrary: selected P)
  case (Cons c cs)
  show ?case
  proof (cases "expected = c")
    case True
    have one: "(of_bool P OR 1 :: byte) = of_bool True"
      by (cases P) simp_all
    have step: "select_loop expected (c # cs) selected (of_bool P) = select_loop expected cs c (of_bool True)"
      using True Cons.prems(1,2) one by (simp add: select_all)
    obtain s where "select_loop expected cs c (of_bool True) = (s, of_bool True)" "s = expected"
      using Cons.IH [of c True, OF _ _ True [symmetric]] Cons.prems(1) by auto
    then show ?thesis
      unfolding step using True by (intro exI [of _ s] conjI) simp_all
  next
    case False
    then have "select_loop expected (c # cs) selected (of_bool P) = select_loop expected cs selected (of_bool P)"
      using Cons.prems(1,2) by (simp add: select_none)
    moreover have "\<exists>s. select_loop expected cs selected (of_bool P) = (s, of_bool (P \<or> expected \<in> set cs))
        \<and> (P \<or> expected \<in> set cs \<longrightarrow> s = expected)"
      using Cons.prems by (intro Cons.IH) simp_all
    ultimately show ?thesis
      using False by simp
  qed
qed auto

subsection \<open>Endpoints on the wire\<close>

text \<open>
  The endpoints a protocol can carry: canonical names, and addresses without the flow label and
  scope of an IPv6 socket, which no protocol transmits. The network is not transmitted either.
\<close>

fun wire_endpoint :: "endpoint \<Rightarrow> bool" where
  "wire_endpoint (EIp _ (SockV4 _ _)) = True"
| "wire_endpoint (EIp _ (SockV6 _ _ flow scope)) = (flow = 0 \<and> scope = 0)"
| "wire_endpoint (EDomain _ host _) = valid_domain host"

fun with_network :: "network \<Rightarrow> endpoint \<Rightarrow> endpoint" where
  "with_network n (EIp _ a) = EIp n a"
| "with_network n (EDomain _ h p) = EDomain n h p"

lemma with_network_same [simp]: "with_network (endpoint_network e) e = e"
  by (cases e) auto

lemma with_network_simps [simp]:
  "endpoint_network (with_network n e) = n" "with_network n (with_network m e) = with_network n e"
  "wire_endpoint (with_network n e) = wire_endpoint e"
  by (cases e; (cases "the (endpoint_addr e)")?; simp)+

locale endpoint_codec =
  fixes enc :: "endpoint \<Rightarrow> byte list result"
    and dec :: "byte list \<Rightarrow> nat \<Rightarrow> network \<Rightarrow> (endpoint \<times> nat) result"
  assumes enc_total: "wire_endpoint e \<Longrightarrow> \<exists>bs. enc e = Inr bs \<and> length bs \<le> 260"
    and dec_enc: "wire_endpoint e \<Longrightarrow> enc e = Inr bs \<Longrightarrow> left_at packet c (bs @ rest) \<Longrightarrow>
      dec packet c n = Inr (with_network n e, c + length bs) \<and> left_at packet (c + length bs) rest"
    and dec_wire: "dec packet c n = Inr (e, c') \<Longrightarrow> wire_endpoint e \<and> endpoint_network e = n \<and> c \<le> c' \<and> c' \<le> length packet"
begin

text \<open>No encoding is the beginning of another one, so endpoints can be sent without a length.\<close>

lemma enc_prefix_free:
  assumes "wire_endpoint e" "wire_endpoint f" "enc e = Inr bs" "enc f = Inr cs" "bs @ xs = cs @ ys" "length (bs @ xs) < 2 ^ 64"
  shows "with_network n e = with_network n f \<and> bs = cs \<and> xs = ys"
  using dec_enc [OF assms(1,3) left_at_start [OF assms(6)], of n] dec_enc [OF assms(2,4) left_at_start [of "cs @ ys"], of n] assms(5,6)
  by (auto simp: append_eq_append_conv)

lemma dec_enc_0:
  "wire_endpoint e \<Longrightarrow> enc e = Inr bs \<Longrightarrow> length (bs @ rest) < 2 ^ 64 \<Longrightarrow> dec (bs @ rest) 0 n = Inr (with_network n e, length bs)"
  using dec_enc [OF _ _ left_at_start] by simp

end

text \<open>
  Messages on a stream: what is written for a message is read back, whatever follows it. Reading
  many messages one after the other then gives back what was written, in order, and leaves the
  stream behind the last of them.
\<close>

fun write_many :: "('a \<Rightarrow> byte list result) \<Rightarrow> 'a list \<Rightarrow> byte list result" where
  "write_many enc [] = Inr []"
| "write_many enc (x # xs) = rbind (enc x) (\<lambda>bs. rbind (write_many enc xs) (\<lambda>cs. Inr (bs @ cs)))"

fun read_many :: "(byte list \<Rightarrow> ('b \<times> byte list) result) \<Rightarrow> nat \<Rightarrow> byte list \<Rightarrow> ('b list \<times> byte list) result" where
  "read_many rd 0 input = Inr ([], input)"
| "read_many rd (Suc n) input =
     rbind (rd input) (\<lambda>(x, rest). rbind (read_many rd n rest) (\<lambda>(xs, rest'). Inr (x # xs, rest')))"

locale message_stream =
  fixes wr :: "'a \<Rightarrow> byte list result" and rd :: "byte list \<Rightarrow> ('b \<times> byte list) result"
    and good :: "'a \<Rightarrow> bool" and view :: "'a \<Rightarrow> 'b"
  assumes rd_wr: "good x \<Longrightarrow> \<exists>bs. wr x = Inr bs \<and> (\<forall>rest. rd (bs @ rest) = Inr (view x, rest))"
begin

lemma read_many_written:
  "list_all good xs \<Longrightarrow> \<exists>bs. write_many wr xs = Inr bs \<and> (\<forall>rest. read_many rd (length xs) (bs @ rest) = Inr (map view xs, rest))"
proof (induction xs)
  case (Cons x xs)
  obtain bs where bs: "wr x = Inr bs" "\<And>rest. rd (bs @ rest) = Inr (view x, rest)"
    using rd_wr [of x] Cons.prems by auto
  obtain cs where "write_many wr xs = Inr cs" "\<And>rest. read_many rd (length xs) (cs @ rest) = Inr (map view xs, rest)"
    using Cons by auto
  with bs show ?case
    by simp
qed simp

text \<open>A reader that stops early has not lost its place.\<close>

lemma read_first_written:
  assumes "list_all good (xs @ ys)"
  shows "\<exists>bs cs. write_many wr (xs @ ys) = Inr (bs @ cs) \<and> write_many wr ys = Inr cs
    \<and> (\<forall>rest. read_many rd (length xs) (bs @ cs @ rest) = Inr (map view xs, cs @ rest))"
proof -
  obtain bs cs where bs: "write_many wr xs = Inr bs" "\<And>rest. read_many rd (length xs) (bs @ rest) = Inr (map view xs, rest)"
    and cs: "write_many wr ys = Inr cs"
    using read_many_written [of xs] read_many_written [of ys] assms by auto
  have "write_many wr xs = Inr bs \<Longrightarrow> write_many wr ys = Inr cs \<Longrightarrow> write_many wr (xs @ ys) = Inr (bs @ cs)" for xs bs
    by (induction xs arbitrary: bs) (auto simp: rbind_eq_Inr_iff)
  then show ?thesis
    using bs cs by blast
qed

end

end
