(* ===== verification/Socks5.thy ===== *)
theory Socks5
  imports Wire
begin

text \<open>
  SOCKS5, the server of \<open>protocol/src/servers/socks5.rs\<close> and the client of \<open>protocol/src/protocols/socks5.rs\<close>:
  addresses, the handshake from both sides as conversations, the UDP packets and the server that
  takes them from one client only. The check of credentials is an argument.
\<close>

subsection \<open>Addresses\<close>

datatype socks5_command = Connect | UdpAssociate

record socks5_request =
  sq_command :: socks5_command
  sq_destination :: endpoint

definition socks5_encode_endpoint :: "endpoint \<Rightarrow> byte list result" where
  "socks5_encode_endpoint target =
     (case target of
        EIp _ addr \<Rightarrow>
          (case sock_ip addr of
             V4 ip \<Rightarrow> Inr ([1] @ to_be32 ip @ to_be16 (sock_port addr))
           | V6 ip \<Rightarrow> Inr ([4] @ to_be128 ip @ to_be16 (sock_port addr)))
      | EDomain _ host port \<Rightarrow>
          if host = [] \<or> length host > 253 then Inl (error_new Protocol ''SOCKS5 domain is too long'')
          else Inr ([3, of_nat (length host)] @ as_bytes host @ to_be16 port))"

text \<open>The text of a UTF-8 error is that of the library, which the argument \<open>show_utf8\<close> gives.\<close>

definition socks5_domain :: "(byte list \<Rightarrow> string) \<Rightarrow> byte list \<Rightarrow> domain_name result" where
  "socks5_domain show_utf8 bs =
     (case from_utf8 bs of
        None \<Rightarrow> Inl (error_new Protocol (''SOCKS5 domain: '' @ show_utf8 bs))
      | Some text \<Rightarrow> domain_name_new text)"

definition parse_endpoint_bytes :: "(byte list \<Rightarrow> string) \<Rightarrow> byte list \<Rightarrow> network \<Rightarrow> (endpoint \<times> nat) result" where
  "parse_endpoint_bytes show_utf8 bytes network =
     (if bytes = [] then Inl (error_new Protocol ''SOCKS5 address is empty'')
      else if hd bytes = 1 then
        (if length bytes < 1 + 4 + 2 then Inl (error_new Protocol ''short SOCKS5 IPv4 address'')
         else Inr (EIp network (socket_addr_new (V4 (from_be32 (List.take 4 (List.drop 1 bytes)))) (from_be16 (List.take 2 (List.drop 5 bytes)))), 1 + 4 + 2))
      else if hd bytes = 4 then
        (if length bytes < 1 + 16 + 2 then Inl (error_new Protocol ''short SOCKS5 IPv6 address'')
         else Inr (EIp network (socket_addr_new (V6 (from_be128 (List.take 16 (List.drop 1 bytes)))) (from_be16 (List.take 2 (List.drop 17 bytes)))), 1 + 16 + 2))
      else if hd bytes = 3 then
        (if length bytes < 2 then Inl (error_new Protocol ''short SOCKS5 domain address'')
         else
           (let len = unat (bytes ! 1) in
            if len = 0 \<or> len > 253 \<or> length bytes < 2 + len + 2 then Inl (error_new Protocol ''invalid SOCKS5 domain address'')
            else rbind (socks5_domain show_utf8 (List.take len (List.drop 2 bytes))) (\<lambda>host.
              Inr (EDomain network host (from_be16 (List.take 2 (List.drop (2 + len) bytes))), 2 + len + 2))))
      else Inl (error_new Protocol ''unsupported SOCKS5 address type''))"

definition read_endpoint :: "(byte list \<Rightarrow> string) \<Rightarrow> network \<Rightarrow> byte \<Rightarrow> endpoint talk" where
  "read_endpoint show_utf8 network atyp =
     (if atyp = 1 then
        talk_bind (talk_read (4 + 2)) (\<lambda>address.
          talk_return (EIp network (socket_addr_new (V4 (from_be32 (List.take 4 address))) (from_be16 (List.drop 4 address)))))
      else if atyp = 4 then
        talk_bind (talk_read (16 + 2)) (\<lambda>address.
          talk_return (EIp network (socket_addr_new (V6 (from_be128 (List.take 16 address))) (from_be16 (List.drop 16 address)))))
      else if atyp = 3 then
        talk_bind (talk_read 1) (\<lambda>l.
          if hd l = 0 \<or> unat (hd l) > 253 then talk_fail (error_new Protocol ''invalid SOCKS5 domain length'')
          else
            talk_bind (talk_read (unat (hd l))) (\<lambda>host.
            talk_bind (talk_read 2) (\<lambda>port.
            talk_bind (talk_lift (socks5_domain show_utf8 host)) (\<lambda>domain.
              talk_return (EDomain network domain (from_be16 port))))))
      else talk_fail (error_new Protocol ''unsupported SOCKS5 address type''))"

subsection \<open>The server\<close>

definition socks5_reply :: "byte \<Rightarrow> byte list" where
  "socks5_reply c = [5, c, 0, 1, 0, 0, 0, 0, 0, 0]"

definition write_reply :: "byte \<Rightarrow> unit talk" where
  "write_reply c = talk_write (socks5_reply c)"

definition write_reply_endpoint :: "byte \<Rightarrow> socket_addr \<Rightarrow> unit talk" where
  "write_reply_endpoint c address =
     talk_bind (talk_lift (socks5_encode_endpoint (EIp Tcp address))) (\<lambda>bs. talk_write ([5, c, 0] @ bs))"

definition auth_exchange :: "(byte list \<Rightarrow> byte list \<Rightarrow> bool) \<Rightarrow> unit talk" where
  "auth_exchange authenticate =
     talk_bind (talk_read 2) (\<lambda>auth_head.
     if auth_head ! 0 \<noteq> 1 then talk_fail (error_new Protocol ''SOCKS5 auth version is not 1'')
     else
       talk_bind (talk_read (unat (auth_head ! 1))) (\<lambda>username.
       talk_bind (talk_read 1) (\<lambda>password_len.
       talk_bind (talk_read (unat (hd password_len))) (\<lambda>password.
       let ok = authenticate username password in
       talk_bind (talk_write [1, if ok then 0 else 1]) (\<lambda>_.
       if \<not> ok then talk_fail (error_new Protocol ''SOCKS5 authentication failed'') else talk_return ())))))"

definition socks5_read_request :: "(byte list \<Rightarrow> string) \<Rightarrow> network \<Rightarrow> socks5_request talk" where
  "socks5_read_request show_utf8 network =
     talk_bind (talk_read 4) (\<lambda>request.
     if request ! 0 \<noteq> 5 \<or> request ! 2 \<noteq> 0 then talk_fail (error_new Protocol ''invalid SOCKS5 request'')
     else
       talk_bind
         (if request ! 1 = 1 then talk_return Connect
          else if request ! 1 = 3 then talk_return UdpAssociate
          else talk_bind (write_reply 7) (\<lambda>_. talk_fail (error_new Unsupported ''SOCKS5 command is not supported''))) (\<lambda>command.
       talk_bind (read_endpoint show_utf8 network (request ! 3)) (\<lambda>destination.
         talk_return \<lparr>sq_command = command, sq_destination = destination\<rparr>)))"

definition server_handshake ::
  "(byte list \<Rightarrow> string) \<Rightarrow> network \<Rightarrow> bool \<Rightarrow> (byte list \<Rightarrow> byte list \<Rightarrow> bool) \<Rightarrow> socks5_request talk" where
  "server_handshake show_utf8 network requires_auth authenticate =
     talk_bind (talk_read 2) (\<lambda>greeting.
     if greeting ! 0 \<noteq> 5 then talk_fail (error_new Protocol ''SOCKS5 version is not 5'')
     else
       talk_bind (talk_read (unat (greeting ! 1))) (\<lambda>methods.
       let selected = (if requires_auth \<and> 2 \<in> set methods then 2 else if \<not> requires_auth \<and> 0 \<in> set methods then 0 else 255) in
       talk_bind (talk_write [5, selected]) (\<lambda>_.
       if selected = 255 then talk_fail (error_new Protocol ''SOCKS5 no acceptable method'')
       else
         talk_bind (if selected = 2 then auth_exchange authenticate else talk_return ()) (\<lambda>_.
         socks5_read_request show_utf8 network))))"

subsection \<open>The client\<close>

definition socks5_encode_address :: "endpoint \<Rightarrow> byte list result" where
  "socks5_encode_address e =
     (case e of
        EIp network addr \<Rightarrow>
          if network = Tcp then
            Inr ((case sock_ip addr of V4 a \<Rightarrow> 1 # to_be32 a | V6 a \<Rightarrow> 4 # to_be128 a) @ to_be16 (sock_port addr))
          else Inl (error_invalid ''SOCKS5 target must be a TCP endpoint'')
      | EDomain network host port \<Rightarrow>
          if network = Tcp then
            (if length host > 255 then Inl (error_invalid ''SOCKS5 domain is too long'')
             else Inr ([3, of_nat (length host)] @ as_bytes host @ to_be16 port))
          else Inl (error_invalid ''SOCKS5 target must be a TCP endpoint''))"

definition discard_address :: "byte \<Rightarrow> unit talk" where
  "discard_address atyp =
     talk_bind
       (if atyp = 1 then talk_return 4
        else if atyp = 4 then talk_return 16
        else if atyp = 3 then talk_bind (talk_read 1) (\<lambda>l. talk_return (unat (hd l)))
        else talk_fail (error_new Protocol ''SOCKS5 CONNECT response has an invalid address type'')) (\<lambda>len.
     talk_bind (talk_read (len + 2)) (\<lambda>_. talk_return ()))"

record socks5_proxy =
  sp_username :: string
  sp_password :: string
  sp_hostname :: string
  sp_override_port :: "u16 option"

definition socks5_proxy_new :: "string \<Rightarrow> string \<Rightarrow> string \<Rightarrow> int \<Rightarrow> socks5_proxy result" where
  "socks5_proxy_new username password hostname override_port =
     rbind (if override_port = 0 then Inr None
            else if 1 \<le> override_port \<and> override_port \<le> 65535 then Inr (Some (of_int override_port))
            else Inl (error_invalid ''SOCKS5 override_port is out of range'')) (\<lambda>port.
       Inr \<lparr>sp_username = username, sp_password = password, sp_hostname = hostname, sp_override_port = port\<rparr>)"

definition client_auth :: "socks5_proxy \<Rightarrow> byte \<Rightarrow> unit talk" where
  "client_auth proxy meth =
     (if meth = 0 then talk_return ()
      else if meth = 2 then
        talk_bind (talk_write ([1, of_nat (length (sp_username proxy))] @ as_bytes (sp_username proxy)
          @ [of_nat (length (sp_password proxy))] @ as_bytes (sp_password proxy))) (\<lambda>_.
        talk_bind (talk_read 2) (\<lambda>response.
          if response \<noteq> [1, 0] then talk_fail (error_new Protocol ''SOCKS5 authentication failed'') else talk_return ()))
      else if meth = 255 then talk_fail (error_new Protocol ''SOCKS5 no acceptable authentication method'')
      else talk_fail (error_new Protocol
        (''SOCKS5 authentication method '' @ show_nat (unat meth) @ '' is unsupported'')))"

definition client_handshake :: "socks5_proxy \<Rightarrow> endpoint \<Rightarrow> unit talk" where
  "client_handshake proxy destination =
     (if endpoint_network destination \<noteq> Tcp then talk_fail (error_invalid ''SOCKS5 CONNECT target must be a TCP endpoint'')
      else if length (sp_username proxy) > 255 \<or> length (sp_password proxy) > 255
        then talk_fail (error_invalid ''SOCKS5 credentials are too long'')
      else
        talk_bind (talk_write [5, 2, 0, 2]) (\<lambda>_.
        talk_bind (talk_read 2) (\<lambda>selected.
        if selected ! 0 \<noteq> 5 then talk_fail (error_new Protocol ''SOCKS5 server returned an invalid version'')
        else
          talk_bind (client_auth proxy (selected ! 1)) (\<lambda>_.
          talk_bind (talk_lift (socks5_encode_address destination)) (\<lambda>address.
          talk_bind (talk_write ([5, 1, 0] @ address)) (\<lambda>_.
          talk_bind (talk_read 4) (\<lambda>response.
          if response ! 0 \<noteq> 5 then talk_fail (error_new Protocol ''SOCKS5 CONNECT response has an invalid version'')
          else if response ! 1 \<noteq> 0
            then talk_fail (error_new Protocol (''SOCKS5 CONNECT failed with code '' @ show_nat (unat (response ! 1))))
          else discard_address (response ! 3))))))))"

subsection \<open>UDP packets\<close>

definition parse_udp_packet :: "(byte list \<Rightarrow> string) \<Rightarrow> byte list \<Rightarrow> (endpoint \<times> byte list) option result" where
  "parse_udp_packet show_utf8 packet =
     (if length packet < 4 \<or> packet ! 0 \<noteq> 0 \<or> packet ! 1 \<noteq> 0 then Inl (error_new Protocol ''invalid SOCKS5 UDP header'')
      else if packet ! 2 \<noteq> 0 then Inr None
      else rbind (parse_endpoint_bytes show_utf8 (List.drop 3 packet) Udp) (\<lambda>(target, offset).
        Inr (Some (target, List.drop (3 + offset) packet))))"

definition socks5_encode_udp_packet :: "endpoint \<Rightarrow> byte list \<Rightarrow> byte list result" where
  "socks5_encode_udp_packet target payload =
     rbind (socks5_encode_endpoint target) (\<lambda>bs. Inr ([0, 0, 0] @ bs @ payload))"

record socks5_udp_server =
  su_allowed_peer :: "ip_addr option"
  su_client :: "socket_addr option"

definition socks5_udp_server_new :: "ip_addr option \<Rightarrow> socks5_udp_server" where
  "socks5_udp_server_new allowed_peer = \<lparr>su_allowed_peer = allowed_peer, su_client = None\<rparr>"

text \<open>
  The loop of \<open>recv\<close> over the datagrams the socket delivers, each with its sender: it ends with a
  request, with an error, or with \<open>None\<close> while it waits for the next datagram.
\<close>

fun socks5_udp_recv ::
  "(byte list \<Rightarrow> string) \<Rightarrow> socks5_udp_server \<Rightarrow> (byte list \<times> socket_addr) list
    \<Rightarrow> socks5_udp_server \<times> (byte list \<times> socket_addr) list \<times> inbound_udp_request result option" where
  "socks5_udp_recv show_utf8 s [] = (s, [], None)"
| "socks5_udp_recv show_utf8 s ((packet, peer) # datagrams) =
     (if (case su_allowed_peer s of None \<Rightarrow> False | Some allowed \<Rightarrow> allowed \<noteq> sock_ip peer)
      then socks5_udp_recv show_utf8 s datagrams
      else
        (case parse_udp_packet show_utf8 packet of
           Inl e \<Rightarrow> (s, datagrams, Some (Inl e))
         | Inr None \<Rightarrow> socks5_udp_recv show_utf8 s datagrams
         | Inr (Some (target, payload)) \<Rightarrow>
             (if (case su_client s of None \<Rightarrow> False | Some expected \<Rightarrow> expected \<noteq> peer)
              then socks5_udp_recv show_utf8 s datagrams
              else
                (s\<lparr>su_client := Some peer\<rparr>, datagrams,
                 Some (Inr \<lparr>ur_id = \<lparr>uf_peer = peer, uf_target = target, uf_authentication = None\<rparr>,
                            ur_peer = EIp Udp peer, ur_target = target, ur_payload = payload\<rparr>)))))"

definition socks5_udp_send :: "inbound_udp_request \<Rightarrow> (byte list \<times> socket_addr) result" where
  "socks5_udp_send response =
     (case endpoint_addr (ur_peer response) of
        None \<Rightarrow> Inl (error_invalid ''SOCKS5 UDP peer has no IP address'')
      | Some peer \<Rightarrow>
          rbind (socks5_encode_udp_packet (ur_target response) (ur_payload response)) (\<lambda>packet. Inr (packet, peer)))"

subsection \<open>Reading addresses back\<close>

lemma small_byte_0: "n \<le> 255 \<Longrightarrow> (of_nat n :: byte) = 0 \<longleftrightarrow> n = 0"
  unfolding unat_eq_0 [symmetric] by (simp only: unat_small_byte)

lemma socks5_domain_ok: "valid_domain d \<Longrightarrow> socks5_domain show_utf8 (as_bytes d) = Inr d"
  by (simp add: socks5_domain_def valid_domain_utf8 domain_name_new_of_valid)

lemma parse_encoded_endpoint:
  assumes "wire_endpoint e" "socks5_encode_endpoint e = Inr bs"
  shows "parse_endpoint_bytes show_utf8 (bs @ rest) n = Inr (with_network n e, length bs)"
proof (cases e)
  case (EIp m addr)
  then show ?thesis
    using assms by (cases addr) (auto simp: socks5_encode_endpoint_def parse_endpoint_bytes_def socket_addr_new_def)
next
  case (EDomain m domain port)
  then have d: "valid_domain domain" "length domain \<le> 253" "domain \<noteq> []"
    using assms(1) by (auto simp: valid_domain_def)
  then have bs: "bs = [3, of_nat (length domain)] @ as_bytes domain @ to_be16 port"
    using assms(2) EDomain by (auto simp: socks5_encode_endpoint_def)
  have len: "unat ((bs @ rest) ! 1) = length domain"
    using d(2) by (simp add: bs unat_small_byte)
  have "List.take (length domain) (List.drop 2 (bs @ rest)) = as_bytes domain"
    "List.take 2 (List.drop (2 + length domain) (bs @ rest)) = to_be16 port"
    by (simp_all add: bs)
  then show ?thesis
    using d len EDomain unfolding parse_endpoint_bytes_def Let_def len by (simp add: bs socks5_domain_ok)
qed

definition socks5_decode_at :: "(byte list \<Rightarrow> string) \<Rightarrow> byte list \<Rightarrow> nat \<Rightarrow> network \<Rightarrow> (endpoint \<times> nat) result" where
  "socks5_decode_at show_utf8 packet c n =
     rbind (parse_endpoint_bytes show_utf8 (List.drop c packet) n) (\<lambda>(e, k). Inr (e, c + k))"

lemma parse_endpoint_wire:
  assumes "parse_endpoint_bytes show_utf8 bytes n = Inr (e, k)"
  shows "wire_endpoint e \<and> endpoint_network e = n \<and> k \<le> length bytes \<and> 0 < k"
  using assms unfolding parse_endpoint_bytes_def
  by (auto simp: Let_def rbind_eq_Inr_iff socket_addr_new_def socks5_domain_def dest!: domain_name_new_valid
      split: if_splits option.splits)

interpretation socks5_endpoint: endpoint_codec socks5_encode_endpoint "socks5_decode_at show_utf8" for show_utf8
proof
  show "\<exists>bs. socks5_encode_endpoint e = Inr bs \<and> length bs \<le> 260" if "wire_endpoint e" for e
    using that by (cases e) (auto simp: socks5_encode_endpoint_def valid_domain_def split: ip_addr.split)
  show "socks5_decode_at show_utf8 packet c n = Inr (with_network n e, c + length bs) \<and> left_at packet (c + length bs) rest"
    if "wire_endpoint e" "socks5_encode_endpoint e = Inr bs" "left_at packet c (bs @ rest)" for e bs packet c rest n
    using parse_encoded_endpoint [OF that(1,2), of show_utf8 rest n] take_left(2) [OF that(3) refl] left_at_rest [OF that(3)]
    by (simp add: socks5_decode_at_def)
  show "wire_endpoint e \<and> endpoint_network e = n \<and> c \<le> c' \<and> c' \<le> length packet"
    if "socks5_decode_at show_utf8 packet c n = Inr (e, c')" for packet c n e c'
    using that by (auto simp: socks5_decode_at_def rbind_eq_Inr_iff dest!: parse_endpoint_wire)
qed

lemma read_encoded_endpoint:
  assumes "wire_endpoint e" "socks5_encode_endpoint e = Inr bs"
  shows "bs \<noteq> []" "read_endpoint show_utf8 n (hd bs) (tl bs @ rest) = ([], Inr (with_network n e, rest))"
proof -
  show "bs \<noteq> []"
    using assms(2) by (auto simp: socks5_encode_endpoint_def split: endpoint.splits ip_addr.splits if_splits)
  show "read_endpoint show_utf8 n (hd bs) (tl bs @ rest) = ([], Inr (with_network n e, rest))"
  proof (cases e)
    case (EIp m addr)
    then show ?thesis
      using assms by (cases addr) (auto simp: socks5_encode_endpoint_def read_endpoint_def socket_addr_new_def talk_simps)
  next
    case (EDomain m domain port)
    then have d: "valid_domain domain" "length domain \<le> 253" "length domain \<noteq> 0"
      using assms(1) by (auto simp: valid_domain_def)
    then have bs: "bs = [3] @ [of_nat (length domain)] @ as_bytes domain @ to_be16 port"
      using assms(2) EDomain by (auto simp: socks5_encode_endpoint_def)
    have l: "unat (of_nat (length domain) :: byte) = length domain" "(of_nat (length domain) :: byte) \<noteq> 0"
      using d by (simp_all only: unat_small_byte small_byte_0 not_False_eq_True)
    have "read_endpoint show_utf8 n 3 ([of_nat (length domain)] @ as_bytes domain @ to_be16 port @ rest)
        = ([], Inr (EDomain n domain port, rest))"
      using d by (simp add: read_endpoint_def talk_simps l socks5_domain_ok)
    then show ?thesis
      by (simp add: bs EDomain)
  qed
qed

lemma client_server_address:
  "wire_endpoint e \<Longrightarrow> endpoint_network e = Tcp \<Longrightarrow> socks5_encode_address e = socks5_encode_endpoint e"
  by (cases e) (auto simp: socks5_encode_address_def socks5_encode_endpoint_def valid_domain_def split: ip_addr.split)

lemma discard_encoded_address:
  assumes "socks5_encode_endpoint (EIp Tcp address) = Inr bs"
  shows "discard_address (hd bs) (tl bs @ rest) = ([], Inr ((), rest))"
  using assms by (cases address) (auto simp: socks5_encode_endpoint_def discard_address_def talk_simps)

subsection \<open>Client and server\<close>

definition credentials :: "socks5_proxy \<Rightarrow> byte list" where
  "credentials proxy = [1, of_nat (length (sp_username proxy))] @ as_bytes (sp_username proxy)
     @ [of_nat (length (sp_password proxy))] @ as_bytes (sp_password proxy)"

definition credentials_ok :: "socks5_proxy \<Rightarrow> bool" where
  "credentials_ok proxy \<longleftrightarrow> length (sp_username proxy) \<le> 255 \<and> length (sp_password proxy) \<le> 255"

lemma server_auth:
  assumes "credentials_ok proxy"
  shows "auth_exchange authenticate (credentials proxy @ rest) =
    (if authenticate (as_bytes (sp_username proxy)) (as_bytes (sp_password proxy)) then ([1, 0], Inr ((), rest))
     else ([1, 1], Inl (error_new Protocol ''SOCKS5 authentication failed'')))"
proof -
  have c: "credentials proxy @ rest = [1, of_nat (length (sp_username proxy))] @ as_bytes (sp_username proxy)
      @ [of_nat (length (sp_password proxy))] @ as_bytes (sp_password proxy) @ rest"
    by (simp add: credentials_def)
  have l: "unat (of_nat (length (sp_username proxy)) :: byte) = length (as_bytes (sp_username proxy))"
    "unat (of_nat (length (sp_password proxy)) :: byte) = length (as_bytes (sp_password proxy))"
    using assms by (simp_all only: credentials_ok_def unat_small_byte length_as_bytes)
  show ?thesis
    unfolding auth_exchange_def c by (simp add: talk_simps l)
qed

lemma server_request:
  assumes "wire_endpoint e" "endpoint_network e = Tcp" "socks5_encode_address e = Inr address"
  shows "socks5_read_request show_utf8 Tcp ([5, 1, 0] @ address @ rest) = ([], Inr (\<lparr>sq_command = Connect, sq_destination = e\<rparr>, rest))"
proof -
  have enc: "socks5_encode_endpoint e = Inr address" and e: "with_network Tcp e = e"
    using client_server_address [OF assms(1,2)] assms(2,3) with_network_same [of e] by simp_all
  note rd = read_encoded_endpoint(1) [OF assms(1) enc] read_encoded_endpoint(2) [OF assms(1) enc, of show_utf8 Tcp rest]
  have split: "[5, 1, 0] @ address @ rest = [5, 1, 0, hd address] @ tl address @ rest"
    using rd(1) by (cases address) simp_all
  have "talk_bind (read_endpoint show_utf8 Tcp (hd address)) (\<lambda>d. talk_return \<lparr>sq_command = Connect, sq_destination = d\<rparr>) (tl address @ rest)
      = ([], Inr (\<lparr>sq_command = Connect, sq_destination = e\<rparr>, rest))"
    by (subst talk_bind_run(1) [where m = "read_endpoint show_utf8 Tcp (hd address)", OF rd(2)]) (simp add: talk_simps e)
  then show ?thesis
    unfolding socks5_read_request_def split by (simp add: talk_simps)
qed

lemma reply_written:
  "write_reply_endpoint 0 address input = ([5, 0, 0] @ projr (socks5_encode_endpoint (EIp Tcp address)), Inr ((), input))"
  by (cases address) (simp_all add: write_reply_endpoint_def socks5_encode_endpoint_def talk_simps)

lemma client_reply:
  assumes "endpoint_network e = Tcp" "credentials_ok proxy" "socks5_encode_address e = Inr address"
  shows "client_handshake proxy e ([5, m] @ auth_input @ rest) = (case client_auth proxy m (auth_input @ rest) of
      (out, Inl err) \<Rightarrow> ([5, 2, 0, 2] @ out, Inl err)
    | (out, Inr (_, input)) \<Rightarrow>
        (case talk_bind (talk_read 4) (\<lambda>response.
            if response ! 0 \<noteq> 5 then talk_fail (error_new Protocol ''SOCKS5 CONNECT response has an invalid version'')
            else if response ! 1 \<noteq> 0
              then talk_fail (error_new Protocol (''SOCKS5 CONNECT failed with code '' @ show_nat (unat (response ! 1))))
            else discard_address (response ! 3)) input of
           (out', r) \<Rightarrow> ([5, 2, 0, 2] @ out @ [5, 1, 0] @ address @ out', r)))"
  using assms by (simp add: client_handshake_def credentials_ok_def talk_simps)
    (simp add: talk_bind_def [of "client_auth proxy m"] talk_simps split: prod.split sum.split)

definition accepts_client :: "(byte list \<Rightarrow> byte list \<Rightarrow> bool) \<Rightarrow> socks5_proxy \<Rightarrow> bool" where
  "accepts_client authenticate proxy = authenticate (as_bytes (sp_username proxy)) (as_bytes (sp_password proxy))"

definition auth_refused :: error where
  "auth_refused = error_new Protocol ''SOCKS5 authentication failed''"

lemma server_side:
  assumes "wire_endpoint e" "endpoint_network e = Tcp" "credentials_ok proxy" "socks5_encode_address e = Inr bs"
  shows "server_handshake show_utf8 Tcp False authenticate ([5, 2, 0, 2] @ [5, 1, 0] @ bs @ rest)
      = ([5, 0], Inr (\<lparr>sq_command = Connect, sq_destination = e\<rparr>, rest))"
    and "accepts_client authenticate proxy \<Longrightarrow>
      server_handshake show_utf8 Tcp True authenticate ([5, 2, 0, 2] @ credentials proxy @ [5, 1, 0] @ bs @ rest)
      = ([5, 2, 1, 0], Inr (\<lparr>sq_command = Connect, sq_destination = e\<rparr>, rest))"
    and "\<not> accepts_client authenticate proxy \<Longrightarrow>
      server_handshake show_utf8 Tcp True authenticate ([5, 2, 0, 2] @ credentials proxy) = ([5, 2, 1, 1], Inl auth_refused)"
proof -
  note request = server_request [OF assms(1,2,4), of show_utf8 rest]
  show "server_handshake show_utf8 Tcp False authenticate ([5, 2, 0, 2] @ [5, 1, 0] @ bs @ rest)
      = ([5, 0], Inr (\<lparr>sq_command = Connect, sq_destination = e\<rparr>, rest))"
    using request by (simp add: server_handshake_def talk_simps)
  note auth = server_auth [OF assms(3), of authenticate]
  show "server_handshake show_utf8 Tcp True authenticate ([5, 2, 0, 2] @ credentials proxy @ [5, 1, 0] @ bs @ rest)
      = ([5, 2, 1, 0], Inr (\<lparr>sq_command = Connect, sq_destination = e\<rparr>, rest))" if "accepts_client authenticate proxy"
    using that request auth [of "[5, 1, 0] @ bs @ rest"] by (simp add: server_handshake_def talk_simps accepts_client_def talk_bind_run)
  show "server_handshake show_utf8 Tcp True authenticate ([5, 2, 0, 2] @ credentials proxy) = ([5, 2, 1, 1], Inl auth_refused)"
    if "\<not> accepts_client authenticate proxy"
    using that auth [of "[]"] by (simp add: server_handshake_def talk_simps accepts_client_def auth_refused_def talk_bind_run)
qed

lemma client_side:
  assumes "endpoint_network e = Tcp" "credentials_ok proxy" "socks5_encode_address e = Inr bs"
    and "socks5_encode_endpoint (EIp Tcp address) = Inr reply"
  shows "client_handshake proxy e ([5, 0] @ fst (write_reply_endpoint 0 address []) @ rest) = ([5, 2, 0, 2] @ [5, 1, 0] @ bs, Inr ((), rest))"
    and "client_handshake proxy e ([5, 2, 1, 0] @ fst (write_reply_endpoint 0 address []) @ rest)
      = ([5, 2, 0, 2] @ credentials proxy @ [5, 1, 0] @ bs, Inr ((), rest))"
    and "client_handshake proxy e [5, 2, 1, 1] = ([5, 2, 0, 2] @ credentials proxy, Inl auth_refused)"
proof -
  have "reply \<noteq> []"
    using assms(4) by (cases address) (auto simp: socks5_encode_endpoint_def)
  then have wrote: "fst (write_reply_endpoint 0 address []) @ rest = [5, 0, 0, hd reply] @ tl reply @ rest"
    using assms(4) by (simp add: reply_written)
  note discard = discard_encoded_address [OF assms(4), of rest] note run = client_reply [OF assms(1-3)]
  show "client_handshake proxy e ([5, 0] @ fst (write_reply_endpoint 0 address []) @ rest) = ([5, 2, 0, 2] @ [5, 1, 0] @ bs, Inr ((), rest))"
    unfolding wrote using discard run [of 0 "[]"] by (simp add: client_auth_def talk_simps)
  show "client_handshake proxy e ([5, 2, 1, 0] @ fst (write_reply_endpoint 0 address []) @ rest)
      = ([5, 2, 0, 2] @ credentials proxy @ [5, 1, 0] @ bs, Inr ((), rest))"
    unfolding wrote using discard run [of 2 "[1, 0]"] by (simp add: client_auth_def talk_simps credentials_def)
  show "client_handshake proxy e [5, 2, 1, 1] = ([5, 2, 0, 2] @ credentials proxy, Inl auth_refused)"
    using run [of 2 "[1, 1]" "[]"] by (simp add: client_auth_def talk_simps credentials_def auth_refused_def)
qed

text \<open>
  C19: the client and the server understand each other. When the server asks for no credentials or
  accepts those of the client, each reads what the other writes: the server ends with the
  destination of the client and nothing of what the client sends afterwards, the client ends after
  the reply and nothing of what the server sends afterwards. When the server refuses the
  credentials, both end with an authentication error.
\<close>

theorem socks5_handshake_interop:
  assumes "wire_endpoint e" "endpoint_network e = Tcp" "credentials_ok proxy"
  shows "if requires_auth \<and> \<not> accepts_client authenticate proxy
    then \<exists>client_out server_out.
           server_handshake show_utf8 Tcp requires_auth authenticate client_out = (server_out, Inl auth_refused)
           \<and> client_handshake proxy e server_out = (client_out, Inl auth_refused)
    else \<exists>client_out server_out.
           server_handshake show_utf8 Tcp requires_auth authenticate (client_out @ later_c)
             = (server_out, Inr (\<lparr>sq_command = Connect, sq_destination = e\<rparr>, later_c))
           \<and> client_handshake proxy e (server_out @ fst (write_reply_endpoint 0 address []) @ later_s) = (client_out, Inr ((), later_s))"
proof -
  obtain bs where bs: "socks5_encode_address e = Inr bs"
    using socks5_endpoint.enc_total [OF assms(1)] client_server_address [OF assms(1,2)] by auto
  obtain reply where reply: "socks5_encode_endpoint (EIp Tcp address) = Inr reply"
    by (cases address) (auto simp: socks5_encode_endpoint_def)
  note client = client_side(1,2) [OF assms(2,3) bs reply, of later_s] client_side(3) [OF assms(2,3) bs reply]
  consider "\<not> requires_auth" | "requires_auth" "accepts_client authenticate proxy" | "requires_auth" "\<not> accepts_client authenticate proxy"
    by blast
  then show ?thesis
  proof cases
    case 1
    then show ?thesis
      using server_side(1) [OF assms bs, of show_utf8 authenticate later_c] client(1)
      by (simp del: append_Cons) (rule exI [of _ "[5, 2, 0, 2] @ [5, 1, 0] @ bs"], rule exI [of _ "[5, 0]"], simp)
  next
    case 2
    then show ?thesis
      using server_side(2) [OF assms bs, of authenticate show_utf8 later_c] client(2)
      by (simp del: append_Cons) (rule exI [of _ "[5, 2, 0, 2] @ credentials proxy @ [5, 1, 0] @ bs"], rule exI [of _ "[5, 2, 1, 0]"], simp)
  next
    case 3
    then show ?thesis
      using server_side(3) [OF assms bs, of authenticate show_utf8] client(3)
      by (simp del: append_Cons) (rule exI [of _ "[5, 2, 0, 2] @ credentials proxy"], rule exI [of _ "[5, 2, 1, 1]"], simp)
  qed
qed

theorem socks5_handshake_interop_witness:
  "\<exists>client_out server_out.
     server_handshake (\<lambda>_. []) Tcp True (\<lambda>u p. u = as_bytes ''me'' \<and> p = as_bytes ''pw'') (client_out @ [9])
       = (server_out, Inr (\<lparr>sq_command = Connect, sq_destination = EDomain Tcp ''a.com'' 443\<rparr>, [9]))
     \<and> client_handshake \<lparr>sp_username = ''me'', sp_password = ''pw'', sp_hostname = [], sp_override_port = None\<rparr> (EDomain Tcp ''a.com'' 443)
         (server_out @ fst (write_reply_endpoint 0 (SockV4 0 0) []) @ [8]) = (client_out, Inr ((), [8]))"
proof -
  let ?auth = "\<lambda>u p. u = as_bytes ''me'' \<and> p = as_bytes ''pw''"
  let ?proxy = "\<lparr>sp_username = ''me'', sp_password = ''pw'', sp_hostname = [], sp_override_port = None\<rparr>"
  have "wire_endpoint (EDomain Tcp ''a.com'' 443)" "credentials_ok ?proxy" "accepts_client ?auth ?proxy"
    by code_simp+
  then show ?thesis
    using socks5_handshake_interop [of "EDomain Tcp ''a.com'' 443" ?proxy True ?auth "\<lambda>_. []" "[9]" "SockV4 0 0" "[8]"] by simp
qed

subsection \<open>UDP\<close>

lemma socks5_udp_packet_ok:
  assumes "wire_endpoint e"
  shows "\<exists>bs. socks5_encode_udp_packet e payload = Inr bs \<and> parse_udp_packet show_utf8 bs = Inr (Some (with_network Udp e, payload))"
proof -
  obtain bs where bs: "socks5_encode_endpoint e = Inr bs"
    using socks5_endpoint.enc_total [OF assms] by blast
  then have "bs \<noteq> []"
    by (rule read_encoded_endpoint(1) [OF assms])
  moreover have "parse_endpoint_bytes show_utf8 (bs @ payload) Udp = Inr (with_network Udp e, length bs)"
    by (rule parse_encoded_endpoint [OF assms bs])
  ultimately have "parse_udp_packet show_utf8 ([0, 0, 0] @ bs @ payload) = Inr (Some (with_network Udp e, payload))"
    by (simp add: parse_udp_packet_def numeral_3_eq_3 Suc_le_eq)
  with bs show ?thesis
    by (simp add: socks5_encode_udp_packet_def)
qed

definition client_allowed :: "socks5_udp_server \<Rightarrow> socket_addr \<Rightarrow> bool" where
  "client_allowed s peer \<longleftrightarrow> (\<forall>a. su_allowed_peer s = Some a \<longrightarrow> sock_ip peer = a) \<and> (\<forall>c. su_client s = Some c \<longrightarrow> peer = c)"

definition request_from :: "socket_addr \<Rightarrow> endpoint \<Rightarrow> byte list \<Rightarrow> inbound_udp_request" where
  "request_from peer target payload =
     \<lparr>ur_id = \<lparr>uf_peer = peer, uf_target = target, uf_authentication = None\<rparr>,
      ur_peer = EIp Udp peer, ur_target = target, ur_payload = payload\<rparr>"

text \<open>A datagram is skipped, refused, or becomes a request of a client that is allowed.\<close>

lemma recv_step:
  obtains (skip) "socks5_udp_recv show_utf8 s ((packet, peer) # ds) = socks5_udp_recv show_utf8 s ds"
  | (bad) e where "socks5_udp_recv show_utf8 s ((packet, peer) # ds) = (s, ds, Some (Inl e))"
  | (request) target payload where "parse_udp_packet show_utf8 packet = Inr (Some (target, payload))" "client_allowed s peer"
      "socks5_udp_recv show_utf8 s ((packet, peer) # ds) = (s\<lparr>su_client := Some peer\<rparr>, ds, Some (Inr (request_from peer target payload)))"
proof (cases "case su_allowed_peer s of None \<Rightarrow> False | Some allowed \<Rightarrow> allowed \<noteq> sock_ip peer")
  case True
  then show ?thesis
    by (intro skip) simp
next
  case allowed: False
  show ?thesis
  proof (cases "parse_udp_packet show_utf8 packet")
    case (Inl e)
    then show ?thesis
      using allowed by (intro bad [of e]) simp
  next
    case (Inr parsed)
    show ?thesis
    proof (cases parsed)
      case None
      then show ?thesis
        using Inr allowed by (intro skip) simp
    next
      case (Some tp)
      obtain target payload where tp: "tp = (target, payload)"
        by (cases tp)
      show ?thesis
      proof (cases "case su_client s of None \<Rightarrow> False | Some expected \<Rightarrow> expected \<noteq> peer")
        case True
        then show ?thesis
          using Inr Some tp allowed by (intro skip) simp
      next
        case False
        have "client_allowed s peer"
          using allowed False by (auto simp: client_allowed_def split: option.splits)
        then show ?thesis
          using Inr Some tp allowed False by (intro request [of target payload]) (simp_all add: request_from_def)
      qed
    qed
  qed
qed

lemma recv_shorter: "socks5_udp_recv show_utf8 s ds = (s', ds', Some r) \<Longrightarrow> length ds' < length ds"
proof (induction ds)
  case (Cons d ds)
  show ?case
    by (cases d, cases rule: recv_step [of show_utf8 s "fst d" "snd d" ds]) (use Cons in auto)
qed simp

text \<open>A server that goes on after malformed datagrams: all the requests it takes from a sequence.\<close>

function socks5_udp_requests ::
  "(byte list \<Rightarrow> string) \<Rightarrow> socks5_udp_server \<Rightarrow> (byte list \<times> socket_addr) list \<Rightarrow> inbound_udp_request list" where
  "socks5_udp_requests show_utf8 s ds =
     (case socks5_udp_recv show_utf8 s ds of
        (s', ds', None) \<Rightarrow> []
      | (s', ds', Some (Inl _)) \<Rightarrow> socks5_udp_requests show_utf8 s' ds'
      | (s', ds', Some (Inr r)) \<Rightarrow> r # socks5_udp_requests show_utf8 s' ds')"
  by pat_completeness auto
termination
  by (relation "measure (\<lambda>(_, _, ds). length ds)") (auto dest: recv_shorter [OF sym])

declare socks5_udp_requests.simps [simp del]

lemma recv_request:
  assumes "socks5_udp_recv show_utf8 s ds = (s', ds', Some (Inr q))"
  shows "\<exists>packet peer. (packet, peer) \<in> set ds \<and> client_allowed s peer \<and> s' = s\<lparr>su_client := Some peer\<rparr>
    \<and> (\<exists>target payload. parse_udp_packet show_utf8 packet = Inr (Some (target, payload)) \<and> q = request_from peer target payload)"
  using assms
proof (induction ds)
  case (Cons d ds)
  show ?case
    by (cases d, cases rule: recv_step [of show_utf8 s "fst d" "snd d" ds]) (use Cons in auto)
qed simp

lemma recv_other: "socks5_udp_recv show_utf8 s ds = (s', ds', r) \<Longrightarrow> (\<forall>q. r \<noteq> Some (Inr q)) \<Longrightarrow> s' = s"
proof (induction ds)
  case (Cons d ds)
  show ?case
    by (cases d, cases rule: recv_step [of show_utf8 s "fst d" "snd d" ds]) (use Cons in auto)
qed simp

lemma recv_rest: "socks5_udp_recv show_utf8 s ds = (s', ds', r) \<Longrightarrow> set ds' \<subseteq> set ds"
proof (induction ds)
  case (Cons d ds)
  show ?case
    by (cases d, cases rule: recv_step [of show_utf8 s "fst d" "snd d" ds]) (use Cons in auto)
qed simp

definition genuine :: "(byte list \<Rightarrow> string) \<Rightarrow> (byte list \<times> socket_addr) list \<Rightarrow> inbound_udp_request \<Rightarrow> bool" where
  "genuine show_utf8 ds q \<longleftrightarrow> (\<exists>packet target payload. (packet, uf_peer (ur_id q)) \<in> set ds
     \<and> parse_udp_packet show_utf8 packet = Inr (Some (target, payload)) \<and> q = request_from (uf_peer (ur_id q)) target payload)"

lemma requests_of_client:
  "(\<forall>q \<in> set (socks5_udp_requests show_utf8 s ds). client_allowed s (uf_peer (ur_id q)) \<and> genuine show_utf8 ds q)
   \<and> (\<exists>peer. \<forall>q \<in> set (socks5_udp_requests show_utf8 s ds). uf_peer (ur_id q) = peer)"
proof (induction show_utf8 s ds rule: socks5_udp_requests.induct)
  case (1 show_utf8 s ds)
  obtain s' ds' r where run: "socks5_udp_recv show_utf8 s ds = (s', ds', r)"
    by (cases "socks5_udp_recv show_utf8 s ds")
  note requests = socks5_udp_requests.simps [of show_utf8 s ds, unfolded run]
  have rest: "genuine show_utf8 ds' q \<Longrightarrow> genuine show_utf8 ds q" for q
    using recv_rest [OF run] by (auto simp: genuine_def)
  show ?case
  proof (cases r)
    case None
    then show ?thesis
      by (simp add: requests)
  next
    case (Some res)
    show ?thesis
    proof (cases res)
      case (Inl e)
      then have "s' = s"
        using recv_other [OF run] Some by simp
      then show ?thesis
        using 1(1) [OF run [symmetric] refl Some Inl] rest requests Some Inl by auto
    next
      case (Inr q)
      obtain packet peer target payload where q: "(packet, peer) \<in> set ds" "client_allowed s peer" "s' = s\<lparr>su_client := Some peer\<rparr>"
        "parse_udp_packet show_utf8 packet = Inr (Some (target, payload))" "q = request_from peer target payload"
        using recv_request [of show_utf8 s ds s' ds' q] run Some Inr by auto
      have "client_allowed s p \<and> p = peer" if "client_allowed s' p" for p
        using that q(2,3) by (auto simp: client_allowed_def)
      moreover have "genuine show_utf8 ds q" "uf_peer (ur_id q) = peer"
        using q by (auto simp: genuine_def request_from_def)
      ultimately show ?thesis
        using 1(2) [OF run [symmetric] refl Some Inr] rest requests Some Inr q(2) by auto
    qed
  qed
qed

text \<open>
  C33: every UDP packet that is encoded for an endpoint is parsed back, and over any sequence of
  datagrams a server takes requests from a single sender, one with the address it allows; each
  request is a datagram of that sender that parses, with its target and payload.
\<close>

theorem socks5_udp_single_client:
  assumes "wire_endpoint e"
  shows "(\<exists>bs. socks5_encode_udp_packet e payload = Inr bs \<and> parse_udp_packet show_utf8 bs = Inr (Some (with_network Udp e, payload)))
    \<and> (\<exists>peer. \<forall>q \<in> set (socks5_udp_requests show_utf8 (socks5_udp_server_new allowed) ds).
         uf_peer (ur_id q) = peer \<and> (case allowed of None \<Rightarrow> True | Some a \<Rightarrow> sock_ip peer = a) \<and> genuine show_utf8 ds q)"
proof -
  let ?R = "socks5_udp_requests show_utf8 (socks5_udp_server_new allowed) ds"
  obtain peer where "\<forall>q \<in> set ?R. uf_peer (ur_id q) = peer"
    using requests_of_client by blast
  then have "\<forall>q \<in> set ?R. uf_peer (ur_id q) = peer \<and> (case allowed of None \<Rightarrow> True | Some a \<Rightarrow> sock_ip peer = a) \<and> genuine show_utf8 ds q"
    using requests_of_client [of show_utf8 "socks5_udp_server_new allowed" ds]
    by (auto simp: client_allowed_def socks5_udp_server_new_def split: option.split)
  with socks5_udp_packet_ok [OF assms] show ?thesis
    by blast
qed

theorem socks5_udp_single_client_witness:
  "\<exists>bs. socks5_encode_udp_packet (EIp Udp (SockV4 1 53)) [1, 2] = Inr bs
     \<and> parse_udp_packet (\<lambda>_. []) bs = Inr (Some (EIp Udp (SockV4 1 53), [1, 2]))"
  using socks5_udp_single_client [of "EIp Udp (SockV4 1 53)" "[1, 2]" "\<lambda>_. []" None "[]"] by auto

end
