(* ===== verification/Yuubinsya.thy ===== *)
theory Yuubinsya
  imports Wire
begin

text \<open>
  The wire formats of \<open>protocol/src/transports/yuubinsya/codec.rs\<close>: the header that opens a stream or a
  session, authenticated by a password hash, UDP packets, and UDP frames over a stream. The hash
  function is an argument.
\<close>

unbundle bit_operations_syntax

subsection \<open>Endpoints\<close>

definition yuubinsya_take :: "byte list \<Rightarrow> nat \<Rightarrow> nat \<Rightarrow> (byte list \<times> nat) result" where
  "yuubinsya_take = take_at ''Yuubinsya length overflow'' ''Yuubinsya packet is truncated''"

definition encode_endpoint :: "endpoint \<Rightarrow> byte list result" where
  "encode_endpoint e =
     (case e of
        EIp _ addr \<Rightarrow>
          Inr ((case sock_ip addr of V4 a \<Rightarrow> 1 # to_be32 a | V6 a \<Rightarrow> 4 # to_be128 a) @ to_be16 (sock_port addr))
      | EDomain _ domain port \<Rightarrow>
          if length domain > 255 then Inl (error_invalid ''Yuubinsya domain is too long'')
          else Inr ([3, of_nat (length domain)] @ as_bytes domain @ to_be16 port))"

definition decode_endpoint :: "byte list \<Rightarrow> nat \<Rightarrow> network \<Rightarrow> (endpoint \<times> nat) result" where
  "decode_endpoint packet cursor network =
     rbind (yuubinsya_take packet cursor 1) (\<lambda>(kind, c1).
     if hd kind = 1 then
       rbind (yuubinsya_take packet c1 4) (\<lambda>(a, c2).
       rbind (yuubinsya_take packet c2 2) (\<lambda>(p, c3).
         Inr (EIp network (socket_addr_new (V4 (from_be32 a)) (from_be16 p)), c3)))
     else if hd kind = 4 then
       rbind (yuubinsya_take packet c1 16) (\<lambda>(a, c2).
       rbind (yuubinsya_take packet c2 2) (\<lambda>(p, c3).
         Inr (EIp network (socket_addr_new (V6 (from_be128 a)) (from_be16 p)), c3)))
     else if hd kind = 3 then
       rbind (yuubinsya_take packet c1 1) (\<lambda>(l, c2).
       rbind (yuubinsya_take packet c2 (unat (hd l))) (\<lambda>(d, c3).
         case from_utf8 d of
           None \<Rightarrow> Inl (error_new Protocol ''Yuubinsya domain is not UTF-8'')
         | Some text \<Rightarrow>
             rbind (domain_name_new text) (\<lambda>domain.
             rbind (yuubinsya_take packet c3 2) (\<lambda>(p, c4). Inr (EDomain network domain (from_be16 p), c4)))))
     else Inl (error_new Protocol ''unknown Yuubinsya address type''))"

lemma address_kinds [simp]: "(4 :: byte) \<noteq> 1" "(3 :: byte) \<noteq> 1" "(3 :: byte) \<noteq> 4" "(2 :: byte) \<noteq> 1" "(3 :: byte) \<noteq> 2"
  by simp_all

lemma yuubinsya_take_left:
  assumes "left_at packet c (xs @ ys)" "len = length xs"
  shows "yuubinsya_take packet c len = Inr (xs, c + len)" "left_at packet (c + len) ys"
  unfolding yuubinsya_take_def using take_left [OF assms] by auto

lemma decode_encode_endpoint:
  assumes "wire_endpoint e" "encode_endpoint e = Inr bs" "left_at packet c (bs @ rest)"
  shows "decode_endpoint packet c n = Inr (with_network n e, c + length bs) \<and> left_at packet (c + length bs) rest"
proof (cases e)
  case (EIp m addr)
  define kind :: byte where "kind = (if is_ipv4 (sock_ip addr) then 1 else 4)"
  define a where "a = octets (sock_ip addr)"
  have bs: "bs = [kind] @ a @ to_be16 (sock_port addr)"
    using assms(2) EIp by (cases "sock_ip addr") (auto simp: encode_endpoint_def kind_def a_def)
  have kind: "kind = 1 \<and> length a = 4 \<and> V4 (from_be32 a) = sock_ip addr \<or> kind = 4 \<and> length a = 16 \<and> V6 (from_be128 a) = sock_ip addr"
    by (cases "sock_ip addr") (auto simp: kind_def a_def)
  have addr: "socket_addr_new (sock_ip addr) (sock_port addr) = addr"
    using assms(1) EIp by (cases addr) (auto simp: socket_addr_new_def)
  have left: "left_at packet c ([kind] @ a @ to_be16 (sock_port addr) @ rest)"
    using assms(3) bs by simp
  note s1 = yuubinsya_take_left [OF left, of 1] note s2 = yuubinsya_take_left [OF s1(2), of "length a"]
  note s3 = yuubinsya_take_left [OF s2(2), of 2]
  show ?thesis
    using s1 s2 s3 kind addr EIp bs by (elim disjE) (simp_all add: decode_endpoint_def add.commute [of _ c])
next
  case (EDomain m domain port)
  then have d: "valid_domain domain" "length domain \<le> 253"
    using assms(1) by (auto simp: valid_domain_def)
  then have bs: "bs = [3] @ [of_nat (length domain)] @ as_bytes domain @ to_be16 port"
    using assms(2) EDomain by (auto simp: encode_endpoint_def)
  have left: "left_at packet c ([3] @ [of_nat (length domain)] @ as_bytes domain @ to_be16 port @ rest)"
    using assms(3) bs by simp
  have len: "unat (of_nat (length domain) :: byte) = length domain"
    using d(2) by (simp add: unat_small_byte)
  note s1 = yuubinsya_take_left [OF left refl, unfolded length_Cons list.size, simplified]
  note s2 = yuubinsya_take_left [of packet "Suc c" "[of_nat (length domain)]", OF _ refl, simplified, OF s1(2)]
  note s3 = yuubinsya_take_left [OF s2(2) refl, simplified] note s4 = yuubinsya_take_left [OF s3(2) refl, simplified]
  have "decode_endpoint packet c n = Inr (EDomain n domain port, c + (length domain + 4))"
    unfolding decode_endpoint_def by (simp add: s1 s2 s3 s4 len valid_domain_utf8 [OF d(1)] domain_name_new_of_valid [OF d(1)])
  with s4(2) show ?thesis
    by (simp add: EDomain bs add.commute add.left_commute)
qed

lemma yuubinsya_take_bound: "yuubinsya_take packet c len = Inr (xs, c') \<Longrightarrow> length xs = len \<and> c' = c + len \<and> c' \<le> length packet"
  unfolding yuubinsya_take_def by (rule take_at_bound)

lemma decode_endpoint_wire:
  assumes "decode_endpoint packet c n = Inr (e, c')"
  shows "wire_endpoint e \<and> endpoint_network e = n \<and> c \<le> c' \<and> c' \<le> length packet"
  using assms unfolding decode_endpoint_def rbind_eq_Inr_iff
  by (elim exE conjE) (auto simp: rbind_eq_Inr_iff socket_addr_new_def dest!: yuubinsya_take_bound domain_name_new_valid
      split: if_splits option.splits)

interpretation yuubinsya_endpoint: endpoint_codec encode_endpoint decode_endpoint
proof
  show "\<exists>bs. encode_endpoint e = Inr bs \<and> length bs \<le> 260" if "wire_endpoint e" for e
    using that by (cases e) (auto simp: encode_endpoint_def valid_domain_def split: ip_addr.split)
qed (use decode_encode_endpoint decode_endpoint_wire in blast)+

subsection \<open>Headers\<close>

datatype yuubinsya_protocol = YTcp | YPing | YUdp | YUdpWithMigrateId

fun protocol_byte :: "yuubinsya_protocol \<Rightarrow> byte" where
  "protocol_byte YTcp = 2"
| "protocol_byte YPing = 4"
| "protocol_byte YUdp = 5"
| "protocol_byte YUdpWithMigrateId = 6"

definition protocol_from_byte :: "byte \<Rightarrow> yuubinsya_protocol result" where
  "protocol_from_byte b =
     (let v = b AND 7 in
      if v = 2 then Inr YTcp else if v = 4 then Inr YPing else if v = 5 then Inr YUdp
      else if v = 6 then Inr YUdpWithMigrateId
      else Inl (error_new Protocol ''unknown Yuubinsya protocol''))"

record yuubinsya_header =
  yh_protocol :: yuubinsya_protocol
  yh_migrate_id :: "u64 option"
  yh_destination :: "endpoint option"

definition derive_salt :: "(byte list \<Rightarrow> byte list) \<Rightarrow> byte list \<Rightarrow> byte list" where
  "derive_salt sha256 password = sha256 (password @ as_bytes ''+s@1t'')"

definition needs_destination :: "yuubinsya_protocol \<Rightarrow> bool" where
  "needs_destination p \<longleftrightarrow> p = YTcp \<or> p = YPing"

definition encode_header :: "byte list \<Rightarrow> yuubinsya_header \<Rightarrow> byte list result" where
  "encode_header password_hash header =
     (if length password_hash \<noteq> 32 then Inl (error_invalid ''Yuubinsya password hash must be 32 bytes'')
      else if yh_protocol header = YUdpWithMigrateId \<and> yh_migrate_id header = None
        then Inl (error_invalid ''Yuubinsya migrate protocol needs migrate_id'')
      else if needs_destination (yh_protocol header) \<and> yh_destination header = None
        then Inl (error_invalid ''Yuubinsya TCP/Ping needs destination'')
      else
        (let output = [protocol_byte (yh_protocol header)]
               @ (case yh_migrate_id header of None \<Rightarrow> [] | Some i \<Rightarrow> to_be64 i) @ password_hash
         in case yh_destination header of
              None \<Rightarrow> Inr output
            | Some destination \<Rightarrow> rbind (encode_endpoint destination) (\<lambda>bs. Inr (output @ bs))))"

definition header_truncated :: error where
  "header_truncated = error_new Protocol ''Yuubinsya header is truncated''"

definition password_incorrect :: error where
  "password_incorrect = error_new Protocol ''Yuubinsya password is incorrect''"

definition decode_header :: "byte list \<Rightarrow> byte list \<Rightarrow> (yuubinsya_header \<times> nat) result" where
  "decode_header password_hash packet =
     (if length password_hash \<noteq> 32 \<or> length packet < 33 then Inl header_truncated
      else
        rbind (protocol_from_byte (hd packet)) (\<lambda>protocol.
        rbind (if protocol = YUdpWithMigrateId
               then rbind (yuubinsya_take packet 1 8) (\<lambda>(bs, c). Inr (Some (from_be64 bs), c))
               else Inr (None, 1)) (\<lambda>(migrate_id, c1).
        rbind (yuubinsya_take packet c1 32) (\<lambda>(expected, c2).
        if \<not> constant_time_eq expected password_hash then Inl password_incorrect
        else
          rbind (if needs_destination protocol
                 then rbind (decode_endpoint packet c2 Tcp) (\<lambda>(e, c). Inr (Some e, c))
                 else Inr (None, c2)) (\<lambda>(destination, c3).
            Inr (\<lparr>yh_protocol = protocol, yh_migrate_id = migrate_id, yh_destination = destination\<rparr>, c3))))))"

definition decode_header_any :: "byte list list \<Rightarrow> byte list \<Rightarrow> (yuubinsya_header \<times> nat \<times> byte list) result" where
  "decode_header_any password_hashes packet =
     (if packet = [] then Inl header_truncated
      else
        rbind (protocol_from_byte (hd packet)) (\<lambda>protocol.
          let offset = (if protocol = YUdpWithMigrateId then 9 else 1) in
          if offset + 32 > length packet then Inl header_truncated
          else
            (let (selected, found) = select_loop (List.take 32 (List.drop offset packet)) password_hashes (replicate 32 0) 0
             in if found = 0 then Inl password_incorrect
                else rbind (decode_header selected packet) (\<lambda>(header, consumed). Inr (header, consumed, selected)))))"

subsection \<open>Packets and frames\<close>

definition MAX_SEGMENT_SIZE :: nat where
  "MAX_SEGMENT_SIZE = 64 * 1024 - 1"

definition encode_udp_packet :: "byte list \<Rightarrow> endpoint \<Rightarrow> byte list \<Rightarrow> bool \<Rightarrow> byte list result" where
  "encode_udp_packet password_hash destination payload socks5_prefix =
     (if length password_hash \<noteq> 32 then Inl (error_invalid ''Yuubinsya password hash must be 32 bytes'')
      else if length payload > MAX_SEGMENT_SIZE then Inl (error_new InvalidInput ''Yuubinsya UDP payload too large'')
      else rbind (encode_endpoint destination) (\<lambda>bs.
        Inr (password_hash @ (if socks5_prefix then [0, 0, 0] else []) @ bs @ payload)))"

definition decode_udp_packet_any ::
  "byte list list \<Rightarrow> byte list \<Rightarrow> bool \<Rightarrow> (endpoint \<times> byte list \<times> byte list) result" where
  "decode_udp_packet_any password_hashes packet socks5_prefix =
     (if length packet < 32 then Inl (error_new Protocol ''Yuubinsya UDP packet is truncated'')
      else
        (let (selected, found) = select_loop (List.take 32 packet) password_hashes (replicate 32 0) 0
         in if found = 0 then Inl password_incorrect
            else
              rbind (if socks5_prefix
                     then rbind (yuubinsya_take packet 32 3) (\<lambda>(bs, c).
                            if bs \<noteq> [0, 0, 0] then Inl (error_new Protocol ''invalid Yuubinsya SOCKS5 prefix'') else Inr c)
                     else Inr 32) (\<lambda>c1.
              rbind (decode_endpoint packet c1 Udp) (\<lambda>(destination, c2).
                Inr (destination, List.drop c2 packet, selected)))))"

definition decode_udp_packet :: "byte list \<Rightarrow> byte list \<Rightarrow> bool \<Rightarrow> (endpoint \<times> byte list) result" where
  "decode_udp_packet password_hash packet socks5_prefix =
     (if length password_hash \<noteq> 32 then Inl (error_invalid ''Yuubinsya password hash must be 32 bytes'')
      else rbind (decode_udp_packet_any [password_hash] packet socks5_prefix) (\<lambda>(destination, payload, _). Inr (destination, payload)))"

definition encode_uot_frame :: "endpoint \<Rightarrow> byte list \<Rightarrow> byte list result" where
  "encode_uot_frame destination payload =
     (if length payload > 65535 then Inl (error_new InvalidInput ''UOT payload too large'')
      else rbind (encode_endpoint destination) (\<lambda>bs. Inr (bs @ to_be16 (of_nat (length payload)) @ payload)))"

definition decode_uot_frame :: "byte list \<Rightarrow> (endpoint \<times> byte list \<times> nat) result" where
  "decode_uot_frame packet =
     rbind (decode_endpoint packet 0 Udp) (\<lambda>(destination, c1).
     rbind (yuubinsya_take packet c1 2) (\<lambda>(bs, c2).
     rbind (yuubinsya_take packet c2 (unat (from_be16 bs))) (\<lambda>(payload, c3). Inr (destination, payload, c3))))"

subsection \<open>Round trips\<close>

definition header_wf :: "yuubinsya_header \<Rightarrow> bool" where
  "header_wf h \<longleftrightarrow>
     (yh_migrate_id h \<noteq> None \<longleftrightarrow> yh_protocol h = YUdpWithMigrateId)
     \<and> (case yh_destination h of
          None \<Rightarrow> \<not> needs_destination (yh_protocol h)
        | Some e \<Rightarrow> needs_destination (yh_protocol h) \<and> wire_endpoint e \<and> endpoint_network e = Tcp)"

lemma protocol_roundtrip [simp]: "protocol_from_byte (protocol_byte p) = Inr p"
  by (cases p) (simp_all add: protocol_from_byte_def)

definition migrate_bytes :: "yuubinsya_header \<Rightarrow> byte list" where
  "migrate_bytes h = (case yh_migrate_id h of None \<Rightarrow> [] | Some i \<Rightarrow> to_be64 i)"

lemma encode_header_ok:
  assumes "header_wf h" "length hash = 32"
  obtains dest where "encode_header hash h = Inr ([protocol_byte (yh_protocol h)] @ migrate_bytes h @ hash @ dest)"
    "length dest \<le> 260"
    "\<And>packet c rest. left_at packet c (dest @ rest) \<Longrightarrow>
       (if needs_destination (yh_protocol h) then rbind (decode_endpoint packet c Tcp) (\<lambda>(e, c). Inr (Some e, c)) else Inr (None, c))
         = Inr (yh_destination h, c + length dest)"
proof (cases "yh_destination h")
  case None
  then show ?thesis
    using assms by (intro that [of "[]"]) (auto simp: encode_header_def header_wf_def migrate_bytes_def split: option.splits)
next
  case (Some e)
  then have e: "wire_endpoint e" "needs_destination (yh_protocol h)" "with_network Tcp e = e"
    using assms(1) with_network_same [of e] by (auto simp: header_wf_def)
  from yuubinsya_endpoint.enc_total [OF e(1)] obtain bs where bs: "encode_endpoint e = Inr bs" "length bs \<le> 260"
    by blast
  have "encode_header hash h = Inr ([protocol_byte (yh_protocol h)] @ migrate_bytes h @ hash @ bs)"
    using assms Some bs(1) by (auto simp: encode_header_def header_wf_def migrate_bytes_def)
  then show ?thesis
    by (rule that [OF _ bs(2)]) (use yuubinsya_endpoint.dec_enc [OF e(1) bs(1)] e Some in simp)
qed

lemma select_secret:
  assumes "list_all (\<lambda>k. length k = 32) hashes"
  obtains s where "select_loop expected hashes (replicate 32 0) 0 = (s, of_bool (expected \<in> set hashes))"
    "expected \<in> set hashes \<Longrightarrow> s = expected"
  using select_loop_spec [OF assms, of "replicate 32 0" False expected] by auto

lemma decode_header_ok:
  assumes "header_wf h" "length hash = 32" "length payload < 2 ^ 63"
  obtains bs where "encode_header hash h = Inr bs" "decode_header hash (bs @ payload) = Inr (h, length bs)"
    "hd (bs @ payload) = protocol_byte (yh_protocol h)" "33 \<le> length bs"
    "left_at (bs @ payload) (if yh_protocol h = YUdpWithMigrateId then 9 else 1) (hash @ List.drop (length (migrate_bytes h) + 33) bs @ payload)"
proof -
  obtain dest where bs: "encode_header hash h = Inr ([protocol_byte (yh_protocol h)] @ migrate_bytes h @ hash @ dest)" "length dest \<le> 260"
    and dest: "\<And>packet c rest. left_at packet c (dest @ rest) \<Longrightarrow>
       (if needs_destination (yh_protocol h) then rbind (decode_endpoint packet c Tcp) (\<lambda>(e, c). Inr (Some e, c)) else Inr (None, c))
         = Inr (yh_destination h, c + length dest)"
    using encode_header_ok [OF assms(1,2)] by blast
  let ?m = "migrate_bytes h" and ?bs = "[protocol_byte (yh_protocol h)] @ migrate_bytes h @ hash @ dest"
  let ?p = "?bs @ payload"
  have m: "length ?m = (if yh_protocol h = YUdpWithMigrateId then 8 else 0)"
    using assms(1) by (auto simp: header_wf_def migrate_bytes_def split: option.splits)
  have l1: "left_at ?p 1 (?m @ hash @ dest @ payload)"
    using assms(2,3) bs(2) m by (simp add: left_at_def)
  have mid: "(if yh_protocol h = YUdpWithMigrateId then rbind (yuubinsya_take ?p 1 8) (\<lambda>(bs, c). Inr (Some (from_be64 bs), c)) else Inr (None, 1))
      = Inr (yh_migrate_id h, 1 + length ?m)" and l2: "left_at ?p (1 + length ?m) (hash @ dest @ payload)"
    using yuubinsya_take_left [OF l1 refl] m assms(1) by (auto simp: header_wf_def migrate_bytes_def split: option.splits)
  have hash: "yuubinsya_take ?p (1 + length ?m) 32 = Inr (hash, 1 + length ?m + 32)" and l3: "left_at ?p (1 + length ?m + 32) (dest @ payload)"
    using yuubinsya_take_left [OF l2 assms(2) [symmetric]] by simp_all
  have "decode_header hash ?p = Inr (h, length ?bs)"
  proof -
    have guard: "\<not> (length hash \<noteq> 32 \<or> length ?p < 33)"
      using assms(2) by simp
    have head: "hd ?p = protocol_byte (yh_protocol h)"
      by simp
    show ?thesis
      unfolding decode_header_def if_not_P [OF guard] head protocol_roundtrip rbind_Inr mid prod.case hash constant_time_eq_iff
        simp_thms if_False dest [OF l3]
      by (simp add: assms(2))
  qed
  moreover have "left_at ?p (if yh_protocol h = YUdpWithMigrateId then 9 else 1) (hash @ List.drop (length ?m + 33) ?bs @ payload)"
    using l2 m assms(2) by (auto split: if_splits)
  ultimately show thesis
    by (intro that [OF bs(1)]) (auto simp: assms(2))
qed

text \<open>
  A header that names its migration and destination as its protocol requires is read back from
  the beginning of any packet, exactly, by a server that accepts its password hash among others; the
  hash that is returned is the one that was sent, and a server that does not accept it refuses.
\<close>

lemma yuubinsya_header_roundtrip:
  assumes "header_wf h" "length hash = 32" "list_all (\<lambda>k. length k = 32) hashes" "length payload < 2 ^ 63"
  shows "\<exists>bs. encode_header hash h = Inr bs
    \<and> decode_header_any hashes (bs @ payload)
        = (if hash \<in> set hashes then Inr (h, length bs, hash) else Inl password_incorrect)"
proof -
  obtain bs where bs: "encode_header hash h = Inr bs" "decode_header hash (bs @ payload) = Inr (h, length bs)"
    "hd (bs @ payload) = protocol_byte (yh_protocol h)" "33 \<le> length bs"
    and left: "left_at (bs @ payload) (if yh_protocol h = YUdpWithMigrateId then 9 else 1) (hash @ List.drop (length (migrate_bytes h) + 33) bs @ payload)"
    using decode_header_ok [OF assms(1,2,4)] by blast
  define offset :: nat where "offset = (if yh_protocol h = YUdpWithMigrateId then 9 else 1)"
  have drop: "List.drop offset (bs @ payload) = hash @ List.drop (length (migrate_bytes h) + 33) bs @ payload" and le: "offset \<le> length (bs @ payload)"
    using left unfolding offset_def left_at_def by blast+
  have expected: "List.take 32 (List.drop offset (bs @ payload)) = hash"
    unfolding drop using assms(2) by simp
  have "length hash \<le> length (bs @ payload) - offset"
    using arg_cong [OF drop, of length] by simp
  then have len: "offset + 32 \<le> length (bs @ payload)"
    using le assms(2) by simp
  obtain s where "select_loop hash hashes (replicate 32 0) 0 = (s, of_bool (hash \<in> set hashes))" "hash \<in> set hashes \<Longrightarrow> s = hash"
    using select_secret [OF assms(3)] by blast
  moreover have "bs @ payload \<noteq> []"
    using bs(4) by auto
  ultimately have "decode_header_any hashes (bs @ payload) = (if hash \<in> set hashes then Inr (h, length bs, hash) else Inl password_incorrect)"
    using expected len bs unfolding decode_header_any_def bs(3) protocol_roundtrip rbind_Inr Let_def offset_def [symmetric]
    by auto
  with bs(1) show ?thesis
    by blast
qed

text \<open>
  A UDP packet is read back by every server that accepts its password hash, with or without the
  SOCKS5 prefix, and refused by the others; a frame of UDP over a stream is read back from the
  beginning of the stream and consumes exactly its bytes.
\<close>

lemma yuubinsya_udp_roundtrip:
  assumes "wire_endpoint e" "length hash = 32" "list_all (\<lambda>k. length k = 32) hashes" "length payload \<le> 65535"
    and "length rest < 2 ^ 63"
  shows "(\<exists>bs. encode_udp_packet hash e payload socks = Inr bs
      \<and> decode_udp_packet_any hashes bs socks
          = (if hash \<in> set hashes then Inr (with_network Udp e, payload, hash) else Inl password_incorrect)
      \<and> decode_udp_packet hash bs socks = Inr (with_network Udp e, payload))
    \<and> (\<exists>bs. encode_uot_frame e payload = Inr bs \<and> decode_uot_frame (bs @ rest) = Inr (with_network Udp e, payload, length bs))"
proof -
  obtain bs where bs: "encode_endpoint e = Inr bs" "length bs \<le> 260"
    using yuubinsya_endpoint.enc_total [OF assms(1)] by blast
  define prefix_bytes :: "byte list" where "prefix_bytes = (if socks then [0, 0, 0] else [])"
  let ?p = "hash @ prefix_bytes @ bs @ payload"
  have enc: "encode_udp_packet hash e payload socks = Inr ?p"
    using assms(2,4) bs(1) by (simp add: encode_udp_packet_def MAX_SEGMENT_SIZE_def prefix_bytes_def)
  have l1: "left_at ?p 32 (prefix_bytes @ bs @ payload)"
    using assms(2,4) bs(2) by (simp add: left_at_def prefix_bytes_def)
  have pre: "(if socks then rbind (yuubinsya_take ?p 32 3) (\<lambda>(bs, c).
          if bs \<noteq> [0, 0, 0] then Inl (error_new Protocol ''invalid Yuubinsya SOCKS5 prefix'') else Inr c) else Inr 32)
      = Inr (32 + length prefix_bytes)"
    using yuubinsya_take_left [OF l1 refl] by (cases socks) (simp_all add: prefix_bytes_def numeral_3_eq_3)
  have l2: "left_at ?p (32 + length prefix_bytes) (bs @ payload)"
    using yuubinsya_take_left(2) [OF l1 refl] .
  have dec: "decode_endpoint ?p (32 + length prefix_bytes) Udp = Inr (with_network Udp e, 32 + length prefix_bytes + length bs)"
    and l3: "left_at ?p (32 + length prefix_bytes + length bs) payload"
    using yuubinsya_endpoint.dec_enc [OF assms(1) bs(1) l2, of Udp] by simp_all
  have any: "decode_udp_packet_any ks ?p socks
      = (if hash \<in> set ks then Inr (with_network Udp e, payload, hash) else Inl password_incorrect)"
    if ks: "list_all (\<lambda>k. length k = 32) ks" for ks
  proof -
    obtain s where s: "select_loop hash ks (replicate 32 0) 0 = (s, of_bool (hash \<in> set ks))" "hash \<in> set ks \<Longrightarrow> s = hash"
      using select_secret [OF ks] by blast
    have head: "List.take 32 ?p = hash" "\<not> length ?p < 32"
      using assms(2) by simp_all
    show ?thesis
      unfolding decode_udp_packet_any_def head(1) if_not_P [OF head(2)] s(1) Let_def prod.case pre rbind_Inr dec left_at_rest [OF l3]
      using s(2) by auto
  qed
  have "decode_udp_packet hash ?p socks = Inr (with_network Udp e, payload)"
    using any [of "[hash]"] assms(2) by (simp add: decode_udp_packet_def)
  moreover have "decode_uot_frame ((bs @ to_be16 (of_nat (length payload)) @ payload) @ rest)
      = Inr (with_network Udp e, payload, length (bs @ to_be16 (of_nat (length payload)) @ payload))"
  proof -
    let ?q = "bs @ to_be16 (of_nat (length payload)) @ payload @ rest"
    have l0: "left_at ?q 0 ?q"
      using assms(4,5) bs(2) by (intro left_at_start) simp
    note q1 = yuubinsya_endpoint.dec_enc [OF assms(1) bs(1) l0, of Udp]
    note q2 = yuubinsya_take_left [OF q1 [THEN conjunct2] refl]
    have len: "unat (of_nat (length payload) :: u16) = length payload"
      using assms(4) by (simp add: unat_of_nat)
    note q3 = yuubinsya_take_left [OF q2(2) refl]
    show ?thesis
      using q1 q2 q3 by (simp add: decode_uot_frame_def len)
  qed
  ultimately show ?thesis
    using enc any [OF assms(3)] bs(1) assms(4) by (auto simp: encode_uot_frame_def)
qed

definition sample_hash :: "byte list" where
  "sample_hash = replicate 32 7"

lemma yuubinsya_header_roundtrip_example:
  "\<exists>bs. encode_header sample_hash \<lparr>yh_protocol = YTcp, yh_migrate_id = None, yh_destination = Some (EDomain Tcp ''a.com'' 443)\<rparr> = Inr bs
     \<and> decode_header_any [replicate 32 1, sample_hash] (bs @ [1, 2])
       = Inr (\<lparr>yh_protocol = YTcp, yh_migrate_id = None, yh_destination = Some (EDomain Tcp ''a.com'' 443)\<rparr>, length bs, sample_hash)"
proof -
  let ?h = "\<lparr>yh_protocol = YTcp, yh_migrate_id = None, yh_destination = Some (EDomain Tcp ''a.com'' 443)\<rparr>"
  have "header_wf ?h"
    by code_simp
  then show ?thesis
    using yuubinsya_header_roundtrip [of ?h sample_hash "[replicate 32 1, sample_hash]" "[1, 2]"] by (simp add: sample_hash_def)
qed

lemma yuubinsya_udp_roundtrip_example:
  "\<exists>bs. encode_udp_packet sample_hash (EIp Udp (SockV4 0x01020304 53)) [9, 9] True = Inr bs
     \<and> decode_udp_packet_any [sample_hash] bs True = Inr (EIp Udp (SockV4 0x01020304 53), [9, 9], sample_hash)"
  using yuubinsya_udp_roundtrip [of "EIp Udp (SockV4 0x01020304 53)" sample_hash "[sample_hash]" "[9, 9]" "[]" True]
  by (auto simp: sample_hash_def)

text \<open>
  The encoder writes a migration id for every protocol that has one, the decoder reads it for one
  protocol only, so that a TCP header with an id is written and then refused.
\<close>

lemma migrate_id_breaks_tcp_header:
  "case encode_header sample_hash \<lparr>yh_protocol = YTcp, yh_migrate_id = Some 1, yh_destination = Some (EDomain Tcp ''a.com'' 443)\<rparr> of
     Inr bs \<Rightarrow> decode_header sample_hash bs = Inl password_incorrect
   | Inl _ \<Rightarrow> False"
  by code_simp

end
