(* ===== verification/Trojan.thy ===== *)
theory Trojan
  imports Yuubinsya
begin

text \<open>
  The Trojan protocol of \<open>protocol/src/protocols/trojan.rs\<close>: the request with the password hash that opens a
  stream, the frames of UDP over a stream, and the server that reads both. The hash function is an
  argument.
\<close>

unbundle bit_operations_syntax

subsection \<open>Requests\<close>

definition trojan_max_packet_size :: nat where
  "trojan_max_packet_size = 8 * 1024"

definition trojan_hash_length :: nat where
  "trojan_hash_length = 56"

definition CRLF :: "byte list" where
  "CRLF = [13, 10]"

datatype trojan_command = TConnect | TAssociate | TMux

fun trojan_command_byte :: "trojan_command \<Rightarrow> byte" where
  "trojan_command_byte TConnect = 1"
| "trojan_command_byte TAssociate = 3"
| "trojan_command_byte TMux = 0x7F"

definition trojan_command_from_byte :: "byte \<Rightarrow> trojan_command result" where
  "trojan_command_from_byte b =
     (if b = 1 then Inr TConnect else if b = 3 then Inr TAssociate else if b = 0x7F then Inr TMux
      else Inl (error_new Protocol ''unknown Trojan command''))"

record trojan_request =
  tq_command :: trojan_command
  tq_destination :: endpoint

text \<open>The hash in the format of two lower-case hexadecimal digits for each byte.\<close>

definition hex_digit :: "byte \<Rightarrow> byte" where
  "hex_digit d = (if d < 10 then d + 0x30 else d - 10 + 0x61)"

definition trojan_password_hash :: "(byte list \<Rightarrow> byte list) \<Rightarrow> byte list \<Rightarrow> byte list" where
  "trojan_password_hash sha224 password = concat (map (\<lambda>b. [hex_digit (b div 16), hex_digit (b mod 16)]) (sha224 password))"

definition trojan_take :: "byte list \<Rightarrow> nat \<Rightarrow> nat \<Rightarrow> (byte list \<times> nat) result" where
  "trojan_take = take_at ''Trojan length overflow'' ''Trojan frame is truncated''"

definition trojan_encode_request :: "byte list \<Rightarrow> trojan_command \<Rightarrow> endpoint \<Rightarrow> byte list result" where
  "trojan_encode_request hash command destination =
     (if endpoint_network destination \<noteq> Tcp \<and> command = TConnect
      then Inl (error_invalid ''Trojan CONNECT destination must be TCP'')
      else rbind (encode_endpoint destination) (\<lambda>bs.
        Inr (hash @ CRLF @ [trojan_command_byte command] @ bs @ CRLF)))"

definition read_endpoint_bytes :: "byte list \<Rightarrow> (byte list \<times> byte list) result" where
  "read_endpoint_bytes input =
     rbind (read_u8 input) (\<lambda>(kind, r1).
     rbind (if kind = 1 then Inr ([kind], 4 + 2, r1)
            else if kind = 4 then Inr ([kind], 16 + 2, r1)
            else if kind = 3 then rbind (read_u8 r1) (\<lambda>(len, r2). Inr ([kind, len], unat len + 2, r2))
            else Inl (error_new Protocol ''unknown Trojan address type'')) (\<lambda>(bytes, remaining, r2).
     rbind (read_exact remaining r2) (\<lambda>(more_bytes, r3). Inr (bytes @ more_bytes, r3))))"

definition trojan_read_endpoint :: "network \<Rightarrow> byte list \<Rightarrow> (endpoint \<times> byte list) result" where
  "trojan_read_endpoint n input =
     rbind (read_endpoint_bytes input) (\<lambda>(bytes, r).
     rbind (decode_endpoint bytes 0 n) (\<lambda>(destination, _). Inr (destination, r)))"

definition hash_accepted :: "byte list \<Rightarrow> byte list list \<Rightarrow> bool" where
  "hash_accepted hash expected_hashes \<longleftrightarrow>
     foldl (\<lambda>matched k. matched OR of_bool (constant_time_eq hash k)) (0 :: byte) expected_hashes \<noteq> 0"

definition trojan_password_incorrect :: error where
  "trojan_password_incorrect = error_new Protocol ''Trojan password is incorrect''"

definition trojan_read_request_any :: "byte list list \<Rightarrow> byte list \<Rightarrow> (trojan_request \<times> byte list) result" where
  "trojan_read_request_any expected_hashes input =
     rbind (read_exact trojan_hash_length input) (\<lambda>(hash, r1).
     if \<not> hash_accepted hash expected_hashes then Inl trojan_password_incorrect
     else
       rbind (read_exact 2 r1) (\<lambda>(crlf, r2).
       if crlf \<noteq> CRLF then Inl (error_new Protocol ''Trojan password header lacks CRLF'')
       else
         rbind (read_u8 r2) (\<lambda>(c, r3).
         rbind (trojan_command_from_byte c) (\<lambda>command.
         rbind (trojan_read_endpoint (if command = TAssociate then Udp else Tcp) r3) (\<lambda>(destination, r4).
         rbind (read_exact 2 r4) (\<lambda>(crlf, r5).
         if crlf \<noteq> CRLF then Inl (error_new Protocol ''Trojan request lacks trailing CRLF'')
         else Inr (\<lparr>tq_command = command, tq_destination = destination\<rparr>, r5)))))))"

definition trojan_read_request :: "byte list \<Rightarrow> byte list \<Rightarrow> (trojan_request \<times> byte list) result" where
  "trojan_read_request expected_hash input = trojan_read_request_any [expected_hash] input"

subsection \<open>Frames\<close>

definition trojan_encode_udp_frame :: "endpoint \<Rightarrow> byte list \<Rightarrow> byte list result" where
  "trojan_encode_udp_frame destination payload =
     (if endpoint_network destination \<noteq> Udp then Inl (error_invalid ''Trojan UDP frame destination must be UDP'')
      else if length payload > trojan_max_packet_size \<or> length payload > 65535
        then Inl (error_new InvalidInput ''Trojan UDP payload is too large'')
      else rbind (encode_endpoint destination) (\<lambda>bs.
        Inr (bs @ to_be16 (of_nat (length payload)) @ CRLF @ payload)))"

text \<open>A buffer of a given capacity receives the beginning of the payload; the rest is skipped.\<close>

definition trojan_decode_udp_frame :: "byte list \<Rightarrow> nat \<Rightarrow> (byte list \<times> endpoint \<times> nat) result" where
  "trojan_decode_udp_frame packet capacity =
     rbind (decode_endpoint packet 0 Udp) (\<lambda>(destination, c1).
     rbind (trojan_take packet c1 2) (\<lambda>(l, c2).
     rbind (trojan_take packet c2 2) (\<lambda>(crlf, c3).
     if crlf \<noteq> CRLF then Inl (error_new Protocol ''Trojan UDP frame lacks CRLF'')
     else
       (let len = unat (from_be16 l); copied = min len capacity in
        rbind (trojan_take packet c3 copied) (\<lambda>(payload, c4).
        rbind (if len > copied then rbind (trojan_take packet c4 (len - copied)) (\<lambda>(_, c5). Inr c5) else Inr c4) (\<lambda>c5.
          Inr (payload, destination, c5)))))))"

fun skip_payload :: "nat \<Rightarrow> byte list \<Rightarrow> byte list result" where
  "skip_payload left_bytes input =
     (if left_bytes = 0 then Inr input
      else rbind (read_exact (min left_bytes 1024) input) (\<lambda>(_, rest). skip_payload (left_bytes - min left_bytes 1024) rest))"

declare skip_payload.simps [simp del]

definition trojan_read_udp_frame :: "nat \<Rightarrow> byte list \<Rightarrow> ((byte list \<times> endpoint) \<times> byte list) result" where
  "trojan_read_udp_frame capacity input =
     rbind (trojan_read_endpoint Udp input) (\<lambda>(destination, r1).
     rbind (read_u16 r1) (\<lambda>(l, r2).
     rbind (read_exact 2 r2) (\<lambda>(crlf, r3).
     if crlf \<noteq> CRLF then Inl (error_new Protocol ''Trojan UDP frame lacks CRLF'')
     else
       (let len = unat l; copied = min len capacity in
        rbind (read_exact copied r3) (\<lambda>(payload, r4).
        rbind (if len > copied then skip_payload (len - copied) r4 else Inr r4) (\<lambda>r5.
          Inr ((payload, destination), r5)))))))"

subsection \<open>Reading what was written\<close>

lemma read_endpoint_bytes_ok:
  assumes "wire_endpoint e" "encode_endpoint e = Inr bs"
  shows "read_endpoint_bytes (bs @ rest) = Inr (bs, rest)"
proof (cases e)
  case (EIp m addr)
  then show ?thesis
    using assms(2) by (cases "sock_ip addr") (auto simp: encode_endpoint_def read_endpoint_bytes_def read_exact_def)
next
  case (EDomain m domain port)
  then have "length domain \<le> 255"
    using assms(1) by (simp add: valid_domain_def)
  then show ?thesis
    using assms(2) EDomain unat_small_byte [of "length domain"]
    by (auto simp: encode_endpoint_def read_endpoint_bytes_def read_exact_def)
qed

lemma trojan_read_endpoint_ok:
  assumes "wire_endpoint e" "encode_endpoint e = Inr bs"
  shows "trojan_read_endpoint n (bs @ rest) = Inr (with_network n e, rest)"
proof -
  have "length bs < 2 ^ 64"
    using yuubinsya_endpoint.enc_total [OF assms(1)] assms(2) by auto
  then show ?thesis
    using yuubinsya_endpoint.dec_enc_0 [OF assms, of "[]" n] read_endpoint_bytes_ok [OF assms]
    by (simp add: trojan_read_endpoint_def)
qed

lemma hash_accepted_iff [simp]: "hash_accepted hash hashes \<longleftrightarrow> hash \<in> set hashes"
proof -
  have "foldl (\<lambda>matched k. matched OR of_bool (hash = k)) m hashes \<noteq> 0 \<longleftrightarrow> m \<noteq> 0 \<or> hash \<in> set hashes" for m :: byte
    by (induction hashes arbitrary: m) (auto simp: or_eq_0_iff)
  then show ?thesis
    by (simp add: hash_accepted_def)
qed

lemma trojan_command_roundtrip [simp]: "trojan_command_from_byte (trojan_command_byte c) = Inr c"
  by (cases c) (simp_all add: trojan_command_from_byte_def)

text \<open>
  A server reads from a stream exactly the request a client wrote, with the destination on the
  network of the command, and leaves what follows; a request with a hash the server does not accept
  is refused before anything else of it is read.
\<close>

lemma trojan_read_request_written:
  assumes "wire_endpoint e" "length hash = trojan_hash_length" "command = TConnect \<longrightarrow> endpoint_network e = Tcp"
  shows "\<exists>bs. trojan_encode_request hash command e = Inr bs
    \<and> (\<forall>rest hashes. trojan_read_request_any hashes (bs @ rest)
        = (if hash \<in> set hashes
           then Inr (\<lparr>tq_command = command, tq_destination = with_network (if command = TAssociate then Udp else Tcp) e\<rparr>, rest)
           else Inl trojan_password_incorrect))"
proof -
  obtain ep where ep: "encode_endpoint e = Inr ep"
    using yuubinsya_endpoint.enc_total [OF assms(1)] by blast
  have enc: "trojan_encode_request hash command e = Inr (hash @ CRLF @ [trojan_command_byte command] @ ep @ CRLF)"
    using assms(3) ep by (auto simp: trojan_encode_request_def)
  note rd = trojan_read_endpoint_ok [OF assms(1) ep]
  have crlf: "read_exact 2 (CRLF @ xs) = Inr (CRLF, xs)" for xs
    by (simp add: CRLF_def read_exact_def)
  have "trojan_read_request_any hashes ((hash @ CRLF @ [trojan_command_byte command] @ ep @ CRLF) @ rest)
      = (if hash \<in> set hashes
         then Inr (\<lparr>tq_command = command, tq_destination = with_network (if command = TAssociate then Udp else Tcp) e\<rparr>, rest)
         else Inl trojan_password_incorrect)" for rest hashes
    using assms(2) by (simp add: trojan_read_request_any_def crlf rd)
  with enc show ?thesis
    by blast
qed

lemma skip_payload_ok: "skip_payload (length xs) (xs @ rest) = Inr rest"
proof (induction "length xs" arbitrary: xs rule: less_induct)
  case less
  show ?case
  proof (cases "xs = []")
    case True
    then show ?thesis
      by (simp add: skip_payload.simps)
  next
    case False
    let ?k = "min (length xs) 1024"
    have rd: "read_exact ?k (xs @ rest) = Inr (List.take ?k xs, List.drop ?k xs @ rest)"
      by (rule read_exact_part) simp
    have "skip_payload (length (List.drop ?k xs)) (List.drop ?k xs @ rest) = Inr rest"
      using False by (intro less) simp
    then show ?thesis
      using False rd by (subst skip_payload.simps) simp
  qed
qed

text \<open>A frame on the stream, read into a buffer of a given capacity.\<close>

definition frame_ok :: "endpoint \<times> byte list \<Rightarrow> bool" where
  "frame_ok f \<longleftrightarrow> wire_endpoint (fst f) \<and> endpoint_network (fst f) = Udp \<and> length (snd f) \<le> trojan_max_packet_size"

lemma trojan_read_frame_ok:
  assumes "frame_ok (e, payload)"
  shows "\<exists>bs. trojan_encode_udp_frame e payload = Inr bs
    \<and> (\<forall>rest. trojan_read_udp_frame capacity (bs @ rest) = Inr ((List.take capacity payload, e), rest))"
proof -
  have e: "wire_endpoint e" "endpoint_network e = Udp" "length payload \<le> trojan_max_packet_size" "with_network Udp e = e"
    using assms with_network_same [of e] by (auto simp: frame_ok_def)
  obtain ep where ep: "encode_endpoint e = Inr ep"
    using yuubinsya_endpoint.enc_total [OF e(1)] by blast
  let ?len = "of_nat (length payload) :: u16"
  have len: "unat ?len = length payload"
    using e(3) by (simp add: unat_of_nat trojan_max_packet_size_def)
  have enc: "trojan_encode_udp_frame e payload = Inr (ep @ to_be16 ?len @ CRLF @ payload)"
    using e(2,3) ep by (simp add: trojan_encode_udp_frame_def trojan_max_packet_size_def)
  have crlf: "read_exact 2 (CRLF @ xs) = Inr (CRLF, xs)" for xs
    by (simp add: CRLF_def read_exact_def)
  have "trojan_read_udp_frame capacity ((ep @ to_be16 ?len @ CRLF @ payload) @ rest) = Inr ((List.take capacity payload, e), rest)" for rest
  proof -
    let ?k = "min (length payload) capacity"
    have "read_exact ?k (payload @ rest) = Inr (List.take capacity payload, List.drop capacity payload @ rest)"
      using read_exact_part [of ?k payload rest] by (simp add: min_def not_le)
    moreover have "(if length payload > ?k then skip_payload (length payload - ?k) (List.drop capacity payload @ rest)
        else Inr (List.drop capacity payload @ rest)) = Inr rest"
      using skip_payload_ok [of "List.drop capacity payload" rest] by (auto simp: min_def not_le)
    ultimately show ?thesis
      using trojan_read_endpoint_ok [OF e(1) ep, of Udp] e(4)
      by (simp add: trojan_read_udp_frame_def crlf len Let_def)
  qed
  with enc show ?thesis
    by blast
qed

interpretation trojan_frames: message_stream
  "\<lambda>(e, payload). trojan_encode_udp_frame e payload" "trojan_read_udp_frame capacity" frame_ok
  "\<lambda>(e, payload). (List.take capacity payload, e)" for capacity
proof
  show "\<exists>bs. (case f of (e, payload) \<Rightarrow> trojan_encode_udp_frame e payload) = Inr bs
      \<and> (\<forall>rest. trojan_read_udp_frame capacity (bs @ rest) = Inr (case f of (e, payload) \<Rightarrow> (List.take capacity payload, e), rest))"
    if "frame_ok f" for f
    using trojan_read_frame_ok that by (cases f) simp
qed

end
