(* ===== verification/Vless.thy ===== *)
theory Vless
  imports Wire
begin

text \<open>
  VLESS, \<open>protocol/src/protocols/vless.rs\<close>: identifiers, requests with and without a stream, the response
  header, UDP packets, and the stream that hides the response header from its reader while the
  bytes arrive in pieces.
\<close>

unbundle bit_operations_syntax

subsection \<open>Identifiers and addresses\<close>

definition vless_hex :: "byte \<Rightarrow> byte result" where
  "vless_hex b =
     (if 0x30 \<le> b \<and> b \<le> 0x39 then Inr (b - 0x30)
      else if 0x61 \<le> b \<and> b \<le> 0x66 then Inr (b - 0x61 + 10)
      else if 0x41 \<le> b \<and> b \<le> 0x46 then Inr (b - 0x41 + 10)
      else Inl (error_invalid ''VLESS UUID contains non-hex characters''))"

text \<open>The digits without hyphens; more than 32 of them are an error as soon as the 33rd is seen.\<close>

fun uuid_compact :: "byte list \<Rightarrow> byte list \<Rightarrow> byte list result" where
  "uuid_compact compact [] = Inr compact"
| "uuid_compact compact (b # bs) =
     (if b = 0x2D then uuid_compact compact bs
      else if length compact = 32 then Inl (error_invalid ''VLESS UUID has the wrong length'')
      else uuid_compact (compact @ [b]) bs)"

fun uuid_pairs :: "byte list \<Rightarrow> byte list result" where
  "uuid_pairs (a # b # bs) =
     rbind (vless_hex a) (\<lambda>h. rbind (vless_hex b) (\<lambda>l. rbind (uuid_pairs bs) (\<lambda>os. Inr ((push_bit 4 h OR l) # os))))"
| "uuid_pairs _ = Inr []"

definition parse_uuid :: "string \<Rightarrow> byte list result" where
  "parse_uuid s =
     rbind (uuid_compact [] (as_bytes s)) (\<lambda>compact.
       if length compact \<noteq> 32 then Inl (error_invalid ''VLESS UUID has the wrong length'') else uuid_pairs compact)"

datatype vless_command = VTcp | VUdp

fun vless_command_byte :: "vless_command \<Rightarrow> byte" where
  "vless_command_byte VTcp = 1"
| "vless_command_byte VUdp = 2"

definition vless_command_from_byte :: "byte \<Rightarrow> vless_command result" where
  "vless_command_from_byte b =
     (if b = 1 then Inr VTcp else if b = 2 then Inr VUdp else Inl (error_new Protocol ''unknown VLESS command''))"

fun command_network :: "vless_command \<Rightarrow> network" where
  "command_network VTcp = Tcp"
| "command_network VUdp = Udp"

definition vless_take :: "byte list \<Rightarrow> nat \<Rightarrow> nat \<Rightarrow> (byte list \<times> nat) result" where
  "vless_take = take_at ''VLESS length overflow'' ''VLESS request is truncated''"

definition vless_encode_address :: "endpoint \<Rightarrow> byte list result" where
  "vless_encode_address e =
     (case e of
        EIp _ addr \<Rightarrow> (case sock_ip addr of V4 a \<Rightarrow> Inr ([1] @ to_be32 a) | V6 a \<Rightarrow> Inr ([3] @ to_be128 a))
      | EDomain _ host _ \<Rightarrow>
          if length host > 255 then Inl (error_invalid ''VLESS domain is too long'')
          else Inr ([2, of_nat (length host)] @ as_bytes host))"

definition vless_decode_address :: "byte list \<Rightarrow> nat \<Rightarrow> network \<Rightarrow> u16 \<Rightarrow> (endpoint \<times> nat) result" where
  "vless_decode_address packet cursor network port =
     rbind (vless_take packet cursor 1) (\<lambda>(kind, c1).
     if hd kind = 1 then
       rbind (vless_take packet c1 4) (\<lambda>(a, c2). Inr (EIp network (socket_addr_new (V4 (from_be32 a)) port), c2))
     else if hd kind = 2 then
       rbind (vless_take packet c1 1) (\<lambda>(l, c2).
       rbind (vless_take packet c2 (unat (hd l))) (\<lambda>(d, c3).
         case from_utf8 d of
           None \<Rightarrow> Inl (error_new Protocol ''VLESS domain is not UTF-8'')
         | Some host \<Rightarrow> rbind (domain_name_new host) (\<lambda>domain. Inr (EDomain network domain port, c3))))
     else if hd kind = 3 then
       rbind (vless_take packet c1 16) (\<lambda>(a, c2). Inr (EIp network (socket_addr_new (V6 (from_be128 a)) port), c2))
     else Inl (error_new Protocol ''unknown VLESS address type''))"

subsection \<open>Requests and responses\<close>

record vless_request =
  vq_uuid :: "byte list"
  vq_command :: vless_command
  vq_destination :: endpoint
  vq_addons :: "byte list"

definition vless_encode_request :: "byte list \<Rightarrow> vless_command \<Rightarrow> endpoint \<Rightarrow> byte list result" where
  "vless_encode_request uuid command destination =
     (if command = VTcp \<and> endpoint_network destination \<noteq> Tcp \<or> command = VUdp \<and> endpoint_network destination \<noteq> Udp
      then Inl (error_invalid ''VLESS command and destination network differ'')
      else
        (case endpoint_port destination of
           None \<Rightarrow> Inl (error_invalid ''VLESS destination has no port'')
         | Some port \<Rightarrow>
             rbind (vless_encode_address destination) (\<lambda>bs.
               Inr ([0] @ uuid @ [0] @ [vless_command_byte command] @ to_be16 port @ bs))))"

definition vless_decode_request :: "byte list \<Rightarrow> byte list \<Rightarrow> vless_request result" where
  "vless_decode_request packet expected_uuid =
     rbind (vless_take packet 0 1) (\<lambda>(version, c1).
     if hd version \<noteq> 0 then Inl (error_new Protocol ''unexpected VLESS request version'')
     else
       rbind (vless_take packet c1 16) (\<lambda>(uuid, c2).
       if \<not> constant_time_eq uuid expected_uuid then Inl (error_new Protocol ''VLESS UUID is incorrect'')
       else
         rbind (vless_take packet c2 1) (\<lambda>(addon_length, c3).
         rbind (vless_take packet c3 (unat (hd addon_length))) (\<lambda>(addons, c4).
         rbind (vless_take packet c4 1) (\<lambda>(c, c5).
         rbind (vless_command_from_byte (hd c)) (\<lambda>command.
         rbind (vless_take packet c5 2) (\<lambda>(port, c6).
         rbind (vless_decode_address packet c6 (command_network command) (from_be16 port)) (\<lambda>(destination, c7).
         if c7 \<noteq> length packet then Inl (error_new Protocol ''VLESS request has trailing bytes'')
         else Inr \<lparr>vq_uuid = uuid, vq_command = command, vq_destination = destination, vq_addons = addons\<rparr>))))))))"

definition vless_read_request :: "byte list \<Rightarrow> byte list \<Rightarrow> (vless_request \<times> byte list) result" where
  "vless_read_request expected_uuid input =
     rbind (read_exact 22 input) (\<lambda>(prefix_bytes, r1).
     let address_type = prefix_bytes ! 21 in
     rbind (if address_type = 1 then Inr (4, [], r1)
            else if address_type = 2 then rbind (read_u8 r1) (\<lambda>(len, r2). Inr (unat len, [len], r2))
            else if address_type = 3 then Inr (16, [], r1)
            else Inl (error_new Protocol ''unknown VLESS address type'')) (\<lambda>(address_length, domain_length, r2).
     rbind (read_exact address_length r2) (\<lambda>(address, r3).
     rbind (vless_decode_request (prefix_bytes @ domain_length @ address) expected_uuid) (\<lambda>request. Inr (request, r3)))))"

definition vless_write_response :: "byte list \<Rightarrow> byte list result" where
  "vless_write_response addons =
     (if length addons > 255 then Inl (error_invalid ''VLESS response addons are too large'')
      else Inr ([0, of_nat (length addons)] @ addons))"

definition vless_read_response :: "byte list \<Rightarrow> (unit \<times> byte list) result" where
  "vless_read_response input =
     rbind (read_u8 input) (\<lambda>(version, r1).
     rbind (read_u8 r1) (\<lambda>(addons, r2).
     if version \<noteq> 0 then Inl (error_new Protocol ''unexpected VLESS response version'')
     else if addons \<noteq> 0 then rbind (read_exact (unat addons) r2) (\<lambda>(_, r3). Inr ((), r3))
     else Inr ((), r2)))"

subsection \<open>UDP packets\<close>

definition vless_send_packet :: "byte list \<Rightarrow> byte list result" where
  "vless_send_packet payload =
     (if length payload > 65535 then Inl (error_invalid ''VLESS UDP payload is too large'')
      else Inr (to_be16 (of_nat (length payload)) @ payload))"

definition vless_server_send :: "byte list \<Rightarrow> byte list result" where
  "vless_server_send payload =
     (if length payload > 65535 then Inl (error_invalid ''VLESS UDP response is too large'')
      else Inr (to_be16 (of_nat (length payload)) @ payload))"

text \<open>The server refuses a packet that does not fit its buffer, the client cuts it.\<close>

definition vless_server_recv :: "nat \<Rightarrow> byte list \<Rightarrow> (byte list \<times> byte list) result" where
  "vless_server_recv capacity input =
     rbind (read_u16 input) (\<lambda>(len, r1).
     if unat len > capacity then Inl (error_invalid ''VLESS UDP payload is too large'')
     else read_exact (unat len) r1)"

definition vless_client_recv :: "nat \<Rightarrow> byte list \<Rightarrow> (byte list \<times> byte list) result" where
  "vless_client_recv capacity input =
     rbind (read_u16 input) (\<lambda>(len, r1).
     rbind (read_exact (unat len) r1) (\<lambda>(payload, r2). Inr (List.take (min (unat len) capacity) payload, r2)))"

subsection \<open>The stream behind a response header\<close>

text \<open>
  What the inner stream delivers, one item for each time it is polled: bytes, a pending poll, or an
  error; nothing more is the end of the stream. A poll that asks for fewer bytes than there are
  leaves the others.
\<close>

datatype io_event = Bytes "byte list" | Pend | Broken string

datatype poll = Ready "byte list" | Pending | Failed string

fun inner_poll_read :: "nat \<Rightarrow> io_event list \<Rightarrow> poll \<times> io_event list" where
  "inner_poll_read n [] = (Ready [], [])"
| "inner_poll_read n (Pend # es) = (Pending, es)"
| "inner_poll_read n (Broken m # es) = (Failed m, es)"
| "inner_poll_read n (Bytes bs # es) =
     (if length bs \<le> n then (Ready bs, es) else (Ready (List.take n bs), Bytes (List.drop n bs) # es))"

record vless_stream =
  vs_header :: "byte list" \<comment> \<open>the part of \<open>response_header\<close> that was read\<close>
  vs_addons :: nat
  vs_checked :: bool
  vs_done :: bool

definition vless_stream_new :: vless_stream where
  "vless_stream_new = \<lparr>vs_header = [], vs_addons = 0, vs_checked = False, vs_done = False\<rparr>"

fun event_size :: "io_event \<Rightarrow> nat" where
  "event_size (Bytes bs) = Suc (length bs)"
| "event_size _ = 1"

definition events_size :: "io_event list \<Rightarrow> nat" where
  "events_size es = sum_list (map event_size es)"

lemma inner_poll_smaller:
  "inner_poll_read n es = (r, es') \<Longrightarrow> r \<noteq> Ready [] \<Longrightarrow> events_size es' < events_size es"
  by (cases "(n, es)" rule: inner_poll_read.cases) (auto simp: events_size_def split: if_splits)

lemma inner_poll_le: "inner_poll_read n es = (r, es') \<Longrightarrow> events_size es' \<le> events_size es"
  by (cases "(n, es)" rule: inner_poll_read.cases) (auto simp: events_size_def split: if_splits)

text \<open>One turn of the loop of \<open>poll_response\<close>: to go on with, on the left, or to return.\<close>

definition response_step ::
  "vless_stream \<Rightarrow> io_event list \<Rightarrow> vless_stream \<times> io_event list + vless_stream \<times> io_event list \<times> poll" where
  "response_step s es =
     (if length (vs_header s) < 2 then
        (case inner_poll_read (2 - length (vs_header s)) es of
           (Ready bs, es') \<Rightarrow>
             if bs = [] then Inr (s, es', Failed ''truncated VLESS response header'')
             else Inl (s\<lparr>vs_header := vs_header s @ bs\<rparr>, es')
         | (Failed m, es') \<Rightarrow> Inr (s, es', Failed m)
         | (Pending, es') \<Rightarrow> Inr (s, es', Pending))
      else if \<not> vs_checked s \<and> vs_header s ! 0 \<noteq> 0 then Inr (s, es, Failed ''unexpected VLESS response version'')
      else
        (let s1 = (if vs_checked s then s else s\<lparr>vs_addons := unat (vs_header s ! 1), vs_checked := True\<rparr>) in
         if vs_addons s1 \<noteq> 0 then
           (case inner_poll_read (min (vs_addons s1) 255) es of
              (Ready bs, es') \<Rightarrow>
                if bs = [] then Inr (s1, es', Failed ''truncated VLESS response addons'')
                else Inl (s1\<lparr>vs_addons := vs_addons s1 - length bs\<rparr>, es')
            | (Failed m, es') \<Rightarrow> Inr (s1, es', Failed m)
            | (Pending, es') \<Rightarrow> Inr (s1, es', Pending))
         else Inr (s1\<lparr>vs_done := True\<rparr>, es, Ready [])))"

lemma response_step_smaller:
  "response_step s es = Inl (s', es') \<Longrightarrow> events_size es' < events_size es"
  "response_step s es = Inr (s', es', r) \<Longrightarrow> events_size es' \<le> events_size es \<and> (r = Pending \<longrightarrow> events_size es' < events_size es)"
  by (auto simp: response_step_def Let_def split: if_splits prod.splits poll.splits dest: inner_poll_smaller inner_poll_le)

function poll_response :: "vless_stream \<Rightarrow> io_event list \<Rightarrow> vless_stream \<times> io_event list \<times> poll" where
  "poll_response s es = (case response_step s es of Inl (s', es') \<Rightarrow> poll_response s' es' | Inr out \<Rightarrow> out)"
  by pat_completeness auto
termination
  by (relation "measure (\<lambda>(_, es). events_size es)") (auto dest: response_step_smaller(1))

declare poll_response.simps [simp del]

definition vless_poll_read :: "nat \<Rightarrow> vless_stream \<Rightarrow> io_event list \<Rightarrow> vless_stream \<times> io_event list \<times> poll" where
  "vless_poll_read n s es =
     (if vs_done s then (case inner_poll_read n es of (r, es') \<Rightarrow> (s, es', r))
      else
        (case poll_response s es of
           (s1, es1, Ready _) \<Rightarrow> (case inner_poll_read n es1 of (r, es') \<Rightarrow> (s1, es', r))
         | (s1, es1, r) \<Rightarrow> (s1, es1, r)))"

text \<open>A reader with a buffer of \<open>n\<close> bytes that polls until the end of the stream.\<close>

lemma poll_response_smaller:
  "poll_response s es = (s', es', r) \<Longrightarrow> events_size es' \<le> events_size es \<and> (r = Pending \<longrightarrow> events_size es' < events_size es)"
proof (induction s es rule: poll_response.induct)
  case (1 s es)
  show ?case
  proof (cases "response_step s es")
    case (Inl next_state)
    obtain s1 es1 where n: "next_state = (s1, es1)"
      by (cases next_state)
    have "poll_response s1 es1 = (s', es', r)"
      using "1.prems" Inl n by (simp add: poll_response.simps [of s es])
    from "1.IH" [OF Inl n [symmetric] this] response_step_smaller(1) [of s es s1 es1] Inl n show ?thesis
      by auto
  next
    case (Inr out)
    then have "response_step s es = Inr (s', es', r)"
      using "1.prems" by (simp add: poll_response.simps [of s es])
    then show ?thesis
      by (rule response_step_smaller(2))
  qed
qed

lemma vless_poll_smaller:
  "vless_poll_read n s es = (s', es', r) \<Longrightarrow> r \<noteq> Ready [] \<Longrightarrow> (\<forall>m. r \<noteq> Failed m) \<Longrightarrow> events_size es' < events_size es"
  using inner_poll_smaller [of n es] inner_poll_smaller [of n "fst (snd (poll_response s es))"] poll_response_smaller [of s es]
  by (fastforce simp: vless_poll_read_def split: if_splits prod.splits poll.splits)

function vless_drain :: "nat \<Rightarrow> vless_stream \<Rightarrow> io_event list \<Rightarrow> string + byte list" where
  "vless_drain n s es =
     (case vless_poll_read n s es of
        (s', es', Pending) \<Rightarrow> vless_drain n s' es'
      | (s', es', Failed m) \<Rightarrow> Inl m
      | (s', es', Ready bs) \<Rightarrow> if bs = [] then Inr [] else rbind (vless_drain n s' es') (\<lambda>more_bytes. Inr (bs @ more_bytes)))"
  by pat_completeness auto
termination
  by (relation "measure (\<lambda>(_, _, es). events_size es)") (auto dest: vless_poll_smaller [OF sym])

declare vless_drain.simps [simp del]

subsection \<open>The stream is transparent\<close>

fun event_bytes :: "io_event \<Rightarrow> byte list" where
  "event_bytes (Bytes bs) = bs"
| "event_bytes _ = []"

definition bytes_of :: "io_event list \<Rightarrow> byte list" where
  "bytes_of es = concat (map event_bytes es)"

text \<open>An inner stream that does not fail and delivers no empty reads before its end.\<close>

definition steady :: "io_event list \<Rightarrow> bool" where
  "steady es \<longleftrightarrow> list_all (\<lambda>ev. ev \<noteq> Bytes [] \<and> (\<forall>m. ev \<noteq> Broken m)) es"

lemma inner_poll_steady:
  assumes "steady es" "0 < n" "inner_poll_read n es = (r, es')"
  shows "steady es'"
    and "case r of
      Ready bs \<Rightarrow> bytes_of es = bs @ bytes_of es' \<and> length bs \<le> n \<and> (bs = [] \<longrightarrow> bytes_of es = [])
    | Pending \<Rightarrow> bytes_of es = bytes_of es'
    | Failed _ \<Rightarrow> False"
  using assms by (cases "(n, es)" rule: inner_poll_read.cases; auto simp: steady_def bytes_of_def split: if_splits)+

text \<open>What a reader gets from a state of the stream and the bytes that are still to come.\<close>

definition stream_rest :: "vless_stream \<Rightarrow> byte list \<Rightarrow> string + byte list" where
  "stream_rest s input =
     (if vs_done s then Inr input
      else if vs_checked s then
        (if length input < vs_addons s then Inl ''truncated VLESS response addons'' else Inr (List.drop (vs_addons s) input))
      else
        (let bs = vs_header s @ input in
         if length bs < 2 then Inl ''truncated VLESS response header''
         else if bs ! 0 \<noteq> 0 then Inl ''unexpected VLESS response version''
         else if length bs < 2 + unat (bs ! 1) then Inl ''truncated VLESS response addons''
         else Inr (List.drop (2 + unat (bs ! 1)) bs)))"

definition stream_ok :: "vless_stream \<Rightarrow> bool" where
  "stream_ok s \<longleftrightarrow> length (vs_header s) \<le> 2 \<and> (vs_checked s \<longrightarrow> length (vs_header s) = 2) \<and> \<not> vs_done s"

lemma response_step_rest:
  assumes "steady es" "stream_ok s" "response_step s es = out"
  shows "case out of
      Inl (s', es') \<Rightarrow> steady es' \<and> stream_ok s' \<and> stream_rest s (bytes_of es) = stream_rest s' (bytes_of es')
    | Inr (s', es', Pending) \<Rightarrow> steady es' \<and> stream_ok s' \<and> stream_rest s (bytes_of es) = stream_rest s' (bytes_of es')
    | Inr (s', es', Ready _) \<Rightarrow> steady es' \<and> vs_done s' \<and> stream_rest s (bytes_of es) = Inr (bytes_of es')
    | Inr (s', es', Failed m) \<Rightarrow> stream_rest s (bytes_of es) = Inl m"
proof (cases "length (vs_header s) < 2")
  case True
  obtain r es' where poll: "inner_poll_read (2 - length (vs_header s)) es = (r, es')"
    by fastforce
  note steady = inner_poll_steady [OF assms(1) _ poll]
  have fresh: "\<not> vs_checked s" "\<not> vs_done s"
    using assms(2) True by (auto simp: stream_ok_def)
  show ?thesis
    using assms(2,3) True poll steady fresh
    by (cases r) (auto simp: response_step_def stream_ok_def stream_rest_def Let_def split: if_splits)
next
  case False
  then have two: "length (vs_header s) = 2" "\<not> vs_done s"
    using assms(2) by (auto simp: stream_ok_def)
  show ?thesis
  proof (cases "\<not> vs_checked s \<and> vs_header s ! 0 \<noteq> 0")
    case True
    then show ?thesis
      using two assms(3) by (auto simp: response_step_def stream_rest_def Let_def nth_append)
  next
    case version: False
    define s1 where "s1 = (if vs_checked s then s else s\<lparr>vs_addons := unat (vs_header s ! 1), vs_checked := True\<rparr>)"
    have s1: "vs_checked s1" "length (vs_header s1) = 2" "\<not> vs_done s1"
      using two by (auto simp: s1_def)
    have rest: "stream_rest s input = stream_rest s1 input" for input
      using two version by (auto simp: stream_rest_def s1_def Let_def nth_append drop_append)
    have skip: "stream_rest (s1\<lparr>vs_addons := k\<rparr>) input
        = (if length input < k then Inl ''truncated VLESS response addons'' else Inr (List.drop k input))" for k input
      using s1 by (simp add: stream_rest_def)
    have self: "s1\<lparr>vs_addons := vs_addons s1\<rparr> = s1"
      by simp
    note skip1 = skip [of "vs_addons s1", unfolded self]
    have step: "response_step s es =
        (if vs_addons s1 \<noteq> 0 then
           (case inner_poll_read (min (vs_addons s1) 255) es of
              (Ready bs, es') \<Rightarrow>
                if bs = [] then Inr (s1, es', Failed ''truncated VLESS response addons'')
                else Inl (s1\<lparr>vs_addons := vs_addons s1 - length bs\<rparr>, es')
            | (Failed m, es') \<Rightarrow> Inr (s1, es', Failed m)
            | (Pending, es') \<Rightarrow> Inr (s1, es', Pending))
         else Inr (s1\<lparr>vs_done := True\<rparr>, es, Ready []))"
      unfolding response_step_def if_not_P [OF False] if_not_P [OF version] s1_def [symmetric] Let_def ..
    show ?thesis
    proof (cases "vs_addons s1 = 0")
      case True
      then show ?thesis
        using assms(1,3) step rest skip1 by auto
    next
      case more: False
      obtain r es' where poll: "inner_poll_read (min (vs_addons s1) 255) es = (r, es')"
        by fastforce
      note steady = inner_poll_steady [OF assms(1) _ poll]
      show ?thesis
        using assms(3) more step poll steady s1 unfolding rest
        by (cases r) (auto simp: skip1 skip stream_ok_def)
    qed
  qed
qed

lemma poll_response_rest:
  "steady es \<Longrightarrow> stream_ok s \<Longrightarrow> poll_response s es = (s', es', r) \<Longrightarrow>
   (case r of
      Pending \<Rightarrow> steady es' \<and> stream_ok s' \<and> stream_rest s (bytes_of es) = stream_rest s' (bytes_of es')
    | Ready _ \<Rightarrow> steady es' \<and> vs_done s' \<and> stream_rest s (bytes_of es) = Inr (bytes_of es')
    | Failed m \<Rightarrow> stream_rest s (bytes_of es) = Inl m)"
proof (induction s es rule: poll_response.induct)
  case (1 s es)
  note step = response_step_rest [OF "1.prems"(1,2)]
  show ?case
  proof (cases "response_step s es")
    case (Inl next_state)
    obtain s1 es1 where n: "next_state = (s1, es1)"
      by (cases next_state)
    have run: "poll_response s1 es1 = (s', es', r)"
      using "1.prems"(3) Inl n by (simp add: poll_response.simps [of s es])
    have mid: "steady es1" "stream_ok s1" "stream_rest s (bytes_of es) = stream_rest s1 (bytes_of es1)"
      using step [OF Inl] n by simp_all
    from "1.IH" [OF Inl n [symmetric] mid(1,2) run] show ?thesis
      unfolding mid(3) .
  next
    case (Inr out)
    then have "response_step s es = Inr (s', es', r)"
      using "1.prems"(3) by (simp add: poll_response.simps [of s es])
    from step [OF this] show ?thesis
      by simp
  qed
qed

lemma drain_done:
  "0 < n \<Longrightarrow> steady es \<Longrightarrow> vs_done s \<Longrightarrow> vless_drain n s es = Inr (bytes_of es)"
proof (induction n s es rule: vless_drain.induct)
  case (1 n s es)
  obtain r es' where poll: "inner_poll_read n es = (r, es')"
    by fastforce
  note steady = inner_poll_steady [OF "1.prems"(2,1) poll]
  have read: "vless_poll_read n s es = (s, es', r)"
    using "1.prems"(3) poll by (simp add: vless_poll_read_def)
  note drain = vless_drain.simps [of n s es, unfolded read]
  show ?case
  proof (cases r)
    case (Ready bs)
    then show ?thesis
      using "1.IH"(1) [OF read [symmetric] refl Ready] "1.prems" steady drain by (cases "bs = []") auto
  next
    case Pending
    then show ?thesis
      using "1.IH"(2) [OF read [symmetric] refl Pending] "1.prems" steady drain by simp
  next
    case (Failed m)
    then show ?thesis
      using steady(2) by simp
  qed
qed

lemma drain_rest: "0 < n \<Longrightarrow> steady es \<Longrightarrow> stream_ok s \<Longrightarrow> vless_drain n s es = stream_rest s (bytes_of es)"
proof (induction n s es rule: vless_drain.induct)
  case (1 n s es)
  obtain s1 es1 r1 where resp: "poll_response s es = (s1, es1, r1)"
    by (cases "poll_response s es")
  note rest = poll_response_rest [OF "1.prems"(2,3) resp]
  have open_stream: "\<not> vs_done s"
    using "1.prems"(3) by (simp add: stream_ok_def)
  show ?case
  proof (cases r1)
    case (Ready bs0)
    then have fin: "steady es1" "vs_done s1" "stream_rest s (bytes_of es) = Inr (bytes_of es1)"
      using rest by simp_all
    have "vless_poll_read n s es = vless_poll_read n s1 es1"
      using open_stream fin(2) resp Ready by (simp add: vless_poll_read_def)
    then have "vless_drain n s es = vless_drain n s1 es1"
      unfolding vless_drain.simps [of n s es] vless_drain.simps [of n s1 es1] by simp
    then show ?thesis
      using drain_done [OF "1.prems"(1) fin(1,2)] fin(3) by simp
  next
    case Pending
    have read: "vless_poll_read n s es = (s1, es1, Pending)"
      using open_stream resp Pending by (simp add: vless_poll_read_def)
    then have "vless_drain n s es = vless_drain n s1 es1"
      by (subst vless_drain.simps) simp
    then show ?thesis
      using "1.IH"(2) [OF read [symmetric] refl refl "1.prems"(1)] rest Pending by simp
  next
    case (Failed m)
    then have "vless_poll_read n s es = (s1, es1, Failed m)"
      using open_stream resp by (simp add: vless_poll_read_def)
    then show ?thesis
      using rest Failed by (subst vless_drain.simps) simp
  qed
qed

lemma read_response_rest: "vless_read_response input = Inr ((), rest) \<longleftrightarrow> stream_rest vless_stream_new input = Inr rest"
proof (cases input)
  case Nil
  then show ?thesis
    by (simp add: vless_read_response_def stream_rest_def vless_stream_new_def read_u8_def read_exact_def)
next
  case (Cons v bs)
  then show ?thesis
    by (cases bs) (auto simp: vless_read_response_def stream_rest_def vless_stream_new_def read_u8_def read_exact_def unat_eq_0)
qed

lemma drain_new: "0 < n \<Longrightarrow> steady es \<Longrightarrow> vless_drain n vless_stream_new es = stream_rest vless_stream_new (bytes_of es)"
  by (rule drain_rest) (simp_all add: stream_ok_def vless_stream_new_def)

text \<open>
  In whatever pieces the bytes of a connection arrive, and however often a poll is pending,
  polling the wrapped stream to its end terminates and gives exactly what is behind the response
  header when the whole header is read at once, and fails exactly when that fails.
\<close>

lemma vless_stream_transparent:
  assumes "0 < n" "steady es"
  shows "vless_drain n vless_stream_new es = Inr rest \<longleftrightarrow> vless_read_response (bytes_of es) = Inr ((), rest)"
  using drain_new [OF assms] by (simp add: read_response_rest)

lemma vless_stream_transparent_example:
  "vless_drain 3 vless_stream_new [Bytes [0], Pend, Bytes [2, 9], Bytes [9, 5, 6, 7, 8], Pend] = Inr [5, 6, 7, 8]"
proof -
  have "steady [Bytes [0], Pend, Bytes [2, 9], Bytes [9, 5, 6, 7, 8], Pend]"
    by (simp add: steady_def)
  moreover have "vless_read_response (bytes_of [Bytes [0], Pend, Bytes [2, 9], Bytes [9, 5, 6, 7, 8], Pend]) = Inr ((), [5, 6, 7, 8])"
    by code_simp
  ultimately show ?thesis
    using vless_stream_transparent [of 3] by simp
qed

subsection \<open>Requests come back\<close>

lemma vless_take_left:
  assumes "left_at packet c (xs @ ys)" "len = length xs"
  shows "vless_take packet c len = Inr (xs, c + len)" "left_at packet (c + len) ys"
  using take_left [OF assms] by (simp_all add: vless_take_def)

lemma vless_address_ok:
  assumes "wire_endpoint e" "vless_encode_address e = Inr bs" "endpoint_port e = Some port" "left_at packet c (bs @ rest)"
  shows "vless_decode_address packet c n port = Inr (with_network n e, c + length bs) \<and> left_at packet (c + length bs) rest"
proof (cases e)
  case (EIp m addr)
  define kind :: byte where "kind = (if is_ipv4 (sock_ip addr) then 1 else 3)"
  define a where "a = octets (sock_ip addr)"
  have bs: "bs = [kind] @ a"
    using assms(2) EIp by (cases "sock_ip addr") (auto simp: vless_encode_address_def kind_def a_def)
  have kind: "kind = 1 \<and> length a = 4 \<and> V4 (from_be32 a) = sock_ip addr \<or> kind = 3 \<and> length a = 16 \<and> V6 (from_be128 a) = sock_ip addr"
    by (cases "sock_ip addr") (auto simp: kind_def a_def)
  have addr: "socket_addr_new (sock_ip addr) port = addr"
    using assms(1,3) EIp by (cases addr) (auto simp: socket_addr_new_def)
  have left: "left_at packet c ([kind] @ a @ rest)"
    using assms(4) bs by simp
  note s1 = vless_take_left [OF left, of 1] note s2 = vless_take_left [OF s1(2), of "length a"]
  show ?thesis
    using s1 s2 kind addr EIp bs by (elim disjE) (simp_all add: vless_decode_address_def add.commute [of _ c])
next
  case (EDomain m domain port')
  then have d: "valid_domain domain" "length domain \<le> 253" "port' = port"
    using assms(1,3) by (auto simp: valid_domain_def)
  then have bs: "bs = [2] @ [of_nat (length domain)] @ as_bytes domain"
    using assms(2) EDomain by (auto simp: vless_encode_address_def)
  have left: "left_at packet c ([2] @ [of_nat (length domain)] @ as_bytes domain @ rest)"
    using assms(4) bs by simp
  have len: "unat (of_nat (length domain) :: byte) = length domain"
    using d(2) by (simp add: unat_small_byte)
  note s1 = vless_take_left [OF left refl, unfolded length_Cons list.size, simplified]
  note s2 = vless_take_left [of packet "Suc c" "[of_nat (length domain)]", OF _ refl, simplified, OF s1(2)]
  note s3 = vless_take_left [OF s2(2) refl, simplified]
  have "vless_decode_address packet c n port = Inr (EDomain n domain port, c + (length domain + 2))"
    unfolding vless_decode_address_def by (simp add: s1 s2 s3 len valid_domain_utf8 [OF d(1)] domain_name_new_of_valid [OF d(1)])
  with s3(2) show ?thesis
    by (simp add: EDomain d(3) bs add.commute add.left_commute)
qed

lemma vless_encode_address_total: "wire_endpoint e \<Longrightarrow> \<exists>bs. vless_encode_address e = Inr bs \<and> length bs \<le> 255"
  by (cases e) (auto simp: vless_encode_address_def valid_domain_def split: ip_addr.split)

text \<open>A request as it stands in a packet, addons included.\<close>

definition vless_request_bytes :: "byte list \<Rightarrow> byte list \<Rightarrow> vless_command \<Rightarrow> u16 \<Rightarrow> byte list \<Rightarrow> byte list" where
  "vless_request_bytes uuid addons command port address =
     [0] @ uuid @ [of_nat (length addons)] @ addons @ [vless_command_byte command] @ to_be16 port @ address"

lemma vless_command_roundtrip [simp]: "vless_command_from_byte (vless_command_byte c) = Inr c"
  by (cases c) (simp_all add: vless_command_from_byte_def)

lemma vless_decode_request_ok:
  assumes "wire_endpoint e" "vless_encode_address e = Inr bs" "endpoint_port e = Some port"
    "length uuid = 16" "length addons \<le> 255" "endpoint_network e = command_network command"
  shows "vless_decode_request (vless_request_bytes uuid addons command port bs) expected =
    (if uuid = expected
     then Inr \<lparr>vq_uuid = uuid, vq_command = command, vq_destination = e, vq_addons = addons\<rparr>
     else Inl (error_new Protocol ''VLESS UUID is incorrect''))"
proof -
  define p where "p = vless_request_bytes uuid addons command port bs"
  have "length bs \<le> 255"
    using vless_encode_address_total [OF assms(1)] assms(2) by auto
  then have "length p < 2 ^ 64"
    using assms(4,5) by (simp add: p_def vless_request_bytes_def)
  then have s0: "left_at p 0 ([0] @ uuid @ [of_nat (length addons)] @ addons @ [vless_command_byte command] @ to_be16 port @ bs @ [])"
    by (simp add: left_at_def p_def vless_request_bytes_def)
  have len: "unat (of_nat (length addons) :: byte) = length addons"
    using assms(5) by (rule unat_small_byte)
  have version: "vless_take p 0 1 = Inr ([0], 1)"
    and s1: "left_at p 1 (uuid @ [of_nat (length addons)] @ addons @ [vless_command_byte command] @ to_be16 port @ bs @ [])"
    using vless_take_left [OF s0, of 1] by simp_all
  have key: "vless_take p 1 16 = Inr (uuid, 17)"
    and s2: "left_at p 17 ([of_nat (length addons)] @ addons @ [vless_command_byte command] @ to_be16 port @ bs @ [])"
    using vless_take_left [OF s1, of 16] assms(4) by simp_all
  have size: "vless_take p 17 1 = Inr ([of_nat (length addons)], 18)"
    and s3: "left_at p 18 (addons @ [vless_command_byte command] @ to_be16 port @ bs @ [])"
    using vless_take_left [OF s2, of 1] by simp_all
  note s4 = vless_take_left [OF s3 refl]
  have cmd: "vless_take p (18 + length addons) 1 = Inr ([vless_command_byte command], 19 + length addons)"
    and s5: "left_at p (19 + length addons) (to_be16 port @ bs @ [])"
    using vless_take_left [OF s4(2), of 1] by simp_all
  have prt: "vless_take p (19 + length addons) 2 = Inr (to_be16 port, 21 + length addons)"
    and s6: "left_at p (21 + length addons) (bs @ [])"
    using vless_take_left [OF s5, of 2] by (simp_all add: eval_nat_numeral)
  have "with_network (command_network command) e = e"
    using with_network_same [of e] assms(6) by simp
  with vless_address_ok [OF assms(1-3) s6, of "command_network command"]
  have address: "vless_decode_address p (21 + length addons) (command_network command) port = Inr (e, 21 + length addons + length bs)"
    by simp
  have whole: "21 + length addons + length bs = length p"
    using assms(4) by (simp add: p_def vless_request_bytes_def)
  show ?thesis
    unfolding p_def [symmetric] vless_decode_request_def
    using whole by (simp add: version key size s4(1) cmd prt address len del: One_nat_def)
qed

lemma vless_read_bytes:
  assumes "wire_endpoint e" "vless_encode_address e = Inr address" "length uuid = 16"
  shows "vless_read_request expected (vless_request_bytes uuid [] command port address @ rest)
    = rbind (vless_decode_request (vless_request_bytes uuid [] command port address) expected) (\<lambda>q. Inr (q, rest))"
proof -
  define start where "start = [0] @ uuid @ [0, vless_command_byte command] @ to_be16 port"
  have start: "length start = 21"
    using assms(3) by (simp add: start_def)
  have whole: "vless_request_bytes uuid [] command port address = start @ address"
    by (simp add: vless_request_bytes_def start_def)
  obtain kind body where split_address: "address = kind # body"
    and kind: "kind = 1 \<and> length body = 4 \<or> kind = 3 \<and> length body = 16
      \<or> kind = 2 \<and> body \<noteq> [] \<and> length (tl body) = unat (hd body)"
    using assms(1,2) by (cases e) (auto simp: vless_encode_address_def valid_domain_def unat_small_byte split: ip_addr.splits)
  have "read_exact 22 ((start @ [kind]) @ body @ rest) = Inr (start @ [kind], body @ rest)"
    using start by (intro read_exact_append) simp
  moreover have "(start @ [kind]) ! 21 = kind"
    using start by (simp add: nth_append)
  ultimately show ?thesis
    using kind read_exact_append [OF refl, of body rest] unfolding whole vless_read_request_def unfolding split_address
    by (cases body) (auto simp: Let_def)
qed

text \<open>
  The request a client writes is the request the server gets when it knows the identifier,
  from the packet and from a stream that goes on behind it; any other identifier is refused.
\<close>

lemma vless_request_roundtrip:
  assumes "wire_endpoint e" "endpoint_network e = command_network command" "length uuid = 16"
  shows "\<exists>bs. vless_encode_request uuid command e = Inr bs
    \<and> vless_decode_request bs expected =
        (if uuid = expected
         then Inr \<lparr>vq_uuid = uuid, vq_command = command, vq_destination = e, vq_addons = []\<rparr>
         else Inl (error_new Protocol ''VLESS UUID is incorrect''))
    \<and> (\<forall>rest. vless_read_request expected (bs @ rest) = rbind (vless_decode_request bs expected) (\<lambda>q. Inr (q, rest)))"
proof -
  obtain address where address: "vless_encode_address e = Inr address"
    using vless_encode_address_total [OF assms(1)] by blast
  obtain port where port: "endpoint_port e = Some port"
    by (cases e) auto
  let ?bs = "vless_request_bytes uuid [] command port address"
  have "vless_encode_request uuid command e = Inr ?bs"
    using assms(2) address port by (cases command) (auto simp: vless_encode_request_def vless_request_bytes_def)
  moreover note vless_decode_request_ok [OF assms(1) address port assms(3) _ assms(2), of "[]" expected]
  moreover have "vless_read_request expected (?bs @ rest) = rbind (vless_decode_request ?bs expected) (\<lambda>q. Inr (q, rest))" for rest
    using vless_read_bytes [OF assms(1) address assms(3)] .
  ultimately show ?thesis
    by auto
qed

text \<open>
  What a packet with addons is taken for differs: the packet decoder accepts it, the stream reader
  looks for the address behind a header without addons.
\<close>

lemma vless_addons_need_a_packet:
  "vless_decode_request (vless_request_bytes (replicate 16 7) [5] VTcp 443 [1, 10, 0, 0, 1]) (replicate 16 7)
     = Inr \<lparr>vq_uuid = replicate 16 7, vq_command = VTcp, vq_destination = EIp Tcp (SockV4 0x0A000001 443), vq_addons = [5]\<rparr>"
  "vless_read_request (replicate 16 7) (vless_request_bytes (replicate 16 7) [5] VTcp 443 [1, 10, 0, 0, 1])
     = Inl (error_new Protocol ''unknown VLESS address type'')"
  by code_simp+

lemma unat_byte_le: "unat (b :: byte) \<le> 255"
  using unat_byte_less [of b] by linarith

lemma vless_take_bound: "vless_take packet c len = Inr (xs, c') \<Longrightarrow> length xs = len \<and> c' = c + len \<and> c' \<le> length packet"
  unfolding vless_take_def by (rule take_at_bound)

lemma vless_decode_address_wire:
  assumes "vless_decode_address packet c n port = Inr (e, c')"
  shows "wire_endpoint e \<and> endpoint_network e = n \<and> endpoint_port e = Some port"
  using assms unfolding vless_decode_address_def rbind_eq_Inr_iff
  by (elim exE conjE) (auto simp: rbind_eq_Inr_iff socket_addr_new_def dest!: vless_take_bound domain_name_new_valid
      split: if_splits option.splits ip_addr.splits)

text \<open>
  C34: whatever bytes arrive, a request that is accepted carries the identifier of the server and a
  destination that is well-formed, on the network of its command; the client would encode it again.
\<close>

theorem vless_request_typed:
  assumes "vless_decode_request packet uuid = Inr q"
  shows "vq_uuid q = uuid \<and> length uuid = 16 \<and> wire_endpoint (vq_destination q)
    \<and> endpoint_network (vq_destination q) = command_network (vq_command q) \<and> length (vq_addons q) \<le> 255
    \<and> (\<exists>bs. vless_encode_request uuid (vq_command q) (vq_destination q) = Inr bs
        \<and> vless_decode_request bs uuid = Inr (q\<lparr>vq_addons := []\<rparr>))"
proof -
  have typed: "vq_uuid q = uuid \<and> length uuid = 16 \<and> wire_endpoint (vq_destination q)
    \<and> endpoint_network (vq_destination q) = command_network (vq_command q) \<and> length (vq_addons q) \<le> 255"
    using assms unfolding vless_decode_request_def
    by (auto simp: rbind_eq_Inr_iff unat_byte_le dest!: vless_take_bound vless_decode_address_wire split: if_splits)
  with vless_request_roundtrip [of "vq_destination q" "vq_command q" uuid uuid] show ?thesis
    by (cases q) auto
qed

theorem vless_request_typed_witness:
  "wire_endpoint (EIp Tcp (SockV4 0x0A000001 443))
   \<and> (\<exists>bs. vless_encode_request (replicate 16 7) VTcp (EIp Tcp (SockV4 0x0A000001 443)) = Inr bs)"
  using vless_request_typed [OF vless_addons_need_a_packet(1)] by auto

subsection \<open>Packets come back\<close>

interpretation vless_upload: message_stream vless_send_packet "vless_server_recv capacity" "\<lambda>p. length p \<le> 65535 \<and> length p \<le> capacity"
  "\<lambda>p. p" for capacity
  by unfold_locales (auto simp: vless_send_packet_def vless_server_recv_def unat_small16)

interpretation vless_download: message_stream vless_server_send "vless_client_recv capacity" "\<lambda>p. length p \<le> 65535"
  "List.take capacity" for capacity
  by unfold_locales (auto simp: vless_server_send_def vless_client_recv_def unat_small16 min_def)

text \<open>
  Packets sent one after the other arrive whole, in order and separate. The server gets those
  that fit its buffer, the client gets each cut to its buffer without losing its place.
\<close>

lemma vless_packets_roundtrip:
  assumes "list_all (\<lambda>p. length p \<le> 65535) ps"
  shows "\<exists>bs. write_many vless_server_send ps = Inr bs
      \<and> (\<forall>rest. read_many (vless_client_recv capacity) (length ps) (bs @ rest) = Inr (map (List.take capacity) ps, rest))"
    "list_all (\<lambda>p. length p \<le> capacity) ps \<Longrightarrow> \<exists>bs. write_many vless_send_packet ps = Inr bs
      \<and> (\<forall>rest. read_many (vless_server_recv capacity) (length ps) (bs @ rest) = Inr (ps, rest))"
  using vless_download.read_many_written [OF assms, of capacity] vless_upload.read_many_written [of capacity ps] assms
  by (auto simp: list_all_iff)

end
