(* ===== verification/Proxy_Sessions.thy ===== *)
theory Proxy_Sessions
  imports Trojan Vless
begin

text \<open>
  The two ends of a Trojan and of a VLESS connection, \<open>protocol/src/protocols/trojan.rs\<close> and
  \<open>vless.rs\<close>: what the clients write when they connect, what the servers do with an accepted stream,
  and the datagrams on both sides. The upstream stream of a client is connected, and the handlers
  a server hands a stream to are arguments, conversations themselves.
\<close>

definition talk_parse :: "(byte list \<Rightarrow> ('a \<times> byte list) result) \<Rightarrow> 'a talk" where
  "talk_parse p = (\<lambda>input. ([], p input))"

definition talk_write_result :: "byte list result \<Rightarrow> unit talk" where
  "talk_write_result r = talk_bind (talk_lift r) talk_write"

fun talk_each :: "('a \<Rightarrow> 'b talk) \<Rightarrow> 'a list \<Rightarrow> unit talk" where
  "talk_each f [] = talk_return ()"
| "talk_each f (x # xs) = talk_bind (f x) (\<lambda>_. talk_each f xs)"

lemma talk_parse_simps [talk_simps]:
  "p input = Inr (x, rest) \<Longrightarrow> talk_bind (talk_parse p) f input = f x rest"
  "p input = Inl e \<Longrightarrow> talk_bind (talk_parse p) f input = ([], Inl e)"
  by (simp_all add: talk_parse_def talk_bind_def split: prod.split)

lemma talk_write_result_simps [talk_simps]:
  "talk_bind (talk_write_result (Inr bs)) g input = (bs @ fst (g () input), snd (g () input))"
  "talk_write_result (Inr bs) input = (bs, Inr ((), input))"
  "talk_write_result (Inl e) input = ([], Inl e)"
  by (simp_all add: talk_write_result_def talk_bind_assoc talk_simps)

text \<open>Writing for each of many is writing the concatenation.\<close>

lemma talk_each_writes:
  assumes "\<And>x input bs. wr x = Inr bs \<Longrightarrow> \<exists>y. f x input = (bs, Inr (y, input))" "write_many wr xs = Inr bs"
  shows "talk_each f xs input = (bs, Inr ((), input))"
  using assms(2)
proof (induction xs arbitrary: bs)
  case (Cons x xs)
  then obtain b bs' where bs: "wr x = Inr b" "write_many wr xs = Inr bs'" "bs = b @ bs'"
    by (auto simp: rbind_eq_Inr_iff)
  obtain y where "f x input = (b, Inr (y, input))"
    using assms(1) [OF bs(1)] by blast
  then show ?case
    by (simp add: talk_bind_run(1) Cons.IH [OF bs(2)] bs(3))
qed (simp add: talk_simps)

subsection \<open>Trojan\<close>

record trojan_udp_server =
  tu_peer :: socket_addr
  tu_capacity :: nat

definition trojan_udp_server_new :: "socket_addr \<Rightarrow> nat \<Rightarrow> trojan_udp_server" where
  "trojan_udp_server_new peer buffer_size = \<lparr>tu_peer = peer, tu_capacity = max buffer_size 512\<rparr>"

definition udp_request_from :: "socket_addr \<Rightarrow> endpoint \<Rightarrow> byte list \<Rightarrow> inbound_udp_request" where
  "udp_request_from peer target payload =
     \<lparr>ur_id = \<lparr>uf_peer = peer, uf_target = target, uf_authentication = None\<rparr>,
      ur_peer = EIp Udp peer, ur_target = target, ur_payload = payload\<rparr>"

definition trojan_udp_recv :: "trojan_udp_server \<Rightarrow> byte list \<Rightarrow> (inbound_udp_request option \<times> byte list) result" where
  "trojan_udp_recv s input =
     rbind (trojan_read_udp_frame (tu_capacity s) input) (\<lambda>((payload, target), rest).
       Inr (Some (udp_request_from (tu_peer s) target payload), rest))"

definition trojan_udp_send :: "inbound_udp_request \<Rightarrow> unit talk" where
  "trojan_udp_send response = talk_write_result (trojan_encode_udp_frame (ur_target response) (ur_payload response))"

definition trojan_handle ::
  "(socket_addr \<Rightarrow> endpoint \<Rightarrow> string \<Rightarrow> unit talk) \<Rightarrow> (trojan_udp_server \<Rightarrow> unit talk)
    \<Rightarrow> socket_addr \<Rightarrow> byte list list \<Rightarrow> nat \<Rightarrow> unit talk" where
  "trojan_handle handle_stream udp_handler peer expected_hashes udp_buffer_size =
     talk_bind (talk_parse (trojan_read_request_any expected_hashes)) (\<lambda>request.
       case tq_command request of
         TConnect \<Rightarrow> handle_stream peer (tq_destination request) ''trojan''
       | TAssociate \<Rightarrow> udp_handler (trojan_udp_server_new peer udp_buffer_size)
       | TMux \<Rightarrow> talk_fail (error_new Unsupported ''Trojan MUX inbound is not implemented''))"

definition trojan_connect :: "byte list \<Rightarrow> flow_context \<Rightarrow> unit talk" where
  "trojan_connect hash ctx = talk_write_result (trojan_encode_request hash TConnect (effective_destination ctx))"

definition trojan_open_datagram :: "byte list \<Rightarrow> flow_context \<Rightarrow> unit talk" where
  "trojan_open_datagram hash ctx = talk_write_result (trojan_encode_request hash TAssociate (effective_destination ctx))"

definition trojan_send_to :: "byte list \<Rightarrow> endpoint \<Rightarrow> nat talk" where
  "trojan_send_to payload target =
     talk_bind (talk_write_result (trojan_encode_udp_frame target payload)) (\<lambda>_. talk_return (length payload))"

definition trojan_recv_from :: "nat \<Rightarrow> (byte list \<times> endpoint) talk" where
  "trojan_recv_from capacity = talk_parse (trojan_read_udp_frame capacity)"

subsection \<open>VLESS\<close>

record vless_udp_server =
  vu_peer :: socket_addr
  vu_destination :: endpoint
  vu_capacity :: nat

definition vless_udp_server_new :: "socket_addr \<Rightarrow> endpoint \<Rightarrow> nat \<Rightarrow> vless_udp_server" where
  "vless_udp_server_new peer destination buffer_size =
     \<lparr>vu_peer = peer, vu_destination = destination, vu_capacity = max buffer_size 512\<rparr>"

definition vless_udp_recv :: "vless_udp_server \<Rightarrow> byte list \<Rightarrow> (inbound_udp_request option \<times> byte list) result" where
  "vless_udp_recv s input =
     rbind (vless_server_recv (vu_capacity s) input) (\<lambda>(payload, rest).
       Inr (Some (udp_request_from (vu_peer s) (vu_destination s) payload), rest))"

definition vless_udp_send :: "inbound_udp_request \<Rightarrow> unit talk" where
  "vless_udp_send response = talk_write_result (vless_server_send (ur_payload response))"

definition vless_handle ::
  "(socket_addr \<Rightarrow> endpoint \<Rightarrow> string \<Rightarrow> unit talk) \<Rightarrow> (vless_udp_server \<Rightarrow> unit talk)
    \<Rightarrow> socket_addr \<Rightarrow> byte list \<Rightarrow> nat \<Rightarrow> unit talk" where
  "vless_handle handle_stream udp_handler peer uuid udp_buffer_size =
     talk_bind (talk_parse (vless_read_request uuid)) (\<lambda>request.
       case vq_command request of
         VTcp \<Rightarrow>
           talk_bind (talk_write_result (vless_write_response [])) (\<lambda>_.
             handle_stream peer (vq_destination request) ''vless'')
       | VUdp \<Rightarrow> udp_handler (vless_udp_server_new peer (vq_destination request) udp_buffer_size))"

definition vless_connect :: "byte list \<Rightarrow> flow_context \<Rightarrow> vless_stream talk" where
  "vless_connect uuid ctx =
     talk_bind (talk_write_result (vless_encode_request uuid VTcp (effective_destination ctx))) (\<lambda>_.
       talk_return vless_stream_new)"

text \<open>A datagram of VLESS is bound to the destination of its request.\<close>

definition vless_open_datagram :: "byte list \<Rightarrow> flow_context \<Rightarrow> endpoint talk" where
  "vless_open_datagram uuid ctx =
     (let destination = effective_destination ctx in
      talk_bind (talk_write_result (vless_encode_request uuid VUdp destination)) (\<lambda>_. talk_return destination))"

definition vless_send_to :: "byte list \<Rightarrow> nat talk" where
  "vless_send_to payload = talk_bind (talk_write_result (vless_send_packet payload)) (\<lambda>_. talk_return (length payload))"

definition vless_recv_from :: "endpoint \<Rightarrow> nat \<Rightarrow> (byte list \<times> endpoint) talk" where
  "vless_recv_from destination capacity =
     talk_bind (talk_parse (vless_client_recv capacity)) (\<lambda>payload. talk_return (payload, destination))"

subsection \<open>Client and server together\<close>

lemma read_many_map:
  "(\<And>input. rd' input = rbind (rd input) (\<lambda>(x, rest). Inr (f x, rest))) \<Longrightarrow>
   read_many rd n input = Inr (xs, rest) \<Longrightarrow> read_many rd' n input = Inr (map f xs, rest)"
  by (induction n arbitrary: input xs) (fastforce simp: rbind_eq_Inr_iff)+

text \<open>A client that opens an association and sends its datagrams.\<close>

definition trojan_udp_client :: "byte list \<Rightarrow> flow_context \<Rightarrow> (endpoint \<times> byte list) list \<Rightarrow> unit talk" where
  "trojan_udp_client hash ctx fs =
     talk_bind (trojan_open_datagram hash ctx) (\<lambda>_. talk_each (\<lambda>(target, payload). trojan_send_to payload target) fs)"

text \<open>
  C21: the datagrams a Trojan client sends after it has opened its association are the requests the
  server receives, with their targets and payloads and with the peer of the stream, each cut to the
  buffer of the server; a client whose hash the server does not know gets no association at all.
\<close>

theorem trojan_udp_session:
  assumes "wire_endpoint (effective_destination ctx)" "length hash = trojan_hash_length" "list_all frame_ok fs"
  shows "\<exists>frames. snd (trojan_udp_client hash ctx fs []) = Inr ((), [])
    \<and> trojan_handle handle_stream udp_handler peer hashes buffer_size (fst (trojan_udp_client hash ctx fs []))
      = (if hash \<in> set hashes then udp_handler (trojan_udp_server_new peer buffer_size) frames
         else ([], Inl trojan_password_incorrect))
    \<and> read_many (trojan_udp_recv (trojan_udp_server_new peer buffer_size)) (length fs) frames
      = Inr (map (\<lambda>(target, payload). Some (udp_request_from peer target (List.take (max buffer_size 512) payload))) fs, [])"
proof -
  obtain bs where bs: "trojan_encode_request hash TAssociate (effective_destination ctx) = Inr bs"
    and request: "\<And>rest. trojan_read_request_any hashes (bs @ rest)
        = (if hash \<in> set hashes
           then Inr (\<lparr>tq_command = TAssociate, tq_destination = with_network Udp (effective_destination ctx)\<rparr>, rest)
           else Inl trojan_password_incorrect)"
    using trojan_read_request_written [OF assms(1,2), of TAssociate] by auto
  obtain frames where frames: "write_many (\<lambda>(e, p). trojan_encode_udp_frame e p) fs = Inr frames"
    and reread: "\<And>rest. read_many (trojan_read_udp_frame (max buffer_size 512)) (length fs) (frames @ rest)
        = Inr (map (\<lambda>(e, p). (List.take (max buffer_size 512) p, e)) fs, rest)"
    using trojan_frames.read_many_written [OF assms(3), of "max buffer_size 512"] by auto
  have each: "talk_each (\<lambda>(target, payload). trojan_send_to payload target) fs input = (frames, Inr ((), input))" for input
    using frames by (rule talk_each_writes [rotated]) (auto simp: trojan_send_to_def talk_simps)
  have client: "trojan_udp_client hash ctx fs [] = (bs @ frames, Inr ((), []))"
    by (simp add: trojan_udp_client_def trojan_open_datagram_def bs talk_simps each)
  have "read_many (trojan_udp_recv (trojan_udp_server_new peer buffer_size)) (length fs) frames
      = Inr (map (\<lambda>(payload, target). Some (udp_request_from peer target payload)) (map (\<lambda>(e, p). (List.take (max buffer_size 512) p, e)) fs), [])"
    using reread [of "[]"]
    by (intro read_many_map [where rd = "trojan_read_udp_frame (max buffer_size 512)"])
      (auto simp: trojan_udp_recv_def trojan_udp_server_new_def intro!: arg_cong2 [where f = rbind])
  moreover have "trojan_handle handle_stream udp_handler peer hashes buffer_size (bs @ frames)
      = (if hash \<in> set hashes then udp_handler (trojan_udp_server_new peer buffer_size) frames else ([], Inl trojan_password_incorrect))"
    by (simp add: trojan_handle_def talk_simps request)
  ultimately show ?thesis
    unfolding client by (intro exI [of _ frames]) (simp add: split_def o_def)
qed

text \<open>
  C20: a VLESS connection is transparent. The server hands its handler the destination of the flow
  and the bytes behind the request, unchanged, and in whatever pieces the bytes of the server arrive,
  the client reads exactly what the handler wrote.
\<close>

theorem vless_tcp_session:
  assumes "wire_endpoint (effective_destination ctx)" "endpoint_network (effective_destination ctx) = Tcp" "length uuid = 16"
  shows "\<exists>request out. vless_connect uuid ctx input = (request, Inr (vless_stream_new, input))
    \<and> vless_handle handle_stream udp_handler peer uuid buffer_size (request @ sent)
      = (out, snd (handle_stream peer (effective_destination ctx) ''vless'' sent))
    \<and> (\<forall>es n. steady es \<and> bytes_of es = out \<and> 0 < n \<longrightarrow>
        vless_drain n vless_stream_new es = Inr (fst (handle_stream peer (effective_destination ctx) ''vless'' sent)))"
proof -
  let ?d = "effective_destination ctx"
  let ?reply = "handle_stream peer ?d ''vless'' sent"
  obtain bs where bs: "vless_encode_request uuid VTcp ?d = Inr bs"
    and rd: "vless_read_request uuid (bs @ sent) = Inr (\<lparr>vq_uuid = uuid, vq_command = VTcp, vq_destination = ?d, vq_addons = []\<rparr>, sent)"
    using vless_request_roundtrip [OF assms(1) _ assms(3), of VTcp uuid] assms(2) by auto
  have response: "vless_write_response [] = Inr [0, 0]"
    by (simp add: vless_write_response_def)
  have "vless_handle handle_stream udp_handler peer uuid buffer_size (bs @ sent) = ([0, 0] @ fst ?reply, snd ?reply)"
    by (simp add: vless_handle_def talk_simps rd response)
  moreover have "vless_drain n vless_stream_new es = Inr (fst ?reply)" if "steady es" "bytes_of es = [0, 0] @ fst ?reply" "0 < n" for es n
    using that drain_new [of n es] by (simp add: vless_read_response_def read_response_rest [symmetric])
  moreover have "vless_connect uuid ctx input = (bs, Inr (vless_stream_new, input))"
    by (simp add: vless_connect_def bs talk_simps)
  ultimately show ?thesis
    by (intro exI [of _ bs] exI [of _ "[0, 0] @ fst ?reply"]) auto
qed

theorem trojan_udp_session_witness:
  "\<exists>frames. trojan_handle (\<lambda>_ _ _. talk_fail eof_error) (\<lambda>_. talk_return ()) (SockV4 9 1000) [replicate 56 7] 600
      (fst (trojan_udp_client (replicate 56 7) (flow_context_new (EDomain Udp ''a.com'' 53)) [(EIp Udp (SockV4 1 53), [1, 2, 3])] []))
      = talk_return () frames
    \<and> read_many (trojan_udp_recv (trojan_udp_server_new (SockV4 9 1000) 600)) 1 frames
      = Inr ([Some (udp_request_from (SockV4 9 1000) (EIp Udp (SockV4 1 53)) [1, 2, 3])], [])"
proof -
  have "wire_endpoint (effective_destination (flow_context_new (EDomain Udp ''a.com'' 53)))"
    "list_all frame_ok [(EIp Udp (SockV4 1 53), [1, 2, 3])]"
    by code_simp+
  from trojan_udp_session [OF this(1) _ this(2), of "replicate 56 7" "\<lambda>_ _ _. talk_fail eof_error" "\<lambda>_. talk_return ()"
      "SockV4 9 1000" "[replicate 56 7]" 600]
  show ?thesis
    by (auto simp: trojan_hash_length_def)
qed

theorem vless_tcp_session_witness:
  "\<exists>request out. vless_connect (replicate 16 7) (flow_context_new (EDomain Tcp ''a.com'' 443)) [] = (request, Inr (vless_stream_new, []))
     \<and> vless_handle (\<lambda>_ _ _. talk_write [4, 5, 6]) (\<lambda>_. talk_return ()) (SockV4 9 1000) (replicate 16 7) 600 (request @ [1, 2])
       = (out, Inr ((), [1, 2]))
     \<and> (\<forall>es n. steady es \<and> bytes_of es = out \<and> 0 < n \<longrightarrow> vless_drain n vless_stream_new es = Inr [4, 5, 6])"
proof -
  have "wire_endpoint (effective_destination (flow_context_new (EDomain Tcp ''a.com'' 443)))"
    "endpoint_network (effective_destination (flow_context_new (EDomain Tcp ''a.com'' 443))) = Tcp"
    by code_simp+
  from vless_tcp_session [OF this, of "replicate 16 7" "[]" "\<lambda>_ _ _. talk_write [4, 5, 6]" "\<lambda>_. talk_return ()"
      "SockV4 9 1000" 600 "[1, 2]"]
  show ?thesis
    by (simp add: talk_simps)
qed

end
