(* ===== verification/Quic_Datagram.thy ===== *)
theory Quic_Datagram
  imports Wire
begin

text \<open>
  The UDP envelope in QUIC datagrams, \<open>protocol/src/transports/quic/codec.rs\<close>: the tag as a variable-length
  integer, cutting a payload for the size of a datagram, and the bounded reassembler. A panic is
  \<open>None\<close>; instants count nanoseconds; the sizes of the types whose memory is accounted for are the
  argument \<open>layout\<close>, that of a table entry and that of a fragment slot.
\<close>

unbundle bit_operations_syntax

subsection \<open>Tags\<close>

definition MAX_REASSEMBLED_PAYLOAD :: nat where "MAX_REASSEMBLED_PAYLOAD = 128 * 1024"
definition MAX_FRAGMENT_COUNT :: nat where "MAX_FRAGMENT_COUNT = 1024"
definition MAX_INCOMPLETE_BYTES_PER_ASSOCIATION :: nat where "MAX_INCOMPLETE_BYTES_PER_ASSOCIATION = 1024 * 1024"
definition MAX_INCOMPLETE_MESSAGES_PER_ASSOCIATION :: nat where "MAX_INCOMPLETE_MESSAGES_PER_ASSOCIATION = 256"
definition FRAGMENT_REASSEMBLY_TIMEOUT :: nat where "FRAGMENT_REASSEMBLY_TIMEOUT = 2 * 1000000000"
definition FRAGMENT_HEADER_LEN :: nat where "FRAGMENT_HEADER_LEN = 8"
definition MAX_ASSOCIATION_ID :: u32 where "MAX_ASSOCIATION_ID = push_bit 29 1 - 1"

datatype quic_frame =
  Single u32 "byte list"
| Fragment u32 u32 u16 u16 "byte list" \<comment> \<open>association, message, index, count, payload\<close>

datatype decode_error =
  Truncated | InvalidAssociationId | InvalidFragmentCount | InvalidFragmentIndex | EmptyFragment | PayloadTooLarge

datatype encode_error = EncodeAssociationId | DatagramTooSmall | EncodeTooLarge | TooManyFragments

definition validate_association_id :: "u32 \<Rightarrow> encode_error + unit" where
  "validate_association_id association_id =
     (if association_id = 0 \<or> association_id > MAX_ASSOCIATION_ID then Inl EncodeAssociationId else Inr ())"

definition tag_value :: "u32 \<Rightarrow> bool \<Rightarrow> encode_error + u32" where
  "tag_value association_id fragmented =
     rbind (validate_association_id association_id) (\<lambda>_. Inr (push_bit 1 association_id OR of_bool fragmented))"

definition varint_len :: "u32 \<Rightarrow> nat option" where
  "varint_len v = (if v \<le> 63 then Some 1 else if v \<le> 16383 then Some 2 else if v \<le> 1073741823 then Some 4 else None)"

definition put_varint :: "u32 \<Rightarrow> byte list option" where
  "put_varint v =
     Option.bind (varint_len v) (\<lambda>len.
       if len = 1 then Some [ucast v]
       else if len = 2 then Some (to_be16 (ucast v OR 0x4000))
       else if len = 4 then Some (to_be32 (v OR 0xC0000000))
       else None)"

definition get_varint :: "byte list \<Rightarrow> decode_error + u32 \<times> nat" where
  "get_varint bytes =
     (case bytes of
        [] \<Rightarrow> Inl Truncated
      | first # _ \<Rightarrow>
          (let kind = drop_bit 6 first in
           if kind = 0 then Inr (ucast first, 1)
           else if kind = 1 then
             (if length bytes < 2 then Inl Truncated
              else Inr (ucast (from_be16 [first AND 0x3F, bytes ! 1]), 2))
           else if kind = 3 then
             (if length bytes < 4 then Inl Truncated
              else Inr (from_be32 [first AND 0x3F, bytes ! 1, bytes ! 2, bytes ! 3], 4))
           else Inl InvalidAssociationId))"

subsection \<open>Cutting and reading datagrams\<close>

definition fragment_datagram :: "byte list \<Rightarrow> u32 \<Rightarrow> nat \<Rightarrow> nat \<Rightarrow> byte list \<Rightarrow> byte list" where
  "fragment_datagram tag message_id fragment_count index payload =
     tag @ to_be32 message_id @ to_be16 (of_nat index) @ to_be16 (of_nat fragment_count) @ payload"

definition encode_fragments :: "u32 \<Rightarrow> u32 \<Rightarrow> byte list \<Rightarrow> nat \<Rightarrow> (encode_error + byte list list) option" where
  "encode_fragments association_id message_id payload max_datagram_size =
     (case tag_value association_id True of
        Inl e \<Rightarrow> Some (Inl e)
      | Inr tag \<Rightarrow>
          Option.bind (varint_len tag) (\<lambda>tag_len.
            case checked_sub max_datagram_size (tag_len + FRAGMENT_HEADER_LEN) of
              None \<Rightarrow> Some (Inl DatagramTooSmall)
            | Some chunk_size \<Rightarrow>
                if chunk_size = 0 then Some (Inl DatagramTooSmall)
                else
                  (let fragment_count = (length payload + chunk_size - 1) div chunk_size in
                   if \<not> (2 \<le> fragment_count \<and> fragment_count \<le> MAX_FRAGMENT_COUNT) then Some (Inl TooManyFragments)
                   else
                     Option.bind (put_varint tag) (\<lambda>t.
                       Some (Inr (map (\<lambda>(index, p). fragment_datagram t message_id fragment_count index p)
                         (List.enumerate 0 (chunks chunk_size payload))))))))"

definition encode_datagrams :: "u32 \<Rightarrow> u32 \<Rightarrow> byte list \<Rightarrow> nat \<Rightarrow> (encode_error + byte list list) option" where
  "encode_datagrams association_id message_id payload max_datagram_size =
     (case rbind (validate_association_id association_id) (\<lambda>_.
         if length payload > MAX_REASSEMBLED_PAYLOAD then Inl EncodeTooLarge else tag_value association_id False) of
        Inl e \<Rightarrow> Some (Inl e)
      | Inr tag \<Rightarrow>
          Option.bind (varint_len tag) (\<lambda>tag_len.
            if max_datagram_size < tag_len then Some (Inl DatagramTooSmall)
            else if length payload \<le> max_datagram_size - tag_len then
              Option.bind (put_varint tag) (\<lambda>t. Some (Inr [t @ payload]))
            else encode_fragments association_id message_id payload max_datagram_size))"

definition decode_fragment :: "u32 \<Rightarrow> nat \<Rightarrow> byte list \<Rightarrow> decode_error + quic_frame" where
  "decode_fragment association_id tag_len bytes =
     (let header_end = tag_len + FRAGMENT_HEADER_LEN in
      if length bytes < header_end then Inl Truncated
      else
        (let message_id = from_be32 (bslice bytes tag_len (tag_len + 4));
             fragment_index = from_be16 (bslice bytes (tag_len + 4) (tag_len + 6));
             fragment_count = from_be16 (bslice bytes (tag_len + 6) header_end)
         in if fragment_count < 2 \<or> unat fragment_count > MAX_FRAGMENT_COUNT then Inl InvalidFragmentCount
            else if fragment_index \<ge> fragment_count then Inl InvalidFragmentIndex
            else if length bytes = header_end then Inl EmptyFragment
            else Inr (Fragment association_id message_id fragment_index fragment_count (drop header_end bytes))))"

definition decode_frame :: "byte list \<Rightarrow> decode_error + quic_frame" where
  "decode_frame bytes =
     rbind (get_varint bytes) (\<lambda>(tag, tag_len).
       let association_id = drop_bit 1 tag in
       case validate_association_id association_id of
         Inl _ \<Rightarrow> Inl InvalidAssociationId
       | Inr _ \<Rightarrow>
           if tag AND 1 = 0 then
             (if length bytes - tag_len > MAX_REASSEMBLED_PAYLOAD then Inl PayloadTooLarge
              else Inr (Single association_id (drop tag_len bytes)))
           else decode_fragment association_id tag_len bytes)"

subsection \<open>The reassembler\<close>

definition partial_message_overhead :: "nat \<times> nat \<Rightarrow> nat \<Rightarrow> nat" where
  "partial_message_overhead layout fragment_count =
     saturating_add (fst layout) (saturating_mul fragment_count (snd layout))"

record partial_message =
  pm_created_at :: nat
  pm_fragment_count :: u16
  pm_fragments :: "byte list option list"
  pm_received :: nat

record fragment_reassembler =
  fr_messages :: "((u32 \<times> u32) \<times> partial_message) list"
  fr_incomplete_bytes :: nat
  fr_timeout :: nat
  fr_max_incomplete_bytes :: nat

definition fragment_reassembler_new :: "nat \<Rightarrow> nat \<Rightarrow> fragment_reassembler" where
  "fragment_reassembler_new timeout max_incomplete_bytes =
     \<lparr>fr_messages = [], fr_incomplete_bytes = 0, fr_timeout = timeout, fr_max_incomplete_bytes = max_incomplete_bytes\<rparr>"

definition budget_allows :: "fragment_reassembler \<Rightarrow> nat \<Rightarrow> bool" where
  "budget_allows r additional \<longleftrightarrow>
     fr_incomplete_bytes r \<le> fr_max_incomplete_bytes r
     \<and> additional \<le> fr_max_incomplete_bytes r - fr_incomplete_bytes r"

definition message_cost :: "nat \<times> nat \<Rightarrow> partial_message \<Rightarrow> nat" where
  "message_cost layout m = partial_message_overhead layout (unat (pm_fragment_count m)) + pm_received m"

definition remove_message :: "nat \<times> nat \<Rightarrow> fragment_reassembler \<Rightarrow> u32 \<times> u32 \<Rightarrow> fragment_reassembler" where
  "remove_message layout r key =
     (case map_of (fr_messages r) key of
        None \<Rightarrow> r
      | Some m \<Rightarrow>
          r\<lparr>fr_messages := AList.delete key (fr_messages r),
            fr_incomplete_bytes :=
              fr_incomplete_bytes r - partial_message_overhead layout (unat (pm_fragment_count m)) - pm_received m\<rparr>)"

definition expire_messages :: "nat \<times> nat \<Rightarrow> fragment_reassembler \<Rightarrow> nat \<Rightarrow> fragment_reassembler \<times> nat" where
  "expire_messages layout r now =
     (let expired = map fst (filter (\<lambda>(_, m). now - pm_created_at m \<ge> fr_timeout r) (fr_messages r))
      in (fold (\<lambda>key r. remove_message layout r key) expired r, length expired))"

definition add_fragment :: "partial_message \<Rightarrow> nat \<Rightarrow> byte list \<Rightarrow> partial_message" where
  "add_fragment m index payload =
     m\<lparr>pm_fragments := (pm_fragments m)[index := Some payload], pm_received := pm_received m + length payload\<rparr>"

text \<open>Indexing the slots with an index out of range panics.\<close>

definition push_existing ::
  "nat \<times> nat \<Rightarrow> fragment_reassembler \<Rightarrow> u32 \<times> u32 \<Rightarrow> partial_message \<Rightarrow> nat \<Rightarrow> u16 \<Rightarrow> byte list
    \<Rightarrow> (fragment_reassembler \<times> byte list option) option" where
  "push_existing layout r key m index fragment_count payload =
     (if pm_fragment_count m \<noteq> fragment_count then Some (remove_message layout r key, None)
      else if index \<ge> length (pm_fragments m) then None
      else if pm_fragments m ! index \<noteq> None then Some (r, None)
      else if saturating_add (pm_received m) (length payload) > MAX_REASSEMBLED_PAYLOAD \<or> \<not> budget_allows r (length payload)
        then Some (remove_message layout r key, None)
      else
        (let m1 = add_fragment m index payload;
             r1 = r\<lparr>fr_messages := AList.update key m1 (fr_messages r),
                    fr_incomplete_bytes := fr_incomplete_bytes r + length payload\<rparr>
         in if pm_received m1 = 0 \<or> list_ex (\<lambda>f. f = None) (pm_fragments m1) then Some (r1, None)
            else
              Some (r1\<lparr>fr_messages := AList.delete key (fr_messages r1),
                       fr_incomplete_bytes := fr_incomplete_bytes r1
                         - partial_message_overhead layout (unat (pm_fragment_count m1)) - pm_received m1\<rparr>,
                    Some (concat (map the (filter (\<lambda>f. f \<noteq> None) (pm_fragments m1)))))))"

definition push_new ::
  "nat \<times> nat \<Rightarrow> fragment_reassembler \<Rightarrow> u32 \<times> u32 \<Rightarrow> nat \<Rightarrow> u16 \<Rightarrow> byte list \<Rightarrow> nat \<Rightarrow> fragment_reassembler" where
  "push_new layout r key index fragment_count payload now =
     (if length (fr_messages r) \<ge> MAX_INCOMPLETE_MESSAGES_PER_ASSOCIATION then r
      else
        (let reservation = saturating_add (partial_message_overhead layout (unat fragment_count)) (length payload) in
         if \<not> budget_allows r reservation then r
         else
           r\<lparr>fr_messages := AList.update key
               \<lparr>pm_created_at = now, pm_fragment_count = fragment_count,
                pm_fragments = (replicate (unat fragment_count) None)[index := Some payload],
                pm_received = length payload\<rparr> (fr_messages r),
             fr_incomplete_bytes := fr_incomplete_bytes r + reservation\<rparr>))"

definition quic_push_fragment ::
  "nat \<times> nat \<Rightarrow> fragment_reassembler \<Rightarrow> u32 \<times> u32 \<Rightarrow> u16 \<Rightarrow> u16 \<Rightarrow> byte list \<Rightarrow> nat
    \<Rightarrow> (fragment_reassembler \<times> byte list option) option" where
  "quic_push_fragment layout r key fragment_index fragment_count payload now =
     (if fragment_count < 2 \<or> unat fragment_count > MAX_FRAGMENT_COUNT \<or> fragment_index \<ge> fragment_count
         \<or> payload = [] \<or> length payload > MAX_REASSEMBLED_PAYLOAD
      then Some (r, None)
      else
        (case map_of (fr_messages r) key of
           Some m \<Rightarrow> push_existing layout r key m (unat fragment_index) fragment_count payload
         | None \<Rightarrow> Some (push_new layout r key (unat fragment_index) fragment_count payload now, None)))"

definition quic_push ::
  "nat \<times> nat \<Rightarrow> fragment_reassembler \<Rightarrow> quic_frame \<Rightarrow> nat \<Rightarrow> (fragment_reassembler \<times> byte list option) option" where
  "quic_push layout r frame now =
     (let r0 = fst (expire_messages layout r now) in
      case frame of
        Single _ payload \<Rightarrow> Some (r0, if length payload \<le> MAX_REASSEMBLED_PAYLOAD then Some payload else None)
      | Fragment association_id message_id fragment_index fragment_count payload \<Rightarrow>
          quic_push_fragment layout r0 (association_id, message_id) fragment_index fragment_count payload now)"

subsection \<open>Tags come back\<close>

lemma nat_be_2: "nat_be 2 v = [of_nat (v div 256), of_nat v]"
  by (simp add: numeral_2_eq_2)

lemma nat_be_4_bytes: "nat_be 4 v = [of_nat (v div 16777216), of_nat (v div 65536), of_nat (v div 256), of_nat v]"
proof -
  have "v div 256 div 256 = v div 65536" "v div 65536 div 256 = v div 16777216"
    by (simp_all flip: div_mult2_eq)
  then show ?thesis
    by (simp add: nat_be_4)
qed

lemma be_nat_2: "be_nat [a, b] = unat a * 256 + unat b"
  and be_nat_4: "be_nat [a, b, c, d] = ((unat a * 256 + unat b) * 256 + unat c) * 256 + unat d"
  by (simp_all add: be_nat_def)

text \<open>Setting bits above those of a number adds them.\<close>

lemma nat_or_high: "v < 2 ^ n \<Longrightarrow> v OR push_bit n q = v + push_bit n (q :: nat)"
  by (rule disjunctive_add_eq_or [symmetric])
    (metis (no_types, lifting) and_zero_eq bit_and_iff bit_eqI bit_push_bit_iff bit_take_bit_iff leD take_bit_nat_eq_self)

lemma unat_or_high: "unat v < 2 ^ n \<Longrightarrow> unat w = push_bit n q \<Longrightarrow> unat (v OR w) = unat v + unat (w :: 'a :: len word)"
  by (simp add: unsigned_or_eq nat_or_high)

lemma unat_kind: "unat (drop_bit 6 b) = unat b div 64" for b :: byte
  by (simp add: drop_bit_eq_div unat_div)

lemma unat_low: "unat (b AND 0x3F) = unat b mod 64" for b :: byte
proof -
  have "b AND 0x3F = take_bit 6 b"
    by (simp add: take_bit_eq_mask mask_eq_exp_minus_1)
  then show ?thesis
    by (simp add: take_bit_eq_mod unat_mod)
qed

lemma kind_is: "drop_bit 6 b = k \<longleftrightarrow> unat b div 64 = unat k" for b :: byte
  unfolding word_unat_eq_iff [of "drop_bit 6 b"] unat_kind ..

lemma unat_ucast_small: "unat w < 2 ^ LENGTH('b) \<Longrightarrow> unat (ucast (w :: 'a :: len word) :: 'b :: len word) = unat w"
  by (simp add: unsigned_ucast_eq take_bit_nat_eq_self)

lemma get_varint_2: "unat a div 64 = 1 \<Longrightarrow> get_varint (a # b # rest) = Inr (ucast (from_be16 [a AND 0x3F, b]), 2)"
  by (simp add: get_varint_def kind_is Let_def)

lemma get_varint_4: "unat a div 64 = 3 \<Longrightarrow> get_varint (a # b # c # d # rest) = Inr (from_be32 [a AND 0x3F, b, c, d], 4)"
  by (simp add: get_varint_def kind_is Let_def)

lemma varint_roundtrip:
  assumes "v \<le> 1073741823"
  shows "\<exists>bs. put_varint v = Some bs \<and> varint_len v = Some (length bs) \<and> (\<forall>rest. get_varint (bs @ rest) = Inr (v, length bs))"
proof -
  define n where "n = unat v"
  have n: "n \<le> 1073741823" "v \<le> 63 \<longleftrightarrow> n \<le> 63" "v \<le> 16383 \<longleftrightarrow> n \<le> 16383"
    using assms by (simp_all add: n_def word_le_nat_alt)
  consider "n \<le> 63" | "63 < n" "n \<le> 16383" | "16383 < n"
    by linarith
  then show ?thesis
  proof cases
    case 1
    have small: "unat (ucast v :: byte) = n"
      using 1 unat_ucast_small [where ?'b = 8, of v] by (simp add: n_def)
    then have "ucast (ucast v :: byte) = v"
      using 1 unat_ucast_small [where ?'b = 32, of "ucast v :: byte"] by (simp add: word_unat_eq_iff n_def)
    then show ?thesis
      using 1 n small by (simp add: put_varint_def varint_len_def get_varint_def kind_is)
  next
    case 2
    have "unat (ucast v :: u16) = n"
      using 2 unat_ucast_small [where ?'b = 16, of v] by (simp add: n_def)
    then have "unat (ucast v OR 0x4000 :: u16) = n + 16384"
      using unat_or_high [of "ucast v :: u16" 14 "0x4000" 1] 2 by (simp add: push_bit_eq_mult)
    then have bs: "put_varint v = Some [of_nat ((n + 16384) div 256), of_nat (n + 16384)]"
      using 2 n by (simp add: put_varint_def varint_len_def to_be16_def nat_be_2)
    let ?b = "of_nat ((n + 16384) div 256) :: byte"
    have b: "unat ?b = n div 256 + 64"
      using 2 by (simp add: unat_of_nat)
    have "be_nat [?b AND 0x3F, of_nat (n + 16384)] = n"
    proof -
      have "n div 256 < 64"
        using 2 by simp
      then have "(n div 256 + 64) mod 64 = n div 256" "(n + 16384) mod 256 = n mod 256"
        using mod_mult_self1 [of n 64 256] by simp_all
      then show ?thesis
        unfolding be_nat_2 unat_low b unfolding unat_byte_of_nat by (simp only: div_mult_mod_eq)
    qed
    then have "ucast (from_be16 [?b AND 0x3F, of_nat (n + 16384)]) = v"
      using 2 unat_ucast_small [where ?'b = 32, of "of_nat n :: u16"] by (simp add: from_be16_def word_unat_eq_iff n_def [symmetric] unat_of_nat)
    moreover have "(n div 256 + 64) div 64 = 1"
      using 2 by simp
    ultimately show ?thesis
      using bs 2 n get_varint_2 [of ?b, unfolded b] by (auto simp: varint_len_def simp del: of_nat_add)
  next
    case 3
    have "unat (v OR 0xC0000000) = n + 3221225472"
      using unat_or_high [of v 30 "0xC0000000" 3] n(1) by (simp add: push_bit_eq_mult n_def)
    then have bs: "put_varint v = Some [of_nat ((n + 3221225472) div 16777216), of_nat ((n + 3221225472) div 65536),
        of_nat ((n + 3221225472) div 256), of_nat (n + 3221225472)]"
      using 3 n assms by (simp add: put_varint_def varint_len_def to_be32_def nat_be_4_bytes)
    let ?b = "of_nat ((n + 3221225472) div 16777216) :: byte"
    have b: "unat ?b = n div 16777216 + 192"
      using n(1) by (simp add: unat_of_nat)
    have "be_nat [?b AND 0x3F, of_nat ((n + 3221225472) div 65536), of_nat ((n + 3221225472) div 256), of_nat (n + 3221225472)] = n"
    proof -
      have "n div 16777216 < 64"
        using n(1) by simp
      then have "(n div 16777216 + 192) mod 64 = n div 16777216"
        using mod_mult_self1 [of "n div 16777216" 3 64] by simp
      moreover have "(n + 3221225472) div 65536 mod 256 = n div 65536 mod 256"
        using div_mult_self1 [of 65536 n 49152] mod_mult_self1 [of "n div 65536" 192 256] by (simp add: add.commute)
      moreover have "(n + 3221225472) div 256 mod 256 = n div 256 mod 256"
        using div_mult_self1 [of 256 n 12582912] mod_mult_self1 [of "n div 256" 49152 256] by (simp add: add.commute)
      moreover have "(n + 3221225472) mod 256 = n mod 256"
        using mod_mult_self1 [of n 12582912 256] by simp
      moreover have "n div 16777216 = n div 65536 div 256" "n div 65536 = n div 256 div 256"
        by (simp_all flip: div_mult2_eq)
      ultimately show ?thesis
        unfolding be_nat_4 unat_low b unfolding unat_byte_of_nat by (simp only: div_mult_mod_eq)
    qed
    then have "from_be32 [?b AND 0x3F, of_nat ((n + 3221225472) div 65536), of_nat ((n + 3221225472) div 256), of_nat (n + 3221225472)] = v"
      by (simp add: from_be32_def n_def)
    moreover have "(n div 16777216 + 192) div 64 = 3"
    proof -
      have "n div 16777216 < 64"
        using n(1) by simp
      then show ?thesis
        using div_mult_self1 [of 64 "n div 16777216" 3] div_less [of "n div 16777216" 64] by simp
    qed
    ultimately show ?thesis
      using bs 3 n assms get_varint_4 [of ?b, unfolded b] by (auto simp: varint_len_def simp del: of_nat_add)
  qed
qed

lemma tag_ok:
  assumes "validate_association_id a = Inr ()"
  shows "\<exists>tag. tag_value a f = Inr tag \<and> tag \<le> 1073741823 \<and> drop_bit 1 tag = a \<and> (tag AND 1 = 0 \<longleftrightarrow> \<not> f)"
proof -
  have "a \<le> MAX_ASSOCIATION_ID"
    using assms by (auto simp: validate_association_id_def not_less split: if_splits)
  then have a: "unat a \<le> 536870911"
    by (simp add: MAX_ASSOCIATION_ID_def word_le_nat_alt)
  let ?t = "push_bit 1 a OR of_bool f :: u32"
  have "unat (a * 2) = unat a * 2"
    using a by (simp add: unat_word_ariths)
  then have "unat (push_bit 1 a) = push_bit 1 (unat a)"
    by (simp add: push_bit_eq_mult)
  then have t: "unat ?t = 2 * unat a + of_bool f"
    using unat_or_high [of "of_bool f :: u32" 1 "push_bit 1 a" "unat a"] by (cases f) (simp_all add: or.commute push_bit_eq_mult)
  have "unat (drop_bit 1 ?t) = (2 * unat a + of_bool f) div 2"
    unfolding unat_drop_bit_eq t by (simp only: drop_bit_eq_div power_one_right)
  then have "drop_bit 1 ?t = a"
    by (cases f) (simp_all add: word_unat_eq_iff)
  moreover have "?t \<le> 1073741823"
    using a t by (simp add: word_le_nat_alt)
  moreover have "?t AND 1 = 0 \<longleftrightarrow> \<not> f"
    by (cases f) (simp_all add: and_one_eq even_or_iff even_push_bit_iff flip: even_iff_mod_2_eq_zero)
  ultimately show ?thesis
    using assms by (intro exI [of _ ?t]) (simp add: tag_value_def)
qed

subsection \<open>Datagrams come back\<close>

lemma decode_single_ok:
  assumes "validate_association_id a = Inr ()" "tag_value a False = Inr tag" "put_varint tag = Some t" "length payload \<le> MAX_REASSEMBLED_PAYLOAD"
  shows "decode_frame (t @ payload) = Inr (Single a payload)"
  using assms tag_ok [OF assms(1), of False] varint_roundtrip [of tag] by (auto simp: decode_frame_def)

lemma decode_fragment_ok:
  assumes "validate_association_id a = Inr ()" "tag_value a True = Inr tag" "put_varint tag = Some t"
    "2 \<le> n" "n \<le> MAX_FRAGMENT_COUNT" "i < n" "payload \<noteq> []"
  shows "decode_frame (fragment_datagram t mid n i payload) = Inr (Fragment a mid (of_nat i) (of_nat n) payload)"
proof -
  let ?d = "fragment_datagram t mid n i payload"
  have unat: "unat (of_nat n :: u16) = n" "unat (of_nat i :: u16) = i"
    using assms(5,6) by (simp_all add: MAX_FRAGMENT_COUNT_def unat_small16)
  have "bslice ?d (length t) (length t + 4) = to_be32 mid"
    "bslice ?d (length t + 4) (length t + 6) = to_be16 (of_nat i)"
    "bslice ?d (length t + 6) (length t + FRAGMENT_HEADER_LEN) = to_be16 (of_nat n)"
    by (simp_all add: fragment_datagram_def FRAGMENT_HEADER_LEN_def bslice_def)
  moreover have "length ?d = length t + FRAGMENT_HEADER_LEN + length payload" "drop (length t + FRAGMENT_HEADER_LEN) ?d = payload"
    by (simp_all add: fragment_datagram_def FRAGMENT_HEADER_LEN_def)
  moreover have "\<not> (of_nat n :: u16) < 2" "(of_nat i :: u16) < of_nat n"
    using assms(4,6) unat by (simp_all add: word_less_nat_alt)
  ultimately have "decode_fragment a (length t) ?d = Inr (Fragment a mid (of_nat i) (of_nat n) payload)"
    using assms(5,7) unat by (simp add: decode_fragment_def Let_def)
  moreover have "get_varint ?d = Inr (tag, length t)"
    using varint_roundtrip [of tag] tag_ok [OF assms(1), of True] assms(2,3) by (auto simp: fragment_datagram_def)
  ultimately show ?thesis
    using tag_ok [OF assms(1), of True] assms(1,2) by (auto simp: decode_frame_def)
qed

text \<open>
  What the encoder gives: one datagram that holds the payload, or the pieces of the payload in
  order, each in a datagram of its own.
\<close>

definition datagrams_of :: "u32 \<Rightarrow> u32 \<Rightarrow> byte list \<Rightarrow> byte list list \<Rightarrow> byte list list \<Rightarrow> bool" where
  "datagrams_of a mid payload ps ds \<longleftrightarrow>
     length ps = length ds \<and> concat ps = payload \<and> 2 \<le> length ds \<and> length ds \<le> MAX_FRAGMENT_COUNT
     \<and> (\<forall>i < length ds. ps ! i \<noteq> []
          \<and> decode_frame (ds ! i) = Inr (Fragment a mid (of_nat i) (of_nat (length ds)) (ps ! i)))"

lemma encode_fragments_ok:
  assumes "validate_association_id a = Inr ()"
  obtains e where "encode_fragments a mid payload size' = Some (Inl e)"
  | ps ds where "encode_fragments a mid payload size' = Some (Inr ds)" "datagrams_of a mid payload ps ds"
      "\<forall>d \<in> set ds. length d \<le> size'"
proof -
  obtain tag where tag: "tag_value a True = Inr tag" "tag \<le> 1073741823"
    using tag_ok [OF assms] by blast
  obtain t where t: "put_varint tag = Some t" "varint_len tag = Some (length t)"
    using varint_roundtrip [OF tag(2)] by blast
  define chunk where "chunk = size' - (length t + FRAGMENT_HEADER_LEN)"
  define n where "n = (length payload + chunk - 1) div chunk"
  have enc: "encode_fragments a mid payload size' =
      (if chunk = 0 then Some (Inl DatagramTooSmall)
       else if \<not> (2 \<le> n \<and> n \<le> MAX_FRAGMENT_COUNT) then Some (Inl TooManyFragments)
       else Some (Inr (map (\<lambda>(i, p). fragment_datagram t mid n i p) (List.enumerate 0 (chunks chunk payload)))))"
  proof (cases "length t + FRAGMENT_HEADER_LEN \<le> size'")
    case True
    then show ?thesis
      using tag t unfolding n_def by (simp add: encode_fragments_def checked_sub_def Let_def flip: chunk_def)
  next
    case False
    then show ?thesis
      using tag t by (simp add: encode_fragments_def checked_sub_def chunk_def)
  qed
  show thesis
  proof (cases "0 < chunk \<and> 2 \<le> n \<and> n \<le> MAX_FRAGMENT_COUNT")
    case False
    then have "\<exists>e. encode_fragments a mid payload size' = Some (Inl e)"
      using enc by auto
    then show thesis
      using that(1) by blast
  next
    case True
    define ps where "ps = chunks chunk payload"
    define ds where "ds = map (\<lambda>(i, p). fragment_datagram t mid n i p) (List.enumerate 0 ps)"
    have done_enc: "encode_fragments a mid payload size' = Some (Inr ds)"
      using True enc by (simp add: ds_def ps_def)
    have len: "length ps = n" "length ds = n"
      using True by (simp_all add: ps_def ds_def length_chunks n_def)
    have nth: "ds ! i = fragment_datagram t mid n i (ps ! i)" if "i < n" for i
      using that len by (simp add: ds_def nth_enumerate_eq)
    have piece: "ps ! i \<noteq> [] \<and> length (ps ! i) \<le> chunk" if "i < n" for i
      using chunks_piece [of chunk "ps ! i" payload] True len that nth_mem [of i ps] by (simp add: ps_def)
    have "datagrams_of a mid payload ps ds"
      unfolding datagrams_of_def using len True piece nth decode_fragment_ok [OF assms tag(1) t(1)]
      by (simp add: chunks_concat ps_def)
    moreover have "length d \<le> size'" if "d \<in> set ds" for d
      using that piece nth len True by (fastforce simp: in_set_conv_nth fragment_datagram_def chunk_def FRAGMENT_HEADER_LEN_def)
    ultimately show thesis
      using that(2) [OF done_enc] by blast
  qed
qed

lemma encode_datagrams_ok:
  obtains e where "encode_datagrams a mid payload size' = Some (Inl e)"
  | d where "encode_datagrams a mid payload size' = Some (Inr [d])" "decode_frame d = Inr (Single a payload)" "length d \<le> size'"
      "length payload \<le> MAX_REASSEMBLED_PAYLOAD"
  | ps ds where "encode_datagrams a mid payload size' = Some (Inr ds)" "datagrams_of a mid payload ps ds"
      "\<forall>d \<in> set ds. length d \<le> size'" "length payload \<le> MAX_REASSEMBLED_PAYLOAD"
proof (cases "validate_association_id a = Inr () \<and> length payload \<le> MAX_REASSEMBLED_PAYLOAD")
  case False
  then have "\<exists>e. encode_datagrams a mid payload size' = Some (Inl e)"
    by (auto simp: encode_datagrams_def validate_association_id_def split: if_splits)
  then show thesis
    using that(1) by blast
next
  case True
  obtain tag where tag: "tag_value a False = Inr tag" "tag \<le> 1073741823"
    using tag_ok True by blast
  obtain t where t: "put_varint tag = Some t" "varint_len tag = Some (length t)"
    using varint_roundtrip [OF tag(2)] by blast
  have enc: "encode_datagrams a mid payload size' =
      (if size' < length t then Some (Inl DatagramTooSmall)
       else if length payload \<le> size' - length t then Some (Inr [t @ payload])
       else encode_fragments a mid payload size')"
    using True tag t by (simp add: encode_datagrams_def)
  consider "size' < length t" | "length t + length payload \<le> size'" | "length t \<le> size'" "size' < length t + length payload"
    by linarith
  then show thesis
  proof cases
    case 1
    then show thesis
      using enc that(1) by simp
  next
    case 2
    then have "length payload \<le> size' - length t" "\<not> size' < length t"
      by simp_all
    then show thesis
      using enc 2 that(2) [of "t @ payload"] decode_single_ok [of a tag t payload] True tag t by simp
  next
    case 3
    then have frag: "encode_datagrams a mid payload size' = encode_fragments a mid payload size'"
      using enc 3 by auto
    show thesis
      by (rule encode_fragments_ok [of a mid payload size']) (use True frag that(1,3) in auto)
  qed
qed

end
