(* ===== verification/Quic_Reassembly.thy ===== *)
theory Quic_Reassembly
  imports Quic_Datagram
begin

text \<open>
  The guarantees of the reassembler of QUIC datagrams: its bounds under any input, that what comes
  out was sent, and that the fragments of a payload come together in any order.
\<close>

subsection \<open>The accounts\<close>

text \<open>The sizes of the types are small: no sum of the accounts saturates.\<close>

definition quic_layout_ok :: "nat \<times> nat \<Rightarrow> bool" where
  "quic_layout_ok layout \<longleftrightarrow> fst layout + MAX_FRAGMENT_COUNT * snd layout + MAX_REASSEMBLED_PAYLOAD < 2 ^ 64"

definition stored_bytes :: "byte list option list \<Rightarrow> nat" where
  "stored_bytes fs = (\<Sum>f\<leftarrow>fs. case f of None \<Rightarrow> 0 | Some b \<Rightarrow> length b)"

definition message_ok :: "partial_message \<Rightarrow> bool" where
  "message_ok m \<longleftrightarrow>
     2 \<le> unat (pm_fragment_count m) \<and> unat (pm_fragment_count m) \<le> MAX_FRAGMENT_COUNT
     \<and> length (pm_fragments m) = unat (pm_fragment_count m)
     \<and> pm_received m = stored_bytes (pm_fragments m) \<and> pm_received m \<le> MAX_REASSEMBLED_PAYLOAD
     \<and> None \<in> set (pm_fragments m)"

definition quic_ok :: "nat \<times> nat \<Rightarrow> fragment_reassembler \<Rightarrow> bool" where
  "quic_ok layout r \<longleftrightarrow>
     distinct (map fst (fr_messages r)) \<and> (\<forall>(k, m) \<in> set (fr_messages r). message_ok m)
     \<and> int (fr_incomplete_bytes r) = alist_sum (\<lambda>m. int (message_cost layout m)) (fr_messages r)
     \<and> fr_incomplete_bytes r \<le> fr_max_incomplete_bytes r
     \<and> length (fr_messages r) \<le> MAX_INCOMPLETE_MESSAGES_PER_ASSOCIATION"

lemma overhead_exact:
  "quic_layout_ok layout \<Longrightarrow> n \<le> MAX_FRAGMENT_COUNT \<Longrightarrow> partial_message_overhead layout n = fst layout + n * snd layout"
proof -
  assume "quic_layout_ok layout" "n \<le> MAX_FRAGMENT_COUNT"
  moreover from this(2) have "n * snd layout \<le> MAX_FRAGMENT_COUNT * snd layout"
    by (rule mult_le_mono1)
  ultimately have "fst layout + n * snd layout < 2 ^ 64"
    unfolding quic_layout_ok_def by linarith
  then show ?thesis
    by (simp add: partial_message_overhead_def saturating_add_def saturating_mul_def)
qed

lemma message_in_account:
  assumes "distinct (map fst ms)" "map_of ms k = Some m"
  shows "int (message_cost layout m) \<le> alist_sum (\<lambda>m. int (message_cost layout m)) ms"
  using alist_sum_delete [OF assms(1), of "\<lambda>m. int (message_cost layout m)" k] assms(2)
    alist_sum_nonneg [of "\<lambda>m. int (message_cost layout m)" "AList.delete k ms"] by simp

lemma remove_message_ok:
  assumes "quic_ok layout r"
  shows "quic_ok layout (remove_message layout r k)"
    "fr_messages (remove_message layout r k) = AList.delete k (fr_messages r)"
    "fr_timeout (remove_message layout r k) = fr_timeout r"
    "fr_max_incomplete_bytes (remove_message layout r k) = fr_max_incomplete_bytes r"
    "fr_incomplete_bytes (remove_message layout r k) \<le> fr_incomplete_bytes r"
proof -
  note d = assms [unfolded quic_ok_def]
  show "quic_ok layout (remove_message layout r k)"
  proof (cases "map_of (fr_messages r) k")
    case (Some m)
    have "int (fr_incomplete_bytes r - message_cost layout m)
        = alist_sum (\<lambda>m. int (message_cost layout m)) (AList.delete k (fr_messages r))"
      using message_in_account [of "fr_messages r" k m layout] alist_sum_delete [of "fr_messages r" _ k] Some d by (simp add: of_nat_diff)
    then show ?thesis
      using d Some set_delete_subset [of k "fr_messages r"] length_delete_le [of k "fr_messages r"] distinct_alist_delete [of "fr_messages r" k]
      by (auto simp: quic_ok_def remove_message_def message_cost_def diff_diff_left)
  qed (use assms in \<open>simp add: remove_message_def\<close>)
qed (auto simp: remove_message_def map_of_eq_None_keys alist_delete_notin split: option.splits)

lemma remove_messages_ok:
  "quic_ok layout r \<Longrightarrow> r' = fold (\<lambda>k r. remove_message layout r k) ks r \<Longrightarrow>
   quic_ok layout r' \<and> fr_messages r' = filter (\<lambda>(k, _). k \<notin> set ks) (fr_messages r)
   \<and> fr_timeout r' = fr_timeout r \<and> fr_max_incomplete_bytes r' = fr_max_incomplete_bytes r
   \<and> fr_incomplete_bytes r' \<le> fr_incomplete_bytes r"
proof (induction ks arbitrary: r)
  case (Cons k ks)
  note step = remove_message_ok [OF Cons.prems(1), of k]
  have "filter (\<lambda>(k, _). k \<notin> set ks) (AList.delete k (fr_messages r)) = filter (\<lambda>(k', _). k' \<notin> set (k # ks)) (fr_messages r)"
    by (simp add: AList.delete_eq case_prod_unfold conj_commute eq_commute)
  then show ?case
    using Cons.IH [OF step(1)] Cons.prems(2) step by auto
qed simp

text \<open>Expiry drops exactly the messages whose time has run out.\<close>

lemma expire_ok:
  fixes now :: nat
  assumes "quic_ok layout r"
  defines "r0 \<equiv> fst (expire_messages layout r now)"
  shows "quic_ok layout r0" "fr_messages r0 = filter (\<lambda>(_, m). now - pm_created_at m < fr_timeout r) (fr_messages r)"
    "fr_timeout r0 = fr_timeout r" "fr_max_incomplete_bytes r0 = fr_max_incomplete_bytes r"
    "fr_incomplete_bytes r0 \<le> fr_incomplete_bytes r"
proof -
  let ?ks = "map fst (filter (\<lambda>(_, m). now - pm_created_at m \<ge> fr_timeout r) (fr_messages r))"
  have r0: "r0 = fold (\<lambda>k r. remove_message layout r k) ?ks r"
    by (simp add: r0_def expire_messages_def)
  note all = remove_messages_ok [OF assms(1) r0]
  have "(fst km \<notin> set ?ks) = (now - pm_created_at (snd km) < fr_timeout r)" if "km \<in> set (fr_messages r)" for km
  proof -
    obtain k m where km: "km = (k, m)"
      by (cases km)
    moreover have "distinct (map fst (fr_messages r))"
      using assms(1) by (simp add: quic_ok_def)
    ultimately have "m' = m" if "(k, m') \<in> set (fr_messages r)" for m'
      using that \<open>km \<in> set (fr_messages r)\<close> by (auto intro: eq_key_imp_eq_value)
    moreover have "k \<in> set ?ks \<longleftrightarrow> (\<exists>m'. (k, m') \<in> set (fr_messages r) \<and> fr_timeout r \<le> now - pm_created_at m')"
      by (cases k) (auto simp: image_iff)
    ultimately have "k \<in> set ?ks \<longleftrightarrow> fr_timeout r \<le> now - pm_created_at m"
      using \<open>km \<in> set (fr_messages r)\<close> km by blast
    then show ?thesis
      unfolding km fst_conv snd_conv not_le [symmetric] by blast
  qed
  then show "fr_messages r0 = filter (\<lambda>(_, m). now - pm_created_at m < fr_timeout r) (fr_messages r)"
    using all by (auto simp: case_prod_unfold intro!: filter_cong)
qed (use remove_messages_ok [OF assms(1) refl] in \<open>simp_all add: r0_def expire_messages_def\<close>)

subsection \<open>One frame\<close>

definition comes_from :: "quic_frame set \<Rightarrow> u32 \<times> u32 \<Rightarrow> partial_message \<Rightarrow> bool" where
  "comes_from H k m \<longleftrightarrow>
     (\<forall>j b. j < length (pm_fragments m) \<and> pm_fragments m ! j = Some b
       \<longrightarrow> Fragment (fst k) (snd k) (of_nat j) (pm_fragment_count m) b \<in> H)"

text \<open>A payload that was sent whole, or all of whose fragments were sent in one message.\<close>

definition sent_as :: "quic_frame set \<Rightarrow> byte list \<Rightarrow> bool" where
  "sent_as H p \<longleftrightarrow>
     (\<exists>a. Single a p \<in> H)
     \<or> (\<exists>a mid ps. 2 \<le> length ps \<and> length ps \<le> MAX_FRAGMENT_COUNT \<and> concat ps = p
          \<and> (\<forall>j < length ps. Fragment a mid (of_nat j) (of_nat (length ps)) (ps ! j) \<in> H))"

definition push_good :: "nat \<times> nat \<Rightarrow> quic_frame set \<Rightarrow> fragment_reassembler \<Rightarrow> fragment_reassembler \<Rightarrow> byte list option \<Rightarrow> bool" where
  "push_good layout H r r' out \<longleftrightarrow>
     quic_ok layout r' \<and> fr_timeout r' = fr_timeout r \<and> fr_max_incomplete_bytes r' = fr_max_incomplete_bytes r
     \<and> (\<forall>(k, m) \<in> set (fr_messages r'). comes_from H k m)
     \<and> (\<forall>p. out = Some p \<longrightarrow> sent_as H p \<and> length p \<le> MAX_REASSEMBLED_PAYLOAD)"

lemma push_good_same: "quic_ok layout r \<Longrightarrow> \<forall>(k, m) \<in> set (fr_messages r). comes_from H k m \<Longrightarrow> push_good layout H r r None"
  by (simp add: push_good_def)

lemma push_good_removed:
  "quic_ok layout r \<Longrightarrow> \<forall>(k, m) \<in> set (fr_messages r). comes_from H k m \<Longrightarrow>
   push_good layout H r (remove_message layout r k) None"
  using remove_message_ok [of layout r k] set_delete_subset [of k "fr_messages r"] by (auto simp: push_good_def)

lemma stored_bytes_update:
  "i < length fs \<Longrightarrow> fs ! i = None \<Longrightarrow> stored_bytes (fs[i := Some p]) = stored_bytes fs + length p"
proof (induction fs arbitrary: i)
  case (Cons f fs)
  then show ?case
    by (cases i) (auto simp: stored_bytes_def)
qed simp

lemma stored_bytes_none [simp]: "stored_bytes (replicate n None) = 0"
  by (induction n) (auto simp: stored_bytes_def)

lemma stored_all:
  "None \<notin> set fs \<Longrightarrow> length (concat (map the fs)) = stored_bytes fs"
  by (induction fs) (auto simp: stored_bytes_def split: option.split)

lemma filter_some_all: "None \<notin> set fs \<Longrightarrow> filter (\<lambda>f. \<exists>y. f = Some y) fs = fs"
  by (rule filter_True) (metis option.exhaust)

lemma add_fragment_ok:
  assumes "message_ok m" "i < length (pm_fragments m)" "pm_fragments m ! i = None"
    "pm_received m + length p \<le> MAX_REASSEMBLED_PAYLOAD"
  shows "length (pm_fragments (add_fragment m i p)) = unat (pm_fragment_count m)"
    "pm_received (add_fragment m i p) = stored_bytes (pm_fragments (add_fragment m i p))"
    "pm_fragment_count (add_fragment m i p) = pm_fragment_count m"
    "None \<in> set (pm_fragments (add_fragment m i p)) \<Longrightarrow> message_ok (add_fragment m i p)"
  using assms stored_bytes_update [OF assms(2,3), of p] by (simp_all add: message_ok_def add_fragment_def)

lemma add_fragment_from:
  assumes "comes_from H k m" "Fragment (fst k) (snd k) (of_nat i) (pm_fragment_count m) p \<in> H"
  shows "comes_from H k (add_fragment m i p)"
  using assms by (cases "i < length (pm_fragments m)") (auto simp: comes_from_def add_fragment_def nth_list_update split: if_splits)

lemma push_existing_run:
  assumes "map_of (fr_messages r) k = Some m" "pm_fragment_count m = cnt" "i < length (pm_fragments m)" "pm_fragments m ! i = None"
    "pm_received m + length p \<le> MAX_REASSEMBLED_PAYLOAD" "budget_allows r (length p)" "p \<noteq> []"
  shows "push_existing layout r k m i cnt p =
    (if None \<in> set (pm_fragments (add_fragment m i p))
     then Some (r\<lparr>fr_messages := AList.update k (add_fragment m i p) (fr_messages r),
                  fr_incomplete_bytes := fr_incomplete_bytes r + length p\<rparr>, None)
     else Some (remove_message layout r k, Some (concat (map the (pm_fragments (add_fragment m i p))))))"
proof -
  have "pm_received (add_fragment m i p) \<noteq> 0"
    using assms(7) by (simp add: add_fragment_def)
  then show ?thesis
    using assms
    by (simp add: push_existing_def Let_def list_ex_iff saturating_add_def remove_message_def delete_update_same
        filter_some_all add_fragment_def del: add_is_0)
qed

lemma push_existing_good:
  assumes "quic_layout_ok layout" "quic_ok layout r" "\<forall>(k, m) \<in> set (fr_messages r). comes_from H k m"
    "map_of (fr_messages r) k = Some m" "i < unat cnt" "Fragment (fst k) (snd k) (of_nat i) cnt p \<in> H" "p \<noteq> []"
  shows "\<exists>r' out. push_existing layout r k m i cnt p = Some (r', out) \<and> push_good layout H r r' out"
proof -
  note ok = assms(2) [unfolded quic_ok_def]
  have m: "message_ok m" "comes_from H k m" "k \<in> fst ` set (fr_messages r)"
    using ok assms(3,4) map_of_Some_key [OF assms(4)] by (auto dest!: map_of_SomeD)
  let ?m = "add_fragment m i p"
  show ?thesis
  proof (cases "pm_fragment_count m = cnt \<and> pm_fragments m ! i = None
      \<and> pm_received m + length p \<le> MAX_REASSEMBLED_PAYLOAD \<and> budget_allows r (length p)")
    case False
    moreover have "saturating_add (pm_received m) (length p) > MAX_REASSEMBLED_PAYLOAD
        \<longleftrightarrow> pm_received m + length p > MAX_REASSEMBLED_PAYLOAD"
      by (auto simp: saturating_add_def MAX_REASSEMBLED_PAYLOAD_def)
    ultimately have "push_existing layout r k m i cnt p = Some (r, None)
        \<or> push_existing layout r k m i cnt p = Some (remove_message layout r k, None)"
      using assms(5) m(1) by (auto simp: push_existing_def message_ok_def)
    then show ?thesis
      using push_good_same [OF assms(2,3)] push_good_removed [OF assms(2,3), of k] by blast
  next
    case True
    then have i: "i < length (pm_fragments m)" and total: "pm_received m + length p \<le> MAX_REASSEMBLED_PAYLOAD"
      using assms(5) m(1) by (simp_all add: message_ok_def)
    note add = add_fragment_ok [OF m(1) i conjunct1 [OF conjunct2 [OF True]] total]
    let ?r = "r\<lparr>fr_messages := AList.update k ?m (fr_messages r), fr_incomplete_bytes := fr_incomplete_bytes r + length p\<rparr>"
    have from_H: "comes_from H k ?m"
      using add_fragment_from [OF m(2)] assms(6) True by simp
    note run = push_existing_run [OF assms(4) conjunct1 [OF True] i conjunct1 [OF conjunct2 [OF True]] total
        conjunct2 [OF conjunct2 [OF conjunct2 [OF True]]] assms(7), of layout]
    show ?thesis
    proof (cases "None \<in> set (pm_fragments ?m)")
      case inside: True
      have cost: "int (message_cost layout ?m) = int (message_cost layout m) + int (length p)"
        by (simp add: message_cost_def add_fragment_def)
      have "quic_ok layout ?r"
        using ok add(4) [OF inside] assms(4) True m(3) alist_set_update [of k ?m "fr_messages r"] cost
        by (auto simp: quic_ok_def alist_sum_update distinct_update length_update budget_allows_def)
      then show ?thesis
        using run inside from_H assms(3) alist_set_update [of k ?m "fr_messages r"] by (auto simp: push_good_def)
    next
      case complete: False
      let ?ps = "map the (pm_fragments ?m)"
      have len: "length ?ps = unat cnt"
        using add(1) True by simp
      have "Fragment (fst k) (snd k) (of_nat j) (of_nat (length ?ps)) (?ps ! j) \<in> H" if "j < length ?ps" for j
      proof -
        have "pm_fragments ?m ! j \<noteq> None"
          using that complete by (metis length_map nth_mem)
        then show ?thesis
          using that from_H True len by (auto simp: comes_from_def add(3))
      qed
      then have "sent_as H (concat ?ps)"
        using len m(1) True unfolding sent_as_def message_ok_def by (intro disjI2 exI conjI) auto
      moreover have "length (concat ?ps) \<le> MAX_REASSEMBLED_PAYLOAD"
        using stored_all [OF complete] add(2) total by (simp add: add_fragment_def)
      ultimately show ?thesis
        using run complete push_good_removed [OF assms(2,3), of k] by (auto simp: push_good_def)
    qed
  qed
qed

lemma push_new_good:
  assumes "quic_layout_ok layout" "quic_ok layout r" "\<forall>(k, m) \<in> set (fr_messages r). comes_from H k m"
    "map_of (fr_messages r) k = None" "i < unat cnt" "Fragment (fst k) (snd k) (of_nat i) cnt p \<in> H"
    "2 \<le> unat cnt" "unat cnt \<le> MAX_FRAGMENT_COUNT" "length p \<le> MAX_REASSEMBLED_PAYLOAD"
  shows "push_good layout H r (push_new layout r k i cnt p now) None"
proof -
  note ok = assms(2) [unfolded quic_ok_def]
  let ?m = "\<lparr>pm_created_at = now, pm_fragment_count = cnt, pm_fragments = (replicate (unat cnt) None)[i := Some p], pm_received = length p\<rparr>"
  have over: "partial_message_overhead layout (unat cnt) = fst layout + unat cnt * snd layout"
    by (rule overhead_exact [OF assms(1,8)])
  have "unat cnt * snd layout \<le> MAX_FRAGMENT_COUNT * snd layout"
    using assms(8) by (rule mult_le_mono1)
  then have "partial_message_overhead layout (unat cnt) + length p < 2 ^ 64"
    using assms(1,9) unfolding quic_layout_ok_def over by linarith
  then have cost: "saturating_add (partial_message_overhead layout (unat cnt)) (length p) = message_cost layout ?m"
    by (simp add: saturating_add_def message_cost_def)
  show ?thesis
  proof (cases "length (fr_messages r) < MAX_INCOMPLETE_MESSAGES_PER_ASSOCIATION \<and> budget_allows r (message_cost layout ?m)")
    case False
    then have "push_new layout r k i cnt p now = r"
      unfolding push_new_def cost by (auto simp: not_less)
    then show ?thesis
      using push_good_same [OF assms(2,3)] by simp
  next
    case True
    let ?r = "r\<lparr>fr_messages := AList.update k ?m (fr_messages r), fr_incomplete_bytes := fr_incomplete_bytes r + message_cost layout ?m\<rparr>"
    have new: "push_new layout r k i cnt p now = ?r"
      using True unfolding push_new_def cost by simp
    have "\<exists>j < unat cnt. j \<noteq> i"
      using assms(7) by (intro exI [of _ "if i = 0 then 1 else 0"]) auto
    then obtain j where "j < unat cnt" "(replicate (unat cnt) None)[i := Some p] ! j = None"
      by auto
    then have "None \<in> set ((replicate (unat cnt) None)[i := Some p])"
      by (metis length_list_update length_replicate nth_mem)
    then have "message_ok ?m"
      using assms(5,7-9) stored_bytes_update [of i "replicate (unat cnt) None" p] by (simp add: message_ok_def)
    moreover have "comes_from H k ?m"
      using assms(5,6) by (auto simp: comes_from_def nth_list_update split: if_splits)
    moreover have "k \<notin> fst ` set (fr_messages r)"
      using assms(4) by (simp add: map_of_eq_None_keys)
    ultimately show ?thesis
      using ok True assms(3,4) new alist_set_update [of k ?m "fr_messages r"]
      by (auto simp: push_good_def quic_ok_def alist_sum_update distinct_update length_update budget_allows_def)
  qed
qed

lemma quic_push_good:
  assumes "quic_layout_ok layout" "quic_ok layout r" "\<forall>(k, m) \<in> set (fr_messages r). comes_from H k m" "f \<in> H"
  shows "\<exists>r' out. quic_push layout r f now = Some (r', out) \<and> push_good layout H r r' out"
proof -
  define r0 where "r0 = fst (expire_messages layout r now)"
  note e = expire_ok [OF assms(2), of now, folded r0_def]
  have from_H: "\<forall>(k, m) \<in> set (fr_messages r0). comes_from H k m"
    using assms(3) e(2) by auto
  have same: "push_good layout H r r' out \<longleftrightarrow> push_good layout H r0 r' out" for r' out
    by (simp add: push_good_def e(3,4))
  show ?thesis
  proof (cases f)
    case (Single a p)
    then show ?thesis
      using e(1) from_H assms(4) unfolding same by (auto simp: quic_push_def r0_def [symmetric] push_good_def sent_as_def)
  next
    case (Fragment a mid i cnt p)
    let ?k = "(a, mid)"
    have step: "quic_push layout r f now = quic_push_fragment layout r0 ?k i cnt p now"
      by (simp add: Fragment quic_push_def r0_def)
    show ?thesis
    proof (cases "cnt < 2 \<or> unat cnt > MAX_FRAGMENT_COUNT \<or> i \<ge> cnt \<or> p = [] \<or> length p > MAX_REASSEMBLED_PAYLOAD")
      case True
      then show ?thesis
        unfolding step same using push_good_same [OF e(1) from_H] by (simp add: quic_push_fragment_def)
    next
      case False
      then have g: "2 \<le> unat cnt" "unat cnt \<le> MAX_FRAGMENT_COUNT" "unat i < unat cnt" "p \<noteq> []" "length p \<le> MAX_REASSEMBLED_PAYLOAD"
        by (auto simp: word_less_nat_alt word_le_nat_alt not_less)
      have H: "Fragment (fst ?k) (snd ?k) (of_nat (unat i)) cnt p \<in> H"
        using assms(4) Fragment by simp
      show ?thesis
        unfolding step same quic_push_fragment_def if_not_P [OF False]
        using push_existing_good [OF assms(1) e(1) from_H _ g(3) H g(4)] push_new_good [OF assms(1) e(1) from_H _ g(3) H g(1,2,5)]
        by (cases "map_of (fr_messages r0) ?k") auto
    qed
  qed
qed

subsection \<open>Any input\<close>

fun quic_run ::
  "nat \<times> nat \<Rightarrow> fragment_reassembler \<Rightarrow> (quic_frame \<times> nat) list \<Rightarrow> (fragment_reassembler \<times> byte list option list) option" where
  "quic_run layout r [] = Some (r, [])"
| "quic_run layout r ((f, now) # fs) =
     Option.bind (quic_push layout r f now) (\<lambda>(r', out). map_option (\<lambda>(r'', outs). (r'', out # outs)) (quic_run layout r' fs))"

lemma quic_run_good:
  "quic_layout_ok layout \<Longrightarrow> quic_ok layout r \<Longrightarrow> \<forall>(k, m) \<in> set (fr_messages r). comes_from H k m \<Longrightarrow> fst ` set fs \<subseteq> H \<Longrightarrow>
   \<exists>r' outs. quic_run layout r fs = Some (r', outs) \<and> quic_ok layout r'
     \<and> fr_max_incomplete_bytes r' = fr_max_incomplete_bytes r
     \<and> (\<forall>p. Some p \<in> set outs \<longrightarrow> sent_as H p \<and> length p \<le> MAX_REASSEMBLED_PAYLOAD)"
proof (induction fs arbitrary: r)
  case (Cons ft fs)
  obtain f now where ft: "ft = (f, now)"
    by (cases ft)
  obtain r1 out where push: "quic_push layout r f now = Some (r1, out)" "push_good layout H r r1 out"
    using quic_push_good [OF Cons.prems(1-3), of f now] Cons.prems(4) ft by auto
  then obtain r' outs where "quic_run layout r1 fs = Some (r', outs)" "quic_ok layout r'"
      "fr_max_incomplete_bytes r' = fr_max_incomplete_bytes r1"
      "\<forall>p. Some p \<in> set outs \<longrightarrow> sent_as H p \<and> length p \<le> MAX_REASSEMBLED_PAYLOAD"
    using Cons.IH [of r1] Cons.prems(1,4) unfolding push_good_def by auto
  then show ?case
    using push by (auto simp: ft push_good_def)
qed simp

lemma reassembler_new_ok: "quic_ok layout (fragment_reassembler_new timeout budget)"
  by (simp add: quic_ok_def fragment_reassembler_new_def)

text \<open>
  C13: whatever frames arrive and whenever, the reassembler does not panic, holds at most 256
  messages within its budget, with an exact account, and what it gives out was sent whole or as
  the fragments of one message, in their order, and is not larger than a payload may be.
\<close>

theorem quic_reassembler_safe:
  assumes "quic_layout_ok layout"
  shows "\<exists>r outs. quic_run layout (fragment_reassembler_new timeout budget) fs = Some (r, outs)
    \<and> length (fr_messages r) \<le> MAX_INCOMPLETE_MESSAGES_PER_ASSOCIATION
    \<and> fr_incomplete_bytes r \<le> budget
    \<and> int (fr_incomplete_bytes r) = alist_sum (\<lambda>m. int (message_cost layout m)) (fr_messages r)
    \<and> (\<forall>p. Some p \<in> set outs \<longrightarrow> sent_as (fst ` set fs) p \<and> length p \<le> MAX_REASSEMBLED_PAYLOAD)"
  using quic_run_good [OF assms reassembler_new_ok, of timeout budget "fst ` set fs" fs]
  by (fastforce simp: fragment_reassembler_new_def quic_ok_def)

theorem quic_reassembler_safe_witness:
  "\<exists>r outs. quic_run (64, 24) (fragment_reassembler_new 2000000000 1048576) [(Single 1 [5], 0), (Fragment 1 1 0 2 [6], 0)] = Some (r, outs)
     \<and> length (fr_messages r) \<le> 256 \<and> fr_incomplete_bytes r \<le> 1048576"
  using quic_reassembler_safe [of "(64, 24)" 2000000000 1048576 "[(Single 1 [5], 0), (Fragment 1 1 0 2 [6], 0)]"]
  by (auto simp: quic_layout_ok_def MAX_FRAGMENT_COUNT_def MAX_REASSEMBLED_PAYLOAD_def MAX_INCOMPLETE_MESSAGES_PER_ASSOCIATION_def)

subsection \<open>Fragments in any order\<close>

definition slots :: "byte list list \<Rightarrow> nat set \<Rightarrow> byte list option list" where
  "slots ps S = map (\<lambda>i. if i \<in> S then Some (ps ! i) else None) [0..<length ps]"

lemma slots_update: "i < length ps \<Longrightarrow> (slots ps S)[i := Some (ps ! i)] = slots ps (insert i S)"
  by (rule nth_equalityI) (auto simp: slots_def nth_list_update)

lemma slots_empty: "replicate (length ps) None = slots ps {}"
  by (rule nth_equalityI) (simp_all add: slots_def)

lemma slots_open: "None \<in> set (slots ps S) \<longleftrightarrow> \<not> {..<length ps} \<subseteq> S"
  by (auto simp: slots_def image_iff subset_iff)

lemma slots_full: "{..<length ps} \<subseteq> S \<Longrightarrow> map the (slots ps S) = ps"
  by (rule nth_equalityI) (auto simp: slots_def)

lemma slots_bytes: "stored_bytes (slots ps S) \<le> length (concat ps)"
proof -
  have "stored_bytes (slots ps S) = (\<Sum>i\<leftarrow>[0..<length ps]. if i \<in> S then length (ps ! i) else 0)"
    by (simp add: stored_bytes_def slots_def o_def if_distrib cong: if_cong)
  also have "\<dots> \<le> (\<Sum>i\<leftarrow>[0..<length ps]. length (ps ! i))"
    by (rule sum_list_mono) simp
  also have "\<dots> = length (concat ps)"
  proof -
    have "map (\<lambda>i. length (ps ! i)) [0..<length ps] = map length ps"
      by (rule nth_equalityI) simp_all
    then show ?thesis
      by (simp add: length_concat)
  qed
  finally show ?thesis .
qed

lemma map_of_filter_hit: "map_of ms k = Some m \<Longrightarrow> P (k, m) \<Longrightarrow> map_of (filter P ms) k = Some m"
  by (induction ms) (auto split: if_splits)

text \<open>A message that has received the fragments with indexes \<open>S\<close>, in a reassembler with room for the others.\<close>

definition holds_fragments ::
  "nat \<times> nat \<Rightarrow> fragment_reassembler \<Rightarrow> u32 \<times> u32 \<Rightarrow> byte list list \<Rightarrow> nat \<Rightarrow> nat set \<Rightarrow> bool" where
  "holds_fragments layout r k ps created S \<longleftrightarrow>
     quic_ok layout r
     \<and> map_of (fr_messages r) k =
         Some \<lparr>pm_created_at = created, pm_fragment_count = of_nat (length ps), pm_fragments = slots ps S,
               pm_received = stored_bytes (slots ps S)\<rparr>
     \<and> fr_incomplete_bytes r + length (concat ps) \<le> fr_max_incomplete_bytes r + stored_bytes (slots ps S)"

lemma next_fragment:
  assumes "quic_layout_ok layout" "holds_fragments layout r k ps created S" "2 \<le> length ps" "length ps \<le> MAX_FRAGMENT_COUNT"
    "length (concat ps) \<le> MAX_REASSEMBLED_PAYLOAD" "i < length ps" "i \<notin> S" "ps ! i \<noteq> []" "now - created < fr_timeout r"
  shows "\<exists>r'. fr_timeout r' = fr_timeout r \<and>
    (if {..<length ps} \<subseteq> insert i S
     then quic_push layout r (Fragment (fst k) (snd k) (of_nat i) (of_nat (length ps)) (ps ! i)) now = Some (r', Some (concat ps))
       \<and> map_of (fr_messages r') k = None
     else quic_push layout r (Fragment (fst k) (snd k) (of_nat i) (of_nat (length ps)) (ps ! i)) now = Some (r', None)
       \<and> holds_fragments layout r' k ps created (insert i S))"
proof -
  let ?f = "Fragment (fst k) (snd k) (of_nat i) (of_nat (length ps)) (ps ! i)" and ?p = "ps ! i"
  let ?m = "\<lparr>pm_created_at = created, pm_fragment_count = of_nat (length ps), pm_fragments = slots ps S, pm_received = stored_bytes (slots ps S)\<rparr>"
  note h = assms(2) [unfolded holds_fragments_def]
  define r0 where "r0 = fst (expire_messages layout r now)"
  note e = expire_ok [OF conjunct1 [OF h], of now, folded r0_def]
  have found: "map_of (fr_messages r0) k = Some ?m"
    unfolding e(2) using h assms(9) by (intro map_of_filter_hit) simp_all
  have slot: "slots ps S ! i = None" "i < length (slots ps S)"
    using assms(6,7) by (simp_all add: slots_def)
  have added: "add_fragment ?m i ?p = ?m\<lparr>pm_fragments := slots ps (insert i S), pm_received := stored_bytes (slots ps (insert i S))\<rparr>"
    using stored_bytes_update [OF slot(2,1), of ?p] slots_update [OF assms(6), of S] by (simp add: add_fragment_def)
  have grow: "stored_bytes (slots ps S) + length ?p = stored_bytes (slots ps (insert i S))"
    using stored_bytes_update [OF slot(2,1), of ?p] slots_update [OF assms(6), of S] by simp
  have room: "stored_bytes (slots ps S) + length ?p \<le> MAX_REASSEMBLED_PAYLOAD" "budget_allows r0 (length ?p)"
    using grow slots_bytes [of ps "insert i S"] assms(5) h e(4,5) by (auto simp: budget_allows_def)
  have unat: "unat (of_nat (length ps) :: u16) = length ps" "unat (of_nat i :: u16) = i"
    using assms(4,6) by (simp_all add: MAX_FRAGMENT_COUNT_def unat_small16)
  have "length ?p \<le> MAX_REASSEMBLED_PAYLOAD"
    using room(1) by simp
  then have step: "quic_push layout r ?f now = push_existing layout r0 k ?m i (of_nat (length ps)) ?p"
    using assms(3,4,6,8) found unat
    by (simp add: quic_push_def r0_def [symmetric] quic_push_fragment_def word_less_nat_alt word_le_nat_alt)
  note run = push_existing_run [OF found _ _ _ _ room(2) assms(8), of "of_nat (length ps)" i layout,
      folded step, unfolded added]
  obtain r' out where push: "quic_push layout r ?f now = Some (r', out)" "push_good layout UNIV r r' out"
    using quic_push_good [OF assms(1) conjunct1 [OF h], of UNIV ?f now] by (auto simp: comes_from_def)
  show ?thesis
  proof (cases "{..<length ps} \<subseteq> insert i S")
    case True
    then have "quic_push layout r ?f now = Some (remove_message layout r0 k, Some (concat ps))"
      using run slot room by (simp add: slots_open slots_full)
    then show ?thesis
      using True remove_message_ok [OF e(1), of k] e(3) by auto
  next
    case False
    then have "quic_push layout r ?f now = Some (r0\<lparr>fr_messages := AList.update k (add_fragment ?m i ?p) (fr_messages r0),
        fr_incomplete_bytes := fr_incomplete_bytes r0 + length ?p\<rparr>, None)"
      using run slot room by (simp add: slots_open added)
    moreover from this push have "holds_fragments layout r' k ps created (insert i S)"
      using h grow e(4,5) by (auto simp: holds_fragments_def push_good_def added)
    ultimately show ?thesis
      using False push by (auto simp: push_good_def)
  qed
qed

text \<open>The fragments that are missing, in any order, complete the message with the last of them.\<close>

lemma remaining_fragments:
  assumes "quic_layout_ok layout" "2 \<le> length ps" "length ps \<le> MAX_FRAGMENT_COUNT" "length (concat ps) \<le> MAX_REASSEMBLED_PAYLOAD"
    "\<forall>i < length ps. ps ! i \<noteq> []"
  shows "holds_fragments layout r k ps created S \<Longrightarrow> distinct is \<Longrightarrow> set is \<union> S = {..<length ps} \<Longrightarrow> set is \<inter> S = {} \<Longrightarrow> is \<noteq> [] \<Longrightarrow>
    length ts = length is \<Longrightarrow> \<forall>t \<in> set ts. t - created < fr_timeout r \<Longrightarrow>
    \<exists>r'. quic_run layout r (zip (map (\<lambda>i. Fragment (fst k) (snd k) (of_nat i) (of_nat (length ps)) (ps ! i)) is) ts)
          = Some (r', replicate (length is - 1) None @ [Some (concat ps)])
      \<and> map_of (fr_messages r') k = None"
proof (induction "is" arbitrary: r S ts)
  case (Cons i "is")
  obtain t ts' where ts: "ts = t # ts'" "length ts' = length is"
    using Cons.prems(6) by (cases ts) auto
  have i: "i < length ps" "i \<notin> S"
    using Cons.prems(3,4) by auto
  obtain r1 where same: "fr_timeout r1 = fr_timeout r" and push:
    "if {..<length ps} \<subseteq> insert i S
     then quic_push layout r (Fragment (fst k) (snd k) (of_nat i) (of_nat (length ps)) (ps ! i)) t = Some (r1, Some (concat ps))
       \<and> map_of (fr_messages r1) k = None
     else quic_push layout r (Fragment (fst k) (snd k) (of_nat i) (of_nat (length ps)) (ps ! i)) t = Some (r1, None)
       \<and> holds_fragments layout r1 k ps created (insert i S)"
    using next_fragment [OF assms(1) Cons.prems(1) assms(2-4) i, of t] assms(5) i(1) Cons.prems(7) ts by auto
  show ?case
  proof (cases "is = []")
    case True
    then have "{..<length ps} \<subseteq> insert i S"
      using Cons.prems(3) by auto
    then show ?thesis
      using push True ts by simp
  next
    case False
    then have more: "\<not> {..<length ps} \<subseteq> insert i S"
      using Cons.prems(2,3,4) by (cases "is") auto
    have "set is \<union> insert i S = {..<length ps}" "set is \<inter> insert i S = {}"
      using Cons.prems(2,3,4) by auto
    with Cons.IH [of r1 "insert i S" ts'] push more False Cons.prems(2,7) ts same
    obtain r' where "quic_run layout r1 (zip (map (\<lambda>i. Fragment (fst k) (snd k) (of_nat i) (of_nat (length ps)) (ps ! i)) is) ts')
        = Some (r', replicate (length is - 1) None @ [Some (concat ps)])" "map_of (fr_messages r') k = None"
      by auto
    moreover have "replicate (length is) None = None # replicate (length is - 1) (None :: byte list option)"
      using False by (cases "is") simp_all
    ultimately show ?thesis
      using push more ts by simp
  qed
qed simp

lemma first_fragment:
  assumes "quic_layout_ok layout" "quic_ok layout r" "map_of (fr_messages r) k = None"
    "length (fr_messages r) < MAX_INCOMPLETE_MESSAGES_PER_ASSOCIATION"
    "fr_incomplete_bytes r + partial_message_overhead layout (length ps) + length (concat ps) \<le> fr_max_incomplete_bytes r"
    "2 \<le> length ps" "length ps \<le> MAX_FRAGMENT_COUNT" "length (concat ps) \<le> MAX_REASSEMBLED_PAYLOAD" "i < length ps" "ps ! i \<noteq> []"
  shows "\<exists>r'. quic_push layout r (Fragment (fst k) (snd k) (of_nat i) (of_nat (length ps)) (ps ! i)) now = Some (r', None)
    \<and> holds_fragments layout r' k ps now {i} \<and> fr_timeout r' = fr_timeout r"
proof -
  let ?f = "Fragment (fst k) (snd k) (of_nat i) (of_nat (length ps)) (ps ! i)" and ?p = "ps ! i"
  let ?cnt = "of_nat (length ps) :: u16"
  define r0 where "r0 = fst (expire_messages layout r now)"
  note e = expire_ok [OF assms(2), of now, folded r0_def]
  have fresh: "map_of (fr_messages r0) k = None" "length (fr_messages r0) < MAX_INCOMPLETE_MESSAGES_PER_ASSOCIATION"
    using assms(3,4) e(2) by (auto simp: map_of_eq_None_keys intro: le_less_trans [OF length_filter_le])
  have unat: "unat ?cnt = length ps" "unat (of_nat i :: u16) = i"
    using assms(7,9) by (simp_all add: MAX_FRAGMENT_COUNT_def unat_small16)
  have slots: "(replicate (length ps) None)[i := Some ?p] = slots ps {i}"
    using slots_update [OF assms(9), of "{}"] by (simp add: slots_empty)
  have stored: "stored_bytes (slots ps {i}) = length ?p"
    using stored_bytes_update [of i "replicate (length ps) None" ?p] assms(9) by (simp add: slots)
  have len: "length ?p \<le> length (concat ps)"
    using slots_bytes [of ps "{i}"] stored by simp
  have over: "partial_message_overhead layout (length ps) = fst layout + length ps * snd layout"
    by (rule overhead_exact [OF assms(1,7)])
  have "length ps * snd layout \<le> MAX_FRAGMENT_COUNT * snd layout"
    using assms(7) by (rule mult_le_mono1)
  then have "partial_message_overhead layout (length ps) + length ?p < 2 ^ 64"
    using assms(1,8) len unfolding quic_layout_ok_def over by linarith
  then have sum: "saturating_add (partial_message_overhead layout (length ps)) (length ?p)
      = partial_message_overhead layout (length ps) + length ?p"
    by (simp add: saturating_add_def)
  have budget: "budget_allows r0 (partial_message_overhead layout (length ps) + length ?p)"
    using assms(5) len e(4,5) by (simp add: budget_allows_def)
  let ?m = "\<lparr>pm_created_at = now, pm_fragment_count = ?cnt, pm_fragments = slots ps {i}, pm_received = length ?p\<rparr>"
  have new: "push_new layout r0 k i ?cnt ?p now = r0\<lparr>fr_messages := AList.update k ?m (fr_messages r0),
      fr_incomplete_bytes := fr_incomplete_bytes r0 + (partial_message_overhead layout (length ps) + length ?p)\<rparr>"
    using fresh(2) budget by (simp add: push_new_def unat sum slots)
  have step: "quic_push layout r ?f now = Some (push_new layout r0 k i ?cnt ?p now, None)"
    using assms(6-8,9,10) fresh(1) unat len
    by (simp add: quic_push_def r0_def [symmetric] quic_push_fragment_def word_less_nat_alt word_le_nat_alt)
  obtain r' out where push: "quic_push layout r ?f now = Some (r', out)" "push_good layout UNIV r r' out"
    using quic_push_good [OF assms(1,2), of UNIV ?f now] by (auto simp: comes_from_def)
  then have r': "r' = r0\<lparr>fr_messages := AList.update k ?m (fr_messages r0),
      fr_incomplete_bytes := fr_incomplete_bytes r0 + (partial_message_overhead layout (length ps) + length ?p)\<rparr>"
    using step new by simp
  have "holds_fragments layout r' k ps now {i}"
    using push(2) assms(5) e(4,5) stored by (simp add: holds_fragments_def push_good_def r')
  then show ?thesis
    using push step by (auto simp: push_good_def)
qed

text \<open>
  C14: the datagrams of a payload fit the size they were cut for, and in whatever order they
  arrive within the timeout, at a reassembler with room for the message, nothing comes out before
  the last of them and then exactly the payload; nothing of the message is kept.
\<close>

theorem quic_datagrams_reassemble:
  assumes "quic_layout_ok layout" "quic_ok layout r" "map_of (fr_messages r) (a, mid) = None"
    "length (fr_messages r) < MAX_INCOMPLETE_MESSAGES_PER_ASSOCIATION"
    "fr_incomplete_bytes r + partial_message_overhead layout (length ds) + length payload \<le> fr_max_incomplete_bytes r"
    "encode_datagrams a mid payload max_size = Some (Inr ds)" "distinct is" "set is = {..<length ds}"
    "length ts = length ds" "\<forall>t \<in> set ts. t - hd ts < fr_timeout r"
  shows "\<exists>frames r'. map (\<lambda>i. decode_frame (ds ! i)) is = map Inr frames
    \<and> quic_run layout r (zip frames ts) = Some (r', replicate (length ds - 1) None @ [Some payload])
    \<and> map_of (fr_messages r') (a, mid) = None \<and> (\<forall>d \<in> set ds. length d \<le> max_size)"
proof (rule encode_datagrams_ok [of a mid payload max_size])
  fix d
  assume d: "encode_datagrams a mid payload max_size = Some (Inr [d])" "decode_frame d = Inr (Single a payload)" "length d \<le> max_size"
    "length payload \<le> MAX_REASSEMBLED_PAYLOAD"
  then have "ds = [d]"
    using assms(6) by simp
  moreover from this have "is = [0]"
    using assms(7,8) distinct_card [OF assms(7)] by (cases "is") (auto simp: lessThan_Suc subset_singleton_iff)
  ultimately have ds: "ds = [d]" "is = [0]"
    by simp_all
  then obtain t where t: "ts = [t]"
    using assms(9) by (cases ts) auto
  have "map_of (fr_messages (fst (expire_messages layout r t))) (a, mid) = None"
    using expire_ok(2) [OF assms(2), of t] assms(3) by (auto simp: map_of_eq_None_keys)
  then show ?thesis
    using d ds t by (intro exI [of _ "[Single a payload]"]) (simp add: quic_push_def)
next
  fix ps ds'
  assume "encode_datagrams a mid payload max_size = Some (Inr ds')" "datagrams_of a mid payload ps ds'"
    and size: "\<forall>d \<in> set ds'. length d \<le> max_size" and total: "length payload \<le> MAX_REASSEMBLED_PAYLOAD"
  then have ps: "length ps = length ds" "concat ps = payload" "2 \<le> length ps" "length ps \<le> MAX_FRAGMENT_COUNT" "ds' = ds"
    and piece: "\<forall>i < length ps. ps ! i \<noteq> [] \<and> decode_frame (ds ! i) = Inr (Fragment a mid (of_nat i) (of_nat (length ps)) (ps ! i))"
    using assms(6) by (auto simp: datagrams_of_def)
  have total': "length (concat ps) \<le> MAX_REASSEMBLED_PAYLOAD"
    using total ps(2) by simp
  have len: "length is = length ds"
    using distinct_card [OF assms(7)] assms(8) by simp
  obtain i "is'" where "is": "is = i # is'"
    using len ps(1,3) by (cases "is") auto
  obtain t ts' where ts: "ts = t # ts'"
    using assms(9) ps(1,3) by (cases ts) auto
  have i: "i < length ps"
    using assms(8) "is" ps(1) by auto
  let ?frame = "\<lambda>i. Fragment (fst (a, mid)) (snd (a, mid)) (of_nat i) (of_nat (length ps)) (ps ! i)"
  obtain r1 where r1: "quic_push layout r (?frame i) t = Some (r1, None)" "holds_fragments layout r1 (a, mid) ps t {i}"
      "fr_timeout r1 = fr_timeout r"
    using first_fragment [OF assms(1-4) _ ps(3,4) total' i, of t] assms(5) ps(1,2) piece i by auto
  have rest: "set is' \<union> {i} = {..<length ps}" "set is' \<inter> {i} = {}" "distinct is'" "is' \<noteq> []" "length ts' = length is'"
  proof -
    show "set is' \<union> {i} = {..<length ps}"
      using assms(8) ps(1) by (simp add: "is" insert_commute)
    show "set is' \<inter> {i} = {}" "distinct is'"
      using assms(7) by (simp_all add: "is")
    show "is' \<noteq> []" "length ts' = length is'"
      using len ps(1,3) assms(9) ts by (auto simp: "is")
  qed
  have "\<forall>t' \<in> set ts'. t' - t < fr_timeout r1"
    using assms(10) ts r1(3) by simp
  from remaining_fragments [OF assms(1) ps(3,4) total' _ r1(2) rest(3,1,2,4,5) this] piece
  obtain r' where r': "quic_run layout r1 (zip (map ?frame is') ts') = Some (r', replicate (length is' - 1) None @ [Some payload])"
    "map_of (fr_messages r') (a, mid) = None"
    using ps(2) by auto
  have "replicate (length is') None = None # replicate (length is' - 1) (None :: byte list option)"
    using rest(4) by (cases is') simp_all
  then have "quic_run layout r (zip (map ?frame is) ts) = Some (r', replicate (length ds - 1) None @ [Some payload])"
    using r1(1) r'(1) len [symmetric] by (simp add: "is" ts)
  moreover have "map (\<lambda>i. decode_frame (ds ! i)) is = map Inr (map ?frame is)"
    using piece assms(8) ps(1) by simp
  ultimately show ?thesis
    using r'(2) size ps(5) by blast
qed (use assms(6) in simp)

theorem quic_datagrams_reassemble_witness:
  "\<exists>ds frames r'. encode_datagrams 1 7 (replicate 6 1 @ replicate 6 2 @ replicate 3 3) 15 = Some (Inr ds)
    \<and> quic_run (64, 24) (fragment_reassembler_new 2000000000 1048576) (zip frames [3, 5, 4]) = Some (r', [None, None, Some (replicate 6 1 @ replicate 6 2 @ replicate 3 3)])
    \<and> map Inr frames = [decode_frame (ds ! 2), decode_frame (ds ! 0), decode_frame (ds ! 1)]"
proof -
  let ?ds = "map (\<lambda>i. fragment_datagram [3] 7 3 i ([replicate 6 1, replicate 6 2, replicate 3 3] ! i)) [0, 1, 2]"
  let ?r = "fragment_reassembler_new 2000000000 1048576"
  have enc: "encode_datagrams 1 7 (replicate 6 1 @ replicate 6 2 @ replicate 3 3) 15 = Some (Inr ?ds)"
    by code_simp
  have layout: "quic_layout_ok (64, 24)"
    by (simp add: quic_layout_ok_def MAX_FRAGMENT_COUNT_def MAX_REASSEMBLED_PAYLOAD_def)
  have budget: "fr_incomplete_bytes ?r + partial_message_overhead (64, 24) (length ?ds) + length (replicate 6 1 @ replicate 6 2 @ replicate 3 3 :: byte list)
      \<le> fr_max_incomplete_bytes ?r"
    by (simp add: fragment_reassembler_new_def partial_message_overhead_def saturating_add_def saturating_mul_def)
  have order: "distinct [2, 0, 1 :: nat]" "set [2, 0, 1] = {..<length ?ds}" "length [3, 5, 4 :: nat] = length ?ds"
    by (auto simp: lessThan_def)
  have fresh: "map_of (fr_messages ?r) (1, 7) = None" "length (fr_messages ?r) < MAX_INCOMPLETE_MESSAGES_PER_ASSOCIATION"
    "\<forall>t \<in> set [3, 5, 4]. t - hd [3, 5, 4] < fr_timeout ?r"
    by (simp_all add: fragment_reassembler_new_def MAX_INCOMPLETE_MESSAGES_PER_ASSOCIATION_def)
  from quic_datagrams_reassemble [OF layout reassembler_new_ok fresh(1,2) budget enc order fresh(3)]
  obtain frames r' where frames: "map (\<lambda>i. decode_frame (?ds ! i)) [2, 0, 1] = map Inr frames"
    and run: "quic_run (64, 24) ?r (zip frames [3, 5, 4])
      = Some (r', replicate (length ?ds - 1) None @ [Some (replicate 6 1 @ replicate 6 2 @ replicate 3 3)])"
    by blast
  have "replicate (length ?ds - 1) None @ [x] = [None, None, x]" for x :: "byte list option"
    by (simp add: numeral_2_eq_2)
  with run frames enc show ?thesis
    by (intro exI [of _ ?ds] exI [of _ frames] exI [of _ r']) (simp only: list.map)
qed

end
