(* ===== verification/Dns_Cache.thy ===== *)
theory Dns_Cache
  imports Dns_Hosts "HOL-Library.While_Combinator"
begin

text \<open>
  The caches of DNS answers, \<open>dns/src/cache.rs\<close>: a map in order of use with a capacity, the cache of typed
  answers and the cache of packets. Instants and durations count nanoseconds.

  Two third-party libraries are parameters: the linked hash map of hashlink, as the record of the
  operations the code calls, and the messages of hickory, as the record of the parser, the
  serialiser and the accessors. What the code relies on in the first is \<open>linked_map_laws\<close>, its
  documented behaviour; nothing is assumed of the second.
\<close>

subsection \<open>The map in order of use\<close>

record ('k, 'v, 'm) linked_map =
  lm_new :: 'm
  lm_get :: "'m \<Rightarrow> 'k \<Rightarrow> 'v option"
  lm_insert :: "'m \<Rightarrow> 'k \<Rightarrow> 'v \<Rightarrow> 'm"
  lm_to_front :: "'m \<Rightarrow> 'k \<Rightarrow> 'm"
  lm_pop_back :: "'m \<Rightarrow> 'm"
  lm_remove :: "'m \<Rightarrow> 'k \<Rightarrow> 'm \<times> 'v option"
  lm_iter :: "'m \<Rightarrow> ('k \<times> 'v) list"
  lm_len :: "'m \<Rightarrow> nat"

definition linked_map_laws :: "('k, 'v, 'm) linked_map \<Rightarrow> bool" where
  "linked_map_laws ops \<longleftrightarrow>
     lm_iter ops (lm_new ops) = []
     \<and> (\<forall>m. distinct (map fst (lm_iter ops m)) \<and> lm_len ops m = length (lm_iter ops m)
         \<and> lm_iter ops (lm_pop_back ops m) = butlast (lm_iter ops m))
     \<and> (\<forall>m k. lm_get ops m k = map_of (lm_iter ops m) k
         \<and> lm_iter ops (lm_to_front ops m k) =
             (case map_of (lm_iter ops m) k of None \<Rightarrow> lm_iter ops m | Some v \<Rightarrow> (k, v) # AList.delete k (lm_iter ops m))
         \<and> lm_iter ops (fst (lm_remove ops m k)) = AList.delete k (lm_iter ops m)
         \<and> snd (lm_remove ops m k) = map_of (lm_iter ops m) k)
     \<and> (\<forall>m k v. lm_iter ops (lm_insert ops m k v) = AList.delete k (lm_iter ops m) @ [(k, v)])"

record 'm lru_map =
  lru_map :: 'm
  lru_capacity :: nat

definition lru_new :: "('k, 'v, 'm) linked_map \<Rightarrow> nat \<Rightarrow> 'm lru_map" where
  "lru_new ops capacity = \<lparr>lru_map = lm_new ops, lru_capacity = capacity\<rparr>"

definition lru_get_cloned :: "('k, 'v, 'm) linked_map \<Rightarrow> 'm lru_map \<Rightarrow> 'k \<Rightarrow> 'm lru_map \<times> 'v option" where
  "lru_get_cloned ops l key =
     (case lm_get ops (lru_map l) key of
        None \<Rightarrow> (l, None)
      | Some v \<Rightarrow> (l\<lparr>lru_map := lm_to_front ops (lru_map l) key\<rparr>, Some v))"

text \<open>The loop that removes the oldest entries; \<open>None\<close> is a loop that does not end.\<close>

definition lru_insert :: "('k, 'v, 'm) linked_map \<Rightarrow> 'm lru_map \<Rightarrow> 'k \<Rightarrow> 'v \<Rightarrow> 'm lru_map option" where
  "lru_insert ops l key v =
     map_option (\<lambda>m. l\<lparr>lru_map := m\<rparr>)
       (while_option (\<lambda>m. lm_len ops m > lru_capacity l) (lm_pop_back ops)
          (lm_to_front ops (lm_insert ops (lru_map l) key v) key))"

definition lru_remove :: "('k, 'v, 'm) linked_map \<Rightarrow> 'm lru_map \<Rightarrow> 'k \<Rightarrow> 'm lru_map \<times> 'v option" where
  "lru_remove ops l key = (case lm_remove ops (lru_map l) key of (m, v) \<Rightarrow> (l\<lparr>lru_map := m\<rparr>, v))"

definition lru_remove_expired :: "('k, 'v, 'm) linked_map \<Rightarrow> 'm lru_map \<Rightarrow> nat \<Rightarrow> ('v \<Rightarrow> bool) \<Rightarrow> 'm lru_map" where
  "lru_remove_expired ops l budget expired =
     foldl (\<lambda>l k. fst (lru_remove ops l k)) l
       (map fst (filter (\<lambda>(_, v). expired v) (List.take budget (lm_iter ops (lru_map l)))))"

definition lru_len :: "('k, 'v, 'm) linked_map \<Rightarrow> 'm lru_map \<Rightarrow> nat" where
  "lru_len ops l = lm_len ops (lru_map l)"

subsection \<open>Typed answers\<close>

definition as_secs :: "nat \<Rightarrow> nat" where "as_secs d = d div 1000000000"
definition from_secs :: "nat \<Rightarrow> nat" where "from_secs n = n * 1000000000"

definition EXPIRATION_SWEEP_BUDGET :: nat where "EXPIRATION_SWEEP_BUDGET = 8"

definition ttl_left :: "bool \<Rightarrow> nat \<Rightarrow> nat \<Rightarrow> u32 \<Rightarrow> u32" where
  "ttl_left stale cached_at now ttl =
     (if stale then 0
      else (let elapsed = of_nat (min (as_secs (now - cached_at)) (2 ^ 32 - 1)) in if elapsed \<le> ttl then ttl - elapsed else 0))"

definition age_typed_response :: "dns_response \<Rightarrow> nat \<Rightarrow> nat \<Rightarrow> bool \<Rightarrow> dns_response" where
  "age_typed_response response cached_at now stale =
     (case dr_minimum_ttl response of
        Some ttl \<Rightarrow> response\<lparr>dr_minimum_ttl := Some (ttl_left stale cached_at now ttl)\<rparr>
      | None \<Rightarrow> response)"

record cached_dns_response =
  cr_response :: dns_response
  cr_cached_at :: nat
  cr_expires_at :: nat

record cached_dns_packet =
  cp_packet :: "byte list"
  cp_cached_at :: nat
  cp_expires_at :: nat
  cp_negative_ttl :: "u32 option"

type_synonym typed_key = "domain_name \<times> dns_record_type"

record ('m, 'r) dns_cache =
  dc_entries :: "'m lru_map"
  dc_raw_entries :: "'r lru_map"

definition dns_cache_new ::
  "(typed_key, cached_dns_response, 'm) linked_map \<Rightarrow> ('q, cached_dns_packet, 'r) linked_map \<Rightarrow> nat \<Rightarrow> ('m, 'r) dns_cache result" where
  "dns_cache_new ops rops max_entries =
     (if max_entries = 0 then Inl (error_invalid ''DNS cache capacity must be non-zero'')
      else Inr \<lparr>dc_entries = lru_new ops max_entries, dc_raw_entries = lru_new rops max_entries\<rparr>)"

definition cache_get ::
  "(typed_key, cached_dns_response, 'm) linked_map \<Rightarrow> ('m, 'r) dns_cache \<Rightarrow> domain_name \<Rightarrow> dns_record_type \<Rightarrow> nat
    \<Rightarrow> ('m, 'r) dns_cache \<times> dns_response option" where
  "cache_get ops c domain record_type now =
     (case lru_get_cloned ops (dc_entries c) (domain, record_type) of
        (es, None) \<Rightarrow> (c\<lparr>dc_entries := es\<rparr>, None)
      | (es, Some entry) \<Rightarrow>
          (if cr_expires_at entry \<le> now then (c\<lparr>dc_entries := fst (lru_remove ops es (domain, record_type))\<rparr>, None)
           else (c\<lparr>dc_entries := es\<rparr>, Some (age_typed_response (cr_response entry) (cr_cached_at entry) now False))))"

definition response_ttl :: "dns_response \<Rightarrow> u32" where
  "response_ttl r = (case dr_minimum_ttl r of Some ttl \<Rightarrow> ttl | None \<Rightarrow> 300)"

definition cache_insert ::
  "(typed_key, cached_dns_response, 'm) linked_map \<Rightarrow> ('m, 'r) dns_cache \<Rightarrow> domain_name \<Rightarrow> dns_record_type \<Rightarrow> dns_response \<Rightarrow> nat
    \<Rightarrow> ('m, 'r) dns_cache option" where
  "cache_insert ops c domain record_type response now =
     (let ttl = response_ttl response in
      if ttl = 0 then Some (c\<lparr>dc_entries := fst (lru_remove ops (dc_entries c) (domain, record_type))\<rparr>)
      else
        map_option (\<lambda>es. c\<lparr>dc_entries := es\<rparr>)
          (lru_insert ops
            (lru_remove_expired ops (dc_entries c) EXPIRATION_SWEEP_BUDGET (\<lambda>e. cr_expires_at e \<le> now))
            (domain, record_type)
            \<lparr>cr_response = response, cr_cached_at = now, cr_expires_at = now + from_secs (unat ttl)\<rparr>))"

definition get_optimistic ::
  "(typed_key, cached_dns_response, 'm) linked_map \<Rightarrow> ('m, 'r) dns_cache \<Rightarrow> domain_name \<Rightarrow> dns_record_type \<Rightarrow> nat
    \<Rightarrow> ('m, 'r) dns_cache \<times> (dns_response \<times> bool) option" where
  "get_optimistic ops c domain record_type now =
     (case lru_get_cloned ops (dc_entries c) (domain, record_type) of
        (es, None) \<Rightarrow> (c\<lparr>dc_entries := es\<rparr>, None)
      | (es, Some entry) \<Rightarrow>
          (let stale = cr_expires_at entry \<le> now in
           (c\<lparr>dc_entries := es\<rparr>,
            Some (age_typed_response (cr_response entry) (cr_cached_at entry) now stale, stale))))"

definition cache_remove ::
  "(typed_key, cached_dns_response, 'm) linked_map \<Rightarrow> ('m, 'r) dns_cache \<Rightarrow> domain_name \<Rightarrow> dns_record_type \<Rightarrow> ('m, 'r) dns_cache \<times> bool" where
  "cache_remove ops c domain record_type =
     (case lru_remove ops (dc_entries c) (domain, record_type) of (es, v) \<Rightarrow> (c\<lparr>dc_entries := es\<rparr>, v \<noteq> None))"

definition cache_len :: "(typed_key, cached_dns_response, 'm) linked_map \<Rightarrow> ('m, 'r) dns_cache \<Rightarrow> nat" where
  "cache_len ops c = lru_len ops (dc_entries c)"

definition cache_is_empty :: "(typed_key, cached_dns_response, 'm) linked_map \<Rightarrow> ('m, 'r) dns_cache \<Rightarrow> bool" where
  "cache_is_empty ops c \<longleftrightarrow> lru_len ops (dc_entries c) = 0"

text \<open>The handler in front of another one; the lookup and the insertion read the clock for themselves.\<close>

definition caching_resolve ::
  "(typed_key, cached_dns_response, 'm) linked_map \<Rightarrow> (domain_name \<Rightarrow> dns_record_type \<Rightarrow> dns_response result)
    \<Rightarrow> ('m, 'r) dns_cache \<Rightarrow> domain_name \<Rightarrow> dns_record_type \<Rightarrow> nat \<Rightarrow> nat \<Rightarrow> (('m, 'r) dns_cache \<times> dns_response result) option" where
  "caching_resolve ops upstream c domain record_type now later =
     (case cache_get ops c domain record_type now of
        (c, Some response) \<Rightarrow> Some (c, Inr response)
      | (c, None) \<Rightarrow>
          (case upstream domain record_type of
             Inl e \<Rightarrow> Some (c, Inl e)
           | Inr response \<Rightarrow>
               map_option (\<lambda>c. (c, Inr response)) (cache_insert ops c domain record_type response later)))"

subsection \<open>Packets\<close>

datatype response_code = NoError | NXDomain | OtherCode

record ('msg, 'rr) dns_messages =
  msg_parse :: "byte list \<Rightarrow> string + 'msg"
  msg_bytes :: "'msg \<Rightarrow> string + byte list"
  msg_truncation :: "'msg \<Rightarrow> bool"
  msg_response_code :: "'msg \<Rightarrow> response_code"
  msg_answers :: "'msg \<Rightarrow> 'rr list"
  msg_authorities :: "'msg \<Rightarrow> 'rr list"
  msg_additionals :: "'msg \<Rightarrow> 'rr list"
  msg_with_records :: "'msg \<Rightarrow> 'rr list \<Rightarrow> 'rr list \<Rightarrow> 'rr list \<Rightarrow> 'msg"
  rr_ttl :: "'rr \<Rightarrow> u32"
  rr_with_ttl :: "'rr \<Rightarrow> u32 \<Rightarrow> 'rr"
  rr_soa_minimum :: "'rr \<Rightarrow> u32 option"

definition age_record :: "('msg, 'rr) dns_messages \<Rightarrow> nat \<Rightarrow> nat \<Rightarrow> bool \<Rightarrow> u32 option \<Rightarrow> 'rr \<Rightarrow> 'rr" where
  "age_record ms cached_at now stale negative_ttl record =
     (let original_ttl =
        (case negative_ttl of
           Some n \<Rightarrow> if rr_soa_minimum ms record \<noteq> None then min (rr_ttl ms record) n else rr_ttl ms record
         | None \<Rightarrow> rr_ttl ms record)
      in rr_with_ttl ms record (ttl_left stale cached_at now original_ttl))"

definition age_raw_packet ::
  "('msg, 'rr) dns_messages \<Rightarrow> byte list \<Rightarrow> nat \<Rightarrow> nat \<Rightarrow> bool \<Rightarrow> u32 option \<Rightarrow> byte list result" where
  "age_raw_packet ms packet cached_at now stale negative_ttl =
     (case msg_parse ms packet of
        Inl e \<Rightarrow> Inl (error_new Protocol e)
      | Inr message \<Rightarrow>
          (let age = map (age_record ms cached_at now stale negative_ttl) in
           case msg_bytes ms (msg_with_records ms message (age (msg_answers ms message)) (age (msg_authorities ms message)) (age (msg_additionals ms message))) of
             Inl e \<Rightarrow> Inl (error_new Protocol e)
           | Inr bytes \<Rightarrow> Inr bytes))"

definition list_min :: "'a :: linorder list \<Rightarrow> 'a option" where
  "list_min xs = (case xs of [] \<Rightarrow> None | x # xs \<Rightarrow> Some (foldl min x xs))"

definition negative_soa_ttl :: "('msg, 'rr) dns_messages \<Rightarrow> 'msg \<Rightarrow> u32 option" where
  "negative_soa_ttl ms message =
     list_min (List.map_filter (\<lambda>r. map_option (min (rr_ttl ms r)) (rr_soa_minimum ms r)) (msg_authorities ms message))"

definition raw_cache_ttl :: "('msg, 'rr) dns_messages \<Rightarrow> 'msg \<Rightarrow> (u32 \<times> u32 option) option" where
  "raw_cache_ttl ms message =
     (if msg_truncation ms message then None
      else
        (case msg_response_code ms message of
           NoError \<Rightarrow>
             (if msg_answers ms message \<noteq> [] then
                Option.bind (list_min (map (rr_ttl ms) (msg_answers ms message))) (\<lambda>answer_ttl.
                  let negative_ttl = negative_soa_ttl ms message in
                  Some (case negative_ttl of None \<Rightarrow> answer_ttl | Some ttl \<Rightarrow> min answer_ttl ttl, negative_ttl))
              else map_option (\<lambda>ttl. (ttl, Some ttl)) (negative_soa_ttl ms message))
         | NXDomain \<Rightarrow>
             Option.bind (negative_soa_ttl ms message) (\<lambda>negative_ttl.
               Some (case list_min (map (rr_ttl ms) (msg_answers ms message)) of
                       None \<Rightarrow> negative_ttl
                     | Some ttl \<Rightarrow> min ttl negative_ttl, Some negative_ttl))
         | OtherCode \<Rightarrow> None))"

definition get_packet ::
  "('q, cached_dns_packet, 'r) linked_map \<Rightarrow> ('msg, 'rr) dns_messages \<Rightarrow> ('m, 'r) dns_cache \<Rightarrow> 'q \<Rightarrow> bool \<Rightarrow> nat
    \<Rightarrow> ('m, 'r) dns_cache \<times> (byte list \<times> bool) option result" where
  "get_packet rops ms c key allow_stale now =
     (case lru_get_cloned rops (dc_raw_entries c) key of
        (es, None) \<Rightarrow> (c\<lparr>dc_raw_entries := es\<rparr>, Inr None)
      | (es, Some entry) \<Rightarrow>
          (let stale = cp_expires_at entry \<le> now in
           if stale \<and> \<not> allow_stale then (c\<lparr>dc_raw_entries := fst (lru_remove rops es key)\<rparr>, Inr None)
           else
             (c\<lparr>dc_raw_entries := es\<rparr>,
              rbind (age_raw_packet ms (cp_packet entry) (cp_cached_at entry) now stale (cp_negative_ttl entry))
                (\<lambda>packet. Inr (Some (packet, stale))))))"

definition insert_packet ::
  "('q, cached_dns_packet, 'r) linked_map \<Rightarrow> ('msg, 'rr) dns_messages \<Rightarrow> ('m, 'r) dns_cache \<Rightarrow> 'q \<Rightarrow> byte list \<Rightarrow> nat
    \<Rightarrow> (('m, 'r) dns_cache \<times> unit result) option" where
  "insert_packet rops ms c key packet now =
     (case msg_parse ms packet of
        Inl e \<Rightarrow> Some (c, Inl (error_new Protocol e))
      | Inr message \<Rightarrow>
          (case raw_cache_ttl ms message of
             None \<Rightarrow>
               Some (if \<not> msg_truncation ms message \<and> msg_response_code ms message \<in> {NoError, NXDomain}
                     then c\<lparr>dc_raw_entries := fst (lru_remove rops (dc_raw_entries c) key)\<rparr>
                     else c, Inr ())
           | Some (ttl, negative_ttl) \<Rightarrow>
               if ttl = 0 then Some (c\<lparr>dc_raw_entries := fst (lru_remove rops (dc_raw_entries c) key)\<rparr>, Inr ())
               else
                 map_option (\<lambda>es. (c\<lparr>dc_raw_entries := es\<rparr>, Inr ()))
                   (lru_insert rops
                     (lru_remove_expired rops (dc_raw_entries c) EXPIRATION_SWEEP_BUDGET (\<lambda>e. cp_expires_at e \<le> now))
                     key
                     \<lparr>cp_packet = packet, cp_cached_at = now, cp_expires_at = now + from_secs (unat ttl),
                      cp_negative_ttl = negative_ttl\<rparr>)))"

subsection \<open>The map keeps its capacity\<close>

lemma linked_map_iter:
  assumes "linked_map_laws ops"
  shows "lm_iter ops (lm_new ops) = []" "distinct (map fst (lm_iter ops m))" "lm_len ops m = length (lm_iter ops m)"
    "lm_iter ops (lm_pop_back ops m) = butlast (lm_iter ops m)" "lm_get ops m k = map_of (lm_iter ops m) k"
    "lm_iter ops (lm_to_front ops m k) =
       (case map_of (lm_iter ops m) k of None \<Rightarrow> lm_iter ops m | Some v \<Rightarrow> (k, v) # AList.delete k (lm_iter ops m))"
    "lm_iter ops (fst (lm_remove ops m k)) = AList.delete k (lm_iter ops m)"
    "snd (lm_remove ops m k) = map_of (lm_iter ops m) k"
    "lm_iter ops (lm_insert ops m k v) = AList.delete k (lm_iter ops m) @ [(k, v)]"
  using assms unfolding linked_map_laws_def by blast+

text \<open>\<open>lru_holds ops l n P\<close>: the map has capacity \<open>n\<close>, keeps it, and its entries satisfy \<open>P\<close>.\<close>

definition lru_holds :: "('k, 'v, 'm) linked_map \<Rightarrow> 'm lru_map \<Rightarrow> nat \<Rightarrow> ('k \<Rightarrow> 'v \<Rightarrow> bool) \<Rightarrow> bool" where
  "lru_holds ops l n P \<longleftrightarrow> lru_capacity l = n \<and> length (lm_iter ops (lru_map l)) \<le> n
     \<and> (\<forall>k v. map_of (lm_iter ops (lru_map l)) k = Some v \<longrightarrow> P k v)"

lemma lru_holds_mono:
  "lru_holds ops l n P \<Longrightarrow> (\<And>k v. map_of (lm_iter ops (lru_map l)) k = Some v \<Longrightarrow> P k v \<Longrightarrow> Q k v) \<Longrightarrow> lru_holds ops l n Q"
  by (simp add: lru_holds_def)

lemma lru_holds_new: "linked_map_laws ops \<Longrightarrow> lru_holds ops (lru_new ops n) n P"
  by (simp add: lru_holds_def lru_new_def linked_map_iter)

lemma lru_holds_get:
  assumes "linked_map_laws ops" "lru_holds ops l n P" "lru_get_cloned ops l k = (l', r)"
  shows "lru_holds ops l' n P \<and> r = map_of (lm_iter ops (lru_map l)) k \<and> (\<forall>v. r = Some v \<longrightarrow> P k v)"
proof (cases "map_of (lm_iter ops (lru_map l)) k")
  case None
  then show ?thesis
    using assms by (simp add: lru_get_cloned_def linked_map_iter)
next
  case (Some v)
  then have front: "lm_iter ops (lm_to_front ops (lru_map l) k) = (k, v) # AList.delete k (lm_iter ops (lru_map l))"
    using linked_map_iter(6) [OF assms(1), of "lru_map l" k] by simp
  have "l' = l\<lparr>lru_map := lm_to_front ops (lru_map l) k\<rparr>" "r = Some v"
    using assms(3) Some linked_map_iter(5) [OF assms(1), of "lru_map l" k] by (auto simp: lru_get_cloned_def)
  then show ?thesis
    using assms(2) Some front length_delete_less [OF map_of_SomeD [OF Some]] by (auto simp: lru_holds_def map_of_alist_delete)
qed

lemma lru_holds_remove:
  assumes "linked_map_laws ops" "lru_holds ops l n P"
  shows "lru_holds ops (fst (lru_remove ops l k)) n (\<lambda>k' v. k' \<noteq> k \<and> P k' v)"
  using assms length_delete_le [of k "lm_iter ops (lru_map l)"]
  by (auto simp: lru_holds_def lru_remove_def case_prod_unfold linked_map_iter map_of_alist_delete)

lemma lru_holds_expired:
  assumes "linked_map_laws ops" "lru_holds ops l n P"
  shows "lru_holds ops (lru_remove_expired ops l budget expired) n P"
proof -
  have "lru_holds ops (foldl (\<lambda>l k. fst (lru_remove ops l k)) l ks) n P" if "lru_holds ops l n P" for l and ks :: "'a list"
    using that by (induction ks arbitrary: l) (auto intro: lru_holds_mono [OF lru_holds_remove [OF assms(1)]])
  then show ?thesis
    using assms(2) by (simp add: lru_remove_expired_def)
qed

lemma pop_back_loop:
  assumes "linked_map_laws ops"
  shows "\<exists>m'. while_option (\<lambda>m. lm_len ops m > n) (lm_pop_back ops) m = Some m' \<and> lm_iter ops m' = List.take n (lm_iter ops m)"
proof (induction "length (lm_iter ops m) - n" arbitrary: m)
  case 0
  then show ?case
    using assms by (subst while_option_unfold) (simp add: linked_map_iter)
next
  case (Suc d)
  then have "lm_len ops m > n" "length (lm_iter ops (lm_pop_back ops m)) - n = d"
    using assms by (simp_all add: linked_map_iter)
  moreover have "List.take n (butlast (lm_iter ops m)) = List.take n (lm_iter ops m)"
    using \<open>lm_len ops m > n\<close> assms by (simp add: linked_map_iter take_butlast)
  ultimately show ?case
    using Suc(1) [of "lm_pop_back ops m"] assms by (subst while_option_unfold) (simp add: linked_map_iter)
qed

lemma lru_insert_iter:
  assumes "linked_map_laws ops"
  shows "\<exists>m. lru_insert ops l k v = Some (l\<lparr>lru_map := m\<rparr>)
    \<and> lm_iter ops m = List.take (lru_capacity l) ((k, v) # AList.delete k (lm_iter ops (lru_map l)))"
proof -
  let ?xs = "lm_iter ops (lru_map l)"
  have "map_of (AList.delete k ?xs @ [(k, v)]) k = Some v"
    by (simp add: map_of_alist_delete map_add_def)
  moreover have "AList.delete k (AList.delete k ?xs @ [(k, v)]) = AList.delete k ?xs"
    by (simp add: AList.delete_eq)
  ultimately have "lm_iter ops (lm_to_front ops (lm_insert ops (lru_map l) k v) k) = (k, v) # AList.delete k ?xs"
    by (simp add: linked_map_iter [OF assms])
  then show ?thesis
    using pop_back_loop [OF assms, of "lru_capacity l" "lm_to_front ops (lm_insert ops (lru_map l) k v) k"]
    by (auto simp: lru_insert_def)
qed

lemma lru_holds_insert:
  assumes "linked_map_laws ops" "lru_holds ops l n P" "Q k v" "\<And>k' w. k' \<noteq> k \<Longrightarrow> P k' w \<Longrightarrow> Q k' w"
  shows "\<exists>l'. lru_insert ops l k v = Some l' \<and> lru_holds ops l' n Q"
proof -
  let ?xs = "lm_iter ops (lru_map l)"
  obtain m where m: "lru_insert ops l k v = Some (l\<lparr>lru_map := m\<rparr>)" "lm_iter ops m = List.take n ((k, v) # AList.delete k ?xs)"
    using lru_insert_iter [OF assms(1), of l k v] assms(2) by (auto simp: lru_holds_def)
  have "Q k' w" if "map_of (lm_iter ops m) k' = Some w" for k' w
  proof -
    have "(k', w) \<in> set ((k, v) # AList.delete k ?xs)"
      using map_of_SomeD [OF that] m(2) by (metis in_set_takeD)
    moreover have "distinct (map fst ((k, v) # AList.delete k ?xs))"
      using linked_map_iter(2) [OF assms(1)] by (auto simp: AList.delete_eq distinct_map_filter)
    ultimately have "map_of ((k, v) # AList.delete k ?xs) k' = Some w"
      by (simp only: map_of_eq_Some_iff)
    then show ?thesis
      using assms(2-4) by (auto simp: lru_holds_def map_of_alist_delete split: if_splits)
  qed
  then show ?thesis
    using m assms(2) by (simp add: lru_holds_def)
qed

subsection \<open>Runs of the cache\<close>

text \<open>
  A run of the cache with what it was told: the typed answers, and the packets that are an answer,
  each with the time, the latest first. A packet that does not parse, is truncated or reports a
  failure is no answer.
\<close>

datatype 'q cache_op =
  Get domain_name dns_record_type
| GetOptimistic domain_name dns_record_type
| Insert domain_name dns_record_type dns_response
| Remove domain_name dns_record_type
| GetPacket 'q bool
| InsertPacket 'q "byte list"

fun cache_step ::
  "(typed_key, cached_dns_response, 'm) linked_map \<Rightarrow> ('q, cached_dns_packet, 'r) linked_map \<Rightarrow> ('msg, 'rr) dns_messages
    \<Rightarrow> ('m, 'r) dns_cache \<Rightarrow> 'q cache_op \<Rightarrow> nat \<Rightarrow> ('m, 'r) dns_cache option" where
  "cache_step ops rops ms c (Get d t) now = Some (fst (cache_get ops c d t now))"
| "cache_step ops rops ms c (GetOptimistic d t) now = Some (fst (get_optimistic ops c d t now))"
| "cache_step ops rops ms c (Insert d t r) now = cache_insert ops c d t r now"
| "cache_step ops rops ms c (Remove d t) now = Some (fst (cache_remove ops c d t))"
| "cache_step ops rops ms c (GetPacket q s) now = Some (fst (get_packet rops ms c q s now))"
| "cache_step ops rops ms c (InsertPacket q p) now = map_option fst (insert_packet rops ms c q p now)"

fun typed_log :: "'q cache_op \<Rightarrow> nat \<Rightarrow> (typed_key \<times> dns_response \<times> nat) list" where
  "typed_log (Insert d t r) now = [((d, t), r, now)]"
| "typed_log _ now = []"

definition definitive :: "('msg, 'rr) dns_messages \<Rightarrow> byte list \<Rightarrow> bool" where
  "definitive ms p =
     (case msg_parse ms p of
        Inl _ \<Rightarrow> False
      | Inr m \<Rightarrow> \<not> msg_truncation ms m \<and> msg_response_code ms m \<in> {NoError, NXDomain})"

fun packet_log :: "('msg, 'rr) dns_messages \<Rightarrow> 'q cache_op \<Rightarrow> nat \<Rightarrow> ('q \<times> byte list \<times> nat) list" where
  "packet_log ms (InsertPacket q p) now = (if definitive ms p then [(q, p, now)] else [])"
| "packet_log ms _ now = []"

inductive cache_run ::
  "(typed_key, cached_dns_response, 'm) linked_map \<Rightarrow> ('q, cached_dns_packet, 'r) linked_map \<Rightarrow> ('msg, 'rr) dns_messages \<Rightarrow> nat
    \<Rightarrow> ('m, 'r) dns_cache \<Rightarrow> (typed_key \<times> dns_response \<times> nat) list \<Rightarrow> ('q \<times> byte list \<times> nat) list \<Rightarrow> bool"
  for ops rops ms n where
  run_new: "dns_cache_new ops rops n = Inr c \<Longrightarrow> cache_run ops rops ms n c [] []"
| run_step: "cache_run ops rops ms n c h ph \<Longrightarrow> cache_step ops rops ms c op now = Some c' \<Longrightarrow>
    cache_run ops rops ms n c' (typed_log op now @ h) (packet_log ms op now @ ph)"

definition typed_fact :: "(typed_key \<times> dns_response \<times> nat) list \<Rightarrow> typed_key \<Rightarrow> cached_dns_response \<Rightarrow> bool" where
  "typed_fact h k e \<longleftrightarrow> response_ttl (cr_response e) \<noteq> 0 \<and> map_of h k = Some (cr_response e, cr_cached_at e)
     \<and> cr_expires_at e = cr_cached_at e + from_secs (unat (response_ttl (cr_response e)))"

definition packet_fact :: "('msg, 'rr) dns_messages \<Rightarrow> ('q \<times> byte list \<times> nat) list \<Rightarrow> 'q \<Rightarrow> cached_dns_packet \<Rightarrow> bool" where
  "packet_fact ms ph q e \<longleftrightarrow> map_of ph q = Some (cp_packet e, cp_cached_at e)
     \<and> (\<exists>m ttl. msg_parse ms (cp_packet e) = Inr m \<and> raw_cache_ttl ms m = Some (ttl, cp_negative_ttl e)
         \<and> cp_expires_at e = cp_cached_at e + from_secs (unat ttl))"

definition cache_ok ::
  "(typed_key, cached_dns_response, 'm) linked_map \<Rightarrow> ('q, cached_dns_packet, 'r) linked_map \<Rightarrow> ('msg, 'rr) dns_messages \<Rightarrow> nat
    \<Rightarrow> ('m, 'r) dns_cache \<Rightarrow> (typed_key \<times> dns_response \<times> nat) list \<Rightarrow> ('q \<times> byte list \<times> nat) list \<Rightarrow> bool" where
  "cache_ok ops rops ms n c h ph \<longleftrightarrow>
     lru_holds ops (dc_entries c) n (typed_fact h) \<and> lru_holds rops (dc_raw_entries c) n (packet_fact ms ph)"

lemma raw_cache_ttl_definitive:
  "msg_parse ms p = Inr m \<Longrightarrow> raw_cache_ttl ms m = Some x \<Longrightarrow> definitive ms p"
  by (auto simp: definitive_def raw_cache_ttl_def split: if_splits response_code.splits)

lemma cache_get_ok:
  assumes "linked_map_laws ops" "cache_ok ops rops ms n c h ph"
  shows "cache_ok ops rops ms n (fst (cache_get ops c d t now)) h ph"
proof -
  obtain es r where g: "lru_get_cloned ops (dc_entries c) (d, t) = (es, r)"
    by fastforce
  then have "lru_holds ops es n (typed_fact h)"
    using lru_holds_get [OF assms(1) _ g] assms(2) by (auto simp: cache_ok_def)
  then show ?thesis
    using assms(2) lru_holds_mono [OF lru_holds_remove [OF assms(1), of es n "typed_fact h" "(d, t)"], of "typed_fact h"]
    by (auto simp: cache_get_def g cache_ok_def split: option.splits)
qed

lemma get_optimistic_ok:
  assumes "linked_map_laws ops" "cache_ok ops rops ms n c h ph"
  shows "cache_ok ops rops ms n (fst (get_optimistic ops c d t now)) h ph"
proof -
  obtain es r where g: "lru_get_cloned ops (dc_entries c) (d, t) = (es, r)"
    by fastforce
  then show ?thesis
    using lru_holds_get [OF assms(1) _ g] assms(2)
    by (auto simp: get_optimistic_def cache_ok_def Let_def split: option.splits)
qed

lemma cache_insert_ok:
  assumes "linked_map_laws ops" "cache_ok ops rops ms n c h ph"
  shows "\<exists>c'. cache_insert ops c d t r now = Some c' \<and> cache_ok ops rops ms n c' (((d, t), r, now) # h) ph"
proof (cases "response_ttl r = 0")
  case True
  then show ?thesis
    using assms lru_holds_mono [OF lru_holds_remove [OF assms(1), of "dc_entries c" n "typed_fact h" "(d, t)"], of "typed_fact (((d, t), r, now) # h)"]
    by (auto simp: cache_insert_def cache_ok_def typed_fact_def)
next
  case False
  let ?e = "\<lparr>cr_response = r, cr_cached_at = now, cr_expires_at = now + from_secs (unat (response_ttl r))\<rparr>"
  have kept: "lru_holds ops (lru_remove_expired ops (dc_entries c) EXPIRATION_SWEEP_BUDGET (\<lambda>e. cr_expires_at e \<le> now)) n (typed_fact h)"
    using assms by (simp add: cache_ok_def lru_holds_expired)
  from False obtain es where "lru_insert ops (lru_remove_expired ops (dc_entries c) EXPIRATION_SWEEP_BUDGET (\<lambda>e. cr_expires_at e \<le> now)) (d, t) ?e = Some es"
      "lru_holds ops es n (typed_fact (((d, t), r, now) # h))"
    using lru_holds_insert [OF assms(1) kept, where Q = "typed_fact (((d, t), r, now) # h)" and k = "(d, t)" and v = ?e] by (auto simp: typed_fact_def)
  then show ?thesis
    using False assms(2) by (simp add: cache_insert_def cache_ok_def)
qed

lemma get_packet_ok:
  assumes "linked_map_laws rops" "cache_ok ops rops ms n c h ph"
  shows "cache_ok ops rops ms n (fst (get_packet rops ms c q s now)) h ph"
proof -
  obtain es r where g: "lru_get_cloned rops (dc_raw_entries c) q = (es, r)"
    by fastforce
  then have "lru_holds rops es n (packet_fact ms ph)"
    using lru_holds_get [OF assms(1) _ g] assms(2) by (auto simp: cache_ok_def)
  then show ?thesis
    using assms(2) lru_holds_mono [OF lru_holds_remove [OF assms(1), of es n "packet_fact ms ph" q], of "packet_fact ms ph"]
    by (auto simp: get_packet_def g cache_ok_def Let_def split: option.splits)
qed

lemma insert_packet_ok:
  assumes "linked_map_laws rops" "cache_ok ops rops ms n c h ph"
  shows "\<exists>c' r. insert_packet rops ms c q p now = Some (c', r) \<and> cache_ok ops rops ms n c' h (packet_log ms (InsertPacket q p) now @ ph)"
proof -
  let ?ph = "packet_log ms (InsertPacket q p) now @ ph"
  let ?es = "lru_remove_expired rops (dc_raw_entries c) EXPIRATION_SWEEP_BUDGET (\<lambda>e. cp_expires_at e \<le> now)"
  have dropped: "lru_holds rops (fst (lru_remove rops (dc_raw_entries c) q)) n (packet_fact ms ?ph)"
    using assms(2) by (intro lru_holds_mono [OF lru_holds_remove [OF assms(1), of _ n "packet_fact ms ph"]])
      (auto simp: cache_ok_def packet_fact_def)
  consider "\<not> definitive ms p" | m where "definitive ms p" "msg_parse ms p = Inr m" "raw_cache_ttl ms m = None"
    | m ttl neg where "definitive ms p" "msg_parse ms p = Inr m" "raw_cache_ttl ms m = Some (ttl, neg)"
    by (cases "msg_parse ms p") (auto simp: definitive_def, metis option.exhaust surj_pair)+
  then show ?thesis
  proof cases
    case 1
    then have "raw_cache_ttl ms m = None" if "msg_parse ms p = Inr m" for m
      using raw_cache_ttl_definitive [OF that] by (cases "raw_cache_ttl ms m") auto
    then show ?thesis
      using 1 assms(2) by (auto simp: insert_packet_def definitive_def split: sum.split)
  next
    case 2
    then show ?thesis
      using assms(2) dropped by (auto simp: insert_packet_def cache_ok_def definitive_def)
  next
    case 3
    let ?e = "\<lparr>cp_packet = p, cp_cached_at = now, cp_expires_at = now + from_secs (unat ttl), cp_negative_ttl = neg\<rparr>"
    have kept: "lru_holds rops ?es n (packet_fact ms ph)"
      using assms by (simp add: cache_ok_def lru_holds_expired)
    obtain es where "lru_insert rops ?es q ?e = Some es" "lru_holds rops es n (packet_fact ms ?ph)"
      using 3 lru_holds_insert [OF assms(1) kept, where Q = "packet_fact ms ?ph" and k = q and v = ?e] by (auto simp: packet_fact_def)
    then show ?thesis
      using 3 assms(2) dropped by (cases "ttl = 0") (simp_all add: insert_packet_def cache_ok_def)
  qed
qed

lemma cache_step_ok:
  assumes "linked_map_laws ops" "linked_map_laws rops" "cache_ok ops rops ms n c h ph"
  shows "\<exists>c'. cache_step ops rops ms c op now = Some c' \<and> cache_ok ops rops ms n c' (typed_log op now @ h) (packet_log ms op now @ ph)"
proof (cases op)
  case (Insert d t r)
  then show ?thesis
    using cache_insert_ok [OF assms(1,3), of d t r now] by simp
next
  case (Remove d t)
  then show ?thesis
    using assms(3) lru_holds_mono [OF lru_holds_remove [OF assms(1), of "dc_entries c" n "typed_fact h" "(d, t)"], of "typed_fact h"]
    by (auto simp: cache_remove_def case_prod_unfold cache_ok_def)
next
  case (InsertPacket q p)
  then show ?thesis
    using insert_packet_ok [OF assms(2,3), of q p now] by auto
qed (use assms cache_get_ok get_optimistic_ok get_packet_ok in \<open>auto\<close>)

lemma cache_run_ok:
  assumes "linked_map_laws ops" "linked_map_laws rops"
  shows "cache_run ops rops ms n c h ph \<Longrightarrow> cache_ok ops rops ms n c h ph"
proof (induction rule: cache_run.induct)
  case (run_new c)
  then show ?case
    using assms by (auto simp: dns_cache_new_def cache_ok_def lru_holds_new split: if_splits)
next
  case (run_step c h ph op now c')
  then show ?case
    using cache_step_ok [OF assms run_step(3), of op now] by auto
qed

subsection \<open>Freshness\<close>

lemma ttl_left_fresh:
  assumes "ttl \<noteq> 0" "now < t + from_secs (unat ttl)"
  shows "0 < ttl_left False t now ttl" "unat (ttl_left False t now ttl) = unat ttl - as_secs (now - t)"
proof -
  have less: "as_secs (now - t) < unat ttl"
  proof -
    have "0 < unat ttl"
      using assms(1) by (simp add: unat_gt_0)
    then have "now - t < unat ttl * 1000000000"
      using assms(2) unfolding from_secs_def by linarith
    then show ?thesis
      by (simp add: as_secs_def div_less_iff_less_mult)
  qed
  moreover have "unat ttl < 2 ^ 32"
    using unsigned_less [of ttl] by simp
  ultimately have elapsed: "unat (of_nat (min (as_secs (now - t)) (2 ^ 32 - 1)) :: u32) = as_secs (now - t)"
    by (simp add: unat_of_nat)
  then have "(of_nat (min (as_secs (now - t)) (2 ^ 32 - 1)) :: u32) \<le> ttl"
    using less by (simp add: word_le_nat_alt)
  with elapsed show "unat (ttl_left False t now ttl) = unat ttl - as_secs (now - t)"
    unfolding ttl_left_def Let_def by (simp add: unat_sub)
  with less show "0 < ttl_left False t now ttl"
    by (simp add: word_less_nat_alt)
qed

text \<open>What is left of an answer given at \<open>t\<close>: the answer itself with the seconds that remain, never none.\<close>

definition fresh_answer :: "dns_response \<Rightarrow> nat \<Rightarrow> nat \<Rightarrow> dns_response \<Rightarrow> bool" where
  "fresh_answer r t now r' \<longleftrightarrow> now < t + from_secs (unat (response_ttl r))
     \<and> r'\<lparr>dr_minimum_ttl := dr_minimum_ttl r\<rparr> = r
     \<and> (case dr_minimum_ttl r of
          None \<Rightarrow> dr_minimum_ttl r' = None
        | Some ttl \<Rightarrow> \<exists>left > 0. dr_minimum_ttl r' = Some left \<and> unat left = unat ttl - as_secs (now - t))"

lemma age_fresh:
  assumes "response_ttl r \<noteq> 0" "now < t + from_secs (unat (response_ttl r))"
  shows "fresh_answer r t now (age_typed_response r t now False)"
proof (cases "dr_minimum_ttl r")
  case (Some ttl)
  then show ?thesis
    using assms ttl_left_fresh [of ttl now t] by (simp add: fresh_answer_def age_typed_response_def response_ttl_def)
qed (use assms in \<open>simp add: fresh_answer_def age_typed_response_def\<close>)

text \<open>
  C16: whatever is looked up, inserted and removed, every operation on the caches ends and each
  of the two keeps at most the configured number of entries. A lookup only ever gives the answer
  last inserted for that name and type, while it is not expired, and with the seconds of its life
  that are left, of which there is at least one.
\<close>

theorem dns_cache_fresh:
  assumes "linked_map_laws ops" "linked_map_laws rops" "cache_run ops rops ms n c h ph"
  shows "cache_len ops c \<le> n \<and> lru_len rops (dc_raw_entries c) \<le> n
    \<and> (\<exists>c'. cache_step ops rops ms c op now = Some c')
    \<and> (\<forall>r'. snd (cache_get ops c d t now) = Some r' \<longrightarrow> (\<exists>r at. map_of h (d, t) = Some (r, at) \<and> fresh_answer r at now r'))"
proof -
  have ok: "cache_ok ops rops ms n c h ph"
    using cache_run_ok [OF assms] .
  obtain es e where g: "lru_get_cloned ops (dc_entries c) (d, t) = (es, e)"
    by fastforce
  then have fact: "typed_fact h (d, t) v" if "e = Some v" for v
    using lru_holds_get [OF assms(1) _ g] ok that by (auto simp: cache_ok_def)
  have "\<exists>r at. map_of h (d, t) = Some (r, at) \<and> fresh_answer r at now r'" if got: "snd (cache_get ops c d t now) = Some r'" for r'
  proof -
    obtain v where "e = Some v" "now < cr_expires_at v" "r' = age_typed_response (cr_response v) (cr_cached_at v) now False"
      using got g by (auto simp: cache_get_def split: option.splits if_splits)
    then show ?thesis
      using fact age_fresh by (auto simp: typed_fact_def)
  qed
  moreover have "cache_len ops c \<le> n" "lru_len rops (dc_raw_entries c) \<le> n"
    using ok by (simp_all add: cache_ok_def lru_holds_def cache_len_def lru_len_def linked_map_iter(3) [OF assms(1)] linked_map_iter(3) [OF assms(2)])
  ultimately show ?thesis
    using cache_step_ok [OF assms(1,2) ok, of op now] by blast
qed

text \<open>
  C25: a packet taken from the cache without allowing stale ones is the aged form of the last
  packet that was an answer, not truncated and not a failure, within the life that its records
  and, for a negative answer, its SOA record give it; and a packet that is no answer leaves the
  cache as it was.
\<close>

theorem dns_packets_fresh:
  assumes "linked_map_laws ops" "linked_map_laws rops" "cache_run ops rops ms n c h ph"
  shows "(snd (get_packet rops ms c q False now) = Inr (Some (p', stale)) \<longrightarrow>
      \<not> stale \<and> (\<exists>p at m ttl neg. map_of ph q = Some (p, at) \<and> definitive ms p \<and> msg_parse ms p = Inr m
        \<and> raw_cache_ttl ms m = Some (ttl, neg) \<and> now < at + from_secs (unat ttl)
        \<and> age_raw_packet ms p at now False neg = Inr p'))
    \<and> (\<not> definitive ms p \<longrightarrow> (\<exists>r. insert_packet rops ms c q p now = Some (c, r)))"
proof -
  have ok: "cache_ok ops rops ms n c h ph"
    using cache_run_ok [OF assms] .
  obtain es e where g: "lru_get_cloned rops (dc_raw_entries c) q = (es, e)"
    by fastforce
  then have fact: "packet_fact ms ph q v" if "e = Some v" for v
    using lru_holds_get [OF assms(2) _ g] ok that by (auto simp: cache_ok_def)
  have "\<not> stale \<and> (\<exists>p at m ttl neg. map_of ph q = Some (p, at) \<and> definitive ms p \<and> msg_parse ms p = Inr m
      \<and> raw_cache_ttl ms m = Some (ttl, neg) \<and> now < at + from_secs (unat ttl)
      \<and> age_raw_packet ms p at now False neg = Inr p')"
    if got: "snd (get_packet rops ms c q False now) = Inr (Some (p', stale))"
  proof -
    obtain v where "e = Some v" "\<not> cp_expires_at v \<le> now" "\<not> stale"
        "age_raw_packet ms (cp_packet v) (cp_cached_at v) now False (cp_negative_ttl v) = Inr p'"
      using got g by (auto simp: get_packet_def Let_def rbind_eq_Inr_iff split: option.splits if_splits)
    then show ?thesis
      using fact raw_cache_ttl_definitive by (fastforce simp: packet_fact_def not_le)
  qed
  moreover have "\<exists>r. insert_packet rops ms c q p now = Some (c, r)" if no: "\<not> definitive ms p"
  proof -
    have "raw_cache_ttl ms m = None" if "msg_parse ms p = Inr m" for m
      using raw_cache_ttl_definitive [OF that] no by (cases "raw_cache_ttl ms m") auto
    then show ?thesis
      using no by (auto simp: insert_packet_def definitive_def split: sum.split)
  qed
  ultimately show ?thesis
    by blast
qed

subsection \<open>An instance\<close>

text \<open>A linked map as a list, and messages whose bytes are the times to live of their answers.\<close>

definition list_linked_map :: "('k, 'v, ('k \<times> 'v) list) linked_map" where
  "list_linked_map =
     \<lparr>lm_new = [],
      lm_get = (\<lambda>m k. map_of (AList.clearjunk m) k),
      lm_insert = (\<lambda>m k v. AList.delete k (AList.clearjunk m) @ [(k, v)]),
      lm_to_front = (\<lambda>m k. case map_of (AList.clearjunk m) k of None \<Rightarrow> m | Some v \<Rightarrow> (k, v) # AList.delete k (AList.clearjunk m)),
      lm_pop_back = (\<lambda>m. butlast (AList.clearjunk m)),
      lm_remove = (\<lambda>m k. (AList.delete k (AList.clearjunk m), map_of (AList.clearjunk m) k)),
      lm_iter = AList.clearjunk,
      lm_len = (\<lambda>m. length (AList.clearjunk m))\<rparr>"

lemma list_linked_map_laws: "linked_map_laws list_linked_map"
proof -
  have d: "distinct (map fst (AList.clearjunk m))" for m :: "('a \<times> 'b) list"
    by (rule distinct_clearjunk)
  have "distinct (map fst (AList.delete k (AList.clearjunk m) @ [(k, v)]))" for m :: "('a \<times> 'b) list" and k v
    using d [of m] by (auto simp: AList.delete_eq distinct_map_filter)
  note insert_id = distinct_clearjunk_id [OF this]
  have "AList.clearjunk (AList.delete k (AList.clearjunk m)) = AList.delete k (AList.clearjunk m)"
    "AList.clearjunk ((k, v) # AList.delete k (AList.clearjunk m)) = (k, v) # AList.delete k (AList.clearjunk m)"
    "AList.clearjunk (butlast (AList.clearjunk m)) = butlast (AList.clearjunk m)" for m :: "('a \<times> 'b) list" and k v
    using d [of m] by (auto simp: AList.delete_eq distinct_map_filter map_butlast distinct_butlast)
  then show ?thesis
    using d insert_id by (simp add: linked_map_laws_def list_linked_map_def split: option.split)
qed

definition ttl_messages :: "(byte list, byte) dns_messages" where
  "ttl_messages =
     \<lparr>msg_parse = Inr, msg_bytes = Inr, msg_truncation = (\<lambda>m. m = []), msg_response_code = (\<lambda>_. NoError),
      msg_answers = (\<lambda>m. m), msg_authorities = (\<lambda>_. []), msg_additionals = (\<lambda>_. []),
      msg_with_records = (\<lambda>_ answers _ _. answers), rr_ttl = ucast, rr_with_ttl = (\<lambda>_. ucast), rr_soa_minimum = (\<lambda>_. None)\<rparr>"

definition example_answer :: dns_response where
  "example_answer = \<lparr>dr_addresses = ip_set_empty, dr_ptr_names = [], dr_service_bindings = [], dr_minimum_ttl = Some 60\<rparr>"

lemma example_cache_run:
  "\<exists>c. cache_run list_linked_map list_linked_map ttl_messages 2 c [((''a.com'', RecA), example_answer, 0)] [(7 :: nat, [60], 1)]
     \<and> snd (cache_get list_linked_map c ''a.com'' RecA (from_secs 20)) = Some (example_answer\<lparr>dr_minimum_ttl := Some 40\<rparr>)
     \<and> snd (get_packet list_linked_map ttl_messages c 7 False (from_secs 20)) = Inr (Some ([41], False))"
proof -
  let ?new = "\<lparr>dc_entries = lru_new list_linked_map 2, dc_raw_entries = lru_new list_linked_map 2\<rparr>
    :: ((typed_key \<times> cached_dns_response) list, (nat \<times> cached_dns_packet) list) dns_cache"
  let ?e = "\<lparr>cr_response = example_answer, cr_cached_at = 0, cr_expires_at = from_secs 60\<rparr>"
  let ?p = "\<lparr>cp_packet = [60], cp_cached_at = 1, cp_expires_at = 1 + from_secs 60, cp_negative_ttl = None\<rparr>"
  let ?c = "\<lparr>dc_entries = \<lparr>lru_map = [((''a.com'', RecA), ?e)], lru_capacity = 2\<rparr>, dc_raw_entries = lru_new list_linked_map 2\<rparr>
    :: ((typed_key \<times> cached_dns_response) list, (nat \<times> cached_dns_packet) list) dns_cache"
  let ?d = "?c\<lparr>dc_raw_entries := \<lparr>lru_map = [(7, ?p)], lru_capacity = 2\<rparr>\<rparr>"
  note defs = cache_insert_def insert_packet_def lru_insert_def lru_remove_expired_def lru_new_def list_linked_map_def
    while_option_unfold ttl_messages_def definitive_def raw_cache_ttl_def negative_soa_ttl_def list_min_def List.map_filter_def
    response_ttl_def example_answer_def
  have "cache_run list_linked_map list_linked_map ttl_messages 2 ?new [] []"
    by (rule run_new) (simp add: dns_cache_new_def)
  then have "cache_run list_linked_map list_linked_map ttl_messages 2 ?c (typed_log (Insert ''a.com'' RecA example_answer :: nat cache_op) 0 @ [])
      (packet_log ttl_messages (Insert ''a.com'' RecA example_answer) 0 @ [])"
    by (rule run_step) (simp add: defs)
  then have "cache_run list_linked_map list_linked_map ttl_messages 2 ?d (typed_log (InsertPacket (7 :: nat) [60]) 1 @ typed_log (Insert ''a.com'' RecA example_answer :: nat cache_op) 0 @ [])
      (packet_log ttl_messages (InsertPacket 7 [60]) 1 @ packet_log ttl_messages (Insert ''a.com'' RecA example_answer) 0 @ [])"
    by (rule run_step) (simp add: defs)
  moreover have "packet_log ttl_messages (InsertPacket 7 [60]) 1 = [(7 :: nat, [60], 1)]"
    by (simp add: defs)
  ultimately have run: "cache_run list_linked_map list_linked_map ttl_messages 2 ?d [((''a.com'', RecA), example_answer, 0)] [(7, [60], 1)]"
    by simp
  moreover have "snd (cache_get list_linked_map ?d ''a.com'' RecA (from_secs 20)) = Some (example_answer\<lparr>dr_minimum_ttl := Some 40\<rparr>)"
    by (simp add: cache_get_def lru_get_cloned_def defs age_typed_response_def ttl_left_def as_secs_def from_secs_def)
  moreover have "snd (get_packet list_linked_map ttl_messages ?d 7 False (from_secs 20)) = Inr (Some ([41], False))"
    by (simp add: get_packet_def lru_get_cloned_def defs age_raw_packet_def age_record_def ttl_left_def as_secs_def from_secs_def)
  ultimately show ?thesis
    by blast
qed

theorem dns_cache_fresh_witness:
  "\<exists>c r'. snd (cache_get list_linked_map c ''a.com'' RecA (from_secs 20)) = Some r'
     \<and> (\<exists>r at. map_of [((''a.com'', RecA), example_answer, 0)] (''a.com'', RecA) = Some (r, at) \<and> fresh_answer r at (from_secs 20) r')
     \<and> cache_len list_linked_map (c :: ((typed_key \<times> cached_dns_response) list, (nat \<times> cached_dns_packet) list) dns_cache) \<le> 2"
proof -
  obtain c where c: "cache_run list_linked_map list_linked_map ttl_messages 2 c [((''a.com'', RecA), example_answer, 0)] [(7 :: nat, [60], 1)]"
      "snd (cache_get list_linked_map c ''a.com'' RecA (from_secs 20)) = Some (example_answer\<lparr>dr_minimum_ttl := Some 40\<rparr>)"
    using example_cache_run by blast
  then show ?thesis
    using dns_cache_fresh [OF list_linked_map_laws list_linked_map_laws c(1), of "Get ''a.com'' RecA" "from_secs 20" "''a.com''" RecA] by blast
qed

theorem dns_packets_fresh_witness:
  "\<exists>p at m ttl neg. map_of [(7 :: nat, [60], 1)] 7 = Some (p, at) \<and> definitive ttl_messages p \<and> msg_parse ttl_messages p = Inr m
     \<and> raw_cache_ttl ttl_messages m = Some (ttl, neg) \<and> from_secs 20 < at + from_secs (unat ttl)
     \<and> age_raw_packet ttl_messages p at (from_secs 20) False neg = Inr [41]"
proof -
  obtain c where c: "cache_run list_linked_map list_linked_map ttl_messages 2 c [((''a.com'', RecA), example_answer, 0)] [(7 :: nat, [60], 1)]"
      "snd (get_packet list_linked_map ttl_messages c 7 False (from_secs 20)) = Inr (Some ([41], False))"
    using example_cache_run by blast
  then show ?thesis
    using dns_packets_fresh [OF list_linked_map_laws list_linked_map_laws c(1), of 7 "from_secs 20" "[41]" False] by blast
qed

end
