(* ===== verification/Sniff.thy ===== *)
theory Sniff
  imports Wire
begin

text \<open>
  What a flow reveals in its first bytes, \<open>core/src/sniff.rs\<close>: the server name of a TLS client hello and
  the host of an HTTP request. The parsers return nothing for what they do not understand.
\<close>

subsection \<open>TLS\<close>

record stream_metadata =
  sm_tls_server_name :: "string option"
  sm_http_host :: "string option"

definition TLS_RECORD_HEADER :: nat where "TLS_RECORD_HEADER = 5"
definition MAX_TLS_RECORD :: nat where "MAX_TLS_RECORD = 16 * 1024"

definition sniff_take :: "nat \<Rightarrow> byte list \<Rightarrow> nat \<Rightarrow> (byte list \<times> nat) option" where
  "sniff_take cursor bytes len =
     Option.bind (checked_add cursor len) (\<lambda>e. if e \<le> length bytes then Some (bslice bytes cursor e, e) else None)"

definition read_u24 :: "byte list \<Rightarrow> nat" where
  "read_u24 bytes = be_nat (take 3 bytes)"

lemma sniff_take_end: "sniff_take cursor bytes len = Some (v, c) \<Longrightarrow> c = cursor + len"
  by (auto simp: sniff_take_def checked_add_def split: Option.bind_splits if_splits)

function sniff_names :: "byte list \<Rightarrow> nat \<Rightarrow> string option option" where
  "sniff_names names cursor =
     (if cursor + 3 \<le> length names then
        (case sniff_take cursor names 1 of
           None \<Rightarrow> Some None
         | Some (name_type, c1) \<Rightarrow>
             (case sniff_take c1 names 2 of
                None \<Rightarrow> Some None
              | Some (l, c2) \<Rightarrow>
                  (case sniff_take c2 names (unat (from_be16 l)) of
                     None \<Rightarrow> Some None
                   | Some (name, c3) \<Rightarrow>
                       if hd name_type = 0 \<and> name \<noteq> [] then Some (from_utf8 name)
                       else sniff_names names c3)))
      else None)"
  by pat_completeness auto
termination
  by (relation "measure (\<lambda>(names, cursor). length names - cursor)") (auto dest!: sniff_take_end)

declare sniff_names.simps [simp del]

text \<open>
  The loops return early with an answer, which may be nothing, or come to their end: the outer
  option of a loop is \<open>None\<close> when it ends without returning.
\<close>

definition server_name_extension :: "byte list \<Rightarrow> string option option" where
  "server_name_extension extension =
     (case sniff_take 0 extension 2 of
        None \<Rightarrow> Some None
      | Some (l, c1) \<Rightarrow>
          (case sniff_take c1 extension (unat (from_be16 l)) of
             None \<Rightarrow> Some None
           | Some (names, _) \<Rightarrow> sniff_names names 0))"

function sniff_extensions :: "byte list \<Rightarrow> nat \<Rightarrow> string option option" where
  "sniff_extensions extensions cursor =
     (if cursor + 4 \<le> length extensions then
        (case sniff_take cursor extensions 2 of
           None \<Rightarrow> Some None
         | Some (kind, c1) \<Rightarrow>
             (case sniff_take c1 extensions 2 of
                None \<Rightarrow> Some None
              | Some (l, c2) \<Rightarrow>
                  (case sniff_take c2 extensions (unat (from_be16 l)) of
                     None \<Rightarrow> Some None
                   | Some (extension, c3) \<Rightarrow>
                       if from_be16 kind \<noteq> 0 then sniff_extensions extensions c3
                       else
                         (case server_name_extension extension of
                            Some r \<Rightarrow> Some r
                          | None \<Rightarrow> sniff_extensions extensions c3))))
      else None)"
  by pat_completeness auto
termination
  by (relation "measure (\<lambda>(extensions, cursor). length extensions - cursor)") (auto dest!: sniff_take_end)

declare sniff_extensions.simps [simp del]

definition hello_server_name :: "byte list \<Rightarrow> string option" where
  "hello_server_name body =
     Option.bind (sniff_take 0 body 2) (\<lambda>(_, c1).
     Option.bind (sniff_take c1 body 32) (\<lambda>(_, c2).
     Option.bind (sniff_take c2 body 1) (\<lambda>(session_len, c3).
     Option.bind (sniff_take c3 body (unat (hd session_len))) (\<lambda>(_, c4).
     Option.bind (sniff_take c4 body 2) (\<lambda>(cipher_len, c5).
     Option.bind (sniff_take c5 body (unat (from_be16 cipher_len))) (\<lambda>(_, c6).
     Option.bind (sniff_take c6 body 1) (\<lambda>(compression_len, c7).
     Option.bind (sniff_take c7 body (unat (hd compression_len))) (\<lambda>(_, c8).
     Option.bind (sniff_take c8 body 2) (\<lambda>(extensions_len, c9).
     Option.bind (sniff_take c9 body (unat (from_be16 extensions_len))) (\<lambda>(extensions, _).
       case sniff_extensions extensions 0 of Some r \<Rightarrow> r | None \<Rightarrow> None))))))))))"

definition tls_server_name :: "byte list \<Rightarrow> string option" where
  "tls_server_name bytes =
     (if length bytes < TLS_RECORD_HEADER \<or> bytes ! 0 \<noteq> 0x16 then None
      else
        (let record_len = unat (from_be16 [bytes ! 3, bytes ! 4]) in
         if record_len = 0 \<or> record_len > MAX_TLS_RECORD then None
         else
           (let record_end = TLS_RECORD_HEADER + record_len in
            if length bytes < record_end then None
            else
              (let hello = bslice bytes TLS_RECORD_HEADER record_end in
               if length hello < 4 \<or> hello ! 0 \<noteq> 1 then None
               else
                 (let hello_end = 4 + read_u24 (bslice hello 1 4) in
                  if hello_end > length hello then None
                  else hello_server_name (bslice hello 4 hello_end))))))"

subsection \<open>HTTP\<close>

definition push_char :: "char \<Rightarrow> string list \<Rightarrow> string list" where
  "push_char c ls = (case ls of [] \<Rightarrow> [[c]] | l # ls' \<Rightarrow> (c # l) # ls')"

fun split_crlf :: "string \<Rightarrow> string list" where
  "split_crlf [] = [[]]"
| "split_crlf [c] = [[c]]"
| "split_crlf (c # d # s) = (if c = CHR 0x0D \<and> d = CHR 0x0A then [] # split_crlf s else push_char c (split_crlf (d # s)))"

text \<open>The first of the words \<open>split_whitespace\<close> gives.\<close>

fun take_word :: "string \<Rightarrow> string" where
  "take_word [] = []"
| "take_word (c # s) = (if list_ex (\<lambda>w. w \<noteq> [] \<and> prefix w (c # s)) white_space then [] else c # take_word s)"

definition first_word :: "string \<Rightarrow> string option" where
  "first_word s = (let t = trim_start s in if t = [] then None else Some (take_word t))"

definition strip_host_port :: "string \<Rightarrow> string" where
  "strip_host_port v =
     (case (case Option.bind (strip_prefix ''['' v) (split_once (CHR '']'')) of
              Some (host, suffix_text) \<Rightarrow>
                (if suffix_text = [] \<or> Option.bind (strip_prefix '':'' suffix_text) parse_u16 \<noteq> None then Some host else None)
            | None \<Rightarrow> None) of
        Some host \<Rightarrow> host
      | None \<Rightarrow>
          (case rsplit_once (CHR '':'') v of
             Some (host, port) \<Rightarrow> if CHR '':'' \<notin> set host \<and> parse_u16 port \<noteq> None then host else v
           | None \<Rightarrow> v))"

definition http_methods :: "string list" where
  "http_methods = [''GET'', ''POST'', ''PUT'', ''DELETE'', ''HEAD'', ''OPTIONS'', ''CONNECT'', ''TRACE'', ''PATCH'']"

fun host_header :: "string list \<Rightarrow> string option" where
  "host_header [] = None"
| "host_header (line # lines) =
     (case split_once (CHR '':'') line of
        None \<Rightarrow> None
      | Some (name, v) \<Rightarrow>
          if \<not> eq_ignore_ascii_case (trim name) ''host'' then host_header lines
          else if trim v = [] then None
          else Some (strip_host_port (trim v)))"

definition http_host :: "byte list \<Rightarrow> string option" where
  "http_host bytes =
     Option.bind (from_utf8 bytes) (\<lambda>text.
       case split_crlf text of
         [] \<Rightarrow> None
       | l # lines \<Rightarrow>
           Option.bind (first_word l) (\<lambda>request. if request \<in> set http_methods then host_header lines else None))"

definition inspect :: "byte list \<Rightarrow> stream_metadata" where
  "inspect bytes =
     (let name = tls_server_name bytes
      in \<lparr>sm_tls_server_name = name, sm_http_host = (if name = None then http_host bytes else None)\<rparr>)"

subsection \<open>A client hello is understood\<close>

definition u16_block :: "byte list \<Rightarrow> byte list" where
  "u16_block xs = to_be16 (of_nat (length xs)) @ xs"

definition hello_extension :: "u16 \<times> byte list \<Rightarrow> byte list" where
  "hello_extension e = to_be16 (fst e) @ u16_block (snd e)"

definition server_name_body :: "string \<Rightarrow> byte list" where
  "server_name_body host = u16_block ([0] @ u16_block (as_bytes host))"

record client_hello =
  ch_version :: "byte list"
  ch_random :: "byte list"
  ch_session :: "byte list"
  ch_ciphers :: "byte list"
  ch_compression :: "byte list"
  ch_extensions :: "(u16 \<times> byte list) list"

definition hello_body :: "client_hello \<Rightarrow> byte list" where
  "hello_body h = ch_version h @ ch_random h @ [of_nat (length (ch_session h))] @ ch_session h @ u16_block (ch_ciphers h)
     @ [of_nat (length (ch_compression h))] @ ch_compression h @ u16_block (concat (map hello_extension (ch_extensions h)))"

definition hello_record :: "byte list \<Rightarrow> client_hello \<Rightarrow> byte list" where
  "hello_record version h = [0x16] @ version @ u16_block ([1] @ nat_be 3 (length (hello_body h)) @ hello_body h)"

definition hello_wf :: "client_hello \<Rightarrow> bool" where
  "hello_wf h \<longleftrightarrow> length (ch_version h) = 2 \<and> length (ch_random h) = 32 \<and> length (ch_session h) \<le> 255
     \<and> length (ch_compression h) \<le> 255 \<and> 4 + length (hello_body h) \<le> MAX_TLS_RECORD"

lemma sniff_left:
  assumes "left_at bytes c (xs @ ys)" "len = length xs"
  shows "sniff_take c bytes len = Some (xs, c + len)" "left_at bytes (c + len) ys"
proof -
  have d: "drop c bytes = xs @ ys" and c: "c \<le> length bytes" "length bytes < 2 ^ 64"
    using assms(1) by (simp_all add: left_at_def)
  have "length bytes = c + len + length ys"
    using arg_cong [OF d, of length] assms(2) c(1) by simp
  then show "sniff_take c bytes len = Some (xs, c + len)"
    using d c assms(2) by (simp add: sniff_take_def checked_add_def bslice_def)
  show "left_at bytes (c + len) ys"
    by (rule take_left(2) [OF assms])
qed

lemma sniff_block:
  assumes "left_at bytes c (u16_block xs @ ys)" "length xs \<le> 65535"
  shows "sniff_take c bytes 2 = Some (to_be16 (of_nat (length xs)), c + 2)"
    "sniff_take (c + 2) bytes (unat (of_nat (length xs) :: u16)) = Some (xs, c + 2 + length xs)"
    "left_at bytes (c + 2 + length xs) ys"
proof -
  have "left_at bytes c (to_be16 (of_nat (length xs)) @ xs @ ys)"
    using assms(1) by (simp add: u16_block_def)
  note s1 = sniff_left [OF this, of 2] note s2 = sniff_left [OF s1(2), of "length xs"]
  show "sniff_take c bytes 2 = Some (to_be16 (of_nat (length xs)), c + 2)"
    "sniff_take (c + 2) bytes (unat (of_nat (length xs) :: u16)) = Some (xs, c + 2 + length xs)"
    "left_at bytes (c + 2 + length xs) ys"
    using s1 s2 unat_small16 [OF assms(2)] by simp_all
qed

lemma server_name_ok:
  assumes "host \<noteq> []" "from_utf8 (as_bytes host) = Some host" "length host + 3 \<le> 65535"
  shows "server_name_extension (server_name_body host) = Some (Some host)"
proof -
  let ?names = "[0] @ u16_block (as_bytes host)"
  have len: "length ?names = length host + 3" "length ?names \<le> 65535"
    using assms(3) by (simp_all add: u16_block_def)
  have "left_at (server_name_body host) 0 (u16_block ?names @ [])"
    using len(2) by (simp add: left_at_def server_name_body_def u16_block_def)
  note outer = sniff_block [OF this len(2)]
  have "left_at ?names 0 ([0] @ u16_block (as_bytes host) @ [])"
    using assms(3) by (simp add: left_at_def u16_block_def)
  note s1 = sniff_left [OF this, of 1]
  have "left_at ?names 1 (u16_block (as_bytes host) @ [])" "length (as_bytes host) \<le> 65535"
    using s1(2) assms(3) by simp_all
  note s2 = sniff_block [OF this]
  have "sniff_names ?names 0 = Some (Some host)"
    using s1(1) s2(1,2) len assms(1,2) by (subst sniff_names.simps) (simp add: as_bytes_def)
  with outer(1,2) show ?thesis
    by (simp add: server_name_extension_def del: append.simps)
qed

lemma extension_step:
  assumes "left_at es c (hello_extension (k, body) @ ys)" "length body \<le> 65535"
  shows "sniff_extensions es c =
      (if k \<noteq> 0 then sniff_extensions es (c + 4 + length body)
       else (case server_name_extension body of Some r \<Rightarrow> Some r | None \<Rightarrow> sniff_extensions es (c + 4 + length body)))"
    "left_at es (c + 4 + length body) ys"
proof -
  have left: "left_at es c (to_be16 k @ u16_block body @ ys)"
    using assms(1) by (simp add: hello_extension_def)
  note s1 = sniff_left [OF left, of 2]
  have "left_at es (c + 2) (u16_block body @ ys)"
    using s1(2) by simp
  moreover have c4: "c + 2 + 2 = c + 4"
    by simp
  ultimately have s2: "sniff_take (c + 2) es 2 = Some (to_be16 (of_nat (length body)), c + 4)"
      "sniff_take (c + 4) es (unat (of_nat (length body) :: u16)) = Some (body, c + 4 + length body)"
      "left_at es (c + 4 + length body) ys"
    using sniff_block [of es "c + 2" body ys] assms(2) unfolding c4 by simp_all
  have "c + 4 \<le> length es"
    using s2(2) by (auto simp: sniff_take_def checked_add_def split: Option.bind_splits if_splits)
  then show "sniff_extensions es c =
      (if k \<noteq> 0 then sniff_extensions es (c + 4 + length body)
       else (case server_name_extension body of Some r \<Rightarrow> Some r | None \<Rightarrow> sniff_extensions es (c + 4 + length body)))"
    using s1(1) s2(1,2) by (subst sniff_extensions.simps) (simp split: option.split)
  show "left_at es (c + 4 + length body) ys"
    by (fact s2(3))
qed

lemma extensions_ok:
  assumes "server_name_extension body = Some r" "length body \<le> 65535"
  shows "left_at es c (concat (map hello_extension before) @ hello_extension (0, body) @ ys) \<Longrightarrow>
    \<forall>(k, b) \<in> set before. k \<noteq> 0 \<and> length b \<le> 65535 \<Longrightarrow> sniff_extensions es c = Some r"
proof (induction before arbitrary: c)
  case Nil
  then show ?case
    using extension_step(1) [of es c 0 body ys] assms by simp
next
  case (Cons e before)
  obtain k b where e: "e = (k, b)" "k \<noteq> 0" "length b \<le> 65535"
    using Cons.prems(2) by (cases e) auto
  have "left_at es c (hello_extension (k, b) @ concat (map hello_extension before) @ hello_extension (0, body) @ ys)"
    using Cons.prems(1) e(1) by simp
  note step = extension_step [OF this e(3)]
  show ?case
    using step(1) Cons.IH [OF step(2)] Cons.prems(2) e(2) by simp
qed

lemma extensions_none:
  "left_at es c (concat (map hello_extension exts)) \<Longrightarrow> \<forall>(k, b) \<in> set exts. k \<noteq> 0 \<and> length b \<le> 65535 \<Longrightarrow> sniff_extensions es c = None"
proof (induction exts arbitrary: c)
  case Nil
  then show ?case
    by (subst sniff_extensions.simps) (auto simp: left_at_def)
next
  case (Cons e exts)
  obtain k b where e: "e = (k, b)" "k \<noteq> 0" "length b \<le> 65535"
    using Cons.prems(2) by (cases e) auto
  have "left_at es c (hello_extension (k, b) @ concat (map hello_extension exts))"
    using Cons.prems(1) e(1) by simp
  note step = extension_step [OF this e(3)]
  show ?case
    using step(1) Cons.IH [OF step(2)] Cons.prems(2) e(2) by simp
qed

lemma hello_ok:
  assumes "hello_wf h"
  shows "hello_server_name (hello_body h)
    = (case sniff_extensions (concat (map hello_extension (ch_extensions h))) 0 of Some r \<Rightarrow> r | None \<Rightarrow> None)"
proof -
  let ?es = "concat (map hello_extension (ch_extensions h))" and ?b = "hello_body h"
  have total: "length ?b \<le> 16384" "length (ch_ciphers h) \<le> 65535" "length ?es \<le> 65535"
    using assms by (simp_all add: hello_wf_def hello_body_def u16_block_def MAX_TLS_RECORD_def)
  have short: "unat (of_nat (length (ch_session h)) :: byte) = length (ch_session h)"
    "unat (of_nat (length (ch_compression h)) :: byte) = length (ch_compression h)"
    using assms by (simp_all add: hello_wf_def unat_small_byte)
  have wf: "length (ch_version h) = 2" "length (ch_random h) = 32"
    using assms by (simp_all add: hello_wf_def)
  have "left_at ?b 0 (ch_version h @ ch_random h @ [of_nat (length (ch_session h))] @ ch_session h @ u16_block (ch_ciphers h)
     @ [of_nat (length (ch_compression h))] @ ch_compression h @ u16_block ?es @ [])"
    using total(1) by (simp add: left_at_def hello_body_def)
  note s1 = sniff_left [OF this wf(1) [symmetric]]
  note s2 = sniff_left [OF s1(2) wf(2) [symmetric]]
  note s3 = sniff_left [OF s2(2), of 1, simplified]
  have "left_at ?b 35 (ch_session h @ u16_block (ch_ciphers h)
     @ [of_nat (length (ch_compression h))] @ ch_compression h @ u16_block ?es @ [])"
    using s3(2) by simp
  note s4 = sniff_left [OF this refl]
  note s5 = sniff_block [OF s4(2) total(2)]
  note s6 = sniff_left [OF s5(3), of 1, simplified]
  have "left_at ?b (Suc (35 + length (ch_session h) + 2 + length (ch_ciphers h))) (ch_compression h @ u16_block ?es @ [])"
    using s6(2) by simp
  note s7 = sniff_left [OF this refl] note s8 = sniff_block [OF s7(2) total(3)]
  show ?thesis
    unfolding hello_server_name_def using s1(1) s2(1) s3(1) s4(1) s5(1,2) s6(1) s7(1) s8(1,2) short by simp
qed

lemma extension_length:
  assumes "hello_wf h" "e \<in> set (ch_extensions h)"
  shows "length (snd e) \<le> 65535"
proof -
  have "length (hello_extension e) \<le> length (concat (map hello_extension (ch_extensions h)))"
    using assms(2) by (auto simp: length_concat intro: member_le_sum_list)
  moreover have "length (snd e) \<le> length (hello_extension e)"
    by (simp add: hello_extension_def u16_block_def)
  ultimately show ?thesis
    using assms(1) by (simp add: hello_wf_def hello_body_def u16_block_def MAX_TLS_RECORD_def)
qed

lemma tls_record_ok:
  assumes "hello_wf h" "length version = 2"
  shows "tls_server_name (hello_record version h @ rest) = hello_server_name (hello_body h)"
proof -
  define n where "n = length (hello_body h)"
  define hello where "hello = [1] @ nat_be 3 n @ hello_body h"
  define bytes where "bytes = hello_record version h @ rest"
  obtain v0 v1 where v: "version = [v0, v1]"
    using assms(2) by (auto simp: numeral_2_eq_2 length_Suc_conv)
  have n: "4 + n \<le> 16384" "length hello = 4 + n"
    using assms(1) by (simp_all add: hello_wf_def n_def hello_def MAX_TLS_RECORD_def)
  obtain l0 l1 where l: "to_be16 (of_nat (4 + n)) = [l0, l1]"
    using length_to_be(1) [of "of_nat (4 + n)"] by (auto simp: numeral_2_eq_2 length_Suc_conv simp del: length_to_be)
  have bytes: "bytes = [0x16, v0, v1, l0, l1] @ hello @ rest"
    using n(2) l by (simp add: bytes_def hello_record_def u16_block_def v hello_def n_def)
  have len: "unat (from_be16 [l0, l1]) = 4 + n"
    unfolding l [symmetric] from_to_be16 using n(1) by (intro unat_small16) simp
  have "bslice bytes 5 (5 + (4 + n)) = hello"
    using n(2) by (simp add: bytes bslice_def)
  moreover have "read_u24 (bslice hello 1 4) = n"
    using n(1) be_nat_nat_be [of 3 n] by (simp add: hello_def bslice_def read_u24_def)
  moreover have "bslice hello 4 (4 + n) = hello_body h"
    by (simp add: hello_def bslice_def n_def)
  moreover have "hello ! 0 = 1"
    by (simp add: hello_def)
  moreover have "bytes ! 0 = 0x16" "bytes ! 3 = l0" "bytes ! 4 = l1" "length bytes = 5 + (4 + n) + length rest"
    using n(2) by (simp_all add: bytes)
  ultimately show ?thesis
    using n len unfolding bytes_def [symmetric] tls_server_name_def
    by (simp add: TLS_RECORD_HEADER_def MAX_TLS_RECORD_def Let_def)
qed

text \<open>
  C24: the server name of a well-formed client hello is found wherever its extension stands, the
  first of that kind, whatever follows the record; the flow is then not taken for HTTP.
\<close>

theorem sniff_finds_server_name:
  assumes "hello_wf h" "length version = 2" "ch_extensions h = before @ (0, server_name_body host) # after"
    "\<forall>(k, b) \<in> set before. k \<noteq> 0" "host \<noteq> []" "from_utf8 (as_bytes host) = Some host"
  shows "inspect (hello_record version h @ rest) = \<lparr>sm_tls_server_name = Some host, sm_http_host = None\<rparr>"
proof -
  let ?body = "server_name_body host" and ?es = "concat (map hello_extension (ch_extensions h))"
  have short: "length (snd e) \<le> 65535" if "e \<in> set (ch_extensions h)" for e
    using extension_length [OF assms(1) that] .
  have body: "length ?body \<le> 65535" "length host + 3 \<le> 65535"
    using short [of "(0, ?body)"] assms(3) by (simp_all add: server_name_body_def u16_block_def)
  have "length ?es < 2 ^ 64"
    using assms(1) by (simp add: hello_wf_def hello_body_def u16_block_def MAX_TLS_RECORD_def)
  then have "left_at ?es 0 (concat (map hello_extension before) @ hello_extension (0, ?body) @ concat (map hello_extension after))"
    by (simp add: left_at_def assms(3))
  from extensions_ok [OF server_name_ok [OF assms(5,6) body(2)] body(1) this]
  have "sniff_extensions ?es 0 = Some (Some host)"
    using assms(3,4) short by fastforce
  then show ?thesis
    using tls_record_ok [OF assms(1,2)] hello_ok [OF assms(1)] by (simp add: inspect_def)
qed

theorem sniff_finds_server_name_witness:
  "inspect (hello_record [3, 1] \<lparr>ch_version = [3, 3], ch_random = replicate 32 7, ch_session = [], ch_ciphers = [0x13, 1],
      ch_compression = [0], ch_extensions = [(10, [0, 2]), (0, server_name_body ''a.com'')]\<rparr> @ [1, 2])
    = \<lparr>sm_tls_server_name = Some ''a.com'', sm_http_host = None\<rparr>"
proof -
  let ?h = "\<lparr>ch_version = [3, 3], ch_random = replicate 32 7, ch_session = [], ch_ciphers = [0x13, 1],
      ch_compression = [0], ch_extensions = [(10, [0, 2]), (0, server_name_body ''a.com'')]\<rparr>"
  have "hello_wf ?h"
    by (simp add: hello_wf_def hello_body_def u16_block_def hello_extension_def server_name_body_def MAX_TLS_RECORD_def)
  moreover have "from_utf8 (as_bytes ''a.com'') = Some ''a.com''"
    by code_simp
  ultimately show ?thesis
    using sniff_finds_server_name [of ?h "[3, 1]" "[(10, [0, 2])]" "''a.com''" "[]" "[1, 2]"] by simp
qed

end
