(* ===== verification/Drop_Delay.thy ===== *)
theory Drop_Delay
  imports Types
begin

text \<open>
  The back-off of the drop proxy, \<open>protocol/src/proxy/drop.rs\<close>: how long a blocked flow is kept waiting,
  by the number of recent attempts for its destination, in a bounded table keyed by the hash of
  the endpoint (\<open>types/src/net.rs\<close>). Instants and durations count nanoseconds; the order of the
  table is that of a hash map and has no meaning.
\<close>

unbundle bit_operations_syntax

subsection \<open>Keys\<close>

definition show_socket_addr :: "socket_addr \<Rightarrow> string" where
  "show_socket_addr a =
     (case a of
        SockV4 ip port \<Rightarrow> show_ipv4 ip @ '':'' @ show_nat (unat port)
      | SockV6 ip port _ scope \<Rightarrow>
          ''['' @ show_ipv6 ip @ (if scope = 0 then [] else ''%'' @ show_nat (unat scope)) @ '']:'' @ show_nat (unat port))"

definition hash_feed :: "u64 \<Rightarrow> byte list \<Rightarrow> u64" where
  "hash_feed h bytes = foldl (\<lambda>h b. (h XOR ucast b) * 0x100000001B3) h bytes"

fun network_byte :: "network \<Rightarrow> byte" where
  "network_byte Tcp = 0"
| "network_byte Udp = 1"
| "network_byte Icmp = 2"
| "network_byte Any = 3"

definition comparable_key :: "endpoint \<Rightarrow> u64" where
  "comparable_key e =
     (let h = hash_feed 0xCBF29CE484222325 [network_byte (endpoint_network e)] in
      case e of
        EIp _ addr \<Rightarrow> hash_feed h (as_bytes (show_socket_addr addr))
      | EDomain _ host port \<Rightarrow> hash_feed (hash_feed h (as_bytes host)) (to_be16 port))"

subsection \<open>Delays\<close>

definition SECOND :: nat where "SECOND = 1000000000"
definition DROP_CACHE_CAPACITY :: nat where "DROP_CACHE_CAPACITY = 512"
definition DROP_CACHE_EXPIRY :: nat where "DROP_CACHE_EXPIRY = 5 * SECOND"
definition DROP_MAX_DELAY :: nat where "DROP_MAX_DELAY = 30 * SECOND"

record delayed_drop_entry =
  dd_delay :: nat
  dd_last_seen :: nat

type_synonym delayed_drop_state = "(u64 \<times> delayed_drop_entry) list"

definition make_room :: "delayed_drop_state \<Rightarrow> delayed_drop_state" where
  "make_room entries =
     (if length entries \<ge> DROP_CACHE_CAPACITY then
        (case min_by_key (\<lambda>(_, e). dd_last_seen e) entries of
           Some (oldest, _) \<Rightarrow> AList.delete oldest entries
         | None \<Rightarrow> entries)
      else entries)"

definition next_delay_key :: "delayed_drop_state \<Rightarrow> u64 \<Rightarrow> nat \<Rightarrow> delayed_drop_state \<times> nat" where
  "next_delay_key entries key now =
     (case map_of entries key of
        Some e \<Rightarrow>
          (let delay =
             (if now - dd_last_seen e \<le> DROP_CACHE_EXPIRY
              then (if dd_delay e = 0 then SECOND else min (dd_delay e * 2) DROP_MAX_DELAY)
              else 0)
           in (AList.update key \<lparr>dd_delay = delay, dd_last_seen = now\<rparr> entries, delay))
      | None \<Rightarrow> (AList.update key \<lparr>dd_delay = 0, dd_last_seen = now\<rparr> (make_room entries), 0))"

definition next_delay :: "delayed_drop_state \<Rightarrow> endpoint \<Rightarrow> nat \<Rightarrow> delayed_drop_state \<times> nat" where
  "next_delay entries destination now = next_delay_key entries (comparable_key destination) now"

text \<open>The flows of the proxy ask for the delay of where they really go.\<close>

definition drop_connect :: "delayed_drop_state \<Rightarrow> flow_context \<Rightarrow> nat \<Rightarrow> delayed_drop_state \<times> nat" where
  "drop_connect entries ctx now = next_delay entries (effective_destination ctx) now"

fun drop_run :: "delayed_drop_state \<Rightarrow> (endpoint \<times> nat) list \<Rightarrow> delayed_drop_state \<times> nat list" where
  "drop_run entries [] = (entries, [])"
| "drop_run entries ((d, now) # as) =
     (case next_delay entries d now of (entries', delay) \<Rightarrow> case drop_run entries' as of (final, ds) \<Rightarrow> (final, delay # ds))"

subsection \<open>Bounds and growth\<close>

definition drop_ok :: "delayed_drop_state \<Rightarrow> bool" where
  "drop_ok entries \<longleftrightarrow> distinct (map fst entries) \<and> length entries \<le> DROP_CACHE_CAPACITY
     \<and> (\<forall>ke \<in> set entries. dd_delay (snd ke) \<le> DROP_MAX_DELAY)"

lemma min_by_key_exists: "xs \<noteq> [] \<Longrightarrow> \<exists>x. min_by_key f xs = Some x"
  by (cases xs) (auto split: option.split)

lemma make_room_ok:
  assumes "drop_ok entries"
  shows "drop_ok (make_room entries)" "length (make_room entries) < DROP_CACHE_CAPACITY"
proof -
  have "drop_ok (make_room entries) \<and> length (make_room entries) < DROP_CACHE_CAPACITY"
  proof (cases "length entries \<ge> DROP_CACHE_CAPACITY")
    case True
    then have "entries \<noteq> []"
      by (auto simp: DROP_CACHE_CAPACITY_def)
    then obtain k e where ke: "min_by_key (\<lambda>(_, e). dd_last_seen e) entries = Some (k, e)"
      using min_by_key_exists [of entries "\<lambda>(_, e). dd_last_seen e"] by auto
    then have room: "make_room entries = AList.delete k entries" "length (AList.delete k entries) < length entries"
      using True min_by_key_in [OF ke] by (simp_all add: make_room_def length_delete_less)
    then show ?thesis
      using assms set_delete_subset [of k entries] distinct_alist_delete [of entries k] by (auto simp: drop_ok_def)
  qed (use assms in \<open>simp add: make_room_def\<close>)
  then show "drop_ok (make_room entries)" "length (make_room entries) < DROP_CACHE_CAPACITY"
    by simp_all
qed

lemma drop_ok_update:
  assumes "drop_ok m" "dd_delay e \<le> DROP_MAX_DELAY" "k \<in> fst ` set m \<or> length m < DROP_CACHE_CAPACITY"
  shows "drop_ok (AList.update k e m)"
  using assms alist_set_update [of k e m] by (auto simp: drop_ok_def distinct_update length_update)

lemma next_delay_ok:
  assumes "drop_ok entries" "next_delay entries d now = (entries', delay)"
  shows "drop_ok entries' \<and> delay \<le> DROP_MAX_DELAY"
proof (cases "map_of entries (comparable_key d)")
  case None
  then show ?thesis
    using assms make_room_ok [OF assms(1)] by (auto simp: next_delay_def next_delay_key_def intro!: drop_ok_update)
next
  case (Some e)
  then show ?thesis
    using assms map_of_Some_key [OF Some]
    by (auto simp: next_delay_def next_delay_key_def Let_def DROP_MAX_DELAY_def SECOND_def intro!: drop_ok_update split: if_splits)
qed

lemma drop_run_Cons:
  "snd (drop_run entries ((d, now) # as)) = snd (next_delay entries d now) # snd (drop_run (fst (next_delay entries d now)) as)"
  by (simp add: case_prod_unfold)

lemma drop_run_ok:
  "drop_ok entries \<Longrightarrow> drop_run entries as = (final, ds) \<Longrightarrow> drop_ok final \<and> (\<forall>d \<in> set ds. d \<le> DROP_MAX_DELAY)"
proof (induction as arbitrary: entries ds)
  case (Cons a as)
  obtain d now entries' delay ds' where a: "a = (d, now)" "next_delay entries d now = (entries', delay)"
      "drop_run entries' as = (final, ds')" "ds = delay # ds'"
    using Cons.prems(2) by (cases a) (auto split: prod.splits)
  then show ?case
    using Cons.IH [OF _ a(3)] next_delay_ok [OF Cons.prems(1) a(2)] by simp
qed simp

text \<open>The delay of the attempt after \<open>n\<close> others.\<close>

fun backoff :: "nat \<Rightarrow> nat" where
  "backoff 0 = 0"
| "backoff (Suc n) = min (2 ^ n * SECOND) DROP_MAX_DELAY"

lemma backoff_pos: "0 < n \<Longrightarrow> backoff n = min (2 ^ (n - 1) * SECOND) DROP_MAX_DELAY"
  by (cases n) simp_all

lemma backoff_next: "(if backoff n = 0 then SECOND else min (backoff n * 2) DROP_MAX_DELAY) = backoff (Suc n)"
  by (cases n) (auto simp: DROP_MAX_DELAY_def SECOND_def min_def)

fun close_together :: "nat list \<Rightarrow> bool" where
  "close_together (t # u # ts) \<longleftrightarrow> u - t \<le> DROP_CACHE_EXPIRY \<and> close_together (u # ts)"
| "close_together _ \<longleftrightarrow> True"

lemma repeated_attempts:
  "map_of entries (comparable_key d) = Some \<lparr>dd_delay = backoff n, dd_last_seen = t\<rparr> \<Longrightarrow> close_together (t # ts) \<Longrightarrow>
   snd (drop_run entries (map (\<lambda>t. (d, t)) ts)) = map backoff [Suc n..<Suc n + length ts]"
proof (induction ts arbitrary: entries n t)
  case (Cons u ts)
  have "next_delay entries d u =
      (AList.update (comparable_key d) \<lparr>dd_delay = backoff (Suc n), dd_last_seen = u\<rparr> entries, backoff (Suc n))"
    using Cons.prems backoff_next [of n] by (auto simp: next_delay_def next_delay_key_def Let_def simp del: backoff.simps split: if_splits)
  then show ?case
    using Cons.IH [of "AList.update (comparable_key d) \<lparr>dd_delay = backoff (Suc n), dd_last_seen = u\<rparr> entries" "Suc n" u] Cons.prems(2)
    by (simp add: upt_conv_Cons drop_run_Cons del: backoff.simps upt_Suc drop_run.simps)
qed simp



end
