(* ===== verification/Users.thy ===== *)
theory Users
  imports Fakeip_Store Route_Rules Dns_Hosts Vless
begin

text \<open>
  Central users, \<open>store/src/users.rs\<close>: credentials and their validation, the tables of users and
  credentials, the references to users in the stored nodes, and the injection of a credential into
  the configuration of a node.

  The tables are those of the current schema (\<open>store/src/schema.rs\<close>), with their keys, the unique
  index of identifiers and the cascade of a deletion; a \<open>CHECK (x IN (0, 1))\<close> column is a truth
  value. Each access to the database takes what the engine answers, as in \<open>Fakeip_Store\<close>. The JSON
  parser and printer, the clock and the hash function are arguments.
\<close>

subsection \<open>Records\<close>

record go_basic_credential =
  gb_username :: "string option"
  gb_password :: "string option"
  gb_allow_any_username :: bool
  gb_allow_any_password :: bool

record go_credential =
  gc_kind :: string
  gc_basic :: "go_basic_credential option"
  gc_uuid :: "string option"
  gc_token :: "string option"

record go_user_record =
  gu_id :: string
  gu_name :: string
  gu_enabled :: bool
  gu_origin :: string
  gu_usage :: string
  gu_credential :: go_credential
  gu_updated_at :: int

record go_user_write =
  gw_name :: string
  gw_enabled :: bool
  gw_origin :: string
  gw_usage :: string
  gw_credential :: go_credential

record go_credential_view =
  cv_kind :: string
  cv_username :: string
  cv_password :: string
  cv_uuid :: string
  cv_token :: string
  cv_has_username :: bool
  cv_has_secret :: bool

record go_user_view =
  uv_id :: string
  uv_name :: string
  uv_enabled :: bool
  uv_origin :: string
  uv_usage :: string
  uv_credential :: go_credential_view
  uv_outbound_references :: nat

subsection \<open>Validation\<close>

definition is_ascii_hexdigit :: "char \<Rightarrow> bool" where
  "is_ascii_hexdigit c \<longleftrightarrow> CHR ''0'' \<le> c \<and> c \<le> CHR ''9'' \<or> CHR ''a'' \<le> c \<and> c \<le> CHR ''f'' \<or> CHR ''A'' \<le> c \<and> c \<le> CHR ''F''"

definition is_uuid :: "string \<Rightarrow> bool" where
  "is_uuid s \<longleftrightarrow> length s = 36
     \<and> (\<forall>(i, c) \<in> set (zip [0..<length s] s). if i \<in> {8, 13, 18, 23} then c = CHR ''-'' else is_ascii_hexdigit c)"

definition credential_validate :: "go_credential \<Rightarrow> unit result" where
  "credential_validate c =
     (if length (filter (\<lambda>present. present) [gc_basic c \<noteq> None, gc_uuid c \<noteq> None, gc_token c \<noteq> None]) \<noteq> 1
      then Inl (error_invalid ''credential must contain exactly one variant'')
      else if gc_kind c = ''basic'' then
        (case gc_basic c of
           None \<Rightarrow> Inl (error_invalid ''basic credential is missing'')
         | Some b \<Rightarrow>
             if gb_username b = None \<and> gb_password b = None \<and> \<not> gb_allow_any_username b \<and> \<not> gb_allow_any_password b
             then Inl (error_invalid ''basic credential has no usable field'') else Inr ())
      else if gc_kind c = ''uuid'' then
        (case gc_uuid c of
           None \<Rightarrow> Inl (error_invalid ''uuid credential is missing'')
         | Some u \<Rightarrow> if \<not> is_uuid u then Inl (error_invalid ''invalid uuid credential'') else Inr ())
      else if gc_kind c = ''token'' then
        (if gc_token c = None \<or> gc_token c = Some [] then Inl (error_invalid ''token credential is empty'') else Inr ())
      else Inl (error_invalid (''unknown credential type '' @ debug_str (gc_kind c))))"

definition validate_user_text :: "string \<Rightarrow> string \<Rightarrow> unit result" where
  "validate_user_text s name =
     (if length s > 512 \<or> has_control s then Inl (error_invalid (name @ '' contains invalid characters'')) else Inr ())"

definition validate_user_usage :: "string \<Rightarrow> unit result" where
  "validate_user_usage s =
     (if s \<in> {''inbound'', ''outbound'', ''both''} then Inr () else Inl (error_invalid (''invalid user usage '' @ debug_str s)))"

definition user_validate :: "go_user_record \<Rightarrow> unit result" where
  "user_validate r =
     rbind (validate_id (gu_id r)) (\<lambda>_.
     rbind (validate_user_text (gu_name r) ''user name'') (\<lambda>_.
     rbind (validate_user_usage (gu_usage r)) (\<lambda>_.
       let origin = (if gu_origin r = [] then ''manual'' else gu_origin r) in
       if origin \<notin> {''manual'', ''migrated''} then Inl (error_invalid (''invalid user origin '' @ debug_str origin))
       else if gu_updated_at r < 0 then Inl (error_invalid ''user updated_at must not be negative'')
       else credential_validate (gu_credential r))))"

subsection \<open>Views\<close>

definition text_or_empty :: "string option \<Rightarrow> string" where
  "text_or_empty s = (case s of Some v \<Rightarrow> v | None \<Rightarrow> [])"

definition credential_view :: "go_credential \<Rightarrow> go_credential_view" where
  "credential_view c =
     (let view = \<lparr>cv_kind = gc_kind c, cv_username = [], cv_password = [], cv_uuid = [], cv_token = [],
                  cv_has_username = False, cv_has_secret = False\<rparr> in
      if gc_kind c = ''basic'' then
        (case gc_basic c of
           None \<Rightarrow> view
         | Some b \<Rightarrow>
             view\<lparr>cv_username := text_or_empty (gb_username b), cv_has_username := (gb_username b \<noteq> None),
                  cv_password := text_or_empty (gb_password b), cv_has_secret := (gb_password b \<noteq> None)\<rparr>)
      else if gc_kind c = ''uuid'' then
        (case gc_uuid c of None \<Rightarrow> view | Some u \<Rightarrow> view\<lparr>cv_uuid := u, cv_has_secret := (u \<noteq> [])\<rparr>)
      else if gc_kind c = ''token'' then
        (case gc_token c of None \<Rightarrow> view | Some t \<Rightarrow> view\<lparr>cv_token := t, cv_has_secret := (t \<noteq> [])\<rparr>)
      else view)"

definition user_view :: "go_user_record \<Rightarrow> nat \<Rightarrow> go_user_view" where
  "user_view r references =
     \<lparr>uv_id = gu_id r, uv_name = gu_name r, uv_enabled = gu_enabled r,
      uv_origin = (if gu_origin r = [] then ''manual'' else gu_origin r), uv_usage = gu_usage r,
      uv_credential = credential_view (gu_credential r), uv_outbound_references = references\<rparr>"

subsection \<open>Identifiers\<close>

definition uuid_hex :: "byte \<Rightarrow> string" where
  "uuid_hex b = [''0123456789abcdef'' ! unat (drop_bit 4 b), ''0123456789abcdef'' ! unat (b AND 0x0F)]"

definition format_uuid :: "byte list \<Rightarrow> string" where
  "format_uuid bytes =
     concat (map (\<lambda>(i, b). (if i \<in> {4, 6, 8, 10} then ''-'' else []) @ uuid_hex b) (zip [0..<length bytes] bytes))"

definition generate_user_id :: "(byte list \<Rightarrow> byte list) \<Rightarrow> nat \<Rightarrow> nat \<Rightarrow> nat \<Rightarrow> string" where
  "generate_user_id blake3 now process_id counter =
     (let seed = show_nat now @ '':'' @ show_nat process_id @ '':'' @ show_nat counter;
          bytes = blake3 (as_bytes seed);
          bytes = bytes[6 := (bytes ! 6 AND 0x0F) OR 0x40];
          bytes = bytes[8 := (bytes ! 8 AND 0x3F) OR 0x80]
      in format_uuid (List.take 16 bytes))"

definition user_of_write :: "string \<Rightarrow> int \<Rightarrow> go_user_write \<Rightarrow> go_user_record" where
  "user_of_write generated_id now w =
     \<lparr>gu_id = generated_id, gu_name = gw_name w, gu_enabled = gw_enabled w,
      gu_origin = (if gw_origin w = [] then ''manual'' else gw_origin w), gu_usage = gw_usage w,
      gu_credential = gw_credential w, gu_updated_at = now\<rparr>"

subsection \<open>Tables\<close>

record user_row =
  ur_name :: string
  ur_enabled :: bool
  ur_origin :: string
  ur_usage :: string
  ur_credential_type :: string
  ur_updated_at :: int

record user_db =
  ud_users :: "(string \<times> user_row) list"
  ud_basic :: "(string \<times> go_basic_credential) list"
  ud_uuid :: "(string \<times> string) list"
  ud_token :: "(string \<times> string) list"
  ud_nodes :: "byte list list"
  ud_migration_sources :: "string list"
  ud_migration_dedup :: "string list"

definition user_from_row :: "user_db \<Rightarrow> string \<times> user_row \<Rightarrow> go_user_record result" where
  "user_from_row db row =
     (case row of (uid, r) \<Rightarrow>
        rbind
          (if ur_credential_type r = ''basic'' then
             (case map_of (ud_basic db) uid of
                Some b \<Rightarrow> Inr \<lparr>gc_kind = ur_credential_type r, gc_basic = Some b, gc_uuid = None, gc_token = None\<rparr>
              | None \<Rightarrow> Inl (error_new Storage ''typed store field user_basic_v2.allow_any_username is not INTEGER''))
           else if ur_credential_type r = ''uuid'' then
             Inr \<lparr>gc_kind = ur_credential_type r, gc_basic = None, gc_uuid = Some (text_or_empty (map_of (ud_uuid db) uid)), gc_token = None\<rparr>
           else if ur_credential_type r = ''token'' then
             Inr \<lparr>gc_kind = ur_credential_type r, gc_basic = None, gc_uuid = None, gc_token = Some (text_or_empty (map_of (ud_token db) uid))\<rparr>
           else Inl (error_new Storage (''users_v2 has unknown credential type '' @ debug_str (ur_credential_type r))))
          (\<lambda>credential.
             Inr \<lparr>gu_id = uid, gu_name = ur_name r, gu_enabled = ur_enabled r, gu_origin = ur_origin r, gu_usage = ur_usage r,
                  gu_credential = credential, gu_updated_at = ur_updated_at r\<rparr>))"

fun rmap :: "('a \<Rightarrow> 'b result) \<Rightarrow> 'a list \<Rightarrow> 'b list result" where
  "rmap f [] = Inr []"
| "rmap f (x # xs) = rbind (f x) (\<lambda>y. rbind (rmap f xs) (\<lambda>ys. Inr (y # ys)))"

definition list_go_user_records :: "error option \<Rightarrow> user_db \<Rightarrow> go_user_record list result" where
  "list_go_user_records fault db =
     (case fault of
        Some e \<Rightarrow> Inl e
      | None \<Rightarrow> rmap (user_from_row db) (sort_key (\<lambda>(_, r). as_bytes (ur_name r)) (sort_key (\<lambda>(uid, _). as_bytes uid) (ud_users db))))"

definition get_go_user :: "error option \<Rightarrow> user_db \<Rightarrow> string \<Rightarrow> go_user_record result" where
  "get_go_user fault db uid =
     rbind (validate_id uid) (\<lambda>_.
     rbind (list_go_user_records fault db) (\<lambda>records.
       case find (\<lambda>r. gu_id r = uid) records of
         Some r \<Rightarrow> Inr r
       | None \<Rightarrow> Inl (error_new NotFound (''user '' @ uid @ '' was not found''))))"

definition save_go_user :: "error option \<Rightarrow> user_db \<Rightarrow> go_user_record \<Rightarrow> user_db \<times> unit result" where
  "save_go_user fault db r =
     checked (user_validate r) db (
       with_write_transaction fault db (\<lambda>db.
         let uid = gu_id r;
             c = gu_credential r;
             db = db\<lparr>ud_users := AList.update uid
                   \<lparr>ur_name = gu_name r, ur_enabled = gu_enabled r, ur_origin = gu_origin r, ur_usage = gu_usage r,
                    ur_credential_type = gc_kind c, ur_updated_at = gu_updated_at r\<rparr> (ud_users db),
                   ud_basic := AList.delete uid (ud_basic db),
                   ud_uuid := AList.delete uid (ud_uuid db),
                   ud_token := AList.delete uid (ud_token db)\<rparr>
         in
         if gc_kind c = ''basic'' then
           (case gc_basic c of
              None \<Rightarrow> Inl (error_invalid ''basic credential is missing'')
            | Some b \<Rightarrow> Inr (db\<lparr>ud_basic := ud_basic db @ [(uid, b)]\<rparr>, ()))
         else if gc_kind c = ''uuid'' then
           (case gc_uuid c of
              None \<Rightarrow> Inl (error_invalid ''uuid credential is missing'')
            | Some u \<Rightarrow>
                if u \<in> snd ` set (ud_uuid db) then Inl (error_new Storage ''UNIQUE constraint failed: user_uuid_v2.uuid'')
                else Inr (db\<lparr>ud_uuid := ud_uuid db @ [(uid, u)]\<rparr>, ()))
         else if gc_kind c = ''token'' then
           (case gc_token c of
              None \<Rightarrow> Inl (error_invalid ''token credential is missing'')
            | Some t \<Rightarrow> Inr (db\<lparr>ud_token := ud_token db @ [(uid, t)]\<rparr>, ()))
         else Inl (error_invalid ''unknown credential type'')))"

definition create_go_user :: "error option \<Rightarrow> user_db \<Rightarrow> string \<Rightarrow> int \<Rightarrow> go_user_write \<Rightarrow> user_db \<times> go_user_view result" where
  "create_go_user fault db generated_id now w =
     (let r = user_of_write generated_id now w in
      checked (user_validate r) db (
        case save_go_user fault db r of (db, res) \<Rightarrow> (db, rbind res (\<lambda>_. Inr (user_view r 0)))))"

subsection \<open>References\<close>

lemma object_member_size [termination_simp]: "(k, v) \<in> set fs \<Longrightarrow> size v < Suc (size_list (size_prod (\<lambda>_. 0) size) fs)"
  by (induction fs) auto

definition bump :: "string \<Rightarrow> (string \<times> nat) list \<Rightarrow> (string \<times> nat) list" where
  "bump uid refs = AList.update uid (case map_of refs uid of Some n \<Rightarrow> n + 1 | None \<Rightarrow> 1) refs"

fun count_user_ids :: "json \<Rightarrow> (string \<times> nat) list \<Rightarrow> (string \<times> nat) list" where
  "count_user_ids (JObject fs) refs =
     foldl (\<lambda>refs (_, v). count_user_ids v refs)
       (case map_of fs ''userId'' of
          Some (JString uid) \<Rightarrow> if uid \<noteq> [] then bump uid refs else refs
        | _ \<Rightarrow> refs) fs"
| "count_user_ids (JArray vs) refs = foldl (\<lambda>refs v. count_user_ids v refs) refs vs"
| "count_user_ids _ refs = refs"

fun count_node_users :: "(byte list \<Rightarrow> string + json) \<Rightarrow> byte list list \<Rightarrow> (string \<times> nat) list \<Rightarrow> (string \<times> nat) list result" where
  "count_node_users parse [] refs = Inr refs"
| "count_node_users parse (data # ds) refs =
     (case parse data of
        Inl e \<Rightarrow> Inl (error_new Storage (''decode node user references failed: '' @ e))
      | Inr v \<Rightarrow> count_node_users parse ds (count_user_ids v refs))"

definition go_user_outbound_references :: "(byte list \<Rightarrow> string + json) \<Rightarrow> error option \<Rightarrow> user_db \<Rightarrow> (string \<times> nat) list result" where
  "go_user_outbound_references parse fault db =
     (case fault of Some e \<Rightarrow> Inl e | None \<Rightarrow> count_node_users parse (ud_nodes db) [])"

definition go_user_migration_references :: "error option \<Rightarrow> user_db \<Rightarrow> string \<Rightarrow> nat result" where
  "go_user_migration_references fault db uid =
     (case fault of
        Some e \<Rightarrow> Inl e
      | None \<Rightarrow> Inr (count_list (ud_migration_sources db) uid + count_list (ud_migration_dedup db) uid))"

definition reference_count :: "(string \<times> nat) list \<Rightarrow> string \<Rightarrow> nat" where
  "reference_count refs uid = (case map_of refs uid of Some n \<Rightarrow> n | None \<Rightarrow> 0)"

definition sql_delete_user :: "string \<Rightarrow> user_db \<Rightarrow> user_db" where
  "sql_delete_user uid db =
     db\<lparr>ud_users := AList.delete uid (ud_users db), ud_basic := AList.delete uid (ud_basic db),
        ud_uuid := AList.delete uid (ud_uuid db), ud_token := AList.delete uid (ud_token db)\<rparr>"

definition delete_go_user ::
  "(byte list \<Rightarrow> string + json) \<Rightarrow> error option \<Rightarrow> error option \<Rightarrow> error option \<Rightarrow> user_db \<Rightarrow> string \<Rightarrow> user_db \<times> unit result" where
  "delete_go_user parse fault1 fault2 fault3 db uid =
     checked (validate_id uid) db (
       case go_user_outbound_references parse fault1 db of
         Inl e \<Rightarrow> (db, Inl e)
       | Inr refs \<Rightarrow>
           checked
             (if reference_count refs uid > 0
              then Inl (error_new Conflict (''user '' @ uid @ '' is referenced by a node or migration mapping''))
              else rbind (go_user_migration_references fault2 db uid) (\<lambda>n.
                if n > 0 then Inl (error_new Conflict (''user '' @ uid @ '' is referenced by a node or migration mapping''))
                else Inr ()))
             db
             (with_write_transaction fault3 db (\<lambda>db.
                if map_of (ud_users db) uid = None then Inl (error_new NotFound (''user '' @ uid @ '' was not found''))
                else Inr (sql_delete_user uid db, ()))))"

definition get_go_user_view ::
  "(byte list \<Rightarrow> string + json) \<Rightarrow> error option \<Rightarrow> error option \<Rightarrow> user_db \<Rightarrow> string \<Rightarrow> go_user_view result" where
  "get_go_user_view parse fault1 fault2 db uid =
     rbind (get_go_user fault1 db uid) (\<lambda>r.
     rbind (go_user_outbound_references parse fault2 db) (\<lambda>refs. Inr (user_view r (reference_count refs uid))))"

definition user_matches_query :: "string option \<Rightarrow> go_user_record \<Rightarrow> bool" where
  "user_matches_query query r =
     (case query of
        None \<Rightarrow> True
      | Some q \<Rightarrow> sublist q (to_ascii_lowercase (gu_id r)) \<or> sublist q (to_ascii_lowercase (gu_name r))
          \<or> sublist q (to_ascii_lowercase (gc_kind (gu_credential r))))"

definition list_go_user_views ::
  "(byte list \<Rightarrow> string + json) \<Rightarrow> error option \<Rightarrow> error option \<Rightarrow> user_db \<Rightarrow> string option \<Rightarrow> nat \<Rightarrow> nat
    \<Rightarrow> (go_user_view list \<times> nat) result" where
  "list_go_user_views parse fault1 fault2 db query page page_size =
     rbind (list_go_user_records fault1 db) (\<lambda>records.
     rbind (go_user_outbound_references parse fault2 db) (\<lambda>refs.
       let query = Option.bind (map_option trim query) (\<lambda>q. if q = [] then None else Some (to_ascii_lowercase q));
           filtered = filter (user_matches_query query) records;
           start = saturating_mul (max page 1 - 1) page_size;
           views = map (\<lambda>r. user_view r (reference_count refs (gu_id r)))
             ((if page_size = 0 then (\<lambda>xs. xs) else List.take page_size) (List.drop start filtered))
       in Inr (views, length filtered)))"

subsection \<open>Injection\<close>

definition basic_credential :: "go_user_record \<Rightarrow> string \<Rightarrow> go_basic_credential result" where
  "basic_credential user protocol =
     (case gc_basic (gu_credential user) of
        Some b \<Rightarrow> Inr b
      | None \<Rightarrow> Inl (error_invalid (''user '' @ gu_id user @ '' has no basic credential for '' @ protocol)))"

definition uuid_credential :: "go_user_record \<Rightarrow> string \<Rightarrow> string result" where
  "uuid_credential user protocol =
     (case gc_uuid (gu_credential user) of
        Some u \<Rightarrow> Inr u
      | None \<Rightarrow> Inl (error_invalid (''user '' @ gu_id user @ '' has no UUID credential for '' @ protocol)))"

definition token_credential :: "go_user_record \<Rightarrow> string \<Rightarrow> string result" where
  "token_credential user protocol =
     (case gc_token (gu_credential user) of
        Some t \<Rightarrow> Inr t
      | None \<Rightarrow> Inl (error_invalid (''user '' @ gu_id user @ '' has no token credential for '' @ protocol)))"

definition put_text :: "string \<Rightarrow> string option \<Rightarrow> (string \<times> json) list \<Rightarrow> (string \<times> json) list" where
  "put_text key s object = (case s of Some v \<Rightarrow> bt_insert key (JString v) object | None \<Rightarrow> object)"

definition apply_go_user_credential :: "(string \<times> json) list \<Rightarrow> string \<Rightarrow> go_user_record \<Rightarrow> (string \<times> json) list result" where
  "apply_go_user_credential object proto user =
     (let protocol = to_ascii_lowercase proto in
      if protocol \<in> {''http'', ''http_proxy'', ''socks5''} then
        rbind (basic_credential user protocol) (\<lambda>b.
          Inr (put_text ''password'' (gb_password b) (put_text ''user'' (gb_username b)
            (AList.delete ''password'' (AList.delete ''username'' (AList.delete ''user'' object))))))
      else if protocol \<in> {''shadowsocks'', ''shadowsocksr'', ''ssr'', ''trojan'', ''yuubinsya'', ''aead''} then
        rbind (basic_credential user protocol) (\<lambda>b. Inr (put_text ''password'' (gb_password b) (AList.delete ''password'' object)))
      else if protocol = ''vmess'' then
        rbind (uuid_credential user protocol) (\<lambda>u. Inr (bt_insert ''id'' (JString u) object))
      else if protocol = ''vless'' then
        rbind (uuid_credential user protocol) (\<lambda>u. Inr (bt_insert ''uuid'' (JString u) object))
      else if protocol = ''tailscale'' then
        rbind (token_credential user protocol) (\<lambda>t. Inr (bt_insert ''token'' (JString t) object))
      else Inl (error_new Unsupported (''central user credentials are unsupported for protocol '' @ debug_str protocol)))"

definition apply_user_reference :: "(string \<times> go_user_record) list \<Rightarrow> string option \<Rightarrow> (string \<times> json) list \<Rightarrow> (string \<times> json) list result" where
  "apply_user_reference users protocol object =
     (case Option.bind (map_of object ''userId'') as_str of
        None \<Rightarrow> Inr object
      | Some uid \<Rightarrow>
          (case map_of users uid of
             None \<Rightarrow> Inl (error_new NotFound (''outbound user '' @ uid @ '' referenced by node was not found''))
           | Some user \<Rightarrow>
               if \<not> gu_enabled user \<or> gu_usage user \<notin> {''outbound'', ''both''}
               then Inl (error_new InvalidInput (''outbound user '' @ uid @ '' is disabled or not enabled for outbound use''))
               else apply_go_user_credential object (text_or_empty protocol) user))"

text \<open>
  The children are visited after the credential was put into their object; what was put there is
  text, so the nesting does not grow.
\<close>

fun json_depth :: "json \<Rightarrow> nat" where
  "json_depth (JObject fs) = Suc (foldr (\<lambda>(_, v) n. max (json_depth v) n) fs 0)"
| "json_depth (JArray vs) = Suc (foldr (\<lambda>v n. max (json_depth v) n) vs 0)"
| "json_depth _ = 0"

definition fields_depth :: "(string \<times> json) list \<Rightarrow> nat" where
  "fields_depth fs = foldr (\<lambda>(_, v) n. max (json_depth v) n) fs 0"

definition values_depth :: "json list \<Rightarrow> nat" where
  "values_depth vs = foldr (\<lambda>v n. max (json_depth v) n) vs 0"

lemma fields_depth_le: "fields_depth fs \<le> n \<longleftrightarrow> (\<forall>f \<in> set fs. json_depth (snd f) \<le> n)"
  unfolding fields_depth_def by (induction fs) auto

lemma bt_insert_set: "set (bt_insert k v m) \<subseteq> insert (k, v) (set m)"
  by (induction k v m rule: bt_insert.induct) auto

lemma put_text_depth: "fields_depth m \<le> n \<Longrightarrow> fields_depth (put_text k s m) \<le> n"
  using bt_insert_set [of k _ m] by (cases s) (fastforce simp: put_text_def fields_depth_le)+

lemma bt_insert_depth: "fields_depth m \<le> n \<Longrightarrow> fields_depth (bt_insert k (JString t) m) \<le> n"
  using put_text_depth [of m n k "Some t"] by (simp add: put_text_def)

lemma delete_depth: "fields_depth m \<le> n \<Longrightarrow> fields_depth (AList.delete k m) \<le> n"
  using set_delete_subset [of k m] by (auto simp: fields_depth_le)

lemma apply_depth: "apply_user_reference users p fs = Inr fs' \<Longrightarrow> fields_depth fs' \<le> fields_depth fs"
  by (auto simp: apply_user_reference_def apply_go_user_credential_def Let_def rbind_eq_Inr_iff
      intro!: put_text_depth bt_insert_depth delete_depth split: option.splits if_splits)

function inject_go_user_credentials :: "(string \<times> go_user_record) list \<Rightarrow> string option \<Rightarrow> json \<Rightarrow> json result"
  and inject_fields :: "(string \<times> go_user_record) list \<Rightarrow> string option \<Rightarrow> (string \<times> json) list \<Rightarrow> (string \<times> json) list result"
  and inject_values :: "(string \<times> go_user_record) list \<Rightarrow> string option \<Rightarrow> json list \<Rightarrow> json list result" where
  "inject_go_user_credentials users inherited (JArray vs) = rbind (inject_values users inherited vs) (\<lambda>vs. Inr (JArray vs))"
| "inject_go_user_credentials users inherited (JObject object) =
     (let protocol = or_else (or_else (Option.bind (map_of object ''type'') as_str) inherited)
                       (Option.bind (map_of object ''protocol'') as_str)
      in rbind (apply_user_reference users protocol object) (\<lambda>object.
         rbind (inject_fields users protocol object) (\<lambda>object. Inr (JObject object))))"
| "inject_go_user_credentials users inherited JNull = Inr JNull"
| "inject_go_user_credentials users inherited (JBool b) = Inr (JBool b)"
| "inject_go_user_credentials users inherited (JNumber n) = Inr (JNumber n)"
| "inject_go_user_credentials users inherited (JString t) = Inr (JString t)"
| "inject_fields users protocol [] = Inr []"
| "inject_fields users protocol ((key, child) # fs) =
     rbind (if key \<noteq> ''userId'' then inject_go_user_credentials users protocol child else Inr child) (\<lambda>child.
     rbind (inject_fields users protocol fs) (\<lambda>fs. Inr ((key, child) # fs)))"
| "inject_values users protocol [] = Inr []"
| "inject_values users protocol (v # vs) =
     rbind (inject_go_user_credentials users protocol v) (\<lambda>v.
     rbind (inject_values users protocol vs) (\<lambda>vs. Inr (v # vs)))"
  by pat_completeness auto
termination
  by (relation "inv_image (less_than <*lex*> less_than)
      (\<lambda>x. case x of Inl (_, _, v) \<Rightarrow> (json_depth v, 0)
        | Inr (Inl (_, _, fs)) \<Rightarrow> (fields_depth fs, Suc (length fs))
        | Inr (Inr (_, _, vs)) \<Rightarrow> (values_depth vs, Suc (length vs)))")
    (auto simp: fields_depth_def values_depth_def less_Suc_eq_le dest!: apply_depth)

record go_node_record =
  gn_id :: string
  gn_name :: string
  gn_group_name :: string
  gn_origin :: string
  gn_enabled :: bool
  gn_chain_types_json :: "byte list"
  gn_updated_at :: int
  gn_data_json :: "byte list"

definition resolve_go_node_runtime_record ::
  "(byte list \<Rightarrow> string + json) \<Rightarrow> (json \<Rightarrow> string + byte list) \<Rightarrow> (string \<times> go_user_record) list \<Rightarrow> go_node_record \<Rightarrow> go_node_record result" where
  "resolve_go_node_runtime_record parse print users node =
     rbind (case parse (gn_data_json node) of
              Inl e \<Rightarrow> Inl (error_new InvalidInput (''node '' @ gn_id node @ '' has invalid data_json: '' @ e))
            | Inr payload \<Rightarrow> Inr payload) (\<lambda>payload.
     rbind (inject_go_user_credentials users None payload) (\<lambda>payload.
       case print payload of
         Inl e \<Rightarrow> Inl (error_new Storage (''encode resolved node '' @ gn_id node @ '' data_json: '' @ e))
       | Inr data \<Rightarrow> Inr (node\<lparr>gn_data_json := data\<rparr>)))"

definition users_by_id :: "go_user_record list \<Rightarrow> (string \<times> go_user_record) list" where
  "users_by_id records = rev (map (\<lambda>u. (gu_id u, u)) records)"

definition resolve_go_node_runtime_records ::
  "(byte list \<Rightarrow> string + json) \<Rightarrow> (json \<Rightarrow> string + byte list) \<Rightarrow> error option \<Rightarrow> user_db \<Rightarrow> go_node_record list \<Rightarrow> go_node_record list result" where
  "resolve_go_node_runtime_records parse print fault db nodes =
     rbind (list_go_user_records fault db) (\<lambda>records.
       rmap (resolve_go_node_runtime_record parse print (users_by_id records)) nodes)"

subsection \<open>Saving and reading back\<close>

definition user_db_ok :: "user_db \<Rightarrow> bool" where
  "user_db_ok db \<longleftrightarrow> distinct (map fst (ud_users db)) \<and> distinct (map fst (ud_basic db)) \<and> distinct (map fst (ud_uuid db))
     \<and> distinct (map fst (ud_token db)) \<and> distinct (map snd (ud_uuid db))
     \<and> (\<forall>uid r. map_of (ud_users db) uid = Some r \<longrightarrow> is_ok (user_from_row db (uid, r)))"

definition user_at :: "user_db \<Rightarrow> string \<Rightarrow> go_user_record option" where
  "user_at db uid =
     (case map_of (ud_users db) uid of
        None \<Rightarrow> None
      | Some r \<Rightarrow> (case user_from_row db (uid, r) of Inl _ \<Rightarrow> None | Inr u \<Rightarrow> Some u))"

lemma user_from_row_id: "user_from_row db (uid, r) = Inr u \<Longrightarrow> gu_id u = uid"
  by (auto simp: user_from_row_def rbind_eq_Inr_iff)

lemma rmap_ok: "(\<And>x. x \<in> set xs \<Longrightarrow> f x = Inr (g x)) \<Longrightarrow> rmap f xs = Inr (map g xs)"
  by (induction xs) auto

lemma rmap_eq_Inr: "rmap f xs = Inr ys \<longleftrightarrow> list_all2 (\<lambda>x y. f x = Inr y) xs ys"
  by (induction xs arbitrary: ys) (auto simp: rbind_eq_Inr_iff list_all2_Cons1)

lemma find_key: "distinct (map fst xs) \<Longrightarrow> find (\<lambda>kv. fst kv = k) xs = map_option (Pair k) (map_of xs k)"
  by (induction xs) (auto simp: map_of_eq_None_iff [symmetric])

lemma find_image: "(\<And>x. x \<in> set xs \<Longrightarrow> P (g x) \<longleftrightarrow> Q x) \<Longrightarrow> find P (map g xs) = map_option g (find Q xs)"
  by (induction xs) auto

definition sorted_rows :: "user_db \<Rightarrow> (string \<times> user_row) list" where
  "sorted_rows db = sort_key (\<lambda>(_, r). as_bytes (ur_name r)) (sort_key (\<lambda>(uid, _). as_bytes uid) (ud_users db))"

lemma map_of_sorted_rows:
  assumes "distinct (map fst (ud_users db))"
  shows "distinct (map fst (sorted_rows db))" "map_of (sorted_rows db) = map_of (ud_users db)" "set (sorted_rows db) = set (ud_users db)"
proof -
  show s: "set (sorted_rows db) = set (ud_users db)"
    by (simp add: sorted_rows_def)
  show d: "distinct (map fst (sorted_rows db))"
    using assms by (simp add: sorted_rows_def distinct_map)
  show "map_of (sorted_rows db) = map_of (ud_users db)"
    using map_of_inject_set [OF d assms] s by simp
qed

lemma list_users_ok:
  assumes "user_db_ok db"
  shows "list_go_user_records None db = Inr (map (\<lambda>(uid, r). the (user_at db uid)) (sorted_rows db))"
proof -
  have d: "distinct (map fst (ud_users db))"
    using assms by (simp add: user_db_ok_def)
  have "user_from_row db x = Inr ((\<lambda>(uid, r). the (user_at db uid)) x)" if member: "x \<in> set (sorted_rows db)" for x
  proof -
    obtain uid r where x: "x = (uid, r)"
      by fastforce
    then have "map_of (ud_users db) uid = Some r"
      using member d map_of_sorted_rows(3) [OF d] by simp
    with x show ?thesis
      using assms by (auto simp: user_db_ok_def user_at_def is_ok_def split: sum.splits)
  qed
  then show ?thesis
    by (simp add: list_go_user_records_def rmap_ok flip: sorted_rows_def)
qed

lemma user_at_Some:
  assumes "user_db_ok db"
  shows "user_at db uid = None \<longleftrightarrow> map_of (ud_users db) uid = None" "user_at db uid = Some u \<Longrightarrow> gu_id u = uid"
proof -
  show "user_at db uid = None \<longleftrightarrow> map_of (ud_users db) uid = None"
    using assms by (auto simp: user_at_def user_db_ok_def is_ok_def split: option.splits sum.splits)
  show "gu_id u = uid" if "user_at db uid = Some u"
    using that by (auto simp: user_at_def intro: user_from_row_id split: option.splits sum.splits)
qed

lemma get_user_ok:
  assumes "user_db_ok db" "validate_id uid = Inr ()"
  shows "get_go_user None db uid =
    (case user_at db uid of Some u \<Rightarrow> Inr u | None \<Rightarrow> Inl (error_new NotFound (''user '' @ uid @ '' was not found'')))"
proof -
  have d: "distinct (map fst (ud_users db))"
    using assms by (simp add: user_db_ok_def)
  have key: "gu_id (the (user_at db k)) = k" if "(k, r) \<in> set (sorted_rows db)" for k r
    using user_at_Some [OF assms(1), of k] that map_of_sorted_rows [OF d] d by (cases "user_at db k") auto
  have "find (\<lambda>u. gu_id u = uid) (map (\<lambda>(k, r). the (user_at db k)) (sorted_rows db))
      = map_option (\<lambda>(k, r). the (user_at db k)) (find (\<lambda>kv. fst kv = uid) (sorted_rows db))"
    using key by (intro find_image) auto
  then show ?thesis
    using assms find_key [OF map_of_sorted_rows(1) [OF d], of uid] map_of_sorted_rows(2) [OF d] user_at_Some(1) [OF assms(1), of uid]
    by (cases "user_at db uid") (auto simp: get_go_user_def list_users_ok)
qed

lemma valid_credential:
  assumes "credential_validate c = Inr ()"
  obtains (basic) b where "gc_kind c = ''basic''" "gc_basic c = Some b" "gc_uuid c = None" "gc_token c = None"
  | (uuid) u where "gc_kind c = ''uuid''" "gc_basic c = None" "gc_uuid c = Some u" "gc_token c = None"
  | (token) t where "gc_kind c = ''token''" "gc_basic c = None" "gc_uuid c = None" "gc_token c = Some t"
  using assms by (auto simp: credential_validate_def split: if_splits option.splits)

lemma save_fails: "save_go_user fault db r = (db', Inl e) \<Longrightarrow> db' = db"
  by (auto simp: save_go_user_def checked_def with_write_transaction_def split: sum.splits option.splits prod.splits)

definition saved_row :: "go_user_record \<Rightarrow> user_row" where
  "saved_row r = \<lparr>ur_name = gu_name r, ur_enabled = gu_enabled r, ur_origin = gu_origin r, ur_usage = gu_usage r,
     ur_credential_type = gc_kind (gu_credential r), ur_updated_at = gu_updated_at r\<rparr>"

text \<open>The tables after a save: the row of the user, and the credential in the table of its kind only.\<close>

lemma save_tables:
  assumes "save_go_user fault db r = (db', Inr ())"
  shows "credential_validate (gu_credential r) = Inr () \<and> validate_id (gu_id r) = Inr ()"
    and "ud_users db' = AList.update (gu_id r) (saved_row r) (ud_users db) \<and> ud_nodes db' = ud_nodes db"
    and "map_of (ud_basic db') = (map_of (ud_basic db))(gu_id r := gc_basic (gu_credential r))"
    and "map_of (ud_uuid db') = (map_of (ud_uuid db))(gu_id r := gc_uuid (gu_credential r))"
    and "map_of (ud_token db') = (map_of (ud_token db))(gu_id r := gc_token (gu_credential r))"
proof -
  have valid: "user_validate r = Inr ()"
    using assms by (auto simp: save_go_user_def checked_def split: sum.splits)
  then show v: "credential_validate (gu_credential r) = Inr () \<and> validate_id (gu_id r) = Inr ()"
    by (auto simp: user_validate_def rbind_eq_Inr_iff Let_def split: if_splits)
  note save = assms [unfolded save_go_user_def valid checked_def with_write_transaction_def Let_def, folded saved_row_def]
  from v have "credential_validate (gu_credential r) = Inr ()" ..
  then have tables: "ud_users db' = AList.update (gu_id r) (saved_row r) (ud_users db) \<and> ud_nodes db' = ud_nodes db
      \<and> map_of (ud_basic db') = (map_of (ud_basic db))(gu_id r := gc_basic (gu_credential r))
      \<and> map_of (ud_uuid db') = (map_of (ud_uuid db))(gu_id r := gc_uuid (gu_credential r))
      \<and> map_of (ud_token db') = (map_of (ud_token db))(gu_id r := gc_token (gu_credential r))"
  proof (cases rule: valid_credential)
    case (basic b)
    then show ?thesis
      using save by (auto split: option.splits simp: fun_eq_iff map_add_def)
  next
    case (uuid u)
    then show ?thesis
      using save by (auto split: option.splits if_splits simp: fun_eq_iff map_add_def)
  next
    case (token t)
    then show ?thesis
      using save by (auto split: option.splits simp: fun_eq_iff map_add_def)
  qed
  then show "ud_users db' = AList.update (gu_id r) (saved_row r) (ud_users db) \<and> ud_nodes db' = ud_nodes db"
    "map_of (ud_basic db') = (map_of (ud_basic db))(gu_id r := gc_basic (gu_credential r))"
    "map_of (ud_uuid db') = (map_of (ud_uuid db))(gu_id r := gc_uuid (gu_credential r))"
    "map_of (ud_token db') = (map_of (ud_token db))(gu_id r := gc_token (gu_credential r))"
    by simp_all
qed

lemma save_keys:
  assumes "save_go_user fault db r = (db', Inr ())" "user_db_ok db"
  shows "distinct (map fst (ud_users db')) \<and> distinct (map fst (ud_basic db')) \<and> distinct (map fst (ud_uuid db'))
    \<and> distinct (map fst (ud_token db')) \<and> distinct (map snd (ud_uuid db'))"
proof -
  have valid: "user_validate r = Inr ()"
    using assms(1) by (auto simp: save_go_user_def checked_def split: sum.splits)
  note save = assms(1) [unfolded save_go_user_def valid checked_def with_write_transaction_def Let_def]
  have unique: "distinct (map snd (AList.delete k m))" if "distinct (map snd m)" for k :: string and m :: "(string \<times> string) list"
    using that unfolding AList.delete_eq by (rule distinct_map_filter)
  have gone: "(k, x) \<notin> set (AList.delete k m)" for k :: string and x :: string and m
    by (auto simp: AList.delete_eq)
  have gone_basic: "(k, x) \<notin> set (AList.delete k m)" for k :: string and x :: go_basic_credential and m
    by (auto simp: AList.delete_eq)
  from save_tables(1) [OF assms(1)] have "credential_validate (gu_credential r) = Inr ()" ..
  then show ?thesis
  proof (cases rule: valid_credential)
    case (basic b)
    then show ?thesis
      using save assms(2) by (auto split: option.splits simp: user_db_ok_def distinct_update distinct_alist_delete unique gone gone_basic)
  next
    case (uuid u)
    then show ?thesis
      using save assms(2) by (auto split: option.splits if_splits simp: user_db_ok_def distinct_update distinct_alist_delete unique gone gone_basic)
  next
    case (token t)
    then show ?thesis
      using save assms(2) by (auto split: option.splits simp: user_db_ok_def distinct_update distinct_alist_delete unique gone gone_basic)
  qed
qed

lemma saved_user:
  assumes "save_go_user fault db r = (db', Inr ())"
  shows "user_from_row db' (gu_id r, saved_row r) = Inr r"
    and "k \<noteq> gu_id r \<Longrightarrow> user_from_row db' (k, row) = user_from_row db (k, row)"
proof -
  note tables = save_tables [OF assms]
  from tables(1) have "credential_validate (gu_credential r) = Inr ()" ..
  then show "user_from_row db' (gu_id r, saved_row r) = Inr r"
    by (cases rule: valid_credential) (simp_all add: user_from_row_def saved_row_def tables text_or_empty_def)
  show "user_from_row db' (k, row) = user_from_row db (k, row)" if "k \<noteq> gu_id r"
    using that by (simp add: user_from_row_def tables)
qed

lemma save_ok:
  assumes "save_go_user fault db r = (db', Inr ())" "user_db_ok db"
  shows "user_db_ok db'" "user_at db' k = (if k = gu_id r then Some r else user_at db k)"
proof -
  note saved = saved_user [OF assms(1)] and tables = save_tables [OF assms(1)]
  have row: "map_of (ud_users db') k = (if k = gu_id r then Some (saved_row r) else map_of (ud_users db) k)" for k
    using tables(2) by simp
  show "user_at db' k = (if k = gu_id r then Some r else user_at db k)"
    by (cases "k = gu_id r") (simp_all add: user_at_def row saved split: option.split)
  have "is_ok (user_from_row db' (k, x))" if "map_of (ud_users db') k = Some x" for k x
    using that assms(2) by (cases "k = gu_id r") (auto simp: row saved user_db_ok_def is_ok_def)
  then show "user_db_ok db'"
    using save_keys [OF assms] unfolding user_db_ok_def by blast
qed

text \<open>
  C26: a user that was saved is read back exactly as it was given, every other user is read as
  before, and the tables stay consistent; a save that fails, for whatever reason, changes nothing.
\<close>

theorem user_save_get:
  assumes "user_db_ok db" "save_go_user fault db r = (db', res)"
  shows "(case res of
      Inl _ \<Rightarrow> db' = db
    | Inr _ \<Rightarrow> user_db_ok db' \<and> get_go_user None db' (gu_id r) = Inr r
        \<and> (\<forall>uid. uid \<noteq> gu_id r \<longrightarrow> get_go_user None db' uid = get_go_user None db uid))"
proof (cases res)
  case (Inl e)
  then show ?thesis
    using save_fails assms(2) by auto
next
  case (Inr u)
  then have save: "save_go_user fault db r = (db', Inr ())"
    using assms(2) by simp
  note ok = save_ok [OF save assms(1)]
  have "get_go_user None db' uid = get_go_user None db uid" if "uid \<noteq> gu_id r" for uid
  proof (cases "validate_id uid")
    case (Inr _)
    then show ?thesis
      using that ok get_user_ok [OF ok(1), of uid] get_user_ok [OF assms(1), of uid] by simp
  qed (simp add: get_go_user_def)
  then show ?thesis
    using ok Inr save_tables(1) [OF save] get_user_ok [OF ok(1), of "gu_id r"] by simp
qed

definition empty_user_db :: user_db where
  "empty_user_db = \<lparr>ud_users = [], ud_basic = [], ud_uuid = [], ud_token = [], ud_nodes = [], ud_migration_sources = [], ud_migration_dedup = []\<rparr>"

definition alice :: go_user_record where
  "alice = \<lparr>gu_id = ''u1'', gu_name = ''alice'', gu_enabled = True, gu_origin = ''manual'', gu_usage = ''both'',
     gu_credential = \<lparr>gc_kind = ''basic'',
       gc_basic = Some \<lparr>gb_username = Some ''alice'', gb_password = Some ''secret'', gb_allow_any_username = False, gb_allow_any_password = False\<rparr>,
       gc_uuid = None, gc_token = None\<rparr>, gu_updated_at = 1\<rparr>"

definition alice_db :: user_db where
  "alice_db = fst (save_go_user None empty_user_db alice)"

lemma empty_user_db_ok: "user_db_ok empty_user_db"
  by (simp add: user_db_ok_def empty_user_db_def)

lemma save_alice: "save_go_user None empty_user_db alice = (alice_db, Inr ())"
proof -
  have "snd (save_go_user None empty_user_db alice) = Inr ()"
    by code_simp
  then show ?thesis
    by (simp add: alice_db_def prod_eq_iff)
qed

lemma alice_db_ok: "user_db_ok alice_db"
  using save_ok(1) [OF save_alice empty_user_db_ok] .

theorem user_save_get_witness: "get_go_user None alice_db ''u1'' = Inr alice"
  using user_save_get [OF empty_user_db_ok save_alice] by (simp add: alice_def)

end
