(* ===== verification/User_References.thy ===== *)
theory User_References
  imports Users
begin

text \<open>
  Users and the nodes that refer to them: a user that some stored node mentions cannot be deleted,
  so that a deletion never breaks the configuration of a node.
\<close>

subsection \<open>Mentions\<close>

fun mentions :: "string \<Rightarrow> json \<Rightarrow> bool" where
  "mentions uid (JObject fs) \<longleftrightarrow> map_of fs ''userId'' = Some (JString uid) \<or> list_ex (\<lambda>(_, v). mentions uid v) fs"
| "mentions uid (JArray vs) \<longleftrightarrow> list_ex (mentions uid) vs"
| "mentions uid _ \<longleftrightarrow> False"

lemma reference_count_bump: "reference_count (bump u refs) uid = reference_count refs uid + of_bool (u = uid)"
  by (simp add: reference_count_def bump_def split: option.split)

lemma reference_count_foldl:
  assumes "\<And>x refs. x \<in> set xs \<Longrightarrow> reference_count refs uid \<le> reference_count (f refs x) uid \<and> (P x \<longrightarrow> 0 < reference_count (f refs x) uid)"
  shows "reference_count refs uid \<le> reference_count (foldl f refs xs) uid \<and> (list_ex P xs \<longrightarrow> 0 < reference_count (foldl f refs xs) uid)"
  using assms
proof (induction xs arbitrary: refs)
  case (Cons x xs)
  then show ?case
    using Cons.IH [of "f refs x"] Cons.prems [of x refs] by fastforce
qed simp

lemma count_user_ids_mentions:
  assumes "uid \<noteq> []"
  shows "reference_count refs uid \<le> reference_count (count_user_ids v refs) uid
    \<and> (mentions uid v \<longrightarrow> 0 < reference_count (count_user_ids v refs) uid)"
proof (induction v refs rule: count_user_ids.induct)
  case (1 fs refs)
  let ?refs = "case map_of fs ''userId'' of Some (JString u) \<Rightarrow> if u \<noteq> [] then bump u refs else refs | _ \<Rightarrow> refs"
  have start: "reference_count refs uid \<le> reference_count ?refs uid"
    "map_of fs ''userId'' = Some (JString uid) \<Longrightarrow> 0 < reference_count ?refs uid"
    using assms by (auto simp: reference_count_bump split: option.split json.split)
  have "reference_count ?refs uid \<le> reference_count (foldl (\<lambda>refs (_, v). count_user_ids v refs) ?refs fs) uid
      \<and> (list_ex (\<lambda>(_, v). mentions uid v) fs \<longrightarrow> 0 < reference_count (foldl (\<lambda>refs (_, v). count_user_ids v refs) ?refs fs) uid)"
    using 1 by (intro reference_count_foldl) auto
  then show ?case
    using start by fastforce
next
  case (2 vs refs)
  then show ?case
    using reference_count_foldl [of vs uid "\<lambda>refs v. count_user_ids v refs" "mentions uid" refs] by simp
qed simp_all

lemma count_node_users_mentions:
  assumes "uid \<noteq> []"
  shows "count_node_users parse ds refs = Inr out \<Longrightarrow>
    reference_count refs uid \<le> reference_count out uid
    \<and> (\<forall>d \<in> set ds. \<exists>v. parse d = Inr v \<and> (mentions uid v \<longrightarrow> 0 < reference_count out uid))"
proof (induction ds arbitrary: refs)
  case (Cons d ds)
  then obtain v where v: "parse d = Inr v" "count_node_users parse ds (count_user_ids v refs) = Inr out"
    by (auto split: sum.splits)
  then show ?case
    using Cons.IH [OF v(2)] count_user_ids_mentions [OF assms, of refs v] by fastforce
qed simp

lemma apply_mentions:
  assumes "apply_user_reference users p fs = Inr fs'" "(k, v) \<in> set fs'" "mentions uid v"
  shows "(k, v) \<in> set fs"
proof -
  have put: "(k, v) \<in> set m" if "(k, v) \<in> set (put_text key s m)" "mentions uid v" for key s m
  proof (cases s)
    case (Some t)
    then have "(k, v) \<in> insert (key, JString t) (set m)"
      using that(1) bt_insert_set [of key "JString t" m] by (auto simp: put_text_def)
    then show ?thesis
      using that(2) by auto
  qed (use that in \<open>simp add: put_text_def\<close>)
  have ins: "(k, v) \<in> set m" if "(k, v) \<in> set (bt_insert key (JString t) m)" "mentions uid v" for key t m
    using put [of key "Some t" m] that by (simp add: put_text_def)
  have del: "(k, v) \<in> set m" if "(k, v) \<in> set (AList.delete key m)" for key m
    using that set_delete_subset [of key m] by blast
  show ?thesis
    using assms by (auto simp: apply_user_reference_def apply_go_user_credential_def Let_def rbind_eq_Inr_iff
        dest!: put ins del split: option.splits if_splits)
qed

lemma apply_agree:
  assumes "\<And>u. u \<noteq> uid \<Longrightarrow> map_of users u = map_of users' u" "map_of fs ''userId'' \<noteq> Some (JString uid)"
  shows "apply_user_reference users p fs = apply_user_reference users' p fs"
proof (cases "Option.bind (map_of fs ''userId'') as_str")
  case (Some u)
  then have "u \<noteq> uid"
    using assms(2) by (auto simp: Option.bind_eq_Some_conv elim!: as_str.elims)
  then show ?thesis
    using assms(1) [of u] Some by (simp add: apply_user_reference_def)
qed (simp add: apply_user_reference_def)

lemma inject_agree:
  assumes agree: "\<And>u. u \<noteq> uid \<Longrightarrow> map_of users u = map_of users' u"
  shows "\<not> mentions uid v \<Longrightarrow> inject_go_user_credentials users p v = inject_go_user_credentials users' p v"
    and "\<not> list_ex (\<lambda>(_, v). mentions uid v) fs \<Longrightarrow> inject_fields users p fs = inject_fields users' p fs"
    and "\<not> list_ex (mentions uid) vs \<Longrightarrow> inject_values users p vs = inject_values users' p vs"
  using agree
proof (induction users p v and users p fs and users p vs rule: inject_go_user_credentials_inject_fields_inject_values.induct)
  case (2 users inherited fs)
  let ?p = "or_else (or_else (Option.bind (map_of fs ''type'') as_str) inherited) (Option.bind (map_of fs ''protocol'') as_str)"
  have same: "apply_user_reference users ?p fs = apply_user_reference users' ?p fs"
    using 2(2,3) by (intro apply_agree) auto
  have fields: "inject_fields users ?p fs' = inject_fields users' ?p fs'" if "apply_user_reference users ?p fs = Inr fs'" for fs'
  proof -
    have "\<not> list_ex (\<lambda>(_, v). mentions uid v) fs'"
      using apply_mentions [OF that] 2(2) by (fastforce simp: list_ex_iff)
    then show ?thesis
      using 2(1) [OF refl that] 2(3) by blast
  qed
  show ?case
    unfolding inject_go_user_credentials.simps Let_def
    by (rule rbind_cong [OF same]) (use fields same in simp)
qed (auto cong: rbind_cong)

subsection \<open>Deleting\<close>

lemma delete_success:
  assumes "delete_go_user parse f1 f2 f3 db uid = (db', Inr ())"
  obtains refs where "validate_id uid = Inr ()" "count_node_users parse (ud_nodes db) [] = Inr refs" "reference_count refs uid = 0"
    "db' = sql_delete_user uid db"
  using assms by (auto simp: delete_go_user_def checked_def with_write_transaction_def go_user_outbound_references_def
      split: sum.splits option.splits if_splits prod.splits)

lemma delete_fails: "delete_go_user parse f1 f2 f3 db uid = (db', Inl e) \<Longrightarrow> db' = db"
  by (auto simp: delete_go_user_def checked_def with_write_transaction_def split: sum.splits option.splits prod.splits)

lemma user_from_row_deleted: "k \<noteq> uid \<Longrightarrow> user_from_row (sql_delete_user uid db) (k, r) = user_from_row db (k, r)"
  by (simp add: user_from_row_def sql_delete_user_def)

lemma user_at_deleted: "user_at (sql_delete_user uid db) k = (if k = uid then None else user_at db k)"
  using user_from_row_deleted [of k uid db] by (auto simp: user_at_def sql_delete_user_def split: option.split)

lemma delete_ok:
  assumes "user_db_ok db"
  shows "user_db_ok (sql_delete_user uid db)"
proof -
  have "is_ok (user_from_row (sql_delete_user uid db) (k, r))" if "map_of (ud_users (sql_delete_user uid db)) k = Some r" for k r
    using that assms by (cases "k = uid") (auto simp: user_from_row_deleted user_db_ok_def, auto simp: sql_delete_user_def)
  moreover have "distinct (map snd (AList.delete uid (ud_uuid db)))"
    using assms unfolding user_db_ok_def AList.delete_eq by (intro distinct_map_filter) blast
  ultimately show ?thesis
    using assms by (auto simp: user_db_ok_def sql_delete_user_def distinct_alist_delete)
qed

lemma map_of_rev_distinct: "distinct (map fst xs) \<Longrightarrow> map_of (rev xs) = map_of xs"
  by (subst map_of_inject_set) (simp_all add: rev_map [symmetric])

lemma users_by_id_lookup:
  assumes "user_db_ok db" "list_go_user_records None db = Inr records"
  shows "map_of (users_by_id records) k = user_at db k"
proof -
  have d: "distinct (map fst (ud_users db))"
    using assms(1) by (simp add: user_db_ok_def)
  let ?at = "\<lambda>(k, r). (k, the (user_at db k))"
  have "(gu_id (the (user_at db k)), the (user_at db k)) = ?at (k, r)" if "(k, r) \<in> set (sorted_rows db)" for k r
    using user_at_Some [OF assms(1), of k] that map_of_sorted_rows [OF d] d by (cases "user_at db k") auto
  then have "map (\<lambda>u. (gu_id u, u)) records = map ?at (sorted_rows db)"
    using list_users_ok [OF assms(1)] assms(2) by auto
  moreover have "distinct (map fst (map ?at (sorted_rows db)))"
    using map_of_sorted_rows(1) [OF d] by (simp add: case_prod_unfold comp_def)
  ultimately have "map_of (users_by_id records) k = map_of (map ?at (sorted_rows db)) k"
    by (simp only: users_by_id_def map_of_rev_distinct)
  also have "\<dots> = user_at db k"
  proof (cases "map_of (ud_users db) k")
    case None
    then show ?thesis
      using user_at_Some(1) [OF assms(1), of k] map_of_sorted_rows(3) [OF d] by (force simp: map_of_eq_None_iff)
  next
    case (Some r)
    then have "(k, the (user_at db k)) \<in> set (map ?at (sorted_rows db))"
      using map_of_sorted_rows(3) [OF d] by (force dest: map_of_SomeD)
    then show ?thesis
      using user_at_Some(1) [OF assms(1), of k] Some \<open>distinct (map fst (map ?at (sorted_rows db)))\<close>
      by (auto simp only: map_of_eq_Some_iff option.sel)
  qed
  finally show ?thesis .
qed

text \<open>
  C15: a deletion that succeeds removes the user and no other, and every stored node is resolved
  exactly as before, errors included: no node loses its credentials. A deletion that fails changes
  nothing.
\<close>

theorem user_delete_keeps_nodes:
  assumes "user_db_ok db" "delete_go_user parse f1 f2 f3 db uid = (db', res)"
  shows "case res of
      Inl _ \<Rightarrow> db' = db
    | Inr _ \<Rightarrow> user_db_ok db' \<and> (\<forall>k. user_at db' k = (if k = uid then None else user_at db k))
        \<and> (\<forall>nodes. gn_data_json ` set nodes \<subseteq> set (ud_nodes db) \<longrightarrow>
             resolve_go_node_runtime_records parse print None db' nodes = resolve_go_node_runtime_records parse print None db nodes)"
proof (cases res)
  case (Inl e)
  then show ?thesis
    using delete_fails assms(2) by auto
next
  case (Inr u)
  then obtain refs where del: "validate_id uid = Inr ()" "count_node_users parse (ud_nodes db) [] = Inr refs"
      "reference_count refs uid = 0" "db' = sql_delete_user uid db"
    using assms(2) by (auto elim: delete_success)
  have ok: "user_db_ok db'"
    using delete_ok [OF assms(1)] del(4) by simp
  have "uid \<noteq> []"
    using del(1) by (auto simp: validate_id_def valid_text_def split: if_splits)
  then have quiet: "\<exists>v. parse d = Inr v \<and> \<not> mentions uid v" if "d \<in> set (ud_nodes db)" for d
    using count_node_users_mentions [of uid parse "ud_nodes db" "[]" refs] del(2,3) that by auto
  obtain records records' where lists: "list_go_user_records None db = Inr records" "list_go_user_records None db' = Inr records'"
    using list_users_ok assms(1) ok by blast
  have agree: "map_of (users_by_id records) k = map_of (users_by_id records') k" if "k \<noteq> uid" for k
    using users_by_id_lookup [OF assms(1) lists(1)] users_by_id_lookup [OF ok lists(2)] that del(4) by (simp add: user_at_deleted)
  have "resolve_go_node_runtime_record parse print (users_by_id records') n = resolve_go_node_runtime_record parse print (users_by_id records) n"
    if "gn_data_json n \<in> set (ud_nodes db)" for n
    using quiet [OF that] inject_agree(1) [of uid, OF agree] by (auto simp: resolve_go_node_runtime_record_def)
  then have "rmap (resolve_go_node_runtime_record parse print (users_by_id records')) nodes =
      rmap (resolve_go_node_runtime_record parse print (users_by_id records)) nodes"
    if "gn_data_json ` set nodes \<subseteq> set (ud_nodes db)" for nodes
    using that by (induction nodes) auto
  then show ?thesis
    using Inr ok del(4) lists by (simp add: resolve_go_node_runtime_records_def user_at_deleted)
qed

theorem user_delete_keeps_nodes_witness:
  "user_at (fst (delete_go_user (\<lambda>_. Inr JNull) None None None (alice_db\<lparr>ud_nodes := [[1]]\<rparr>) ''u1'')) ''u1'' = None"
proof -
  let ?db = "alice_db\<lparr>ud_nodes := [[1]]\<rparr>"
  have "user_from_row ?db x = user_from_row alice_db x" for x
    by (cases x) (simp add: user_from_row_def)
  then have "user_db_ok ?db"
    using alice_db_ok by (simp add: user_db_ok_def)
  have "snd (delete_go_user (\<lambda>_. Inr JNull) None None None ?db ''u1'') = Inr ()"
    by code_simp
  then have "delete_go_user (\<lambda>_. Inr JNull) None None None ?db ''u1'' =
      (fst (delete_go_user (\<lambda>_. Inr JNull) None None None ?db ''u1''), Inr ())"
    by (simp add: prod_eq_iff)
  from user_delete_keeps_nodes [OF \<open>user_db_ok ?db\<close> this] show ?thesis
    by simp
qed

end
