(* ===== verification/Inbound_Auth.thy ===== *)
theory Inbound_Auth
  imports User_References Socks5
begin

text \<open>
  Who may use an inbound, \<open>runtime/src/plane/inbounds/auth.rs\<close>: a snapshot of the users with a
  basic credential that are enabled for inbounds, and the comparison of what a client presents with
  it. The comparison of secrets is a loop over the longer of the two.
\<close>

record inbound_basic_user =
  ib_username :: "byte list option"
  ib_password :: "byte list option"
  ib_allow_any_username :: bool
  ib_allow_any_password :: bool

definition inbound_user_from :: "go_basic_credential \<Rightarrow> inbound_basic_user" where
  "inbound_user_from c =
     \<lparr>ib_username = map_option as_bytes (gb_username c), ib_password = map_option as_bytes (gb_password c),
      ib_allow_any_username = gb_allow_any_username c, ib_allow_any_password = gb_allow_any_password c\<rparr>"

definition inbound_auth_from_users :: "go_user_record list \<Rightarrow> inbound_basic_user list" where
  "inbound_auth_from_users users =
     List.map_filter (\<lambda>u. map_option inbound_user_from (gc_basic (gu_credential u)))
       (filter (\<lambda>u. gu_enabled u \<and> gu_usage u \<in> {''inbound'', ''both''}) (sort_key (\<lambda>u. as_bytes (gu_id u)) users))"

definition inbound_is_active :: "inbound_basic_user \<Rightarrow> bool" where
  "inbound_is_active u \<longleftrightarrow> (ib_username u \<noteq> None \<or> ib_allow_any_username u) \<and> (ib_password u \<noteq> None \<or> ib_allow_any_password u)"

definition has_basic_users :: "inbound_basic_user list \<Rightarrow> bool" where
  "has_basic_users users = list_ex inbound_is_active users"

definition has_unrepresentable_password :: "inbound_basic_user list \<Rightarrow> bool" where
  "has_unrepresentable_password users = list_ex ib_allow_any_password (filter inbound_is_active users)"

definition byte_at :: "byte list \<Rightarrow> nat \<Rightarrow> nat" where
  "byte_at bs i = (if i < length bs then unat (bs ! i) else 0)"

definition inbound_constant_time_eq :: "byte list \<Rightarrow> byte list \<Rightarrow> bool" where
  "inbound_constant_time_eq left right \<longleftrightarrow>
     foldl (\<lambda>difference i. difference OR (byte_at left i XOR byte_at right i)) (length left XOR length right)
       [0..<max (length left) (length right)] = 0"

definition matches_field :: "byte list \<Rightarrow> byte list option \<Rightarrow> bool \<Rightarrow> bool" where
  "matches_field actual expected allow_any \<longleftrightarrow>
     allow_any \<or> (case expected of Some e \<Rightarrow> inbound_constant_time_eq actual e | None \<Rightarrow> False)"

definition authenticate_basic :: "inbound_basic_user list \<Rightarrow> byte list \<Rightarrow> byte list \<Rightarrow> bool" where
  "authenticate_basic users username password \<longleftrightarrow>
     list_ex (\<lambda>u. matches_field username (ib_username u) (ib_allow_any_username u)
       \<and> matches_field password (ib_password u) (ib_allow_any_password u)) users"

definition inbound_passwords :: "inbound_basic_user list \<Rightarrow> byte list list" where
  "inbound_passwords users = List.map_filter ib_password (filter (\<lambda>u. ib_password u \<noteq> None) users)"

subsection \<open>Comparison\<close>

lemma xor_eq_0_nat: "a XOR b = 0 \<longleftrightarrow> a = (b :: nat)"
  by (auto simp: bit_eq_iff bit_xor_iff)

lemma or_eq_0_nat: "a OR b = 0 \<longleftrightarrow> a = 0 \<and> b = (0 :: nat)"
  by (auto simp: bit_eq_iff bit_or_iff)

lemma foldl_or_eq_0: "foldl (\<lambda>d i. d OR f i) d xs = 0 \<longleftrightarrow> d = 0 \<and> (\<forall>i \<in> set xs. f i = (0 :: nat))"
  by (induction xs arbitrary: d) (auto simp: or_eq_0_nat)

lemma inbound_constant_time_eq_iff [simp]: "inbound_constant_time_eq l r \<longleftrightarrow> l = r"
proof
  assume "inbound_constant_time_eq l r"
  then have "length l = length r" "\<forall>i < length l. byte_at l i = byte_at r i"
    by (auto simp: inbound_constant_time_eq_def foldl_or_eq_0 xor_eq_0_nat)
  then show "l = r"
    by (intro nth_equalityI) (auto simp: byte_at_def word_unat_eq_iff)
next
  assume "l = r"
  then show "inbound_constant_time_eq l r"
    unfolding inbound_constant_time_eq_def foldl_or_eq_0 xor_eq_0_nat by simp
qed

lemma matches_field_iff [simp]: "matches_field a e any \<longleftrightarrow> any \<or> e = Some a"
  by (auto simp: matches_field_def split: option.split)

subsection \<open>Admission\<close>

text \<open>The users that admit a client that presents a name and a password.\<close>

definition admits :: "go_user_record \<Rightarrow> byte list \<Rightarrow> byte list \<Rightarrow> bool" where
  "admits u username password \<longleftrightarrow> gu_enabled u \<and> gu_usage u \<in> {''inbound'', ''both''}
     \<and> (\<exists>c. gc_basic (gu_credential u) = Some c
          \<and> (gb_allow_any_username c \<or> (\<exists>s. gb_username c = Some s \<and> as_bytes s = username))
          \<and> (gb_allow_any_password c \<or> (\<exists>s. gb_password c = Some s \<and> as_bytes s = password)))"

lemma authenticate_basic_admits:
  "authenticate_basic (inbound_auth_from_users users) username password \<longleftrightarrow> (\<exists>u \<in> set users. admits u username password)"
  by (auto simp: authenticate_basic_def inbound_auth_from_users_def inbound_user_from_def admits_def list_ex_iff List.map_filter_def
      split: option.splits)

lemma talk_bind_success:
  assumes "talk_bind m f input = (out, Inr (y, rest))"
  obtains w x mid w' where "m input = (w, Inr (x, mid))" "f x mid = (w', Inr (y, rest))"
  using assms by (auto simp: talk_bind_def split: prod.splits sum.splits)

lemma talk_read_success:
  "talk_read n input = (w, Inr (x, mid)) \<Longrightarrow> input = x @ mid \<and> length x = n"
  by (auto simp: talk_read_def read_exact_def split: if_splits)

text \<open>The sub-negotiation of a name and a password (RFC 1929).\<close>

definition presents :: "byte list \<Rightarrow> byte list \<Rightarrow> byte list" where
  "presents username password = [1, of_nat (length username)] @ username @ [of_nat (length password)] @ password"

lemma presents_read:
  assumes "talk_read 2 input = (w1, Inr (h, m1))" "h ! 0 = 1" "talk_read (unat (h ! 1)) m1 = (w2, Inr (u, m2))"
    "talk_read 1 m2 = (w3, Inr (l, m3))" "talk_read (unat (hd l)) m3 = (w4, Inr (p, m4))"
  shows "input = presents u p @ m4"
proof -
  have h: "length h = 2" and l: "length l = 1" and lens: "length u = unat (h ! 1)" "length p = unat (hd l)"
    and input: "input = h @ u @ l @ p @ m4"
    using assms(1,3,4,5) [THEN talk_read_success] by simp_all
  have "h = [h ! 0, h ! 1]" "l = [hd l]"
    using h l by (auto simp: list_eq_iff_nth_eq less_2_cases_iff hd_conv_nth nth_Cons')
  then show ?thesis
    using assms(2) lens input by (simp add: presents_def)
qed

lemma auth_exchange_sound:
  assumes "auth_exchange authenticate input = (out, Inr ((), rest))"
  shows "\<exists>username password. authenticate username password \<and> input = presents username password @ rest"
proof -
  have "\<exists>w1 h m1 w2 u m2 w3 l m3 w4 p. talk_read 2 input = (w1, Inr (h, m1)) \<and> h ! 0 = 1 \<and> talk_read (unat (h ! 1)) m1 = (w2, Inr (u, m2))
      \<and> talk_read 1 m2 = (w3, Inr (l, m3)) \<and> talk_read (unat (hd l)) m3 = (w4, Inr (p, rest)) \<and> authenticate u p"
    using assms unfolding auth_exchange_def
    by (auto simp: Let_def talk_fail_def talk_write_def talk_return_def elim!: talk_bind_success split: if_splits)
  then show ?thesis
    using presents_read by metis
qed

lemma server_handshake_sound:
  assumes "server_handshake show_utf8 network True authenticate input = (out, Inr (request, rest))"
  shows "\<exists>greeting username password later. authenticate username password \<and> input = greeting @ presents username password @ later"
proof -
  obtain g m1 ms m2 w m3 where "input = g @ m1" "m1 = ms @ m2" "auth_exchange authenticate m2 = (w, Inr ((), m3))"
    using assms unfolding server_handshake_def
    by (auto simp: Let_def talk_fail_def talk_write_def elim!: talk_bind_success dest!: talk_read_success split: if_splits)
  then show ?thesis
    using auth_exchange_sound [of authenticate m2 w m3] by (metis append.assoc)
qed

text \<open>
  C18: credentials are accepted exactly when a stored user that is enabled for inbounds admits
  them, by its name and password or by allowing any; a SOCKS5 server that asks for credentials
  lets a client pass only when it presented, behind its greeting, credentials of such a user.
\<close>

theorem inbound_auth_exact:
  assumes "user_db_ok db" "list_go_user_records None db = Inr users"
  shows "(authenticate_basic (inbound_auth_from_users users) username password \<longleftrightarrow>
        (\<exists>uid u. user_at db uid = Some u \<and> admits u username password))
    \<and> (server_handshake show_utf8 network True (authenticate_basic (inbound_auth_from_users users)) input = (out, Inr (request, rest)) \<longrightarrow>
        (\<exists>greeting later uid u username password. input = greeting @ presents username password @ later
          \<and> user_at db uid = Some u \<and> admits u username password))"
proof -
  have "u \<in> set users \<longleftrightarrow> user_at db (gu_id u) = Some u" for u
  proof -
    have d: "distinct (map fst (ud_users db))"
      using assms(1) by (simp add: user_db_ok_def)
    have users: "set users = (\<lambda>(k, r). the (user_at db k)) ` set (ud_users db)"
      using list_users_ok [OF assms(1)] assms(2) map_of_sorted_rows(3) [OF d] by simp
    have at: "user_at db k = Some (the (user_at db k)) \<and> gu_id (the (user_at db k)) = k" if "(k, r) \<in> set (ud_users db)" for k r
      using user_at_Some [OF assms(1), of k] that d by (cases "user_at db k") auto
    show ?thesis
    proof
      assume "u \<in> set users"
      then show "user_at db (gu_id u) = Some u"
        using users at by fastforce
    next
      assume u: "user_at db (gu_id u) = Some u"
      then obtain r where "map_of (ud_users db) (gu_id u) = Some r"
        using user_at_Some(1) [OF assms(1), of "gu_id u"] by fastforce
      then show "u \<in> set users"
        using users u by (force dest: map_of_SomeD)
    qed
  qed
  then have "(\<exists>u \<in> set users. admits u name pw) \<longleftrightarrow> (\<exists>uid u. user_at db uid = Some u \<and> admits u name pw)" for name pw
    using user_at_Some(2) [OF assms(1)] by metis
  then show ?thesis
    using server_handshake_sound [of show_utf8 network "authenticate_basic (inbound_auth_from_users users)" input out request rest]
    by (simp add: authenticate_basic_admits) blast
qed

theorem inbound_auth_exact_witness:
  "authenticate_basic (inbound_auth_from_users [alice]) (as_bytes ''alice'') (as_bytes ''secret'')
   \<and> (\<exists>uid u. user_at alice_db uid = Some u \<and> admits u (as_bytes ''alice'') (as_bytes ''secret''))"
proof -
  have "list_go_user_records None alice_db = Inr [alice]"
    by code_simp
  from inbound_auth_exact [OF alice_db_ok this, of "as_bytes ''alice''" "as_bytes ''secret''"] show ?thesis
    by (auto simp: authenticate_basic_admits admits_def alice_def)
qed

end
