(* ===== verification/Node_Set.thy ===== *)
theory Node_Set
  imports Route_Rules
begin

text \<open>
  Node tags, \<open>runtime/src/plane/proxy_adapters/node_set.rs\<close>: a tag stands for a set of nodes, of
  which every flow starts at the next one and falls over to the others. What a member answers to a
  flow is an argument, as is the random number drawn when the set is built; the ticket counter is
  a 64-bit atomic and wraps.
\<close>

subsection \<open>The set\<close>

datatype node_selection_strategy = RandomStart | RoundRobin

record 'p node_set =
  ns_members :: "'p list"
  ns_cursor :: u64
  ns_strategy :: node_selection_strategy
  ns_random_offset :: nat

definition node_set_new :: "(nat \<Rightarrow> nat) \<Rightarrow> 'p list \<Rightarrow> node_selection_strategy \<Rightarrow> 'p node_set result" where
  "node_set_new random_below members strategy =
     (if members = [] then Inl (error_invalid ''node tag has no usable members'')
      else Inr \<lparr>ns_members = members, ns_cursor = 0, ns_strategy = strategy,
                ns_random_offset = (case strategy of RandomStart \<Rightarrow> random_below (length members) | RoundRobin \<Rightarrow> 0)\<rparr>)"

definition starting_index :: "nat \<Rightarrow> nat \<Rightarrow> node_selection_strategy \<Rightarrow> nat \<Rightarrow> nat" where
  "starting_index ticket len strategy random_offset =
     (case strategy of
        RoundRobin \<Rightarrow> ticket mod len
      | RandomStart \<Rightarrow> (ticket mod len + random_offset) mod len)"

definition ordered_members :: "'p node_set \<Rightarrow> 'p node_set \<times> 'p list" where
  "ordered_members s =
     (let len = length (ns_members s);
          start = starting_index (unat (ns_cursor s)) len (ns_strategy s) (ns_random_offset s)
      in (s\<lparr>ns_cursor := ns_cursor s + 1\<rparr>, map (\<lambda>offset. ns_members s ! ((start + offset) mod len)) [0..<len]))"

fun try_members :: "('p \<Rightarrow> 'r result) \<Rightarrow> error option \<Rightarrow> error \<Rightarrow> 'p list \<Rightarrow> 'r result" where
  "try_members attempt last_error failed [] = Inl (case last_error of Some e \<Rightarrow> e | None \<Rightarrow> failed)"
| "try_members attempt last_error failed (m # ms) =
     (case attempt m of
        Inr r \<Rightarrow> Inr r
      | Inl e \<Rightarrow> try_members attempt (Some e) failed ms)"

definition node_set_connect :: "('p \<Rightarrow> 'r result) \<Rightarrow> 'p node_set \<Rightarrow> 'p node_set \<times> 'r result" where
  "node_set_connect connect s =
     (case ordered_members s of (s, ms) \<Rightarrow> (s, try_members connect None (error_invalid ''node tag proxy failed'') ms))"

definition node_set_open_datagram :: "('p \<Rightarrow> 'r result) \<Rightarrow> 'p node_set \<Rightarrow> 'p node_set \<times> 'r result" where
  "node_set_open_datagram open_datagram s =
     (case ordered_members s of (s, ms) \<Rightarrow> (s, try_members open_datagram None (error_invalid ''node tag datagram failed'') ms))"

definition node_set_ping :: "('p \<Rightarrow> nat result) \<Rightarrow> 'p node_set \<Rightarrow> 'p node_set \<times> nat result" where
  "node_set_ping ping s =
     (case ordered_members s of (s, ms) \<Rightarrow> (s, try_members ping None (error_invalid ''node tag ping failed'') ms))"

definition node_set_close :: "('p \<Rightarrow> unit result) \<Rightarrow> 'p node_set \<Rightarrow> unit result" where
  "node_set_close close s =
     (case foldl (\<lambda>last_error m. case close m of Inl e \<Rightarrow> Some e | Inr _ \<Rightarrow> last_error) None (ns_members s) of
        None \<Rightarrow> Inr ()
      | Some e \<Rightarrow> Inl e)"

subsection \<open>Definitions of tags\<close>

record go_node_tag_record =
  nt_id :: string
  nt_name :: string
  nt_members_json :: "byte list"
  nt_updated_at :: int

record node_tag_definition =
  td_kind :: string
  td_targets :: "string list"
  td_strategy :: node_selection_strategy

definition tag_kind :: "(string \<times> json) list \<Rightarrow> string" where
  "tag_kind object =
     to_ascii_lowercase (case Option.bind (map_of object ''type'') as_str of
       Some kind \<Rightarrow> if trim kind \<noteq> [] then kind else ''node''
     | None \<Rightarrow> ''node'')"

definition tag_targets :: "string \<Rightarrow> (string \<times> json) list \<Rightarrow> string list result" where
  "tag_targets name object =
     (case map_of object ''hash'' of
        Some (JArray vs) \<Rightarrow> Inr (filter (\<lambda>t. t \<noteq> []) (map trim (List.map_filter as_str vs)))
      | Some (JString v) \<Rightarrow>
          if trim v \<noteq> [] then Inr [trim v]
          else Inl (error_new InvalidInput (''node tag '' @ debug_str name @ '' hash must be a string or array''))
      | Some _ \<Rightarrow> Inl (error_new InvalidInput (''node tag '' @ debug_str name @ '' hash must be a string or array''))
      | None \<Rightarrow> Inr [])"

definition tag_strategy :: "(string \<times> json) list \<Rightarrow> node_selection_strategy" where
  "tag_strategy object =
     (let strategy = (case Option.bind (or_else (map_of object ''strategy'') (map_of object ''mode'')) as_str of Some t \<Rightarrow> t | None \<Rightarrow> [])
      in if eq_ignore_ascii_case strategy ''round_robin'' \<or> eq_ignore_ascii_case strategy ''round-robin''
           \<or> eq_ignore_ascii_case strategy ''roundrobin''
         then RoundRobin else RandomStart)"

definition parse_node_tag :: "(byte list \<Rightarrow> string + json) \<Rightarrow> go_node_tag_record \<Rightarrow> node_tag_definition result" where
  "parse_node_tag parse r =
     (case parse (nt_members_json r) of
        Inl e \<Rightarrow> Inl (error_new InvalidInput (''invalid node tag '' @ debug_str (nt_name r) @ '' JSON: '' @ e))
      | Inr (JObject object) \<Rightarrow>
          (let kind = tag_kind object in
           if kind \<noteq> ''node'' \<and> kind \<noteq> ''mirror''
           then Inl (error_new InvalidInput (''unknown node tag '' @ debug_str (nt_name r) @ '' type '' @ debug_str kind))
           else rbind (tag_targets (nt_name r) object) (\<lambda>targets.
             Inr \<lparr>td_kind = kind, td_targets = targets, td_strategy = tag_strategy object\<rparr>))
      | Inr _ \<Rightarrow> Inl (error_new InvalidInput (''node tag '' @ debug_str (nt_name r) @ '' must be a JSON object'')))"

function resolve_node_tag_targets :: "string \<Rightarrow> (string \<times> node_tag_definition) list \<Rightarrow> string list \<Rightarrow> string list" where
  "resolve_node_tag_targets tag definitions visiting =
     (case map_of definitions tag of
        None \<Rightarrow> []
      | Some d \<Rightarrow>
          if tag \<in> set visiting then []
          else if td_kind d = ''mirror'' then
            (case td_targets d of [] \<Rightarrow> [] | t # _ \<Rightarrow> resolve_node_tag_targets t definitions (tag # visiting))
          else td_targets d)"
  by pat_completeness auto
termination
proof (relation "measure (\<lambda>(_, definitions, visiting). card (fst ` set definitions - set visiting))")
  fix tag visiting d t and ts :: "string list" and definitions :: "(string \<times> node_tag_definition) list"
  assume "map_of definitions tag = Some d" "tag \<notin> set visiting"
  then show "((t, definitions, tag # visiting), tag, definitions, visiting)
      \<in> measure (\<lambda>(_, definitions, visiting). card (fst ` set definitions - set visiting))"
    by (auto dest!: map_of_Some_key intro!: psubset_card_mono)
qed simp

declare resolve_node_tag_targets.simps [simp del]

subsection \<open>Fail-over and fairness\<close>

lemma try_members_spec:
  "try_members attempt le failed ms =
     (case find (\<lambda>m. is_ok (attempt m)) ms of
        Some m \<Rightarrow> attempt m
      | None \<Rightarrow> (case rev ms of [] \<Rightarrow> Inl (case le of Some e \<Rightarrow> e | None \<Rightarrow> failed) | m # _ \<Rightarrow> Inl (projl (attempt m))))"
proof (induction ms arbitrary: le)
  case (Cons m ms)
  then show ?case
    by (cases "attempt m") (auto simp: is_ok_def split: option.split list.split)
qed simp

lemma find_satisfies: "find P xs = Some x \<Longrightarrow> x \<in> set xs \<and> P x"
  by (induction xs) (auto split: if_splits)

lemma ordered_rotate:
  "snd (ordered_members s) =
     rotate (starting_index (unat (ns_cursor s)) (length (ns_members s)) (ns_strategy s) (ns_random_offset s)) (ns_members s)"
  by (rule nth_equalityI) (simp_all add: ordered_members_def Let_def nth_rotate)

lemma starting_index_mod:
  "starting_index ticket n strategy k = (ticket + (case strategy of RandomStart \<Rightarrow> k | RoundRobin \<Rightarrow> 0)) mod n"
  by (simp add: starting_index_def mod_add_left_eq split: node_selection_strategy.split)

lemma ticket_value: "n < 2 ^ 64 \<Longrightarrow> unat (of_nat n :: u64) = n"
  by (simp add: unat_of_nat)

lemma first_member:
  assumes "ns_members s \<noteq> []"
  shows "hd (snd (ordered_members s)) =
    ns_members s ! starting_index (unat (ns_cursor s)) (length (ns_members s)) (ns_strategy s) (ns_random_offset s)"
  using assms by (simp add: ordered_rotate hd_rotate_conv_nth starting_index_mod)



end
