(* ===== verification/Loopback.thy ===== *)
theory Loopback
  imports Types
begin

text \<open>
  Protection against loops, \<open>runtime/src/support/loopback.rs\<close>: a flow is blocked when it would reach
  the listener it came from, when it comes from this very process, or when its source is the local
  end of an outbound connection. The last are counted, one count for every guard alive.
\<close>

subsection \<open>Paths\<close>

text \<open>
  Two paths are equal when their components are, on Unix: whether they start at the root, and the
  names between slashes without the empty ones and without dots, except a dot that comes first.
\<close>

definition path_components :: "string \<Rightarrow> bool \<times> string list" where
  "path_components s =
     (let parts = split_on (CHR ''/'') s in
      (s \<noteq> [] \<and> hd s = CHR ''/'',
       (if hd parts = ''.'' then [''.''] else []) @ filter (\<lambda>p. p \<noteq> [] \<and> p \<noteq> ''.'') parts))"

subsection \<open>The detector\<close>

record loopback_detector =
  ld_process_path :: "string option"
  ld_process_id :: u32
  ld_connections :: "(socket_addr \<times> nat) list"

definition loopback_detector_new :: "string option \<Rightarrow> u32 \<Rightarrow> loopback_detector" where
  "loopback_detector_new current_exe process_id =
     \<lparr>ld_process_path = current_exe, ld_process_id = process_id, ld_connections = []\<rparr>"

definition loopback_cycle :: "flow_context \<Rightarrow> bool" where
  "loopback_cycle ctx =
     (case Option.bind (fc_local_addr ctx) endpoint_addr of
        None \<Rightarrow> False
      | Some local_addr \<Rightarrow>
          (case endpoint_addr (fc_destination ctx) of
             None \<Rightarrow> False
           | Some destination \<Rightarrow>
               (case fc_local_addr ctx of
                  None \<Rightarrow> False
                | Some e \<Rightarrow> endpoint_network e = endpoint_network (fc_destination ctx) \<and> local_addr = destination)))"

definition process_loopback :: "loopback_detector \<Rightarrow> flow_context \<Rightarrow> bool" where
  "process_loopback det ctx =
     (case ld_process_path det of
        None \<Rightarrow> False
      | Some expected \<Rightarrow>
          (case fc_process ctx of
             None \<Rightarrow> False
           | Some p \<Rightarrow>
               (let process = (case strip_suffix '' (deleted)'' p of Some q \<Rightarrow> q | None \<Rightarrow> p) in
                if path_components process \<noteq> path_components expected then False
                else if (case fc_process_id ctx of Some pid \<Rightarrow> pid \<noteq> 0 \<and> pid \<noteq> ld_process_id det | None \<Rightarrow> False) then False
                else if fc_fake_ip ctx = None \<and> fc_hosts ctx = None \<and> endpoint_host (effective_destination ctx) \<noteq> None then False
                else True)))"

definition connection_loopback :: "loopback_detector \<Rightarrow> flow_context \<Rightarrow> bool" where
  "connection_loopback det ctx =
     (case Option.bind (fc_source ctx) endpoint_addr of
        None \<Rightarrow> False
      | Some source \<Rightarrow> map_of (ld_connections det) source \<noteq> None)"

definition loopback_reason :: "loopback_detector \<Rightarrow> flow_context \<Rightarrow> string option" where
  "loopback_reason det ctx =
     (if loopback_cycle ctx then Some ''loopback cycle''
      else if process_loopback det ctx then Some ''loopback process''
      else if connection_loopback det ctx then Some ''loopback connection''
      else None)"

definition track_connection :: "loopback_detector \<Rightarrow> socket_addr \<Rightarrow> loopback_detector" where
  "track_connection det local_addr =
     det\<lparr>ld_connections := AList.update local_addr
        ((case map_of (ld_connections det) local_addr of Some n \<Rightarrow> n | None \<Rightarrow> 0) + 1) (ld_connections det)\<rparr>"

text \<open>Dropping a guard.\<close>

definition untrack_connection :: "loopback_detector \<Rightarrow> socket_addr \<Rightarrow> loopback_detector" where
  "untrack_connection det local_addr =
     (case map_of (ld_connections det) local_addr of
        None \<Rightarrow> det
      | Some n \<Rightarrow>
          if n - 1 = 0 then det\<lparr>ld_connections := AList.delete local_addr (ld_connections det)\<rparr>
          else det\<lparr>ld_connections := AList.update local_addr (n - 1) (ld_connections det)\<rparr>)"

subsection \<open>Guards\<close>

text \<open>A run of the detector with the guards that are alive; a guard is dropped once.\<close>

inductive guarded :: "string option \<Rightarrow> u32 \<Rightarrow> loopback_detector \<Rightarrow> socket_addr list \<Rightarrow> bool" for exe pid where
  guarded_new: "guarded exe pid (loopback_detector_new exe pid) []"
| guarded_track: "guarded exe pid det live \<Longrightarrow> guarded exe pid (track_connection det a) (a # live)"
| guarded_drop: "guarded exe pid det live \<Longrightarrow> a \<in> set live \<Longrightarrow> guarded exe pid (untrack_connection det a) (remove1 a live)"

definition counts :: "loopback_detector \<Rightarrow> socket_addr list \<Rightarrow> bool" where
  "counts det live \<longleftrightarrow> map_of (ld_connections det) = (\<lambda>a. if a \<in> set live then Some (count_list live a) else None)"

lemma count_list_remove1: "count_list (remove1 a xs) b = count_list xs b - of_bool (a = b)"
  by (induction xs) (auto simp: count_list_0_iff Suc_diff_Suc)

lemma counts_track: "counts det live \<Longrightarrow> counts (track_connection det a) (a # live)"
  by (auto simp: counts_def track_connection_def fun_eq_iff count_list_0_iff)

lemma counts_drop:
  assumes "counts det live" "a \<in> set live"
  shows "counts (untrack_connection det a) (remove1 a live)"
proof -
  have n: "map_of (ld_connections det) a = Some (count_list live a)" "0 < count_list live a"
    using assms by (auto simp: counts_def count_list_0_iff neq0_conv [symmetric])
  have member: "b \<in> set (remove1 a live) \<longleftrightarrow> 0 < count_list live b - of_bool (a = b)" for b
    by (metis count_list_0_iff count_list_remove1 neq0_conv)
  have member': "b \<in> set live \<longleftrightarrow> 0 < count_list live b" for b
    by (metis count_list_0_iff neq0_conv)
  show ?thesis
    using assms(1) n by (auto simp: counts_def untrack_connection_def fun_eq_iff member member' count_list_remove1)
qed

lemma detector_identity [simp]:
  "ld_process_path (track_connection det a) = ld_process_path det" "ld_process_id (track_connection det a) = ld_process_id det"
  "ld_process_path (untrack_connection det a) = ld_process_path det" "ld_process_id (untrack_connection det a) = ld_process_id det"
  by (simp_all add: track_connection_def untrack_connection_def split: option.split)

lemma guarded_counts: "guarded exe pid det live \<Longrightarrow> counts det live \<and> ld_process_path det = exe \<and> ld_process_id det = pid"
proof (induction rule: guarded.induct)
  case guarded_new
  then show ?case
    by (simp add: counts_def loopback_detector_new_def)
qed (simp_all add: counts_track counts_drop)



end
