(* ===== verification/Spec2Isabelle.thy ===== *)
theory Spec2Isabelle
  imports Route_Properties Nat_Table Fakeip_Properties Fakeip_Answers Ip_Checksum Ip_Origin Socks5 Proxy_Sessions Quic_Reassembly Dns_Cache Sniff Drop_Delay Inbound_Auth Node_Set Loopback
begin

text \<open>
  \<^bold>\<open>doradus: the routing core, the FakeIP pools, the NAT table, the packet boundary, names, users and the proxy protocols.\<close>

  doradus is a network proxy written in Rust. A connection enters through an inbound or through
  the TUN device, gets a flow context (\<open>doradus-types\<close>), is routed by rules over domain names and
  networks (compiled from stored records in \<open>doradus-runtime\<close>, evaluated in \<open>doradus-trie\<close>), and leaves through an outbound. Names that are answered with an address
  of a private range get it from a FakeIP pool (contracts in \<open>doradus-dns\<close>, pools and tables in
  \<open>doradus-store\<close>); UDP flows share a NAT table (\<open>doradus-core\<close>); the TUN boundary cuts and
  reassembles IP packets (\<open>doradus-tun\<close>); clients and other proxies are spoken to in the formats of
  \<open>doradus-protocol\<close>. File names below are under \<open>src/crates\<close>.

  \<^bold>\<open>Theories.\<close>

  \<^item> \<open>Prelude\<close>: the collections of lemmas and the generic facts on lists, options and words.
  \<^item> \<open>Rust_Std\<close>: what the code uses of the Rust library, with panics as \<open>None\<close>: byte orders,
    string splitting and trimming, number parsing, address syntax.
  \<^item> \<open>Types\<close>: \<open>doradus-types/src/lib.rs\<close> and \<open>net.rs\<close>: domain names, endpoints, flow contexts,
    errors.
  \<^item> \<open>Index_Spec\<close>: the interface of an index from patterns to values as locales, and what a client
    may conclude from it; interpreted by the tries.
  \<^item> \<open>Domain_Trie\<close>, \<open>Cidr_Trie\<close>, \<open>Combined_Trie\<close>: \<open>doradus-trie/src/lib.rs\<close>. A node is a datatype with
    the fields of the struct; an insertion walks the labels or bits as the loop does. A trie built
    from any rule list answers as a scan of the list: the most specific pattern, the longest
    prefix. Removing what was just inserted restores every answer.
  \<^item> \<open>Disk_Build\<close>, \<open>Disk_Table\<close>, \<open>Host_Trie\<close>: \<open>doradus-trie/src/ondisk_build.rs\<close> and \<open>ondisk.rs\<close>: the
    external sort that writes the tables, the binary searches over the bytes, and the index with
    its memory and disk backends. The disk backend never matches more than the memory one, and the
    same unless a label has a byte below the dot, of which there is an example.
  \<^item> \<open>Router\<close>: \<open>doradus-trie/src/router.rs\<close>: rules, compilation, decisions, explanations, the
    published snapshot with roll-back, and proxy selection. The decision is the first accepting
    rule in priority order among those without a pattern and those of the best pattern.
  \<^item> \<open>Route_Rules\<close>: \<open>doradus-runtime/src/policy/route.rs\<close>, \<open>route_expressions.rs\<close> and the lookups of
    \<open>route_lists.rs\<close>: the compiler from stored rules, JSON values with nested conditions, to rules of
    the router. \<open>Route_Meaning\<close> reads a condition as a truth value of a flow and shows that the variants
    a condition is expanded into accept no other flow, and every such flow when the condition
    requires at most one network; \<open>Route_Properties\<close> carries this to the compiled rules and shows
    two conditions on which the expansion goes wrong.
  \<^item> \<open>Nat_Table\<close>: \<open>doradus-core/src/nat.rs\<close>: the table with its two indexes, the metrics and the
    relay. Every run keeps the indexes inverse; endpoints have one owner; a sweep is exact.
  \<^item> \<open>Fakeip_Config\<close>: \<open>doradus-dns/src/fakeip.rs\<close>: ranges, options, the domain policy, the reverse
    view and the parser of reverse names.
  \<^item> \<open>Fakeip_Store\<close>: \<open>doradus-store/src/fakeip_store.rs\<close> and the validators of \<open>row.rs\<close>: the two tables with
    their uniqueness constraints, each operation as a transaction that commits or changes nothing.
  \<^item> \<open>Fakeip_Pool\<close>: \<open>doradus-store/src/fakeip.rs\<close>, \<open>fakeip_pool_v4.rs\<close> and \<open>fakeip_pool_v6.rs\<close>: one model of
    both pools, which takes the address family as a record. \<open>Fakeip_Reach\<close> has the invariant of a
    pool with its database and that every operation keeps it, \<open>Fakeip_Guarantees\<close> what an
    allocation, an eviction and a reopening do, \<open>Fakeip_Properties\<close> the statements for the two
    families. \<open>Fakeip_Answers\<close>: \<open>doradus-store/src/fakeip_transform.rs\<close>: answers get the addresses of a pool, and
    reverse queries for these are answered with the name.
  \<^item> \<open>Ip_Fragment\<close>, \<open>Ip_Reassembly\<close>: \<open>doradus-tun/src/packet.rs\<close> and \<open>packet_reassembly.rs\<close>: cutting a packet for
    the MTU and the bounded reassembler. The reassembler never panics and keeps its bounds;
    \<open>Ip_Roundtrip\<close> shows that fragments in any order give back the packet, \<open>Ip_Origin\<close> that whatever
    comes out was received as fragments of one datagram, \<open>Ip_Checksum\<close> that IPv4 fragments verify.
  \<^item> \<open>Wire\<close>: what the proxy protocols share: packets with a cursor, streams as the bytes still to be
    read, conversations that read and write, UTF-8, comparison of secrets, and the interfaces of a
    codec of endpoints and of messages on a stream as locales, which the protocols interpret.
  \<^item> \<open>Yuubinsya\<close>: \<open>doradus-protocol/src/transports/yuubinsya/codec.rs\<close>; \<open>Trojan\<close>: \<open>protocols/trojan.rs\<close>;
    \<open>Vless\<close>: \<open>protocols/vless.rs\<close> with its stream, which hides the response header while bytes arrive in
    pieces; \<open>Socks5\<close>: both ends, \<open>servers/socks5.rs\<close> and \<open>protocols/socks5.rs\<close>; \<open>Proxy_Sessions\<close>: the clients and
    servers of Trojan and VLESS. What one end writes the other end reads back, streams are left
    where the payload begins, wrong secrets are refused, an association serves one client.
  \<^item> \<open>Quic_Datagram\<close>, \<open>Quic_Reassembly\<close>: \<open>transports/quic/codec.rs\<close>: the envelope of datagrams over QUIC with its
    variable-length integers, fragments and bounded reassembler. It never panics, keeps its
    budgets, hands on only what was sent, and the datagrams of a payload give it back in any order.
  \<^item> \<open>Drop_Delay\<close>: \<open>proxy/drop.rs\<close>: how long blocked flows wait; the table is bounded, the delays double.
  \<^item> \<open>Dns_Hosts\<close>: \<open>doradus-dns/src/dns_hosts.rs\<close>: the hosts table with aliases, ports and reverse entries, and its
    handlers. Aliases are followed to an end or to the cycle error; reverse answers are exact.
  \<^item> \<open>Dns_Cache\<close>: \<open>doradus-dns/src/cache.rs\<close>: the caches of typed answers and of packets over a map in order of
    use. Every operation ends within the capacity; what is given out is the last answer, unexpired.
  \<^item> \<open>Users\<close>: \<open>doradus-store/src/users.rs\<close>: users with their credentials, the tables, and the injection of a credential
    into a node. What is saved is read back. \<open>User_References\<close>: deleting a user never changes what a
    stored node is resolved to. \<open>Inbound_Auth\<close>: \<open>doradus-runtime/src/plane/inbounds/auth.rs\<close>: who may use an inbound, exactly
    the stored users that admit the client, also through the SOCKS5 server.
  \<^item> \<open>Node_Set\<close>: \<open>doradus-runtime/src/plane/proxy_adapters/node_set.rs\<close>: node tags, their fail-over and fairness; \<open>Loopback\<close>:
    \<open>doradus-runtime/src/support/loopback.rs\<close>: which flows are blocked as loops.
  \<^item> \<open>Sniff\<close>: \<open>doradus-core/src/sniff.rs\<close>: the server name of a TLS client hello and the host of an HTTP request.

  \<^bold>\<open>Conventions.\<close> A \<open>Result\<close> is a sum with the error on the left; a panic (an index out of range, an
  overflow in checked arithmetic, a failed \<open>expect\<close>) is \<open>None\<close> of an outer option where the code can
  reach it. Machine integers are words where they can wrap and natural numbers where the code
  bounds them. A hash map is an association list with distinct keys, a lock is never poisoned,
  and time is an argument. Writes to a stream succeed, a read past its end is an error. Loops are recursive functions with a termination proof; the loops that
  the code bounds by a count (sixteen extension headers) carry that count. No fuel is used
  otherwise.

  \<^bold>\<open>Parameters.\<close> The GeoIP database, the JSON parser, the directories of temporary indexes and the
  sockets of the relay are arguments of the functions that use them, as are the hash functions, the
  check of credentials, the handlers of a server, the text of a UTF-8 error, the memory sizes that the
  QUIC reassembler charges, the DNS packet codec, messages and upstreams, the linked hash map of the
  cache, and what the members of a node set answer; the outcome of each database statement is an argument of the store operations, so
  that every failure is covered.

  \<^bold>\<open>Not modelled.\<close> Asynchronous tasks, sockets and files as resources; cryptography and the
  transports that rest on it (TLS, QUIC connections, HTTP/2, WebSocket, the encrypted proxy protocols); the SQL of the configuration
  store outside the FakeIP and user tables, its migrations and the management interface; parsing through
  the third-party packet and message types of smoltcp and hickory; virtual private networks and
  platform bindings.
\<close>

end
